(* ===== verification/Prelude.thy ===== *)
theory Prelude
  imports Main "HOL-Library.Word"
begin

text \<open>
  Shared types, collections and generic lemmas of the development.

  Machine integers of the C sources are words of their width (\<open>unsigned int\<close> is \<open>u32\<close>,
  \<open>unsigned long\<close> and \<open>uint64_t\<close> are \<open>u64\<close> on the LP64 targets of the project); a pointer is
  an \<open>addr option\<close> whose \<open>None\<close> is NULL. Undefined behaviour (a NULL dereference, an index out
  of range, a call that never returns) is the value \<open>None\<close> of an outer \<open>option\<close>, so that a
  theorem whose conclusion is \<open>Some\<close> excludes it.
\<close>

type_synonym u8 = "8 word"
type_synonym u16 = "16 word"
type_synonym u32 = "32 word"
type_synonym u64 = "64 word"
type_synonym addr = nat
type_synonym ptr = "addr option"

named_theorems counter_simps \<open>counting the threads of a state after one of them moved\<close>
named_theorems ret_codes \<open>numeric values of the C return codes\<close>

section \<open>Lists\<close>

lemma count_list_update [counter_simps]:
  assumes "i < length xs"
  shows "count_list (xs[i := y]) z + (if xs ! i = z then 1 else 0)
       = count_list xs z + (if y = z then 1 else 0)"
  using assms
proof (induction xs arbitrary: i)
  case Nil
  then show ?case by simp
next
  case (Cons x xs)
  show ?case
  proof (cases i)
    case 0
    then show ?thesis by simp
  next
    case (Suc j)
    with Cons.IH [of j] Cons.prems show ?thesis by (auto split: if_splits)
  qed
qed

lemma count_list_pos_iff: "0 < count_list xs x \<longleftrightarrow> x \<in> set xs"
  by (induction xs) auto

lemma count_list_nth_pos: "i < length xs \<Longrightarrow> 0 < count_list xs (xs ! i)"
  by (simp add: count_list_pos_iff)

lemma count_list_upd:
  assumes "i < length xs"
  shows "count_list (xs[i := y]) z
       = count_list xs z + (if y = z then 1 else 0) - (if xs ! i = z then 1 else 0)"
  using count_list_update [OF assms, of y z] by auto

lemma count_list_pair_le: "a \<noteq> b \<Longrightarrow> count_list xs a + count_list xs b \<le> length xs"
  by (induction xs) auto

lemma mem_set_update:
  "i < length xs \<Longrightarrow> xs ! i \<noteq> q \<Longrightarrow> q \<in> set (xs[i := y]) \<longleftrightarrow> q = y \<or> q \<in> set xs"
  by (metis in_set_conv_nth length_list_update nth_list_update_eq nth_list_update_neq)

lemma mem_set_updateD: "q \<in> set (xs[i := y]) \<Longrightarrow> q = y \<or> q \<in> set xs"
  by (meson insertE set_update_subset_insert subsetD)

lemma mem_set_update_self: "i < length xs \<Longrightarrow> y \<in> set (xs[i := y])"
  by (simp add: set_update_memI)

lemma count_le_1_update:
  assumes "count_list xs q \<le> 1" and "i < length xs" and "xs ! i = q" and "y \<noteq> q"
  shows "q \<notin> set (xs[i := y])"
  using count_list_upd [OF assms(2), of y q] assms
  by (simp flip: count_list_0_iff)

lemma count_list_two:
  assumes "i < length xs" "j < length xs" "i \<noteq> j" "xs ! i = x" "xs ! j = x"
  shows "2 \<le> count_list xs x"
  using assms
proof (induction xs arbitrary: i j)
  case Nil
  then show ?case by simp
next
  case (Cons y ys)
  show ?case
  proof (cases i)
    case 0
    with Cons.prems obtain j' where j: "j = Suc j'" "j' < length ys" "ys ! j' = x"
      by (cases j) auto
    then have "0 < count_list ys x"
      by (auto simp: count_list_pos_iff)
    with 0 Cons.prems show ?thesis by simp
  next
    case (Suc i')
    show ?thesis
    proof (cases j)
      case 0
      with Suc Cons.prems have "0 < count_list ys x"
        by (auto simp: count_list_pos_iff)
      with 0 Cons.prems show ?thesis by simp
    next
      case (Suc j')
      with \<open>i = Suc i'\<close> Cons.prems have "2 \<le> count_list ys x"
        using Cons.IH [of i' j'] by simp
      then show ?thesis by simp
    qed
  qed
qed

lemma count_list_map_if:
  "a \<noteq> b \<Longrightarrow> count_list (map (\<lambda>p. if p = a then b else p) xs) a = 0"
  by (induction xs) auto

lemma count_list_map_if_target:
  "a \<noteq> b \<Longrightarrow>
   count_list (map (\<lambda>p. if p = a then b else p) xs) b = count_list xs b + count_list xs a"
  by (induction xs) auto

lemma count_list_map_if_other:
  "z \<noteq> a \<Longrightarrow> z \<noteq> b \<Longrightarrow>
   count_list (map (\<lambda>p. if p = a then b else p) xs) z = count_list xs z"
  by (induction xs) auto

lemmas count_list_broadcast [counter_simps] =
  count_list_map_if count_list_map_if_target count_list_map_if_other

section \<open>Words\<close>

lemma of_nat_count_update [counter_simps]:
  assumes "i < length xs"
  shows "(of_nat (count_list (xs[i := y]) z) :: u32)
       = of_nat (count_list xs z) + (if y = z then 1 else 0) - (if xs ! i = z then 1 else 0)"
proof -
  have "(of_nat (count_list (xs[i := y]) z + (if xs ! i = z then 1 else 0)) :: u32)
      = of_nat (count_list xs z + (if y = z then 1 else 0))"
    by (simp only: count_list_update [OF assms])
  then show ?thesis
    by (auto simp: algebra_simps split: if_splits)
qed

lemma of_nat_u32_pos_iff:
  assumes "n < 2 ^ 32"
  shows "(0 :: u32) < of_nat n \<longleftrightarrow> 0 < n"
proof -
  have "unat (of_nat n :: u32) = n"
    using assms by (simp add: unat_of_nat take_bit_nat_eq_self)
  then show ?thesis
    by (metis gr0I unat_0 word_gt_0 word_less_nat_alt)
qed

lemma of_nat_u32_eq_0_iff:
  assumes "n < 2 ^ 32"
  shows "(of_nat n :: u32) = 0 \<longleftrightarrow> n = 0"
  using of_nat_u32_pos_iff [OF assms] by (metis gr0I less_irrefl of_nat_0 word_gt_0)

lemma unat_less_plus_one:
  fixes i :: "'a::len word"
  assumes "i < j"
  shows "unat (i + 1) = Suc (unat i)"
proof -
  have "Suc (unat i) < 2 ^ LENGTH('a)"
    using assms unsigned_less [of j, where ?'a = nat] unfolding word_less_nat_alt by linarith
  then show ?thesis by (simp add: unat_word_ariths)
qed

lemma u32_bound: "unat (x :: u32) \<le> 2 ^ 32 - 1"
proof -
  have "unat x < 2 ^ 32" using unsigned_less [of x] by simp
  then show ?thesis by simp
qed

lemma unat_u64_of_u32: "unat (ucast (x :: u32) :: u64) = unat x"
proof -
  have "unat x < 2 ^ 32" using unsigned_less [of x] by simp
  then show ?thesis by (simp add: unsigned_ucast_eq take_bit_nat_eq_self_iff)
qed

end
