(* ===== verification/RW_Lock.thy ===== *)
theory RW_Lock
  imports Prelude
begin

text \<open>
  The readers/writer lock of \<^verbatim>\<open>RW_Lock/RW_Lock.c\<close>.

  The four counters of \<^verbatim>\<open>rw_lock_t\<close> are a record. Every operation runs under
  \<open>mutexProtect\<close>, so it is one atomic step, cut only where the code calls
  \<^verbatim>\<open>pthread_cond_wait\<close>: an operation either returns (\<open>Returns\<close>) or blocks (\<open>Blocks\<close>), and
  a blocked caller continues in a second definition when it is woken (\<open>P_r_woken\<close>,
  \<open>P_w_woken\<close>). The wake-up an operation performs on its way out is the value \<open>wake\<close>.

  The step relation \<open>rw_step\<close> runs the operations in any number of threads with the semantics
  POSIX gives condition variables: a woken thread competes for the mutex again, so other threads
  may run before it, and (with the flag set) it may also wake without any signal.
\<close>

record rw_lock =
  nbr_active :: u32
  nbr_waiting :: u32
  nbw_active :: u32
  nbw_waiting :: u32

datatype wake = NoWake | SignalWrite | BroadcastRead

datatype lock_result = Returns rw_lock | Blocks rw_lock

definition rw_lock_zero :: rw_lock where
  "rw_lock_zero = \<lparr>nbr_active = 0, nbr_waiting = 0, nbw_active = 0, nbw_waiting = 0\<rparr>"

text \<open>
  \<^verbatim>\<open>rw_lock_init\<close> fails with 1 as soon as one of the five pthread initialisers returns a
  code other than 0; the codes are arguments. On failure the counters keep their old content.
\<close>

record pthread_codes =
  rc_mutexattr_init :: int
  rc_condattr_init :: int
  rc_mutex_init :: int
  rc_cond_init_read :: int
  rc_cond_init_write :: int

definition rw_lock_init :: "pthread_codes \<Rightarrow> rw_lock \<Rightarrow> int \<times> rw_lock" where
  "rw_lock_init c plock =
     (if rc_mutexattr_init c \<noteq> 0 then (1, plock)
      else if rc_condattr_init c \<noteq> 0 then (1, plock)
      else if rc_mutex_init c \<noteq> 0 then (1, plock)
      else if rc_cond_init_read c \<noteq> 0 then (1, plock)
      else if rc_cond_init_write c \<noteq> 0 then (1, plock)
      else (0, plock\<lparr>nbr_waiting := 0, nbr_active := 0, nbw_waiting := 0, nbw_active := 0\<rparr>))"

record pthread_destroy_codes =
  rc_mutex_destroy :: int
  rc_cond_destroy_write :: int
  rc_cond_destroy_read :: int

definition rw_lock_destroy :: "pthread_destroy_codes \<Rightarrow> rw_lock \<Rightarrow> int \<times> rw_lock" where
  "rw_lock_destroy c plock =
     (if rc_mutex_destroy c \<noteq> 0 then (1, plock)
      else if rc_cond_destroy_write c \<noteq> 0 then (1, plock)
      else if rc_cond_destroy_read c \<noteq> 0 then (1, plock)
      else (0, rw_lock_zero))"

text \<open>After the wait (or without one): no more waiting, now active.\<close>

definition P_r_woken :: "rw_lock \<Rightarrow> rw_lock" where
  "P_r_woken plock =
     plock\<lparr>nbr_waiting := nbr_waiting plock - 1, nbr_active := nbr_active plock + 1\<rparr>"

definition P_r :: "rw_lock \<Rightarrow> lock_result" where
  "P_r plock =
     (let plock = plock\<lparr>nbr_waiting := nbr_waiting plock + 1\<rparr> in
      if nbw_active plock > 0 \<or> nbw_waiting plock > 0 then Blocks plock
      else Returns (P_r_woken plock))"

definition V_r :: "rw_lock \<Rightarrow> rw_lock \<times> wake" where
  "V_r plock =
     (let plock = plock\<lparr>nbr_active := nbr_active plock - 1\<rparr> in
      (plock, if nbr_active plock = 0 \<and> nbw_waiting plock > 0 then SignalWrite else NoWake))"

text \<open>The body of the \<^verbatim>\<open>while\<close> of \<^verbatim>\<open>P_w\<close>: a woken writer tests the condition again.\<close>

definition P_w_woken :: "rw_lock \<Rightarrow> lock_result" where
  "P_w_woken plock =
     (if nbr_active plock > 0 \<or> nbw_active plock > 0 then Blocks plock
      else Returns (plock\<lparr>nbw_waiting := nbw_waiting plock - 1,
                          nbw_active := nbw_active plock + 1\<rparr>))"

definition P_w :: "rw_lock \<Rightarrow> lock_result" where
  "P_w plock = P_w_woken (plock\<lparr>nbw_waiting := nbw_waiting plock + 1\<rparr>)"

definition V_w :: "rw_lock \<Rightarrow> rw_lock \<times> wake" where
  "V_w plock =
     (let plock = plock\<lparr>nbw_active := nbw_active plock - 1\<rparr> in
      (plock,
       if nbw_waiting plock > 0 then SignalWrite
       else if nbr_waiting plock > 0 then BroadcastRead
       else NoWake))"

definition rw_lock_downgrade :: "rw_lock \<Rightarrow> rw_lock \<times> wake" where
  "rw_lock_downgrade plock =
     (let plock = plock\<lparr>nbw_active := nbw_active plock - 1\<rparr>;
          w = (if nbr_waiting plock > 0 then BroadcastRead else NoWake)
      in (plock\<lparr>nbr_active := nbr_active plock + 1\<rparr>, w))"

section \<open>Threads\<close>

datatype pc = Idle | WaitR | WokenR | Reading | WaitW | WokenW | Writing

record rw_sys =
  lck :: rw_lock
  pcs :: "pc list"

text \<open>
  The effect of a wake-up on the other threads: a broadcast wakes every reader blocked on
  \<open>condRead\<close>; a signal wakes one writer blocked on \<open>condWrite\<close>, if there is one.
\<close>

inductive wakes :: "wake \<Rightarrow> pc list \<Rightarrow> pc list \<Rightarrow> bool" where
  no_wake: "wakes NoWake ps ps"
| broadcast_read: "wakes BroadcastRead ps (map (\<lambda>p. if p = WaitR then WokenR else p) ps)"
| signal_write: "i < length ps \<Longrightarrow> ps ! i = WaitW \<Longrightarrow> wakes SignalWrite ps (ps[i := WokenW])"
| signal_none: "WaitW \<notin> set ps \<Longrightarrow> wakes SignalWrite ps ps"

inductive rw_step :: "bool \<Rightarrow> rw_sys \<Rightarrow> rw_sys \<Rightarrow> bool" for spurious :: bool where
  read_now: "i < length ps \<Longrightarrow> ps ! i = Idle \<Longrightarrow> P_r l = Returns l' \<Longrightarrow>
     rw_step spurious \<lparr>lck = l, pcs = ps\<rparr> \<lparr>lck = l', pcs = ps[i := Reading]\<rparr>"
| read_wait: "i < length ps \<Longrightarrow> ps ! i = Idle \<Longrightarrow> P_r l = Blocks l' \<Longrightarrow>
     rw_step spurious \<lparr>lck = l, pcs = ps\<rparr> \<lparr>lck = l', pcs = ps[i := WaitR]\<rparr>"
| read_resume: "i < length ps \<Longrightarrow> ps ! i = WokenR \<Longrightarrow>
     rw_step spurious \<lparr>lck = l, pcs = ps\<rparr> \<lparr>lck = P_r_woken l, pcs = ps[i := Reading]\<rparr>"
| read_release: "i < length ps \<Longrightarrow> ps ! i = Reading \<Longrightarrow> V_r l = (l', w) \<Longrightarrow>
     wakes w (ps[i := Idle]) ps' \<Longrightarrow>
     rw_step spurious \<lparr>lck = l, pcs = ps\<rparr> \<lparr>lck = l', pcs = ps'\<rparr>"
| write_now: "i < length ps \<Longrightarrow> ps ! i = Idle \<Longrightarrow> P_w l = Returns l' \<Longrightarrow>
     rw_step spurious \<lparr>lck = l, pcs = ps\<rparr> \<lparr>lck = l', pcs = ps[i := Writing]\<rparr>"
| write_wait: "i < length ps \<Longrightarrow> ps ! i = Idle \<Longrightarrow> P_w l = Blocks l' \<Longrightarrow>
     rw_step spurious \<lparr>lck = l, pcs = ps\<rparr> \<lparr>lck = l', pcs = ps[i := WaitW]\<rparr>"
| write_resume: "i < length ps \<Longrightarrow> ps ! i = WokenW \<Longrightarrow> P_w_woken l = Returns l' \<Longrightarrow>
     rw_step spurious \<lparr>lck = l, pcs = ps\<rparr> \<lparr>lck = l', pcs = ps[i := Writing]\<rparr>"
| write_rewait: "i < length ps \<Longrightarrow> ps ! i = WokenW \<Longrightarrow> P_w_woken l = Blocks l' \<Longrightarrow>
     rw_step spurious \<lparr>lck = l, pcs = ps\<rparr> \<lparr>lck = l', pcs = ps[i := WaitW]\<rparr>"
| write_release: "i < length ps \<Longrightarrow> ps ! i = Writing \<Longrightarrow> V_w l = (l', w) \<Longrightarrow>
     wakes w (ps[i := Idle]) ps' \<Longrightarrow>
     rw_step spurious \<lparr>lck = l, pcs = ps\<rparr> \<lparr>lck = l', pcs = ps'\<rparr>"
| downgrade: "i < length ps \<Longrightarrow> ps ! i = Writing \<Longrightarrow> rw_lock_downgrade l = (l', w) \<Longrightarrow>
     wakes w (ps[i := Reading]) ps' \<Longrightarrow>
     rw_step spurious \<lparr>lck = l, pcs = ps\<rparr> \<lparr>lck = l', pcs = ps'\<rparr>"
| spurious_read: "spurious \<Longrightarrow> i < length ps \<Longrightarrow> ps ! i = WaitR \<Longrightarrow>
     rw_step spurious \<lparr>lck = l, pcs = ps\<rparr> \<lparr>lck = l, pcs = ps[i := WokenR]\<rparr>"
| spurious_write: "spurious \<Longrightarrow> i < length ps \<Longrightarrow> ps ! i = WaitW \<Longrightarrow>
     rw_step spurious \<lparr>lck = l, pcs = ps\<rparr> \<lparr>lck = l, pcs = ps[i := WokenW]\<rparr>"

inductive rw_reachable :: "bool \<Rightarrow> nat \<Rightarrow> rw_sys \<Rightarrow> bool" for spurious :: bool and n :: nat where
  start: "rw_reachable spurious n \<lparr>lck = rw_lock_zero, pcs = replicate n Idle\<rparr>"
| step: "rw_reachable spurious n s \<Longrightarrow> rw_step spurious s t \<Longrightarrow> rw_reachable spurious n t"

inductive_cases rw_stepE: "rw_step spurious s t"

lemmas lock_defs = P_r_def P_r_woken_def V_r_def P_w_def P_w_woken_def V_w_def
  rw_lock_downgrade_def Let_def

lemma wakes_length: "wakes w ps ps' \<Longrightarrow> length ps' = length ps"
  by (induction rule: wakes.induct) auto

lemma wakes_counts:
  assumes "wakes w ps ps'"
  shows "count_list ps' Reading = count_list ps Reading"
    and "count_list ps' Writing = count_list ps Writing"
    and "count_list ps' WaitR + count_list ps' WokenR = count_list ps WaitR + count_list ps WokenR"
    and "count_list ps' WaitW + count_list ps' WokenW = count_list ps WaitW + count_list ps WokenW"
  using assms
  by (induction rule: wakes.induct)
    (auto simp: count_list_broadcast count_list_upd, metis count_list_nth_pos Suc_pred add_Suc)

lemma wakes_counts_u32:
  assumes "wakes w ps ps'"
  shows "of_nat (count_list ps' WaitR) + of_nat (count_list ps' WokenR)
       = (of_nat (count_list ps WaitR) + of_nat (count_list ps WokenR) :: u32)"
    and "of_nat (count_list ps' WaitW) + of_nat (count_list ps' WokenW)
       = (of_nat (count_list ps WaitW) + of_nat (count_list ps WokenW) :: u32)"
  using wakes_counts(3,4) [OF assms] by (simp_all flip: of_nat_add)

lemmas wakes_simps = wakes_counts(1,2) wakes_counts_u32

section \<open>The counters count the threads\<close>

definition rw_counts :: "rw_sys \<Rightarrow> bool" where
  "rw_counts s \<longleftrightarrow>
     nbr_active (lck s) = of_nat (count_list (pcs s) Reading) \<and>
     nbw_active (lck s) = of_nat (count_list (pcs s) Writing) \<and>
     nbr_waiting (lck s) = of_nat (count_list (pcs s) WaitR + count_list (pcs s) WokenR) \<and>
     nbw_waiting (lck s) = of_nat (count_list (pcs s) WaitW + count_list (pcs s) WokenW)"

lemma rw_step_length: "rw_step spurious s t \<Longrightarrow> length (pcs t) = length (pcs s)"
  by (induction rule: rw_step.induct) (auto dest: wakes_length)

lemma rw_step_counts:
  assumes "rw_step spurious s t" and "rw_counts s"
  shows "rw_counts t"
  using assms
proof (induction rule: rw_step.induct)
  case (read_release i ps l l' w ps')
  then show ?case
    by (auto simp: rw_counts_def lock_defs wakes_simps counter_simps)
next
  case (write_release i ps l l' w ps')
  then show ?case
    by (auto simp: rw_counts_def lock_defs wakes_simps counter_simps)
next
  case (downgrade i ps l l' w ps')
  then show ?case
    by (auto simp: rw_counts_def lock_defs wakes_simps counter_simps)
qed (auto simp: rw_counts_def lock_defs counter_simps split: if_splits)

lemma rw_counts_bounded:
  assumes "rw_counts s" and "length (pcs s) < 2 ^ 32"
  shows "0 < nbr_active (lck s) \<longleftrightarrow> Reading \<in> set (pcs s)"
    and "0 < nbw_active (lck s) \<longleftrightarrow> Writing \<in> set (pcs s)"
    and "0 < nbr_waiting (lck s) \<longleftrightarrow> WaitR \<in> set (pcs s) \<or> WokenR \<in> set (pcs s)"
    and "0 < nbw_waiting (lck s) \<longleftrightarrow> WaitW \<in> set (pcs s) \<or> WokenW \<in> set (pcs s)"
proof -
  have c: "count_list (pcs s) p < 2 ^ 32" for p
    using count_le_length [of "pcs s" p] assms(2) by linarith
  have w: "p \<noteq> q \<Longrightarrow> count_list (pcs s) p + count_list (pcs s) q < 2 ^ 32" for p q
    using count_list_pair_le [of p q "pcs s"] assms(2) by linarith
  show "0 < nbr_active (lck s) \<longleftrightarrow> Reading \<in> set (pcs s)"
    using assms(1) of_nat_u32_pos_iff [OF c] by (simp add: rw_counts_def count_list_pos_iff)
  show "0 < nbw_active (lck s) \<longleftrightarrow> Writing \<in> set (pcs s)"
    using assms(1) of_nat_u32_pos_iff [OF c] by (simp add: rw_counts_def count_list_pos_iff)
  show "0 < nbr_waiting (lck s) \<longleftrightarrow> WaitR \<in> set (pcs s) \<or> WokenR \<in> set (pcs s)"
    using assms(1) of_nat_u32_pos_iff [OF w [of WaitR WokenR]] count_list_pos_iff [of "pcs s"]
    by (simp add: rw_counts_def del: of_nat_add)
  show "0 < nbw_waiting (lck s) \<longleftrightarrow> WaitW \<in> set (pcs s) \<or> WokenW \<in> set (pcs s)"
    using assms(1) of_nat_u32_pos_iff [OF w [of WaitW WokenW]] count_list_pos_iff [of "pcs s"]
    by (simp add: rw_counts_def del: of_nat_add)
qed

lemma rw_reachable_counts:
  "rw_reachable spurious n s \<Longrightarrow> length (pcs s) = n \<and> rw_counts s"
proof (induction rule: rw_reachable.induct)
  case start
  have "count_list (replicate n Idle) p = 0" if "p \<noteq> Idle" for p
    using that by (simp add: count_list_0_iff)
  then show ?case by (simp add: rw_counts_def rw_lock_zero_def)
next
  case (step s t)
  then show ?case using rw_step_length rw_step_counts by metis
qed

section \<open>Exclusion\<close>

text \<open>What must hold for a writer to be granted the lock: nobody is active.\<close>

lemma P_w_woken_Returns: "P_w_woken l = Returns l' \<Longrightarrow> nbr_active l = 0 \<and> nbw_active l = 0"
  by (auto simp: P_w_woken_def word_gt_0 split: if_splits)

lemma P_w_Returns: "P_w l = Returns l' \<Longrightarrow> nbr_active l = 0 \<and> nbw_active l = 0"
  unfolding P_w_def by (drule P_w_woken_Returns) simp

lemma P_r_Returns: "P_r l = Returns l' \<Longrightarrow> nbw_active l = 0 \<and> nbw_waiting l = 0"
  by (auto simp: P_r_def word_gt_0 Let_def split: if_splits)

definition exclusive :: "rw_sys \<Rightarrow> bool" where
  "exclusive s \<longleftrightarrow> \<not> (Reading \<in> set (pcs s) \<and> Writing \<in> set (pcs s))"

lemma wakes_active:
  assumes "wakes w ps ps'"
  shows "Reading \<in> set ps' \<longleftrightarrow> Reading \<in> set ps"
    and "Writing \<in> set ps' \<longleftrightarrow> Writing \<in> set ps"
  using wakes_counts(1,2) [OF assms] by (metis count_list_pos_iff)+

lemma rw_step_one_writer:
  assumes "rw_step spurious s t" and "rw_counts s" and "length (pcs s) < 2 ^ 32"
    and "count_list (pcs s) Writing \<le> 1"
  shows "count_list (pcs t) Writing \<le> 1"
proof -
  have active: "0 < nbw_active (lck s) \<longleftrightarrow> Writing \<in> set (pcs s)"
    using rw_counts_bounded [OF assms(2,3)] by simp
  from assms(1) active assms(4) show ?thesis
    by (induction rule: rw_step.induct)
      (auto simp: count_list_upd wakes_counts count_list_0_iff word_gt_0
        dest!: P_w_Returns P_w_woken_Returns simp flip: count_list_0_iff)
qed

lemma rw_reachable_one_writer:
  assumes "rw_reachable spurious n s" and "n < 2 ^ 32"
  shows "count_list (pcs s) Writing \<le> 1"
  using assms
proof (induction rule: rw_reachable.induct)
  case start
  have "count_list (replicate n Idle) Writing = 0" by (simp add: count_list_0_iff)
  then show ?case by simp
next
  case (step s t)
  from rw_reachable_counts [OF step.hyps(1)] have "length (pcs s) = n" "rw_counts s" by auto
  with step rw_step_one_writer [OF step.hyps(2)] show ?case by simp
qed

lemma rw_step_exclusive:
  assumes "rw_step spurious s t" and "rw_counts s" and "length (pcs s) < 2 ^ 32"
    and "count_list (pcs s) Writing \<le> 1" and "exclusive s" and "\<not> exclusive t"
  shows "\<exists>i < length (pcs s). pcs s ! i = WokenR \<and> pcs t = (pcs s)[i := Reading] \<and>
           lck t = P_r_woken (lck s) \<and> 0 < nbw_active (lck s)"
proof -
  have active: "0 < nbr_active (lck s) \<longleftrightarrow> Reading \<in> set (pcs s)"
    "0 < nbw_active (lck s) \<longleftrightarrow> Writing \<in> set (pcs s)"
    using rw_counts_bounded [OF assms(2,3)] by simp_all
  from assms(1) active assms(4-6) show ?thesis
    by (induction rule: rw_step.induct)
      (auto simp: exclusive_def wakes_active mem_set_update word_gt_0 count_le_1_update
        dest!: P_w_Returns P_w_woken_Returns P_r_Returns dest: mem_set_updateD)
qed

section \<open>No lost wake-up\<close>

text \<open>
  Readers only block behind a writer that is active or waiting, and writers only block behind
  somebody who will signal them: an active thread or another woken writer.
\<close>

definition rw_served :: "rw_sys \<Rightarrow> bool" where
  "rw_served s \<longleftrightarrow>
     (WaitR \<in> set (pcs s) \<longrightarrow> {WaitW, WokenW, Writing} \<inter> set (pcs s) \<noteq> {}) \<and>
     (WaitW \<in> set (pcs s) \<longrightarrow> {Reading, WokenW, Writing} \<inter> set (pcs s) \<noteq> {})"

lemma wakes_SignalWrite:
  assumes "wakes SignalWrite ps ps'"
  shows "WaitW \<in> set ps \<or> WokenW \<in> set ps \<Longrightarrow> WokenW \<in> set ps'"
    and "WaitR \<in> set ps' \<longleftrightarrow> WaitR \<in> set ps"
  using assms by (cases rule: wakes.cases; auto simp: mem_set_update mem_set_update_self)+

lemma wakes_BroadcastRead:
  assumes "wakes BroadcastRead ps ps'"
  shows "WaitR \<notin> set ps'"
    and "p \<noteq> WaitR \<Longrightarrow> p \<in> set ps \<Longrightarrow> p \<in> set ps'"
    and "p \<noteq> WaitR \<Longrightarrow> p \<noteq> WokenR \<Longrightarrow> p \<in> set ps' \<Longrightarrow> p \<in> set ps"
  using assms by (cases rule: wakes.cases; force)+

lemma wakes_NoWake: "wakes NoWake ps ps' \<Longrightarrow> ps' = ps"
  by (cases rule: wakes.cases) auto

lemma rw_served_read_release:
  assumes "rw_counts \<lparr>lck = l', pcs = ps\<rparr>" and "length ps < 2 ^ 32"
    and "w = (if nbr_active l' = 0 \<and> nbw_waiting l' > 0 then SignalWrite else NoWake)"
    and "wakes w ps ps'"
    and "WaitR \<in> set ps \<Longrightarrow> {WaitW, WokenW, Writing} \<inter> set ps \<noteq> {}"
  shows "rw_served \<lparr>lck = l', pcs = ps'\<rparr>"
proof -
  have act: "0 < nbr_active l' \<longleftrightarrow> Reading \<in> set ps"
    "0 < nbw_waiting l' \<longleftrightarrow> WaitW \<in> set ps \<or> WokenW \<in> set ps"
    using rw_counts_bounded [OF assms(1)] assms(2) by simp_all
  show ?thesis
  proof (cases "nbr_active l' = 0 \<and> nbw_waiting l' > 0")
    case True
    then have "wakes SignalWrite ps ps'" using assms by simp
    from wakes_SignalWrite [OF this] True act show ?thesis
      by (auto simp: rw_served_def)
  next
    case False
    then have "ps' = ps" using assms by (auto dest: wakes_NoWake)
    with False act assms(5) show ?thesis
      by (auto simp: rw_served_def word_gt_0)
  qed
qed

lemma rw_served_write_release:
  assumes "rw_counts \<lparr>lck = l', pcs = ps\<rparr>" and "length ps < 2 ^ 32"
    and w: "w = (if nbw_waiting l' > 0 then SignalWrite
                 else if nbr_waiting l' > 0 then BroadcastRead else NoWake)"
    and "wakes w ps ps'"
  shows "rw_served \<lparr>lck = l', pcs = ps'\<rparr>"
proof -
  have act: "0 < nbr_waiting l' \<longleftrightarrow> WaitR \<in> set ps \<or> WokenR \<in> set ps"
    "0 < nbw_waiting l' \<longleftrightarrow> WaitW \<in> set ps \<or> WokenW \<in> set ps"
    using rw_counts_bounded [OF assms(1)] assms(2) by simp_all
  consider (writer) "0 < nbw_waiting l'" "wakes SignalWrite ps ps'"
    | (reader) "\<not> 0 < nbw_waiting l'" "wakes BroadcastRead ps ps'"
    | (nobody) "\<not> 0 < nbw_waiting l'" "\<not> 0 < nbr_waiting l'" "ps' = ps"
    using assms(4) w wakes_NoWake by (auto split: if_splits)
  then show ?thesis
  proof cases
    case writer
    from wakes_SignalWrite [OF writer(2)] writer(1) act show ?thesis
      by (auto simp: rw_served_def)
  next
    case reader
    from wakes_BroadcastRead [OF reader(2)] reader(1) act show ?thesis
      by (auto simp: rw_served_def)
  next
    case nobody
    with act show ?thesis by (auto simp: rw_served_def)
  qed
qed

lemma rw_served_downgrade:
  assumes "rw_counts \<lparr>lck = l', pcs = ps\<rparr>" and "length ps < 2 ^ 32"
    and w: "w = (if nbr_waiting l' > 0 then BroadcastRead else NoWake)"
    and "wakes w ps ps'" and "Reading \<in> set ps"
  shows "rw_served \<lparr>lck = l', pcs = ps'\<rparr>"
proof -
  have act: "0 < nbr_waiting l' \<longleftrightarrow> WaitR \<in> set ps \<or> WokenR \<in> set ps"
    using rw_counts_bounded [OF assms(1)] assms(2) by simp
  have "WaitR \<notin> set ps'"
    using assms(4) w act wakes_NoWake wakes_BroadcastRead(1) by (auto split: if_splits)
  moreover have "Reading \<in> set ps'"
    using wakes_active [OF assms(4)] assms(5) by simp
  ultimately show ?thesis by (auto simp: rw_served_def)
qed

lemma rw_step_served:
  assumes "rw_step spurious s t" and "rw_counts s" and "length (pcs s) < 2 ^ 32"
    and "rw_served s"
  shows "rw_served t"
proof -
  have bnd: "0 < nbr_active (lck s) \<longleftrightarrow> Reading \<in> set (pcs s)"
    "0 < nbw_active (lck s) \<longleftrightarrow> Writing \<in> set (pcs s)"
    "0 < nbw_waiting (lck s) \<longleftrightarrow> WaitW \<in> set (pcs s) \<or> WokenW \<in> set (pcs s)"
    using rw_counts_bounded [OF assms(2,3)] by simp_all
  from assms(1) bnd assms(2-4) show ?thesis
  proof (induction rule: rw_step.induct)
    case (read_release i ps l l' w ps')
    have "rw_counts \<lparr>lck = l', pcs = ps[i := Idle]\<rparr>"
      using read_release by (auto simp: rw_counts_def lock_defs counter_simps)
    moreover have "WaitR \<in> set (ps[i := Idle]) \<Longrightarrow>
        {WaitW, WokenW, Writing} \<inter> set (ps[i := Idle]) \<noteq> {}"
      using read_release by (auto simp: rw_served_def mem_set_update)
    moreover have "w = (if nbr_active l' = 0 \<and> nbw_waiting l' > 0 then SignalWrite else NoWake)"
      using read_release.hyps(3) by (auto simp: V_r_def Let_def)
    moreover have "length (ps[i := Idle]) < 2 ^ 32" using read_release by simp
    ultimately show ?case
      using rw_served_read_release read_release.hyps(4) by blast
  next
    case (write_release i ps l l' w ps')
    have "rw_counts \<lparr>lck = l', pcs = ps[i := Idle]\<rparr>"
      using write_release by (auto simp: rw_counts_def lock_defs counter_simps)
    moreover have "w = (if nbw_waiting l' > 0 then SignalWrite
                 else if nbr_waiting l' > 0 then BroadcastRead else NoWake)"
      using write_release.hyps(3) by (auto simp: V_w_def Let_def)
    moreover have "length (ps[i := Idle]) < 2 ^ 32" using write_release by simp
    ultimately show ?case
      using rw_served_write_release write_release.hyps(4) by blast
  next
    case (downgrade i ps l l' w ps')
    have "rw_counts \<lparr>lck = l', pcs = ps[i := Reading]\<rparr>"
      using downgrade by (auto simp: rw_counts_def lock_defs counter_simps)
    moreover have "w = (if nbr_waiting l' > 0 then BroadcastRead else NoWake)"
      using downgrade.hyps(3) by (auto simp: rw_lock_downgrade_def Let_def)
    moreover have "length (ps[i := Reading]) < 2 ^ 32" "Reading \<in> set (ps[i := Reading])"
      using downgrade by (simp_all add: mem_set_update_self)
    ultimately show ?case
      using rw_served_downgrade downgrade.hyps(4) by blast
  qed (auto simp: rw_served_def lock_defs mem_set_update mem_set_update_self
      dest: mem_set_updateD split: if_splits)
qed

lemma rw_reachable_served:
  assumes "rw_reachable spurious n s" and "n < 2 ^ 32"
  shows "rw_served s"
  using assms
proof (induction rule: rw_reachable.induct)
  case start
  then show ?case by (simp add: rw_served_def)
next
  case (step s t)
  from rw_reachable_counts [OF step.hyps(1)] have "length (pcs s) = n" "rw_counts s" by auto
  with step rw_step_served [OF step.hyps(2)] show ?case by simp
qed

text \<open>A thread that is active or woken can always take its next step.\<close>

lemma wakes_total: "\<exists>ps'. wakes w ps ps'"
proof (cases w)
  case SignalWrite
  then show ?thesis
    by (cases "WaitW \<in> set ps")
      (metis in_set_conv_nth wakes.signal_write, metis wakes.signal_none)
qed (auto intro: wakes.intros)

lemma rw_enabled:
  assumes "i < length (pcs s)" and "pcs s ! i \<in> {Reading, Writing, WokenR, WokenW}"
  shows "\<exists>t. rw_step spurious s t"
proof -
  obtain l ps where s: "s = \<lparr>lck = l, pcs = ps\<rparr>" by (cases s) auto
  from assms(2) consider "ps ! i = Reading" | "ps ! i = Writing" | "ps ! i = WokenR"
    | "ps ! i = WokenW" using s by auto
  then show ?thesis
  proof cases
    case 1
    obtain l' w where "V_r l = (l', w)" by (cases "V_r l")
    with 1 show ?thesis using wakes_total [of w "ps[i := Idle]"] assms(1) s
      by (auto intro: rw_step.read_release)
  next
    case 2
    obtain l' w where "V_w l = (l', w)" by (cases "V_w l")
    with 2 show ?thesis using wakes_total [of w "ps[i := Idle]"] assms(1) s
      by (auto intro: rw_step.write_release)
  next
    case 3
    with assms(1) s show ?thesis by (auto intro: rw_step.read_resume)
  next
    case 4
    with assms(1) s show ?thesis
      by (cases "P_w_woken l") (auto intro: rw_step.write_resume rw_step.write_rewait)
  qed
qed

section \<open>A run where the lock fails\<close>

text \<open>A run of two threads, as three reachable states.\<close>

abbreviation two_threads :: "u32 \<Rightarrow> u32 \<Rightarrow> u32 \<Rightarrow> pc \<Rightarrow> pc \<Rightarrow> rw_sys" where
  "two_threads ra rw wa a b \<equiv>
     \<lparr>lck = \<lparr>nbr_active = ra, nbr_waiting = rw, nbw_active = wa, nbw_waiting = 0\<rparr>, pcs = [a, b]\<rparr>"

lemma rw_run_blocked: "rw_reachable False 2 (two_threads 0 1 1 Writing WaitR)"
proof -
  have "rw_reachable False 2 (two_threads 0 0 0 Idle Idle)"
    using rw_reachable.start [of False 2] by (simp add: rw_lock_zero_def numeral_2_eq_2)
  then have "rw_reachable False 2 (two_threads 0 0 1 Writing Idle)"
    by (rule rw_reachable.step)
      (use rw_step.write_now [of 0 "[Idle, Idle]"] in \<open>force simp: lock_defs\<close>)
  then show ?thesis
    by (rule rw_reachable.step)
      (use rw_step.read_wait [of 1 "[Writing, Idle]"] in \<open>force simp: lock_defs\<close>)
qed

lemma rw_run_overtaken: "rw_reachable False 2 (two_threads 0 1 1 Writing WokenR)"
proof -
  have "rw_reachable False 2 (two_threads 0 1 0 Idle WokenR)"
    by (rule rw_reachable.step [OF rw_run_blocked])
      (use rw_step.write_release [of 0 "[Writing, WaitR]"] wakes.broadcast_read [of "[Idle, WaitR]"]
        in \<open>force simp: lock_defs\<close>)
  then show ?thesis
    by (rule rw_reachable.step)
      (use rw_step.write_now [of 0 "[Idle, WokenR]"] in \<open>force simp: lock_defs\<close>)
qed

lemma rw_step_overlap:
  "rw_step False (two_threads 0 1 1 Writing WokenR) (two_threads 1 0 1 Writing Reading)"
  using rw_step.read_resume [of 1 "[Writing, WokenR]" False
      "\<lparr>nbr_active = 0, nbr_waiting = 1, nbw_active = 1, nbw_waiting = 0\<rparr>"]
  by (simp add: lock_defs)

lemmas rw_run_overlap = rw_reachable.step [OF rw_run_overtaken rw_step_overlap]

section \<open>Properties\<close>

text \<open>
  C17. Writers exclude each other: whatever the interleaving, and even with spurious wake-ups,
  two threads never hold the lock for writing at once.
\<close>

theorem rw_writers_exclusive:
  assumes "rw_reachable spurious n s" and "n < 2 ^ 32"
    and "i < n" and "j < n" and "pcs s ! i = Writing" and "pcs s ! j = Writing"
  shows "i = j"
proof (rule ccontr)
  assume "i \<noteq> j"
  with assms rw_reachable_counts [OF assms(1)] have "2 \<le> count_list (pcs s) Writing"
    by (auto intro: count_list_two)
  with rw_reachable_one_writer [OF assms(1,2)] show False by simp
qed

theorem rw_writers_exclusive_witness:
  "\<exists>s. rw_reachable False 2 s \<and> pcs s ! 0 = Writing \<and> (\<forall>j < 2. pcs s ! j = Writing \<longrightarrow> 0 = j)"
  using rw_run_overlap rw_writers_exclusive [OF rw_run_overlap, of 0] by force

text \<open>
  The only transition that can put a reader beside an active writer is the one of a reader
  that was blocked in \<^verbatim>\<open>P_r\<close> and was woken: every other step of every operation keeps readers and
  writers apart. \<^verbatim>\<open>P_r\<close> does not test its condition again after \<^verbatim>\<open>pthread_cond_wait\<close>.
\<close>

theorem rw_exclusion_lost_only_in_P_r:
  assumes "rw_reachable spurious n s" and "n < 2 ^ 32"
    and "rw_step spurious s t" and "exclusive s" and "\<not> exclusive t"
  shows "\<exists>i < n. pcs s ! i = WokenR \<and> pcs t = (pcs s)[i := Reading] \<and>
           lck t = P_r_woken (lck s) \<and> 0 < nbw_active (lck s)"
  using rw_step_exclusive [OF assms(3)] rw_reachable_counts [OF assms(1)]
    rw_reachable_one_writer [OF assms(1,2)] assms(2,4,5) by blast

theorem rw_exclusion_lost_only_in_P_r_witness:
  "\<exists>i < (2::nat). pcs (two_threads 0 1 1 Writing WokenR) ! i = WokenR"
  using rw_exclusion_lost_only_in_P_r [OF rw_run_overtaken _ rw_step_overlap]
  by (auto simp: exclusive_def)

text \<open>
  Readers and writers do overlap: with two threads and no spurious wake-up, a run of
  \<^verbatim>\<open>P_w; V_w; P_w\<close> in one thread and \<^verbatim>\<open>P_r\<close> in the other reaches a state where one reader and one
  writer are active at the same time (a broadcast reader is overtaken by the second \<^verbatim>\<open>P_w\<close>).
\<close>

theorem rw_reader_writer_overlap:
  "\<exists>s. rw_reachable False 2 s \<and> \<not> exclusive s \<and>
       nbr_active (lck s) = 1 \<and> nbw_active (lck s) = 1"
  using rw_run_overlap by (force simp: exclusive_def)

text \<open>
  C18. No wake-up is lost: whenever a thread is blocked in the lock, some thread is active or
  woken and the system can take a step without any spurious wake-up.
\<close>

theorem rw_no_lost_wakeup:
  assumes "rw_reachable spurious n s" and "n < 2 ^ 32"
    and "i < n" and "pcs s ! i \<in> {WaitR, WaitW}"
  shows "{Reading, Writing, WokenW} \<inter> set (pcs s) \<noteq> {} \<and> (\<exists>t. rw_step False s t)"
proof -
  have n: "length (pcs s) = n" using rw_reachable_counts [OF assms(1)] by simp
  then have "WaitR \<in> set (pcs s) \<or> WaitW \<in> set (pcs s)"
    using assms(3,4) nth_mem by fastforce
  with rw_reachable_served [OF assms(1,2)]
  have ex: "{Reading, Writing, WokenW} \<inter> set (pcs s) \<noteq> {}"
    by (auto simp: rw_served_def)
  then obtain j where "j < length (pcs s)" "pcs s ! j \<in> {Reading, Writing, WokenR, WokenW}"
    by (auto simp: in_set_conv_nth)
  with ex show ?thesis by (blast dest: rw_enabled)
qed

theorem rw_no_lost_wakeup_witness:
  "\<exists>t. rw_step False (two_threads 0 1 1 Writing WaitR) t"
  using rw_no_lost_wakeup [OF rw_run_blocked, of 1] by simp

section \<open>Uncontended use\<close>

text \<open>
  What a caller sees when nobody else holds the lock: taking it returns at once, and releasing it
  gives the idle lock back.
\<close>

lemma P_w_idle:
  "P_w rw_lock_zero = Returns (rw_lock_zero\<lparr>nbw_active := 1\<rparr>)"
  by (simp add: lock_defs rw_lock_zero_def)

lemma V_w_idle: "V_w (rw_lock_zero\<lparr>nbw_active := 1\<rparr>) = (rw_lock_zero, NoWake)"
  by (simp add: lock_defs rw_lock_zero_def)

lemma P_r_idle:
  "P_r rw_lock_zero = Returns (rw_lock_zero\<lparr>nbr_active := 1\<rparr>)"
  by (simp add: lock_defs rw_lock_zero_def)

lemma V_r_idle: "V_r (rw_lock_zero\<lparr>nbr_active := 1\<rparr>) = (rw_lock_zero, NoWake)"
  by (simp add: lock_defs rw_lock_zero_def)

lemmas lock_idle = P_w_idle V_w_idle P_r_idle V_r_idle

end
