(* ===== verification/SemN.thy ===== *)
theory SemN
  imports Prelude
begin

text \<open>
  The counting semaphore of \<^verbatim>\<open>SemN/SemN.c\<close>. \<open>count\<close> is the C field of the same name (a signed
  \<^verbatim>\<open>int\<close>; it stays between the initial value minus and plus the number of calls in progress, so it
  cannot overflow before \<open>2 ^ 31\<close> threads exist, and the model uses \<open>int\<close>). Operations run under the
  semaphore's mutex and are cut where the code calls \<^verbatim>\<open>pthread_cond_wait\<close>, as in theory \<open>RW_Lock\<close>.
\<close>

record semaphore =
  count :: int

abbreviation EINVAL :: int where "EINVAL \<equiv> 22"

definition semaphore_init :: "int \<Rightarrow> int \<Rightarrow> semaphore option \<Rightarrow> int \<Rightarrow> int \<times> semaphore option" where
  "semaphore_init rc_mutex rc_cond sem value =
     (case sem of
        None \<Rightarrow> (EINVAL, None)
      | Some s \<Rightarrow>
          if rc_mutex \<noteq> 0 then (rc_mutex, Some s)
          else if rc_cond \<noteq> 0 then (rc_cond, Some s)
          else (0, Some (s\<lparr>count := value\<rparr>)))"

definition semaphore_destroy :: "semaphore option \<Rightarrow> int" where
  "semaphore_destroy sem = (case sem of None \<Rightarrow> EINVAL | Some s \<Rightarrow> 0)"

datatype sem_result = SReturns semaphore | SBlocks semaphore | SError int

text \<open>The \<^verbatim>\<open>while\<close> of \<^verbatim>\<open>semaphore_P\<close>, also run by a woken thread.\<close>

definition semaphore_P_loop :: "semaphore \<Rightarrow> sem_result" where
  "semaphore_P_loop s = (if count s < 0 then SBlocks s else SReturns s)"

definition semaphore_P :: "semaphore option \<Rightarrow> sem_result" where
  "semaphore_P sem =
     (case sem of
        None \<Rightarrow> SError EINVAL
      | Some s \<Rightarrow> semaphore_P_loop (s\<lparr>count := count s - 1\<rparr>))"

text \<open>The second component tells whether \<^verbatim>\<open>pthread_cond_signal\<close> is called.\<close>

definition semaphore_V :: "semaphore \<Rightarrow> semaphore \<times> bool" where
  "semaphore_V s =
     (let s = s\<lparr>count := count s + 1\<rparr> in (s, count s \<le> 0))"

section \<open>Threads\<close>

datatype sem_pc = SIdle | SWait | SWoken | SInside

record sem_sys =
  sem :: semaphore
  spcs :: "sem_pc list"

inductive sem_signal :: "bool \<Rightarrow> sem_pc list \<Rightarrow> sem_pc list \<Rightarrow> bool" where
  sig_no: "sem_signal False ps ps"
| sig_one: "i < length ps \<Longrightarrow> ps ! i = SWait \<Longrightarrow> sem_signal True ps (ps[i := SWoken])"
| sig_none: "SWait \<notin> set ps \<Longrightarrow> sem_signal True ps ps"

inductive sem_step :: "sem_sys \<Rightarrow> sem_sys \<Rightarrow> bool" where
  take: "i < length ps \<Longrightarrow> ps ! i = SIdle \<Longrightarrow> semaphore_P (Some s) = SReturns s' \<Longrightarrow>
     sem_step \<lparr>sem = s, spcs = ps\<rparr> \<lparr>sem = s', spcs = ps[i := SInside]\<rparr>"
| block: "i < length ps \<Longrightarrow> ps ! i = SIdle \<Longrightarrow> semaphore_P (Some s) = SBlocks s' \<Longrightarrow>
     sem_step \<lparr>sem = s, spcs = ps\<rparr> \<lparr>sem = s', spcs = ps[i := SWait]\<rparr>"
| resume: "i < length ps \<Longrightarrow> ps ! i = SWoken \<Longrightarrow> semaphore_P_loop s = SReturns s' \<Longrightarrow>
     sem_step \<lparr>sem = s, spcs = ps\<rparr> \<lparr>sem = s', spcs = ps[i := SInside]\<rparr>"
| reblock: "i < length ps \<Longrightarrow> ps ! i = SWoken \<Longrightarrow> semaphore_P_loop s = SBlocks s' \<Longrightarrow>
     sem_step \<lparr>sem = s, spcs = ps\<rparr> \<lparr>sem = s', spcs = ps[i := SWait]\<rparr>"
| give: "i < length ps \<Longrightarrow> ps ! i = SInside \<Longrightarrow> semaphore_V s = (s', w) \<Longrightarrow>
     sem_signal w (ps[i := SIdle]) ps' \<Longrightarrow>
     sem_step \<lparr>sem = s, spcs = ps\<rparr> \<lparr>sem = s', spcs = ps'\<rparr>"

inductive sem_reachable :: "int \<Rightarrow> nat \<Rightarrow> sem_sys \<Rightarrow> bool" for v :: int and n :: nat where
  start: "semaphore_init rc_mutex rc_cond (Some s0) v = (0, Some s) \<Longrightarrow> sem_reachable v n \<lparr>sem = s, spcs = replicate n SIdle\<rparr>"
| step: "sem_reachable v n s \<Longrightarrow> sem_step s t \<Longrightarrow> sem_reachable v n t"

lemmas sem_defs = semaphore_P_def semaphore_P_loop_def semaphore_V_def Let_def

section \<open>The count\<close>

text \<open>Threads that passed, or that took their token off the count and are still inside \<^verbatim>\<open>P\<close>.\<close>

definition sem_inv :: "int \<Rightarrow> sem_sys \<Rightarrow> bool" where
  "sem_inv v s \<longleftrightarrow>
     count (sem s) = v - int (count_list (spcs s) SInside)
       - int (count_list (spcs s) SWait) - int (count_list (spcs s) SWoken) \<and>
     (count_list (spcs s) SInside = 0 \<or> int (count_list (spcs s) SInside) \<le> v)"

lemma sem_signal_counts:
  assumes "sem_signal w ps ps'"
  shows "count_list ps' SInside = count_list ps SInside"
    and "count_list ps' SWait + count_list ps' SWoken = count_list ps SWait + count_list ps SWoken"
  using assms
  by (induction rule: sem_signal.induct)
    (auto simp: count_list_upd, metis count_list_nth_pos Suc_pred add_Suc)

lemma sem_step_inv:
  assumes "sem_step s t" and "sem_inv v s"
  shows "sem_inv v t"
  using assms
proof (induction rule: sem_step.induct)
  case (take i ps s s')
  then show ?case by (auto simp: sem_inv_def sem_defs count_list_upd split: if_splits)
next
  case (block i ps s s')
  then show ?case by (auto simp: sem_inv_def sem_defs count_list_upd split: if_splits)
next
  case (resume i ps s s')
  from count_list_nth_pos [OF resume(1)] resume show ?case
    by (auto simp: sem_inv_def sem_defs count_list_upd split: if_splits)
next
  case (reblock i ps s s')
  from count_list_nth_pos [OF reblock(1)] reblock show ?case
    by (auto simp: sem_inv_def sem_defs count_list_upd split: if_splits)
next
  case (give i ps s s' w ps')
  from count_list_nth_pos [OF give(1)] sem_signal_counts [OF give(4)] give(1-3,5) show ?case
    by (auto simp: sem_inv_def sem_defs count_list_upd split: if_splits)
qed

lemma sem_reachable_inv: "sem_reachable v n s \<Longrightarrow> sem_inv v s"
proof (induction rule: sem_reachable.induct)
  case (start rc_mutex rc_cond s0 s)
  then have "count s = v" by (auto simp: semaphore_init_def split: if_splits)
  moreover have "count_list (replicate n SIdle) p = 0" if "p \<noteq> SIdle" for p
    using that by (simp add: count_list_0_iff)
  ultimately show ?case by (simp add: sem_inv_def)
next
  case (step s t)
  then show ?case by (blast intro: sem_step_inv)
qed

section \<open>A state nobody leaves\<close>

text \<open>
  Once every thread that has not passed is asleep and the count is negative, nobody passes again:
  a new caller makes the count more negative and sleeps too, and only a thread inside signals.
\<close>

definition sem_stuck :: "sem_sys \<Rightarrow> bool" where
  "sem_stuck s \<longleftrightarrow> count (sem s) < 0 \<and> SInside \<notin> set (spcs s) \<and> SWoken \<notin> set (spcs s)"

lemma sem_stuck_step: "sem_step s t \<Longrightarrow> sem_stuck s \<Longrightarrow> sem_stuck t"
proof (induction rule: sem_step.induct)
  case (take i ps s s')
  then show ?case by (simp add: sem_stuck_def sem_defs split: if_splits)
next
  case (block i ps s s')
  then show ?case by (auto simp: sem_stuck_def sem_defs dest: mem_set_updateD split: if_splits)
qed (auto simp: sem_stuck_def dest: nth_mem)

lemma sem_stuck_run: "sem_step\<^sup>*\<^sup>* s t \<Longrightarrow> sem_stuck s \<Longrightarrow> sem_stuck t"
  by (induction rule: rtranclp_induct) (auto dest: sem_stuck_step)

abbreviation three_threads :: "int \<Rightarrow> sem_pc \<Rightarrow> sem_pc \<Rightarrow> sem_pc \<Rightarrow> sem_sys" where
  "three_threads c p q r \<equiv> \<lparr>sem = \<lparr>count = c\<rparr>, spcs = [p, q, r]\<rparr>"

lemma sem_run_held: "sem_reachable 1 3 (three_threads (- 2) SInside SWait SWait)"
proof -
  have "sem_reachable 1 3 (three_threads 1 SIdle SIdle SIdle)"
    using sem_reachable.start [of 0 0 "\<lparr>count = 0\<rparr>" 1 _ 3] by (simp add: semaphore_init_def numeral_3_eq_3)
  then have "sem_reachable 1 3 (three_threads 0 SInside SIdle SIdle)"
    by (rule sem_reachable.step)
      (use sem_step.take [of 0 "[SIdle, SIdle, SIdle]" "\<lparr>count = 1\<rparr>"] in \<open>simp add: sem_defs\<close>)
  then have "sem_reachable 1 3 (three_threads (- 1) SInside SWait SIdle)"
    by (rule sem_reachable.step)
      (use sem_step.block [of 1 "[SInside, SIdle, SIdle]" "\<lparr>count = 0\<rparr>"] in \<open>simp add: sem_defs\<close>)
  then show ?thesis
    by (rule sem_reachable.step)
      (use sem_step.block [of 2 "[SInside, SWait, SIdle]" "\<lparr>count = - 1\<rparr>"]
        in \<open>simp add: sem_defs numeral_2_eq_2\<close>)
qed

lemma sem_run_stuck: "sem_reachable 1 3 (three_threads (- 1) SIdle SWait SWait)"
proof -
  have "sem_reachable 1 3 (three_threads (- 1) SIdle SWoken SWait)"
    by (rule sem_reachable.step [OF sem_run_held])
      (use sem_step.give [of 0 "[SInside, SWait, SWait]" "\<lparr>count = - 2\<rparr>" _ True]
          sem_signal.sig_one [of 1 "[SIdle, SWait, SWait]"] in \<open>force simp: sem_defs\<close>)
  then show ?thesis
    by (rule sem_reachable.step)
      (use sem_step.reblock [of 1 "[SIdle, SWoken, SWait]" "\<lparr>count = - 1\<rparr>"] in \<open>simp add: sem_defs\<close>)
qed

section \<open>Properties\<close>

text \<open>
  C25. The semaphore never lets more threads through than its initial value: in every reachable
  state at most \<open>v\<close> threads are between \<^verbatim>\<open>semaphore_P\<close> and \<^verbatim>\<open>semaphore_V\<close>.
\<close>

theorem sem_bounds_holders:
  assumes "sem_reachable v n s"
  shows "int (count_list (spcs s) SInside) \<le> max 0 v"
  using sem_reachable_inv [OF assms] by (auto simp: sem_inv_def)

theorem sem_bounds_holders_witness:
  "sem_reachable 1 3 (three_threads (- 2) SInside SWait SWait) \<and>
   int (count_list [SInside, SWait, SWait] SInside) \<le> 1"
  using sem_run_held sem_bounds_holders [OF sem_run_held] by simp

text \<open>
  C26. A \<^verbatim>\<open>semaphore_V\<close> can be lost: with value 1 and two threads waiting, the thread it signals finds
  the count still negative and waits again, and from the state reached no thread ever passes the
  semaphore any more although nobody holds it.
\<close>

theorem sem_V_lost_deadlock:
  "\<exists>s. sem_reachable 1 3 s \<and> count_list (spcs s) SWait = 2 \<and> SInside \<notin> set (spcs s) \<and>
       (\<forall>t. sem_step\<^sup>*\<^sup>* s t \<longrightarrow> SInside \<notin> set (spcs t))"
proof -
  let ?s = "three_threads (- 1) SIdle SWait SWait"
  have "sem_stuck ?s" by (simp add: sem_stuck_def)
  then have "\<forall>t. sem_step\<^sup>*\<^sup>* ?s t \<longrightarrow> SInside \<notin> set (spcs t)"
    using sem_stuck_run unfolding sem_stuck_def by blast
  then show ?thesis using sem_run_stuck by (intro exI [of _ ?s]) simp
qed

theorem sem_V_lost_deadlock_witness:
  "\<exists>s. sem_reachable 1 3 s \<and> count_list (spcs s) SWait = 2 \<and> SInside \<notin> set (spcs s)"
  using sem_V_lost_deadlock by blast

end
