(* ===== verification/Stuff_Alloc.thy ===== *)
theory Stuff_Alloc
  imports Prelude
begin

text \<open>
  The pool allocator of \<^verbatim>\<open>include/stuff_alloc.h\<close>: \<^verbatim>\<open>STUFF_PREALLOC\<close>, \<^verbatim>\<open>GET_PREALLOC\<close> and
  \<^verbatim>\<open>RELEASE_PREALLOC\<close>, in the build that pre-allocates blocks and takes its memory from
  \<^verbatim>\<open>malloc\<close> (\<^verbatim>\<open>_NO_BUDDY_SYSTEM\<close>; \<^verbatim>\<open>GetPreferedPool\<close> is then the identity).

  Memory is handed out in units of one entry: a block of \<open>n\<close> entries is the addresses
  \<open>a, a + 1, \<dots>\<close>. \<open>mem\<close> is what the model keeps of the C allocator: the first address never
  handed out, and an arbitrary schedule \<open>fails\<close> of the calls that return NULL, so a theorem
  for every \<open>mem\<close> covers every pattern of allocation failures. A request of size 0 returns
  NULL, one of the two results the C standard allows.

  The macros appear twice: on the heap, following the \<^verbatim>\<open>next\<close> fields as the C text does
  (\<open>heap_\<dots>\<close>), and on the list of the entries of the chain, which the other theories use. The
  interface both satisfy is the locale \<open>pool_provider\<close>.
\<close>

record mem =
  brk :: addr
  calls :: nat
  fails :: "nat \<Rightarrow> bool"

definition Mem_Alloc :: "nat \<Rightarrow> mem \<Rightarrow> ptr \<times> mem" where
  "Mem_Alloc n m =
     (let m' = m\<lparr>calls := Suc (calls m)\<rparr> in
      if n = 0 \<or> fails m (calls m) then (None, m')
      else (Some (brk m), m'\<lparr>brk := brk m + n\<rparr>))"

lemma Mem_Alloc_None: "Mem_Alloc n m = (None, m') \<Longrightarrow> brk m' = brk m"
  by (auto simp: Mem_Alloc_def Let_def split: if_splits)

lemma Mem_Alloc_Some:
  "Mem_Alloc n m = (Some a, m') \<Longrightarrow> a = brk m \<and> brk m' = brk m + n \<and> 0 < n"
  by (auto simp: Mem_Alloc_def Let_def split: if_splits)

section \<open>The macros on the chain of entries\<close>

definition STUFF_PREALLOC :: "u32 \<Rightarrow> mem \<Rightarrow> addr list \<times> mem" where
  "STUFF_PREALLOC nb m =
     (case Mem_Alloc (unat nb) m of
        (None, m') \<Rightarrow> ([], m')
      | (Some a, m') \<Rightarrow> ([a..<a + unat nb], m'))"

definition GET_PREALLOC :: "u32 \<Rightarrow> addr list \<Rightarrow> mem \<Rightarrow> ptr \<times> addr list \<times> mem" where
  "GET_PREALLOC nb pool m =
     (let (pool, m) = (if pool = [] \<and> nb \<noteq> 0 then STUFF_PREALLOC nb m else (pool, m)) in
      case pool of
        [] \<Rightarrow> (None, [], m)
      | entry # rest \<Rightarrow> (Some entry, rest, m))"

definition RELEASE_PREALLOC :: "addr \<Rightarrow> addr list \<Rightarrow> addr list" where
  "RELEASE_PREALLOC entry pool = entry # pool"

section \<open>The macros on the heap\<close>

type_synonym next_fields = "addr \<Rightarrow> ptr"

text \<open>The loop of \<^verbatim>\<open>STUFF_PREALLOC\<close> over the index \<open>i\<close>.\<close>

function link_entries :: "u32 \<Rightarrow> u32 \<Rightarrow> addr \<Rightarrow> next_fields \<Rightarrow> next_fields" where
  "link_entries i nb a nxt =
     (if i < nb then
        link_entries (i + 1) nb a
          (nxt(a + unat i := (if i \<noteq> nb - 1 then Some (a + unat (i + 1)) else None)))
      else nxt)"
  by pat_completeness auto
termination
proof (relation "measure (\<lambda>(i, nb, a, nxt). unat nb - unat i)")
  fix i nb :: u32 and a :: addr and nxt :: next_fields
  assume less: "i < nb"
  then have "unat (i + 1) = Suc (unat i)" by (rule unat_less_plus_one)
  with less show "((i + 1, nb, a,
      nxt(a + unat i := if i \<noteq> nb - 1 then Some (a + unat (i + 1)) else None)),
      i, nb, a, nxt) \<in> measure (\<lambda>(i, nb, a, nxt). unat nb - unat i)"
    by (simp add: word_less_nat_alt)
qed simp

declare link_entries.simps [simp del]

definition heap_STUFF_PREALLOC :: "u32 \<Rightarrow> next_fields \<Rightarrow> mem \<Rightarrow> ptr \<times> next_fields \<times> mem" where
  "heap_STUFF_PREALLOC nb nxt m =
     (case Mem_Alloc (unat nb) m of
        (None, m') \<Rightarrow> (None, nxt, m')
      | (Some a, m') \<Rightarrow> (Some a, link_entries 0 nb a nxt, m'))"

definition heap_GET_PREALLOC ::
  "u32 \<Rightarrow> next_fields \<times> ptr \<Rightarrow> mem \<Rightarrow> ptr \<times> (next_fields \<times> ptr) \<times> mem" where
  "heap_GET_PREALLOC nb p m =
     (let (nxt, pool) = p;
          (pool, nxt, m) =
            (if pool = None \<and> nb \<noteq> 0 then heap_STUFF_PREALLOC nb nxt m else (pool, nxt, m))
      in case pool of
           None \<Rightarrow> (None, (nxt, None), m)
         | Some entry \<Rightarrow> (Some entry, (nxt, nxt entry), m))"

definition heap_RELEASE_PREALLOC :: "addr \<Rightarrow> next_fields \<times> ptr \<Rightarrow> next_fields \<times> ptr" where
  "heap_RELEASE_PREALLOC entry p = (let (nxt, pool) = p in (nxt(entry := pool), Some entry))"

text \<open>\<open>chain nxt p xs\<close>: the entries reached from \<open>p\<close> through the next fields are \<open>xs\<close>.\<close>

primrec chain :: "next_fields \<Rightarrow> ptr \<Rightarrow> addr list \<Rightarrow> bool" where
  "chain nxt p [] \<longleftrightarrow> p = None"
| "chain nxt p (x # xs) \<longleftrightarrow> p = Some x \<and> chain nxt (nxt x) xs"

lemma chain_upd [simp]: "a \<notin> set xs \<Longrightarrow> chain (nxt(a := q)) p xs = chain nxt p xs"
  by (induction xs arbitrary: p) auto

lemma chain_None [simp]: "chain nxt None xs \<longleftrightarrow> xs = []"
  by (cases xs) auto

lemma chain_Some: "chain nxt (Some a) xs \<longleftrightarrow> (\<exists>ys. xs = a # ys \<and> chain nxt (nxt a) ys)"
  by (cases xs) auto

text \<open>What the loop writes, and that it writes nothing else.\<close>

lemma link_entries_eq:
  assumes "i \<le> nb"
  shows "link_entries i nb a nxt x =
     (if a + unat i \<le> x \<and> x < a + unat nb
      then (if x = a + unat nb - 1 then None else Some (Suc x)) else nxt x)"
  using assms
proof (induction i nb a nxt rule: link_entries.induct)
  case (1 i nb a nxt)
  show ?case
  proof (cases "i < nb")
    case False
    with 1(2) have "i = nb" by simp
    then show ?thesis by (subst link_entries.simps) auto
  next
    case True
    have suc: "unat (i + 1) = Suc (unat i)"
      using True by (rule unat_less_plus_one)
    have le: "i + 1 \<le> nb"
      using True suc by (simp add: word_less_nat_alt word_le_nat_alt)
    have pred: "i \<noteq> nb - 1 \<longleftrightarrow> Suc (unat i) \<noteq> unat nb"
      using suc by (metis add_diff_cancel diff_add_cancel unat_eq_nat_uint word_unat_eq_iff)
    have step: "link_entries i nb a nxt = link_entries (i + 1) nb a
        (nxt(a + unat i := (if i \<noteq> nb - 1 then Some (a + unat (i + 1)) else None)))"
      using True by (subst link_entries.simps) simp
    show ?thesis
      unfolding step 1(1) [OF True le] using True suc pred by (auto simp: word_less_nat_alt)
  qed
qed

lemma chain_interval:
  assumes "\<And>x. b \<le> x \<Longrightarrow> x < c \<Longrightarrow> nxt x = (if Suc x = c then None else Some (Suc x))"
    and "b < c"
  shows "chain nxt (Some b) [b..<c]"
  using assms
proof (induction "c - b" arbitrary: b)
  case 0
  then show ?case by simp
next
  case (Suc d)
  show ?case
  proof (cases "Suc b = c")
    case True
    with Suc.prems show ?thesis by (auto simp: upt_rec)
  next
    case False
    with Suc.prems Suc.hyps(2) have "chain nxt (Some (Suc b)) [Suc b..<c]"
      by (intro Suc.hyps(1)) auto
    with False Suc.prems show ?thesis by (simp add: upt_rec [of b c])
  qed
qed

lemma link_entries_chain:
  assumes "0 < nb"
  shows "chain (link_entries 0 nb a nxt) (Some a) [a..<a + unat nb]"
  using assms by (intro chain_interval) (auto simp: link_entries_eq word_less_nat_alt)

section \<open>The interface of a pool\<close>

text \<open>
  A pool represents the list of its free entries; \<open>get\<close> takes the first one, or a fresh block
  when there is none, and \<open>release\<close> gives an entry back.
\<close>

locale pool_provider =
  fixes rep :: "'p \<Rightarrow> addr list \<Rightarrow> bool"
    and get :: "'p \<Rightarrow> mem \<Rightarrow> ptr \<times> 'p \<times> mem"
    and release :: "addr \<Rightarrow> 'p \<Rightarrow> 'p"
  assumes get_pop: "rep p (x # xs) \<Longrightarrow> \<exists>p'. get p m = (Some x, p', m) \<and> rep p' xs"
    and get_grow: "rep p [] \<Longrightarrow> get p m = (Some e, p', m') \<Longrightarrow>
      \<exists>k > 0. e = brk m \<and> rep p' [Suc (brk m)..<brk m + k] \<and> brk m' = brk m + k"
    and get_fail: "rep p xs \<Longrightarrow> get p m = (None, p', m') \<Longrightarrow>
      xs = [] \<and> rep p' [] \<and> brk m' = brk m"
    and release_rep: "rep p xs \<Longrightarrow> e \<notin> set xs \<Longrightarrow> rep (release e p) (e # xs)"

text \<open>A sequence of calls by a client that owns the entries \<open>own\<close> and releases one by position.\<close>

datatype pool_op = Get | Release nat

fun pool_run :: "('p \<Rightarrow> mem \<Rightarrow> ptr \<times> 'p \<times> mem) \<Rightarrow> (addr \<Rightarrow> 'p \<Rightarrow> 'p) \<Rightarrow> pool_op list \<Rightarrow>
    addr list \<times> 'p \<times> mem \<Rightarrow> addr list \<times> 'p \<times> mem" where
  "pool_run get release [] s = s"
| "pool_run get release (Get # ops) (own, p, m) =
     (case get p m of
        (None, p', m') \<Rightarrow> pool_run get release ops (own, p', m')
      | (Some e, p', m') \<Rightarrow> pool_run get release ops (e # own, p', m'))"
| "pool_run get release (Release i # ops) (own, p, m) =
     (if i < length own
      then pool_run get release ops (take i own @ drop (Suc i) own, release (own ! i) p, m)
      else pool_run get release ops (own, p, m))"

definition owned :: "addr list \<Rightarrow> addr list \<Rightarrow> mem \<Rightarrow> bool" where
  "owned own free m \<longleftrightarrow> distinct (own @ free) \<and> (\<forall>a \<in> set (own @ free). a < brk m)"

lemma owned_release:
  assumes "owned own free m" and "i < length own"
  shows "own ! i \<notin> set free" and "owned (take i own @ drop (Suc i) own) (own ! i # free) m"
proof -
  have own: "own = take i own @ own ! i # drop (Suc i) own"
    using assms(2) by (simp add: id_take_nth_drop)
  have "distinct ((take i own @ own ! i # drop (Suc i) own) @ free)"
    "\<forall>a \<in> set ((take i own @ own ! i # drop (Suc i) own) @ free). a < brk m"
    using assms(1) own unfolding owned_def by metis+
  then show "own ! i \<notin> set free"
    and "owned (take i own @ drop (Suc i) own) (own ! i # free) m"
    by (auto simp: owned_def)
qed

context pool_provider
begin

lemma get_owned:
  assumes "rep p free" and "owned own free m" and "get p m = (r, p', m')"
  shows "\<exists>free'. rep p' free' \<and> owned (case r of None \<Rightarrow> own | Some e \<Rightarrow> e # own) free' m'"
proof (cases r)
  case None
  with get_fail [OF assms(1), of m p' m'] assms(2,3) show ?thesis
    by (intro exI [of _ "[]"]) (simp add: owned_def)
next
  case (Some e)
  show ?thesis
  proof (cases free)
    case Nil
    with get_grow [of p m e p' m'] assms Some obtain k where
      "0 < k" "e = brk m" "rep p' [Suc (brk m)..<brk m + k]" "brk m' = brk m + k" by auto
    with assms(2) Some Nil show ?thesis
      by (intro exI [of _ "[Suc (brk m)..<brk m + k]"]) (force simp: owned_def)
  next
    case (Cons x xs)
    with get_pop [of p x xs m] assms Some show ?thesis
      by (intro exI [of _ xs]) (auto simp: owned_def)
  qed
qed

lemma run_owned:
  assumes "rep p free" and "owned own free m"
    and "pool_run get release ops (own, p, m) = (own', p', m')"
  shows "\<exists>free'. rep p' free' \<and> owned own' free' m'"
  using assms
proof (induction ops arbitrary: p free own m)
  case Nil
  then show ?case by auto
next
  case (Cons op ops)
  show ?case
  proof (cases op)
    case Get
    obtain r q n where g: "get p m = (r, q, n)" by (cases "get p m") auto
    from get_owned [OF Cons.prems(1,2) g] obtain free' where
      "rep q free'" "owned (case r of None \<Rightarrow> own | Some e \<Rightarrow> e # own) free' n" by blast
    with Cons.IH Cons.prems(3) Get g show ?thesis by (auto split: option.splits)
  next
    case (Release i)
    show ?thesis
    proof (cases "i < length own")
      case True
      note rel = owned_release [OF Cons.prems(2) True]
      from Cons.IH [OF release_rep [OF Cons.prems(1) rel(1)] rel(2)] Cons.prems(3) Release True
      show ?thesis by simp
    next
      case False
      with Cons.IH Cons.prems Release show ?thesis by simp
    qed
  qed
qed

end

interpretation list_pool: pool_provider "(=)" "GET_PREALLOC nb" RELEASE_PREALLOC
proof
  fix p xs :: "addr list" and x m assume "p = x # xs"
  then show "\<exists>p'. GET_PREALLOC nb p m = (Some x, p', m) \<and> p' = xs"
    by (simp add: GET_PREALLOC_def)
next
  fix p p' :: "addr list" and m m' e
  assume "p = []" "GET_PREALLOC nb p m = (Some e, p', m')"
  then show "\<exists>k > 0. e = brk m \<and> p' = [Suc (brk m)..<brk m + k] \<and> brk m' = brk m + k"
    by (auto simp: GET_PREALLOC_def STUFF_PREALLOC_def Let_def upt_eq_Cons_conv
        split: if_splits option.splits prod.splits list.splits dest!: Mem_Alloc_Some)
next
  fix p p' xs :: "addr list" and m m'
  assume "p = xs" "GET_PREALLOC nb p m = (None, p', m')"
  then show "xs = [] \<and> p' = [] \<and> brk m' = brk m"
    by (auto simp: GET_PREALLOC_def STUFF_PREALLOC_def Let_def
        split: if_splits option.splits prod.splits list.splits dest: Mem_Alloc_None Mem_Alloc_Some)
next
  fix p xs :: "addr list" and e assume "p = xs"
  then show "RELEASE_PREALLOC e p = e # xs" by (simp add: RELEASE_PREALLOC_def)
qed

lemma heap_get_grow:
  assumes "heap_GET_PREALLOC nb (nxt, None) m = (Some e, p', m')"
  shows "\<exists>k > 0. e = brk m \<and> chain (fst p') (snd p') [Suc (brk m)..<brk m + k] \<and>
           brk m' = brk m + k"
proof -
  have nb: "nb \<noteq> 0" "Mem_Alloc (unat nb) m = (Some e, m')"
    "p' = (link_entries 0 nb e nxt, link_entries 0 nb e nxt e)"
    using assms
    by (auto simp: heap_GET_PREALLOC_def heap_STUFF_PREALLOC_def
        split: if_splits option.splits prod.splits)
  from nb(1) have "chain (link_entries 0 nb e nxt) (Some e) [e..<e + unat nb]"
    by (intro link_entries_chain) (simp add: word_neq_0_conv)
  moreover have "[e..<e + unat nb] = e # [Suc e..<e + unat nb]"
    using Mem_Alloc_Some [OF nb(2)] by (intro upt_conv_Cons) simp
  ultimately have "chain (fst p') (snd p') [Suc e..<e + unat nb]"
    using nb(3) by simp
  with Mem_Alloc_Some [OF nb(2)] show ?thesis by blast
qed

interpretation heap_pool: pool_provider
  "\<lambda>p xs. chain (fst p) (snd p) xs" "heap_GET_PREALLOC nb" heap_RELEASE_PREALLOC
proof
  fix p :: "next_fields \<times> ptr" and x xs m
  assume "chain (fst p) (snd p) (x # xs)"
  then show "\<exists>p'. heap_GET_PREALLOC nb p m = (Some x, p', m) \<and> chain (fst p') (snd p') xs"
    by (cases p) (auto simp: heap_GET_PREALLOC_def)
next
  fix p p' :: "next_fields \<times> ptr" and m e m'
  assume "chain (fst p) (snd p) []" "heap_GET_PREALLOC nb p m = (Some e, p', m')"
  then show "\<exists>k > 0. e = brk m \<and> chain (fst p') (snd p') [Suc (brk m)..<brk m + k] \<and>
      brk m' = brk m + k"
    by (cases p) (auto intro: heap_get_grow)
next
  fix p p' :: "next_fields \<times> ptr" and xs m m'
  assume "chain (fst p) (snd p) xs" "heap_GET_PREALLOC nb p m = (None, p', m')"
  then show "xs = [] \<and> chain (fst p') (snd p') [] \<and> brk m' = brk m"
    by (cases p) (auto simp: heap_GET_PREALLOC_def heap_STUFF_PREALLOC_def
        split: if_splits option.splits prod.splits dest: Mem_Alloc_None)
next
  fix p :: "next_fields \<times> ptr" and xs e
  assume "chain (fst p) (snd p) xs" "e \<notin> set xs"
  then show "chain (fst (heap_RELEASE_PREALLOC e p)) (snd (heap_RELEASE_PREALLOC e p)) (e # xs)"
    by (cases p) (simp add: heap_RELEASE_PREALLOC_def)
qed

text \<open>One call on the chain and on its list.\<close>

lemma heap_get_refines:
  assumes "chain nxt pool xs" and "GET_PREALLOC nb xs m = (r, ys, m')"
  shows "\<exists>nxt' pool'. heap_GET_PREALLOC nb (nxt, pool) m = (r, (nxt', pool'), m') \<and>
           chain nxt' pool' ys"
proof (cases xs)
  case (Cons x zs)
  with assms show ?thesis by (auto simp: GET_PREALLOC_def heap_GET_PREALLOC_def)
next
  case Nil
  with assms have pool: "pool = None" by simp
  show ?thesis
  proof (cases "nb = 0")
    case True
    with assms Nil pool show ?thesis by (auto simp: GET_PREALLOC_def heap_GET_PREALLOC_def)
  next
    case False
    then have pos: "0 < nb" "0 < unat nb" by (simp_all add: word_neq_0_conv unat_gt_0)
    with link_entries_chain [of nb "brk m" nxt] show ?thesis using assms Nil pool
      by (auto simp: GET_PREALLOC_def heap_GET_PREALLOC_def STUFF_PREALLOC_def
          heap_STUFF_PREALLOC_def Mem_Alloc_def Let_def upt_rec [of "brk m"] split: if_splits)
  qed
qed

text \<open>When there is no entry: the chain is empty and no block can be had.\<close>

lemma GET_PREALLOC_None_iff:
  "GET_PREALLOC nb pool m = (r, pool', m') \<Longrightarrow> r = None \<longleftrightarrow> pool = [] \<and> (nb = 0 \<or> fails m (calls m))"
  by (auto simp: GET_PREALLOC_def STUFF_PREALLOC_def Mem_Alloc_def Let_def unat_eq_0
      split: if_splits list.splits prod.splits)

section \<open>Properties\<close>

text \<open>
  C28. Whatever sequence of \<^verbatim>\<open>GET_PREALLOC\<close> and \<^verbatim>\<open>RELEASE_PREALLOC\<close> a client makes on the linked
  free list, and whichever allocations fail, no entry is handed out twice: the entries in use and
  the entries of the chain stay disjoint and without repetition.
\<close>

theorem pool_never_hands_out_twice:
  assumes "pool_run (heap_GET_PREALLOC nb) heap_RELEASE_PREALLOC ops ([], (nxt, None), m)
             = (own, (nxt', pool), m')"
  shows "\<exists>free. chain nxt' pool free \<and> distinct (own @ free) \<and>
           (\<forall>a \<in> set (own @ free). a < brk m')"
  using heap_pool.run_owned [of "(nxt, None)" "[]" "[]" m nb ops own "(nxt', pool)" m'] assms
  by (simp add: owned_def)

text \<open>
  C29. The macros on the linked free list implement the macros on the list of its entries: from a
  pool whose chain is \<open>xs\<close>, whatever sequence of \<^verbatim>\<open>GET_PREALLOC\<close> and \<^verbatim>\<open>RELEASE_PREALLOC\<close> a client makes
  and whichever allocations fail, both hand out the same entries in the same order, leave the same
  memory, and the chain left is the list left.
\<close>

theorem heap_pool_refines_list_pool:
  assumes "chain nxt pool xs" and "owned own xs m"
    and "pool_run (GET_PREALLOC nb) RELEASE_PREALLOC ops (own, xs, m) = (own', ys, m')"
  shows "\<exists>nxt' pool'. pool_run (heap_GET_PREALLOC nb) heap_RELEASE_PREALLOC ops (own, (nxt, pool), m)
             = (own', (nxt', pool'), m') \<and> chain nxt' pool' ys"
  using assms
proof (induction ops arbitrary: nxt pool xs own m)
  case Nil
  then show ?case by auto
next
  case (Cons op ops)
  show ?case
  proof (cases op)
    case Get
    obtain r zs n where g: "GET_PREALLOC nb xs m = (r, zs, n)" by (cases "GET_PREALLOC nb xs m") auto
    obtain nxt1 pool1 where h: "heap_GET_PREALLOC nb (nxt, pool) m = (r, (nxt1, pool1), n)" "chain nxt1 pool1 zs"
      using heap_get_refines [OF Cons.prems(1) g] by blast
    have "owned (case r of None \<Rightarrow> own | Some e \<Rightarrow> e # own) zs n"
      using list_pool.get_owned [OF refl Cons.prems(2) g] by simp
    from Cons.IH [OF h(2) this] Cons.prems(3) Get g h(1) show ?thesis by (cases r) auto
  next
    case (Release i)
    show ?thesis
    proof (cases "i < length own")
      case True
      note rel = owned_release [OF Cons.prems(2) True]
      obtain nxt1 pool1 where h: "heap_RELEASE_PREALLOC (own ! i) (nxt, pool) = (nxt1, pool1)"
        by (cases "heap_RELEASE_PREALLOC (own ! i) (nxt, pool)") auto
      have "chain nxt1 pool1 (own ! i # xs)"
        using heap_pool.release_rep [of "(nxt, pool)" xs "own ! i"] Cons.prems(1) rel(1) h by simp
      from Cons.IH [OF this rel(2)] Cons.prems(3) Release True h show ?thesis
        by (simp add: RELEASE_PREALLOC_def)
    next
      case False
      with Cons.IH [OF Cons.prems(1,2)] Cons.prems(3) Release show ?thesis by simp
    qed
  qed
qed

theorem pool_never_hands_out_twice_witness:
  "\<exists>free. chain (link_entries 0 2 5 (\<lambda>_. None)) (Some 6) free \<and> distinct ([5] @ free) \<and>
     (\<forall>a \<in> set ([5] @ free). a < 7)"
  using pool_never_hands_out_twice [of 2 "[Get]" "\<lambda>_. None" "\<lparr>brk = 5, calls = 0, fails = \<lambda>_. False\<rparr>"]
  by (auto simp: heap_GET_PREALLOC_def heap_STUFF_PREALLOC_def Mem_Alloc_def link_entries_eq)

theorem heap_pool_refines_list_pool_witness:
  "\<exists>nxt' pool'. pool_run (heap_GET_PREALLOC 2) heap_RELEASE_PREALLOC [Get, Get, Release 1, Get, Get]
       ([], (\<lambda>_. None, None), \<lparr>brk = 5, calls = 0, fails = \<lambda>_. False\<rparr>)
       = ([7, 5, 6], (nxt', pool'), \<lparr>brk = 9, calls = 2, fails = \<lambda>_. False\<rparr>) \<and> chain nxt' pool' [8]"
  by (rule heap_pool_refines_list_pool [of _ _ "[]"])
    (simp_all add: owned_def GET_PREALLOC_def STUFF_PREALLOC_def RELEASE_PREALLOC_def Mem_Alloc_def upt_rec)

end
