(* ===== verification/RB_Tree.thy ===== *)
theory RB_Tree
  imports Prelude "HOL-Library.Multiset"
begin

text \<open>
  The red-black tree macros of \<^verbatim>\<open>include/rbt_tree.h\<close> and the structures of
  \<^verbatim>\<open>include/rbt_node.h\<close>.

  A node is a colour (\<open>rbt_flags & RBT_RED\<close>), its two children (\<open>left\<close> and, for the right child,
  \<open>next\<close>) and an element: the address of the node, its \<open>rbt_value\<close> and its \<open>rbt_opaq\<close>. The C nodes
  also carry a parent pointer and an anchor (the address of the pointer that holds the node). A
  pointer into a tree is here a zipper: the subtree at the node and the path up to the root, one
  frame per ancestor. \<open>x->left\<close> and \<open>x->next\<close> push a frame, \<open>x->parent\<close> pops one, and writing
  through the anchor replaces the subtree the path leads to, so each C statement is one operation
  on zippers. A NULL dereference is \<open>None\<close>.
\<close>

datatype color = BLACK | RED

record 'a elem =
  node_addr :: addr
  rbt_value :: int
  rbt_opaq :: 'a

datatype 'a rbt = Leaf | Node color "'a rbt" "'a elem" "'a rbt"

text \<open>A path: the focus is the left child (\<open>InLeft\<close>) or the right child (\<open>InNext\<close>) of a frame.\<close>

datatype 'a path =
    Root
  | InLeft color "'a elem" "'a rbt" "'a path"
  | InNext color "'a rbt" "'a elem" "'a path"

type_synonym 'a loc = "'a rbt \<times> 'a path"

record 'a rbt_head =
  root :: "'a rbt"
  leftmost :: ptr
  rightmost :: ptr
  rbt_num_node :: u32

primrec fill :: "'a path \<Rightarrow> 'a rbt \<Rightarrow> 'a rbt" where
  "fill Root t = t"
| "fill (InLeft f e r p) t = fill p (Node f t e r)"
| "fill (InNext f l e p) t = fill p (Node f l e t)"

primrec inorder :: "'a rbt \<Rightarrow> 'a elem list" where
  "inorder Leaf = []"
| "inorder (Node f l e r) = inorder l @ e # inorder r"

text \<open>The elements before and after the hole of a path.\<close>

primrec before :: "'a path \<Rightarrow> 'a elem list" where
  "before Root = []"
| "before (InLeft f e r p) = before p"
| "before (InNext f l e p) = before p @ inorder l @ [e]"

primrec after :: "'a path \<Rightarrow> 'a elem list" where
  "after Root = []"
| "after (InLeft f e r p) = e # inorder r @ after p"
| "after (InNext f l e p) = after p"

primrec parent_elem :: "'a path \<Rightarrow> 'a elem option" where
  "parent_elem Root = None"
| "parent_elem (InLeft f e r p) = Some e"
| "parent_elem (InNext f l e p) = Some e"

primrec paint :: "color \<Rightarrow> 'a rbt \<Rightarrow> 'a rbt" where
  "paint c Leaf = Leaf"
| "paint c (Node f l e r) = Node c l e r"

text \<open>\<open>x == 0 || !(x->rbt_flags & RBT_RED)\<close>\<close>

fun black :: "'a rbt \<Rightarrow> bool" where
  "black Leaf = True"
| "black (Node f l e r) = (f = BLACK)"

definition RBT_HEAD_INIT :: "'a rbt_head" where
  "RBT_HEAD_INIT = \<lparr>root = Leaf, leftmost = None, rightmost = None, rbt_num_node = 0\<rparr>"

section \<open>Moving in a tree\<close>

text \<open>\<^verbatim>\<open>while (x->left) x = x->left\<close> and its mirror image.\<close>

fun down_left :: "'a rbt \<Rightarrow> 'a path \<Rightarrow> 'a loc" where
  "down_left (Node f (Node f' l' e' r') e r) p = down_left (Node f' l' e' r') (InLeft f e r p)"
| "down_left t p = (t, p)"

fun down_next :: "'a rbt \<Rightarrow> 'a path \<Rightarrow> 'a loc" where
  "down_next (Node f l e (Node f' l' e' r')) p = down_next (Node f' l' e' r') (InNext f l e p)"
| "down_next t p = (t, p)"

text \<open>The \<^verbatim>\<open>do ... while\<close> loops that climb until the node is reached from the other side.\<close>

fun climb_next :: "'a rbt \<Rightarrow> 'a path \<Rightarrow> 'a loc option" where
  "climb_next t Root = None"
| "climb_next t (InLeft f e r p) = Some (Node f t e r, p)"
| "climb_next t (InNext f l e p) = climb_next (Node f l e t) p"

fun climb_left :: "'a rbt \<Rightarrow> 'a path \<Rightarrow> 'a loc option" where
  "climb_left t Root = None"
| "climb_left t (InNext f l e p) = Some (Node f l e t, p)"
| "climb_left t (InLeft f e r p) = climb_left (Node f t e r) p"

fun RBT_INCREMENT :: "'a loc \<Rightarrow> 'a loc option" where
  "RBT_INCREMENT (Leaf, p) = None"
| "RBT_INCREMENT (Node f l e r, p) =
     (if r \<noteq> Leaf then Some (down_left r (InNext f l e p))
      else climb_next (Node f l e r) p)"

fun RBT_DECREMENT :: "'a loc \<Rightarrow> 'a loc option" where
  "RBT_DECREMENT (Leaf, p) = None"
| "RBT_DECREMENT (Node f l e r, p) =
     (if l \<noteq> Leaf then Some (down_next l (InLeft f e r p))
      else climb_left (Node f l e r) p)"

text \<open>\<^verbatim>\<open>RBT_FIND\<close>: the last node visited, or NULL for the empty tree.\<close>

fun find_from :: "int \<Rightarrow> 'a rbt \<Rightarrow> 'a path \<Rightarrow> 'a loc option \<Rightarrow> 'a loc option" where
  "find_from val Leaf p node = node"
| "find_from val (Node f l e r) p node =
     (if rbt_value e > val then find_from val l (InLeft f e r p) (Some (Node f l e r, p))
      else if rbt_value e < val then find_from val r (InNext f l e p) (Some (Node f l e r, p))
      else Some (Node f l e r, p))"

definition RBT_FIND :: "'a rbt_head \<Rightarrow> int \<Rightarrow> 'a loc option" where
  "RBT_FIND h val = find_from val (root h) Root None"

text \<open>
  \<^verbatim>\<open>RBT_FIND_LEFT\<close>: the inner loops, entered after \<open>x = x->left\<close> (\<open>leftwards\<close>) and after
  \<open>x = x->next\<close> (\<open>rightwards\<close>).
\<close>

fun leftwards :: "int \<Rightarrow> 'a rbt \<Rightarrow> 'a path \<Rightarrow> 'a loc \<Rightarrow> 'a loc"
  and rightwards :: "int \<Rightarrow> 'a rbt \<Rightarrow> 'a path \<Rightarrow> 'a loc \<Rightarrow> 'a loc" where
  "leftwards val Leaf p node = node"
| "leftwards val (Node f l e r) p node =
     (if rbt_value e < val then rightwards val r (InNext f l e p) node
      else leftwards val l (InLeft f e r p) (Node f l e r, p))"
| "rightwards val Leaf p node = node"
| "rightwards val (Node f l e r) p node =
     (if rbt_value e = val then leftwards val l (InLeft f e r p) (Node f l e r, p)
      else rightwards val r (InNext f l e p) node)"

fun find_left_from :: "int \<Rightarrow> 'a rbt \<Rightarrow> 'a path \<Rightarrow> 'a loc option" where
  "find_left_from val Leaf p = None"
| "find_left_from val (Node f l e r) p =
     (if rbt_value e > val then find_left_from val l (InLeft f e r p)
      else if rbt_value e < val then find_left_from val r (InNext f l e p)
      else Some (leftwards val l (InLeft f e r p) (Node f l e r, p)))"

definition RBT_FIND_LEFT :: "'a rbt_head \<Rightarrow> int \<Rightarrow> 'a loc option" where
  "RBT_FIND_LEFT h val = find_left_from val (root h) Root"

section \<open>Changing a tree\<close>

fun RBT_ROTATE_LEFT :: "'a rbt \<Rightarrow> 'a rbt option" where
  "RBT_ROTATE_LEFT (Node f l e (Node f' l' e' r')) = Some (Node f' (Node f l e l') e' r')"
| "RBT_ROTATE_LEFT _ = None"

fun RBT_ROTATE_RIGHT :: "'a rbt \<Rightarrow> 'a rbt option" where
  "RBT_ROTATE_RIGHT (Node f (Node f' l' e' r') e r) = Some (Node f' l' e' (Node f r' e r))"
| "RBT_ROTATE_RIGHT _ = None"

text \<open>
  The loop of \<^verbatim>\<open>RBT_INSERT\<close>: \<open>x\<close> is the node at the end of the path. In the cases with a black
  uncle \<open>y\<close>, one or two rotations end the loop; with a red uncle the loop goes on two levels up.
\<close>

fun insert_fixup :: "'a rbt \<Rightarrow> 'a path \<Rightarrow> 'a rbt option" where
  "insert_fixup x Root = Some x"
| "insert_fixup x (InLeft pf pe pr g) =
     (let x = paint RED x in
      if pf = BLACK then Some (fill (InLeft pf pe pr g) x)
      else case g of
        Root \<Rightarrow> None
      | InLeft gf ge y q \<Rightarrow>
          if black y
          then map_option (fill q) (RBT_ROTATE_RIGHT (Node RED (Node BLACK x pe pr) ge y))
          else insert_fixup (Node gf (Node BLACK x pe pr) ge (paint BLACK y)) q
      | InNext gf y ge q \<Rightarrow>
          if black y
          then (case RBT_ROTATE_RIGHT (Node pf x pe pr) of
                  None \<Rightarrow> None
                | Some z \<Rightarrow> map_option (fill q) (RBT_ROTATE_LEFT (Node RED y ge (paint BLACK z))))
          else insert_fixup (Node gf (paint BLACK y) ge (Node BLACK x pe pr)) q)"
| "insert_fixup x (InNext pf pl pe g) =
     (let x = paint RED x in
      if pf = BLACK then Some (fill (InNext pf pl pe g) x)
      else case g of
        Root \<Rightarrow> None
      | InLeft gf ge y q \<Rightarrow>
          if black y
          then (case RBT_ROTATE_LEFT (Node pf pl pe x) of
                  None \<Rightarrow> None
                | Some z \<Rightarrow> map_option (fill q) (RBT_ROTATE_RIGHT (Node RED (paint BLACK z) ge y)))
          else insert_fixup (Node gf (Node BLACK pl pe x) ge (paint BLACK y)) q
      | InNext gf y ge q \<Rightarrow>
          if black y
          then map_option (fill q) (RBT_ROTATE_LEFT (Node RED y ge (Node BLACK pl pe x)))
          else insert_fixup (Node gf (paint BLACK y) ge (Node BLACK pl pe x)) q)"

text \<open>
  Where \<^verbatim>\<open>RBT_INSERT\<close> hangs the new node below the node \<open>par\<close> that \<^verbatim>\<open>RBT_FIND\<close> returned, and
  what becomes of \<open>leftmost\<close> and \<open>rightmost\<close>.
\<close>

fun insert_path :: "'a elem \<Rightarrow> 'a loc \<Rightarrow> 'a path option" where
  "insert_path e (Leaf, p) = None"
| "insert_path e (Node f l y r, p) =
     (if rbt_value e = rbt_value y \<and> r \<noteq> Leaf \<and> l \<noteq> Leaf then
        (case down_next l (InLeft f y r p) of
           (Leaf, _) \<Rightarrow> None
         | (Node f' l' y' r', p') \<Rightarrow> Some (InNext f' l' y' p'))
      else if rbt_value e > rbt_value y \<or> (rbt_value e = rbt_value y \<and> l \<noteq> Leaf) then
        Some (InNext f l y p)
      else Some (InLeft f y r p))"

fun insert_ends :: "'a elem \<Rightarrow> 'a loc \<Rightarrow> 'a rbt_head \<Rightarrow> 'a rbt_head" where
  "insert_ends e (Leaf, p) h = h"
| "insert_ends e (Node f l y r, p) h =
     (if rbt_value e = rbt_value y \<and> r \<noteq> Leaf \<and> l \<noteq> Leaf then h
      else if rbt_value e > rbt_value y \<or> (rbt_value e = rbt_value y \<and> l \<noteq> Leaf) then
        (if Some (node_addr y) = rightmost h then h\<lparr>rightmost := Some (node_addr e)\<rparr> else h)
      else (if Some (node_addr y) = leftmost h then h\<lparr>leftmost := Some (node_addr e)\<rparr> else h))"

definition RBT_INSERT :: "'a rbt_head \<Rightarrow> 'a elem \<Rightarrow> 'a loc option \<Rightarrow> 'a rbt_head option" where
  "RBT_INSERT h e par =
     (let h = h\<lparr>rbt_num_node := rbt_num_node h + 1\<rparr>; node = Node BLACK Leaf e Leaf in
      case par of
        None \<Rightarrow> Some (h\<lparr>root := node, rightmost := Some (node_addr e),
                        leftmost := Some (node_addr e)\<rparr>)
      | Some y \<Rightarrow>
          (case insert_path e y of
             None \<Rightarrow> None
           | Some p \<Rightarrow> map_option (\<lambda>t. (insert_ends e y h)\<lparr>root := t\<rparr>) (insert_fixup node p)))"

text \<open>
  The loop of \<^verbatim>\<open>RBT_UNLINK\<close>: the subtree \<open>x\<close> is one black node short, \<open>z\<close> is the frame above it
  and \<open>y\<close> the sibling of \<open>x\<close>. \<open>red_sibling_left\<close> is the first rotation, which turns a red sibling
  into a black one: the colour of \<open>z\<close>, the new sibling and the path above \<open>z\<close>.
\<close>

fun red_sibling_left :: "color \<Rightarrow> 'a rbt \<Rightarrow> 'a path \<Rightarrow> color \<times> 'a rbt \<times> 'a path" where
  "red_sibling_left zf (Node RED yl ye yr) q = (RED, yl, InLeft BLACK ye yr q)"
| "red_sibling_left zf y q = (zf, y, q)"

fun red_sibling_next :: "color \<Rightarrow> 'a rbt \<Rightarrow> 'a path \<Rightarrow> color \<times> 'a rbt \<times> 'a path" where
  "red_sibling_next zf (Node RED yl ye yr) q = (RED, yr, InNext BLACK yl ye q)"
| "red_sibling_next zf y q = (zf, y, q)"

text \<open>The last two rotations, when the sibling has a red child; \<open>z\<close> is the node \<open>(zf, ze)\<close>.\<close>

fun last_rotation_left :: "'a rbt \<Rightarrow> color \<Rightarrow> 'a elem \<Rightarrow> 'a rbt \<Rightarrow> 'a rbt option" where
  "last_rotation_left x zf ze Leaf = None"
| "last_rotation_left x zf ze (Node yf yl ye yr) =
     (case (if black yr then RBT_ROTATE_RIGHT (Node RED (paint BLACK yl) ye yr)
            else Some (Node yf yl ye yr)) of
        Some (Node yf yl ye yr) \<Rightarrow>
          RBT_ROTATE_LEFT (Node BLACK (paint BLACK x) ze (Node zf yl ye (paint BLACK yr)))
      | _ \<Rightarrow> None)"

fun last_rotation_next :: "'a rbt \<Rightarrow> color \<Rightarrow> 'a elem \<Rightarrow> 'a rbt \<Rightarrow> 'a rbt option" where
  "last_rotation_next x zf ze Leaf = None"
| "last_rotation_next x zf ze (Node yf yl ye yr) =
     (case (if black yl then RBT_ROTATE_LEFT (Node RED yl ye (paint BLACK yr))
            else Some (Node yf yl ye yr)) of
        Some (Node yf yl ye yr) \<Rightarrow>
          RBT_ROTATE_RIGHT (Node BLACK (Node zf (paint BLACK yl) ye yr) ze (paint BLACK x))
      | _ \<Rightarrow> None)"

primrec depth :: "'a path \<Rightarrow> nat" where
  "depth Root = 0"
| "depth (InLeft f e r p) = Suc (depth p)"
| "depth (InNext f l e p) = Suc (depth p)"

function (sequential) unlink_fixup :: "'a rbt \<Rightarrow> 'a path \<Rightarrow> 'a rbt option" where
  "unlink_fixup x Root = Some (paint BLACK x)"
| "unlink_fixup x (InLeft zf ze y q) =
     (if \<not> black x then Some (fill (InLeft zf ze y q) (paint BLACK x))
      else case red_sibling_left zf y q of
        (zf, Leaf, q) \<Rightarrow> None
      | (zf, Node yf yl ye yr, q) \<Rightarrow>
          if black yl \<and> black yr then unlink_fixup (Node zf x ze (Node RED yl ye yr)) q
          else map_option (fill q) (last_rotation_left x zf ze (Node yf yl ye yr)))"
| "unlink_fixup x (InNext zf y ze q) =
     (if \<not> black x then Some (fill (InNext zf y ze q) (paint BLACK x))
      else case red_sibling_next zf y q of
        (zf, Leaf, q) \<Rightarrow> None
      | (zf, Node yf yl ye yr, q) \<Rightarrow>
          if black yl \<and> black yr then unlink_fixup (Node zf (Node RED yl ye yr) ze x) q
          else map_option (fill q) (last_rotation_next x zf ze (Node yf yl ye yr)))"
  by pat_completeness auto

fun_cases red_sibling_leftE: "red_sibling_left zf y q = (zf', y', q')"
fun_cases red_sibling_nextE: "red_sibling_next zf y q = (zf', y', q')"

termination unlink_fixup
  by (relation "measure (\<lambda>(x, p). 2 * depth p + (if black x then 1 else 0))")
    (auto elim!: red_sibling_leftE [OF sym] red_sibling_nextE [OF sym])

text \<open>
  What \<^verbatim>\<open>RBT_UNLINK\<close> does before the loop: the colour lost, the subtree \<open>x\<close> that takes the place and
  its path. A node with two children is replaced by its successor \<open>y\<close>, which takes its colour.
\<close>

fun unlink_node :: "'a loc \<Rightarrow> (color \<times> 'a rbt \<times> 'a path) option" where
  "unlink_node (Leaf, p) = None"
| "unlink_node (Node f l e r, p) =
     (if l \<noteq> Leaf \<and> r \<noteq> Leaf then
        (case down_left r Root of
           (Leaf, _) \<Rightarrow> None
         | (Node yf yl ye yr, _) \<Rightarrow> Some (yf, yr, snd (down_left r (InNext f l ye p))))
      else Some (f, if r = Leaf then l else r, p))"

fun unlink_ends :: "'a loc \<Rightarrow> 'a rbt_head \<Rightarrow> 'a rbt_head" where
  "unlink_ends (Leaf, p) h = h"
| "unlink_ends (Node f l e r, p) h =
     (if l \<noteq> Leaf \<and> r \<noteq> Leaf then h
      else
        let x = (if r = Leaf then l else r);
            h = (if leftmost h = Some (node_addr e)
                 then h\<lparr>leftmost := (case fst (down_left x p) of
                          Node _ _ y _ \<Rightarrow> Some (node_addr y)
                        | Leaf \<Rightarrow> map_option node_addr (parent_elem p))\<rparr> else h);
            h = (if rightmost h = Some (node_addr e)
                 then h\<lparr>rightmost := (case fst (down_next x p) of
                          Node _ _ y _ \<Rightarrow> Some (node_addr y)
                        | Leaf \<Rightarrow> map_option node_addr (parent_elem p))\<rparr> else h)
        in h)"

definition RBT_UNLINK :: "'a rbt_head \<Rightarrow> 'a loc \<Rightarrow> 'a rbt_head option" where
  "RBT_UNLINK h node =
     (let h = h\<lparr>rbt_num_node := rbt_num_node h - 1\<rparr> in
      case unlink_node node of
        None \<Rightarrow> None
      | Some (f, x, p) \<Rightarrow>
          map_option (\<lambda>t. (unlink_ends node h)\<lparr>root := t\<rparr>)
            (if f = BLACK then unlink_fixup x p else Some (fill p x)))"

section \<open>The order of the elements\<close>

lemma inorder_fill [simp]: "inorder (fill p t) = before p @ inorder t @ after p"
  by (induction p arbitrary: t) auto

lemma inorder_paint [simp]: "inorder (paint c t) = inorder t"
  by (cases t) auto

lemma paint_eq_Leaf [simp]: "paint c t = Leaf \<longleftrightarrow> t = Leaf"
  by (cases t) auto

lemma RBT_ROTATE_LEFT_inorder: "RBT_ROTATE_LEFT t = Some t' \<Longrightarrow> inorder t' = inorder t"
  by (induction t rule: RBT_ROTATE_LEFT.induct) auto

lemma RBT_ROTATE_RIGHT_inorder: "RBT_ROTATE_RIGHT t = Some t' \<Longrightarrow> inorder t' = inorder t"
  by (induction t rule: RBT_ROTATE_RIGHT.induct) auto

lemmas rotate_inorder = RBT_ROTATE_LEFT_inorder RBT_ROTATE_RIGHT_inorder

lemma fill_down_left [simp]: "fill (snd (down_left t p)) (fst (down_left t p)) = fill p t"
  by (induction t p rule: down_left.induct) auto

lemma fill_down_next [simp]: "fill (snd (down_next t p)) (fst (down_next t p)) = fill p t"
  by (induction t p rule: down_next.induct) auto

lemma insert_fixup_inorder:
  "insert_fixup x p = Some t \<Longrightarrow> inorder t = before p @ inorder x @ after p"
proof (induction x p arbitrary: t rule: insert_fixup.induct)
  case (1 x)
  then show ?case by simp
next
  case (2 x pf pe pr g)
  then show ?case
    by (auto simp: Let_def split: if_splits path.splits option.splits dest!: rotate_inorder)
next
  case (3 x pf pl pe g)
  then show ?case
    by (auto simp: Let_def split: if_splits path.splits option.splits dest!: rotate_inorder)
qed

lemma red_sibling_left_fill:
  "red_sibling_left zf y q = (zf', y', q') \<Longrightarrow>
   before q' = before q \<and> inorder x @ ze # inorder y' @ after q' = inorder x @ ze # inorder y @ after q"
  by (auto elim!: red_sibling_leftE)

lemma red_sibling_next_fill:
  "red_sibling_next zf y q = (zf', y', q') \<Longrightarrow>
   after q' = after q \<and> before q' @ inorder y' = before q @ inorder y"
  by (auto elim!: red_sibling_nextE)

lemma last_rotation_left_inorder:
  "last_rotation_left x zf ze y = Some t \<Longrightarrow> inorder t = inorder x @ ze # inorder y"
  by (cases y) (auto split: if_splits option.splits rbt.splits dest!: rotate_inorder)

lemma last_rotation_next_inorder:
  "last_rotation_next x zf ze y = Some t \<Longrightarrow> inorder t = inorder y @ ze # inorder x"
  by (cases y) (auto split: if_splits option.splits rbt.splits dest!: rotate_inorder)

declare last_rotation_left.simps [simp del] last_rotation_next.simps [simp del]

lemma unlink_fixup_inorder:
  "unlink_fixup x p = Some t \<Longrightarrow> inorder t = before p @ inorder x @ after p"
proof (induction x p arbitrary: t rule: unlink_fixup.induct)
  case (1 x)
  then show ?case by auto
next
  case (2 x zf ze y q)
  obtain zf' y' q' where rs: "red_sibling_left zf y q = (zf', y', q')"
    by (cases "red_sibling_left zf y q") auto
  from 2 rs red_sibling_left_fill [OF rs, of x ze] show ?case
    by (auto split: if_splits rbt.splits dest!: last_rotation_left_inorder)
next
  case (3 x zf y ze q)
  obtain zf' y' q' where rs: "red_sibling_next zf y q = (zf', y', q')"
    by (cases "red_sibling_next zf y q") auto
  from 3 rs red_sibling_next_fill [OF rs] show ?case
    by (auto split: if_splits rbt.splits dest!: last_rotation_next_inorder)
qed

text \<open>The ends of the descents.\<close>

lemma down_left_Node:
  "t \<noteq> Leaf \<Longrightarrow> down_left t p = (x, p') \<Longrightarrow>
   \<exists>f e r. x = Node f Leaf e r \<and> before p' = before p \<and>
     inorder t @ after p = e # inorder r @ after p'"
  by (induction t p rule: down_left.induct) auto

lemma down_next_Node:
  "t \<noteq> Leaf \<Longrightarrow> down_next t p = (x, p') \<Longrightarrow>
   \<exists>f l e. x = Node f l e Leaf \<and> after p' = after p \<and>
     before p @ inorder t = before p' @ inorder l @ [e]"
  by (induction t p rule: down_next.induct) auto

lemma down_left_focus: "fst (down_left t p) = fst (down_left t q)"
  by (induction t p arbitrary: q rule: down_left.induct) auto

lemma down_next_focus: "fst (down_next t p) = fst (down_next t q)"
  by (induction t p arbitrary: q rule: down_next.induct) auto

lemma unlink_node_inorder:
  assumes "unlink_node (Node f l e r, p) = Some (c, x, q)"
  shows "before q @ inorder x @ after q = before p @ inorder l @ inorder r @ after p"
proof (cases "l \<noteq> Leaf \<and> r \<noteq> Leaf")
  case False
  with assms show ?thesis by (auto split: if_splits)
next
  case True
  obtain t p' where d: "down_left r Root = (t, p')" by (cases "down_left r Root") auto
  with down_left_Node [OF _ d] True obtain yf ye yr where t: "t = Node yf Leaf ye yr" by auto
  obtain t' p'' where d': "down_left r (InNext f l ye p) = (t', p'')"
    by (cases "down_left r (InNext f l ye p)") auto
  have "t' = t"
    using d d' down_left_focus [of r Root "InNext f l ye p"] by simp
  with down_left_Node [OF _ d'] True t
  have "before p'' = before p @ inorder l @ [ye]" "inorder r @ after p = ye # inorder yr @ after p''"
    by auto
  with assms True d t d' show ?thesis by auto
qed

section \<open>Searching\<close>

text \<open>
  The order a tree keeps: values do not decrease from left to right. Equal values are allowed (the
  keys of one bucket may share their hash value).
\<close>

abbreviation values_of :: "'a elem list \<Rightarrow> int list" where
  "values_of es \<equiv> map rbt_value es"

definition ordered :: "'a elem list \<Rightarrow> bool" where
  "ordered es \<longleftrightarrow> sorted (values_of es)"

lemma ordered_append:
  "ordered (xs @ ys) \<longleftrightarrow>
   ordered xs \<and> ordered ys \<and> (\<forall>x \<in> set xs. \<forall>y \<in> set ys. rbt_value x \<le> rbt_value y)"
  by (auto simp: ordered_def sorted_append)

lemma ordered_Cons:
  "ordered (x # xs) \<longleftrightarrow> (\<forall>y \<in> set xs. rbt_value x \<le> rbt_value y) \<and> ordered xs"
  by (auto simp: ordered_def)

lemma ordered_Nil [simp]: "ordered []"
  by (simp add: ordered_def)

lemmas ordered_simps = ordered_append ordered_Cons

text \<open>
  \<open>at_loc t loc xs e ys\<close>: \<open>loc\<close> points into \<open>t\<close> at the element \<open>e\<close>, which has \<open>xs\<close> before it and \<open>ys\<close>
  after it.
\<close>

definition at_loc :: "'a rbt \<Rightarrow> 'a loc \<Rightarrow> 'a elem list \<Rightarrow> 'a elem \<Rightarrow> 'a elem list \<Rightarrow> bool" where
  "at_loc t loc xs e ys \<longleftrightarrow>
     (\<exists>f l r p. loc = (Node f l e r, p) \<and> fill p (Node f l e r) = t \<and>
        xs = before p @ inorder l \<and> ys = inorder r @ after p)"

lemma at_loc_inorder: "at_loc t loc xs e ys \<Longrightarrow> inorder t = xs @ e # ys"
  by (auto simp: at_loc_def)

lemma at_locI:
  "fill p (Node f l e r) = t \<Longrightarrow>
   at_loc t (Node f l e r, p) (before p @ inorder l) e (inorder r @ after p)"
  by (auto simp: at_loc_def)

definition first_with :: "int \<Rightarrow> 'a rbt \<Rightarrow> 'a loc \<Rightarrow> bool" where
  "first_with val t loc \<longleftrightarrow>
     (\<exists>xs e ys. at_loc t loc xs e ys \<and> rbt_value e = val \<and> (\<forall>x \<in> set xs. rbt_value x < val))"

lemma leftwards_rightwards_first:
  "fill p s = t \<Longrightarrow> ordered (inorder s) \<Longrightarrow> (\<forall>x \<in> set (inorder s). rbt_value x \<le> val) \<Longrightarrow>
   (\<forall>x \<in> set (before p). rbt_value x < val) \<Longrightarrow>
   at_loc t node (before p @ inorder s) e ys \<Longrightarrow> rbt_value e = val \<Longrightarrow>
   first_with val t (leftwards val s p node)"
  "fill p s = t \<Longrightarrow> ordered (inorder s) \<Longrightarrow> (\<forall>x \<in> set (inorder s). rbt_value x \<le> val) \<Longrightarrow>
   (\<forall>x \<in> set (before p). rbt_value x < val) \<Longrightarrow>
   at_loc t node (before p @ inorder s) e ys \<Longrightarrow> rbt_value e = val \<Longrightarrow>
   first_with val t (rightwards val s p node)"
proof (induction val s p node and val s p node arbitrary: e ys and e ys
    rule: leftwards_rightwards.induct)
  case (1 val p node)
  then show ?case by (auto simp: first_with_def)
next
  case (2 val f l y r p node)
  show ?case
  proof (cases "rbt_value y < val")
    case True
    moreover have "first_with val t (rightwards val r (InNext f l y p) node)"
      by (rule "2.IH"(1) [OF True, where e = e and ys = ys])
        (use 2 True in \<open>auto simp: ordered_simps\<close>)
    ultimately show ?thesis by simp
  next
    case False
    with "2.prems"(3) have y: "rbt_value y = val" by auto
    have "first_with val t (leftwards val l (InLeft f y r p) (Node f l y r, p))"
      by (rule "2.IH"(2) [OF False, where e = y and ys = "inorder r @ after p"])
        (use 2 y in \<open>auto simp: ordered_simps intro!: at_locI\<close>)
    with False show ?thesis by simp
  qed
next
  case (3 val p node)
  then show ?case by (auto simp: first_with_def)
next
  case (4 val f l y r p node)
  show ?case
  proof (cases "rbt_value y = val")
    case True
    have "first_with val t (leftwards val l (InLeft f y r p) (Node f l y r, p))"
      by (rule "4.IH"(1) [OF True, where e = y and ys = "inorder r @ after p"])
        (use 4 True in \<open>auto simp: ordered_simps intro!: at_locI\<close>)
    with True show ?thesis by simp
  next
    case False
    with "4.prems"(3) have y: "rbt_value y < val" by fastforce
    have "first_with val t (rightwards val r (InNext f l y p) node)"
      by (rule "4.IH"(2) [OF False, where e = e and ys = ys])
        (use 4 y in \<open>auto simp: ordered_simps\<close>)
    with False show ?thesis by simp
  qed
qed

lemma find_left_from_Some:
  assumes "find_left_from val s p = Some loc" and "fill p s = t" and "ordered (inorder t)"
    and "\<forall>x \<in> set (before p). rbt_value x < val"
  shows "first_with val t loc"
  using assms
proof (induction val s p rule: find_left_from.induct)
  case (1 val p)
  then show ?case by simp
next
  case (2 val f l e r p)
  from "2.prems"(2) have T: "inorder t = before p @ (inorder l @ e # inorder r) @ after p" by auto
  consider "rbt_value e > val" | "rbt_value e < val" | "rbt_value e = val" by linarith
  then show ?case
  proof cases
    case 1
    with 2 show ?thesis by auto
  next
    case 2
    with "2.prems" T have "\<forall>x \<in> set (before (InNext f l e p)). rbt_value x < val"
      by (force simp: ordered_simps)
    with 2 "2.IH"(2) "2.prems" show ?thesis by simp
  next
    case 3
    moreover have "first_with val t (leftwards val l (InLeft f e r p) (Node f l e r, p))"
      by (rule leftwards_rightwards_first(1) [where e = e and ys = "inorder r @ after p"])
        (use 2 3 T in \<open>auto simp: ordered_simps intro!: at_locI\<close>)
    ultimately show ?thesis using "2.prems"(1) by simp
  qed
qed

lemma find_left_from_None:
  assumes "find_left_from val s p = None" and "ordered (inorder s)"
  shows "\<forall>x \<in> set (inorder s). rbt_value x \<noteq> val"
  using assms
  by (induction val s p rule: find_left_from.induct) (force simp: ordered_simps split: if_splits)+

lemma RBT_FIND_LEFT_Some:
  "RBT_FIND_LEFT h val = Some loc \<Longrightarrow> ordered (inorder (root h)) \<Longrightarrow> first_with val (root h) loc"
  unfolding RBT_FIND_LEFT_def by (erule find_left_from_Some) auto

lemma RBT_FIND_LEFT_None:
  "RBT_FIND_LEFT h val = None \<Longrightarrow> ordered (inorder (root h)) \<Longrightarrow>
   \<forall>x \<in> set (inorder (root h)). rbt_value x \<noteq> val"
  unfolding RBT_FIND_LEFT_def by (erule find_left_from_None) auto

section \<open>Iterating\<close>

lemma climb_next_at:
  "fill p s = t \<Longrightarrow>
   (case climb_next s p of
      None \<Rightarrow> after p = []
    | Some loc \<Rightarrow> (\<exists>e ys. after p = e # ys \<and> at_loc t loc (before p @ inorder s) e ys))"
  by (induction s p rule: climb_next.induct) (auto simp: at_loc_def split: option.splits)

lemma climb_left_at:
  "fill p s = t \<Longrightarrow>
   (case climb_left s p of
      None \<Rightarrow> before p = []
    | Some loc \<Rightarrow> (\<exists>xs e. before p = xs @ [e] \<and> at_loc t loc xs e (inorder s @ after p)))"
  by (induction s p rule: climb_left.induct) (auto simp: at_loc_def split: option.splits)

lemma RBT_INCREMENT_at:
  assumes "at_loc t loc xs e ys"
  shows "case ys of
           [] \<Rightarrow> RBT_INCREMENT loc = None
         | y # zs \<Rightarrow> \<exists>loc'. RBT_INCREMENT loc = Some loc' \<and> at_loc t loc' (xs @ [e]) y zs"
proof -
  from assms obtain f l r p where loc: "loc = (Node f l e r, p)" "fill p (Node f l e r) = t"
    "xs = before p @ inorder l" "ys = inorder r @ after p" by (auto simp: at_loc_def)
  show ?thesis
  proof (cases "r = Leaf")
    case True
    with climb_next_at [OF loc(2)] loc show ?thesis
      by (auto split: option.splits list.splits)
  next
    case False
    obtain x p' where d: "down_left r (InNext f l e p) = (x, p')"
      by (cases "down_left r (InNext f l e p)") auto
    with down_left_Node [OF False d] obtain f' e' r' where
      x: "x = Node f' Leaf e' r'" "before p' = xs @ [e]" "ys = e' # inorder r' @ after p'"
      using loc by auto
    moreover have "fill p' x = t"
      using fill_down_left [of r "InNext f l e p"] d loc by simp
    ultimately show ?thesis using False d loc(1) by (auto simp: at_loc_def)
  qed
qed

section \<open>Balance\<close>

text \<open>
  The red-black invariant: no red node has a red child, and every way down meets the same number of
  black nodes. \<open>ctx p n\<close> is the invariant of a path whose hole takes a subtree of black height \<open>n\<close>.
\<close>

primrec invc :: "'a rbt \<Rightarrow> bool" where
  "invc Leaf = True"
| "invc (Node f l e r) = ((f = RED \<longrightarrow> black l \<and> black r) \<and> invc l \<and> invc r)"

primrec bheight :: "'a rbt \<Rightarrow> nat" where
  "bheight Leaf = 0"
| "bheight (Node f l e r) = bheight l + (if f = BLACK then 1 else 0)"

primrec invh :: "'a rbt \<Rightarrow> bool" where
  "invh Leaf = True"
| "invh (Node f l e r) = (bheight l = bheight r \<and> invh l \<and> invh r)"

definition balanced :: "'a rbt \<Rightarrow> bool" where
  "balanced t \<longleftrightarrow> black t \<and> invc t \<and> invh t"

primrec top_red :: "'a path \<Rightarrow> bool" where
  "top_red Root = False"
| "top_red (InLeft f e r p) = (f = RED)"
| "top_red (InNext f l e p) = (f = RED)"

primrec ctx :: "'a path \<Rightarrow> nat \<Rightarrow> bool" where
  "ctx Root n = True"
| "ctx (InLeft f e r p) n =
     (invc r \<and> invh r \<and> n = bheight r \<and> (f = RED \<longrightarrow> black r \<and> p \<noteq> Root \<and> \<not> top_red p) \<and>
      ctx p (n + (if f = BLACK then 1 else 0)))"
| "ctx (InNext f l e p) n =
     (invc l \<and> invh l \<and> bheight l = n \<and> (f = RED \<longrightarrow> black l \<and> p \<noteq> Root \<and> \<not> top_red p) \<and>
      ctx p (n + (if f = BLACK then 1 else 0)))"

lemma black_paint_BLACK [simp]: "black (paint BLACK t)"
  by (cases t) auto

lemma paint_BLACK_id [simp]: "black t \<Longrightarrow> paint BLACK t = t"
  by (cases t) auto

lemma invh_paint [simp]: "invh (paint c t) = invh t"
  by (cases t) auto

lemma invc_paint_BLACK: "invc t \<Longrightarrow> invc (paint BLACK t)"
  by (cases t) auto

lemma invc_unpaint: "black t \<Longrightarrow> invc (paint RED t) \<Longrightarrow> invc t"
  by (cases t) auto

lemma bheight_paint_BLACK: "\<not> black t \<Longrightarrow> bheight (paint BLACK t) = Suc (bheight t)"
  by (cases t) auto

lemma not_BLACK [simp]: "f \<noteq> BLACK \<longleftrightarrow> f = RED"
  by (cases f) auto

lemma not_RED [simp]: "f \<noteq> RED \<longleftrightarrow> f = BLACK"
  by (cases f) auto

lemma not_black_Node: "\<not> black t \<Longrightarrow> \<exists>l e r. t = Node RED l e r"
  by (cases t) auto

lemma fill_balanced:
  "balanced (fill p t) \<longleftrightarrow>
   ctx p (bheight t) \<and> invc t \<and> invh t \<and> (top_red p \<or> p = Root \<longrightarrow> black t)"
proof (induction p arbitrary: t)
  case Root
  then show ?case by (auto simp: balanced_def)
next
  case (InLeft f e r p)
  then show ?case by (cases f) (simp_all add: conj_ac)
next
  case (InNext f l e p)
  then show ?case by (cases f) (simp_all add: conj_ac, metis+)
qed

lemma insert_fixup_balanced:
  assumes "invc (paint RED x)" and "invh x" and "ctx p (bheight (paint RED x))"
    and "p = Root \<longrightarrow> black x" and "x \<noteq> Leaf"
  shows "\<exists>t. insert_fixup x p = Some t \<and> balanced t"
  using assms
proof (induction x p rule: insert_fixup.induct)
  case (1 x)
  then show ?case by (auto simp: balanced_def invc_unpaint)
next
  case (2 x pf pe pr g)
  obtain xf xl xe xr where x: "x = Node xf xl xe xr" using "2.prems" by (cases x) auto
  show ?case
  proof (cases g)
    case Root
    with 2 show ?thesis by (cases pf) (auto simp: x balanced_def)
  next
    case (InLeft gf ge y q)
    with 2 show ?thesis by (cases pf) (auto simp: x Let_def fill_balanced dest!: not_black_Node)
  next
    case (InNext gf y ge q)
    with 2 show ?thesis by (cases pf) (auto simp: x Let_def fill_balanced dest!: not_black_Node)
  qed
next
  case (3 x pf pl pe g)
  obtain xf xl xe xr where x: "x = Node xf xl xe xr" using "3.prems" by (cases x) auto
  show ?case
  proof (cases g)
    case Root
    with 3 show ?thesis by (cases pf) (auto simp: x balanced_def)
  next
    case (InLeft gf ge y q)
    with 3 show ?thesis by (cases pf) (auto simp: x Let_def fill_balanced dest!: not_black_Node)
  next
    case (InNext gf y ge q)
    with 3 show ?thesis by (cases pf) (auto simp: x Let_def fill_balanced dest!: not_black_Node)
  qed
qed

lemma red_sibling_left_ctx:
  "red_sibling_left zf y q = (zf', y', q') \<Longrightarrow> ctx (InLeft zf ze y q) n \<Longrightarrow>
   ctx (InLeft zf' ze y' q') n \<and> black y'"
  by (auto elim!: red_sibling_leftE)

lemma red_sibling_next_ctx:
  "red_sibling_next zf y q = (zf', y', q') \<Longrightarrow> ctx (InNext zf y ze q) n \<Longrightarrow>
   ctx (InNext zf' y' ze q') n \<and> black y'"
  by (auto elim!: red_sibling_nextE)

lemma last_rotation_left_balanced:
  assumes "invc x" "invh x" "black x" "invc y" "invh y" "bheight y = Suc (bheight x)"
    and "y = Node BLACK yl ye yr" and "\<not> (black yl \<and> black yr)"
  shows "\<exists>t. last_rotation_left x zf ze y = Some t \<and> invc t \<and> invh t \<and> t \<noteq> Leaf \<and>
           bheight t = Suc (bheight x) + (if zf = BLACK then 1 else 0) \<and> (black t \<longleftrightarrow> zf = BLACK)"
  using assms
  by (cases "black yr") (auto simp: last_rotation_left.simps dest!: not_black_Node)

lemma last_rotation_next_balanced:
  assumes "invc x" "invh x" "black x" "invc y" "invh y" "bheight y = Suc (bheight x)"
    and "y = Node BLACK yl ye yr" and "\<not> (black yl \<and> black yr)"
  shows "\<exists>t. last_rotation_next x zf ze y = Some t \<and> invc t \<and> invh t \<and> t \<noteq> Leaf \<and>
           bheight t = Suc (bheight x) + (if zf = BLACK then 1 else 0) \<and> (black t \<longleftrightarrow> zf = BLACK)"
  using assms
  by (cases "black yl") (auto simp: last_rotation_next.simps dest!: not_black_Node)

lemma unlink_fixup_balanced:
  assumes "invc (paint BLACK x)" and "invh x" and "ctx p (Suc (bheight x))"
  shows "\<exists>t. unlink_fixup x p = Some t \<and> balanced t"
  using assms
proof (induction x p rule: unlink_fixup.induct)
  case (1 x)
  then show ?case by (auto simp: balanced_def)
next
  case (2 x zf ze y q)
  show ?case
  proof (cases "black x")
    case False
    with 2 show ?thesis by (auto simp: fill_balanced bheight_paint_BLACK simp del: fill.simps)
  next
    case True
    obtain zf' y' q' where rs: "red_sibling_left zf y q = (zf', y', q')"
      by (cases "red_sibling_left zf y q") auto
    note c = red_sibling_left_ctx [OF rs "2.prems"(3)]
    then obtain yl ye yr where y': "y' = Node BLACK yl ye yr" by (cases y') auto
    show ?thesis
    proof (cases "black yl \<and> black yr")
      case both: True
      with 2 True rs y' c show ?thesis by (cases zf') auto
    next
      case False
      with 2 True rs y' c last_rotation_left_balanced [of x y' yl ye yr zf' ze]
      show ?thesis by (auto simp: fill_balanced)
    qed
  qed
next
  case (3 x zf y ze q)
  show ?case
  proof (cases "black x")
    case False
    with 3 show ?thesis by (auto simp: fill_balanced bheight_paint_BLACK simp del: fill.simps)
  next
    case True
    obtain zf' y' q' where rs: "red_sibling_next zf y q = (zf', y', q')"
      by (cases "red_sibling_next zf y q") auto
    note c = red_sibling_next_ctx [OF rs "3.prems"(3)]
    then obtain yl ye yr where y': "y' = Node BLACK yl ye yr" by (cases y') auto
    show ?thesis
    proof (cases "black yl \<and> black yr")
      case both: True
      with 3 True rs y' c show ?thesis by (cases zf') auto
    next
      case False
      with 3 True rs y' c last_rotation_next_balanced [of x y' yl ye yr zf' ze]
      show ?thesis by (auto simp: fill_balanced)
    qed
  qed
qed

section \<open>Inserting where \<^verbatim>\<open>RBT_FIND\<close> says\<close>

primrec parent_loc :: "'a rbt \<Rightarrow> 'a path \<Rightarrow> 'a loc option" where
  "parent_loc t Root = None"
| "parent_loc t (InLeft f e r p) = Some (Node f t e r, p)"
| "parent_loc t (InNext f l e p) = Some (Node f l e t, p)"

text \<open>
  The node \<^verbatim>\<open>RBT_FIND\<close> returns has the value, or it is the node below which the value would hang.
\<close>

definition found :: "int \<Rightarrow> 'a rbt \<Rightarrow> 'a loc \<Rightarrow> bool" where
  "found val t loc \<longleftrightarrow>
     (\<exists>f l y r p. loc = (Node f l y r, p) \<and> fill p (Node f l y r) = t \<and>
        (rbt_value y = val \<or>
         val < rbt_value y \<and> l = Leaf \<and> (\<forall>x \<in> set (before p). rbt_value x < val) \<or>
         rbt_value y < val \<and> r = Leaf \<and> (\<forall>x \<in> set (after p). val < rbt_value x)))"

lemma ordered_above:
  "ordered (xs @ e # ys) \<Longrightarrow> val < rbt_value e \<Longrightarrow> y \<in> set ys \<Longrightarrow> val < rbt_value y"
  by (metis ordered_simps order_less_le_trans)

lemma ordered_below:
  "ordered (xs @ e # ys) \<Longrightarrow> rbt_value e < val \<Longrightarrow> x \<in> set xs \<Longrightarrow> rbt_value x < val"
  by (metis ordered_simps(1) list.set_intros(1) order_le_less_trans)

lemma foundI:
  "fill p (Node f l y r) = t \<Longrightarrow> rbt_value y = val \<Longrightarrow> found val t (Node f l y r, p)"
  "fill p (Node f Leaf y r) = t \<Longrightarrow> val < rbt_value y \<Longrightarrow> \<forall>x \<in> set (before p). rbt_value x < val \<Longrightarrow>
   found val t (Node f Leaf y r, p)"
  "fill p (Node f l y Leaf) = t \<Longrightarrow> rbt_value y < val \<Longrightarrow> \<forall>x \<in> set (after p). val < rbt_value x \<Longrightarrow>
   found val t (Node f l y Leaf, p)"
  unfolding found_def by blast+

lemma find_from_found:
  assumes "fill p s = t" and "ordered (inorder t)"
    and "\<forall>x \<in> set (before p). rbt_value x < val" and "\<forall>x \<in> set (after p). val < rbt_value x"
  shows "case find_from val s p (parent_loc s p) of
           None \<Rightarrow> t = Leaf | Some loc \<Rightarrow> found val t loc"
  using assms
proof (induction s arbitrary: p)
  case Leaf
  then show ?case by (cases p) (simp_all add: foundI)
next
  case (Node f l e r)
  from Node.prems(1,2) have T: "ordered ((before p @ inorder l) @ e # inorder r @ after p)" by auto
  consider "rbt_value e > val" | "rbt_value e < val" | "rbt_value e = val" by linarith
  then show ?case
  proof cases
    case 1
    with ordered_above [OF T] have "\<forall>x \<in> set (after (InLeft f e r p)). val < rbt_value x"
      by simp
    with 1 Node.prems Node.IH(1) [of "InLeft f e r p"] show ?thesis by simp
  next
    case 2
    with ordered_below [OF T] have "\<forall>x \<in> set (before (InNext f l e p)). rbt_value x < val"
      by simp
    with 2 Node.prems Node.IH(2) [of "InNext f l e p"] show ?thesis by simp
  next
    case 3
    with Node.prems(1) show ?thesis by (simp add: foundI)
  qed
qed

lemma RBT_FIND_found:
  "ordered (inorder (root h)) \<Longrightarrow>
   case RBT_FIND h val of None \<Rightarrow> root h = Leaf | Some loc \<Rightarrow> found val (root h) loc"
  using find_from_found [of Root "root h" "root h" val] by (simp add: RBT_FIND_def)

text \<open>The addresses of the ends of a tree.\<close>

definition first_addr :: "'a elem list \<Rightarrow> ptr" where
  "first_addr es = (case es of [] \<Rightarrow> None | e # _ \<Rightarrow> Some (node_addr e))"

definition last_addr :: "'a elem list \<Rightarrow> ptr" where
  "last_addr es = (if es = [] then None else Some (node_addr (last es)))"

lemma first_addr_simps [simp]:
  "first_addr [] = None" "first_addr (e # es) = Some (node_addr e)"
  by (auto simp: first_addr_def)

lemma first_addr_append: "first_addr (xs @ ys) = (if xs = [] then first_addr ys else first_addr xs)"
  by (cases xs) auto

lemma last_addr_simps [simp]:
  "last_addr [] = None" "last_addr (xs @ [e]) = Some (node_addr e)"
  by (auto simp: last_addr_def)

lemma last_addr_append: "last_addr (xs @ ys) = (if ys = [] then last_addr xs else last_addr ys)"
  by (auto simp: last_addr_def)

lemma last_addr_Cons: "last_addr (x # ys) = (if ys = [] then Some (node_addr x) else last_addr ys)"
  by (auto simp: last_addr_def)

lemmas ends_simps = first_addr_append last_addr_append last_addr_Cons

definition distinct_nodes :: "'a elem list \<Rightarrow> bool" where
  "distinct_nodes es \<longleftrightarrow> distinct (map node_addr es)"

lemma first_addr_is:
  "distinct_nodes (xs @ e # ys) \<Longrightarrow> first_addr (xs @ e # ys) = Some (node_addr e) \<longleftrightarrow> xs = []"
  by (cases xs) (auto simp: distinct_nodes_def)

lemma last_addr_is:
  "distinct_nodes (xs @ e # ys) \<Longrightarrow> last_addr (xs @ e # ys) = Some (node_addr e) \<longleftrightarrow> ys = []"
  by (cases ys rule: rev_cases) (auto simp: distinct_nodes_def last_addr_def)

lemma inorder_Nil [simp]: "inorder t = [] \<longleftrightarrow> t = Leaf"
  by (cases t) auto

lemma ordered_insert_before:
  assumes "ordered (xs @ y # ys)" and "rbt_value e \<le> rbt_value y"
    and "rbt_value e = rbt_value y \<or> (\<forall>x \<in> set xs. rbt_value x < rbt_value e)"
  shows "ordered (xs @ e # y # ys)"
  using assms unfolding ordered_simps by (elim disjE) force+

lemma ordered_insert_after:
  assumes "ordered (xs @ y # ys)" and "rbt_value y \<le> rbt_value e"
    and "rbt_value e = rbt_value y \<or> (\<forall>x \<in> set ys. rbt_value e < rbt_value x)"
  shows "ordered (xs @ y # e # ys)"
  using assms unfolding ordered_simps by (elim disjE) force+

lemma insert_path_found:
  assumes "found (rbt_value e) t loc" and "ordered (inorder t)"
  shows "\<exists>q. insert_path e loc = Some q \<and> fill q Leaf = t \<and> q \<noteq> Root \<and>
           ordered (before q @ e # after q)"
proof -
  from assms(1) obtain f l y r p where loc: "loc = (Node f l y r, p)"
    and t: "fill p (Node f l y r) = t"
    and or: "rbt_value y = rbt_value e \<or>
         rbt_value e < rbt_value y \<and> l = Leaf \<and> (\<forall>x \<in> set (before p). rbt_value x < rbt_value e) \<or>
         rbt_value y < rbt_value e \<and> r = Leaf \<and> (\<forall>x \<in> set (after p). rbt_value e < rbt_value x)"
    unfolding found_def by blast
  have T: "ordered ((before p @ inorder l) @ y # inorder r @ after p)" using assms(2) t by auto
  show ?thesis
  proof (cases "rbt_value e = rbt_value y \<and> r \<noteq> Leaf \<and> l \<noteq> Leaf")
    case True
    obtain x q where d: "down_next l (InLeft f y r p) = (x, q)"
      by (cases "down_next l (InLeft f y r p)") auto
    with down_next_Node [OF _ d] True obtain f' l' e' where
      x: "x = Node f' l' e' Leaf" "after q = y # inorder r @ after p"
        "before q @ inorder l' @ [e'] = before p @ inorder l" by auto
    have "fill q x = t" using fill_down_next [of l "InLeft f y r p"] d t by simp
    moreover have "ordered ((before q @ inorder l' @ [e']) @ e # after q)"
      unfolding x using ordered_insert_before [OF T, of e] True by simp
    ultimately show ?thesis using True d x(1) loc by (intro exI [of _ "InNext f' l' e' q"]) simp
  next
    case False
    show ?thesis
    proof (cases "rbt_value e > rbt_value y \<or> rbt_value e = rbt_value y \<and> l \<noteq> Leaf")
      case True
      with False or have r: "r = Leaf" by auto
      have "rbt_value y \<le> rbt_value e"
        and "rbt_value e = rbt_value y \<or> (\<forall>x \<in> set (after p). rbt_value e < rbt_value x)"
        using True or by linarith+
      with ordered_insert_after [OF T, of e] r
      have "ordered ((before p @ inorder l @ [y]) @ e # after p)" by simp
      with False True r t loc show ?thesis by (intro exI [of _ "InNext f l y p"]) simp
    next
      case le: False
      with or have l: "l = Leaf" "rbt_value e \<le> rbt_value y" by auto
      moreover have "rbt_value e = rbt_value y \<or> (\<forall>x \<in> set (before p). rbt_value x < rbt_value e)"
        using le or by linarith
      ultimately have "ordered (before p @ e # y # inorder r @ after p)"
        using ordered_insert_before [OF T, of e] by simp
      with False le l t loc show ?thesis by (intro exI [of _ "InLeft f y r p"]) simp
    qed
  qed
qed

text \<open>The invariant of a tree head.\<close>

definition rbt_inv :: "'a rbt_head \<Rightarrow> bool" where
  "rbt_inv h \<longleftrightarrow>
     balanced (root h) \<and> ordered (inorder (root h)) \<and> distinct_nodes (inorder (root h)) \<and>
     rbt_num_node h = of_nat (length (inorder (root h))) \<and>
     leftmost h = first_addr (inorder (root h)) \<and> rightmost h = last_addr (inorder (root h))"

lemma insert_ends_root [simp]:
  "root (insert_ends e loc h) = root h" "rbt_num_node (insert_ends e loc h) = rbt_num_node h"
  by (induction e loc h rule: insert_ends.induct) auto

lemma ends_insert_after:
  assumes "distinct_nodes (xs @ y # ys)"
  shows "first_addr (xs @ y # e # ys) = first_addr (xs @ y # ys)"
    and "last_addr (xs @ y # e # ys) =
      (if Some (node_addr y) = last_addr (xs @ y # ys) then Some (node_addr e) else last_addr (xs @ y # ys))"
  using last_addr_is [OF assms] by (auto simp: ends_simps eq_commute)

lemma ends_insert_before:
  assumes "distinct_nodes (xs @ y # ys)"
  shows "last_addr (xs @ e # y # ys) = last_addr (xs @ y # ys)"
    and "first_addr (xs @ e # y # ys) =
      (if Some (node_addr y) = first_addr (xs @ y # ys) then Some (node_addr e) else first_addr (xs @ y # ys))"
  using first_addr_is [OF assms] by (auto simp: ends_simps eq_commute)

lemma insert_ends_ends:
  assumes "found (rbt_value e) t loc" and "insert_path e loc = Some q"
    and "distinct_nodes (inorder t)"
    and "leftmost h = first_addr (inorder t)" and "rightmost h = last_addr (inorder t)"
  shows "leftmost (insert_ends e loc h) = first_addr (before q @ e # after q) \<and>
         rightmost (insert_ends e loc h) = last_addr (before q @ e # after q)"
proof -
  from assms(1) obtain f l y r p where loc: "loc = (Node f l y r, p)"
    and t: "fill p (Node f l y r) = t"
    and or: "rbt_value y = rbt_value e \<or> rbt_value e < rbt_value y \<and> l = Leaf \<or>
         rbt_value y < rbt_value e \<and> r = Leaf"
    unfolding found_def by blast
  have T: "inorder t = (before p @ inorder l) @ y # inorder r @ after p" using t by auto
  note d = assms(3) [unfolded T] and ends = assms(4,5) [unfolded T]
  show ?thesis
  proof (cases "rbt_value e = rbt_value y \<and> r \<noteq> Leaf \<and> l \<noteq> Leaf")
    case True
    obtain x p' where dn: "down_next l (InLeft f y r p) = (x, p')"
      by (cases "down_next l (InLeft f y r p)") auto
    with down_next_Node [OF _ dn] True obtain f' l' e' where
      x: "x = Node f' l' e' Leaf" "after p' = y # inorder r @ after p"
        "before p' @ inorder l' @ [e'] = before p @ inorder l" by auto
    with assms(2) True dn loc have "before q = before p @ inorder l" "after q = y # inorder r @ after p"
      by auto
    with True ends loc show ?thesis by (simp add: ends_simps)
  next
    case False
    show ?thesis
    proof (cases "rbt_value e > rbt_value y \<or> rbt_value e = rbt_value y \<and> l \<noteq> Leaf")
      case True
      with False or have "r = Leaf" by auto
      moreover from False True assms(2) loc have "q = InNext f l y p" by (simp split: if_splits)
      ultimately show ?thesis
        using False True ends loc ends_insert_after [OF d, of e] by simp
    next
      case le: False
      with or have "l = Leaf" by auto
      moreover from False le assms(2) loc have "q = InLeft f y r p" by (simp split: if_splits)
      ultimately show ?thesis
        using False le ends loc ends_insert_before [OF d, of e] by simp
    qed
  qed
qed

lemma RBT_INSERT_spec:
  assumes "rbt_inv h" and "node_addr e \<notin> node_addr ` set (inorder (root h))"
  shows "\<exists>h' xs ys. RBT_INSERT h e (RBT_FIND h (rbt_value e)) = Some h' \<and> rbt_inv h' \<and>
           inorder (root h) = xs @ ys \<and> inorder (root h') = xs @ e # ys"
proof (cases "RBT_FIND h (rbt_value e)")
  case None
  with RBT_FIND_found [of h "rbt_value e"] assms have "root h = Leaf" by (auto simp: rbt_inv_def)
  with None assms(1) show ?thesis
    by (auto simp: rbt_inv_def RBT_INSERT_def balanced_def distinct_nodes_def ends_simps ordered_def)
next
  case (Some loc)
  from assms(1) have o: "ordered (inorder (root h))" by (simp add: rbt_inv_def)
  with RBT_FIND_found [of h "rbt_value e"] Some
  have f: "found (rbt_value e) (root h) loc" by simp
  from insert_path_found [OF f o] obtain q where q: "insert_path e loc = Some q"
    "fill q Leaf = root h" "q \<noteq> Root" "ordered (before q @ e # after q)" by blast
  from q(2) have T: "inorder (root h) = before q @ after q" using inorder_fill [of q Leaf] by simp
  have "ctx q 0" using assms(1) q(2) fill_balanced [of q Leaf] by (simp add: rbt_inv_def)
  with insert_fixup_balanced [of "Node BLACK Leaf e Leaf" q] q(3) obtain t where
    t: "insert_fixup (Node BLACK Leaf e Leaf) q = Some t" "balanced t" by auto
  from insert_fixup_inorder [OF t(1)] have "inorder t = before q @ e # after q" by simp
  moreover have "distinct_nodes (before q @ e # after q)"
    using assms T by (auto simp: rbt_inv_def distinct_nodes_def)
  moreover note insert_ends_ends [OF f q(1), of "h\<lparr>rbt_num_node := rbt_num_node h + 1\<rparr>"]
  ultimately show ?thesis
    using Some q t assms(1) T by (auto simp: RBT_INSERT_def rbt_inv_def Let_def)
qed

section \<open>Unlinking\<close>

text \<open>The loop of \<^verbatim>\<open>RBT_UNLINK\<close> starts with a subtree one black node short, or none was lost.\<close>

lemma unlink_one_child:
  assumes "balanced (fill p (Node c l e r))" and "l = Leaf \<or> r = Leaf"
    and "x = (if r = Leaf then l else r)"
  shows "\<exists>t. (if c = BLACK then unlink_fixup x p else Some (fill p x)) = Some t \<and> balanced t"
proof (cases c)
  case BLACK
  with assms unlink_fixup_balanced [of x p] show ?thesis
    by (auto simp: fill_balanced invc_paint_BLACK split: if_splits)
next
  case RED
  with assms show ?thesis by (auto simp: fill_balanced split: if_splits)
qed

lemma RBT_UNLINK_tree:
  assumes "balanced (fill p (Node f l e r))"
    and "unlink_node (Node f l e r, p) = Some (c, x, q)"
  shows "\<exists>t. (if c = BLACK then unlink_fixup x q else Some (fill q x)) = Some t \<and> balanced t"
proof (cases "l \<noteq> Leaf \<and> r \<noteq> Leaf")
  case False
  with assms unlink_one_child [of p f l e r x] show ?thesis by (auto split: if_splits)
next
  case True
  obtain t p' where d: "down_left r Root = (t, p')" by (cases "down_left r Root") auto
  with down_left_Node [OF _ d] True obtain yf ye yr where t: "t = Node yf Leaf ye yr" by auto
  have "balanced (fill p (Node f l ye r))" using assms(1) by (auto simp: fill_balanced)
  moreover have "fill p (Node f l ye r) = fill (snd (down_left r (InNext f l ye p))) t"
    using fill_down_left [of r "InNext f l ye p"] down_left_focus [of r Root "InNext f l ye p"] d
    by simp
  ultimately have "balanced (fill q (Node c Leaf ye x))"
    using assms(2) True d t by auto
  then show ?thesis by (rule unlink_one_child) auto
qed

lemma unlink_node_total: "\<exists>c x q. unlink_node (Node f l e r, p) = Some (c, x, q)"
proof (cases "l \<noteq> Leaf \<and> r \<noteq> Leaf")
  case True
  obtain t p' where d: "down_left r Root = (t, p')" by (cases "down_left r Root") auto
  with down_left_Node [OF _ d] True show ?thesis by auto
qed auto

lemma unlink_ends_root [simp]:
  "root (unlink_ends loc h) = root h" "rbt_num_node (unlink_ends loc h) = rbt_num_node h"
  by (induction loc h rule: unlink_ends.induct) (auto simp: Let_def)

lemma parent_first: "before p = [] \<Longrightarrow> map_option node_addr (parent_elem p) = first_addr (after p)"
  by (cases p) auto

lemma parent_last: "after p = [] \<Longrightarrow> map_option node_addr (parent_elem p) = last_addr (before p)"
  by (cases p) (auto simp: ends_simps)

lemma down_left_first:
  "(case fst (down_left t p) of Node _ _ y _ \<Rightarrow> Some (node_addr y) | Leaf \<Rightarrow> d) =
   (if t = Leaf then d else first_addr (inorder t))"
proof (cases "t = Leaf")
  case False
  obtain x p' where d: "down_left t Root = (x, p')" by (cases "down_left t Root") auto
  with down_left_Node [OF False d] down_left_focus [of t p Root] False show ?thesis by auto
qed auto

lemma down_next_last:
  "(case fst (down_next t p) of Node _ _ y _ \<Rightarrow> Some (node_addr y) | Leaf \<Rightarrow> d) =
   (if t = Leaf then d else last_addr (inorder t))"
proof (cases "t = Leaf")
  case False
  obtain x p' where d: "down_next t Root = (x, p')" by (cases "down_next t Root") auto
  with down_next_Node [OF False d] down_next_focus [of t p Root] False show ?thesis
    by (auto simp: ends_simps)
qed auto

lemma unlink_ends_ends:
  fixes f l e r p
  defines "xs \<equiv> before p @ inorder l" and "ys \<equiv> inorder r @ after p"
  assumes "distinct_nodes (xs @ e # ys)"
    and "leftmost h = first_addr (xs @ e # ys)" and "rightmost h = last_addr (xs @ e # ys)"
  shows "leftmost (unlink_ends (Node f l e r, p) h) = first_addr (xs @ ys)" (is ?L)
    and "rightmost (unlink_ends (Node f l e r, p) h) = last_addr (xs @ ys)" (is ?R)
proof -
  have first: "leftmost h = Some (node_addr e) \<longleftrightarrow> xs = []"
    using first_addr_is [OF assms(3)] assms(4) by simp
  have last: "rightmost h = Some (node_addr e) \<longleftrightarrow> ys = []"
    using last_addr_is [OF assms(3)] assms(5) by simp
  have l: "xs \<noteq> [] \<Longrightarrow> first_addr (xs @ ys) = leftmost h"
    and r: "ys \<noteq> [] \<Longrightarrow> last_addr (xs @ ys) = rightmost h"
    using assms(4,5) by (auto simp: ends_simps)
  show ?L
  proof (cases "xs = []")
    case True
    then show ?thesis
      using first by (simp add: down_left_first xs_def ys_def parent_first ends_simps Let_def)
  next
    case False
    with first l show ?thesis by (simp add: Let_def)
  qed
  show ?R
  proof (cases "ys = []")
    case True
    then show ?thesis
      using last by (simp add: down_next_last xs_def ys_def parent_last ends_simps Let_def)
  next
    case False
    with last r show ?thesis by (simp add: Let_def)
  qed
qed

lemma RBT_UNLINK_spec:
  assumes "rbt_inv h" and "at_loc (root h) loc xs e ys"
  shows "\<exists>h'. RBT_UNLINK h loc = Some h' \<and> rbt_inv h' \<and> inorder (root h') = xs @ ys"
proof -
  from assms(2) obtain f l r p where loc: "loc = (Node f l e r, p)"
    "fill p (Node f l e r) = root h" "xs = before p @ inorder l" "ys = inorder r @ after p"
    by (auto simp: at_loc_def)
  have T: "inorder (root h) = xs @ e # ys" by (rule at_loc_inorder [OF assms(2)])
  obtain c x q where u: "unlink_node (Node f l e r, p) = Some (c, x, q)"
    using unlink_node_total by metis
  have "balanced (fill p (Node f l e r))" using assms(1) loc by (simp add: rbt_inv_def)
  from RBT_UNLINK_tree [OF this u] obtain t where
    t: "(if c = BLACK then unlink_fixup x q else Some (fill q x)) = Some t" "balanced t" by blast
  have i: "inorder t = xs @ ys"
    using t(1) unlink_node_inorder [OF u] loc unlink_fixup_inorder [of x q t]
    by (auto split: if_splits)
  have h: "distinct_nodes (xs @ e # ys)" "leftmost h = first_addr (xs @ e # ys)"
    "rightmost h = last_addr (xs @ e # ys)" "ordered (xs @ e # ys)"
    using assms(1) T by (auto simp: rbt_inv_def)
  have "distinct_nodes (xs @ ys)" "ordered (xs @ ys)"
    using h(1,4) by (auto simp: distinct_nodes_def ordered_simps)
  moreover have "leftmost (unlink_ends loc (h\<lparr>rbt_num_node := n\<rparr>)) = first_addr (xs @ ys)"
    "rightmost (unlink_ends loc (h\<lparr>rbt_num_node := n\<rparr>)) = last_addr (xs @ ys)" for n
    using unlink_ends_ends [where h = "h\<lparr>rbt_num_node := n\<rparr>" and f = f and l = l and r = r and p = p
        and e = e] h(1-3) loc(1,3,4) by simp_all
  ultimately show ?thesis
    using t u i assms(1) T loc(1)
    by (simp add: RBT_UNLINK_def rbt_inv_def Let_def)
qed

section \<open>The tree as a bag of elements\<close>

text \<open>
  What the hash table relies on: a bucket holds elements, \<open>put\<close> adds one whose node is not in it and
  \<open>remove\<close> takes out the element a position points at. Neither fails on a valid bucket.
\<close>

locale bucket =
  fixes invar :: "'s \<Rightarrow> bool"
    and elems :: "'s \<Rightarrow> 'a elem list"
    and put :: "'s \<Rightarrow> 'a elem \<Rightarrow> 's option"
    and points :: "'s \<Rightarrow> 'l \<Rightarrow> 'a elem \<Rightarrow> bool"
    and remove :: "'s \<Rightarrow> 'l \<Rightarrow> 's option"
  assumes put_law: "invar s \<Longrightarrow> node_addr e \<notin> node_addr ` set (elems s) \<Longrightarrow>
      \<exists>s'. put s e = Some s' \<and> invar s' \<and> mset (elems s') = add_mset e (mset (elems s))"
    and remove_law: "invar s \<Longrightarrow> points s l e \<Longrightarrow>
      \<exists>s'. remove s l = Some s' \<and> invar s' \<and> mset (elems s) = add_mset e (mset (elems s'))"
    and points_law: "invar s \<Longrightarrow> e \<in> set (elems s) \<Longrightarrow> \<exists>l. points s l e"
    and distinct_law: "invar s \<Longrightarrow> distinct (map node_addr (elems s))"
begin

lemma put_set:
  assumes "invar s" and "node_addr e \<notin> node_addr ` set (elems s)" and "put s e = Some s'"
  shows "invar s'" and "set (elems s') = insert e (set (elems s))"
    and "length (elems s') = Suc (length (elems s))"
proof -
  from put_law [OF assms(1,2)] assms(3)
  have i: "invar s'" and m: "mset (elems s') = add_mset e (mset (elems s))" by auto
  show "invar s'" by (rule i)
  show "set (elems s') = insert e (set (elems s))" using arg_cong [OF m, of set_mset] by simp
  show "length (elems s') = Suc (length (elems s))" using arg_cong [OF m, of size] by simp
qed

lemma remove_set:
  assumes "invar s" and "points s l e" and "remove s l = Some s'"
  shows "invar s'" and "set (elems s') = set (elems s) - {e}"
    and "length (elems s) = Suc (length (elems s'))"
proof -
  from remove_law [OF assms(1,2)] assms(3)
  have i: "invar s'" and m: "mset (elems s) = add_mset e (mset (elems s'))" by auto
  have "distinct (elems s)" using distinct_law [OF assms(1)] by (simp add: distinct_map)
  moreover have "mset (elems s) = mset (e # elems s')" using m by simp
  ultimately have "distinct (e # elems s')" using mset_eq_imp_distinct_iff by blast
  moreover have "set (elems s) = insert e (set (elems s'))" using arg_cong [OF m, of set_mset] by simp
  ultimately show "set (elems s') = set (elems s) - {e}" by auto
  show "invar s'" by (rule i)
  show "length (elems s) = Suc (length (elems s'))" using arg_cong [OF m, of size] by simp
qed

end

abbreviation tree_elems :: "'a rbt_head \<Rightarrow> 'a elem list" where
  "tree_elems h \<equiv> inorder (root h)"

definition rbt_put :: "'a rbt_head \<Rightarrow> 'a elem \<Rightarrow> 'a rbt_head option" where
  "rbt_put h e = RBT_INSERT h e (RBT_FIND h (rbt_value e))"

definition rbt_points :: "'a rbt_head \<Rightarrow> 'a loc \<Rightarrow> 'a elem \<Rightarrow> bool" where
  "rbt_points h loc e \<longleftrightarrow> (\<exists>xs ys. at_loc (root h) loc xs e ys)"

lemma at_loc_exists:
  "e \<in> set (inorder s) \<Longrightarrow> fill p s = t \<Longrightarrow> \<exists>loc xs ys. at_loc t loc xs e ys"
proof (induction s arbitrary: p)
  case Leaf
  then show ?case by simp
next
  case (Node f l y r)
  then show ?case
    using at_locI [of p f l y r t] Node.IH(1) [of "InLeft f y r p"] Node.IH(2) [of "InNext f l y p"]
    by auto
qed

interpretation tree: bucket rbt_inv tree_elems rbt_put rbt_points RBT_UNLINK
proof unfold_locales
  fix s :: "'a rbt_head" and e :: "'a elem"
  assume "rbt_inv s" and "node_addr e \<notin> node_addr ` set (tree_elems s)"
  from RBT_INSERT_spec [OF this]
  show "\<exists>s'. rbt_put s e = Some s' \<and> rbt_inv s' \<and>
          mset (tree_elems s') = add_mset e (mset (tree_elems s))"
    by (auto simp: rbt_put_def)
next
  fix s :: "'a rbt_head" and l e
  assume i: "rbt_inv s" and "rbt_points s l e"
  then obtain xs ys where a: "at_loc (root s) l xs e ys" by (auto simp: rbt_points_def)
  from RBT_UNLINK_spec [OF i a] at_loc_inorder [OF a]
  show "\<exists>s'. RBT_UNLINK s l = Some s' \<and> rbt_inv s' \<and>
          mset (tree_elems s) = add_mset e (mset (tree_elems s'))" by auto
next
  fix s :: "'a rbt_head" and e :: "'a elem"
  assume "e \<in> set (tree_elems s)"
  from at_loc_exists [OF this, of Root] show "\<exists>l. rbt_points s l e"
    by (auto simp: rbt_points_def)
next
  fix s :: "'a rbt_head"
  assume "rbt_inv s"
  then show "distinct (map node_addr (tree_elems s))"
    by (simp add: rbt_inv_def distinct_nodes_def)
qed

lemma rbt_inv_INIT [simp]: "rbt_inv RBT_HEAD_INIT"
  by (simp add: rbt_inv_def RBT_HEAD_INIT_def balanced_def distinct_nodes_def)

section \<open>The depth of a tree\<close>

primrec height :: "'a rbt \<Rightarrow> nat" where
  "height Leaf = 0"
| "height (Node f l e r) = Suc (max (height l) (height r))"

lemma bheight_size: "invh t \<Longrightarrow> 2 ^ bheight t \<le> Suc (length (inorder t))"
proof (induction t)
  case (Node f l e r)
  then have "2 ^ bheight l \<le> Suc (length (inorder l))" "2 ^ bheight l \<le> Suc (length (inorder r))"
    by simp_all
  then show ?case by (cases f) simp_all
qed simp

lemma height_bheight:
  "invc t \<Longrightarrow> invh t \<Longrightarrow> height t \<le> 2 * bheight t + (if black t then 0 else 1)"
proof (induction t)
  case (Node f l e r)
  then show ?case by (cases f) (auto split: if_splits)
qed simp

text \<open>The trees that inserting and unlinking can build.\<close>

inductive rbt_built :: "'a rbt_head \<Rightarrow> bool" where
  "rbt_built RBT_HEAD_INIT"
| "rbt_built h \<Longrightarrow> node_addr e \<notin> node_addr ` set (tree_elems h) \<Longrightarrow>
   RBT_INSERT h e (RBT_FIND h (rbt_value e)) = Some h' \<Longrightarrow> rbt_built h'"
| "rbt_built h \<Longrightarrow> rbt_points h loc e \<Longrightarrow> RBT_UNLINK h loc = Some h' \<Longrightarrow> rbt_built h'"

lemma rbt_built_inv: "rbt_built h \<Longrightarrow> rbt_inv h"
proof (induction rule: rbt_built.induct)
  case (2 h e h')
  then show ?case using tree.put_set(1) [of h e h'] by (simp add: rbt_put_def)
next
  case (3 h loc e h')
  then show ?case using tree.remove_set(1) [of h loc e h'] by simp
qed simp

text \<open>
  C27. A search in a tree built by any sequence of insertions (at the node \<^verbatim>\<open>RBT_FIND\<close> returns) and
  unlinks goes down at most twice the binary logarithm of the number of nodes plus one: the
  recolourings and rotations keep the tree balanced.
\<close>

theorem rbt_depth_logarithmic:
  "rbt_built h \<Longrightarrow> (2::nat) ^ height (root h) \<le> (length (tree_elems h) + 1)\<^sup>2"
proof -
  assume "rbt_built h"
  from rbt_built_inv [OF this] have b: "balanced (root h)" by (simp add: rbt_inv_def)
  then have "height (root h) \<le> 2 * bheight (root h)"
    using height_bheight [of "root h"] by (auto simp: balanced_def)
  then have "(2::nat) ^ height (root h) \<le> (2 ^ bheight (root h))\<^sup>2"
    by (simp add: power_even_eq [symmetric] power_increasing)
  also have "\<dots> \<le> (length (tree_elems h) + 1)\<^sup>2"
    using bheight_size [of "root h"] b by (intro power_mono) (auto simp: balanced_def)
  finally show ?thesis .
qed

definition small_tree :: "nat rbt_head" where
  "small_tree =
     \<lparr>root = Node BLACK (Node RED Leaf \<lparr>node_addr = 2, rbt_value = 3, rbt_opaq = 0\<rparr> Leaf)
               \<lparr>node_addr = 1, rbt_value = 5, rbt_opaq = 0\<rparr> Leaf,
      leftmost = Some 2, rightmost = Some 1, rbt_num_node = 2\<rparr>"

lemma small_tree_built: "rbt_built small_tree"
proof -
  let ?e = "\<lparr>node_addr = 1, rbt_value = 5, rbt_opaq = 0 :: nat\<rparr>"
  let ?f = "\<lparr>node_addr = 2, rbt_value = 3, rbt_opaq = 0 :: nat\<rparr>"
  let ?h = "\<lparr>root = Node BLACK Leaf ?e Leaf, leftmost = Some 1, rightmost = Some 1,
             rbt_num_node = 1 :: u32\<rparr>"
  have "rbt_built ?h"
    by (rule rbt_built.intros(2) [where e = ?e, OF rbt_built.intros(1)])
      (simp_all add: RBT_HEAD_INIT_def RBT_INSERT_def RBT_FIND_def)
  then show ?thesis
    by (rule rbt_built.intros(2) [where e = ?f])
      (simp_all add: RBT_INSERT_def RBT_FIND_def small_tree_def)
qed

theorem rbt_depth_logarithmic_witness:
  "(2::nat) ^ height (root small_tree) \<le> (length (tree_elems small_tree) + 1)\<^sup>2"
  by (rule rbt_depth_logarithmic [OF small_tree_built])

text \<open>
  C4. \<^verbatim>\<open>RBT_INSERT\<close> at the node \<^verbatim>\<open>RBT_FIND\<close> returned never follows a NULL pointer. It puts the new
  element somewhere in the sequence of elements and moves no other one, the values stay in order, the
  tree stays a red-black tree, and \<open>leftmost\<close>, \<open>rightmost\<close> and the node count stay right.
\<close>

theorem rbt_insert_correct:
  assumes "rbt_inv h" and "node_addr e \<notin> node_addr ` set (tree_elems h)"
  shows "\<exists>h' xs ys. RBT_INSERT h e (RBT_FIND h (rbt_value e)) = Some h' \<and> rbt_inv h' \<and>
           tree_elems h = xs @ ys \<and> tree_elems h' = xs @ e # ys"
  by (rule RBT_INSERT_spec [OF assms])

theorem rbt_insert_correct_witness:
  "\<exists>h' xs ys. RBT_INSERT small_tree \<lparr>node_addr = 7, rbt_value = 4, rbt_opaq = 1\<rparr>
       (RBT_FIND small_tree 4) = Some h' \<and> rbt_inv h' \<and> tree_elems small_tree = xs @ ys \<and>
     tree_elems h' = xs @ \<lparr>node_addr = 7, rbt_value = 4, rbt_opaq = 1\<rparr> # ys"
  using rbt_insert_correct [OF rbt_built_inv [OF small_tree_built],
      of "\<lparr>node_addr = 7, rbt_value = 4, rbt_opaq = 1\<rparr>"]
  by (simp add: small_tree_def)

text \<open>
  C3. \<^verbatim>\<open>RBT_UNLINK\<close> of a node of the tree never follows a NULL pointer, takes out exactly the element
  of that node, and keeps the order, the colours, the ends and the node count of the tree right.
\<close>

theorem rbt_unlink_correct:
  assumes "rbt_inv h" and "at_loc (root h) loc xs e ys"
  shows "\<exists>h'. RBT_UNLINK h loc = Some h' \<and> rbt_inv h' \<and> tree_elems h' = xs @ ys"
  by (rule RBT_UNLINK_spec [OF assms])

theorem rbt_unlink_correct_witness:
  "\<exists>h'. RBT_UNLINK small_tree (root small_tree, Root) = Some h' \<and> rbt_inv h' \<and>
     tree_elems h' = [\<lparr>node_addr = 2, rbt_value = 3, rbt_opaq = 0\<rparr>]"
  using rbt_unlink_correct [OF rbt_built_inv [OF small_tree_built], of "(root small_tree, Root)"
      "[\<lparr>node_addr = 2, rbt_value = 3, rbt_opaq = 0\<rparr>]"
      "\<lparr>node_addr = 1, rbt_value = 5, rbt_opaq = 0\<rparr>" "[]"]
  by (simp add: small_tree_def at_loc_def)

text \<open>
  \<^verbatim>\<open>RBT_FIND_LEFT\<close> returns NULL exactly when no element has the value; otherwise it returns the
  leftmost element with it, so that \<^verbatim>\<open>RBT_INCREMENT\<close> from there meets every element of the value.
\<close>

lemma rbt_find_left_first:
  "rbt_inv h \<Longrightarrow>
   (case RBT_FIND_LEFT h val of
      None \<Rightarrow> \<forall>x \<in> set (tree_elems h). rbt_value x \<noteq> val
    | Some loc \<Rightarrow> \<exists>xs e ys. at_loc (root h) loc xs e ys \<and> rbt_value e = val \<and>
                   (\<forall>x \<in> set xs. rbt_value x < val))"
  using RBT_FIND_LEFT_Some [of h val] RBT_FIND_LEFT_None [of h val]
  by (auto simp: rbt_inv_def first_with_def split: option.splits)


end
