(* ===== verification/Hash_Table.thy ===== *)
theory Hash_Table
  imports RB_Tree RW_Lock Stuff_Alloc "HOL-Library.Monad_Syntax"
begin

text \<open>
  The hash table of \<^verbatim>\<open>HashTable/HashTable.c\<close>: an array of red-black trees, one per value of the
  first hash function, each protected by a readers/writer lock and fed by two pools (tree nodes and
  \<^verbatim>\<open>hash_data_t\<close> buffers).

  A \<^verbatim>\<open>hash_buffer_t\<close> is a value of a type parameter, \<open>'k\<close> for keys and \<open>'v\<close> for values; the function
  pointers of \<^verbatim>\<open>hash_parameter_t\<close> are functions on them. The five arrays of \<^verbatim>\<open>hash_table_t\<close> are lists;
  the code always indexes them together, by the hash value, and \<open>slot\<close> is what it reads and writes
  there. An operation returns \<open>None\<close> where the C code has no defined result in a single thread: an
  index out of range, a NULL dereference, a lock that blocks.
\<close>

section \<open>The structures\<close>

datatype hash_rc =
    HASHTABLE_SUCCESS
  | HASHTABLE_UNKNOWN_HASH_TYPE
  | HASHTABLE_INSERT_MALLOC_ERROR
  | HASHTABLE_ERROR_NO_SUCH_KEY
  | HASHTABLE_ERROR_KEY_ALREADY_EXISTS
  | HASHTABLE_ERROR_INVALID_ARGUMENT

primrec hash_rc_code :: "hash_rc \<Rightarrow> u32" where
  "hash_rc_code HASHTABLE_SUCCESS = 0"
| "hash_rc_code HASHTABLE_UNKNOWN_HASH_TYPE = 1"
| "hash_rc_code HASHTABLE_INSERT_MALLOC_ERROR = 2"
| "hash_rc_code HASHTABLE_ERROR_NO_SUCH_KEY = 3"
| "hash_rc_code HASHTABLE_ERROR_KEY_ALREADY_EXISTS = 4"
| "hash_rc_code HASHTABLE_ERROR_INVALID_ARGUMENT = 5"

datatype set_how =
    HASHTABLE_SET_HOW_TEST_ONLY
  | HASHTABLE_SET_HOW_SET_OVERWRITE
  | HASHTABLE_SET_HOW_SET_NO_OVERWRITE

record hash_dims =
  index_size :: u32
  alphabet_length :: u32
  nb_node_prealloc :: u32

record 'k hash_parameter =
  dims :: hash_dims
  hash_func_key :: "hash_dims \<Rightarrow> 'k \<Rightarrow> u64"
  hash_func_rbt :: "hash_dims \<Rightarrow> 'k \<Rightarrow> u64"
  compare_key :: "'k \<Rightarrow> 'k \<Rightarrow> int"

record ('k, 'v) hash_data =
  pdata_addr :: addr
  buffkey :: 'k
  buffval :: 'v

record hash_stat_op =
  nb_set :: u32
  nb_test :: u32
  nb_get :: u32
  nb_del :: u32

record hash_stat_dynamic =
  nb_entries :: u32
  st_ok :: hash_stat_op
  st_err :: hash_stat_op
  st_notfound :: hash_stat_op

record hash_stat_computed =
  min_rbt_num_node :: u32
  max_rbt_num_node :: u32
  average_rbt_num_node :: u32

record hash_stat =
  dynamic :: hash_stat_dynamic
  computed :: hash_stat_computed

record ('k, 'v) hash_table =
  parameter :: "'k hash_parameter"
  stat_dynamic :: "hash_stat_dynamic list"
  array_rbt :: "('k, 'v) hash_data rbt_head list"
  array_lock :: "rw_lock list"
  node_prealloc :: "addr list list"
  pdata_prealloc :: "addr list list"

record ('k, 'v) slot =
  s_stat :: hash_stat_dynamic
  s_rbt :: "('k, 'v) hash_data rbt_head"
  s_lock :: rw_lock
  s_nodes :: "addr list"
  s_pdata :: "addr list"

definition in_range :: "('k, 'v) hash_table \<Rightarrow> nat \<Rightarrow> bool" where
  "in_range ht i \<longleftrightarrow> i < length (stat_dynamic ht) \<and> i < length (array_rbt ht) \<and>
     i < length (array_lock ht) \<and> i < length (node_prealloc ht) \<and> i < length (pdata_prealloc ht)"

definition read_slot :: "('k, 'v) hash_table \<Rightarrow> u32 \<Rightarrow> ('k, 'v) slot option" where
  "read_slot ht h =
     (let i = unat h in
      if in_range ht i
      then Some \<lparr>s_stat = stat_dynamic ht ! i, s_rbt = array_rbt ht ! i, s_lock = array_lock ht ! i,
                 s_nodes = node_prealloc ht ! i, s_pdata = pdata_prealloc ht ! i\<rparr>
      else None)"

definition write_slot :: "('k, 'v) hash_table \<Rightarrow> u32 \<Rightarrow> ('k, 'v) slot \<Rightarrow> ('k, 'v) hash_table" where
  "write_slot ht h s =
     (let i = unat h in
      ht\<lparr>stat_dynamic := (stat_dynamic ht)[i := s_stat s], array_rbt := (array_rbt ht)[i := s_rbt s],
         array_lock := (array_lock ht)[i := s_lock s],
         node_prealloc := (node_prealloc ht)[i := s_nodes s],
         pdata_prealloc := (pdata_prealloc ht)[i := s_pdata s]\<rparr>)"

text \<open>The lock operations on the slot's lock.\<close>

definition lock_w :: "('k, 'v) slot \<Rightarrow> ('k, 'v) slot option" where
  "lock_w s = (case P_w (s_lock s) of Returns l \<Rightarrow> Some (s\<lparr>s_lock := l\<rparr>) | Blocks l \<Rightarrow> None)"

definition lock_r :: "('k, 'v) slot \<Rightarrow> ('k, 'v) slot option" where
  "lock_r s = (case P_r (s_lock s) of Returns l \<Rightarrow> Some (s\<lparr>s_lock := l\<rparr>) | Blocks l \<Rightarrow> None)"

definition unlock_w :: "('k, 'v) slot \<Rightarrow> ('k, 'v) slot" where
  "unlock_w s = s\<lparr>s_lock := fst (V_w (s_lock s))\<rparr>"

definition unlock_r :: "('k, 'v) slot \<Rightarrow> ('k, 'v) slot" where
  "unlock_r s = s\<lparr>s_lock := fst (V_r (s_lock s))\<rparr>"

section \<open>Hash functions\<close>

text \<open>
  The keys of \<^verbatim>\<open>simple_hash_func\<close> are bytes. \<open>char\<close> is signed: \<open>(unsigned int)c\<close> extends the sign. The
  products and sums are done in 64 bits; a modulus of 0 traps.
\<close>

primrec horner_loop :: "hash_dims \<Rightarrow> u8 list \<Rightarrow> u64 \<Rightarrow> u64 option" where
  "horner_loop d [] h = Some h"
| "horner_loop d (c # cs) h =
     (if index_size d = 0 then None
      else horner_loop d cs
             ((ucast (alphabet_length d) * h + ucast (scast c :: u32)) mod ucast (index_size d)))"

definition simple_hash_func :: "hash_dims \<Rightarrow> u8 list \<Rightarrow> u64 option" where
  "simple_hash_func d buffclef = horner_loop d buffclef 0"

definition double_hash_func :: "hash_dims \<Rightarrow> u8 list \<Rightarrow> u64 option" where
  "double_hash_func d buffclef = do {
     firsthash \<leftarrow> simple_hash_func d buffclef;
     if index_size d = 0 then None
     else Some ((firsthash + (8 - firsthash mod 8)) mod ucast (index_size d)) }"

section \<open>Locating a key\<close>

definition hashval_of :: "'k hash_parameter \<Rightarrow> 'k \<Rightarrow> u32" where
  "hashval_of par k = ucast (hash_func_key par (dims par) k)"

definition rbtval_of :: "'k hash_parameter \<Rightarrow> 'k \<Rightarrow> int" where
  "rbtval_of par k = sint (ucast (hash_func_rbt par (dims par) k) :: u32)"

text \<open>The number of nodes \<^verbatim>\<open>RBT_INCREMENT\<close> still has before it.\<close>

fun nodes_after :: "'a loc \<Rightarrow> nat" where
  "nodes_after (Leaf, p) = 0"
| "nodes_after (Node f l e r, p) = length (inorder r @ after p)"

lemma RBT_INCREMENT_less:
  assumes "RBT_INCREMENT (Node f l e r, p) = Some loc"
  shows "nodes_after loc < nodes_after (Node f l e r, p)"
proof -
  have "at_loc (fill p (Node f l e r)) (Node f l e r, p) (before p @ inorder l) e (inorder r @ after p)"
    by (rule at_locI) simp
  from RBT_INCREMENT_at [OF this] assms show ?thesis
    by (auto simp: at_loc_def simp del: length_append RBT_INCREMENT.simps split: list.splits)
qed

text \<open>The \<^verbatim>\<open>while\<close> loop of \<^verbatim>\<open>Key_Locate\<close>.\<close>

function (sequential) key_scan ::
  "'k hash_parameter \<Rightarrow> 'k \<Rightarrow> int \<Rightarrow> ('k, 'v) hash_data loc option \<Rightarrow> ('k, 'v) hash_data loc option"
where
  "key_scan par k val (Some (Node f l e r, p)) =
     (if rbt_value e \<noteq> val then None
      else if compare_key par k (buffkey (rbt_opaq e)) = 0 then Some (Node f l e r, p)
      else key_scan par k val (RBT_INCREMENT (Node f l e r, p)))"
| "key_scan par k val pn = None"
  by pat_completeness auto
termination
proof (relation "measure (\<lambda>(par, k, val, pn). case pn of None \<Rightarrow> 0 | Some loc \<Rightarrow> Suc (nodes_after loc))")
  fix par :: "'k hash_parameter" and k :: 'k and val :: int and f :: color
    and l r :: "('k, 'v) hash_data rbt" and e :: "('k, 'v) hash_data elem" and p :: "('k, 'v) hash_data path"
  show "((par, k, val, RBT_INCREMENT (Node f l e r, p)), par, k, val, Some (Node f l e r, p))
      \<in> measure (\<lambda>(par, k, val, pn). case pn of None \<Rightarrow> 0 | Some loc \<Rightarrow> Suc (nodes_after loc))"
    using RBT_INCREMENT_less [of f l e r p] by (auto split: option.splits)
qed simp

definition Key_Locate ::
  "'k hash_parameter \<Rightarrow> ('k, 'v) slot \<Rightarrow> 'k \<Rightarrow> int \<Rightarrow> hash_rc \<times> ('k, 'v) hash_data loc option" where
  "Key_Locate par s k val =
     (case RBT_FIND_LEFT (s_rbt s) val of
        None \<Rightarrow> (HASHTABLE_ERROR_NO_SUCH_KEY, None)
      | Some pn \<Rightarrow>
          (case key_scan par k val (Some pn) of
             None \<Rightarrow> (HASHTABLE_ERROR_NO_SUCH_KEY, None)
           | Some pn \<Rightarrow> (HASHTABLE_SUCCESS, Some pn)))"

section \<open>Setting, getting, deleting\<close>

fun loc_elem :: "'a loc \<Rightarrow> 'a elem option" where
  "loc_elem (Leaf, p) = None"
| "loc_elem (Node f l e r, p) = Some e"

text \<open>Writing through the \<^verbatim>\<open>RBT_OPAQ\<close> pointer of a node.\<close>

fun set_opaq :: "'a loc \<Rightarrow> 'a \<Rightarrow> 'a rbt option" where
  "set_opaq (Leaf, p) d = None"
| "set_opaq (Node f l e r, p) d = Some (fill p (Node f l (e\<lparr>rbt_opaq := d\<rparr>) r))"

definition ok_stat :: "(hash_stat_op \<Rightarrow> hash_stat_op) \<Rightarrow> ('k, 'v) slot \<Rightarrow> ('k, 'v) slot" where
  "ok_stat f s = s\<lparr>s_stat := (s_stat s)\<lparr>st_ok := f (st_ok (s_stat s))\<rparr>\<rparr>"

definition err_stat :: "(hash_stat_op \<Rightarrow> hash_stat_op) \<Rightarrow> ('k, 'v) slot \<Rightarrow> ('k, 'v) slot" where
  "err_stat f s = s\<lparr>s_stat := (s_stat s)\<lparr>st_err := f (st_err (s_stat s))\<rparr>\<rparr>"

definition notfound_stat :: "(hash_stat_op \<Rightarrow> hash_stat_op) \<Rightarrow> ('k, 'v) slot \<Rightarrow> ('k, 'v) slot" where
  "notfound_stat f s = s\<lparr>s_stat := (s_stat s)\<lparr>st_notfound := f (st_notfound (s_stat s))\<rparr>\<rparr>"

definition add_entries :: "u32 \<Rightarrow> ('k, 'v) slot \<Rightarrow> ('k, 'v) slot" where
  "add_entries n s = s\<lparr>s_stat := (s_stat s)\<lparr>nb_entries := nb_entries (s_stat s) + n\<rparr>\<rparr>"

abbreviation inc_set :: "hash_stat_op \<Rightarrow> hash_stat_op" where
  "inc_set c \<equiv> c\<lparr>nb_set := nb_set c + 1\<rparr>"

abbreviation inc_test :: "hash_stat_op \<Rightarrow> hash_stat_op" where
  "inc_test c \<equiv> c\<lparr>nb_test := nb_test c + 1\<rparr>"

abbreviation inc_get :: "hash_stat_op \<Rightarrow> hash_stat_op" where
  "inc_get c \<equiv> c\<lparr>nb_get := nb_get c + 1\<rparr>"

abbreviation inc_del :: "hash_stat_op \<Rightarrow> hash_stat_op" where
  "inc_del c \<equiv> c\<lparr>nb_del := nb_del c + 1\<rparr>"

text \<open>
  \<^verbatim>\<open>HashTable_Test_And_Set\<close> between the two hash computations and its returns: on a key that exists,
  and on one that does not. Every return releases the lock.
\<close>

definition set_existing ::
  "'k \<Rightarrow> 'v \<Rightarrow> set_how \<Rightarrow> ('k, 'v) hash_data loc \<Rightarrow> mem \<Rightarrow> ('k, 'v) slot \<Rightarrow>
   (hash_rc \<times> mem \<times> ('k, 'v) slot) option" where
  "set_existing k v how pn m s =
     (if how = HASHTABLE_SET_HOW_TEST_ONLY then
        Some (HASHTABLE_SUCCESS, m, unlock_w (ok_stat inc_test s))
      else if how = HASHTABLE_SET_HOW_SET_NO_OVERWRITE then
        Some (HASHTABLE_ERROR_KEY_ALREADY_EXISTS, m, unlock_w (err_stat inc_test s))
      else do {
        qn \<leftarrow> loc_elem pn;
        t \<leftarrow> set_opaq pn ((rbt_opaq qn)\<lparr>buffval := v, buffkey := k\<rparr>);
        Some (HASHTABLE_SUCCESS, m,
          unlock_w (ok_stat inc_set (add_entries 1 (s\<lparr>s_rbt := (s_rbt s)\<lparr>root := t\<rparr>\<rparr>)))) })"

definition set_new ::
  "'k hash_parameter \<Rightarrow> 'k \<Rightarrow> 'v \<Rightarrow> set_how \<Rightarrow> mem \<Rightarrow> ('k, 'v) slot \<Rightarrow>
   (hash_rc \<times> mem \<times> ('k, 'v) slot) option" where
  "set_new par k v how m s =
     (if how = HASHTABLE_SET_HOW_TEST_ONLY then
        Some (HASHTABLE_ERROR_NO_SUCH_KEY, m, unlock_w (notfound_stat inc_test s))
      else
        let pn = RBT_FIND (s_rbt s) (rbtval_of par k);
            (qn, nodes, m) = GET_PREALLOC (nb_node_prealloc (dims par)) (s_nodes s) m;
            s = s\<lparr>s_nodes := nodes\<rparr>
        in case qn of
             None \<Rightarrow> Some (HASHTABLE_INSERT_MALLOC_ERROR, m, unlock_w (err_stat inc_set s))
           | Some qn \<Rightarrow>
               let (pdata, pdatas, m) = GET_PREALLOC (nb_node_prealloc (dims par)) (s_pdata s) m;
                   s = s\<lparr>s_pdata := pdatas\<rparr>
               in case pdata of
                    None \<Rightarrow> Some (HASHTABLE_INSERT_MALLOC_ERROR, m, unlock_w (err_stat inc_set s))
                  | Some pdata \<Rightarrow> do {
                      h \<leftarrow> RBT_INSERT (s_rbt s)
                             \<lparr>node_addr = qn, rbt_value = rbtval_of par k,
                              rbt_opaq = \<lparr>pdata_addr = pdata, buffkey = k, buffval = v\<rparr>\<rparr> pn;
                      Some (HASHTABLE_SUCCESS, m,
                        unlock_w (ok_stat inc_set (add_entries 1 (s\<lparr>s_rbt := h\<rparr>)))) })"

definition HashTable_Test_And_Set ::
  "mem \<Rightarrow> ('k, 'v) hash_table \<Rightarrow> 'k \<Rightarrow> 'v \<Rightarrow> set_how \<Rightarrow> (hash_rc \<times> mem \<times> ('k, 'v) hash_table) option"
where
  "HashTable_Test_And_Set m ht k v how =
     (let par = parameter ht; hashval = hashval_of par k; val = rbtval_of par k in do {
      s \<leftarrow> read_slot ht hashval;
      s \<leftarrow> lock_w s;
      (rc, m, s) \<leftarrow> (case Key_Locate par s k val of
          (HASHTABLE_SUCCESS, Some pn) \<Rightarrow> set_existing k v how pn m s
        | _ \<Rightarrow> set_new par k v how m s);
      Some (rc, m, write_slot ht hashval s) })"

definition HashTable_Get ::
  "('k, 'v) hash_table \<Rightarrow> 'k \<Rightarrow> (hash_rc \<times> 'v option \<times> ('k, 'v) hash_table) option" where
  "HashTable_Get ht k =
     (let par = parameter ht; hashval = hashval_of par k; val = rbtval_of par k in do {
      s \<leftarrow> read_slot ht hashval;
      s \<leftarrow> lock_r s;
      case Key_Locate par s k val of
        (HASHTABLE_SUCCESS, Some pn) \<Rightarrow> do {
          e \<leftarrow> loc_elem pn;
          Some (HASHTABLE_SUCCESS, Some (buffval (rbt_opaq e)),
                write_slot ht hashval (unlock_r (ok_stat inc_get s))) }
      | (rc, _) \<Rightarrow> Some (rc, None, write_slot ht hashval (unlock_r (notfound_stat inc_get s))) })"

text \<open>\<^verbatim>\<open>HashTable_Del\<close> hands back the key and value buffers of the entry it removed.\<close>

definition del_slot ::
  "('k, 'v) hash_data loc \<Rightarrow> ('k, 'v) slot \<Rightarrow> (('k \<times> 'v) \<times> ('k, 'v) slot) option" where
  "del_slot pn s = do {
     e \<leftarrow> loc_elem pn;
     h \<leftarrow> RBT_UNLINK (s_rbt s) pn;
     let pdata = rbt_opaq e;
         s = add_entries (- 1) (s\<lparr>s_rbt := h\<rparr>);
         s = s\<lparr>s_pdata := RELEASE_PREALLOC (pdata_addr pdata) (s_pdata s)\<rparr>;
         s = s\<lparr>s_nodes := RELEASE_PREALLOC (node_addr e) (s_nodes s)\<rparr>
     in Some ((buffkey pdata, buffval pdata), unlock_w (ok_stat inc_del s)) }"

definition HashTable_Del ::
  "('k, 'v) hash_table \<Rightarrow> 'k \<Rightarrow> (hash_rc \<times> ('k \<times> 'v) option \<times> ('k, 'v) hash_table) option" where
  "HashTable_Del ht k =
     (let par = parameter ht; hashval = hashval_of par k; val = rbtval_of par k in do {
      s \<leftarrow> read_slot ht hashval;
      s \<leftarrow> lock_w s;
      case Key_Locate par s k val of
        (HASHTABLE_SUCCESS, Some pn) \<Rightarrow> do {
          (used, s) \<leftarrow> del_slot pn s;
          Some (HASHTABLE_SUCCESS, Some used, write_slot ht hashval s) }
      | (rc, _) \<Rightarrow> Some (rc, None, write_slot ht hashval (unlock_w (notfound_stat inc_del s))) })"

text \<open>The entry points with the NULL checks on their pointer arguments.\<close>

definition HashTable_Test_And_Set_ptr ::
  "mem \<Rightarrow> ('k, 'v) hash_table option \<Rightarrow> 'k option \<Rightarrow> 'v option \<Rightarrow> set_how \<Rightarrow>
   (hash_rc \<times> mem \<times> ('k, 'v) hash_table option) option" where
  "HashTable_Test_And_Set_ptr m ht key val how =
     (case (ht, key, val) of
        (Some h, Some k, Some v) \<Rightarrow>
          map_option (\<lambda>(rc, m, h). (rc, m, Some h)) (HashTable_Test_And_Set m h k v how)
      | _ \<Rightarrow> Some (HASHTABLE_ERROR_INVALID_ARGUMENT, m, ht))"

definition HashTable_Del_ptr ::
  "('k, 'v) hash_table option \<Rightarrow> 'k option \<Rightarrow>
   (hash_rc \<times> ('k \<times> 'v) option \<times> ('k, 'v) hash_table option) option" where
  "HashTable_Del_ptr ht key =
     (case (ht, key) of
        (Some h, Some k) \<Rightarrow> map_option (\<lambda>(rc, u, h). (rc, u, Some h)) (HashTable_Del h k)
      | _ \<Rightarrow> Some (HASHTABLE_ERROR_INVALID_ARGUMENT, None, ht))"

section \<open>Statistics\<close>

definition stat_op_zero :: hash_stat_op where
  "stat_op_zero = \<lparr>nb_set = 0, nb_test = 0, nb_get = 0, nb_del = 0\<rparr>"

definition stat_zero :: hash_stat_dynamic where
  "stat_zero = \<lparr>nb_entries = 0, st_ok = stat_op_zero, st_err = stat_op_zero, st_notfound = stat_op_zero\<rparr>"

definition stat_op_add :: "hash_stat_op \<Rightarrow> hash_stat_op \<Rightarrow> hash_stat_op" where
  "stat_op_add a b = \<lparr>nb_set = nb_set a + nb_set b, nb_test = nb_test a + nb_test b,
     nb_get = nb_get a + nb_get b, nb_del = nb_del a + nb_del b\<rparr>"

text \<open>The loop of \<^verbatim>\<open>HashTable_GetStats\<close>, on the trees and statistics from index \<open>i\<close> on.\<close>

fun stats_loop :: "(u32 \<times> hash_stat_dynamic) list \<Rightarrow> hash_stat \<Rightarrow> hash_stat" where
  "stats_loop [] st = st"
| "stats_loop ((n, d) # rest) st =
     (let c = computed st;
          c = (if n > max_rbt_num_node c then c\<lparr>max_rbt_num_node := n\<rparr> else c);
          c = (if n < min_rbt_num_node c then c\<lparr>min_rbt_num_node := n\<rparr> else c);
          c = c\<lparr>average_rbt_num_node := average_rbt_num_node c + n\<rparr>;
          y = dynamic st;
          y = \<lparr>nb_entries = nb_entries y + nb_entries d, st_ok = stat_op_add (st_ok y) (st_ok d),
               st_err = stat_op_add (st_err y) (st_err d),
               st_notfound = stat_op_add (st_notfound y) (st_notfound d)\<rparr>
      in stats_loop rest \<lparr>dynamic = y, computed = c\<rparr>)"

definition HashTable_GetStats :: "('k, 'v) hash_table \<Rightarrow> hash_stat option" where
  "HashTable_GetStats ht =
     (let n = unat (index_size (dims (parameter ht)));
          st = \<lparr>dynamic = stat_zero,
                computed = \<lparr>min_rbt_num_node = push_bit 31 1, max_rbt_num_node = 0,
                            average_rbt_num_node = 0\<rparr>\<rparr>;
          st = stats_loop (zip (map rbt_num_node (take n (array_rbt ht))) (take n (stat_dynamic ht))) st;
          c = computed st
      in if n = 0 \<or> length (array_rbt ht) < n \<or> length (stat_dynamic ht) < n then None
         else Some (st\<lparr>computed := c\<lparr>average_rbt_num_node :=
                average_rbt_num_node c div index_size (dims (parameter ht))\<rparr>\<rparr>))"

definition HashTable_GetSize :: "('k, 'v) hash_table option \<Rightarrow> u32 option" where
  "HashTable_GetSize ht =
     (case ht of
        None \<Rightarrow> Some (hash_rc_code HASHTABLE_ERROR_INVALID_ARGUMENT)
      | Some ht \<Rightarrow>
          (let n = unat (index_size (dims (parameter ht))) in
           if length (stat_dynamic ht) < n then None
           else Some (foldl (\<lambda>acc d. acc + nb_entries d) 0 (take n (stat_dynamic ht)))))"

section \<open>Initialisation\<close>

definition PreAllocPdata :: "u32 \<Rightarrow> mem \<Rightarrow> addr list \<times> mem" where
  "PreAllocPdata nb_alloc m = STUFF_PREALLOC nb_alloc m"

definition PreAllocNode :: "u32 \<Rightarrow> mem \<Rightarrow> addr list \<times> mem" where
  "PreAllocNode nb_alloc m = STUFF_PREALLOC nb_alloc m"

text \<open>The two loops of \<^verbatim>\<open>HashTable_Init\<close>; \<open>None\<close> is the early return of NULL.\<close>

primrec prealloc_loop :: "nat \<Rightarrow> u32 \<Rightarrow> mem \<Rightarrow> (addr list \<times> addr list) list option \<times> mem" where
  "prealloc_loop 0 nb m = (Some [], m)"
| "prealloc_loop (Suc n) nb m =
     (case PreAllocNode nb m of
        ([], m) \<Rightarrow> (None, m)
      | (nodes, m) \<Rightarrow>
          (case PreAllocPdata nb m of
             ([], m) \<Rightarrow> (None, m)
           | (pdatas, m) \<Rightarrow>
               (case prealloc_loop n nb m of
                  (None, m) \<Rightarrow> (None, m)
                | (Some ps, m) \<Rightarrow> (Some ((nodes, pdatas) # ps), m))))"

primrec init_locks :: "(nat \<Rightarrow> pthread_codes) \<Rightarrow> nat \<Rightarrow> nat \<Rightarrow> rw_lock list option" where
  "init_locks codes i 0 = Some []"
| "init_locks codes i (Suc n) =
     (case rw_lock_init (codes i) rw_lock_zero of
        (rc, l) \<Rightarrow> if rc \<noteq> 0 then None else map_option ((#) l) (init_locks codes (Suc i) n))"

text \<open>
  \<open>Mem_Alloc\<close> counts entries; the arrays are requests of \<open>index_size\<close> entries. \<open>attr_rc\<close> is the code of
  \<^verbatim>\<open>pthread_mutexattr_init\<close>, \<open>codes i\<close> those of the i-th \<^verbatim>\<open>rw_lock_init\<close>.
\<close>

fun alloc_all :: "nat list \<Rightarrow> mem \<Rightarrow> bool \<times> mem" where
  "alloc_all [] m = (True, m)"
| "alloc_all (n # ns) m =
     (case Mem_Alloc n m of (None, m) \<Rightarrow> (False, m) | (Some a, m) \<Rightarrow> alloc_all ns m)"

definition HashTable_Init ::
  "int \<Rightarrow> (nat \<Rightarrow> pthread_codes) \<Rightarrow> 'k hash_parameter \<Rightarrow> mem \<Rightarrow> ('k, 'v) hash_table option \<times> mem" where
  "HashTable_Init attr_rc codes hparam m =
     (let n = unat (index_size (dims hparam)) in
      case alloc_all [1] m of
        (False, m) \<Rightarrow> (None, m)
      | (True, m) \<Rightarrow>
        if attr_rc \<noteq> 0 then (None, m) else
        case alloc_all [n, n, n, n, n] m of
          (False, m) \<Rightarrow> (None, m)
        | (True, m) \<Rightarrow>
          (case prealloc_loop n (nb_node_prealloc (dims hparam)) m of
             (None, m) \<Rightarrow> (None, m)
           | (Some ps, m) \<Rightarrow>
               (case init_locks codes 0 n of
                  None \<Rightarrow> (None, m)
                | Some locks \<Rightarrow>
                    (Some \<lparr>parameter = hparam, stat_dynamic = replicate n stat_zero,
                           array_rbt = replicate n RBT_HEAD_INIT, array_lock = locks,
                           node_prealloc = map fst ps, pdata_prealloc = map snd ps\<rparr>, m))))"

section \<open>What a slot holds\<close>

text \<open>
  What the functions of a \<^verbatim>\<open>hash_parameter_t\<close> must satisfy, as \<^verbatim>\<open>HashTable.h\<close> documents them: the
  hash function returns an index, and the comparison returns 0 on identical keys only.
\<close>

definition good_param :: "'k hash_parameter \<Rightarrow> bool" where
  "good_param par \<longleftrightarrow>
     (\<forall>k. hash_func_key par (dims par) k < ucast (index_size (dims par))) \<and>
     (\<forall>a b. compare_key par a b = 0 \<longleftrightarrow> a = b)"

abbreviation elem_key :: "('k, 'v) hash_data elem \<Rightarrow> 'k" where
  "elem_key e \<equiv> buffkey (rbt_opaq e)"

abbreviation elem_val :: "('k, 'v) hash_data elem \<Rightarrow> 'v" where
  "elem_val e \<equiv> buffval (rbt_opaq e)"

abbreviation slot_elems :: "('k, 'v) slot \<Rightarrow> ('k, 'v) hash_data elem list" where
  "slot_elems s \<equiv> tree_elems (s_rbt s)"

definition elems_ok :: "'k hash_parameter \<Rightarrow> u32 \<Rightarrow> ('k, 'v) hash_data elem set \<Rightarrow> bool" where
  "elems_ok par h es \<longleftrightarrow>
     (\<forall>e \<in> es. hashval_of par (elem_key e) = h \<and> rbt_value e = rbtval_of par (elem_key e)) \<and>
     inj_on elem_key es"

text \<open>The invariant of a slot, apart from its lock, and of a slot whose lock is free.\<close>

definition slot_ok :: "'k hash_parameter \<Rightarrow> u32 \<Rightarrow> mem \<Rightarrow> ('k, 'v) slot \<Rightarrow> bool" where
  "slot_ok par h m s \<longleftrightarrow>
     rbt_inv (s_rbt s) \<and> elems_ok par h (set (slot_elems s)) \<and>
     owned (map node_addr (slot_elems s)) (s_nodes s) m \<and>
     owned (map (pdata_addr \<circ> rbt_opaq) (slot_elems s)) (s_pdata s) m"

definition slot_map :: "('k, 'v) slot \<Rightarrow> 'k \<rightharpoonup> 'v" where
  "slot_map s = map_of (map (\<lambda>e. (elem_key e, elem_val e)) (slot_elems s))"

lemma slot_map_iff:
  assumes "distinct es" and "inj_on elem_key (set es)"
  shows "map_of (map (\<lambda>e. (elem_key e, elem_val e)) es) k = Some v \<longleftrightarrow>
         (\<exists>e \<in> set es. elem_key e = k \<and> elem_val e = v)"
proof -
  have "distinct (map fst (map (\<lambda>e. (elem_key e, elem_val e)) es))"
    using assms by (simp add: distinct_map comp_def)
  then show ?thesis by (subst map_of_eq_Some_iff) auto
qed

lemma rbt_inv_distinct: "rbt_inv h \<Longrightarrow> distinct (tree_elems h)"
  by (simp add: rbt_inv_def distinct_nodes_def distinct_map)

lemma slot_map_Some:
  "slot_ok par h m s \<Longrightarrow> slot_map s k = Some v \<longleftrightarrow> (\<exists>e \<in> set (slot_elems s). elem_key e = k \<and> elem_val e = v)"
  unfolding slot_map_def slot_ok_def elems_ok_def by (intro slot_map_iff rbt_inv_distinct) auto

lemma slot_map_eqI:
  assumes "slot_ok par h m s" and "\<And>v. f k = Some v \<longleftrightarrow> (\<exists>e \<in> set (slot_elems s). elem_key e = k \<and> elem_val e = v)"
  shows "slot_map s k = f k"
  using slot_map_Some [OF assms(1), of k] assms(2)
  by (metis not_Some_eq option.inject)

lemma slot_map_None:
  "slot_ok par h m s \<Longrightarrow> slot_map s k = None \<longleftrightarrow> k \<notin> elem_key ` set (slot_elems s)"
  by (simp add: slot_map_def map_of_eq_None_iff image_image)

text \<open>Locating a key.\<close>

lemma good_compare: "good_param par \<Longrightarrow> compare_key par a b = 0 \<longleftrightarrow> a = b"
  by (simp add: good_param_def)

lemma key_scan_spec:
  "good_param par \<Longrightarrow> pn = Some loc \<Longrightarrow> at_loc t loc xs e ys \<Longrightarrow>
    (case key_scan par k val pn of
       None \<Rightarrow> \<forall>x \<in> set (takeWhile (\<lambda>x. rbt_value x = val) (e # ys)). elem_key x \<noteq> k
     | Some loc' \<Rightarrow> \<exists>xs e ys. at_loc t loc' xs e ys \<and> elem_key e = k)"
proof (induction par k val pn arbitrary: loc xs e ys rule: key_scan.induct)
  case (1 par k val f l e' r p)
  then have loc: "loc = (Node f l e r, p)" "e' = e" by (auto simp: at_loc_def)
  note cmp = good_compare [OF "1.prems"(1)]
  show ?case
  proof (cases "rbt_value e = val \<and> elem_key e \<noteq> k")
    case True
    note inc = RBT_INCREMENT_at [OF "1.prems"(3)]
    show ?thesis
    proof (cases ys)
      case Nil
      with inc loc True cmp show ?thesis by (auto simp del: RBT_INCREMENT.simps)
    next
      case (Cons y zs)
      with inc obtain loc' where l: "RBT_INCREMENT loc = Some loc'"
        "at_loc t loc' (xs @ [e]) y zs" by auto
      have "case key_scan par k val (RBT_INCREMENT (Node f l e' r, p)) of
          None \<Rightarrow> \<forall>x \<in> set (takeWhile (\<lambda>x. rbt_value x = val) (y # zs)). elem_key x \<noteq> k
        | Some loc' \<Rightarrow> \<exists>xs e ys. at_loc t loc' xs e ys \<and> elem_key e = k"
        by (rule "1.IH" [OF _ _ "1.prems"(1) _ l(2)]) (use True cmp loc l(1) in auto)
      with True loc l(1) Cons cmp show ?thesis
        by (auto simp del: RBT_INCREMENT.simps split: option.splits)
    qed
  next
    case False
    with 1(4) loc cmp show ?thesis by (cases "rbt_value e = val") auto
  qed
qed (auto simp: at_loc_def)

lemma ordered_takeWhile:
  assumes "ordered (e # ys)" and "rbt_value e = val" and "y \<in> set (e # ys)" and "rbt_value y = val"
  shows "y \<in> set (takeWhile (\<lambda>x. rbt_value x = val) (e # ys))"
  using assms
proof (induction ys arbitrary: e)
  case Nil
  then show ?case by simp
next
  case (Cons z zs)
  show ?case
  proof (cases "y = e")
    case True
    with Cons.prems show ?thesis by simp
  next
    case False
    with Cons.prems have y: "y \<in> set (z # zs)" by simp
    with Cons.prems have "rbt_value z = val" by (auto simp: ordered_Cons)
    with Cons.IH [of z] Cons.prems y show ?thesis by (auto simp: ordered_Cons)
  qed
qed

lemma Key_Locate_spec:
  assumes "good_param par" and "slot_ok par h m s"
  obtains (found) pn e where
      "Key_Locate par s k (rbtval_of par k) = (HASHTABLE_SUCCESS, Some pn)"
      "rbt_points (s_rbt s) pn e" "e \<in> set (slot_elems s)" "elem_key e = k"
  | (absent) "Key_Locate par s k (rbtval_of par k) = (HASHTABLE_ERROR_NO_SUCH_KEY, None)"
      "k \<notin> elem_key ` set (slot_elems s)"
proof -
  define val where "val = rbtval_of par k"
  let ?es = "slot_elems s"
  have inv: "ordered ?es" and vals: "\<forall>e \<in> set ?es. elem_key e = k \<longrightarrow> rbt_value e = val"
    using assms(2) by (auto simp: slot_ok_def rbt_inv_def elems_ok_def val_def)
  show thesis
  proof (cases "RBT_FIND_LEFT (s_rbt s) val")
    case None
    with RBT_FIND_LEFT_None [OF None inv] vals show thesis
      by (intro absent) (auto simp: Key_Locate_def val_def)
  next
    case (Some pn)
    from RBT_FIND_LEFT_Some [OF Some inv] obtain xs e ys where
      at: "at_loc (root (s_rbt s)) pn xs e ys" "rbt_value e = val" "\<forall>x \<in> set xs. rbt_value x < val"
      by (auto simp: first_with_def)
    note es = at_loc_inorder [OF at(1)]
    note scan = key_scan_spec [OF assms(1) refl at(1), where k = k and val = val]
    show thesis
    proof (cases "key_scan par k val (Some pn)")
      case None
      have "elem_key x \<noteq> k" if "x \<in> set ?es" for x
      proof
        assume k: "elem_key x = k"
        with vals that have v: "rbt_value x = val" by blast
        with that es at(3) have x: "x \<in> set (e # ys)" by auto
        from inv have "ordered (e # ys)" unfolding es ordered_append by blast
        from ordered_takeWhile [OF this at(2) x v] None scan k show False by auto
      qed
      then show thesis
        using Some None by (intro absent) (auto simp: Key_Locate_def val_def)
    next
      case (Some pn')
      with scan obtain xs' e' ys' where e': "at_loc (root (s_rbt s)) pn' xs' e' ys'" "elem_key e' = k"
        by auto
      moreover from at_loc_inorder [OF e'(1)] have "e' \<in> set ?es" by simp
      moreover have "Key_Locate par s k (rbtval_of par k) = (HASHTABLE_SUCCESS, Some pn')"
        using Some \<open>RBT_FIND_LEFT (s_rbt s) val = Some pn\<close> by (simp add: Key_Locate_def val_def)
      ultimately show thesis by (intro found) (auto simp: rbt_points_def)
    qed
  qed
qed

text \<open>Statistics and locks do not touch the entries and the pools.\<close>

lemmas slot_upd_defs = ok_stat_def err_stat_def notfound_stat_def add_entries_def unlock_w_def unlock_r_def

lemma slot_upd_rbt [simp]:
  "s_rbt (ok_stat f s) = s_rbt s" "s_rbt (err_stat f s) = s_rbt s" "s_rbt (notfound_stat f s) = s_rbt s"
  "s_rbt (add_entries n s) = s_rbt s" "s_rbt (unlock_w s) = s_rbt s" "s_rbt (unlock_r s) = s_rbt s"
  by (simp_all add: slot_upd_defs)

lemma slot_upd_nodes [simp]:
  "s_nodes (ok_stat f s) = s_nodes s" "s_nodes (err_stat f s) = s_nodes s"
  "s_nodes (notfound_stat f s) = s_nodes s" "s_nodes (add_entries n s) = s_nodes s"
  "s_nodes (unlock_w s) = s_nodes s" "s_nodes (unlock_r s) = s_nodes s"
  by (simp_all add: slot_upd_defs)

lemma slot_upd_pdata [simp]:
  "s_pdata (ok_stat f s) = s_pdata s" "s_pdata (err_stat f s) = s_pdata s"
  "s_pdata (notfound_stat f s) = s_pdata s" "s_pdata (add_entries n s) = s_pdata s"
  "s_pdata (unlock_w s) = s_pdata s" "s_pdata (unlock_r s) = s_pdata s"
  by (simp_all add: slot_upd_defs)

lemma slot_upd_lock [simp]:
  "s_lock (ok_stat f s) = s_lock s" "s_lock (err_stat f s) = s_lock s"
  "s_lock (notfound_stat f s) = s_lock s" "s_lock (add_entries n s) = s_lock s"
  "s_lock (unlock_w s) = fst (V_w (s_lock s))" "s_lock (unlock_r s) = fst (V_r (s_lock s))"
  by (simp_all add: slot_upd_defs)

text \<open>Only the tree and the pools matter to the invariant and the map of a slot.\<close>

lemma slot_ok_cong:
  "s_rbt s' = s_rbt s \<Longrightarrow> s_nodes s' = s_nodes s \<Longrightarrow> s_pdata s' = s_pdata s \<Longrightarrow>
   slot_ok par h m s' = slot_ok par h m s"
  by (simp add: slot_ok_def)

lemma slot_map_cong: "s_rbt s' = s_rbt s \<Longrightarrow> slot_map s' = slot_map s"
  by (simp add: slot_map_def)

text \<open>Overwriting the data of a node.\<close>

lemma rbt_inv_set_opaq:
  assumes "rbt_inv h" and "at_loc (root h) loc xs e ys" and "set_opaq loc d = Some t"
  shows "rbt_inv (h\<lparr>root := t\<rparr>)" and "inorder t = xs @ (e\<lparr>rbt_opaq := d\<rparr>) # ys"
proof -
  from assms(2) obtain f l r p where loc: "loc = (Node f l e r, p)"
    "fill p (Node f l e r) = root h" "xs = before p @ inorder l" "ys = inorder r @ after p"
    by (auto simp: at_loc_def)
  note h = at_loc_inorder [OF assms(2)]
  show t: "inorder t = xs @ (e\<lparr>rbt_opaq := d\<rparr>) # ys" using assms(3) loc by auto
  have "balanced t"
  proof -
    have "balanced (fill p (Node f l e r))" using assms(1) loc(2) by (simp add: rbt_inv_def)
    then show ?thesis using assms(3) loc(1) by (auto simp: fill_balanced)
  qed
  moreover have "first_addr (xs @ (e\<lparr>rbt_opaq := d\<rparr>) # ys) = first_addr (xs @ e # ys)"
    "last_addr (xs @ (e\<lparr>rbt_opaq := d\<rparr>) # ys) = last_addr (xs @ e # ys)"
    by (auto simp: ends_simps)
  ultimately show "rbt_inv (h\<lparr>root := t\<rparr>)"
    using assms(1) h t by (simp add: rbt_inv_def ordered_def distinct_nodes_def)
qed

lemma set_existing_spec:
  assumes "slot_ok par h m s" and "rbt_points (s_rbt s) pn e" and "elem_key e = k"
  shows "\<exists>s'. set_existing k v how pn m s =
      Some (if how = HASHTABLE_SET_HOW_SET_NO_OVERWRITE then HASHTABLE_ERROR_KEY_ALREADY_EXISTS
            else HASHTABLE_SUCCESS, m, s') \<and>
    slot_ok par h m s' \<and> s_lock s' = fst (V_w (s_lock s)) \<and>
    slot_map s' = (if how = HASHTABLE_SET_HOW_SET_OVERWRITE then (slot_map s)(k \<mapsto> v) else slot_map s)"
proof (cases "how = HASHTABLE_SET_HOW_SET_OVERWRITE")
  case False
  with assms(1) show ?thesis
    by (cases how) (auto simp: set_existing_def cong: slot_ok_cong slot_map_cong)
next
  case True
  let ?d = "(rbt_opaq e)\<lparr>buffval := v, buffkey := k\<rparr>"
  let ?e = "e\<lparr>rbt_opaq := ?d\<rparr>"
  from assms(2) obtain xs ys where at: "at_loc (root (s_rbt s)) pn xs e ys"
    by (auto simp: rbt_points_def)
  then obtain t where t: "loc_elem pn = Some e" "set_opaq pn ?d = Some t"
    by (auto simp: at_loc_def)
  have inv: "rbt_inv (s_rbt s)" using assms(1) by (simp add: slot_ok_def)
  note es = at_loc_inorder [OF at] and new = rbt_inv_set_opaq [OF inv at t(2)]
  define s' where "s' = unlock_w (ok_stat inc_set (add_entries 1 (s\<lparr>s_rbt := (s_rbt s)\<lparr>root := t\<rparr>\<rparr>)))"
  have run: "set_existing k v how pn m s = Some (HASHTABLE_SUCCESS, m, s')"
    using True t by (simp add: set_existing_def s'_def)
  have dist: "distinct (xs @ e # ys)" using rbt_inv_distinct [OF inv] es by simp
  have ok: "slot_ok par h m s'"
    using assms new es dist
    by (auto simp: slot_ok_def s'_def elems_ok_def inj_on_def)
  moreover have "slot_map s' = (slot_map s)(k \<mapsto> v)"
  proof
    fix k'
    have "inj_on elem_key (set (xs @ e # ys))" using assms(1) es by (simp add: slot_ok_def elems_ok_def)
    then have "elem_key x \<noteq> k" if "x \<in> set xs \<union> set ys" for x
      using that assms(3) dist by (auto simp: inj_on_def)
    then show "slot_map s' k' = ((slot_map s)(k \<mapsto> v)) k'"
      using slot_map_Some [OF assms(1)] new(2) es assms(3)
      by (intro slot_map_eqI [OF ok]) (auto simp: s'_def)
  qed
  ultimately show ?thesis using True run by (auto simp: s'_def)
qed

text \<open>Taking a node and a data buffer from the pools.\<close>

lemma owned_mono: "owned own free m \<Longrightarrow> brk m \<le> brk m' \<Longrightarrow> owned own free m'"
  unfolding owned_def by (meson order_less_le_trans)

lemma GET_PREALLOC_spec:
  assumes "owned own pool m" and "GET_PREALLOC nb pool m = (r, pool', m')"
  shows "brk m \<le> brk m'" and "owned own pool' m'"
    and "r = Some e \<Longrightarrow> e \<notin> set own \<and> owned (e # own) pool' m'"
proof -
  from list_pool.get_owned [OF refl assms]
  have o: "owned (case r of None \<Rightarrow> own | Some e \<Rightarrow> e # own) pool' m'" by simp
  then show "owned own pool' m'" by (cases r) (auto simp: owned_def)
  show "e \<notin> set own \<and> owned (e # own) pool' m'" if "r = Some e"
    using that o by (auto simp: owned_def)
  show "brk m \<le> brk m'"
  proof (cases r)
    case None
    with list_pool.get_fail [OF refl, of nb pool m pool' m'] assms(2) show ?thesis by simp
  next
    case (Some e)
    with assms(2) list_pool.get_grow [of pool nb m e pool' m'] list_pool.get_pop [of pool _ _ nb m]
    show ?thesis by (cases pool) auto
  qed
qed

lemma slot_ok_mono: "slot_ok par h m s \<Longrightarrow> brk m \<le> brk m' \<Longrightarrow> slot_ok par h m' s"
  by (auto simp: slot_ok_def intro: owned_mono)

lemma owned_mset_cong: "mset own = mset own' \<Longrightarrow> owned own free m = owned own' free m"
  unfolding owned_def
  by (metis mset_append mset_eq_imp_distinct_iff mset_eq_setD set_append)

lemma set_new_spec:
  assumes "slot_ok par h m s" and "hashval_of par k = h" and "k \<notin> elem_key ` set (slot_elems s)"
  shows "\<exists>rc m' s'. set_new par k v how m s = Some (rc, m', s') \<and>
    slot_ok par h m' s' \<and> brk m \<le> brk m' \<and> s_lock s' = fst (V_w (s_lock s)) \<and>
    (if how = HASHTABLE_SET_HOW_TEST_ONLY then rc = HASHTABLE_ERROR_NO_SUCH_KEY \<and> slot_map s' = slot_map s
     else rc = HASHTABLE_SUCCESS \<and> slot_map s' = (slot_map s)(k \<mapsto> v) \<or>
          rc = HASHTABLE_INSERT_MALLOC_ERROR \<and> slot_map s' = slot_map s)"
proof (cases "how = HASHTABLE_SET_HOW_TEST_ONLY")
  case True
  with assms(1) show ?thesis by (auto simp: set_new_def cong: slot_ok_cong slot_map_cong)
next
  case False
  let ?nb = "nb_node_prealloc (dims par)"
  have o: "owned (map node_addr (slot_elems s)) (s_nodes s) m"
    "owned (map (pdata_addr \<circ> rbt_opaq) (slot_elems s)) (s_pdata s) m" "rbt_inv (s_rbt s)"
    "elems_ok par h (set (slot_elems s))"
    using assms(1) by (auto simp: slot_ok_def)
  obtain qn nodes m1 where g1: "GET_PREALLOC ?nb (s_nodes s) m = (qn, nodes, m1)"
    by (cases "GET_PREALLOC ?nb (s_nodes s) m") auto
  note n = GET_PREALLOC_spec [OF o(1) g1]
  show ?thesis
  proof (cases qn)
    case None
    with False g1 n o show ?thesis
      by (auto simp: set_new_def slot_ok_def slot_map_def intro: owned_mono)
  next
    case (Some a)
    obtain pd pdatas m2 where g2: "GET_PREALLOC ?nb (s_pdata s) m1 = (pd, pdatas, m2)"
      by (cases "GET_PREALLOC ?nb (s_pdata s) m1") auto
    note d = GET_PREALLOC_spec [OF owned_mono [OF o(2) n(1)] g2]
    show ?thesis
    proof (cases pd)
      case None
      with Some False g1 g2 n d o show ?thesis
        by (auto simp: set_new_def slot_ok_def slot_map_def intro: owned_mono)
    next
      case pd: (Some b)
      let ?e = "\<lparr>node_addr = a, rbt_value = rbtval_of par k,
                 rbt_opaq = \<lparr>pdata_addr = b, buffkey = k, buffval = v\<rparr>\<rparr>"
      have "node_addr ?e \<notin> node_addr ` set (slot_elems s)" using n(3) [OF Some] by simp
      from tree.put_law [OF o(3) this] obtain t where t: "rbt_put (s_rbt s) ?e = Some t" "rbt_inv t"
        "mset (tree_elems t) = add_mset ?e (mset (slot_elems s))" by blast
      define s' where "s' = unlock_w (ok_stat inc_set (add_entries 1
        (s\<lparr>s_nodes := nodes, s_pdata := pdatas, s_rbt := t\<rparr>)))"
      have run: "set_new par k v how m s = Some (HASHTABLE_SUCCESS, m2, s')"
        using False g1 g2 Some pd t(1) by (simp add: set_new_def rbt_put_def s'_def)
      have es: "set (tree_elems t) = insert ?e (set (slot_elems s))"
        using arg_cong [OF t(3), of set_mset] by simp
      have "owned (map node_addr (tree_elems t)) nodes m2"
      proof -
        have "mset (map node_addr (tree_elems t)) = mset (a # map node_addr (slot_elems s))"
          using t(3) by simp
        then show ?thesis using owned_mono [OF conjunct2 [OF n(3) [OF Some]] d(1)] owned_mset_cong by blast
      qed
      moreover have "owned (map (pdata_addr \<circ> rbt_opaq) (tree_elems t)) pdatas m2"
      proof -
        have "mset (map (pdata_addr \<circ> rbt_opaq) (tree_elems t)) =
              mset (b # map (pdata_addr \<circ> rbt_opaq) (slot_elems s))"
          using t(3) by simp
        then show ?thesis using d(3) [OF pd] owned_mset_cong by blast
      qed
      moreover have "elems_ok par h (set (tree_elems t))"
        using o(4) assms(2,3) by (auto simp: elems_ok_def es)
      ultimately have ok: "slot_ok par h m2 s'" using t(2) by (simp add: slot_ok_def s'_def)
      have "slot_map s' = (slot_map s)(k \<mapsto> v)"
      proof
        fix k'
        show "slot_map s' k' = ((slot_map s)(k \<mapsto> v)) k'"
          using slot_map_Some [OF assms(1)] assms(3)
          by (intro slot_map_eqI [OF ok]) (auto simp: s'_def es)
      qed
      with ok run False n(1) d(1) show ?thesis by (auto simp: s'_def)
    qed
  qed
qed

lemma del_slot_spec:
  assumes "slot_ok par h m s" and "rbt_points (s_rbt s) pn e" and "elem_key e = k"
  shows "\<exists>s'. del_slot pn s = Some ((k, elem_val e), s') \<and>
    slot_ok par h m s' \<and> s_lock s' = fst (V_w (s_lock s)) \<and>
    slot_map s k = Some (elem_val e) \<and> slot_map s' = (slot_map s)(k := None)"
proof -
  have o: "owned (map node_addr (slot_elems s)) (s_nodes s) m"
    "owned (map (pdata_addr \<circ> rbt_opaq) (slot_elems s)) (s_pdata s) m" "rbt_inv (s_rbt s)"
    "elems_ok par h (set (slot_elems s))"
    using assms(1) by (auto simp: slot_ok_def)
  from tree.remove_law [OF o(3) assms(2)] obtain t where t: "RBT_UNLINK (s_rbt s) pn = Some t"
    "rbt_inv t" "mset (slot_elems s) = add_mset e (mset (tree_elems t))" by blast
  have es: "set (tree_elems t) = set (slot_elems s) - {e}"
    by (rule tree.remove_set(2) [OF o(3) assms(2) t(1)])
  have e: "e \<in> set (slot_elems s)" using arg_cong [OF t(3), of set_mset] by simp
  have le: "loc_elem pn = Some e" using assms(2) by (auto simp: rbt_points_def at_loc_def)
  define s' where "s' = unlock_w (ok_stat inc_del ((add_entries (- 1) (s\<lparr>s_rbt := t\<rparr>))
    \<lparr>s_pdata := pdata_addr (rbt_opaq e) # s_pdata s, s_nodes := node_addr e # s_nodes s\<rparr>))"
  have run: "del_slot pn s = Some ((k, elem_val e), s')"
    using le t(1) assms(3) by (simp add: del_slot_def s'_def RELEASE_PREALLOC_def Let_def)
  have "mset (map node_addr (slot_elems s)) = mset (node_addr e # map node_addr (tree_elems t))"
    using t(3) by simp
  with o(1) have "owned (node_addr e # map node_addr (tree_elems t)) (s_nodes s) m"
    using owned_mset_cong by blast
  moreover have "mset (map (pdata_addr \<circ> rbt_opaq) (slot_elems s)) =
      mset (pdata_addr (rbt_opaq e) # map (pdata_addr \<circ> rbt_opaq) (tree_elems t))"
    using t(3) by simp
  with o(2) have "owned (pdata_addr (rbt_opaq e) # map (pdata_addr \<circ> rbt_opaq) (tree_elems t)) (s_pdata s) m"
    using owned_mset_cong by blast
  ultimately have ok: "slot_ok par h m s'"
    using t(2) o(4) es by (auto simp: slot_ok_def s'_def elems_ok_def owned_def inj_on_def)
  have "slot_map s' = (slot_map s)(k := None)"
  proof
    fix k'
    have "x = e" if "x \<in> set (slot_elems s)" "elem_key x = k" for x
      using that o(4) assms(3) e by (auto simp: elems_ok_def inj_on_def)
    then show "slot_map s' k' = ((slot_map s)(k := None)) k'"
      using slot_map_Some [OF assms(1)] assms(3)
      by (intro slot_map_eqI [OF ok]) (auto simp: s'_def es)
  qed
  with run ok slot_map_Some [OF assms(1)] e assms(3) show ?thesis by (auto simp: s'_def)
qed

section \<open>What the table holds\<close>

definition table_inv :: "mem \<Rightarrow> ('k, 'v) hash_table \<Rightarrow> bool" where
  "table_inv m ht \<longleftrightarrow>
     (let par = parameter ht; n = unat (index_size (dims par)) in
      good_param par \<and> length (stat_dynamic ht) = n \<and> length (array_rbt ht) = n \<and>
      length (array_lock ht) = n \<and> length (node_prealloc ht) = n \<and> length (pdata_prealloc ht) = n \<and>
      (\<forall>h s. read_slot ht h = Some s \<longrightarrow> slot_ok par h m s \<and> s_lock s = rw_lock_zero))"

definition table_map :: "('k, 'v) hash_table \<Rightarrow> 'k \<rightharpoonup> 'v" where
  "table_map ht k =
     (case read_slot ht (hashval_of (parameter ht) k) of None \<Rightarrow> None | Some s \<Rightarrow> slot_map s k)"

lemma table_inv_mono: "table_inv m ht \<Longrightarrow> brk m \<le> brk m' \<Longrightarrow> table_inv m' ht"
  unfolding table_inv_def Let_def using slot_ok_mono by blast

lemma hashval_of_range:
  assumes "good_param par"
  shows "unat (hashval_of par k) < unat (index_size (dims par))"
proof -
  let ?x = "hash_func_key par (dims par) k"
  have "unat (hashval_of par k) \<le> unat ?x"
    unfolding hashval_of_def by (simp add: unsigned_ucast_eq take_bit_eq_mod)
  also have "unat ?x < unat (ucast (index_size (dims par)) :: u64)"
    using assms by (simp add: good_param_def word_less_nat_alt [symmetric])
  also have "\<dots> = unat (index_size (dims par))" by (rule unat_u64_of_u32)
  finally show ?thesis .
qed

lemma read_slot_exists:
  assumes "table_inv m ht"
  obtains s where "read_slot ht (hashval_of (parameter ht) k) = Some s"
    "slot_ok (parameter ht) (hashval_of (parameter ht) k) m s" "s_lock s = rw_lock_zero"
proof -
  from assms have "in_range ht (unat (hashval_of (parameter ht) k))"
    using hashval_of_range [of "parameter ht" k]
    by (simp add: table_inv_def in_range_def Let_def)
  then obtain s where s: "read_slot ht (hashval_of (parameter ht) k) = Some s"
    by (simp add: read_slot_def Let_def)
  with assms show thesis by (intro that) (auto simp: table_inv_def Let_def)
qed

lemma write_slot_parameter [simp]: "parameter (write_slot ht h s) = parameter ht"
  by (simp add: write_slot_def Let_def)

lemma read_write_slot:
  assumes "read_slot ht h = Some s0"
  shows "read_slot (write_slot ht h s) h' = (if h' = h then Some s else read_slot ht h')"
  using assms
  by (auto simp: read_slot_def write_slot_def in_range_def Let_def nth_list_update word_unat_eq_iff
      split: if_splits)

text \<open>Writing a slot back.\<close>

lemma table_write:
  assumes "table_inv m ht" and "read_slot ht h = Some s" and "slot_ok (parameter ht) h m' s'"
    and "s_lock s' = rw_lock_zero" and "brk m \<le> brk m'"
  shows "table_inv m' (write_slot ht h s')"
    and "slot_map s' = slot_map s \<Longrightarrow> table_map (write_slot ht h s') = table_map ht"
    and "slot_map s' = (slot_map s)(k := x) \<Longrightarrow> hashval_of (parameter ht) k = h \<Longrightarrow>
         table_map (write_slot ht h s') = (table_map ht)(k := x)"
proof -
  have lens: "length (stat_dynamic (write_slot ht h s')) = length (stat_dynamic ht)"
    "length (array_rbt (write_slot ht h s')) = length (array_rbt ht)"
    "length (array_lock (write_slot ht h s')) = length (array_lock ht)"
    "length (node_prealloc (write_slot ht h s')) = length (node_prealloc ht)"
    "length (pdata_prealloc (write_slot ht h s')) = length (pdata_prealloc ht)"
    by (simp_all add: write_slot_def Let_def)
  show "table_inv m' (write_slot ht h s')"
    using table_inv_mono [OF assms(1,5)] assms(3,4)
    by (auto simp: table_inv_def Let_def lens read_write_slot [OF assms(2)] split: if_splits)
  show "table_map (write_slot ht h s') = table_map ht" if "slot_map s' = slot_map s"
    using that assms(2) by (auto simp: table_map_def read_write_slot [OF assms(2)] fun_eq_iff)
  show "table_map (write_slot ht h s') = (table_map ht)(k := x)"
    if "slot_map s' = (slot_map s)(k := x)" "hashval_of (parameter ht) k = h"
    using that assms(2) by (auto simp: table_map_def read_write_slot [OF assms(2)] fun_eq_iff)
qed

lemma lock_w_idle:
  "s_lock s = rw_lock_zero \<Longrightarrow>
   \<exists>s'. lock_w s = Some s' \<and> s_rbt s' = s_rbt s \<and> s_nodes s' = s_nodes s \<and> s_pdata s' = s_pdata s \<and>
        fst (V_w (s_lock s')) = rw_lock_zero"
  by (simp add: lock_w_def lock_idle)

lemma lock_r_idle:
  "s_lock s = rw_lock_zero \<Longrightarrow>
   \<exists>s'. lock_r s = Some s' \<and> s_rbt s' = s_rbt s \<and> s_nodes s' = s_nodes s \<and> s_pdata s' = s_pdata s \<and>
        fst (V_r (s_lock s')) = rw_lock_zero"
  by (simp add: lock_r_def lock_idle)

section \<open>The interface of the table\<close>

text \<open>What one \<^verbatim>\<open>HashTable_Test_And_Set\<close> does to the map and what it returns.\<close>

definition set_outcome ::
  "set_how \<Rightarrow> 'k \<Rightarrow> 'v \<Rightarrow> ('k \<rightharpoonup> 'v) \<Rightarrow> hash_rc \<Rightarrow> ('k \<rightharpoonup> 'v) \<Rightarrow> bool" where
  "set_outcome how k v f rc f' =
     (if f k \<noteq> None then
        rc = (if how = HASHTABLE_SET_HOW_SET_NO_OVERWRITE then HASHTABLE_ERROR_KEY_ALREADY_EXISTS
              else HASHTABLE_SUCCESS) \<and>
        f' = (if how = HASHTABLE_SET_HOW_SET_OVERWRITE then f(k \<mapsto> v) else f)
      else if how = HASHTABLE_SET_HOW_TEST_ONLY then rc = HASHTABLE_ERROR_NO_SUCH_KEY \<and> f' = f
      else rc = HASHTABLE_SUCCESS \<and> f' = f(k \<mapsto> v) \<or> rc = HASHTABLE_INSERT_MALLOC_ERROR \<and> f' = f)"

definition get_rc :: "'v option \<Rightarrow> hash_rc" where
  "get_rc r = (if r = None then HASHTABLE_ERROR_NO_SUCH_KEY else HASHTABLE_SUCCESS)"

datatype ('k, 'v) store_op = Put 'k 'v set_how | Fetch 'k | Drop 'k

datatype ('k, 'v) store_res =
  PutRes hash_rc | FetchRes hash_rc "'v option" | DropRes hash_rc "('k \<times> 'v) option"

fun map_step :: "('k, 'v) store_op \<Rightarrow> ('k, 'v) store_res \<Rightarrow> ('k \<rightharpoonup> 'v) \<Rightarrow> ('k \<rightharpoonup> 'v) \<Rightarrow> bool" where
  "map_step (Put k v how) (PutRes rc) f f' = set_outcome how k v f rc f'"
| "map_step (Fetch k) (FetchRes rc r) f f' = (f' = f \<and> r = f k \<and> rc = get_rc (f k))"
| "map_step (Drop k) (DropRes rc r) f f' =
     (f' = f(k := None) \<and> r = map_option (Pair k) (f k) \<and> rc = get_rc (f k))"
| "map_step _ _ f f' = False"

inductive map_run ::
  "('k, 'v) store_op list \<Rightarrow> ('k, 'v) store_res list \<Rightarrow> ('k \<rightharpoonup> 'v) \<Rightarrow> ('k \<rightharpoonup> 'v) \<Rightarrow> bool" where
  map_run_Nil: "map_run [] [] f f"
| map_run_Cons: "map_step c r f g \<Longrightarrow> map_run cs rs g h \<Longrightarrow> map_run (c # cs) (r # rs) f h"

text \<open>A sequence of calls, with the operations as arguments; \<open>None\<close> if one has no result.\<close>

primrec store_run ::
  "(mem \<Rightarrow> 't \<Rightarrow> 'k \<Rightarrow> 'v \<Rightarrow> set_how \<Rightarrow> (hash_rc \<times> mem \<times> 't) option) \<Rightarrow>
   ('t \<Rightarrow> 'k \<Rightarrow> (hash_rc \<times> 'v option \<times> 't) option) \<Rightarrow>
   ('t \<Rightarrow> 'k \<Rightarrow> (hash_rc \<times> ('k \<times> 'v) option \<times> 't) option) \<Rightarrow>
   ('k, 'v) store_op list \<Rightarrow> mem \<Rightarrow> 't \<Rightarrow> (('k, 'v) store_res list \<times> mem \<times> 't) option" where
  "store_run tas get del [] m t = Some ([], m, t)"
| "store_run tas get del (c # cs) m t = do {
     (r, m, t) \<leftarrow> (case c of
         Put k v how \<Rightarrow> do { (rc, m, t) \<leftarrow> tas m t k v how; Some (PutRes rc, m, t) }
       | Fetch k \<Rightarrow> do { (rc, v, t) \<leftarrow> get t k; Some (FetchRes rc v, m, t) }
       | Drop k \<Rightarrow> do { (rc, u, t) \<leftarrow> del t k; Some (DropRes rc u, m, t) });
     (rs, m, t) \<leftarrow> store_run tas get del cs m t;
     Some (r # rs, m, t) }"

locale hash_store =
  fixes inv :: "mem \<Rightarrow> 't \<Rightarrow> bool"
    and lookup :: "'t \<Rightarrow> 'k \<Rightarrow> 'v option"
    and test_and_set :: "mem \<Rightarrow> 't \<Rightarrow> 'k \<Rightarrow> 'v \<Rightarrow> set_how \<Rightarrow> (hash_rc \<times> mem \<times> 't) option"
    and get :: "'t \<Rightarrow> 'k \<Rightarrow> (hash_rc \<times> 'v option \<times> 't) option"
    and del :: "'t \<Rightarrow> 'k \<Rightarrow> (hash_rc \<times> ('k \<times> 'v) option \<times> 't) option"
  assumes set_law: "inv m t \<Longrightarrow>
      \<exists>rc m' t'. test_and_set m t k v how = Some (rc, m', t') \<and> inv m' t' \<and> brk m \<le> brk m' \<and>
        set_outcome how k v (lookup t) rc (lookup t')"
    and get_law: "inv m t \<Longrightarrow>
      \<exists>t'. get t k = Some (get_rc (lookup t k), lookup t k, t') \<and> inv m t' \<and> lookup t' = lookup t"
    and del_law: "inv m t \<Longrightarrow>
      \<exists>t'. del t k = Some (get_rc (lookup t k), map_option (Pair k) (lookup t k), t') \<and> inv m t' \<and>
        lookup t' = (lookup t)(k := None)"
    and inv_mono: "inv m t \<Longrightarrow> brk m \<le> brk m' \<Longrightarrow> inv m' t"
begin

lemma op_refines:
  assumes "inv m t"
  shows "\<exists>r m' t'.
    (case c of
       Put k v how \<Rightarrow> do { (rc, m, t) \<leftarrow> test_and_set m t k v how; Some (PutRes rc, m, t) }
     | Fetch k \<Rightarrow> do { (rc, v, t) \<leftarrow> get t k; Some (FetchRes rc v, m, t) }
     | Drop k \<Rightarrow> do { (rc, u, t) \<leftarrow> del t k; Some (DropRes rc u, m, t) }) = Some (r, m', t') \<and>
    inv m' t' \<and> map_step c r (lookup t) (lookup t')"
proof (cases c)
  case (Put k v how)
  with set_law [OF assms, of k v how] show ?thesis by auto
next
  case (Fetch k)
  with get_law [OF assms, of k] show ?thesis by auto
next
  case (Drop k)
  with del_law [OF assms, of k] show ?thesis by auto
qed

lemma run_refines:
  "inv m t \<Longrightarrow>
   \<exists>rs m' t'. store_run test_and_set get del cs m t = Some (rs, m', t') \<and> inv m' t' \<and>
     map_run cs rs (lookup t) (lookup t')"
proof (induction cs arbitrary: m t)
  case Nil
  then show ?case by (auto intro: map_run.intros)
next
  case (Cons c cs)
  from op_refines [OF Cons.prems, of c] obtain r m1 t1 where
    r: "(case c of
       Put k v how \<Rightarrow> do { (rc, m, t) \<leftarrow> test_and_set m t k v how; Some (PutRes rc, m, t) }
     | Fetch k \<Rightarrow> do { (rc, v, t) \<leftarrow> get t k; Some (FetchRes rc v, m, t) }
     | Drop k \<Rightarrow> do { (rc, u, t) \<leftarrow> del t k; Some (DropRes rc u, m, t) }) = Some (r, m1, t1)"
    "inv m1 t1" "map_step c r (lookup t) (lookup t1)" by blast
  from Cons.IH [OF r(2)] obtain rs m2 t2 where
    "store_run test_and_set get del cs m1 t1 = Some (rs, m2, t2)" "inv m2 t2"
    "map_run cs rs (lookup t1) (lookup t2)" by blast
  with r show ?case by (auto intro: map_run.intros)
qed

end

text \<open>The operations of the code satisfy the interface.\<close>

lemma HashTable_Test_And_Set_law:
  assumes "table_inv m ht"
  shows "\<exists>rc m' ht'. HashTable_Test_And_Set m ht k v how = Some (rc, m', ht') \<and> table_inv m' ht' \<and>
     brk m \<le> brk m' \<and> set_outcome how k v (table_map ht) rc (table_map ht')"
proof -
  let ?par = "parameter ht" and ?h = "hashval_of (parameter ht) k"
  have gp: "good_param ?par" using assms by (simp add: table_inv_def Let_def)
  from read_slot_exists [OF assms, of k] obtain s where
    s: "read_slot ht ?h = Some s" "slot_ok ?par ?h m s" "s_lock s = rw_lock_zero" .
  from lock_w_idle [OF s(3)] obtain s1 where l: "lock_w s = Some s1" "s_rbt s1 = s_rbt s"
    "s_nodes s1 = s_nodes s" "s_pdata s1 = s_pdata s" "fst (V_w (s_lock s1)) = rw_lock_zero" by blast
  have ok: "slot_ok ?par ?h m s1" and mp: "slot_map s1 = slot_map s"
    using s(2) l slot_ok_cong [OF l(2-4)] slot_map_cong [OF l(2)] by auto
  have tm: "table_map ht k = slot_map s k" using s(1) by (simp add: table_map_def)
  note wr = table_write [OF assms s(1)]
  from gp ok show ?thesis
  proof (cases rule: Key_Locate_spec [where k = k])
    case (found pn e)
    from set_existing_spec [OF ok found(2,4), of v how] obtain s' where
      s': "set_existing k v how pn m s1 =
        Some (if how = HASHTABLE_SET_HOW_SET_NO_OVERWRITE then HASHTABLE_ERROR_KEY_ALREADY_EXISTS
              else HASHTABLE_SUCCESS, m, s')" "slot_ok ?par ?h m s'" "s_lock s' = rw_lock_zero"
        "slot_map s' = (if how = HASHTABLE_SET_HOW_SET_OVERWRITE then (slot_map s)(k \<mapsto> v) else slot_map s)"
      using l(5) mp by auto
    have "table_map ht k \<noteq> None" using tm found(3,4) slot_map_None [OF ok, of k] mp by auto
    with s' s(1) l(1) found(1) wr(1) [OF s'(2,3)] wr(2) [OF s'(2,3)]
      wr(3) [OF s'(2,3), of k "Some v"]
    show ?thesis by (auto simp: HashTable_Test_And_Set_def Let_def set_outcome_def)
  next
    case absent
    have none: "table_map ht k = None" using tm absent(2) slot_map_None [OF ok, of k] mp by auto
    from set_new_spec [OF ok refl absent(2), of v how, unfolded l(5) mp] obtain rc m' s' where
      s': "set_new ?par k v how m s1 = Some (rc, m', s')" "slot_ok ?par ?h m' s'" "brk m \<le> brk m'"
        "s_lock s' = rw_lock_zero"
        "if how = HASHTABLE_SET_HOW_TEST_ONLY then rc = HASHTABLE_ERROR_NO_SUCH_KEY \<and> slot_map s' = slot_map s
         else rc = HASHTABLE_SUCCESS \<and> slot_map s' = (slot_map s)(k \<mapsto> v) \<or>
              rc = HASHTABLE_INSERT_MALLOC_ERROR \<and> slot_map s' = slot_map s"
      by blast
    from s'(5) none wr(2) [OF s'(2,4,3)] wr(3) [OF s'(2,4,3), of k "Some v"]
    have "set_outcome how k v (table_map ht) rc (table_map (write_slot ht ?h s'))"
      by (auto simp: set_outcome_def split: if_splits)
    with s'(1,3) s(1) l(1) absent(1) wr(1) [OF s'(2,4,3)]
    show ?thesis by (auto simp: HashTable_Test_And_Set_def Let_def)
  qed
qed

lemma HashTable_Get_law:
  assumes "table_inv m ht"
  shows "\<exists>ht'. HashTable_Get ht k = Some (get_rc (table_map ht k), table_map ht k, ht') \<and>
     table_inv m ht' \<and> table_map ht' = table_map ht"
proof -
  let ?par = "parameter ht" and ?h = "hashval_of (parameter ht) k"
  have gp: "good_param ?par" using assms by (simp add: table_inv_def Let_def)
  from read_slot_exists [OF assms, of k] obtain s where
    s: "read_slot ht ?h = Some s" "slot_ok ?par ?h m s" "s_lock s = rw_lock_zero" .
  from lock_r_idle [OF s(3)] obtain s1 where l: "lock_r s = Some s1" "s_rbt s1 = s_rbt s"
    "s_nodes s1 = s_nodes s" "s_pdata s1 = s_pdata s" "fst (V_r (s_lock s1)) = rw_lock_zero" by blast
  have ok: "slot_ok ?par ?h m s1" and mp: "slot_map s1 = slot_map s"
    using s(2) l slot_ok_cong [OF l(2-4)] slot_map_cong [OF l(2)] by auto
  have tm: "table_map ht k = slot_map s1 k" using s(1) mp by (simp add: table_map_def)
  have written: "table_inv m (write_slot ht ?h s')" "table_map (write_slot ht ?h s') = table_map ht"
    if "s_rbt s' = s_rbt s1" "s_nodes s' = s_nodes s1" "s_pdata s' = s_pdata s1"
      "s_lock s' = rw_lock_zero" for s'
    using table_write(1,2) [OF assms s(1), of m s'] that ok mp slot_ok_cong [OF that(1-3)]
      slot_map_cong [OF that(1)] by auto
  from gp ok show ?thesis
  proof (cases rule: Key_Locate_spec [where k = k])
    case (found pn e)
    have "loc_elem pn = Some e" using found(2) by (auto simp: rbt_points_def at_loc_def)
    moreover have "slot_map s1 k = Some (elem_val e)" using found(3,4) slot_map_Some [OF ok] by auto
    ultimately show ?thesis
      using s(1) l(1,5) found(1) tm written
      by (auto simp: HashTable_Get_def Let_def get_rc_def)
  next
    case absent
    then have "slot_map s1 k = None" using slot_map_None [OF ok, of k] by simp
    then show ?thesis
      using s(1) l(1,5) absent(1) tm written
      by (auto simp: HashTable_Get_def Let_def get_rc_def)
  qed
qed

lemma HashTable_Del_law:
  assumes "table_inv m ht"
  shows "\<exists>ht'. HashTable_Del ht k =
      Some (get_rc (table_map ht k), map_option (Pair k) (table_map ht k), ht') \<and>
     table_inv m ht' \<and> table_map ht' = (table_map ht)(k := None)"
proof -
  let ?par = "parameter ht" and ?h = "hashval_of (parameter ht) k"
  have gp: "good_param ?par" using assms by (simp add: table_inv_def Let_def)
  from read_slot_exists [OF assms, of k] obtain s where
    s: "read_slot ht ?h = Some s" "slot_ok ?par ?h m s" "s_lock s = rw_lock_zero" .
  from lock_w_idle [OF s(3)] obtain s1 where l: "lock_w s = Some s1" "s_rbt s1 = s_rbt s"
    "s_nodes s1 = s_nodes s" "s_pdata s1 = s_pdata s" "fst (V_w (s_lock s1)) = rw_lock_zero" by blast
  have ok: "slot_ok ?par ?h m s1" and mp: "slot_map s1 = slot_map s"
    using s(2) l slot_ok_cong [OF l(2-4)] slot_map_cong [OF l(2)] by auto
  have tm: "table_map ht k = slot_map s1 k" using s(1) mp by (simp add: table_map_def)
  from gp ok show ?thesis
  proof (cases rule: Key_Locate_spec [where k = k])
    case (found pn e)
    from del_slot_spec [OF ok found(2,4)] obtain s' where
      s': "del_slot pn s1 = Some ((k, elem_val e), s')" "slot_ok ?par ?h m s'" "s_lock s' = rw_lock_zero"
        "slot_map s1 k = Some (elem_val e)" "slot_map s' = (slot_map s)(k := None)"
      using l(5) mp by auto
    from table_write(1,3) [OF assms s(1) s'(2,3) order_refl] s'(5)
    have "table_inv m (write_slot ht ?h s')" "table_map (write_slot ht ?h s') = (table_map ht)(k := None)"
      by auto
    then show ?thesis
      using s(1) l(1) found(1) tm s'(1,4) by (auto simp: HashTable_Del_def Let_def get_rc_def)
  next
    case absent
    then have none: "slot_map s1 k = None" using slot_map_None [OF ok, of k] by simp
    let ?s = "unlock_w (notfound_stat inc_del s1)"
    have "slot_ok ?par ?h m ?s" "slot_map ?s = slot_map s" "s_lock ?s = rw_lock_zero"
      using ok mp l(5) slot_ok_cong [of ?s s1] slot_map_cong [of ?s s1] by auto
    from table_write(1,2) [OF assms s(1) this(1,3) order_refl] this(2)
    show ?thesis
      using s(1) l(1) absent(1) tm none by (auto simp: HashTable_Del_def Let_def get_rc_def)
  qed
qed

interpretation table: hash_store table_inv table_map HashTable_Test_And_Set HashTable_Get HashTable_Del
  by unfold_locales
    (rule HashTable_Test_And_Set_law HashTable_Get_law HashTable_Del_law table_inv_mono; assumption)+

section \<open>Initialisation gives an empty table\<close>

lemma STUFF_PREALLOC_spec:
  assumes "STUFF_PREALLOC nb m = (pool, m')"
  shows "brk m \<le> brk m'" and "owned [] pool m'" and "fails m' = fails m"
  using assms
  by (auto simp: STUFF_PREALLOC_def owned_def Mem_Alloc_def Let_def split: if_splits option.splits prod.splits)

lemma prealloc_loop_spec:
  "prealloc_loop n nb m = (Some ps, m') \<Longrightarrow>
   length ps = n \<and> brk m \<le> brk m' \<and> (\<forall>(a, b) \<in> set ps. owned [] a m' \<and> owned [] b m')"
proof (induction n arbitrary: m ps)
  case 0
  then show ?case by simp
next
  case (Suc n)
  obtain a m1 where a: "STUFF_PREALLOC nb m = (a, m1)" by (cases "STUFF_PREALLOC nb m") auto
  obtain b m2 where b: "STUFF_PREALLOC nb m1 = (b, m2)" by (cases "STUFF_PREALLOC nb m1") auto
  from Suc.prems a b obtain qs where q: "prealloc_loop n nb m2 = (Some qs, m')" "ps = (a, b) # qs"
    by (auto simp: PreAllocNode_def PreAllocPdata_def split: list.splits option.splits prod.splits)
  note s = STUFF_PREALLOC_spec [OF a] STUFF_PREALLOC_spec [OF b] and i = Suc.IH [OF q(1)]
  from s(4) i have le: "brk m2 \<le> brk m'" "brk m1 \<le> brk m'" by auto
  from owned_mono [OF s(2) le(2)] owned_mono [OF s(5) le(1)] s(1,4) i q(2) show ?case by auto
qed

lemma init_locks_spec:
  "init_locks codes i n = Some locks \<Longrightarrow> locks = replicate n rw_lock_zero"
  by (induction n arbitrary: i locks)
    (auto simp: rw_lock_init_def rw_lock_zero_def split: if_splits)

lemma HashTable_Init_inv:
  assumes "HashTable_Init attr_rc codes par m = (Some ht, m')" and "good_param par"
  shows "table_inv m' ht" and "table_map ht = Map.empty" and "parameter ht = par"
proof -
  let ?n = "unat (index_size (dims par))"
  from assms(1) obtain m1 m2 ps locks where i:
    "prealloc_loop ?n (nb_node_prealloc (dims par)) m2 = (Some ps, m')"
    "init_locks codes 0 ?n = Some locks"
    "ht = \<lparr>parameter = par, stat_dynamic = replicate ?n stat_zero,
           array_rbt = replicate ?n RBT_HEAD_INIT, array_lock = locks,
           node_prealloc = map fst ps, pdata_prealloc = map snd ps\<rparr>"
    by (auto simp: HashTable_Init_def Let_def simp del: alloc_all.simps
        split: prod.splits bool.splits if_splits option.splits)
  note p = prealloc_loop_spec [OF i(1)] and l = init_locks_spec [OF i(2)]
  show par: "parameter ht = par" using i(3) by simp
  have slot: "s_rbt s = RBT_HEAD_INIT \<and> s_lock s = rw_lock_zero \<and> owned [] (s_nodes s) m' \<and>
      owned [] (s_pdata s) m'" if "read_slot ht h = Some s" for h s
  proof -
    from that i(3) p have h: "unat h < ?n" by (simp add: read_slot_def in_range_def Let_def split: if_splits)
    with p have "ps ! unat h \<in> set ps" by auto
    with p have "owned [] (fst (ps ! unat h)) m' \<and> owned [] (snd (ps ! unat h)) m'" by fastforce
    with that h i(3) p l show ?thesis by (auto simp: read_slot_def Let_def split: if_splits)
  qed
  have empty: "tree_elems (RBT_HEAD_INIT :: ('a, 'b) hash_data rbt_head) = []"
    by (simp add: RBT_HEAD_INIT_def)
  have "slot_ok par h m' s \<and> s_lock s = rw_lock_zero" if "read_slot ht h = Some s" for h s
    using slot [OF that] by (auto simp: slot_ok_def elems_ok_def empty)
  then show "table_inv m' ht"
    using assms(2) par i(3) p l by (simp add: table_inv_def Let_def)
  show "table_map ht = Map.empty"
    using slot empty by (auto simp: table_map_def slot_map_def fun_eq_iff split: option.splits)
qed

lemma alloc_all_ok:
  "(\<forall>i. \<not> fails m i) \<Longrightarrow> 0 \<notin> set ns \<Longrightarrow> \<exists>m'. alloc_all ns m = (True, m') \<and> fails m' = fails m"
proof (induction ns arbitrary: m)
  case (Cons n ns)
  with Cons.IH [of "m\<lparr>calls := Suc (calls m), brk := brk m + n\<rparr>"] show ?case
    by (auto simp: Mem_Alloc_def Let_def)
qed simp

lemma prealloc_loop_ok:
  "(\<forall>i. \<not> fails m i) \<Longrightarrow> nb \<noteq> 0 \<Longrightarrow> \<exists>ps m'. prealloc_loop n nb m = (Some ps, m')"
proof (induction n arbitrary: m)
  case (Suc n)
  have s: "\<exists>a as m'. STUFF_PREALLOC nb m = (a # as, m') \<and> fails m' = fails m" if "\<forall>i. \<not> fails m i" for m
  proof -
    have "0 < unat nb" using Suc.prems(2) by (simp add: unat_gt_0)
    then have "[brk m..<brk m + unat nb] = brk m # [Suc (brk m)..<brk m + unat nb]"
      by (intro upt_conv_Cons) simp
    with that \<open>0 < unat nb\<close> show ?thesis
      by (simp add: STUFF_PREALLOC_def Mem_Alloc_def Let_def)
  qed
  from s [OF Suc.prems(1)] obtain a as m1 where 1: "STUFF_PREALLOC nb m = (a # as, m1)" "\<forall>i. \<not> fails m1 i"
    using Suc.prems(1) by auto
  from s [OF 1(2)] obtain b bs m2 where 2: "STUFF_PREALLOC nb m1 = (b # bs, m2)" "\<forall>i. \<not> fails m2 i"
    using 1(2) by auto
  from Suc.IH [OF 2(2) Suc.prems(2)] 1(1) 2(1) show ?case
    by (auto simp: PreAllocNode_def PreAllocPdata_def)
qed simp

definition codes_ok :: pthread_codes where
  "codes_ok = \<lparr>rc_mutexattr_init = 0, rc_condattr_init = 0, rc_mutex_init = 0, rc_cond_init_read = 0,
     rc_cond_init_write = 0\<rparr>"

lemma init_locks_ok: "\<exists>locks. init_locks (\<lambda>i. codes_ok) i n = Some locks"
  by (induction n arbitrary: i) (auto simp: rw_lock_init_def codes_ok_def)

lemma HashTable_Init_ok:
  assumes "\<forall>i. \<not> fails m i" and "index_size (dims par) \<noteq> 0" and "nb_node_prealloc (dims par) \<noteq> 0"
  shows "\<exists>ht m'. HashTable_Init 0 (\<lambda>i. codes_ok) par m = (Some ht, m')"
proof -
  let ?n = "unat (index_size (dims par))"
  from alloc_all_ok [OF assms(1), of "[1]"] obtain m1 where
    1: "alloc_all [1] m = (True, m1)" "fails m1 = fails m" by auto
  have "\<forall>i. \<not> fails m1 i" "0 \<notin> set [?n, ?n, ?n, ?n, ?n]" using assms(1,2) 1(2) by (auto simp: unat_eq_0)
  from alloc_all_ok [OF this] obtain m2 where
    2: "alloc_all [?n, ?n, ?n, ?n, ?n] m1 = (True, m2)" "fails m2 = fails m1" by auto
  with assms(1) 1(2) have "\<forall>i. \<not> fails m2 i" by simp
  from prealloc_loop_ok [OF this assms(3), of ?n] init_locks_ok [of 0 ?n] 1(1) 2(1)
  show ?thesis by (auto simp: HashTable_Init_def Let_def simp del: alloc_all.simps)
qed

text \<open>
  C1. The table that \<^verbatim>\<open>HashTable_Init\<close> returns behaves as a finite map, for every sequence of
  \<^verbatim>\<open>HashTable_Test_And_Set\<close>, \<^verbatim>\<open>HashTable_Get\<close> and \<^verbatim>\<open>HashTable_Del\<close> calls and every pattern of
  allocation failures: each call returns (no NULL dereference, no index out of range, no lock left
  taken), its return code and results are those of the map, and the table then represents the
  updated map. The hypothesis is what the header asks of the functions of the parameter.
\<close>

theorem hash_table_refines_map:
  assumes "good_param par" and "HashTable_Init attr_rc codes par m = (Some ht, m')"
  shows "\<exists>rs m'' ht'.
     store_run HashTable_Test_And_Set HashTable_Get HashTable_Del ops m' ht = Some (rs, m'', ht') \<and>
     table_inv m'' ht' \<and> map_run ops rs Map.empty (table_map ht')"
  using table.run_refines [OF HashTable_Init_inv(1) [OF assms(2,1)], of ops]
  by (simp add: HashTable_Init_inv(2) [OF assms(2,1)])

text \<open>A small instance: 64-bit keys in three trees.\<close>

definition u64_param :: "u64 hash_parameter" where
  "u64_param = \<lparr>dims = \<lparr>index_size = 3, alphabet_length = 10, nb_node_prealloc = 4\<rparr>,
     hash_func_key = (\<lambda>d k. k mod ucast (index_size d)), hash_func_rbt = (\<lambda>d k. k),
     compare_key = (\<lambda>a b. if a = b then 0 else 1)\<rparr>"

definition mem_ok :: mem where
  "mem_ok = \<lparr>brk = 1, calls = 0, fails = (\<lambda>i. False)\<rparr>"

lemma u64_param_good: "good_param u64_param"
  by (simp add: good_param_def u64_param_def word_less_nat_alt unat_mod)

definition small_table :: "(u64, nat) hash_table" where
  "small_table = the (fst (HashTable_Init 0 (\<lambda>i. codes_ok) u64_param mem_ok))"

definition small_mem :: mem where
  "small_mem = snd (HashTable_Init 0 (\<lambda>i. codes_ok) u64_param mem_ok :: (u64, nat) hash_table option \<times> mem)"

lemma small_table_init:
  "HashTable_Init 0 (\<lambda>i. codes_ok) u64_param mem_ok = (Some small_table, small_mem)"
proof -
  have "\<exists>(ht :: (u64, nat) hash_table) m'. HashTable_Init 0 (\<lambda>i. codes_ok) u64_param mem_ok = (Some ht, m')"
    by (rule HashTable_Init_ok) (simp_all add: mem_ok_def u64_param_def)
  then show ?thesis unfolding small_table_def small_mem_def by auto
qed

theorem hash_table_refines_map_witness:
  "\<exists>rs m'' ht'.
     store_run HashTable_Test_And_Set HashTable_Get HashTable_Del
       [Put 7 1 HASHTABLE_SET_HOW_SET_OVERWRITE, Fetch 7, Drop 7, Fetch 7] small_mem small_table =
         Some (rs, m'', ht') \<and> table_inv m'' ht' \<and>
     map_run [Put 7 1 HASHTABLE_SET_HOW_SET_OVERWRITE, Fetch 7, Drop 7, Fetch 7] rs Map.empty (table_map ht')"
  by (rule hash_table_refines_map [OF u64_param_good small_table_init])

section \<open>The hash functions\<close>

text \<open>The polynomial with the first character in front of the highest power.\<close>

primrec hash_poly :: "nat \<Rightarrow> nat list \<Rightarrow> nat" where
  "hash_poly a [] = 0"
| "hash_poly a (c # cs) = c * a ^ length cs + hash_poly a cs"

definition char_val :: "u8 \<Rightarrow> nat" where
  "char_val c = unat (scast c :: u32)"

lemma u64_of_nat: "unat (of_nat n :: u64) = n" if "n < 2 ^ 64" for n
  using that by (simp add: unsigned_of_nat take_bit_nat_eq_self_iff)

lemma horner_step:
  fixes d :: hash_dims and h :: u64 and c :: u8
  defines "n \<equiv> unat (index_size d)" and "a \<equiv> unat (alphabet_length d)"
  assumes "unat h < n"
  shows "unat ((ucast (alphabet_length d) * h + ucast (scast c :: u32)) mod ucast (index_size d) :: u64)
       = (a * unat h + char_val c) mod n"
proof -
  have bounds: "n \<le> 2 ^ 32 - 1" "a \<le> 2 ^ 32 - 1" "char_val c \<le> 2 ^ 32 - 1"
    unfolding n_def a_def char_val_def by (rule u32_bound)+
  have "a * unat h \<le> (2 ^ 32 - 1) * (2 ^ 32 - 2)"
    using bounds(1,2) assms(3) by (intro mult_mono) auto
  then have less: "a * unat h + char_val c < 2 ^ 64" using bounds(3) by simp
  have "ucast (alphabet_length d) * h + ucast (scast c :: u32) = (of_nat (a * unat h + char_val c) :: u64)"
    unfolding a_def char_val_def
    by (simp add: word_unat_eq_iff [where 'a = 64] of_nat_unat flip: unat_u64_of_u32)
  then have "unat (ucast (alphabet_length d) * h + ucast (scast c :: u32) :: u64) = a * unat h + char_val c"
    using u64_of_nat [OF less] by simp
  then show ?thesis by (simp add: unat_mod unat_u64_of_u32 n_def)
qed

lemma horner_loop_poly:
  assumes "index_size d \<noteq> 0" and "unat h < unat (index_size d)"
  shows "\<exists>r. horner_loop d cs h = Some r \<and> unat r < unat (index_size d) \<and>
    unat r = (unat h * unat (alphabet_length d) ^ length cs +
              hash_poly (unat (alphabet_length d)) (map char_val cs)) mod unat (index_size d)"
  using assms
proof (induction cs arbitrary: h)
  case Nil
  then show ?case by simp
next
  case (Cons c cs)
  let ?n = "unat (index_size d)" and ?a = "unat (alphabet_length d)"
  let ?h = "(ucast (alphabet_length d) * h + ucast (scast c :: u32)) mod ucast (index_size d) :: u64"
  have n: "0 < ?n" using Cons.prems(1) by (simp add: unat_gt_0)
  have h: "unat ?h = (?a * unat h + char_val c) mod ?n" by (rule horner_step [OF Cons.prems(2)])
  then have "unat ?h < ?n" using n by simp
  from Cons.IH [OF Cons.prems(1) this] obtain r where
    r: "horner_loop d cs ?h = Some r" "unat r < ?n"
      "unat r = (unat ?h * ?a ^ length cs + hash_poly ?a (map char_val cs)) mod ?n" by blast
  have "unat r = ((?a * unat h + char_val c) * ?a ^ length cs + hash_poly ?a (map char_val cs)) mod ?n"
    unfolding r(3) h by (metis mod_add_left_eq mod_mult_left_eq)
  with r(1,2) Cons.prems(1) show ?case by (auto simp: algebra_simps)
qed

text \<open>
  \<^verbatim>\<open>simple_hash_func\<close> computes, without overflow at any step, the polynomial of the key's
  characters at \<open>alphabet_length\<close> modulo \<open>index_size\<close>: the first character has the highest power. (The
  comment of the function gives the first character power 0.)
\<close>

lemma simple_hash_func_polynomial:
  assumes "index_size d \<noteq> 0"
  shows "\<exists>h. simple_hash_func d key = Some h \<and>
     unat h = hash_poly (unat (alphabet_length d)) (map char_val key) mod unat (index_size d)"
  using horner_loop_poly [OF assms, of 0 key] assms
  by (auto simp: simple_hash_func_def unat_gt_0)


text \<open>
  \<^verbatim>\<open>double_hash_func\<close> always returns an index of the table, as \<^verbatim>\<open>HashTable.h\<close> asks of a
  \<open>hash_func_key\<close>.
\<close>

lemma double_hash_func_in_range:
  assumes "index_size d \<noteq> 0"
  shows "\<exists>h. double_hash_func d key = Some h \<and> unat h < unat (index_size d)"
proof -
  from horner_loop_poly [OF assms, of 0 key] assms obtain r where "simple_hash_func d key = Some r"
    by (auto simp: simple_hash_func_def unat_gt_0)
  moreover have "unat (x mod ucast (index_size d) :: u64) < unat (index_size d)" for x
    using assms by (simp add: unat_mod unat_u64_of_u32 unat_gt_0)
  ultimately show ?thesis using assms by (simp add: double_hash_func_def)
qed

section \<open>The counters\<close>

lemma foldl_entries:
  "foldl (\<lambda>acc d. acc + nb_entries d) c ds = c + sum_list (map nb_entries ds)"
  by (induction ds arbitrary: c) (auto simp: add.assoc)

lemma sum_list_update_u32:
  fixes xs :: "u32 list"
  shows "i < length xs \<Longrightarrow> sum_list (xs[i := xs ! i + y]) = sum_list xs + y"
proof (induction xs arbitrary: i)
  case (Cons x xs)
  then show ?case by (cases i) (auto simp: algebra_simps)
qed simp

lemma GetSize_add_entries:
  assumes "table_inv m ht" and "read_slot ht h = Some s"
    and "nb_entries (s_stat s') = nb_entries (s_stat s) + n"
  shows "\<exists>c. HashTable_GetSize (Some ht) = Some c \<and> HashTable_GetSize (Some (write_slot ht h s')) = Some (c + n)"
proof -
  have len: "length (stat_dynamic ht) = unat (index_size (dims (parameter ht)))"
    using assms(1) by (simp add: table_inv_def Let_def)
  have h: "unat h < length (stat_dynamic ht)" "stat_dynamic ht ! unat h = s_stat s"
    using assms(2) by (auto simp: read_slot_def in_range_def Let_def split: if_splits)
  have "map nb_entries (stat_dynamic (write_slot ht h s')) =
      (map nb_entries (stat_dynamic ht))[unat h := map nb_entries (stat_dynamic ht) ! unat h + n]"
    using h assms(3) by (simp add: write_slot_def Let_def map_update)
  moreover have "length (stat_dynamic (write_slot ht h s')) = length (stat_dynamic ht)"
    by (simp add: write_slot_def Let_def)
  ultimately show ?thesis
    using len h(1) by (simp add: HashTable_GetSize_def foldl_entries sum_list_update_u32 del: nth_map)
qed

text \<open>
  Setting a key that is already in the table with \<open>HASHTABLE_SET_HOW_SET_OVERWRITE\<close> replaces its
  value and adds no key, but \<open>nb_entries\<close> is incremented: \<^verbatim>\<open>HashTable_GetSize\<close>, documented as the
  number of entries in the table, grows by one with each overwrite.
\<close>

theorem overwrite_inflates_size:
  assumes "table_inv m ht" and "table_map ht k = Some w"
  shows "\<exists>ht' c. HashTable_Test_And_Set m ht k v HASHTABLE_SET_HOW_SET_OVERWRITE =
       Some (HASHTABLE_SUCCESS, m, ht') \<and> table_map ht' = (table_map ht)(k \<mapsto> v) \<and>
     dom (table_map ht') = dom (table_map ht) \<and>
     HashTable_GetSize (Some ht) = Some c \<and> HashTable_GetSize (Some ht') = Some (c + 1)"
proof -
  let ?par = "parameter ht" and ?h = "hashval_of (parameter ht) k"
  let ?how = HASHTABLE_SET_HOW_SET_OVERWRITE
  have gp: "good_param ?par" using assms by (simp add: table_inv_def Let_def)
  from read_slot_exists [OF assms(1), of k] obtain s where
    s: "read_slot ht ?h = Some s" "slot_ok ?par ?h m s" "s_lock s = rw_lock_zero" .
  let ?s = "s\<lparr>s_lock := rw_lock_zero\<lparr>nbw_active := 1\<rparr>\<rparr>"
  have l: "lock_w s = Some ?s" using s(3) by (simp add: lock_w_def lock_idle)
  have ok: "slot_ok ?par ?h m ?s" using s(2) by (simp add: slot_ok_def)
  from gp ok show ?thesis
  proof (cases rule: Key_Locate_spec [where k = k])
    case (found pn e)
    then obtain t where "loc_elem pn = Some e"
      "set_opaq pn ((rbt_opaq e)\<lparr>buffval := v, buffkey := k\<rparr>) = Some t"
      by (auto simp: rbt_points_def at_loc_def)
    then obtain s' where s': "set_existing k v ?how pn m ?s = Some (HASHTABLE_SUCCESS, m, s')"
      "nb_entries (s_stat s') = nb_entries (s_stat s) + 1"
      by (auto simp: set_existing_def slot_upd_defs)
    with s(1) l found(1) have run: "HashTable_Test_And_Set m ht k v ?how =
        Some (HASHTABLE_SUCCESS, m, write_slot ht ?h s')"
      by (simp add: HashTable_Test_And_Set_def Let_def)
    with HashTable_Test_And_Set_law [OF assms(1), of k v ?how] assms(2)
    have "table_map (write_slot ht ?h s') = (table_map ht)(k \<mapsto> v)" by (auto simp: set_outcome_def)
    with run GetSize_add_entries [OF assms(1) s(1) s'(2)] assms(2) show ?thesis by auto
  next
    case absent
    then have "slot_map s k = None" using slot_map_None [OF ok, of k] by (simp add: slot_map_def)
    with assms(2) s(1) show ?thesis by (simp add: table_map_def)
  qed
qed

text \<open>A table with one entry.\<close>

definition one_table :: "(u64, nat) hash_table" where
  "one_table = snd (snd (the (HashTable_Test_And_Set small_mem small_table 7 1 HASHTABLE_SET_HOW_SET_OVERWRITE)))"

lemma small_set_rc:
  "map_option fst (HashTable_Test_And_Set small_mem small_table 7 1 HASHTABLE_SET_HOW_SET_OVERWRITE) =
     Some HASHTABLE_SUCCESS"
  by code_simp

definition one_mem :: mem where
  "one_mem = fst (snd (the (HashTable_Test_And_Set small_mem small_table 7 1 HASHTABLE_SET_HOW_SET_OVERWRITE)))"

lemma one_table_ok: "table_inv one_mem one_table" "table_map one_table 7 = Some 1"
proof -
  have "table_inv small_mem small_table" "table_map small_table = Map.empty"
    using HashTable_Init_inv [OF small_table_init u64_param_good] by auto
  with HashTable_Test_And_Set_law [of small_mem small_table 7 1 HASHTABLE_SET_HOW_SET_OVERWRITE] small_set_rc
  show "table_inv one_mem one_table" "table_map one_table 7 = Some 1"
    by (auto simp: one_mem_def one_table_def set_outcome_def)
qed

theorem overwrite_inflates_size_witness:
  "\<exists>ht' c. HashTable_Test_And_Set one_mem one_table 7 2 HASHTABLE_SET_HOW_SET_OVERWRITE =
       Some (HASHTABLE_SUCCESS, one_mem, ht') \<and> table_map ht' = (table_map one_table)(7 \<mapsto> 2) \<and>
     dom (table_map ht') = dom (table_map one_table) \<and>
     HashTable_GetSize (Some one_table) = Some c \<and> HashTable_GetSize (Some ht') = Some (c + 1)"
  by (rule overwrite_inflates_size [OF one_table_ok])

text \<open>The statistics: what the loop of \<^verbatim>\<open>HashTable_GetStats\<close> has computed.\<close>

lemma stats_loop_max:
  "max_rbt_num_node (computed (stats_loop xs st)) = fold max (map fst xs) (max_rbt_num_node (computed st))"
proof (induction xs arbitrary: st)
  case (Cons x xs)
  have "max a b = (if b < a then a else b)" for a b :: u32 by (auto simp: max_def)
  with Cons show ?case by (cases x) (simp add: Let_def)
qed simp

lemma stats_loop_min:
  "min_rbt_num_node (computed (stats_loop xs st)) = fold min (map fst xs) (min_rbt_num_node (computed st))"
proof (induction xs arbitrary: st)
  case (Cons x xs)
  have "min a b = (if a < b then a else b)" for a b :: u32 by (auto simp: min_def)
  with Cons show ?case by (cases x) (simp add: Let_def)
qed simp

lemma stats_loop_entries:
  "nb_entries (dynamic (stats_loop xs st)) = nb_entries (dynamic st) + sum_list (map (nb_entries \<circ> snd) xs)"
proof (induction xs arbitrary: st)
  case (Cons x xs)
  then show ?case by (cases x) (simp add: Let_def add.assoc)
qed simp

lemma fold_max_ge: "(\<forall>x \<in> set xs. (x :: u32) \<le> fold max xs c) \<and> c \<le> fold max xs c"
proof (induction xs arbitrary: c)
  case (Cons x xs)
  from Cons [of "max x c"] have "x \<le> fold max xs (max x c)" "c \<le> fold max xs (max x c)"
    by (meson max.bounded_iff)+
  with Cons [of "max x c"] show ?case by simp
qed simp

lemma fold_min_le: "(\<forall>x \<in> set xs. fold min xs c \<le> (x :: u32)) \<and> fold min xs c \<le> c"
proof (induction xs arbitrary: c)
  case (Cons x xs)
  from Cons [of "min x c"] have "fold min xs (min x c) \<le> x" "fold min xs (min x c) \<le> c"
    by (meson min.bounded_iff)+
  with Cons [of "min x c"] show ?case by simp
qed simp

text \<open>
  \<^verbatim>\<open>HashTable_GetStats\<close> on a table of at least one tree returns; the minimum and the maximum it
  reports bound the number of nodes of every tree, and the number of entries it reports is what
  \<^verbatim>\<open>HashTable_GetSize\<close> returns.
\<close>

lemma get_stats_bounds:
  assumes "table_inv m ht" and "index_size (dims (parameter ht)) \<noteq> 0"
  shows "\<exists>st. HashTable_GetStats ht = Some st \<and>
     (\<forall>t \<in> set (array_rbt ht). min_rbt_num_node (computed st) \<le> rbt_num_node t \<and>
        rbt_num_node t \<le> max_rbt_num_node (computed st)) \<and>
     HashTable_GetSize (Some ht) = Some (nb_entries (dynamic st))"
proof -
  let ?n = "unat (index_size (dims (parameter ht)))"
  let ?xs = "zip (map rbt_num_node (array_rbt ht)) (stat_dynamic ht)"
  have len: "length (array_rbt ht) = ?n" "length (stat_dynamic ht) = ?n" "?n \<noteq> 0"
    using assms by (auto simp: table_inv_def Let_def unat_eq_0)
  have map: "map fst ?xs = map rbt_num_node (array_rbt ht)" "map snd ?xs = stat_dynamic ht"
    using len by auto
  then have "map (nb_entries \<circ> snd) ?xs = map nb_entries (stat_dynamic ht)"
    by (metis map_map)
  with len map(1) show ?thesis
    using fold_max_ge [of "map rbt_num_node (array_rbt ht)"] fold_min_le [of "map rbt_num_node (array_rbt ht)"]
    by (auto simp: HashTable_GetStats_def HashTable_GetSize_def Let_def stats_loop_max stats_loop_min
        stats_loop_entries foldl_entries stat_zero_def)
qed


section \<open>The interface in the form the callers use it\<close>

lemma HashTable_Set_overwrite:
  assumes "table_inv m ht"
  obtains rc m' ht' where "HashTable_Test_And_Set m ht k v HASHTABLE_SET_HOW_SET_OVERWRITE = Some (rc, m', ht')"
    "table_inv m' ht'" "brk m \<le> brk m'"
    "rc = HASHTABLE_SUCCESS \<and> table_map ht' = (table_map ht)(k \<mapsto> v) \<or>
     rc = HASHTABLE_INSERT_MALLOC_ERROR \<and> table_map ht' = table_map ht"
proof -
  from table.set_law [OF assms, of k v HASHTABLE_SET_HOW_SET_OVERWRITE] obtain rc m' ht' where
    "HashTable_Test_And_Set m ht k v HASHTABLE_SET_HOW_SET_OVERWRITE = Some (rc, m', ht')"
    "table_inv m' ht'" "brk m \<le> brk m'"
    "set_outcome HASHTABLE_SET_HOW_SET_OVERWRITE k v (table_map ht) rc (table_map ht')" by blast
  then show thesis by (intro that) (auto simp: set_outcome_def split: if_splits)
qed

lemma Mem_Alloc_brk: "Mem_Alloc n m = (r, m') \<Longrightarrow> brk m \<le> brk m'"
  by (auto simp: Mem_Alloc_def Let_def split: if_splits)

lemma table_inv_Mem_Alloc: "table_inv m ht \<Longrightarrow> Mem_Alloc n m = (r, m') \<Longrightarrow> table_inv m' ht"
  by (rule table_inv_mono [OF _ Mem_Alloc_brk])

lemma get_rc_simps [simp]:
  "get_rc None = HASHTABLE_ERROR_NO_SUCH_KEY" "get_rc (Some v) = HASHTABLE_SUCCESS"
  by (auto simp: get_rc_def)

text \<open>A parameter with a modulo as its hash function.\<close>

lemma good_param_mod:
  assumes "index_size (dims par) \<noteq> 0" and "\<And>k. hash_func_key par (dims par) k = f k mod ucast (index_size (dims par))"
    and "\<And>a b. compare_key par a b = 0 \<longleftrightarrow> a = b"
  shows "good_param par"
proof -
  have "f k mod ucast (index_size (dims par)) < ucast (index_size (dims par))" for k
    using assms(1) by (simp add: word_less_nat_alt unat_mod unat_u64_of_u32 unat_gt_0)
  then show ?thesis using assms(2,3) by (simp add: good_param_def)
qed

lemma GET_PREALLOC_brk: "GET_PREALLOC nb pool m = (r, pool', m') \<Longrightarrow> brk m \<le> brk m'"
  by (auto simp: GET_PREALLOC_def STUFF_PREALLOC_def Let_def
      split: if_splits option.splits list.splits prod.splits dest: Mem_Alloc_brk)

text \<open>\<^verbatim>\<open>GET_PREALLOC\<close> on an empty pool allocates a new block and returns its first entry.\<close>

lemma GET_PREALLOC_empty:
  assumes "GET_PREALLOC nb [] m = (p, pool', m')"
  shows "p = None \<and> brk m' = brk m \<or> p = Some (brk m) \<and> brk m' = brk m + unat nb \<and> 0 < unat nb"
  using assms Mem_Alloc_None [of "unat nb" m] Mem_Alloc_Some [of "unat nb" m]
  by (auto simp: GET_PREALLOC_def STUFF_PREALLOC_def Let_def upt_conv_Cons
      split: if_splits option.splits list.splits prod.splits)

lemma GET_PREALLOC_fresh:
  assumes "GET_PREALLOC nb pool m = (Some p, pool', m')" and "distinct pool" and "\<forall>q \<in> set pool. q < brk m"
  shows "p < brk m'" "p \<notin> set pool'" "distinct pool'" "\<forall>q \<in> set pool'. q < brk m'"
    "\<forall>q \<in> insert p (set pool'). q \<in> set pool \<or> brk m \<le> q" "brk m \<le> brk m'"
proof -
  have o: "owned [] pool m" using assms(2,3) by (auto simp: owned_def)
  note g = GET_PREALLOC_spec [OF o assms(1)]
  show "brk m \<le> brk m'" by (rule GET_PREALLOC_brk [OF assms(1)])
  have "owned [p] pool' m'" using g(3) [OF refl] by simp
  then show "p < brk m'" "p \<notin> set pool'" "distinct pool'" "\<forall>q \<in> set pool'. q < brk m'" by (auto simp: owned_def)
  show "\<forall>q \<in> insert p (set pool'). q \<in> set pool \<or> brk m \<le> q"
    using assms(1) Mem_Alloc_Some [of "unat nb" m]
    by (auto simp: GET_PREALLOC_def STUFF_PREALLOC_def Let_def upt_conv_Cons
        split: if_splits list.splits option.splits prod.splits)
qed

text \<open>Tables of pointers to records in a heap.\<close>

lemma ran_upd_subset: "ran (m(k \<mapsto> v)) \<subseteq> insert v (ran m)"
  by (auto simp: ran_def)

lemma ran_del_subset: "ran (m(k := None)) \<subseteq> ran m"
  by (auto simp: ran_def)

lemma deref_same:
  assumes "\<forall>q \<in> ran t. q < b" and "b \<le> (p :: addr)"
  shows "map_option (h(p := r)) \<circ> t = map_option h \<circ> t"
proof
  fix x
  show "(map_option (h(p := r)) \<circ> t) x = (map_option h \<circ> t) x"
  proof (cases "t x")
    case (Some q)
    then have "q < b" using assms(1) by (blast intro: ranI)
    with assms(2) Some show ?thesis by simp
  qed simp
qed

lemma deref_upd:
  assumes "\<forall>q \<in> ran t. q < b" and "b \<le> (p :: addr)"
  shows "map_option (h(p := r)) \<circ> t(k \<mapsto> p) = (map_option h \<circ> t)(k \<mapsto> r)"
proof
  fix x
  show "(map_option (h(p := r)) \<circ> t(k \<mapsto> p)) x = ((map_option h \<circ> t)(k \<mapsto> r)) x"
  proof (cases "x = k \<or> t x = None")
    case False
    then obtain q where q: "t x = Some q" by auto
    then have "q < b" using assms(1) by (blast intro: ranI)
    with assms(2) q False show ?thesis by simp
  qed auto
qed

text \<open>When no allocation fails, an insertion does not return an allocation error.\<close>

definition mem_good :: "mem \<Rightarrow> bool" where
  "mem_good m \<longleftrightarrow> (\<forall>i. \<not> fails m i)"

lemma Mem_Alloc_fails: "Mem_Alloc n m = (r, m') \<Longrightarrow> fails m' = fails m"
  by (auto simp: Mem_Alloc_def Let_def split: if_splits)

lemma Mem_Alloc_good: "mem_good m \<Longrightarrow> 0 < n \<Longrightarrow> \<exists>m'. Mem_Alloc n m = (Some (brk m), m') \<and> mem_good m'"
  by (auto simp: Mem_Alloc_def Let_def mem_good_def)

lemma GET_PREALLOC_fails: "GET_PREALLOC nb pool m = (r, pool', m') \<Longrightarrow> fails m' = fails m"
  by (auto simp: GET_PREALLOC_def STUFF_PREALLOC_def Let_def
      split: if_splits option.splits list.splits prod.splits dest!: Mem_Alloc_fails)

lemma GET_PREALLOC_good:
  assumes "GET_PREALLOC nb pool m = (r, pool', m')" and "mem_good m" and "nb \<noteq> 0"
  shows "r \<noteq> None"
proof (cases "pool = []")
  case True
  have "0 < unat nb" using assms(3) by (simp add: unat_gt_0)
  from Mem_Alloc_good [OF assms(2) this] this True assms(1,3) show ?thesis
    by (auto simp: GET_PREALLOC_def STUFF_PREALLOC_def upt_conv_Cons)
next
  case False
  with assms(1) show ?thesis by (auto simp: GET_PREALLOC_def split: list.splits)
qed

lemma set_new_frame:
  assumes "set_new par k v how m s = Some (rc, m', s')"
  shows "fails m' = fails m" and "mem_good m \<Longrightarrow> nb_node_prealloc (dims par) \<noteq> 0 \<Longrightarrow> rc \<noteq> HASHTABLE_INSERT_MALLOC_ERROR"
proof -
  let ?nb = "nb_node_prealloc (dims par)"
  obtain qn nodes m1 where g1: "GET_PREALLOC ?nb (s_nodes s) m = (qn, nodes, m1)"
    by (cases "GET_PREALLOC ?nb (s_nodes s) m") auto
  obtain pd pdatas m2 where g2: "GET_PREALLOC ?nb (s_pdata s) m1 = (pd, pdatas, m2)"
    by (cases "GET_PREALLOC ?nb (s_pdata s) m1") auto
  note f = GET_PREALLOC_fails [OF g1] GET_PREALLOC_fails [OF g2]
  show "fails m' = fails m" using assms g1 g2 f
    by (auto simp: set_new_def Let_def split: if_splits option.splits bind_splits)
  assume good: "mem_good m" "?nb \<noteq> 0"
  then have "qn \<noteq> None" "pd \<noteq> None"
    using GET_PREALLOC_good [OF g1] GET_PREALLOC_good [OF g2] f(1) by (auto simp: mem_good_def)
  then show "rc \<noteq> HASHTABLE_INSERT_MALLOC_ERROR" using assms g1 g2
    by (auto simp: set_new_def Let_def split: if_splits option.splits bind_splits)
qed

lemma HashTable_Set_frame:
  assumes "HashTable_Test_And_Set m ht k v how = Some (rc, m', ht')"
  shows "parameter ht' = parameter ht" and "fails m' = fails m"
    and "mem_good m \<Longrightarrow> nb_node_prealloc (dims (parameter ht)) \<noteq> 0 \<Longrightarrow> rc \<noteq> HASHTABLE_INSERT_MALLOC_ERROR"
proof -
  let ?r = "\<lambda>s. case Key_Locate (parameter ht) s k (rbtval_of (parameter ht) k) of
      (HASHTABLE_SUCCESS, Some pn) \<Rightarrow> set_existing k v how pn m s | _ \<Rightarrow> set_new (parameter ht) k v how m s"
  from assms obtain s s' where s: "?r s = Some (rc, m', s')" "ht' = write_slot ht (hashval_of (parameter ht) k) s'"
    by (auto simp: HashTable_Test_And_Set_def Let_def split: bind_splits)
  show "parameter ht' = parameter ht" using s(2) by simp
  have e: "fst (snd x) = m \<and> fst x \<noteq> HASHTABLE_INSERT_MALLOC_ERROR"
    if "set_existing k v how pn m s = Some x" for pn x
    using that by (auto simp: set_existing_def split: if_splits bind_splits)
  show "fails m' = fails m"
    using s(1) e set_new_frame(1) [of "parameter ht" k v how m s rc m' s']
    by (fastforce split: prod.splits hash_rc.splits option.splits)
  show "rc \<noteq> HASHTABLE_INSERT_MALLOC_ERROR"
    if "mem_good m" "nb_node_prealloc (dims (parameter ht)) \<noteq> 0"
    using that s(1) e set_new_frame(2) [of "parameter ht" k v how m s rc m' s']
    by (fastforce split: prod.splits hash_rc.splits option.splits)
qed

text \<open>
  A store that can grow: while no allocation fails and there is room, no call reports a lack of memory,
  and both stay so.
\<close>

locale growing_store = hash_store +
  fixes room :: "'t \<Rightarrow> bool"
  assumes room_law: "test_and_set m t k v how = Some (rc, m', t') \<Longrightarrow> mem_good m \<Longrightarrow> room t \<Longrightarrow>
      rc \<noteq> HASHTABLE_INSERT_MALLOC_ERROR \<and> mem_good m' \<and> room t'"
begin

lemma overwrite_succeeds:
  assumes "inv m t" and "mem_good m" and "room t"
  shows "\<exists>m' t'. test_and_set m t k v HASHTABLE_SET_HOW_SET_OVERWRITE = Some (HASHTABLE_SUCCESS, m', t') \<and>
    inv m' t' \<and> brk m \<le> brk m' \<and> lookup t' = (lookup t)(k \<mapsto> v) \<and> mem_good m' \<and> room t'"
proof -
  from set_law [OF assms(1), of k v HASHTABLE_SET_HOW_SET_OVERWRITE] obtain rc m' t' where
    s: "test_and_set m t k v HASHTABLE_SET_HOW_SET_OVERWRITE = Some (rc, m', t')" "inv m' t'" "brk m \<le> brk m'"
      "set_outcome HASHTABLE_SET_HOW_SET_OVERWRITE k v (lookup t) rc (lookup t')" by blast
  note r = room_law [OF s(1) assms(2,3)]
  with s(4) have "rc = HASHTABLE_SUCCESS" "lookup t' = (lookup t)(k \<mapsto> v)"
    by (auto simp: set_outcome_def split: if_splits)
  with s(1-3) r show ?thesis by blast
qed

lemma insert_succeeds:
  assumes "inv m t" and "mem_good m" and "room t" and "lookup t k = None"
  shows "\<exists>m' t'. test_and_set m t k v HASHTABLE_SET_HOW_SET_NO_OVERWRITE = Some (HASHTABLE_SUCCESS, m', t') \<and>
    inv m' t' \<and> brk m \<le> brk m' \<and> lookup t' = (lookup t)(k \<mapsto> v) \<and> mem_good m' \<and> room t'"
proof -
  from set_law [OF assms(1), of k v HASHTABLE_SET_HOW_SET_NO_OVERWRITE] obtain rc m' t' where
    s: "test_and_set m t k v HASHTABLE_SET_HOW_SET_NO_OVERWRITE = Some (rc, m', t')" "inv m' t'" "brk m \<le> brk m'"
      "set_outcome HASHTABLE_SET_HOW_SET_NO_OVERWRITE k v (lookup t) rc (lookup t')" by blast
  note r = room_law [OF s(1) assms(2,3)]
  with s(4) assms(4) have "rc = HASHTABLE_SUCCESS" "lookup t' = (lookup t)(k \<mapsto> v)"
    by (auto simp: set_outcome_def split: if_splits)
  with s(1-3) r show ?thesis by blast
qed

end

text \<open>The table grows by blocks of \<open>nb_node_prealloc\<close> nodes.\<close>

definition table_room :: "('k, 'v) hash_table \<Rightarrow> bool" where
  "table_room ht \<longleftrightarrow> nb_node_prealloc (dims (parameter ht)) \<noteq> 0"

interpretation growing_table: growing_store table_inv table_map HashTable_Test_And_Set HashTable_Get HashTable_Del table_room
proof unfold_locales
  fix m k v how rc m' and t t' :: "('k, 'v) hash_table"
  assume "HashTable_Test_And_Set m t k v how = Some (rc, m', t')" "mem_good m" "table_room t"
  then show "rc \<noteq> HASHTABLE_INSERT_MALLOC_ERROR \<and> mem_good m' \<and> table_room t'"
    using HashTable_Set_frame [of m t k v how rc m' t'] by (simp add: table_room_def mem_good_def)
qed

lemma HashTable_Get_frame: "HashTable_Get ht k = Some (rc, v, ht') \<Longrightarrow> parameter ht' = parameter ht"
  by (auto simp: HashTable_Get_def Let_def split: bind_splits prod.splits option.splits hash_rc.splits)

lemma HashTable_Del_frame: "HashTable_Del ht k = Some (rc, v, ht') \<Longrightarrow> parameter ht' = parameter ht"
  by (auto simp: HashTable_Del_def Let_def split: bind_splits prod.splits option.splits hash_rc.splits)

text \<open>The table that \<^verbatim>\<open>HashTable_Init\<close> returns when nothing fails.\<close>

definition new_table :: "'k hash_parameter \<Rightarrow> mem \<Rightarrow> ('k, 'v) hash_table \<times> mem" where
  "new_table par m = (case HashTable_Init 0 (\<lambda>i. codes_ok) par m of (ht, m') \<Rightarrow> (the ht, m'))"

lemma alloc_all_mem: "alloc_all ns m = (r, m') \<Longrightarrow> brk m \<le> brk m' \<and> fails m' = fails m"
proof (induction ns arbitrary: m)
  case (Cons n ns)
  obtain a m1 where a: "Mem_Alloc n m = (a, m1)" by (cases "Mem_Alloc n m") auto
  note le = Mem_Alloc_brk [OF a] and eq = Mem_Alloc_fails [OF a]
  show ?case
  proof (cases a)
    case None
    with Cons.prems a le eq show ?thesis by simp
  next
    case (Some q)
    with Cons.prems a have "alloc_all ns m1 = (r, m')" by simp
    from Cons.IH [OF this] le eq show ?thesis by simp
  qed
qed simp

lemma prealloc_loop_fails: "prealloc_loop n nb m = (r, m') \<Longrightarrow> fails m' = fails m"
proof (induction n arbitrary: m r m')
  case (Suc n)
  obtain a m1 where a: "STUFF_PREALLOC nb m = (a, m1)" by (cases "STUFF_PREALLOC nb m") auto
  obtain b m2 where b: "STUFF_PREALLOC nb m1 = (b, m2)" by (cases "STUFF_PREALLOC nb m1") auto
  show ?case
  proof (cases "prealloc_loop n nb m2")
    case (Pair r2 m3)
    from Suc.IH [OF Pair] Suc.prems Pair a b STUFF_PREALLOC_spec(3) [OF a] STUFF_PREALLOC_spec(3) [OF b]
    show ?thesis
      by (auto simp: PreAllocNode_def PreAllocPdata_def split: list.splits option.splits prod.splits)
  qed
qed simp

lemma HashTable_Init_mem:
  assumes "HashTable_Init attr_rc codes par m = (Some ht, m')"
  shows "brk m \<le> brk m' \<and> fails m' = fails m"
proof -
  let ?n = "unat (index_size (dims par))"
  from assms obtain m1 m2 ps where i:
    "alloc_all [1] m = (True, m1)" "alloc_all [?n, ?n, ?n, ?n, ?n] m1 = (True, m2)"
    "prealloc_loop ?n (nb_node_prealloc (dims par)) m2 = (Some ps, m')"
    by (auto simp: HashTable_Init_def Let_def simp del: alloc_all.simps
        split: prod.splits bool.splits if_splits option.splits)
  from alloc_all_mem [OF i(1)] alloc_all_mem [OF i(2)] prealloc_loop_spec [OF i(3)] prealloc_loop_fails [OF i(3)]
  show ?thesis by simp
qed

lemma new_table:
  assumes "good_param par" and "mem_good m" and "index_size (dims par) \<noteq> 0" and "nb_node_prealloc (dims par) \<noteq> 0"
    and "new_table par m = (ht, m')"
  shows "HashTable_Init 0 (\<lambda>i. codes_ok) par m = (Some ht, m')" "table_inv m' ht" "table_map ht = Map.empty"
    "brk m \<le> brk m'" "mem_good m'" "parameter ht = par"
proof -
  have "\<forall>i. \<not> fails m i" using assms(2) by (simp add: mem_good_def)
  from HashTable_Init_ok [OF this assms(3,4)] obtain ht0 :: "('a, 'b) hash_table" and m0 where
    "HashTable_Init 0 (\<lambda>i. codes_ok) par m = (Some ht0, m0)" by blast
  with assms(5) show i: "HashTable_Init 0 (\<lambda>i. codes_ok) par m = (Some ht, m')" by (simp add: new_table_def)
  from HashTable_Init_inv [OF i assms(1)] HashTable_Init_mem [OF i] assms(2)
  show "table_inv m' ht" "table_map ht = Map.empty" "brk m \<le> brk m'" "mem_good m'" "parameter ht = par"
    by (simp_all add: mem_good_def)
qed

lemma mem_ok_good: "mem_good mem_ok"
  by (simp add: mem_good_def mem_ok_def)

definition small_dims :: hash_dims where
  "small_dims = \<lparr>index_size = 2, alphabet_length = 10, nb_node_prealloc = 2\<rparr>"

lemma small_dims_nonzero: "index_size small_dims \<noteq> 0" "nb_node_prealloc small_dims \<noteq> 0"
  by (simp_all add: small_dims_def)

end
