(* ===== verification/NFS_Status.thy ===== *)
theory NFS_Status
  imports Prelude
begin

text \<open>
  The error codes of the layers of the server and the conversions between them: from the file system
  layer (\<^verbatim>\<open>include/err_fsal.h\<close>, \<^verbatim>\<open>FSAL_GHOST_FS/fsal_convertions.c\<close>) to the metadata cache
  (\<^verbatim>\<open>include/cache_inode.h\<close>, \<^verbatim>\<open>Cache_inode/cache_inode_misc.c\<close>) and from there to the three NFS
  protocols (\<^verbatim>\<open>NFS_Protocols/nfs_proto_tools.c\<close>), with their printed names
  (\<^verbatim>\<open>support/nfs_convert.c\<close>).

  Each set of codes is a datatype with the constructors of the source (their numbers play no part here). A \<^verbatim>\<open>switch\<close> is a function by pattern matching, its \<^verbatim>\<open>default\<close> the last equation.
\<close>

section \<open>The codes\<close>

datatype (plugins only: code) cache_inode_status =
    CACHE_INODE_SUCCESS
  | CACHE_INODE_MALLOC_ERROR
  | CACHE_INODE_POOL_MUTEX_INIT_ERROR
  | CACHE_INODE_GET_NEW_LRU_ENTRY
  | CACHE_INODE_UNAPPROPRIATED_KEY
  | CACHE_INODE_INIT_ENTRY_FAILED
  | CACHE_INODE_FSAL_ERROR
  | CACHE_INODE_LRU_ERROR
  | CACHE_INODE_HASH_SET_ERROR
  | CACHE_INODE_NOT_A_DIRECTORY
  | CACHE_INODE_INCONSISTENT_ENTRY
  | CACHE_INODE_BAD_TYPE
  | CACHE_INODE_ENTRY_EXISTS
  | CACHE_INODE_DIR_NOT_EMPTY
  | CACHE_INODE_NOT_FOUND
  | CACHE_INODE_INVALID_ARGUMENT
  | CACHE_INODE_INSERT_ERROR
  | CACHE_INODE_HASH_TABLE_ERROR
  | CACHE_INODE_FSAL_EACCESS
  | CACHE_INODE_IS_A_DIRECTORY
  | CACHE_INODE_FSAL_EPERM
  | CACHE_INODE_NO_SPACE_LEFT
  | CACHE_INODE_CACHE_CONTENT_ERROR
  | CACHE_INODE_CACHE_CONTENT_EXISTS
  | CACHE_INODE_CACHE_CONTENT_EMPTY
  | CACHE_INODE_READ_ONLY_FS
  | CACHE_INODE_IO_ERROR
  | CACHE_INODE_FSAL_ESTALE
  | CACHE_INODE_FSAL_ERR_SEC
  | CACHE_INODE_STATE_CONFLICT
  | CACHE_INODE_QUOTA_EXCEEDED
  | CACHE_INODE_DEAD_ENTRY
  | CACHE_INODE_ASYNC_POST_ERROR
  | CACHE_INODE_NOT_SUPPORTED
  | CACHE_INODE_STATE_ERROR
  | CACHE_INODE_FSAL_DELAY

datatype (plugins only: code) cache_content_status =
    CACHE_CONTENT_SUCCESS
  | CACHE_CONTENT_INVALID_ARGUMENT
  | CACHE_CONTENT_UNAPPROPRIATED_KEY
  | CACHE_CONTENT_BAD_CACHE_INODE_ENTRY
  | CACHE_CONTENT_ENTRY_EXISTS
  | CACHE_CONTENT_FSAL_ERROR
  | CACHE_CONTENT_LOCAL_CACHE_ERROR
  | CACHE_CONTENT_MALLOC_ERROR
  | CACHE_CONTENT_LRU_ERROR
  | CACHE_CONTENT_NOT_FOUND
  | CACHE_CONTENT_LOCAL_CACHE_NOT_FOUND
  | CACHE_CONTENT_TOO_LARGE_FOR_CACHE

datatype (plugins only: code) fsal_error =
    ERR_FSAL_NO_ERROR
  | ERR_FSAL_PERM
  | ERR_FSAL_NOENT
  | ERR_FSAL_IO
  | ERR_FSAL_NXIO
  | ERR_FSAL_NOMEM
  | ERR_FSAL_ACCESS
  | ERR_FSAL_FAULT
  | ERR_FSAL_EXIST
  | ERR_FSAL_XDEV
  | ERR_FSAL_NOTDIR
  | ERR_FSAL_ISDIR
  | ERR_FSAL_INVAL
  | ERR_FSAL_FBIG
  | ERR_FSAL_NOSPC
  | ERR_FSAL_ROFS
  | ERR_FSAL_MLINK
  | ERR_FSAL_DQUOT
  | ERR_FSAL_NAMETOOLONG
  | ERR_FSAL_NOTEMPTY
  | ERR_FSAL_STALE
  | ERR_FSAL_BADHANDLE
  | ERR_FSAL_BADCOOKIE
  | ERR_FSAL_NOTSUPP
  | ERR_FSAL_TOOSMALL
  | ERR_FSAL_SERVERFAULT
  | ERR_FSAL_BADTYPE
  | ERR_FSAL_DELAY
  | ERR_FSAL_FHEXPIRED
  | ERR_FSAL_SYMLINK
  | ERR_FSAL_ATTRNOTSUPP
  | ERR_FSAL_NOT_INIT
  | ERR_FSAL_ALREADY_INIT
  | ERR_FSAL_BAD_INIT
  | ERR_FSAL_SEC
  | ERR_FSAL_NO_QUOTA
  | ERR_FSAL_NOT_OPENED

datatype (plugins only: code) ghostfs_error =
    ERR_GHOSTFS_NO_ERROR
  | ERR_GHOSTFS_NOENT
  | ERR_GHOSTFS_NOTDIR
  | ERR_GHOSTFS_ACCES
  | ERR_GHOSTFS_EXIST
  | ERR_GHOSTFS_ISDIR
  | ERR_GHOSTFS_NOTEMPTY
  | ERR_GHOSTFS_INTERNAL
  | ERR_GHOSTFS_MALLOC
  | ERR_GHOSTFS_OPEN
  | ERR_GHOSTFS_READ
  | ERR_GHOSTFS_WRITE
  | ERR_GHOSTFS_SYNTAX
  | ERR_GHOSTFS_ARGS
  | ERR_GHOSTFS_ALREADYINIT
  | ERR_GHOSTFS_NOTINIT
  | ERR_GHOSTFS_STALE
  | ERR_GHOSTFS_CORRUPT
  | ERR_GHOSTFS_NOTLNK
  | ERR_GHOSTFS_TOOSMALL
  | ERR_GHOSTFS_NOTOPENED
  | ERR_GHOSTFS_ENDOFDIR
  | ERR_GHOSTFS_ATTR_NOT_SUPP

datatype (plugins only: code) nfsstat2 =
    NFS_OK
  | NFSERR_PERM
  | NFSERR_NOENT
  | NFSERR_IO
  | NFSERR_NXIO
  | NFSERR_ACCES
  | NFSERR_EXIST
  | NFSERR_NODEV
  | NFSERR_NOTDIR
  | NFSERR_ISDIR
  | NFSERR_FBIG
  | NFSERR_NOSPC
  | NFSERR_ROFS
  | NFSERR_NAMETOOLONG
  | NFSERR_NOTEMPTY
  | NFSERR_DQUOT
  | NFSERR_STALE
  | NFSERR_WFLUSH

datatype (plugins only: code) nfsstat3 =
    NFS3_OK
  | NFS3ERR_PERM
  | NFS3ERR_NOENT
  | NFS3ERR_IO
  | NFS3ERR_NXIO
  | NFS3ERR_ACCES
  | NFS3ERR_EXIST
  | NFS3ERR_XDEV
  | NFS3ERR_NODEV
  | NFS3ERR_NOTDIR
  | NFS3ERR_ISDIR
  | NFS3ERR_INVAL
  | NFS3ERR_FBIG
  | NFS3ERR_NOSPC
  | NFS3ERR_ROFS
  | NFS3ERR_MLINK
  | NFS3ERR_NAMETOOLONG
  | NFS3ERR_NOTEMPTY
  | NFS3ERR_DQUOT
  | NFS3ERR_STALE
  | NFS3ERR_REMOTE
  | NFS3ERR_BADHANDLE
  | NFS3ERR_NOT_SYNC
  | NFS3ERR_BAD_COOKIE
  | NFS3ERR_NOTSUPP
  | NFS3ERR_TOOSMALL
  | NFS3ERR_SERVERFAULT
  | NFS3ERR_BADTYPE
  | NFS3ERR_JUKEBOX

datatype (plugins only: size) nfsstat4 =
    NFS4_OK
  | NFS4ERR_PERM
  | NFS4ERR_NOENT
  | NFS4ERR_IO
  | NFS4ERR_NXIO
  | NFS4ERR_ACCESS
  | NFS4ERR_EXIST
  | NFS4ERR_XDEV
  | NFS4ERR_NOTDIR
  | NFS4ERR_ISDIR
  | NFS4ERR_INVAL
  | NFS4ERR_FBIG
  | NFS4ERR_NOSPC
  | NFS4ERR_ROFS
  | NFS4ERR_MLINK
  | NFS4ERR_NAMETOOLONG
  | NFS4ERR_NOTEMPTY
  | NFS4ERR_DQUOT
  | NFS4ERR_STALE
  | NFS4ERR_BADHANDLE
  | NFS4ERR_BAD_COOKIE
  | NFS4ERR_NOTSUPP
  | NFS4ERR_TOOSMALL
  | NFS4ERR_SERVERFAULT
  | NFS4ERR_BADTYPE
  | NFS4ERR_DELAY
  | NFS4ERR_SAME
  | NFS4ERR_DENIED
  | NFS4ERR_EXPIRED
  | NFS4ERR_LOCKED
  | NFS4ERR_GRACE
  | NFS4ERR_FHEXPIRED
  | NFS4ERR_SHARE_DENIED
  | NFS4ERR_WRONGSEC
  | NFS4ERR_CLID_INUSE
  | NFS4ERR_RESOURCE
  | NFS4ERR_MOVED
  | NFS4ERR_NOFILEHANDLE
  | NFS4ERR_MINOR_VERS_MISMATCH
  | NFS4ERR_STALE_CLIENTID
  | NFS4ERR_STALE_STATEID
  | NFS4ERR_OLD_STATEID
  | NFS4ERR_BAD_STATEID
  | NFS4ERR_BAD_SEQID
  | NFS4ERR_NOT_SAME
  | NFS4ERR_LOCK_RANGE
  | NFS4ERR_SYMLINK
  | NFS4ERR_RESTOREFH
  | NFS4ERR_LEASE_MOVED
  | NFS4ERR_ATTRNOTSUPP
  | NFS4ERR_NO_GRACE
  | NFS4ERR_RECLAIM_BAD
  | NFS4ERR_RECLAIM_CONFLICT
  | NFS4ERR_BADXDR
  | NFS4ERR_LOCKS_HELD
  | NFS4ERR_OPENMODE
  | NFS4ERR_BADOWNER
  | NFS4ERR_BADCHAR
  | NFS4ERR_BADNAME
  | NFS4ERR_BAD_RANGE
  | NFS4ERR_LOCK_NOTSUPP
  | NFS4ERR_OP_ILLEGAL
  | NFS4ERR_DEADLOCK
  | NFS4ERR_FILE_OPEN
  | NFS4ERR_ADMIN_REVOKED
  | NFS4ERR_CB_PATH_DOWN

section \<open>The conversions\<close>

definition ghost2fsal_error :: "ghostfs_error \<Rightarrow> fsal_error" where
  "ghost2fsal_error c =
     (case c of
        ERR_GHOSTFS_NO_ERROR \<Rightarrow> ERR_FSAL_NO_ERROR
      | ERR_GHOSTFS_NOENT \<Rightarrow> ERR_FSAL_NOENT
      | ERR_GHOSTFS_STALE \<Rightarrow> ERR_FSAL_STALE
      | ERR_GHOSTFS_NOTINIT \<Rightarrow> ERR_FSAL_NOT_INIT
      | ERR_GHOSTFS_NOTDIR \<Rightarrow> ERR_FSAL_NOTDIR
      | ERR_GHOSTFS_ISDIR \<Rightarrow> ERR_FSAL_ISDIR
      | ERR_GHOSTFS_EXIST \<Rightarrow> ERR_FSAL_EXIST
      | ERR_GHOSTFS_NOTEMPTY \<Rightarrow> ERR_FSAL_NOTEMPTY
      | ERR_GHOSTFS_ACCES \<Rightarrow> ERR_FSAL_ACCESS
      | ERR_GHOSTFS_NOTLNK \<Rightarrow> ERR_FSAL_INVAL
      | ERR_GHOSTFS_TOOSMALL \<Rightarrow> ERR_FSAL_TOOSMALL
      | ERR_GHOSTFS_MALLOC \<Rightarrow> ERR_FSAL_NOMEM
      | ERR_GHOSTFS_NOTOPENED \<Rightarrow> ERR_FSAL_NOT_OPENED
      | ERR_GHOSTFS_ATTR_NOT_SUPP \<Rightarrow> ERR_FSAL_ATTRNOTSUPP
      | ERR_GHOSTFS_ARGS \<Rightarrow> ERR_FSAL_INVAL
      | ERR_GHOSTFS_CORRUPT \<Rightarrow> ERR_FSAL_SERVERFAULT
      | ERR_GHOSTFS_INTERNAL \<Rightarrow> ERR_FSAL_SERVERFAULT
      | _ \<Rightarrow> ERR_FSAL_SERVERFAULT)"

definition cache_inode_error_convert :: "fsal_error \<Rightarrow> cache_inode_status" where
  "cache_inode_error_convert c =
     (case c of
        ERR_FSAL_NO_ERROR \<Rightarrow> CACHE_INODE_SUCCESS
      | ERR_FSAL_NOENT \<Rightarrow> CACHE_INODE_NOT_FOUND
      | ERR_FSAL_EXIST \<Rightarrow> CACHE_INODE_ENTRY_EXISTS
      | ERR_FSAL_ACCESS \<Rightarrow> CACHE_INODE_FSAL_EACCESS
      | ERR_FSAL_PERM \<Rightarrow> CACHE_INODE_FSAL_EPERM
      | ERR_FSAL_NOSPC \<Rightarrow> CACHE_INODE_NO_SPACE_LEFT
      | ERR_FSAL_NOTEMPTY \<Rightarrow> CACHE_INODE_DIR_NOT_EMPTY
      | ERR_FSAL_ROFS \<Rightarrow> CACHE_INODE_READ_ONLY_FS
      | ERR_FSAL_NOTDIR \<Rightarrow> CACHE_INODE_NOT_A_DIRECTORY
      | ERR_FSAL_IO \<Rightarrow> CACHE_INODE_IO_ERROR
      | ERR_FSAL_STALE \<Rightarrow> CACHE_INODE_FSAL_ESTALE
      | ERR_FSAL_INVAL \<Rightarrow> CACHE_INODE_INVALID_ARGUMENT
      | ERR_FSAL_DQUOT \<Rightarrow> CACHE_INODE_QUOTA_EXCEEDED
      | ERR_FSAL_SEC \<Rightarrow> CACHE_INODE_FSAL_ERR_SEC
      | ERR_FSAL_NOTSUPP \<Rightarrow> CACHE_INODE_NOT_SUPPORTED
      | ERR_FSAL_DELAY \<Rightarrow> CACHE_INODE_FSAL_DELAY
      | _ \<Rightarrow> CACHE_INODE_FSAL_ERROR)"

definition cache_content_error_convert :: "cache_content_status \<Rightarrow> cache_inode_status" where
  "cache_content_error_convert c =
     (case c of
        CACHE_CONTENT_SUCCESS \<Rightarrow> CACHE_INODE_SUCCESS
      | CACHE_CONTENT_INVALID_ARGUMENT \<Rightarrow> CACHE_INODE_INVALID_ARGUMENT
      | CACHE_CONTENT_BAD_CACHE_INODE_ENTRY \<Rightarrow> CACHE_INODE_INVALID_ARGUMENT
      | CACHE_CONTENT_ENTRY_EXISTS \<Rightarrow> CACHE_INODE_ENTRY_EXISTS
      | CACHE_CONTENT_FSAL_ERROR \<Rightarrow> CACHE_INODE_FSAL_ERROR
      | CACHE_CONTENT_LOCAL_CACHE_ERROR \<Rightarrow> CACHE_INODE_CACHE_CONTENT_ERROR
      | CACHE_CONTENT_MALLOC_ERROR \<Rightarrow> CACHE_INODE_MALLOC_ERROR
      | CACHE_CONTENT_LRU_ERROR \<Rightarrow> CACHE_INODE_LRU_ERROR
      | _ \<Rightarrow> CACHE_INODE_INVALID_ARGUMENT)"

definition nfs4_Errno :: "cache_inode_status \<Rightarrow> nfsstat4" where
  "nfs4_Errno c =
     (case c of
        CACHE_INODE_SUCCESS \<Rightarrow> NFS4_OK
      | CACHE_INODE_MALLOC_ERROR \<Rightarrow> NFS4ERR_SERVERFAULT
      | CACHE_INODE_POOL_MUTEX_INIT_ERROR \<Rightarrow> NFS4ERR_SERVERFAULT
      | CACHE_INODE_GET_NEW_LRU_ENTRY \<Rightarrow> NFS4ERR_SERVERFAULT
      | CACHE_INODE_INIT_ENTRY_FAILED \<Rightarrow> NFS4ERR_SERVERFAULT
      | CACHE_INODE_CACHE_CONTENT_EXISTS \<Rightarrow> NFS4ERR_SERVERFAULT
      | CACHE_INODE_CACHE_CONTENT_EMPTY \<Rightarrow> NFS4ERR_SERVERFAULT
      | CACHE_INODE_UNAPPROPRIATED_KEY \<Rightarrow> NFS4ERR_BADHANDLE
      | CACHE_INODE_BAD_TYPE \<Rightarrow> NFS4ERR_INVAL
      | CACHE_INODE_FSAL_ERROR \<Rightarrow> NFS4ERR_PERM
      | CACHE_INODE_INVALID_ARGUMENT \<Rightarrow> NFS4ERR_PERM
      | CACHE_INODE_NOT_A_DIRECTORY \<Rightarrow> NFS4ERR_NOTDIR
      | CACHE_INODE_ENTRY_EXISTS \<Rightarrow> NFS4ERR_EXIST
      | CACHE_INODE_DIR_NOT_EMPTY \<Rightarrow> NFS4ERR_NOTEMPTY
      | CACHE_INODE_NOT_FOUND \<Rightarrow> NFS4ERR_NOENT
      | CACHE_INODE_INSERT_ERROR \<Rightarrow> NFS4ERR_IO
      | CACHE_INODE_LRU_ERROR \<Rightarrow> NFS4ERR_IO
      | CACHE_INODE_HASH_SET_ERROR \<Rightarrow> NFS4ERR_IO
      | CACHE_INODE_FSAL_EACCESS \<Rightarrow> NFS4ERR_ACCESS
      | CACHE_INODE_FSAL_EPERM \<Rightarrow> NFS4ERR_PERM
      | CACHE_INODE_NO_SPACE_LEFT \<Rightarrow> NFS4ERR_NOSPC
      | CACHE_INODE_IS_A_DIRECTORY \<Rightarrow> NFS4ERR_ISDIR
      | CACHE_INODE_READ_ONLY_FS \<Rightarrow> NFS4ERR_ROFS
      | CACHE_INODE_IO_ERROR \<Rightarrow> NFS4ERR_IO
      | CACHE_INODE_DEAD_ENTRY \<Rightarrow> NFS4ERR_STALE
      | CACHE_INODE_FSAL_ESTALE \<Rightarrow> NFS4ERR_STALE
      | CACHE_INODE_STATE_CONFLICT \<Rightarrow> NFS4ERR_PERM
      | CACHE_INODE_QUOTA_EXCEEDED \<Rightarrow> NFS4ERR_DQUOT
      | CACHE_INODE_NOT_SUPPORTED \<Rightarrow> NFS4ERR_NOTSUPP
      | CACHE_INODE_FSAL_DELAY \<Rightarrow> NFS4ERR_DELAY
      | _ \<Rightarrow> NFS4ERR_INVAL)"

definition nfs3_Errno :: "cache_inode_status \<Rightarrow> nfsstat3" where
  "nfs3_Errno c =
     (case c of
        CACHE_INODE_SUCCESS \<Rightarrow> NFS3_OK
      | CACHE_INODE_MALLOC_ERROR \<Rightarrow> NFS3ERR_IO
      | CACHE_INODE_POOL_MUTEX_INIT_ERROR \<Rightarrow> NFS3ERR_IO
      | CACHE_INODE_GET_NEW_LRU_ENTRY \<Rightarrow> NFS3ERR_IO
      | CACHE_INODE_UNAPPROPRIATED_KEY \<Rightarrow> NFS3ERR_IO
      | CACHE_INODE_INIT_ENTRY_FAILED \<Rightarrow> NFS3ERR_IO
      | CACHE_INODE_CACHE_CONTENT_EXISTS \<Rightarrow> NFS3ERR_IO
      | CACHE_INODE_CACHE_CONTENT_EMPTY \<Rightarrow> NFS3ERR_IO
      | CACHE_INODE_INSERT_ERROR \<Rightarrow> NFS3ERR_IO
      | CACHE_INODE_LRU_ERROR \<Rightarrow> NFS3ERR_IO
      | CACHE_INODE_HASH_SET_ERROR \<Rightarrow> NFS3ERR_IO
      | CACHE_INODE_INVALID_ARGUMENT \<Rightarrow> NFS3ERR_INVAL
      | CACHE_INODE_FSAL_ERROR \<Rightarrow> NFS3ERR_IO
      | CACHE_INODE_CACHE_CONTENT_ERROR \<Rightarrow> NFS3ERR_IO
      | CACHE_INODE_NOT_A_DIRECTORY \<Rightarrow> NFS3ERR_NOTDIR
      | CACHE_INODE_ENTRY_EXISTS \<Rightarrow> NFS3ERR_EXIST
      | CACHE_INODE_DIR_NOT_EMPTY \<Rightarrow> NFS3ERR_NOTEMPTY
      | CACHE_INODE_NOT_FOUND \<Rightarrow> NFS3ERR_NOENT
      | CACHE_INODE_FSAL_EACCESS \<Rightarrow> NFS3ERR_ACCES
      | CACHE_INODE_FSAL_EPERM \<Rightarrow> NFS3ERR_PERM
      | CACHE_INODE_FSAL_ERR_SEC \<Rightarrow> NFS3ERR_PERM
      | CACHE_INODE_NO_SPACE_LEFT \<Rightarrow> NFS3ERR_NOSPC
      | CACHE_INODE_IS_A_DIRECTORY \<Rightarrow> NFS3ERR_ISDIR
      | CACHE_INODE_READ_ONLY_FS \<Rightarrow> NFS3ERR_ROFS
      | CACHE_INODE_DEAD_ENTRY \<Rightarrow> NFS3ERR_STALE
      | CACHE_INODE_FSAL_ESTALE \<Rightarrow> NFS3ERR_STALE
      | CACHE_INODE_QUOTA_EXCEEDED \<Rightarrow> NFS3ERR_DQUOT
      | CACHE_INODE_BAD_TYPE \<Rightarrow> NFS3ERR_BADTYPE
      | CACHE_INODE_NOT_SUPPORTED \<Rightarrow> NFS3ERR_NOTSUPP
      | CACHE_INODE_FSAL_DELAY \<Rightarrow> NFS3ERR_JUKEBOX
      | CACHE_INODE_IO_ERROR \<Rightarrow> NFS3ERR_IO
      | _ \<Rightarrow> NFS3ERR_INVAL)"

definition nfs2_Errno :: "cache_inode_status \<Rightarrow> nfsstat2" where
  "nfs2_Errno c =
     (case c of
        CACHE_INODE_SUCCESS \<Rightarrow> NFS_OK
      | CACHE_INODE_MALLOC_ERROR \<Rightarrow> NFSERR_IO
      | CACHE_INODE_POOL_MUTEX_INIT_ERROR \<Rightarrow> NFSERR_IO
      | CACHE_INODE_GET_NEW_LRU_ENTRY \<Rightarrow> NFSERR_IO
      | CACHE_INODE_UNAPPROPRIATED_KEY \<Rightarrow> NFSERR_IO
      | CACHE_INODE_INIT_ENTRY_FAILED \<Rightarrow> NFSERR_IO
      | CACHE_INODE_BAD_TYPE \<Rightarrow> NFSERR_IO
      | CACHE_INODE_CACHE_CONTENT_EXISTS \<Rightarrow> NFSERR_IO
      | CACHE_INODE_CACHE_CONTENT_EMPTY \<Rightarrow> NFSERR_IO
      | CACHE_INODE_INSERT_ERROR \<Rightarrow> NFSERR_IO
      | CACHE_INODE_LRU_ERROR \<Rightarrow> NFSERR_IO
      | CACHE_INODE_HASH_SET_ERROR \<Rightarrow> NFSERR_IO
      | CACHE_INODE_INVALID_ARGUMENT \<Rightarrow> NFSERR_IO
      | CACHE_INODE_NOT_A_DIRECTORY \<Rightarrow> NFSERR_NOTDIR
      | CACHE_INODE_ENTRY_EXISTS \<Rightarrow> NFSERR_EXIST
      | CACHE_INODE_FSAL_ERROR \<Rightarrow> NFSERR_IO
      | CACHE_INODE_DIR_NOT_EMPTY \<Rightarrow> NFSERR_NOTEMPTY
      | CACHE_INODE_NOT_FOUND \<Rightarrow> NFSERR_NOENT
      | CACHE_INODE_FSAL_EACCESS \<Rightarrow> NFSERR_ACCES
      | CACHE_INODE_NO_SPACE_LEFT \<Rightarrow> NFSERR_NOSPC
      | CACHE_INODE_FSAL_EPERM \<Rightarrow> NFSERR_PERM
      | CACHE_INODE_IS_A_DIRECTORY \<Rightarrow> NFSERR_ISDIR
      | CACHE_INODE_READ_ONLY_FS \<Rightarrow> NFSERR_ROFS
      | CACHE_INODE_DEAD_ENTRY \<Rightarrow> NFSERR_STALE
      | CACHE_INODE_FSAL_ESTALE \<Rightarrow> NFSERR_STALE
      | CACHE_INODE_QUOTA_EXCEEDED \<Rightarrow> NFSERR_DQUOT
      | CACHE_INODE_IO_ERROR \<Rightarrow> NFSERR_IO
      | _ \<Rightarrow> NFSERR_IO)"

section \<open>Names\<close>

definition nfsstat2_to_str :: "nfsstat2 \<Rightarrow> string" where
  "nfsstat2_to_str c =
     (case c of
        NFS_OK \<Rightarrow> ''NFS_OK''
      | NFSERR_PERM \<Rightarrow> ''NFSERR_PERM''
      | NFSERR_NOENT \<Rightarrow> ''NFSERR_NOENT''
      | NFSERR_IO \<Rightarrow> ''NFSERR_IO''
      | NFSERR_NXIO \<Rightarrow> ''NFSERR_NXIO''
      | NFSERR_ACCES \<Rightarrow> ''NFSERR_ACCES''
      | NFSERR_EXIST \<Rightarrow> ''NFSERR_EXIST''
      | NFSERR_NODEV \<Rightarrow> ''NFSERR_NODEV''
      | NFSERR_NOTDIR \<Rightarrow> ''NFSERR_NOTDIR''
      | NFSERR_ISDIR \<Rightarrow> ''NFSERR_ISDIR''
      | NFSERR_FBIG \<Rightarrow> ''NFSERR_FBIG''
      | NFSERR_NOSPC \<Rightarrow> ''NFSERR_NOSPC''
      | NFSERR_ROFS \<Rightarrow> ''NFSERR_ROFS''
      | NFSERR_NAMETOOLONG \<Rightarrow> ''NFSERR_NAMETOOLONG''
      | NFSERR_NOTEMPTY \<Rightarrow> ''NFSERR_NOTEMPTY''
      | NFSERR_DQUOT \<Rightarrow> ''NFSERR_DQUOT''
      | NFSERR_STALE \<Rightarrow> ''NFSERR_STALE''
      | NFSERR_WFLUSH \<Rightarrow> ''NFSERR_WFLUSH'')"

definition nfsstat3_to_str :: "nfsstat3 \<Rightarrow> string" where
  "nfsstat3_to_str c =
     (case c of
        NFS3_OK \<Rightarrow> ''NFS3_OK''
      | NFS3ERR_PERM \<Rightarrow> ''NFS3ERR_PERM''
      | NFS3ERR_NOENT \<Rightarrow> ''NFS3ERR_NOENT''
      | NFS3ERR_IO \<Rightarrow> ''NFS3ERR_IO''
      | NFS3ERR_NXIO \<Rightarrow> ''NFS3ERR_NXIO''
      | NFS3ERR_ACCES \<Rightarrow> ''NFS3ERR_ACCES''
      | NFS3ERR_EXIST \<Rightarrow> ''NFS3ERR_EXIST''
      | NFS3ERR_XDEV \<Rightarrow> ''NFS3ERR_XDEV''
      | NFS3ERR_NODEV \<Rightarrow> ''NFS3ERR_NODEV''
      | NFS3ERR_NOTDIR \<Rightarrow> ''NFS3ERR_NOTDIR''
      | NFS3ERR_ISDIR \<Rightarrow> ''NFS3ERR_ISDIR''
      | NFS3ERR_INVAL \<Rightarrow> ''NFS3ERR_INVAL''
      | NFS3ERR_FBIG \<Rightarrow> ''NFS3ERR_FBIG''
      | NFS3ERR_NOSPC \<Rightarrow> ''NFS3ERR_NOSPC''
      | NFS3ERR_ROFS \<Rightarrow> ''NFS3ERR_ROFS''
      | NFS3ERR_MLINK \<Rightarrow> ''NFS3ERR_MLINK''
      | NFS3ERR_NAMETOOLONG \<Rightarrow> ''NFS3ERR_NAMETOOLONG''
      | NFS3ERR_NOTEMPTY \<Rightarrow> ''NFS3ERR_NOTEMPTY''
      | NFS3ERR_DQUOT \<Rightarrow> ''NFS3ERR_DQUOT''
      | NFS3ERR_STALE \<Rightarrow> ''NFS3ERR_STALE''
      | NFS3ERR_REMOTE \<Rightarrow> ''NFS3ERR_REMOTE''
      | NFS3ERR_BADHANDLE \<Rightarrow> ''NFS3ERR_BADHANDLE''
      | NFS3ERR_NOT_SYNC \<Rightarrow> ''NFS3ERR_NOT_SYNC''
      | NFS3ERR_BAD_COOKIE \<Rightarrow> ''NFS3ERR_BAD_COOKIE''
      | NFS3ERR_NOTSUPP \<Rightarrow> ''NFS3ERR_NOTSUPP''
      | NFS3ERR_TOOSMALL \<Rightarrow> ''NFS3ERR_TOOSMALL''
      | NFS3ERR_SERVERFAULT \<Rightarrow> ''NFS3ERR_SERVERFAULT''
      | NFS3ERR_BADTYPE \<Rightarrow> ''NFS3ERR_BADTYPE''
      | NFS3ERR_JUKEBOX \<Rightarrow> ''NFS3ERR_JUKEBOX'')"

section \<open>Dropping or answering\<close>

text \<open>The two fields of \<^verbatim>\<open>nfs_param.core_param\<close> that \<^verbatim>\<open>nfs_RetryableError\<close> reads.\<close>

record core_param =
  drop_io_errors :: bool
  drop_inval_errors :: bool

definition nfs_RetryableError :: "core_param \<Rightarrow> cache_inode_status \<Rightarrow> bool" where
  "nfs_RetryableError p cache_status =
     (case cache_status of
        CACHE_INODE_IO_ERROR \<Rightarrow> if drop_io_errors p then True else False
      | CACHE_INODE_INVALID_ARGUMENT \<Rightarrow> if drop_inval_errors p then True else False
      | CACHE_INODE_SUCCESS \<Rightarrow> False
      | CACHE_INODE_MALLOC_ERROR \<Rightarrow> True
      | CACHE_INODE_POOL_MUTEX_INIT_ERROR \<Rightarrow> True
      | CACHE_INODE_GET_NEW_LRU_ENTRY \<Rightarrow> True
      | CACHE_INODE_UNAPPROPRIATED_KEY \<Rightarrow> True
      | CACHE_INODE_INIT_ENTRY_FAILED \<Rightarrow> True
      | CACHE_INODE_FSAL_ERROR \<Rightarrow> True
      | CACHE_INODE_LRU_ERROR \<Rightarrow> True
      | CACHE_INODE_HASH_SET_ERROR \<Rightarrow> True
      | CACHE_INODE_INCONSISTENT_ENTRY \<Rightarrow> True
      | CACHE_INODE_HASH_TABLE_ERROR \<Rightarrow> True
      | CACHE_INODE_INSERT_ERROR \<Rightarrow> True
      | CACHE_INODE_FSAL_DELAY \<Rightarrow> True
      | CACHE_INODE_NOT_A_DIRECTORY \<Rightarrow> False
      | CACHE_INODE_BAD_TYPE \<Rightarrow> False
      | CACHE_INODE_ENTRY_EXISTS \<Rightarrow> False
      | CACHE_INODE_DIR_NOT_EMPTY \<Rightarrow> False
      | CACHE_INODE_NOT_FOUND \<Rightarrow> False
      | CACHE_INODE_FSAL_EACCESS \<Rightarrow> False
      | CACHE_INODE_IS_A_DIRECTORY \<Rightarrow> False
      | CACHE_INODE_FSAL_EPERM \<Rightarrow> False
      | CACHE_INODE_NO_SPACE_LEFT \<Rightarrow> False
      | CACHE_INODE_CACHE_CONTENT_ERROR \<Rightarrow> False
      | CACHE_INODE_CACHE_CONTENT_EXISTS \<Rightarrow> False
      | CACHE_INODE_CACHE_CONTENT_EMPTY \<Rightarrow> False
      | CACHE_INODE_READ_ONLY_FS \<Rightarrow> False
      | CACHE_INODE_FSAL_ESTALE \<Rightarrow> False
      | CACHE_INODE_FSAL_ERR_SEC \<Rightarrow> False
      | CACHE_INODE_QUOTA_EXCEEDED \<Rightarrow> False
      | CACHE_INODE_NOT_SUPPORTED \<Rightarrow> False
      | _ \<Rightarrow> False)"

definition fsal_is_retryable :: "fsal_error \<Rightarrow> bool" where
  "fsal_is_retryable major = (case major of ERR_FSAL_DELAY \<Rightarrow> True | _ \<Rightarrow> False)"

section \<open>File types\<close>

datatype fsal_nodetype =
    FSAL_TYPE_FIFO
  | FSAL_TYPE_CHR
  | FSAL_TYPE_DIR
  | FSAL_TYPE_BLK
  | FSAL_TYPE_FILE
  | FSAL_TYPE_LNK
  | FSAL_TYPE_SOCK
  | FSAL_TYPE_XATTR
  | FSAL_TYPE_JUNCTION

datatype cache_inode_file_type =
    UNASSIGNED
  | REGULAR_FILE
  | CHARACTER_FILE
  | BLOCK_FILE
  | SYMBOLIC_LINK
  | SOCKET_FILE
  | FIFO_FILE
  | DIR_BEGINNING
  | DIR_CONTINUE
  | FS_JUNCTION
  | RECYCLED

definition cache_inode_fsal_type_convert :: "fsal_nodetype \<Rightarrow> cache_inode_file_type" where
  "cache_inode_fsal_type_convert c =
     (case c of
        FSAL_TYPE_DIR \<Rightarrow> DIR_BEGINNING
      | FSAL_TYPE_FILE \<Rightarrow> REGULAR_FILE
      | FSAL_TYPE_LNK \<Rightarrow> SYMBOLIC_LINK
      | FSAL_TYPE_BLK \<Rightarrow> BLOCK_FILE
      | FSAL_TYPE_FIFO \<Rightarrow> FIFO_FILE
      | FSAL_TYPE_CHR \<Rightarrow> CHARACTER_FILE
      | FSAL_TYPE_SOCK \<Rightarrow> SOCKET_FILE
      | _ \<Rightarrow> UNASSIGNED)"

lemmas errno_defs = nfs2_Errno_def nfs3_Errno_def nfs4_Errno_def cache_inode_error_convert_def
  cache_content_error_convert_def ghost2fsal_error_def

section \<open>Properties\<close>

lemma nfs4_Errno_OK: "nfs4_Errno s = NFS4_OK \<longleftrightarrow> s = CACHE_INODE_SUCCESS"
  by (cases s) (simp_all add: nfs4_Errno_def)

lemma nfs3_Errno_OK: "nfs3_Errno s = NFS3_OK \<longleftrightarrow> s = CACHE_INODE_SUCCESS"
  by (cases s) (simp_all add: nfs3_Errno_def)

lemma nfs2_Errno_OK: "nfs2_Errno s = NFS_OK \<longleftrightarrow> s = CACHE_INODE_SUCCESS"
  by (cases s) (simp_all add: nfs2_Errno_def)

lemma cache_inode_error_convert_SUCCESS:
  "cache_inode_error_convert e = CACHE_INODE_SUCCESS \<longleftrightarrow> e = ERR_FSAL_NO_ERROR"
  by (cases e) (simp_all add: cache_inode_error_convert_def)

lemma ghost2fsal_error_NO_ERROR: "ghost2fsal_error g = ERR_FSAL_NO_ERROR \<longleftrightarrow> g = ERR_GHOSTFS_NO_ERROR"
  by (cases g) (simp_all add: ghost2fsal_error_def)

text \<open>
  C30. No layer turns an error into a success or a success into an error: the status that an NFSv2,
  NFSv3 or NFSv4 client receives for a result of the file system layer is OK exactly when that result
  was no error.
\<close>

theorem errors_reach_the_client:
  "(nfs2_Errno (cache_inode_error_convert e) = NFS_OK \<longleftrightarrow> e = ERR_FSAL_NO_ERROR) \<and>
   (nfs3_Errno (cache_inode_error_convert e) = NFS3_OK \<longleftrightarrow> e = ERR_FSAL_NO_ERROR) \<and>
   (nfs4_Errno (cache_inode_error_convert e) = NFS4_OK \<longleftrightarrow> e = ERR_FSAL_NO_ERROR) \<and>
   (nfs3_Errno (cache_inode_error_convert (ghost2fsal_error g)) = NFS3_OK \<longleftrightarrow> g = ERR_GHOSTFS_NO_ERROR)"
  by (simp add: nfs2_Errno_OK nfs3_Errno_OK nfs4_Errno_OK cache_inode_error_convert_SUCCESS
      ghost2fsal_error_NO_ERROR)

text \<open>
  A request whose file system call failed with a permanent error such as a name that is too long
  is dropped instead of answered, whatever the configuration: the error has no cache status of its own,
  becomes \<open>CACHE_INODE_FSAL_ERROR\<close>, and \<^verbatim>\<open>nfs_RetryableError\<close> takes that for an internal error to be
  retried, although \<^verbatim>\<open>fsal_is_retryable\<close> says that only \<open>ERR_FSAL_DELAY\<close> can be retried.
\<close>

theorem permanent_errors_dropped:
  assumes "e \<in> {ERR_FSAL_NAMETOOLONG, ERR_FSAL_ISDIR, ERR_FSAL_XDEV, ERR_FSAL_FBIG, ERR_FSAL_MLINK,
                ERR_FSAL_BADCOOKIE, ERR_FSAL_TOOSMALL, ERR_FSAL_BADTYPE, ERR_FSAL_ATTRNOTSUPP}"
  shows "nfs_RetryableError p (cache_inode_error_convert e) \<and> \<not> fsal_is_retryable e"
  using assms by (auto simp: nfs_RetryableError_def cache_inode_error_convert_def fsal_is_retryable_def)

theorem permanent_errors_dropped_witness:
  "nfs_RetryableError \<lparr>drop_io_errors = False, drop_inval_errors = False\<rparr>
     (cache_inode_error_convert ERR_FSAL_NAMETOOLONG) \<and> \<not> fsal_is_retryable ERR_FSAL_NAMETOOLONG"
  by (rule permanent_errors_dropped) simp

text \<open>
  A status that \<^verbatim>\<open>nfs_RetryableError\<close> lets drop is never \<open>CACHE_INODE_SUCCESS\<close>, and every status
  that says the name, the type or the rights of an entry are wrong is answered to the client.
\<close>

lemma retryable_only_internal:
  "\<not> nfs_RetryableError p CACHE_INODE_SUCCESS \<and>
   (\<forall>s \<in> {CACHE_INODE_NOT_A_DIRECTORY, CACHE_INODE_ENTRY_EXISTS, CACHE_INODE_DIR_NOT_EMPTY,
          CACHE_INODE_NOT_FOUND, CACHE_INODE_FSAL_EACCESS, CACHE_INODE_IS_A_DIRECTORY,
          CACHE_INODE_FSAL_EPERM, CACHE_INODE_NO_SPACE_LEFT, CACHE_INODE_READ_ONLY_FS,
          CACHE_INODE_FSAL_ESTALE, CACHE_INODE_QUOTA_EXCEEDED, CACHE_INODE_DEAD_ENTRY}.
      \<not> nfs_RetryableError p s \<and> nfs3_Errno s \<notin> {NFS3_OK, NFS3ERR_IO, NFS3ERR_JUKEBOX})"
  by (simp add: nfs_RetryableError_def nfs3_Errno_def)


end
