(* ===== verification/NFS_Convert.thy ===== *)
theory NFS_Convert
  imports Prelude
begin

text \<open>
  Conversions at the bit level: 64-bit byte order (\<^verbatim>\<open>support/nfs_convert.c\<close>), NFSv4 attribute bitmaps
  and sequence numbers (\<^verbatim>\<open>NFS_Protocols/nfs_proto_tools.c\<close>), access modes
  (\<^verbatim>\<open>FSAL_GHOST_FS/fsal_convertions.c\<close>) and the names of authentication errors.

  The byte order functions are those of a little-endian build (\<^verbatim>\<open>LITTLEEND\<close>).
\<close>

unbundle bit_operations_syntax

section \<open>Byte order\<close>

text \<open>\<^verbatim>\<open>htonl\<close> and \<^verbatim>\<open>ntohl\<close> of the C library on a little-endian machine reverse the four bytes.\<close>

definition htonl :: "u32 \<Rightarrow> u32" where
  "htonl x = push_bit 24 (x AND 0xFF) OR push_bit 8 (x AND 0xFF00) OR
             drop_bit 8 (x AND 0xFF0000) OR drop_bit 24 (x AND 0xFF000000)"

definition nfs_htonl64 :: "u64 \<Rightarrow> u64" where
  "nfs_htonl64 arg64 =
     (let low = ucast (arg64 AND 0x00000000FFFFFFFF) :: u32;
          high = ucast (drop_bit 32 (arg64 AND 0xFFFFFFFF00000000)) :: u32;
          low = htonl low;
          high = htonl high
      in ucast high + push_bit 32 (ucast low))"

definition nfs_ntohl64 :: "u64 \<Rightarrow> u64" where
  "nfs_ntohl64 arg64 =
     (let low = ucast (arg64 AND 0x00000000FFFFFFFF) :: u32;
          high = ucast (drop_bit 32 (arg64 AND 0xFFFFFFFF00000000)) :: u32;
          low = htonl low;
          high = htonl high
      in ucast high + push_bit 32 (ucast low))"

lemma byte_masks:
  "(0xFF :: u32) = mask 8" "(0xFF00 :: u32) = push_bit 8 (mask 8)"
  "(0xFF0000 :: u32) = push_bit 16 (mask 8)" "(0xFF000000 :: u32) = push_bit 24 (mask 8)"
  by (simp_all add: mask_eq_exp_minus_1 push_bit_eq_mult)

lemma bit_htonl:
  "bit (htonl x) n \<longleftrightarrow>
   n < 32 \<and> bit x (if n < 8 then n + 24 else if n < 16 then n + 8 else if n < 24 then n - 8 else n - 24)"
proof -
  consider "n < 8" | "8 \<le> n" "n < 16" | "16 \<le> n" "n < 24" | "24 \<le> n" "n < 32" | "32 \<le> n" by linarith
  then show ?thesis
    by cases (auto simp: htonl_def byte_masks bit_simps less_diff_conv2 add.commute)
qed

lemma htonl_htonl: "htonl (htonl x) = x"
proof (rule bit_word_eqI)
  fix n assume "n < LENGTH(32)"
  then consider "n < 8" | "8 \<le> n" "n < 16" | "16 \<le> n" "n < 24" | "24 \<le> n" "n < 32" by fastforce
  then show "bit (htonl (htonl x)) n \<longleftrightarrow> bit x n"
    by cases (auto simp: bit_htonl less_diff_conv2)
qed

text \<open>The two halves of a 64-bit word.\<close>

definition join32 :: "u32 \<Rightarrow> u32 \<Rightarrow> u64" where
  "join32 l h = ucast l + push_bit 32 (ucast h)"

lemma half_masks:
  "(0x00000000FFFFFFFF :: u64) = mask 32" "(0xFFFFFFFF00000000 :: u64) = push_bit 32 (mask 32)"
  by (simp_all add: mask_eq_exp_minus_1 push_bit_eq_mult)

lemma bit_join32: "bit (join32 l h) n \<longleftrightarrow> (if n < 32 then bit l n else n < 64 \<and> bit h (n - 32))"
proof -
  have "join32 l h = ucast l OR push_bit 32 (ucast h)"
    unfolding join32_def by (rule disjunctive_add) (auto simp: bit_simps dest!: bit_imp_le_length)
  then show ?thesis by (auto simp: bit_simps dest: bit_imp_le_length)
qed

lemma low_join32: "ucast (join32 l h AND 0x00000000FFFFFFFF) = l"
  by (rule bit_word_eqI) (simp add: half_masks bit_simps bit_join32)

lemma high_join32: "ucast (drop_bit 32 (join32 l h AND 0xFFFFFFFF00000000)) = h"
  by (rule bit_word_eqI) (auto simp: half_masks bit_simps bit_join32)

lemma join32_halves:
  "join32 (ucast (x AND 0x00000000FFFFFFFF)) (ucast (drop_bit 32 (x AND 0xFFFFFFFF00000000))) = x"
  by (rule bit_word_eqI) (auto simp: half_masks bit_simps bit_join32)

text \<open>
  On a little-endian machine \<^verbatim>\<open>nfs_ntohl64\<close> undoes \<^verbatim>\<open>nfs_htonl64\<close>, and the byte \<open>k\<close> of the result
  of \<^verbatim>\<open>nfs_htonl64\<close> is the byte \<open>7 - k\<close> of its argument: the result in memory is big-endian.
\<close>

lemma htonl64_big_endian:
  "nfs_ntohl64 (nfs_htonl64 x) = x \<and>
   (k < 8 \<longrightarrow> (ucast (drop_bit (8 * k) (nfs_htonl64 x)) :: u8) = ucast (drop_bit (8 * (7 - k)) x))"
proof -
  let ?l = "ucast (x AND 0x00000000FFFFFFFF) :: u32"
  let ?h = "ucast (drop_bit 32 (x AND 0xFFFFFFFF00000000)) :: u32"
  have h: "nfs_htonl64 x = join32 (htonl ?h) (htonl ?l)"
    by (simp add: nfs_htonl64_def join32_def Let_def)
  have "nfs_ntohl64 (nfs_htonl64 x) = join32 ?l ?h"
    unfolding h nfs_ntohl64_def Let_def low_join32 high_join32 htonl_htonl by (simp add: join32_def)
  also have "\<dots> = x" by (rule join32_halves)
  finally have "nfs_ntohl64 (nfs_htonl64 x) = x" .
  moreover have "(ucast (drop_bit (8 * k) (nfs_htonl64 x)) :: u8) = ucast (drop_bit (8 * (7 - k)) x)" if "k < 8"
  proof (rule bit_word_eqI)
    fix n assume n: "n < LENGTH(8)"
    from that consider "k = 0" | "k = 1" | "k = 2" | "k = 3" | "k = 4" | "k = 5" | "k = 6" | "k = 7"
      by linarith
    then show "bit (ucast (drop_bit (8 * k) (nfs_htonl64 x)) :: u8) n \<longleftrightarrow>
        bit (ucast (drop_bit (8 * (7 - k)) x) :: u8) n"
      using n by cases (simp_all add: h bit_simps bit_join32 bit_htonl half_masks add.commute)
  qed
  ultimately show ?thesis by blast
qed


section \<open>NFSv4 bitmaps and sequence numbers\<close>

record bitmap4 =
  bitmap4_len :: nat
  bitmap4_val :: "u32 list"

text \<open>The two loops of \<^verbatim>\<open>nfs4_bitmap4_to_list\<close>, with the numbers written to \<open>pval\<close> as a list.\<close>

definition bits_of_word :: "nat \<Rightarrow> u32 \<Rightarrow> nat list" where
  "bits_of_word offset w = map (\<lambda>i. i + 32 * offset) (filter (\<lambda>i. w AND push_bit i 1 \<noteq> 0) [0..<32])"

definition nfs4_bitmap4_to_list :: "bitmap4 \<Rightarrow> nat list option" where
  "nfs4_bitmap4_to_list b =
     (if length (bitmap4_val b) < bitmap4_len b then None
      else Some (concat (map (\<lambda>offset. bits_of_word offset (bitmap4_val b ! offset)) [0..<bitmap4_len b])))"

text \<open>
  The loop of \<^verbatim>\<open>nfs4_list_to_bitmap4\<close>; its two words are allocated by the caller, and a number of 64
  or more writes outside them.
\<close>

fun set_bits_loop :: "nat list \<Rightarrow> bitmap4 \<Rightarrow> bitmap4 option" where
  "set_bits_loop [] b = Some b"
| "set_bits_loop (v # pval) b =
     (let intpos = v div 32; bitpos = v mod 32; val = push_bit bitpos 1 in
      if intpos < length (bitmap4_val b) then
        set_bits_loop pval
          (let b = b\<lparr>bitmap4_val := (bitmap4_val b)[intpos := bitmap4_val b ! intpos OR val]\<rparr> in
           if intpos \<noteq> 0 then b\<lparr>bitmap4_len := 2\<rparr> else b)
      else None)"

definition nfs4_list_to_bitmap4 :: "nat list \<Rightarrow> bitmap4 option" where
  "nfs4_list_to_bitmap4 pval = set_bits_loop pval \<lparr>bitmap4_len = 1, bitmap4_val = [0, 0]\<rparr>"

definition nfs4_NextSeqId :: "u32 \<Rightarrow> u32" where
  "nfs4_NextSeqId seqid = (seqid + 1) mod 0xFFFFFFFF"

text \<open>What the loop has set.\<close>

definition holds_bits :: "bitmap4 \<Rightarrow> nat set \<Rightarrow> bool" where
  "holds_bits b S \<longleftrightarrow>
     length (bitmap4_val b) = 2 \<and>
     (\<forall>n < 64. bit (bitmap4_val b ! (n div 32)) (n mod 32) \<longleftrightarrow> n \<in> S) \<and>
     bitmap4_len b = (if \<exists>n \<in> S. 32 \<le> n then 2 else 1)"

lemma set_bits_loop_holds:
  assumes "holds_bits b S" and "\<forall>v \<in> set vs. v < 64"
  shows "\<exists>b'. set_bits_loop vs b = Some b' \<and> holds_bits b' (S \<union> set vs)"
  using assms
proof (induction vs arbitrary: b S)
  case Nil
  then show ?case by simp
next
  case (Cons v vs)
  let ?i = "v div 32"
  let ?b = "b\<lparr>bitmap4_val := (bitmap4_val b)[?i := bitmap4_val b ! ?i OR push_bit (v mod 32) 1]\<rparr>"
  let ?b' = "if ?i \<noteq> 0 then ?b\<lparr>bitmap4_len := 2\<rparr> else ?b"
  have v: "v < 64" and i: "?i < 2" using Cons.prems(2) by auto
  have len: "length (bitmap4_val b) = 2" using Cons.prems(1) by (simp add: holds_bits_def)
  have bits: "bit (bitmap4_val ?b' ! (n div 32)) (n mod 32) \<longleftrightarrow> n \<in> insert v S" if "n < 64" for n
  proof -
    have "bit (bitmap4_val ?b' ! (n div 32)) (n mod 32) \<longleftrightarrow>
        bit (bitmap4_val b ! (n div 32)) (n mod 32) \<or> (n div 32 = ?i \<and> n mod 32 = v mod 32)"
      using len i that by (auto simp: nth_list_update bit_simps)
    moreover have "n div 32 = ?i \<and> n mod 32 = v mod 32 \<longleftrightarrow> n = v"
      by (metis div_mult_mod_eq)
    ultimately show ?thesis using Cons.prems(1) that by (auto simp: holds_bits_def)
  qed
  have "?i \<noteq> 0 \<longleftrightarrow> 32 \<le> v" by (simp add: div_eq_0_iff not_less)
  then have "bitmap4_len ?b' = (if \<exists>n \<in> insert v S. 32 \<le> n then 2 else 1)"
    using Cons.prems(1) by (auto simp: holds_bits_def)
  with bits len have "holds_bits ?b' (insert v S)" by (simp add: holds_bits_def)
  from Cons.IH [OF this] Cons.prems(2)
  have "\<exists>b'. set_bits_loop vs ?b' = Some b' \<and> holds_bits b' (S \<union> set (v # vs))" by simp
  moreover have "set_bits_loop (v # vs) b = set_bits_loop vs ?b'"
    by (simp only: set_bits_loop.simps Let_def len i if_True)
  ultimately show ?case by (simp only:)
qed

lemma and_bit_neq_0: "(w :: u32) AND push_bit i 1 \<noteq> 0 \<longleftrightarrow> bit w i"
  by (metis and_exp_eq_0_iff_not_bit push_bit_of_1)

lemma bits_of_word_eq:
  "map (\<lambda>i. i + 32 * k) (filter (\<lambda>i. P (i + 32 * k)) [0..<32]) = filter P [32 * k..<32 * k + 32]"
proof -
  have "[32 * k..<32 * k + 32] = map (\<lambda>i. i + 32 * k) [0..<32]"
    by (simp add: map_add_upt add.commute)
  then show ?thesis by (simp add: filter_map comp_def)
qed

lemma holds_bits_to_list:
  assumes "holds_bits b S" and "S \<subseteq> {..<64}"
  shows "nfs4_bitmap4_to_list b = Some (filter (\<lambda>n. n \<in> S) [0..<64])"
proof -
  have w: "bits_of_word k (bitmap4_val b ! k) = filter (\<lambda>n. n \<in> S) [32 * k..<32 * k + 32]" if "k < 2" for k
  proof -
    have x: "bit (bitmap4_val b ! k) x \<longleftrightarrow> x + 32 * k \<in> S" if "x < 32" for x
    proof -
      have "x + 32 * k < 64" "(x + 32 * k) div 32 = k" "(x + 32 * k) mod 32 = x"
        using that \<open>k < 2\<close> by auto
      with assms(1) show ?thesis unfolding holds_bits_def by metis
    qed
    have "bits_of_word k (bitmap4_val b ! k) =
        map (\<lambda>i. i + 32 * k) (filter (\<lambda>i. i + 32 * k \<in> S) [0..<32])"
      unfolding bits_of_word_def and_bit_neq_0
      by (rule arg_cong [where f = "map _"], rule filter_cong [OF refl])
        (simp add: x)
    then show ?thesis using bits_of_word_eq [of k "\<lambda>n. n \<in> S"] by simp
  qed
  have split: "filter (\<lambda>n. n \<in> S) [0..<64] =
      filter (\<lambda>n. n \<in> S) [0..<32] @ filter (\<lambda>n. n \<in> S) [32..<64]"
    using upt_add_eq_append [of 0 32 32] by (simp del: upt_rec_numeral)
  show ?thesis
  proof (cases "\<exists>n \<in> S. 32 \<le> n")
    case True
    with assms(1) have "bitmap4_len b = 2" "length (bitmap4_val b) = 2" by (auto simp: holds_bits_def)
    then show ?thesis using w [of 0] w [of 1] split
      by (simp add: nfs4_bitmap4_to_list_def numeral_2_eq_2)
  next
    case False
    then have "filter (\<lambda>n. n \<in> S) [32..<64] = []" by (auto simp: filter_empty_conv)
    moreover from False assms(1) have "bitmap4_len b = 1" "length (bitmap4_val b) = 2"
      by (auto simp: holds_bits_def)
    ultimately show ?thesis using w [of 0] split by (simp add: nfs4_bitmap4_to_list_def)
  qed
qed

text \<open>
  C31. \<^verbatim>\<open>nfs4_list_to_bitmap4\<close> followed by \<^verbatim>\<open>nfs4_bitmap4_to_list\<close> gives back the attribute numbers,
  sorted and without repetition, for every list of numbers below 64, the size of the two words.
\<close>

theorem bitmap4_roundtrip:
  assumes "\<forall>v \<in> set vs. v < 64"
  shows "\<exists>b. nfs4_list_to_bitmap4 vs = Some b \<and>
     nfs4_bitmap4_to_list b = Some (sorted_list_of_set (set vs))"
proof -
  have "holds_bits \<lparr>bitmap4_len = 1, bitmap4_val = [0, 0]\<rparr> {}"
    by (auto simp: holds_bits_def nth_Cons split: nat.splits)
  from set_bits_loop_holds [OF this assms] obtain b where
    b: "nfs4_list_to_bitmap4 vs = Some b" "holds_bits b (set vs)" by (auto simp: nfs4_list_to_bitmap4_def)
  have "nfs4_bitmap4_to_list b = Some (filter (\<lambda>n. n \<in> set vs) [0..<64])"
    by (rule holds_bits_to_list [OF b(2)]) (use assms in auto)
  moreover have "filter (\<lambda>n. n \<in> set vs) [0..<64] = sorted_list_of_set (set vs)"
    using assms by (intro sorted_distinct_set_unique) (auto simp: sorted_wrt_filter)
  ultimately show ?thesis using b(1) by simp
qed

theorem bitmap4_roundtrip_witness:
  "\<exists>b. nfs4_list_to_bitmap4 [33, 1, 33] = Some b \<and>
     nfs4_bitmap4_to_list b = Some (sorted_list_of_set (set [33, 1, 33]))"
  by (rule bitmap4_roundtrip) simp

section \<open>Access modes\<close>

text \<open>The bits of \<^verbatim>\<open>include/fsal_types.h\<close>, of the POSIX header \<^verbatim>\<open>sys/stat.h\<close> and of \<^verbatim>\<open>ghost_fs.h\<close>.\<close>

abbreviation FSAL_MODE_SUID :: u32 where
  "FSAL_MODE_SUID \<equiv> 2048"

abbreviation FSAL_MODE_SGID :: u32 where
  "FSAL_MODE_SGID \<equiv> 1024"

abbreviation FSAL_MODE_RUSR :: u32 where
  "FSAL_MODE_RUSR \<equiv> 256"

abbreviation FSAL_MODE_WUSR :: u32 where
  "FSAL_MODE_WUSR \<equiv> 128"

abbreviation FSAL_MODE_XUSR :: u32 where
  "FSAL_MODE_XUSR \<equiv> 64"

abbreviation FSAL_MODE_RGRP :: u32 where
  "FSAL_MODE_RGRP \<equiv> 32"

abbreviation FSAL_MODE_WGRP :: u32 where
  "FSAL_MODE_WGRP \<equiv> 16"

abbreviation FSAL_MODE_XGRP :: u32 where
  "FSAL_MODE_XGRP \<equiv> 8"

abbreviation FSAL_MODE_ROTH :: u32 where
  "FSAL_MODE_ROTH \<equiv> 4"

abbreviation FSAL_MODE_WOTH :: u32 where
  "FSAL_MODE_WOTH \<equiv> 2"

abbreviation FSAL_MODE_XOTH :: u32 where
  "FSAL_MODE_XOTH \<equiv> 1"

abbreviation S_ISUID :: u32 where
  "S_ISUID \<equiv> 2048"

abbreviation S_ISGID :: u32 where
  "S_ISGID \<equiv> 1024"

abbreviation S_IRUSR :: u32 where
  "S_IRUSR \<equiv> 256"

abbreviation S_IWUSR :: u32 where
  "S_IWUSR \<equiv> 128"

abbreviation S_IXUSR :: u32 where
  "S_IXUSR \<equiv> 64"

abbreviation S_IRGRP :: u32 where
  "S_IRGRP \<equiv> 32"

abbreviation S_IWGRP :: u32 where
  "S_IWGRP \<equiv> 16"

abbreviation S_IXGRP :: u32 where
  "S_IXGRP \<equiv> 8"

abbreviation S_IROTH :: u32 where
  "S_IROTH \<equiv> 4"

abbreviation S_IWOTH :: u32 where
  "S_IWOTH \<equiv> 2"

abbreviation S_IXOTH :: u32 where
  "S_IXOTH \<equiv> 1"

abbreviation GHOSTFS_UR :: u32 where
  "GHOSTFS_UR \<equiv> 256"

abbreviation GHOSTFS_UW :: u32 where
  "GHOSTFS_UW \<equiv> 128"

abbreviation GHOSTFS_UX :: u32 where
  "GHOSTFS_UX \<equiv> 64"

abbreviation GHOSTFS_GR :: u32 where
  "GHOSTFS_GR \<equiv> 32"

abbreviation GHOSTFS_GW :: u32 where
  "GHOSTFS_GW \<equiv> 16"

abbreviation GHOSTFS_GX :: u32 where
  "GHOSTFS_GX \<equiv> 8"

abbreviation GHOSTFS_OR :: u32 where
  "GHOSTFS_OR \<equiv> 4"

abbreviation GHOSTFS_OW :: u32 where
  "GHOSTFS_OW \<equiv> 2"

abbreviation GHOSTFS_OX :: u32 where
  "GHOSTFS_OX \<equiv> 1"

text \<open>One statement \<open>if(mode & from) out |= to\<close> per pair, in the order of the code.\<close>

fun map_bits :: "u32 \<Rightarrow> (u32 \<times> u32) list \<Rightarrow> u32 \<Rightarrow> u32" where
  "map_bits mode [] out = out"
| "map_bits mode ((from, to) # ps) out = map_bits mode ps (if mode AND from \<noteq> 0 then out OR to else out)"

definition ghost2fsal_mode :: "u32 \<Rightarrow> u32" where
  "ghost2fsal_mode mode = map_bits mode
     [(GHOSTFS_UR, FSAL_MODE_RUSR),
      (GHOSTFS_UW, FSAL_MODE_WUSR),
      (GHOSTFS_UX, FSAL_MODE_XUSR),
      (GHOSTFS_GR, FSAL_MODE_RGRP),
      (GHOSTFS_GW, FSAL_MODE_WGRP),
      (GHOSTFS_GX, FSAL_MODE_XGRP),
      (GHOSTFS_OR, FSAL_MODE_ROTH),
      (GHOSTFS_OW, FSAL_MODE_WOTH),
      (GHOSTFS_OX, FSAL_MODE_XOTH)] 0"

definition fsal2ghost_mode :: "u32 \<Rightarrow> u32" where
  "fsal2ghost_mode mode = map_bits mode
     [(FSAL_MODE_RUSR, GHOSTFS_UR),
      (FSAL_MODE_WUSR, GHOSTFS_UW),
      (FSAL_MODE_XUSR, GHOSTFS_UX),
      (FSAL_MODE_RGRP, GHOSTFS_GR),
      (FSAL_MODE_WGRP, GHOSTFS_GW),
      (FSAL_MODE_XGRP, GHOSTFS_GX),
      (FSAL_MODE_ROTH, GHOSTFS_OR),
      (FSAL_MODE_WOTH, GHOSTFS_OW),
      (FSAL_MODE_XOTH, GHOSTFS_OX)] 0"

definition fsal2unix_mode :: "u32 \<Rightarrow> u32" where
  "fsal2unix_mode fsal_mode = map_bits fsal_mode
     [(FSAL_MODE_SUID, S_ISUID),
      (FSAL_MODE_SGID, S_ISGID),
      (FSAL_MODE_RUSR, S_IRUSR),
      (FSAL_MODE_WUSR, S_IWUSR),
      (FSAL_MODE_XUSR, S_IXUSR),
      (FSAL_MODE_RGRP, S_IRGRP),
      (FSAL_MODE_WGRP, S_IWGRP),
      (FSAL_MODE_XGRP, S_IXGRP),
      (FSAL_MODE_ROTH, S_IROTH),
      (FSAL_MODE_WOTH, S_IWOTH),
      (FSAL_MODE_XOTH, S_IXOTH)] 0"

definition unix2fsal_mode :: "u32 \<Rightarrow> u32" where
  "unix2fsal_mode unix_mode = map_bits unix_mode
     [(S_ISUID, FSAL_MODE_SUID),
      (S_ISGID, FSAL_MODE_SGID),
      (S_IRUSR, FSAL_MODE_RUSR),
      (S_IWUSR, FSAL_MODE_WUSR),
      (S_IXUSR, FSAL_MODE_XUSR),
      (S_IRGRP, FSAL_MODE_RGRP),
      (S_IWGRP, FSAL_MODE_WGRP),
      (S_IXGRP, FSAL_MODE_XGRP),
      (S_IROTH, FSAL_MODE_ROTH),
      (S_IWOTH, FSAL_MODE_WOTH),
      (S_IXOTH, FSAL_MODE_XOTH)] 0"

text \<open>Copying single bits to themselves.\<close>

lemma copy_bit: "(if mode AND 2 ^ k \<noteq> 0 then out OR 2 ^ k else out) = out OR ((mode :: u32) AND 2 ^ k)"
proof (cases "bit mode k")
  case True
  then have "mode AND 2 ^ k = 2 ^ k"
    by (intro bit_word_eqI) (auto simp: bit_simps)
  moreover from True have "(2 :: u32) ^ k \<noteq> 0" using bit_imp_le_length [OF True] by auto
  ultimately show ?thesis by simp
next
  case False
  then have "mode AND 2 ^ k = 0" by (intro bit_word_eqI) (auto simp: bit_simps)
  then show ?thesis by simp
qed

lemma map_bits_same:
  "map_bits mode (map (\<lambda>k. (2 ^ k, 2 ^ k)) ks) out = out OR (mode AND foldr (\<lambda>k m. 2 ^ k OR m) ks 0)"
proof (induction ks arbitrary: out)
  case (Cons k ks)
  then show ?case by (simp add: copy_bit bit.conj_disj_distrib or.assoc)
qed simp

lemma unix_mode_mask:
  "fsal2unix_mode m = m AND 0xDFF" "unix2fsal_mode m = m AND 0xDFF"
  using map_bits_same [of m "[11, 10, 8, 7, 6, 5, 4, 3, 2, 1, 0]" 0]
  by (simp_all add: fsal2unix_mode_def unix2fsal_mode_def)

lemma ghost_mode_mask: "ghost2fsal_mode m = m AND 0x1FF" "fsal2ghost_mode m = m AND 0x1FF"
  using map_bits_same [of m "[8, 7, 6, 5, 4, 3, 2, 1, 0]" 0]
  by (simp_all add: ghost2fsal_mode_def fsal2ghost_mode_def)

text \<open>
  Converting an access mode to a Unix mode and back, and between the FSAL and GHOST\_FS forms, keeps
  exactly the set-id and permission bits, respectively the permission bits. The sticky bit, which both
  sides define (\<open>FSAL_MODE_SVTX\<close>, \<open>S_ISVTX\<close>), is lost.
\<close>

theorem mode_conversions_roundtrip:
  "unix2fsal_mode (fsal2unix_mode m) = m AND 0xDFF \<and> fsal2unix_mode (unix2fsal_mode m) = m AND 0xDFF \<and>
   fsal2ghost_mode (ghost2fsal_mode m) = m AND 0x1FF \<and> ghost2fsal_mode (fsal2ghost_mode m) = m AND 0x1FF \<and>
   unix2fsal_mode 0x200 = 0"
  by (simp add: unix_mode_mask ghost_mode_mask and.assoc)

section \<open>Names of authentication errors\<close>

datatype auth_stat =
    AUTH_OK
  | AUTH_BADCRED
  | AUTH_REJECTEDCRED
  | AUTH_BADVERF
  | AUTH_REJECTEDVERF
  | AUTH_TOOWEAK
  | AUTH_INVALIDRESP
  | AUTH_FAILED
  | RPCSEC_GSS_CREDPROBLEM
  | RPCSEC_GSS_CTXPROBLEM
  | AUTH_OTHER u32

text \<open>\<^verbatim>\<open>strncpy\<close>: the first \<open>n\<close> bytes of the buffer.\<close>

definition strncpy :: "string \<Rightarrow> nat \<Rightarrow> string" where
  "strncpy src n = take n src @ replicate (n - length src) (CHR 0x00)"

definition AUTH_STR_LEN :: nat where
  "AUTH_STR_LEN = 30"

definition auth_stat2str :: "auth_stat \<Rightarrow> string" where
  "auth_stat2str why =
     (case why of
        AUTH_OK \<Rightarrow> strncpy ''AUTH_OK'' AUTH_STR_LEN
      | AUTH_BADCRED \<Rightarrow> strncpy ''AUTH_BADCRED'' AUTH_STR_LEN
      | AUTH_REJECTEDCRED \<Rightarrow> strncpy ''AUTH_REJECTEDCRED'' AUTH_STR_LEN
      | AUTH_BADVERF \<Rightarrow> strncpy ''AUTH_BADVERF'' AUTH_STR_LEN
      | AUTH_REJECTEDVERF \<Rightarrow> strncpy ''AUTH_REJECTEDVERF'' AUTH_STR_LEN
      | AUTH_TOOWEAK \<Rightarrow> strncpy ''AUTH_TOOWEAK'' AUTH_STR_LEN
      | AUTH_INVALIDRESP \<Rightarrow> strncpy ''AUTH_INVALIDRESP'' AUTH_STR_LEN
      | AUTH_FAILED \<Rightarrow> strncpy ''AUTH_FAILED'' AUTH_STR_LEN
      | RPCSEC_GSS_CREDPROBLEM \<Rightarrow> strncpy ''RPCSEC_GSS_CREDPROBLEM'' AUTH_STR_LEN
      | RPCSEC_GSS_CTXPROBLEM \<Rightarrow> strncpy ''RPCSEC_GSS_CTXPROBLEM'' AUTH_STR_LEN
      | AUTH_OTHER _ \<Rightarrow> strncpy ''UNKNOWN AUTH'' AUTH_STR_LEN)"

lemma auth_stat2str_terminated:
  "length (auth_stat2str why) = AUTH_STR_LEN \<and> last (auth_stat2str why) = CHR 0x00"
  by (cases why) (simp_all add: auth_stat2str_def strncpy_def AUTH_STR_LEN_def last_append)

lemma nfs4_NextSeqId_eq:
  "nfs4_NextSeqId s = (if s = 0xFFFFFFFE \<or> s = 0xFFFFFFFF then 0 else s + 1)"
proof -
  have "s = 0xFFFFFFFE \<or> s = 0xFFFFFFFF \<or> s + 1 < 0xFFFFFFFF"
    using u32_bound [of s] by (auto simp: word_less_nat_alt word_unat_eq_iff unat_word_ariths)
  then show ?thesis by (auto simp: nfs4_NextSeqId_def word_mod_less_divisor mod_word_less)
qed

end
