(* ===== verification/C_String.thy ===== *)
theory C_String
  imports Prelude
begin

text \<open>
  C strings in fixed-size buffers. A value of \<open>255 cstr\<close> is what a \<^verbatim>\<open>char[255]\<close> holds up to its
  terminating NUL: at most 254 bytes, none of them 0. A value of \<open>12 bytes\<close> is the content of a
  \<^verbatim>\<open>char[12]\<close> that is no string. \<open>strncmp\<close> and \<open>memcmp\<close> are those of the C library.
\<close>

unbundle bit_operations_syntax

typedef (overloaded) 'n cstr = "{s :: u8 list. 0 \<notin> set s \<and> length s < LENGTH('n :: len)}"
  morphisms bytes_of Abs_cstr
  by (rule exI [of _ "[]"]) simp

declare bytes_of_inverse [code abstype]

definition cstr :: "u8 list \<Rightarrow> 'n :: len cstr" where
  "cstr s = Abs_cstr (take (LENGTH('n) - 1) (takeWhile (\<lambda>c. c \<noteq> 0) s))"

lemma bytes_of_cstr [code abstract]:
  "bytes_of (cstr s :: 'n :: len cstr) = take (LENGTH('n) - 1) (takeWhile (\<lambda>c. c \<noteq> 0) s)"
proof -
  have "0 \<notin> set (takeWhile (\<lambda>c. c \<noteq> 0) s)" by (auto dest: set_takeWhileD)
  then have "0 \<notin> set (take (LENGTH('n) - 1) (takeWhile (\<lambda>c. c \<noteq> 0) s))"
    by (meson in_set_takeD)
  then show ?thesis by (simp add: cstr_def Abs_cstr_inverse min_less_iff_disj)
qed

instantiation cstr :: (len) equal
begin

definition equal_cstr :: "'a cstr \<Rightarrow> 'a cstr \<Rightarrow> bool" where
  "equal_cstr a b \<longleftrightarrow> bytes_of a = bytes_of b"

instance
  by standard (simp add: equal_cstr_def bytes_of_inject)

end

lemma bytes_of_bound: "length (bytes_of (s :: 'n :: len cstr)) < LENGTH('n)"
  using bytes_of [of s] by simp

lemma bytes_of_no_nul: "0 \<notin> set (bytes_of s)"
  using bytes_of [of s] by simp

text \<open>The comparison stops at the first difference, at the end of both strings, or after \<open>n\<close> bytes.\<close>

fun strncmp :: "u8 list \<Rightarrow> u8 list \<Rightarrow> nat \<Rightarrow> int" where
  "strncmp s t 0 = 0"
| "strncmp [] [] (Suc n) = 0"
| "strncmp [] (b # t) (Suc n) = - uint b"
| "strncmp (a # s) [] (Suc n) = uint a"
| "strncmp (a # s) (b # t) (Suc n) = (if a = b then strncmp s t n else uint a - uint b)"

lemma strncmp_zero:
  "0 \<notin> set s \<Longrightarrow> 0 \<notin> set t \<Longrightarrow> length s \<le> n \<Longrightarrow> length t \<le> n \<Longrightarrow> strncmp s t n = 0 \<longleftrightarrow> s = t"
  by (induction s t n rule: strncmp.induct) (auto simp: uint_0_iff dest: word_uint_eqI)

lemma strncmp_cstr:
  assumes "LENGTH('n :: len) \<le> Suc n"
  shows "strncmp (bytes_of (a :: 'n cstr)) (bytes_of b) n = 0 \<longleftrightarrow> a = b"
proof -
  have "length (bytes_of a) \<le> n" "length (bytes_of b) \<le> n"
    using bytes_of_bound [of a] bytes_of_bound [of b] assms by simp_all
  from strncmp_zero [OF bytes_of_no_nul bytes_of_no_nul this] show ?thesis by (simp add: bytes_of_inject)
qed

section \<open>Byte arrays\<close>

typedef (overloaded) 'n bytes = "{s :: u8 list. length s = LENGTH('n :: len)}"
  morphisms bytes_list Abs_bytes
  by (rule exI [of _ "replicate LENGTH('n) 0"]) simp

declare bytes_list_inverse [code abstype]

definition mk_bytes :: "u8 list \<Rightarrow> 'n :: len bytes" where
  "mk_bytes s = Abs_bytes (take LENGTH('n) s @ replicate (LENGTH('n) - length s) 0)"

lemma bytes_list_mk [code abstract]:
  "bytes_list (mk_bytes s :: 'n :: len bytes) = take LENGTH('n) s @ replicate (LENGTH('n) - length s) 0"
  by (simp add: mk_bytes_def Abs_bytes_inverse)

instantiation bytes :: (len) equal
begin

definition equal_bytes :: "'a bytes \<Rightarrow> 'a bytes \<Rightarrow> bool" where
  "equal_bytes a b \<longleftrightarrow> bytes_list a = bytes_list b"

instance
  by standard (simp add: equal_bytes_def bytes_list_inject)

end

lemma length_bytes_list [simp]: "length (bytes_list (a :: 'n :: len bytes)) = LENGTH('n)"
  using bytes_list [of a] by simp

lemma mk_bytes_list [simp]: "mk_bytes (bytes_list a) = a"
  by (simp add: mk_bytes_def bytes_list_inverse)

fun memcmp :: "u8 list \<Rightarrow> u8 list \<Rightarrow> nat \<Rightarrow> int" where
  "memcmp (a # s) (b # t) (Suc n) = (if a = b then memcmp s t n else uint a - uint b)"
| "memcmp s t n = 0"

lemma memcmp_zero: "length s = n \<Longrightarrow> length t = n \<Longrightarrow> memcmp s t n = 0 \<longleftrightarrow> s = t"
  by (induction s t n rule: memcmp.induct) (auto dest: word_uint_eqI)

lemma memcmp_bytes: "memcmp (bytes_list (a :: 'n :: len bytes)) (bytes_list b) LENGTH('n) = 0 \<longleftrightarrow> a = b"
  by (simp add: memcmp_zero bytes_list_inject)

text \<open>The bytes of an integer in memory, on a little-endian machine.\<close>

definition le_bytes :: "'a :: len word \<Rightarrow> nat \<Rightarrow> u8 list" where
  "le_bytes w n = map (\<lambda>i. ucast (drop_bit (8 * i) w)) [0..<n]"

definition le_word :: "u8 list \<Rightarrow> 'a :: len word" where
  "le_word bs = foldr (\<lambda>b w. push_bit 8 w OR ucast b) bs 0"

lemma length_le_bytes [simp]: "length (le_bytes w n) = n"
  by (simp add: le_bytes_def)

lemma le_bytes_inject:
  "le_bytes v n = le_bytes w n \<longleftrightarrow> take_bit (8 * n) v = take_bit (8 * n) (w :: 'a :: len word)"
proof
  assume eq: "le_bytes v n = le_bytes w n"
  show "take_bit (8 * n) v = take_bit (8 * n) w"
  proof (rule bit_eqI)
    fix k
    show "bit (take_bit (8 * n) v) k = bit (take_bit (8 * n) w) k"
    proof (cases "k < 8 * n")
      case True
      then have "k div 8 < n" by simp
      then have "(ucast (drop_bit (8 * (k div 8)) v) :: u8) = ucast (drop_bit (8 * (k div 8)) w)"
        using arg_cong [OF eq, of "\<lambda>xs. xs ! (k div 8)"] by (simp add: le_bytes_def)
      then have "bit (ucast (drop_bit (8 * (k div 8)) v) :: u8) (k mod 8) =
          bit (ucast (drop_bit (8 * (k div 8)) w) :: u8) (k mod 8)" by simp
      then show ?thesis using True by (simp add: bit_simps)
    qed (simp add: bit_simps)
  qed
next
  assume eq: "take_bit (8 * n) v = take_bit (8 * n) w"
  have "(ucast (drop_bit (8 * i) v) :: u8) = ucast (drop_bit (8 * i) w)" if "i < n" for i
  proof (rule bit_word_eqI)
    fix k
    assume "k < LENGTH(8)"
    with that have "8 * i + k < 8 * n" by simp
    with arg_cong [OF eq, of "\<lambda>x. bit x (8 * i + k)"]
    show "bit (ucast (drop_bit (8 * i) v) :: u8) k = bit (ucast (drop_bit (8 * i) w) :: u8) k"
      by (auto simp: bit_simps)
  qed
  then show "le_bytes v n = le_bytes w n" by (simp add: le_bytes_def)
qed

lemma le_word_le_bytes2: "le_word (le_bytes (w :: u16) 2) = w"
proof (rule bit_word_eqI)
  fix k
  assume "k < LENGTH(16)"
  then have "k < 8 \<or> 8 \<le> k \<and> k < 16" by auto
  moreover have "[0..<2] = [0, 1 :: nat]" by (simp add: upt_rec)
  ultimately show "bit (le_word (le_bytes w 2) :: u16) k = bit w k"
    by (auto simp: le_word_def le_bytes_def bit_simps)
qed

end
