(* ===== verification/Client_Id.thy ===== *)
theory Client_Id
  imports Hash_Table C_String
begin

text \<open>
  The NFSv4 client id cache of \<^verbatim>\<open>support/nfs_client_id.c\<close>: two hash tables, from client ids and from
  client names to the same records, and the functions that compute an id from a name.

  The records live in a heap, as the tables hold pointers to them. \<open>nfs_client_id_add\<close>,
  \<open>nfs_client_id_set\<close> and \<open>nfs_client_id_remove\<close> get their pool by value: what \<^verbatim>\<open>GET_PREALLOC\<close> and
  \<^verbatim>\<open>RELEASE_PREALLOC\<close> do to it is lost on return, so the pool is an argument and not a result.
  A client name is a C string in its buffer of \<^verbatim>\<open>MAXNAMLEN\<close> bytes; \<^verbatim>\<open>strncpy\<close> of it into the key buffer,
  which has the same size, copies it whole.
\<close>

unbundle bit_operations_syntax

datatype client_id_rc =
    CLIENT_ID_SUCCESS
  | CLIENT_ID_INSERT_MALLOC_ERROR
  | CLIENT_ID_NOT_FOUND
  | CLIENT_ID_INVALID_ARGUMENT

datatype confirm_state = CONFIRMED_CLIENT_ID | UNCONFIRMED_CLIENT_ID | REBOOTED_CLIENT_ID | CB_RECONFIGURED_CLIENT_ID

record 'c nfs_client_id =
  client_name :: "255 cstr"
  cl_clientid :: u64
  cb_program :: u32
  client_r_addr :: string
  client_r_netid :: string
  verifier :: "u8 list"
  incoming_verifier :: "u8 list"
  last_renew :: int
  confirmed :: confirm_state
  credential :: 'c

record 'c client_tables =
  cl_mem :: mem
  ht_client_id :: "(u64, addr) hash_table"
  ht_client_id_reverse :: "(255 cstr, addr) hash_table"
  cl_heap :: "addr \<Rightarrow> 'c nfs_client_id"

definition MAXNAMLEN :: nat where
  "MAXNAMLEN = 255"

definition CLIENT_ID_MAX_LEN :: nat where
  "CLIENT_ID_MAX_LEN = 72"

section \<open>Hash functions of the tables\<close>

definition client_id_value_hash_func :: "hash_dims \<Rightarrow> u64 \<Rightarrow> u64" where
  "client_id_value_hash_func d clientid =
     ((clientid AND 0x00000000FFFFFFFF) + drop_bit 32 clientid) mod ucast (index_size d)"

definition client_id_rbt_hash_func :: "hash_dims \<Rightarrow> u64 \<Rightarrow> u64" where
  "client_id_rbt_hash_func d clientid = (clientid AND 0x00000000FFFFFFFF) XOR drop_bit 32 clientid"

definition compare_client_id :: "u64 \<Rightarrow> u64 \<Rightarrow> int" where
  "compare_client_id cl1 cl2 = (if cl1 = cl2 then 0 else 1)"

definition client_id_param :: "hash_dims \<Rightarrow> u64 hash_parameter" where
  "client_id_param d = \<lparr>dims = d, hash_func_key = client_id_value_hash_func,
     hash_func_rbt = client_id_rbt_hash_func, compare_key = compare_client_id\<rparr>"

section \<open>Computing a client id from a name\<close>

text \<open>
  The names are bytes without the final 0; \<open>char\<close> is signed. The buffer of
  \<^verbatim>\<open>nfs_client_id_basic_compute\<close> has 255 bytes, padded with 0 by \<^verbatim>\<open>strncpy\<close>; its loop advances both
  \<open>str\<close> and \<open>i\<close>, so \<open>str[i]\<close> is the byte at \<open>2 * i\<close>. A read outside the buffer is \<open>None\<close>.
\<close>

definition read_byte :: "u8 list \<Rightarrow> nat \<Rightarrow> u8 option" where
  "read_byte buf i = (if i < length buf then Some (buf ! i) else None)"

primrec basic_loop :: "nat \<Rightarrow> u8 list \<Rightarrow> nat \<Rightarrow> u32 \<Rightarrow> u32 option" where
  "basic_loop 0 stock i acc = None"
| "basic_loop (Suc fuel) stock i acc = do {
     c \<leftarrow> read_byte stock i;
     if c = 0 then Some acc
     else do {
       b \<leftarrow> read_byte stock (2 * i);
       basic_loop fuel stock (Suc i) (acc + ((scast b * 10) XOR of_nat i)) } }"

definition pad_bytes :: "u8 list \<Rightarrow> nat \<Rightarrow> u8 list" where
  "pad_bytes name n = take n name @ replicate (n - length name) 0"

definition nfs_client_id_basic_compute :: "u8 list option \<Rightarrow> (client_id_rc \<times> u64 option) option" where
  "nfs_client_id_basic_compute name =
     (case name of
        None \<Rightarrow> Some (CLIENT_ID_INVALID_ARGUMENT, None)
      | Some name \<Rightarrow> do {
          acc \<leftarrow> basic_loop (Suc MAXNAMLEN) (pad_bytes name MAXNAMLEN) 0 0;
          Some (CLIENT_ID_SUCCESS, Some (ucast acc)) })"

text \<open>
  One round of \<^verbatim>\<open>nfs_client_id_compute\<close> on the bytes from \<open>offset\<close> on. Its last term reads
  \<open>padded_name[offset + 9]\<close>, which for the last round is the byte after the buffer; \<open>beyond\<close> is that byte.
\<close>

definition compute_round :: "u8 list \<Rightarrow> nat \<Rightarrow> u64 \<Rightarrow> u64" where
  "compute_round p offset computed_value =
     (let i1 = ucast (p ! offset AND 0x7F) :: u64;
          i2 = push_bit 7 (ucast (p ! (offset + 1) AND 0x7F)) :: u64;
          i3 = push_bit 14 (ucast (p ! (offset + 2) AND 0x7F)) :: u64;
          i4 = push_bit 21 (ucast (p ! (offset + 3) AND 0x7F)) :: u64;
          i5 = push_bit 28 (ucast (p ! (offset + 4) AND 0x7F)) :: u64;
          i6 = push_bit 35 (ucast (p ! (offset + 5) AND 0x7F)) :: u64;
          i7 = push_bit 42 (ucast (p ! (offset + 6) AND 0x7F)) :: u64;
          i8 = push_bit 49 (ucast (p ! (offset + 7) AND 0x7F)) :: u64;
          i9 = push_bit 56 (ucast (p ! (offset + 8) AND 0x7F)) :: u64;
          total = scast (p ! offset) + scast (p ! (offset + 1)) + scast (p ! (offset + 2)) +
                scast (p ! (offset + 3)) + scast (p ! (offset + 4)) + scast (p ! (offset + 5)) +
                scast (p ! (offset + 6)) + scast (p ! (offset + 7)) + scast (p ! (offset + 8)) :: u64;
          l = ucast ((p ! offset AND 0x80) XOR (p ! (offset + 1) AND 0x80) XOR
                (p ! (offset + 2) AND 0x80) XOR (p ! (offset + 3) AND 0x80) XOR
                (p ! (offset + 4) AND 0x80) XOR (p ! (offset + 5) AND 0x80) XOR
                (p ! (offset + 6) AND 0x80) XOR (p ! (offset + 7) AND 0x80) XOR
                (p ! (offset + 8) AND 0x80) XOR (p ! (offset + 9) AND 0x80)) :: u64;
          extract = (i1 XOR i2 XOR i3 XOR i4 XOR i5 XOR i6 XOR i7 XOR i8 XOR i9) OR l
      in computed_value XOR extract XOR total)"

primrec compute_loop :: "u8 list \<Rightarrow> nat list \<Rightarrow> u64 \<Rightarrow> u64" where
  "compute_loop p [] v = v"
| "compute_loop p (offset # offsets) v = compute_loop p offsets (compute_round p offset v)"

definition nfs_client_id_compute :: "u8 \<Rightarrow> u8 list option \<Rightarrow> client_id_rc \<times> u64 option" where
  "nfs_client_id_compute beyond name =
     (case name of
        None \<Rightarrow> (CLIENT_ID_INVALID_ARGUMENT, None)
      | Some name \<Rightarrow>
          (let p = pad_bytes name CLIENT_ID_MAX_LEN @ [beyond];
               v = compute_loop p [0, 9, 18, 27, 36, 45, 54, 63] 0
           in (CLIENT_ID_SUCCESS, Some (drop_bit 32 v XOR (v AND 0x00000000FFFFFFFF)))))"

definition client_id_rbt_hash_func_reverse :: "u8 \<Rightarrow> u8 list \<Rightarrow> u64" where
  "client_id_rbt_hash_func_reverse beyond key =
     (case nfs_client_id_compute beyond (Some key) of
        (CLIENT_ID_SUCCESS, Some result) \<Rightarrow> result AND 0x00000000FFFFFFFF
      | _ \<Rightarrow> 0)"

text \<open>
  The loop of \<^verbatim>\<open>client_id_value_hash_func_reverse\<close> adds each byte after moving on to it: the bytes after
  the first one, and the final 0.
\<close>

definition client_id_value_hash_func_reverse :: "hash_dims \<Rightarrow> u8 list \<Rightarrow> u64" where
  "client_id_value_hash_func_reverse d key =
     (case key of [] \<Rightarrow> 0 | c # cs \<Rightarrow> foldl (\<lambda>acc c. acc + ucast c) 0 (cs @ [0])) mod ucast (index_size d)"

definition compare_client_id_reverse :: "u8 list \<Rightarrow> u8 list \<Rightarrow> int" where
  "compare_client_id_reverse cl1 cl2 = strncmp cl1 cl2 MAXNAMLEN"

definition client_id_reverse_param :: "u8 \<Rightarrow> hash_dims \<Rightarrow> 255 cstr hash_parameter" where
  "client_id_reverse_param beyond d = \<lparr>dims = d,
     hash_func_key = (\<lambda>d k. client_id_value_hash_func_reverse d (bytes_of k)),
     hash_func_rbt = (\<lambda>d k. client_id_rbt_hash_func_reverse beyond (bytes_of k)),
     compare_key = (\<lambda>a b. compare_client_id_reverse (bytes_of a) (bytes_of b))\<rparr>"

section \<open>The cache\<close>

text \<open>\<^verbatim>\<open>nfs_Init_client_id\<close> and \<^verbatim>\<open>nfs_Init_client_id_reverse\<close>: the global table pointer, and -1 if it is NULL.\<close>

definition nfs_Init_client_id ::
  "int \<Rightarrow> (nat \<Rightarrow> pthread_codes) \<Rightarrow> hash_dims \<Rightarrow> mem \<Rightarrow> int \<times> (u64, addr) hash_table option \<times> mem" where
  "nfs_Init_client_id attr_rc codes d m =
     (case HashTable_Init attr_rc codes (client_id_param d) m of
        (None, m) \<Rightarrow> (- 1, None, m)
      | (Some ht, m) \<Rightarrow> (0, Some ht, m))"

definition nfs_Init_client_id_reverse ::
  "int \<Rightarrow> (nat \<Rightarrow> pthread_codes) \<Rightarrow> u8 \<Rightarrow> hash_dims \<Rightarrow> mem \<Rightarrow> int \<times> (255 cstr, addr) hash_table option \<times> mem" where
  "nfs_Init_client_id_reverse attr_rc codes beyond d m =
     (case HashTable_Init attr_rc codes (client_id_reverse_param beyond d) m of
        (None, m) \<Rightarrow> (- 1, None, m)
      | (Some ht, m) \<Rightarrow> (0, Some ht, m))"

definition add_to_tables ::
  "u64 \<Rightarrow> 'c nfs_client_id \<Rightarrow> addr \<Rightarrow> 'c client_tables \<Rightarrow> (client_id_rc \<times> 'c client_tables) option" where
  "add_to_tables clientid client_record p st = do {
     let st = st\<lparr>cl_heap := (cl_heap st)(p := client_record)\<rparr>;
     (rc, m, ht) \<leftarrow> HashTable_Test_And_Set (cl_mem st) (ht_client_id st) clientid p
                      HASHTABLE_SET_HOW_SET_OVERWRITE;
     let st = st\<lparr>cl_mem := m, ht_client_id := ht\<rparr>;
     if rc \<noteq> HASHTABLE_SUCCESS then Some (CLIENT_ID_INSERT_MALLOC_ERROR, st)
     else do {
       (rc, m, ht) \<leftarrow> HashTable_Test_And_Set (cl_mem st) (ht_client_id_reverse st)
                        (client_name client_record) p HASHTABLE_SET_HOW_SET_OVERWRITE;
       let st = st\<lparr>cl_mem := m, ht_client_id_reverse := ht\<rparr>;
       if rc \<noteq> HASHTABLE_SUCCESS then Some (CLIENT_ID_INSERT_MALLOC_ERROR, st)
       else Some (CLIENT_ID_SUCCESS, st) } }"

text \<open>\<open>nb\<close> is \<open>nfs_param.worker_param.nb_client_id_prealloc\<close>.\<close>

definition nfs_client_id_add ::
  "u32 \<Rightarrow> u64 \<Rightarrow> 'c nfs_client_id \<Rightarrow> addr list \<Rightarrow> 'c client_tables \<Rightarrow>
   (client_id_rc \<times> 'c client_tables) option" where
  "nfs_client_id_add nb clientid client_record pool st =
     (let (p, pool, m) = GET_PREALLOC nb pool (cl_mem st); st = st\<lparr>cl_mem := m\<rparr> in
      case p of
        None \<Rightarrow> Some (CLIENT_ID_INSERT_MALLOC_ERROR, st)
      | Some p \<Rightarrow>
          (case Mem_Alloc 1 (cl_mem st) of
             (None, m) \<Rightarrow> Some (CLIENT_ID_INSERT_MALLOC_ERROR, st\<lparr>cl_mem := m\<rparr>)
           | (Some pclientid, m) \<Rightarrow>
               (case Mem_Alloc MAXNAMLEN m of
                  (None, m) \<Rightarrow> Some (CLIENT_ID_INSERT_MALLOC_ERROR, st\<lparr>cl_mem := m\<rparr>)
                | (Some buffkey_reverse, m) \<Rightarrow>
                    add_to_tables clientid client_record p (st\<lparr>cl_mem := m\<rparr>))))"

text \<open>\<^verbatim>\<open>nfs_client_id_set\<close> has the same statements as \<^verbatim>\<open>nfs_client_id_add\<close>, apart from its traces.\<close>

definition nfs_client_id_set ::
  "u32 \<Rightarrow> u64 \<Rightarrow> 'c nfs_client_id \<Rightarrow> addr list \<Rightarrow> 'c client_tables \<Rightarrow>
   (client_id_rc \<times> 'c client_tables) option" where
  "nfs_client_id_set nb clientid client_record pool st = nfs_client_id_add nb clientid client_record pool st"

text \<open>In the lookups, \<open>res_null\<close> says that the pointer for the result is NULL.\<close>

definition nfs_client_id_Get_Pointer ::
  "u64 \<Rightarrow> bool \<Rightarrow> 'c client_tables \<Rightarrow> (client_id_rc \<times> ptr \<times> 'c client_tables) option" where
  "nfs_client_id_Get_Pointer clientid res_null st =
     (if res_null then Some (CLIENT_ID_INVALID_ARGUMENT, None, st) else
      case Mem_Alloc 1 (cl_mem st) of
        (None, m) \<Rightarrow> Some (CLIENT_ID_INSERT_MALLOC_ERROR, None, st\<lparr>cl_mem := m\<rparr>)
      | (Some pclientid, m) \<Rightarrow> do {
          (rc, buffval, ht) \<leftarrow> HashTable_Get (ht_client_id st) clientid;
          let st = st\<lparr>cl_mem := m, ht_client_id := ht\<rparr>;
          if rc = HASHTABLE_SUCCESS then Some (CLIENT_ID_SUCCESS, buffval, st)
          else Some (CLIENT_ID_NOT_FOUND, None, st) })"

definition nfs_client_id_get ::
  "u64 \<Rightarrow> bool \<Rightarrow> 'c client_tables \<Rightarrow> (client_id_rc \<times> 'c nfs_client_id option \<times> 'c client_tables) option" where
  "nfs_client_id_get clientid res_null st =
     (if res_null then Some (CLIENT_ID_INVALID_ARGUMENT, None, st) else
      case Mem_Alloc 1 (cl_mem st) of
        (None, m) \<Rightarrow> Some (CLIENT_ID_INSERT_MALLOC_ERROR, None, st\<lparr>cl_mem := m\<rparr>)
      | (Some pclientid, m) \<Rightarrow> do {
          (rc, buffval, ht) \<leftarrow> HashTable_Get (ht_client_id st) clientid;
          let st = st\<lparr>cl_mem := m, ht_client_id := ht\<rparr>;
          if rc = HASHTABLE_SUCCESS then Some (CLIENT_ID_SUCCESS, map_option (cl_heap st) buffval, st)
          else Some (CLIENT_ID_NOT_FOUND, None, st) })"

definition nfs_client_id_get_reverse ::
  "255 cstr \<Rightarrow> bool \<Rightarrow> 'c client_tables \<Rightarrow>
   (client_id_rc \<times> 'c nfs_client_id option \<times> 'c client_tables) option" where
  "nfs_client_id_get_reverse key res_null st =
     (if res_null then Some (CLIENT_ID_INVALID_ARGUMENT, None, st) else do {
     (rc, buffval, ht) \<leftarrow> HashTable_Get (ht_client_id_reverse st) key;
     let st = st\<lparr>ht_client_id_reverse := ht\<rparr>;
     if rc = HASHTABLE_SUCCESS then Some (CLIENT_ID_SUCCESS, map_option (cl_heap st) buffval, st)
     else Some (CLIENT_ID_NOT_FOUND, None, st) })"

definition nfs_client_id_remove ::
  "u64 \<Rightarrow> 'c client_tables \<Rightarrow> (client_id_rc \<times> 'c client_tables) option" where
  "nfs_client_id_remove clientid st =
     (case Mem_Alloc 1 (cl_mem st) of
        (None, m) \<Rightarrow> Some (CLIENT_ID_INSERT_MALLOC_ERROR, st\<lparr>cl_mem := m\<rparr>)
      | (Some pclientid, m) \<Rightarrow> do {
          let st = st\<lparr>cl_mem := m\<rparr>;
          (rc, old, ht) \<leftarrow> HashTable_Del (ht_client_id st) clientid;
          let st = st\<lparr>ht_client_id := ht\<rparr>;
          (case old of
             Some (old_key, p) \<Rightarrow> do {
               (rc, old_reverse, ht) \<leftarrow> HashTable_Del (ht_client_id_reverse st) (client_name (cl_heap st p));
               let st = st\<lparr>ht_client_id_reverse := ht\<rparr>;
               if rc \<noteq> HASHTABLE_SUCCESS then Some (CLIENT_ID_NOT_FOUND, st)
               else Some (CLIENT_ID_SUCCESS, st) }
           | None \<Rightarrow> Some (CLIENT_ID_NOT_FOUND, st)) })"

section \<open>The cache answers with what was added\<close>

definition client_inv :: "'c client_tables \<Rightarrow> bool" where
  "client_inv st \<longleftrightarrow> table_inv (cl_mem st) (ht_client_id st) \<and> table_inv (cl_mem st) (ht_client_id_reverse st)"

lemma client_id_param_good: "index_size d \<noteq> 0 \<Longrightarrow> good_param (client_id_param d)"
  by (rule good_param_mod [where f = "\<lambda>c. (c AND 0x00000000FFFFFFFF) + drop_bit 32 c"])
    (auto simp: client_id_param_def client_id_value_hash_func_def compare_client_id_def)

lemma client_id_reverse_param_good: "index_size d \<noteq> 0 \<Longrightarrow> good_param (client_id_reverse_param beyond d)"
  by (rule good_param_mod [where f = "\<lambda>k. case bytes_of k of [] \<Rightarrow> 0 | c # cs \<Rightarrow> foldl (\<lambda>acc c. acc + ucast c) 0 (cs @ [0])"])
    (auto simp: client_id_reverse_param_def client_id_value_hash_func_reverse_def compare_client_id_reverse_def
      strncmp_cstr MAXNAMLEN_def)

lemma add_to_tables_spec:
  assumes "client_inv st"
  shows "\<exists>rc st'. add_to_tables clientid r p st = Some (rc, st') \<and> client_inv st' \<and>
    brk (cl_mem st) \<le> brk (cl_mem st') \<and> cl_heap st' = (cl_heap st)(p := r) \<and>
    (rc = CLIENT_ID_SUCCESS \<and> table_map (ht_client_id st') = (table_map (ht_client_id st))(clientid \<mapsto> p) \<and>
       table_map (ht_client_id_reverse st') =
         (table_map (ht_client_id_reverse st))(client_name r \<mapsto> p) \<or>
     rc = CLIENT_ID_INSERT_MALLOC_ERROR)"
proof -
  have i: "table_inv (cl_mem st) (ht_client_id st)" "table_inv (cl_mem st) (ht_client_id_reverse st)"
    using assms by (auto simp: client_inv_def)
  obtain rc m ht where s: "HashTable_Test_And_Set (cl_mem st) (ht_client_id st) clientid p
      HASHTABLE_SET_HOW_SET_OVERWRITE = Some (rc, m, ht)" "table_inv m ht" "brk (cl_mem st) \<le> brk m"
    "rc = HASHTABLE_SUCCESS \<and> table_map ht = (table_map (ht_client_id st))(clientid \<mapsto> p) \<or>
     rc = HASHTABLE_INSERT_MALLOC_ERROR \<and> table_map ht = table_map (ht_client_id st)"
    by (rule HashTable_Set_overwrite [OF i(1)])
  note i2 = table_inv_mono [OF i(2) s(3)]
  obtain rc2 m2 ht2 where s2: "HashTable_Test_And_Set m (ht_client_id_reverse st)
      (client_name r) p HASHTABLE_SET_HOW_SET_OVERWRITE = Some (rc2, m2, ht2)"
    "table_inv m2 ht2" "brk m \<le> brk m2"
    "rc2 = HASHTABLE_SUCCESS \<and> table_map ht2 = (table_map (ht_client_id_reverse st))(client_name r \<mapsto> p) \<or>
     rc2 = HASHTABLE_INSERT_MALLOC_ERROR \<and> table_map ht2 = table_map (ht_client_id_reverse st)"
    by (rule HashTable_Set_overwrite [OF i2])
  from s(4) show ?thesis
  proof
    assume "rc = HASHTABLE_INSERT_MALLOC_ERROR \<and> table_map ht = table_map (ht_client_id st)"
    with s i2 show ?thesis by (simp add: add_to_tables_def client_inv_def)
  next
    assume ok: "rc = HASHTABLE_SUCCESS \<and> table_map ht = (table_map (ht_client_id st))(clientid \<mapsto> p)"
    have "table_inv m2 ht" by (rule table_inv_mono [OF s(2) s2(3)])
    with ok s s2 show ?thesis by (auto simp: add_to_tables_def client_inv_def)
  qed
qed

lemma client_inv_mem: "client_inv st \<Longrightarrow> brk (cl_mem st) \<le> brk m \<Longrightarrow> client_inv (st\<lparr>cl_mem := m\<rparr>)"
  by (auto simp: client_inv_def intro: table_inv_mono)

text \<open>What the two tables say: the records by id and by name.\<close>

definition by_id :: "'c client_tables \<Rightarrow> u64 \<rightharpoonup> 'c nfs_client_id" where
  "by_id st = map_option (cl_heap st) \<circ> table_map (ht_client_id st)"

definition by_name :: "'c client_tables \<Rightarrow> 255 cstr \<rightharpoonup> 'c nfs_client_id" where
  "by_name st = map_option (cl_heap st) \<circ> table_map (ht_client_id_reverse st)"

text \<open>The records of the tables are in memory that was allocated.\<close>

definition client_ok :: "'c client_tables \<Rightarrow> bool" where
  "client_ok st \<longleftrightarrow> client_inv st \<and>
     (\<forall>p \<in> ran (table_map (ht_client_id st)) \<union> ran (table_map (ht_client_id_reverse st)). p < brk (cl_mem st))"

lemma nfs_client_id_add_spec:
  assumes "client_ok st"
  shows "\<exists>rc st'. nfs_client_id_add nb clientid r [] st = Some (rc, st') \<and> client_inv st' \<and>
    brk (cl_mem st) \<le> brk (cl_mem st') \<and>
    (rc = CLIENT_ID_SUCCESS \<and> client_ok st' \<and> by_id st' = (by_id st)(clientid \<mapsto> r) \<and>
       by_name st' = (by_name st)(client_name r \<mapsto> r) \<and> brk (cl_mem st) + unat nb \<le> brk (cl_mem st') \<or>
     rc = CLIENT_ID_INSERT_MALLOC_ERROR)"
proof -
  have inv: "client_inv st" and lt: "\<forall>q \<in> ran (table_map (ht_client_id st)). q < brk (cl_mem st)"
    "\<forall>q \<in> ran (table_map (ht_client_id_reverse st)). q < brk (cl_mem st)"
    using assms by (auto simp: client_ok_def)
  obtain p pool' m where g: "GET_PREALLOC nb [] (cl_mem st) = (p, pool', m)"
    by (cases "GET_PREALLOC nb [] (cl_mem st)") auto
  have 0: "client_inv (st\<lparr>cl_mem := m\<rparr>)" by (rule client_inv_mem [OF inv GET_PREALLOC_brk [OF g]])
  obtain a1 m1 where a1: "Mem_Alloc 1 m = (a1, m1)" by (cases "Mem_Alloc 1 m") auto
  obtain a2 m2 where a2: "Mem_Alloc MAXNAMLEN m1 = (a2, m2)" by (cases "Mem_Alloc MAXNAMLEN m1") auto
  note brks = GET_PREALLOC_brk [OF g] Mem_Alloc_brk [OF a1] Mem_Alloc_brk [OF a2]
  have 1: "client_inv (st\<lparr>cl_mem := m1\<rparr>)" and 2: "client_inv (st\<lparr>cl_mem := m2\<rparr>)"
    using client_inv_mem [OF 0, of m1] client_inv_mem [OF 0, of m2] brks by auto
  show ?thesis
  proof (cases "p = None \<or> a1 = None \<or> a2 = None")
    case True
    with g a1 a2 0 1 2 brks show ?thesis
      by (cases p; cases a1) (auto simp: nfs_client_id_add_def Let_def simp del: One_nat_def)
  next
    case False
    with GET_PREALLOC_empty [OF g] have q: "p = Some (brk (cl_mem st))"
      and nb: "brk m = brk (cl_mem st) + unat nb" "0 < unat nb" by auto
    obtain rc st' where s: "add_to_tables clientid r (brk (cl_mem st)) (st\<lparr>cl_mem := m2\<rparr>) = Some (rc, st')"
      "client_inv st'" "brk m2 \<le> brk (cl_mem st')" "cl_heap st' = (cl_heap st)(brk (cl_mem st) := r)"
      "rc = CLIENT_ID_SUCCESS \<and>
         table_map (ht_client_id st') = (table_map (ht_client_id st))(clientid \<mapsto> brk (cl_mem st)) \<and>
         table_map (ht_client_id_reverse st') =
           (table_map (ht_client_id_reverse st))(client_name r \<mapsto> brk (cl_mem st)) \<or>
       rc = CLIENT_ID_INSERT_MALLOC_ERROR"
      using add_to_tables_spec [OF 2, of clientid r "brk (cl_mem st)"] by auto
    have eq: "nfs_client_id_add nb clientid r [] st = Some (rc, st')"
      using False q g a1 a2 s(1) by (auto simp: nfs_client_id_add_def Let_def simp del: One_nat_def)
    have le: "brk (cl_mem st) + unat nb \<le> brk (cl_mem st')" using brks nb s(3) by linarith
    from s(5) show ?thesis
    proof
      assume ok: "rc = CLIENT_ID_SUCCESS \<and>
         table_map (ht_client_id st') = (table_map (ht_client_id st))(clientid \<mapsto> brk (cl_mem st)) \<and>
         table_map (ht_client_id_reverse st') =
           (table_map (ht_client_id_reverse st))(client_name r \<mapsto> brk (cl_mem st))"
      have maps: "by_id st' = (by_id st)(clientid \<mapsto> r)" "by_name st' = (by_name st)(client_name r \<mapsto> r)"
        unfolding by_id_def by_name_def using ok s(4) deref_upd [OF lt(1) order_refl] deref_upd [OF lt(2) order_refl]
        by simp_all
      have "q < brk (cl_mem st')"
        if "q \<in> ran (table_map (ht_client_id st')) \<union> ran (table_map (ht_client_id_reverse st'))" for q
        using that ok lt le nb(2) ran_upd_subset [of "table_map (ht_client_id st)" clientid "brk (cl_mem st)"]
          ran_upd_subset [of "table_map (ht_client_id_reverse st)" "client_name r" "brk (cl_mem st)"]
        by fastforce
      then have "client_ok st'" using s(2) by (auto simp: client_ok_def)
      with eq ok maps le s(2) show ?thesis by auto
    next
      assume "rc = CLIENT_ID_INSERT_MALLOC_ERROR"
      with eq s(2) le show ?thesis by auto
    qed
  qed
qed

lemma nfs_client_id_get_spec:
  assumes "client_inv st"
  shows "\<exists>st'. nfs_client_id_get clientid False st =
       Some (if fails (cl_mem st) (calls (cl_mem st)) then (CLIENT_ID_INSERT_MALLOC_ERROR, None, st')
             else case by_id st clientid of
               None \<Rightarrow> (CLIENT_ID_NOT_FOUND, None, st')
             | Some r \<Rightarrow> (CLIENT_ID_SUCCESS, Some r, st')) \<and>
    client_inv st' \<and> by_id st' = by_id st \<and> by_name st' = by_name st"
proof -
  obtain a m where a: "Mem_Alloc 1 (cl_mem st) = (a, m)" by (cases "Mem_Alloc 1 (cl_mem st)") auto
  note i = client_inv_mem [OF assms Mem_Alloc_brk [OF a]]
  have key: "a = None \<longleftrightarrow> fails (cl_mem st) (calls (cl_mem st))"
    using a by (auto simp: Mem_Alloc_def Let_def split: if_splits)
  show ?thesis
  proof (cases a)
    case None
    with key a i show ?thesis by (auto simp: nfs_client_id_get_def by_id_def by_name_def)
  next
    case (Some pclientid)
    from i have "table_inv m (ht_client_id st)" by (simp add: client_inv_def)
    from table.get_law [OF this, of clientid] obtain ht where
      "HashTable_Get (ht_client_id st) clientid =
         Some (get_rc (table_map (ht_client_id st) clientid), table_map (ht_client_id st) clientid, ht)"
      "table_inv m ht" "table_map ht = table_map (ht_client_id st)" by blast
    with Some key a i show ?thesis
      by (cases "table_map (ht_client_id st) clientid") (auto simp: nfs_client_id_get_def client_inv_def by_id_def by_name_def)
  qed
qed

lemma nfs_client_id_get_reverse_spec:
  assumes "client_inv st"
  shows "\<exists>st'. nfs_client_id_get_reverse key False st =
       Some (case by_name st key of
               None \<Rightarrow> (CLIENT_ID_NOT_FOUND, None, st')
             | Some r \<Rightarrow> (CLIENT_ID_SUCCESS, Some r, st')) \<and>
    client_inv st' \<and> by_id st' = by_id st \<and> by_name st' = by_name st"
proof -
  from assms have "table_inv (cl_mem st) (ht_client_id_reverse st)" by (simp add: client_inv_def)
  from table.get_law [OF this, of key] obtain ht where
    "HashTable_Get (ht_client_id_reverse st) key =
       Some (get_rc (table_map (ht_client_id_reverse st) key), table_map (ht_client_id_reverse st) key, ht)"
    "table_inv (cl_mem st) ht" "table_map ht = table_map (ht_client_id_reverse st)" by blast
  with assms show ?thesis
    by (cases "table_map (ht_client_id_reverse st) key")
      (auto simp: nfs_client_id_get_reverse_def client_inv_def by_id_def by_name_def)
qed

lemma nfs_client_id_remove_spec:
  assumes "client_inv st"
  shows "\<exists>rc st'. nfs_client_id_remove clientid st = Some (rc, st') \<and> client_inv st' \<and> cl_heap st' = cl_heap st \<and>
    (if fails (cl_mem st) (calls (cl_mem st))
     then rc = CLIENT_ID_INSERT_MALLOC_ERROR \<and> by_id st' = by_id st \<and> by_name st' = by_name st
     else case by_id st clientid of
       None \<Rightarrow> rc = CLIENT_ID_NOT_FOUND \<and> by_id st' = by_id st \<and> by_name st' = by_name st
     | Some r \<Rightarrow> by_id st' = (by_id st)(clientid := None) \<and> by_name st' = (by_name st)(client_name r := None) \<and>
         rc = (if by_name st (client_name r) = None then CLIENT_ID_NOT_FOUND else CLIENT_ID_SUCCESS))"
proof -
  obtain a m where a: "Mem_Alloc 1 (cl_mem st) = (a, m)" by (cases "Mem_Alloc 1 (cl_mem st)") auto
  note i = client_inv_mem [OF assms Mem_Alloc_brk [OF a]]
  then have t: "table_inv m (ht_client_id st)" "table_inv m (ht_client_id_reverse st)" by (auto simp: client_inv_def)
  from table.del_law [OF t(1), of clientid] obtain ht where ht:
    "HashTable_Del (ht_client_id st) clientid = Some (get_rc (table_map (ht_client_id st) clientid),
       map_option (Pair clientid) (table_map (ht_client_id st) clientid), ht)"
    "table_inv m ht" "table_map ht = (table_map (ht_client_id st))(clientid := None)" by blast
  have key: "a = None \<longleftrightarrow> fails (cl_mem st) (calls (cl_mem st))"
    using a by (auto simp: Mem_Alloc_def Let_def split: if_splits)
  show ?thesis
  proof (cases "a = None")
    case True
    with a i key show ?thesis by (auto simp: nfs_client_id_remove_def by_id_def by_name_def)
  next
    case have_key: False
    show ?thesis
    proof (cases "table_map (ht_client_id st) clientid")
      case None
      with have_key key a ht t show ?thesis
        by (auto simp: nfs_client_id_remove_def client_inv_def by_id_def by_name_def fun_eq_iff)
    next
      case (Some p)
      let ?name = "client_name (cl_heap st p)"
      from table.del_law [OF t(2), of ?name] obtain ht2 where ht2:
        "HashTable_Del (ht_client_id_reverse st) ?name = Some (get_rc (table_map (ht_client_id_reverse st) ?name),
           map_option (Pair ?name) (table_map (ht_client_id_reverse st) ?name), ht2)"
        "table_inv m ht2" "table_map ht2 = (table_map (ht_client_id_reverse st))(?name := None)" by blast
      let ?st = "st\<lparr>cl_mem := m, ht_client_id := ht, ht_client_id_reverse := ht2\<rparr>"
      have "nfs_client_id_remove clientid st =
          Some (if table_map (ht_client_id_reverse st) ?name = None then CLIENT_ID_NOT_FOUND else CLIENT_ID_SUCCESS, ?st)"
        using have_key a ht(1) ht2(1) Some
        by (cases "table_map (ht_client_id_reverse st) ?name") (auto simp: nfs_client_id_remove_def)
      moreover have "client_inv ?st" using ht(2) ht2(2) by (simp add: client_inv_def)
      moreover have "by_id ?st = (by_id st)(clientid := None)" "by_name ?st = (by_name st)(?name := None)"
        using ht(3) ht2(3) by (auto simp: by_id_def by_name_def)
      moreover have "by_id st clientid = Some (cl_heap st p)"
        "by_name st ?name = None \<longleftrightarrow> table_map (ht_client_id_reverse st) ?name = None"
        using Some by (simp_all add: by_id_def by_name_def)
      ultimately show ?thesis using have_key key by auto
    qed
  qed
qed

text \<open>The tables can always grow: their parameters ask for blocks of at least one entry.\<close>

definition client_room :: "'c client_tables \<Rightarrow> bool" where
  "client_room st \<longleftrightarrow> mem_good (cl_mem st) \<and> nb_node_prealloc (dims (parameter (ht_client_id st))) \<noteq> 0 \<and>
     nb_node_prealloc (dims (parameter (ht_client_id_reverse st))) \<noteq> 0"

lemma add_to_tables_room:
  assumes "add_to_tables clientid r p st = Some (rc, st')" and "client_inv st" and "client_room st"
  shows "rc = CLIENT_ID_SUCCESS"
proof -
  have i: "table_inv (cl_mem st) (ht_client_id st)" "table_inv (cl_mem st) (ht_client_id_reverse st)"
    and r: "mem_good (cl_mem st)" "table_room (ht_client_id st)" "table_room (ht_client_id_reverse st)"
    using assms(2,3) by (auto simp: client_inv_def client_room_def table_room_def)
  from growing_table.overwrite_succeeds [OF i(1) r(1,2), of clientid p] obtain m ht where
    s: "HashTable_Test_And_Set (cl_mem st) (ht_client_id st) clientid p HASHTABLE_SET_HOW_SET_OVERWRITE =
      Some (HASHTABLE_SUCCESS, m, ht)" "brk (cl_mem st) \<le> brk m" "mem_good m" by blast
  from growing_table.overwrite_succeeds [OF table_inv_mono [OF i(2) s(2)] s(3) r(3), of "client_name r" p]
    s(1) assms(1) show ?thesis by (auto simp: add_to_tables_def)
qed

lemma nfs_client_id_add_room:
  assumes "nfs_client_id_add nb clientid r [] st = Some (rc, st')" and "client_inv st" and "client_room st"
    and "nb \<noteq> 0"
  shows "rc = CLIENT_ID_SUCCESS"
proof -
  have good: "mem_good (cl_mem st)" using assms(3) by (simp add: client_room_def)
  obtain p pool' m where g: "GET_PREALLOC nb [] (cl_mem st) = (p, pool', m)"
    by (cases "GET_PREALLOC nb [] (cl_mem st)") auto
  obtain q where q: "p = Some q" using GET_PREALLOC_good [OF g good assms(4)] by blast
  have m: "mem_good m" using good GET_PREALLOC_fails [OF g] by (simp add: mem_good_def)
  obtain m1 where a1: "Mem_Alloc 1 m = (Some (brk m), m1)" "mem_good m1"
    using Mem_Alloc_good [OF m, of 1] by auto
  obtain m2 where a2: "Mem_Alloc MAXNAMLEN m1 = (Some (brk m1), m2)" "mem_good m2"
    using Mem_Alloc_good [OF a1(2), of MAXNAMLEN] by (auto simp: MAXNAMLEN_def)
  have "add_to_tables clientid r q (st\<lparr>cl_mem := m2\<rparr>) = Some (rc, st')"
    using assms(1) g q a1(1) a2(1) by (simp add: nfs_client_id_add_def Let_def del: One_nat_def)
  moreover have "client_inv (st\<lparr>cl_mem := m2\<rparr>)"
    using client_inv_mem [OF assms(2)] GET_PREALLOC_brk [OF g] Mem_Alloc_brk [OF a1(1)] Mem_Alloc_brk [OF a2(1)]
    by (meson le_trans)
  moreover have "client_room (st\<lparr>cl_mem := m2\<rparr>)" using assms(3) a2(2) by (simp add: client_room_def)
  ultimately show ?thesis by (rule add_to_tables_room)
qed

text \<open>
  C19. The client id cache, with the empty pool its callers pass: \<^verbatim>\<open>nfs_client_id_add\<close> returns, and
  returns success when no allocation fails. After a success a lookup by the id and a lookup by the name return the record, every other id and name
  answers as before, and at least \<open>nb\<close> entries of memory are gone although one is used: the rest of
  the block that \<^verbatim>\<open>GET_PREALLOC\<close> allocated was only known to the local pool pointer.
\<close>

theorem client_id_add_correct:
  assumes "client_ok st"
  shows "\<exists>rc st'. nfs_client_id_add nb clientid r [] st = Some (rc, st') \<and>
   (rc = CLIENT_ID_INSERT_MALLOC_ERROR \<and> (nb = 0 \<or> \<not> client_room st) \<or>
    rc = CLIENT_ID_SUCCESS \<and> client_ok st' \<and> by_id st' = (by_id st)(clientid \<mapsto> r) \<and>
      by_name st' = (by_name st)(client_name r \<mapsto> r) \<and> brk (cl_mem st) + unat nb \<le> brk (cl_mem st') \<and>
      (\<exists>st''. nfs_client_id_get_reverse (client_name r) False st' = Some (CLIENT_ID_SUCCESS, Some r, st'')) \<and>
      (\<exists>st''. nfs_client_id_get clientid False st' = Some (CLIENT_ID_SUCCESS, Some r, st'') \<or>
         fails (cl_mem st') (calls (cl_mem st')) \<and>
         nfs_client_id_get clientid False st' = Some (CLIENT_ID_INSERT_MALLOC_ERROR, None, st'')))"
proof -
  from nfs_client_id_add_spec [OF assms, of nb clientid r] obtain rc st' where
    run: "nfs_client_id_add nb clientid r [] st = Some (rc, st')" and s: "client_inv st'" "rc = CLIENT_ID_SUCCESS \<and> client_ok st' \<and> by_id st' = (by_id st)(clientid \<mapsto> r) \<and>
       by_name st' = (by_name st)(client_name r \<mapsto> r) \<and> brk (cl_mem st) + unat nb \<le> brk (cl_mem st') \<or>
     rc = CLIENT_ID_INSERT_MALLOC_ERROR" by auto
  from s(2) show ?thesis
  proof
    assume ok: "rc = CLIENT_ID_SUCCESS \<and> client_ok st' \<and> by_id st' = (by_id st)(clientid \<mapsto> r) \<and>
       by_name st' = (by_name st)(client_name r \<mapsto> r) \<and> brk (cl_mem st) + unat nb \<le> brk (cl_mem st')"
    then have f: "by_id st' clientid = Some r" "by_name st' (client_name r) = Some r" by simp_all
    from nfs_client_id_get_spec [OF s(1), of clientid, unfolded f(1) option.case]
    have "\<exists>st''. nfs_client_id_get clientid False st' = Some (CLIENT_ID_SUCCESS, Some r, st'') \<or>
        fails (cl_mem st') (calls (cl_mem st')) \<and>
        nfs_client_id_get clientid False st' = Some (CLIENT_ID_INSERT_MALLOC_ERROR, None, st'')" by (auto split: if_splits)
    with run ok nfs_client_id_get_reverse_spec [OF s(1), of "client_name r", unfolded f(2) option.case] show ?thesis
      by blast
  next
    assume "rc = CLIENT_ID_INSERT_MALLOC_ERROR"
    moreover have "client_inv st" using assms by (simp add: client_ok_def)
    ultimately show ?thesis using run nfs_client_id_add_room [OF run] by blast
  qed
qed

text \<open>
  C20. \<^verbatim>\<open>nfs_client_id_remove\<close> returns on every branch. It answers a memory error exactly when the allocation of
  the key fails, and not found when the id is unknown; both change nothing. For a known id it takes the
  client out of both tables, the other clients stay, and it answers success exactly when the client was found
  under its name too.
\<close>

theorem client_id_remove_correct:
  assumes "client_inv st"
  shows "\<exists>rc st'. nfs_client_id_remove clientid st = Some (rc, st') \<and> client_inv st' \<and> cl_heap st' = cl_heap st \<and>
    (if fails (cl_mem st) (calls (cl_mem st))
     then rc = CLIENT_ID_INSERT_MALLOC_ERROR \<and> by_id st' = by_id st \<and> by_name st' = by_name st
     else case by_id st clientid of
       None \<Rightarrow> rc = CLIENT_ID_NOT_FOUND \<and> by_id st' = by_id st \<and> by_name st' = by_name st
     | Some r \<Rightarrow> by_id st' = (by_id st)(clientid := None) \<and> by_name st' = (by_name st)(client_name r := None) \<and>
         rc = (if by_name st (client_name r) = None then CLIENT_ID_NOT_FOUND else CLIENT_ID_SUCCESS))"
  by (rule nfs_client_id_remove_spec [OF assms])

text \<open>An instance: tables of two trees, filled with one client.\<close>

definition small_client :: "unit nfs_client_id" where
  "small_client = \<lparr>client_name = cstr [99, 108], cl_clientid = 5, cb_program = 0, client_r_addr = [],
     client_r_netid = [], verifier = [], incoming_verifier = [], last_renew = 0,
     confirmed = UNCONFIRMED_CLIENT_ID, credential = ()\<rparr>"

definition small_clients :: "unit client_tables" where
  "small_clients =
     (let (ht, m) = new_table (client_id_param small_dims) mem_ok;
          (ht', m') = new_table (client_id_reverse_param 0 small_dims) m
      in \<lparr>cl_mem = m', ht_client_id = ht, ht_client_id_reverse = ht', cl_heap = (\<lambda>p. small_client)\<rparr>)"

lemma small_clients_ok:
  "client_ok small_clients" "by_id small_clients = Map.empty" "by_name small_clients = Map.empty"
  "client_room small_clients"
proof -
  obtain ht m where t: "(new_table (client_id_param small_dims) mem_ok :: (u64, addr) hash_table \<times> mem) = (ht, m)"
    by (cases "new_table (client_id_param small_dims) mem_ok :: (u64, addr) hash_table \<times> mem") auto
  obtain ht' m' where t': "(new_table (client_id_reverse_param 0 small_dims) m :: (255 cstr, addr) hash_table \<times> mem) =
      (ht', m')"
    by (cases "new_table (client_id_reverse_param 0 small_dims) m :: (255 cstr, addr) hash_table \<times> mem") auto
  note n = new_table [OF client_id_param_good [OF small_dims_nonzero(1)] mem_ok_good _ _ t]
  have 1: "table_inv m ht" "table_map ht = Map.empty" "mem_good m" "parameter ht = client_id_param small_dims"
    using n(2,3,5,6) small_dims_nonzero by (auto simp: client_id_param_def)
  note n' = new_table [OF client_id_reverse_param_good [OF small_dims_nonzero(1)] 1(3) _ _ t']
  have 2: "table_inv m' ht'" "table_map ht' = Map.empty" "brk m \<le> brk m'" "mem_good m'"
    "parameter ht' = client_id_reverse_param 0 small_dims"
    using n'(2-6) small_dims_nonzero by (auto simp: client_id_reverse_param_def)
  show "client_ok small_clients" "by_id small_clients = Map.empty" "by_name small_clients = Map.empty"
    using t t' 1(1-3) 2(1-4) table_inv_mono [OF 1(1) 2(3)]
    by (auto simp: small_clients_def client_ok_def client_inv_def by_id_def by_name_def)
  show "client_room small_clients"
    using t t' 1(4) 2(4,5) small_dims_nonzero(2)
    by (simp add: small_clients_def client_room_def client_id_param_def client_id_reverse_param_def)
qed

theorem client_id_add_correct_witness:
  "\<exists>st'. nfs_client_id_add 3 5 small_client [] small_clients = Some (CLIENT_ID_SUCCESS, st') \<and>
     by_id st' = [5 \<mapsto> small_client] \<and> brk (cl_mem small_clients) + 3 \<le> brk (cl_mem st')"
  using client_id_add_correct [OF small_clients_ok(1), of 3 5 small_client] small_clients_ok(2,4) by auto

text \<open>The same tables after the client was added.\<close>

definition small_clients1 :: "unit client_tables" where
  "small_clients1 = (case nfs_client_id_add 3 5 small_client [] small_clients of
     Some (rc, cl) \<Rightarrow> cl\<lparr>cl_mem := mem_ok\<lparr>brk := brk (cl_mem cl)\<rparr>\<rparr> | None \<Rightarrow> small_clients)"

lemma small_clients1_ok:
  "client_inv small_clients1" "mem_good (cl_mem small_clients1)" "\<exists>c. table_map (ht_client_id small_clients1) 5 = Some c"
  "by_id small_clients1 5 = Some small_client" "by_name small_clients1 (client_name small_client) = Some small_client"
proof -
  note i = small_clients_ok
  have inv: "client_inv small_clients" using i(1) by (simp add: client_ok_def)
  from nfs_client_id_add_spec [OF i(1), of 3 5 small_client] obtain rc cl where
    a: "nfs_client_id_add 3 5 small_client [] small_clients = Some (rc, cl)" "client_inv cl"
      "rc = CLIENT_ID_SUCCESS \<longrightarrow> by_id cl = (by_id small_clients)(5 \<mapsto> small_client) \<and>
         by_name cl = (by_name small_clients)(client_name small_client \<mapsto> small_client)" by auto
  have "rc = CLIENT_ID_SUCCESS" by (rule nfs_client_id_add_room [OF a(1) inv i(4)]) simp
  with a(3) have f: "by_id cl 5 = Some small_client" "by_name cl (client_name small_client) = Some small_client"
    by simp_all
  from f show "by_id small_clients1 5 = Some small_client" "by_name small_clients1 (client_name small_client) = Some small_client"
    "\<exists>c. table_map (ht_client_id small_clients1) 5 = Some c"
    using a(1) by (auto simp: small_clients1_def by_id_def by_name_def)
  show "client_inv small_clients1" using client_inv_mem [OF a(2)] a(1) by (simp add: small_clients1_def)
  show "mem_good (cl_mem small_clients1)" using a(1) by (simp add: small_clients1_def mem_good_def mem_ok_def)
qed

theorem client_id_remove_correct_witness:
  "\<exists>st'. nfs_client_id_remove 5 small_clients1 = Some (CLIENT_ID_SUCCESS, st') \<and> by_id st' 5 = None \<and>
     by_name st' (client_name small_client) = None"
  using client_id_remove_correct [OF small_clients1_ok(1), of 5] small_clients1_ok(2,4,5)
  by (auto simp: mem_good_def)

section \<open>The computed ids\<close>

lemma basic_loop_stuck:
  assumes "0 \<notin> set (take n stock)" and "i < n" and "n \<le> length stock" and "length stock < 2 * n - 1"
  shows "basic_loop fuel stock i acc = None"
  using assms
proof (induction fuel arbitrary: i acc)
  case (Suc fuel)
  have "stock ! i \<in> set (take n stock)"
    using Suc.prems(2,3) by (auto simp: in_set_conv_nth intro!: exI [of _ i])
  with Suc.prems(1) have nz: "stock ! i \<noteq> 0" by metis
  show ?case
  proof (cases "Suc i < n")
    case True
    from Suc.IH [OF Suc.prems(1) True Suc.prems(3,4)] nz show ?thesis
      by (auto simp: read_byte_def)
  next
    case False
    with Suc.prems have "length stock \<le> 2 * i" by simp
    with nz show ?thesis by (auto simp: read_byte_def)
  qed
qed simp

lemma basic_loop_returns:
  assumes "i \<le> n" and "n < length stock" and "stock ! n = 0" and "2 * n \<le> Suc (length stock)"
    and "n < fuel + i"
  shows "basic_loop fuel stock i acc \<noteq> None"
  using assms
proof (induction fuel arbitrary: i acc)
  case (Suc fuel)
  show ?case
  proof (cases "stock ! i = 0")
    case False
    with Suc.prems have "i < n" by (cases "i = n") auto
    with Suc.IH [of "Suc i"] Suc.prems False show ?thesis by (simp add: read_byte_def)
  qed (use Suc.prems in \<open>simp add: read_byte_def\<close>)
qed simp

text \<open>
  \<^verbatim>\<open>nfs_client_id_basic_compute\<close> reads \<open>str[i]\<close> after advancing \<open>str\<close> \<open>i\<close> times, that is the byte at
  \<open>2 * i\<close>: it stays in its buffer of 255 bytes exactly for the names of at most 128 bytes.
\<close>

theorem basic_compute_in_bounds:
  assumes "0 \<notin> set name" and "length name \<le> MAXNAMLEN"
  shows "nfs_client_id_basic_compute (Some name) \<noteq> None \<longleftrightarrow> length name \<le> 128"
proof -
  let ?stock = "pad_bytes name MAXNAMLEN"
  have len: "length ?stock = 255" using assms(2) by (simp add: pad_bytes_def MAXNAMLEN_def)
  have "basic_loop (Suc MAXNAMLEN) ?stock 0 0 \<noteq> None \<longleftrightarrow> length name \<le> 128"
  proof (cases "length name \<le> 128")
    case True
    then have "?stock ! length name = 0" by (simp add: pad_bytes_def MAXNAMLEN_def nth_append)
    from basic_loop_returns [OF _ _ this, of 0 "Suc MAXNAMLEN"] True len show ?thesis
      by (simp add: MAXNAMLEN_def)
  next
    case False
    have "take (length name) ?stock = name" using assms(2) by (simp add: pad_bytes_def)
    moreover have "0 < length name" "length ?stock < 2 * length name - 1" "length name \<le> length ?stock"
      using False len assms(2) [unfolded MAXNAMLEN_def] by linarith+
    ultimately have "basic_loop (Suc MAXNAMLEN) ?stock 0 0 = None"
      using basic_loop_stuck [of "length name" ?stock 0] assms(1) by metis
    with False show ?thesis by simp
  qed
  then show ?thesis
    by (auto simp: nfs_client_id_basic_compute_def split: option.splits bind_splits)
qed

theorem basic_compute_in_bounds_witness:
  "nfs_client_id_basic_compute (Some (replicate 129 65)) = None \<and>
   nfs_client_id_basic_compute (Some (replicate 128 65)) \<noteq> None"
  using basic_compute_in_bounds [of "replicate 129 65"] basic_compute_in_bounds [of "replicate 128 65"]
  by (simp add: MAXNAMLEN_def del: not_None_eq)

text \<open>The byte after the buffer only enters the last round, where it flips bit 7 of the value.\<close>

lemma compute_round_cong:
  "(\<And>i. i < 10 \<Longrightarrow> p ! (offset + i) = q ! (offset + i)) \<Longrightarrow> compute_round p offset v = compute_round q offset v"
proof -
  assume eq: "\<And>i. i < 10 \<Longrightarrow> p ! (offset + i) = q ! (offset + i)"
  show ?thesis unfolding compute_round_def Let_def
    using eq [of 0] eq [of 1] eq [of 2] eq [of 3] eq [of 4] eq [of 5] eq [of 6] eq [of 7] eq [of 8] eq [of 9]
    by (simp only: add_0_right less_numeral_simps zero_less_numeral) simp
qed

lemma flip_high_bit:
  fixes x :: u64 and l :: u8
  assumes "\<not> bit x 7"
  shows "x OR ucast (l XOR (0x80 AND 0x80)) = (x OR ucast l) XOR 0x80"
proof (rule bit_eqI)
  fix n
  have "bit (0x80 :: u8) n \<longleftrightarrow> n = 7" "bit (0x80 :: u64) n \<longleftrightarrow> n = 7"
    using bit_push_bit_iff [of 7 "1 :: u8" n] bit_push_bit_iff [of 7 "1 :: u64" n]
    by (auto simp: push_bit_eq_mult bit_1_iff)
  with assms show "bit (x OR ucast (l XOR (0x80 AND 0x80))) n = bit ((x OR ucast l) XOR 0x80) n"
    by (auto simp: bit_simps)
qed

lemma compute_round_last:
  assumes "length p = 72" and "p ! 64 = 0"
  shows "compute_round (p @ [0x80]) 63 v = compute_round (p @ [0]) 63 v XOR 0x80"
proof -
  let ?n = "\<lambda>i. p ! i"
  define x :: u64 where "x = ucast (?n 63 AND 0x7F) XOR push_bit 7 (ucast (?n 64 AND 0x7F)) XOR
    push_bit 14 (ucast (?n 65 AND 0x7F)) XOR push_bit 21 (ucast (?n 66 AND 0x7F)) XOR
    push_bit 28 (ucast (?n 67 AND 0x7F)) XOR push_bit 35 (ucast (?n 68 AND 0x7F)) XOR
    push_bit 42 (ucast (?n 69 AND 0x7F)) XOR push_bit 49 (ucast (?n 70 AND 0x7F)) XOR
    push_bit 56 (ucast (?n 71 AND 0x7F))"
  define l :: u8 where "l = (?n 63 AND 0x80) XOR (?n 64 AND 0x80) XOR (?n 65 AND 0x80) XOR (?n 66 AND 0x80) XOR
    (?n 67 AND 0x80) XOR (?n 68 AND 0x80) XOR (?n 69 AND 0x80) XOR (?n 70 AND 0x80) XOR (?n 71 AND 0x80)"
  define t :: u64 where "t = scast (?n 63) + scast (?n 64) + scast (?n 65) + scast (?n 66) + scast (?n 67) +
    scast (?n 68) + scast (?n 69) + scast (?n 70) + scast (?n 71)"
  have round: "compute_round (p @ [b]) 63 v = v XOR (x OR ucast (l XOR (b AND 0x80))) XOR t" for b
    using assms(1) unfolding compute_round_def Let_def x_def l_def t_def by (simp add: nth_append xor.assoc)
  have "\<not> bit (0x7F :: u8) 7" by simp
  then have "\<not> bit x 7" using assms(2) by (simp add: x_def bit_simps)
  from flip_high_bit [OF this, of l] show ?thesis unfolding round by (simp add: ac_simps)
qed

text \<open>
  \<^verbatim>\<open>nfs_client_id_compute\<close> does not depend on the name alone: its last round reads the byte after
  \<open>padded_name\<close>, and for every name of at most 64 bytes the top bit of that byte flips bit 7 of the
  client id.
\<close>

theorem client_id_compute_reads_beyond:
  assumes "0 \<notin> set name" and "length name \<le> 64"
  shows "\<exists>v. nfs_client_id_compute 0 (Some name) = (CLIENT_ID_SUCCESS, Some v) \<and>
    nfs_client_id_compute 0x80 (Some name) = (CLIENT_ID_SUCCESS, Some (v XOR 0x80)) \<and> v XOR 0x80 \<noteq> v"
proof -
  let ?p = "pad_bytes name CLIENT_ID_MAX_LEN"
  have len: "length ?p = 72" "?p ! 64 = 0"
    using assms(2) by (auto simp: pad_bytes_def CLIENT_ID_MAX_LEN_def nth_append)
  have same: "compute_round (?p @ [0x80]) n v = compute_round (?p @ [0]) n v" if "n \<le> 62" for n v
    by (rule compute_round_cong) (use that len in \<open>simp add: nth_append\<close>)
  have high: "drop_bit 32 (0x80 :: u64) = 0" by code_simp
  have fold: "drop_bit 32 (w XOR 0x80) XOR ((w XOR 0x80) AND 0x00000000FFFFFFFF) =
      (drop_bit 32 w XOR (w AND 0x00000000FFFFFFFF)) XOR 0x80" for w :: u64
    unfolding drop_bit_xor high by (simp add: bit.conj_xor_distrib2 ac_simps)
  have "v XOR 0x80 \<noteq> v" for v :: u64
  proof
    assume "v XOR 0x80 = v"
    moreover have "v XOR (v XOR 0x80) = 0x80" by (simp flip: xor.assoc)
    ultimately show False by simp
  qed
  moreover have "compute_loop (?p @ [0x80]) [0, 9, 18, 27, 36, 45, 54, 63] 0 =
      compute_loop (?p @ [0]) [0, 9, 18, 27, 36, 45, 54, 63] 0 XOR 0x80"
    by (simp add: same compute_round_last [OF len])
  ultimately show ?thesis
    by (auto simp only: nfs_client_id_compute_def Let_def option.case fold)
qed

theorem client_id_compute_reads_beyond_witness:
  "\<exists>v. nfs_client_id_compute 0 (Some [97, 98]) = (CLIENT_ID_SUCCESS, Some v) \<and>
    nfs_client_id_compute 0x80 (Some [97, 98]) = (CLIENT_ID_SUCCESS, Some (v XOR 0x80)) \<and> v XOR 0x80 \<noteq> v"
  by (rule client_id_compute_reads_beyond) simp_all

end
