(* ===== verification/IP_Cache.thy ===== *)
theory IP_Cache
  imports Hash_Table NFS_Convert
begin

text \<open>
  The two caches whose keys are IPv4 addresses: the request counters per client of
  \<^verbatim>\<open>support/nfs_ip_stats.c\<close> and the host names of \<^verbatim>\<open>support/nfs_ip_name.c\<close>. The key is the address itself,
  widened to the \<^verbatim>\<open>unsigned long\<close> that the code stores in the \<open>pdata\<close> pointer of the key buffer.

  The records live in a heap, the tables hold pointers to them. \<open>nfs_ip_stats_add\<close> and
  \<open>nfs_ip_stats_remove\<close> get their pool by value, so it is an argument and not a result.
\<close>

section \<open>Keys\<close>

text \<open>
  \<^verbatim>\<open>ip_stats_value_hash_func\<close>, \<^verbatim>\<open>ip_stats_rbt_hash_func\<close>, \<^verbatim>\<open>compare_ip_stats\<close> and their copies in
  \<^verbatim>\<open>nfs_ip_name.c\<close>.
\<close>

definition ip_stats_value_hash_func :: "hash_dims \<Rightarrow> u64 \<Rightarrow> u64" where
  "ip_stats_value_hash_func d pdata = pdata mod ucast (index_size d)"

definition ip_stats_rbt_hash_func :: "hash_dims \<Rightarrow> u64 \<Rightarrow> u64" where
  "ip_stats_rbt_hash_func d pdata = pdata"

definition compare_ip_stats :: "u64 \<Rightarrow> u64 \<Rightarrow> int" where
  "compare_ip_stats xid1 xid2 = (if xid1 = xid2 then 0 else 1)"

definition ip_name_value_hash_func :: "hash_dims \<Rightarrow> u64 \<Rightarrow> u64" where
  "ip_name_value_hash_func d pdata = pdata mod ucast (index_size d)"

definition ip_name_rbt_hash_func :: "hash_dims \<Rightarrow> u64 \<Rightarrow> u64" where
  "ip_name_rbt_hash_func d pdata = pdata"

definition compare_ip_name :: "u64 \<Rightarrow> u64 \<Rightarrow> int" where
  "compare_ip_name xid1 xid2 = (if xid1 = xid2 then 0 else 1)"

definition ip_stats_param :: "hash_dims \<Rightarrow> u64 hash_parameter" where
  "ip_stats_param d = \<lparr>dims = d, hash_func_key = ip_stats_value_hash_func,
     hash_func_rbt = ip_stats_rbt_hash_func, compare_key = compare_ip_stats\<rparr>"

definition ip_name_param :: "hash_dims \<Rightarrow> u64 hash_parameter" where
  "ip_name_param d = \<lparr>dims = d, hash_func_key = ip_name_value_hash_func,
     hash_func_rbt = ip_name_rbt_hash_func, compare_key = compare_ip_name\<rparr>"

text \<open>
  The widening of the address: \<^verbatim>\<open>unsigned int\<close> in all functions but the two \<open>_remove\<close>, whose parameter
  is an \<^verbatim>\<open>int\<close>.
\<close>

definition key_of_unsigned :: "u32 \<Rightarrow> u64" where
  "key_of_unsigned ipaddr = ucast ipaddr"

definition key_of_int :: "u32 \<Rightarrow> u64" where
  "key_of_int ipaddr = scast ipaddr"

section \<open>Request counters per client\<close>

datatype ip_rc = IP_SUCCESS | IP_INSERT_MALLOC_ERROR | IP_NOT_FOUND | IP_NETDB_ERROR

definition MNT_V1_NB_COMMAND :: nat where
  "MNT_V1_NB_COMMAND = 6"

definition MNT_V3_NB_COMMAND :: nat where
  "MNT_V3_NB_COMMAND = 6"

definition NFS_V2_NB_COMMAND :: nat where
  "NFS_V2_NB_COMMAND = 18"

definition NFS_V3_NB_COMMAND :: nat where
  "NFS_V3_NB_COMMAND = 22"

record nfs_ip_stats =
  nb_call :: u32
  nb_req_nfs2 :: u32
  nb_req_nfs3 :: u32
  nb_req_nfs4 :: u32
  nb_req_mnt1 :: u32
  nb_req_mnt3 :: u32
  req_mnt1 :: "u32 list"
  req_mnt3 :: "u32 list"
  req_nfs2 :: "u32 list"
  req_nfs3 :: "u32 list"

record svc_req =
  rq_prog :: u32
  rq_vers :: u32
  rq_proc :: u32

record ip_stats_tables =
  ip_mem :: mem
  ht_ip_stats :: "(u64, addr) hash_table"
  ip_heap :: "addr \<Rightarrow> nfs_ip_stats"

definition ip_stats_zero :: nfs_ip_stats where
  "ip_stats_zero = \<lparr>nb_call = 0, nb_req_nfs2 = 0, nb_req_nfs3 = 0, nb_req_nfs4 = 0, nb_req_mnt1 = 0, nb_req_mnt3 = 0,
     req_mnt1 = replicate MNT_V1_NB_COMMAND 0, req_mnt3 = replicate MNT_V3_NB_COMMAND 0,
     req_nfs2 = replicate NFS_V2_NB_COMMAND 0, req_nfs3 = replicate NFS_V3_NB_COMMAND 0\<rparr>"

text \<open>\<open>dump\<close> is \<open>nfs_param.core_param.dump_stats_per_client\<close> and \<open>nb\<close> is \<open>worker_param.nb_ip_stats_prealloc\<close>.\<close>

definition nfs_ip_stats_add ::
  "u32 \<Rightarrow> u32 \<Rightarrow> u32 \<Rightarrow> addr list \<Rightarrow> ip_stats_tables \<Rightarrow> (ip_rc \<times> ip_stats_tables) option" where
  "nfs_ip_stats_add dump nb ipaddr pool st =
     (if dump = 0 then Some (IP_SUCCESS, st)
      else let (p, pool, m) = GET_PREALLOC nb pool (ip_mem st); st = st\<lparr>ip_mem := m\<rparr> in
        case p of
          None \<Rightarrow> Some (IP_INSERT_MALLOC_ERROR, st)
        | Some p \<Rightarrow> do {
            let st = st\<lparr>ip_heap := (ip_heap st)(p := ip_stats_zero)\<rparr>;
            (rc, m, ht) \<leftarrow> HashTable_Test_And_Set (ip_mem st) (ht_ip_stats st) (key_of_unsigned ipaddr) p
                             HASHTABLE_SET_HOW_SET_OVERWRITE;
            let st = st\<lparr>ip_mem := m, ht_ip_stats := ht\<rparr>;
            if rc \<noteq> HASHTABLE_SUCCESS then Some (IP_INSERT_MALLOC_ERROR, st) else Some (IP_SUCCESS, st) })"

text \<open>An increment of \<open>counters[i]\<close>; an index outside the array is \<open>None\<close>.\<close>

definition incr_at :: "u32 list \<Rightarrow> u32 \<Rightarrow> u32 list option" where
  "incr_at counters i =
     (if unat i < length counters then Some (counters[unat i := counters ! unat i + 1]) else None)"

definition count_request :: "u32 \<Rightarrow> u32 \<Rightarrow> svc_req \<Rightarrow> nfs_ip_stats \<Rightarrow> nfs_ip_stats option" where
  "count_request nfs_prog mnt_prog req s =
     (let s = s\<lparr>nb_call := nb_call s + 1\<rparr> in
      if rq_prog req = nfs_prog then
        if rq_vers req = 2 then
          map_option (\<lambda>c. s\<lparr>nb_req_nfs2 := nb_req_nfs2 s + 1, req_nfs2 := c\<rparr>) (incr_at (req_nfs2 s) (rq_proc req))
        else if rq_vers req = 3 then
          map_option (\<lambda>c. s\<lparr>nb_req_nfs3 := nb_req_nfs3 s + 1, req_nfs3 := c\<rparr>) (incr_at (req_nfs3 s) (rq_proc req))
        else if rq_vers req = 4 then Some (s\<lparr>nb_req_nfs4 := nb_req_nfs4 s + 1\<rparr>)
        else Some s
      else if rq_prog req = mnt_prog then
        if rq_vers req = 1 then
          map_option (\<lambda>c. s\<lparr>nb_req_mnt1 := nb_req_mnt1 s + 1, req_mnt1 := c\<rparr>) (incr_at (req_mnt1 s) (rq_proc req))
        else if rq_vers req = 3 then
          map_option (\<lambda>c. s\<lparr>nb_req_mnt3 := nb_req_mnt3 s + 1, req_mnt3 := c\<rparr>) (incr_at (req_mnt3 s) (rq_proc req))
        else Some s
      else Some s)"

definition nfs_ip_stats_incr ::
  "u32 \<Rightarrow> u32 \<Rightarrow> u32 \<Rightarrow> u32 \<Rightarrow> svc_req \<Rightarrow> ip_stats_tables \<Rightarrow> (ip_rc \<times> ip_stats_tables) option" where
  "nfs_ip_stats_incr dump ipaddr nfs_prog mnt_prog req st =
     (if dump = 0 then Some (IP_SUCCESS, st)
      else do {
        (rc, buffval, ht) \<leftarrow> HashTable_Get (ht_ip_stats st) (key_of_unsigned ipaddr);
        let st = st\<lparr>ht_ip_stats := ht\<rparr>;
        (if rc = HASHTABLE_SUCCESS then do {
           p \<leftarrow> buffval;
           s \<leftarrow> count_request nfs_prog mnt_prog req (ip_heap st p);
           Some (IP_SUCCESS, st\<lparr>ip_heap := (ip_heap st)(p := s)\<rparr>) }
         else Some (IP_NOT_FOUND, st)) })"

text \<open>With the counters switched off, \<^verbatim>\<open>nfs_ip_stats_get\<close> returns success without setting its result.\<close>

definition nfs_ip_stats_get ::
  "u32 \<Rightarrow> u32 \<Rightarrow> ip_stats_tables \<Rightarrow> (ip_rc \<times> ptr \<times> ip_stats_tables) option" where
  "nfs_ip_stats_get dump ipaddr st =
     (if dump = 0 then Some (IP_SUCCESS, None, st)
      else do {
        (rc, buffval, ht) \<leftarrow> HashTable_Get (ht_ip_stats st) (key_of_unsigned ipaddr);
        let st = st\<lparr>ht_ip_stats := ht\<rparr>;
        if rc = HASHTABLE_SUCCESS then Some (IP_SUCCESS, buffval, st) else Some (IP_NOT_FOUND, None, st) })"

definition nfs_ip_stats_remove :: "u32 \<Rightarrow> u32 \<Rightarrow> ip_stats_tables \<Rightarrow> (ip_rc \<times> ip_stats_tables) option" where
  "nfs_ip_stats_remove dump ipaddr st =
     (if dump = 0 then Some (IP_SUCCESS, st)
      else do {
        (rc, old, ht) \<leftarrow> HashTable_Del (ht_ip_stats st) (key_of_int ipaddr);
        let st = st\<lparr>ht_ip_stats := ht\<rparr>;
        if rc = HASHTABLE_SUCCESS then Some (IP_SUCCESS, st) else Some (IP_NOT_FOUND, st) })"

definition nfs_Init_ip_stats ::
  "int \<Rightarrow> (nat \<Rightarrow> pthread_codes) \<Rightarrow> hash_dims \<Rightarrow> mem \<Rightarrow> (u64, addr) hash_table option \<times> mem" where
  "nfs_Init_ip_stats attr_rc codes d m = HashTable_Init attr_rc codes (ip_stats_param d) m"

text \<open>
  What \<^verbatim>\<open>nfs_export_check_access\<close> does with the counters of a request: it increments them, and on an
  unknown client adds the client and increments again.
\<close>

definition count_client ::
  "u32 \<Rightarrow> u32 \<Rightarrow> addr list \<Rightarrow> u32 \<Rightarrow> u32 \<Rightarrow> u32 \<Rightarrow> svc_req \<Rightarrow> ip_stats_tables \<Rightarrow> ip_stats_tables option" where
  "count_client dump nb pool ipaddr nfs_prog mnt_prog req st = do {
     (rc, st) \<leftarrow> nfs_ip_stats_incr dump ipaddr nfs_prog mnt_prog req st;
     if rc = IP_NOT_FOUND then do {
       (rc, st) \<leftarrow> nfs_ip_stats_add dump nb ipaddr pool st;
       if rc = IP_SUCCESS then map_option snd (nfs_ip_stats_incr dump ipaddr nfs_prog mnt_prog req st)
       else Some st }
     else Some st }"

text \<open>
  \<^verbatim>\<open>nfs_ip_stats_dump\<close> on one client: the counters of all workers added up, or \<open>None\<close> when a worker does
  not know the client (the function then stops).
\<close>

definition stats_add :: "nfs_ip_stats \<Rightarrow> nfs_ip_stats \<Rightarrow> nfs_ip_stats" where
  "stats_add a s = \<lparr>nb_call = nb_call a + nb_call s, nb_req_nfs2 = nb_req_nfs2 a + nb_req_nfs2 s,
     nb_req_nfs3 = nb_req_nfs3 a + nb_req_nfs3 s, nb_req_nfs4 = nb_req_nfs4 a + nb_req_nfs4 s,
     nb_req_mnt1 = nb_req_mnt1 a + nb_req_mnt1 s, nb_req_mnt3 = nb_req_mnt3 a + nb_req_mnt3 s,
     req_mnt1 = map2 (+) (req_mnt1 a) (req_mnt1 s), req_mnt3 = map2 (+) (req_mnt3 a) (req_mnt3 s),
     req_nfs2 = map2 (+) (req_nfs2 a) (req_nfs2 s), req_nfs3 = map2 (+) (req_nfs3 a) (req_nfs3 s)\<rparr>"

primrec aggregate_workers ::
  "u32 \<Rightarrow> u32 \<Rightarrow> ip_stats_tables list \<Rightarrow> nfs_ip_stats \<Rightarrow> nfs_ip_stats option option" where
  "aggregate_workers dump ipaddr [] aggreg = Some (Some aggreg)"
| "aggregate_workers dump ipaddr (st # sts) aggreg = do {
     (rc, p, st) \<leftarrow> nfs_ip_stats_get dump ipaddr st;
     if rc \<noteq> IP_SUCCESS then Some None
     else do { p \<leftarrow> p; aggregate_workers dump ipaddr sts (stats_add aggreg (ip_heap st p)) } }"

section \<open>Host names\<close>

text \<open>
  The resolver \<^verbatim>\<open>gethostbyaddr\<close> is an argument: the name of an address, or \<open>None\<close> for its error. \<open>now\<close> is
  the value of \<^verbatim>\<open>time\<close>. Names are kept as the bytes of their buffer, as \<^verbatim>\<open>strncpy\<close> fills it.
\<close>

definition MAXHOSTNAMELEN :: nat where
  "MAXHOSTNAMELEN = 64"

record nfs_ip_name =
  ipn_ipaddr :: u32
  timestamp :: int
  hostname :: string

record ip_name_tables =
  ipn_mem :: mem
  ht_ip_name :: "(u64, addr) hash_table"
  ipn_heap :: "addr \<Rightarrow> nfs_ip_name"

definition set_ip_name ::
  "u32 \<Rightarrow> string \<Rightarrow> int \<Rightarrow> addr \<Rightarrow> ip_name_tables \<Rightarrow> (hash_rc \<times> ip_name_tables) option" where
  "set_ip_name ipaddr name now p st = do {
     let st = st\<lparr>ipn_heap := (ipn_heap st)(p := \<lparr>ipn_ipaddr = ipaddr, timestamp = now,
                               hostname = strncpy name MAXHOSTNAMELEN\<rparr>)\<rparr>;
     (rc, m, ht) \<leftarrow> HashTable_Test_And_Set (ipn_mem st) (ht_ip_name st) (key_of_unsigned ipaddr) p
                      HASHTABLE_SET_HOW_SET_OVERWRITE;
     Some (rc, st\<lparr>ipn_mem := m, ht_ip_name := ht\<rparr>) }"

definition nfs_ip_name_add ::
  "(u32 \<Rightarrow> string option) \<Rightarrow> int \<Rightarrow> u32 \<Rightarrow> ip_name_tables \<Rightarrow> (ip_rc \<times> string option \<times> ip_name_tables) option" where
  "nfs_ip_name_add gethostbyaddr now ipaddr st =
     (case Mem_Alloc 1 (ipn_mem st) of
        (None, m) \<Rightarrow> Some (IP_INSERT_MALLOC_ERROR, None, st\<lparr>ipn_mem := m\<rparr>)
      | (Some p, m) \<Rightarrow>
          let st = st\<lparr>ipn_mem := m\<rparr> in
          (case gethostbyaddr ipaddr of
             None \<Rightarrow> Some (IP_NETDB_ERROR, None, st)
           | Some h_name \<Rightarrow> do {
               (rc, st) \<leftarrow> set_ip_name ipaddr h_name now p st;
               if rc \<noteq> HASHTABLE_SUCCESS then Some (IP_INSERT_MALLOC_ERROR, None, st)
               else Some (IP_SUCCESS, Some (strncpy (hostname (ipn_heap st p)) MAXHOSTNAMELEN), st) }))"

definition nfs_ip_name_get ::
  "u32 \<Rightarrow> ip_name_tables \<Rightarrow> (ip_rc \<times> string option \<times> ip_name_tables) option" where
  "nfs_ip_name_get ipaddr st = do {
     (rc, buffval, ht) \<leftarrow> HashTable_Get (ht_ip_name st) (key_of_unsigned ipaddr);
     let st = st\<lparr>ht_ip_name := ht\<rparr>;
     if rc = HASHTABLE_SUCCESS then do {
       p \<leftarrow> buffval;
       Some (IP_SUCCESS, Some (strncpy (hostname (ipn_heap st p)) MAXHOSTNAMELEN), st) }
     else Some (IP_NOT_FOUND, None, st) }"

definition nfs_ip_name_remove :: "u32 \<Rightarrow> ip_name_tables \<Rightarrow> (ip_rc \<times> ip_name_tables) option" where
  "nfs_ip_name_remove ipaddr st = do {
     (rc, old, ht) \<leftarrow> HashTable_Del (ht_ip_name st) (key_of_int ipaddr);
     let st = st\<lparr>ht_ip_name := ht\<rparr>;
     if rc = HASHTABLE_SUCCESS then Some (IP_SUCCESS, st) else Some (IP_NOT_FOUND, st) }"

definition nfs_Init_ip_name ::
  "int \<Rightarrow> (nat \<Rightarrow> pthread_codes) \<Rightarrow> hash_dims \<Rightarrow> mem \<Rightarrow> int \<times> (u64, addr) hash_table option \<times> mem" where
  "nfs_Init_ip_name attr_rc codes d m =
     (case HashTable_Init attr_rc codes (ip_name_param d) m of
        (None, m) \<Rightarrow> (- 1, None, m)
      | (Some ht, m) \<Rightarrow> (0, Some ht, m))"

text \<open>
  \<^verbatim>\<open>nfs_ip_name_populate\<close> on what the configuration parser returns for the file: no file, no block, an
  item that is no block, or the items of the block, each a pair of key and value or an error. The
  codes of the \<^verbatim>\<open>ID_MAPPER_\<close> constants it returns are those of the \<^verbatim>\<open>IP_NAME_\<close> constants.
\<close>

datatype hosts_config = No_file | No_block | Not_a_block | Block "(string \<times> string) option list"

primrec populate_items ::
  "(string \<Rightarrow> u32) \<Rightarrow> int \<Rightarrow> (string \<times> string) option list \<Rightarrow> ip_name_tables \<Rightarrow> (ip_rc \<times> ip_name_tables) option" where
  "populate_items inet_addr now [] st = Some (IP_SUCCESS, st)"
| "populate_items inet_addr now (item # items) st =
     (case item of
        None \<Rightarrow> Some (IP_NOT_FOUND, st)
      | Some (key_name, key_value) \<Rightarrow>
          (case Mem_Alloc 1 (ipn_mem st) of
             (None, m) \<Rightarrow> Some (IP_INSERT_MALLOC_ERROR, st\<lparr>ipn_mem := m\<rparr>)
           | (Some p, m) \<Rightarrow> do {
               (rc, st) \<leftarrow> set_ip_name (inet_addr key_value) key_name now p (st\<lparr>ipn_mem := m\<rparr>);
               if rc \<noteq> HASHTABLE_SUCCESS then Some (IP_INSERT_MALLOC_ERROR, st)
               else populate_items inet_addr now items st }))"

definition nfs_ip_name_populate ::
  "(string \<Rightarrow> u32) \<Rightarrow> int \<Rightarrow> hosts_config \<Rightarrow> ip_name_tables \<Rightarrow> (ip_rc \<times> ip_name_tables) option" where
  "nfs_ip_name_populate inet_addr now conf st =
     (case conf of
        Block items \<Rightarrow> populate_items inet_addr now items st
      | _ \<Rightarrow> Some (IP_NOT_FOUND, st))"

definition nfs_ip_name_get_stats :: "ip_name_tables \<Rightarrow> hash_stat option" where
  "nfs_ip_name_get_stats st = HashTable_GetStats (ht_ip_name st)"

section \<open>Removal and sign extension\<close>

lemma ip_stats_param_good: "index_size d \<noteq> 0 \<Longrightarrow> good_param (ip_stats_param d)"
  by (rule good_param_mod [where f = id])
    (auto simp: ip_stats_param_def ip_stats_value_hash_func_def compare_ip_stats_def)

lemma ip_name_param_good: "index_size d \<noteq> 0 \<Longrightarrow> good_param (ip_name_param d)"
  by (rule good_param_mod [where f = id])
    (auto simp: ip_name_param_def ip_name_value_hash_func_def compare_ip_name_def)

lemma key_of_unsigned_inject [simp]: "key_of_unsigned a = key_of_unsigned b \<longleftrightarrow> a = b"
proof -
  have "unat (key_of_unsigned x) = unat x" for x by (simp add: key_of_unsigned_def unat_u64_of_u32)
  then show ?thesis by (metis word_unat_eq_iff)
qed

text \<open>The two widenings agree on the addresses below 128.0.0.0 and are apart above.\<close>

lemma key_of_int_low:
  assumes "\<not> bit a 31"
  shows "key_of_int a = key_of_unsigned a"
proof (rule bit_eqI)
  fix n
  have "n = 31" if "bit a n" "31 \<le> n" using that bit_imp_le_length [of a n] by simp
  then show "bit (key_of_int a) n = bit (key_of_unsigned a) n"
    using assms by (auto simp: key_of_int_def key_of_unsigned_def bit_simps min_def)
qed

lemma key_of_int_high: "bit a 31 \<Longrightarrow> key_of_int a \<noteq> key_of_unsigned b"
proof
  assume top: "bit a 31" and eq: "key_of_int a = key_of_unsigned b"
  from top have "bit (key_of_int a) 63" by (simp add: key_of_int_def bit_simps)
  moreover have "\<not> bit (key_of_unsigned b) 63" 
    using bit_imp_le_length [of b 63] by (auto simp: key_of_unsigned_def bit_simps)
  ultimately show False using eq by simp
qed

text \<open>The keys of the table are those \<^verbatim>\<open>nfs_ip_stats_add\<close> makes.\<close>

definition ip_stats_inv :: "ip_stats_tables \<Rightarrow> bool" where
  "ip_stats_inv st \<longleftrightarrow> table_inv (ip_mem st) (ht_ip_stats st) \<and>
     dom (table_map (ht_ip_stats st)) \<subseteq> range key_of_unsigned"

abbreviation stats_ptr :: "ip_stats_tables \<Rightarrow> u32 \<Rightarrow> ptr" where
  "stats_ptr st ipaddr \<equiv> table_map (ht_ip_stats st) (key_of_unsigned ipaddr)"

text \<open>
  \<^verbatim>\<open>nfs_ip_stats_remove\<close> forgets the clients below 128.0.0.0 and no other: it takes the address as an
  \<^verbatim>\<open>int\<close>, whose widening to the key is signed, while the keys are unsigned.
\<close>

lemma ip_stats_remove_misses_high:
  assumes "ip_stats_inv st" and "dump \<noteq> 0"
  shows "\<exists>st'. nfs_ip_stats_remove dump ipaddr st =
      Some (if bit ipaddr 31 \<or> stats_ptr st ipaddr = None then IP_NOT_FOUND else IP_SUCCESS, st') \<and>
    ip_stats_inv st' \<and> ip_heap st' = ip_heap st \<and>
    table_map (ht_ip_stats st') =
      (if bit ipaddr 31 then table_map (ht_ip_stats st)
       else (table_map (ht_ip_stats st))(key_of_unsigned ipaddr := None))"
proof -
  have inv: "table_inv (ip_mem st) (ht_ip_stats st)" and keys: "dom (table_map (ht_ip_stats st)) \<subseteq> range key_of_unsigned"
    using assms(1) by (auto simp: ip_stats_inv_def)
  from table.del_law [OF inv, of "key_of_int ipaddr"] obtain ht where d:
    "HashTable_Del (ht_ip_stats st) (key_of_int ipaddr) =
       Some (get_rc (table_map (ht_ip_stats st) (key_of_int ipaddr)),
         map_option (Pair (key_of_int ipaddr)) (table_map (ht_ip_stats st) (key_of_int ipaddr)), ht)"
    "table_inv (ip_mem st) ht" "table_map ht = (table_map (ht_ip_stats st))(key_of_int ipaddr := None)" by blast
  show ?thesis
  proof (cases "bit ipaddr 31")
    case True
    with keys have none: "table_map (ht_ip_stats st) (key_of_int ipaddr) = None"
      using key_of_int_high by fastforce
    then have "table_map ht = table_map (ht_ip_stats st)" using d(3) by (simp add: fun_upd_idem)
    with d(1,2) none True assms show ?thesis by (simp add: nfs_ip_stats_remove_def ip_stats_inv_def)
  next
    case False
    note k = key_of_int_low [OF False]
    have "dom (table_map ht) \<subseteq> range key_of_unsigned" using keys d(3) by auto
    with d k False assms(2) show ?thesis
      by (cases "stats_ptr st ipaddr") (auto simp: nfs_ip_stats_remove_def ip_stats_inv_def)
  qed
qed

section \<open>Counting\<close>

lemma nfs_ip_stats_incr_spec:
  assumes "ip_stats_inv st" and "dump \<noteq> 0"
  shows "\<exists>ht. ip_stats_inv (st\<lparr>ht_ip_stats := ht\<rparr>) \<and> table_map ht = table_map (ht_ip_stats st) \<and>
    parameter ht = parameter (ht_ip_stats st) \<and>
    nfs_ip_stats_incr dump ipaddr nfs_prog mnt_prog req st =
      (case stats_ptr st ipaddr of
         None \<Rightarrow> Some (IP_NOT_FOUND, st\<lparr>ht_ip_stats := ht\<rparr>)
       | Some p \<Rightarrow> map_option (\<lambda>s. (IP_SUCCESS, st\<lparr>ht_ip_stats := ht, ip_heap := (ip_heap st)(p := s)\<rparr>))
                     (count_request nfs_prog mnt_prog req (ip_heap st p)))"
proof -
  have inv: "table_inv (ip_mem st) (ht_ip_stats st)" using assms(1) by (simp add: ip_stats_inv_def)
  from table.get_law [OF inv, of "key_of_unsigned ipaddr"] obtain ht where g:
    "HashTable_Get (ht_ip_stats st) (key_of_unsigned ipaddr) =
       Some (get_rc (stats_ptr st ipaddr), stats_ptr st ipaddr, ht)"
    "table_inv (ip_mem st) ht" "table_map ht = table_map (ht_ip_stats st)" by blast
  have "parameter ht = parameter (ht_ip_stats st)" by (rule HashTable_Get_frame [OF g(1)])
  with g assms show ?thesis
    by (intro exI [of _ ht], cases "stats_ptr st ipaddr")
      (auto simp: nfs_ip_stats_incr_def ip_stats_inv_def map_option_case split: option.splits)
qed

lemma nfs_ip_stats_add_spec:
  assumes "ip_stats_inv st" and "dump \<noteq> 0" and "mem_good (ip_mem st)"
    and "nb_node_prealloc (dims (parameter (ht_ip_stats st))) \<noteq> 0"
  shows "\<exists>m ht. nfs_ip_stats_add dump nb ipaddr (p # pool) st =
      Some (IP_SUCCESS, st\<lparr>ip_mem := m, ht_ip_stats := ht, ip_heap := (ip_heap st)(p := ip_stats_zero)\<rparr>) \<and>
    table_map ht = (table_map (ht_ip_stats st))(key_of_unsigned ipaddr \<mapsto> p) \<and> mem_good m \<and>
    parameter ht = parameter (ht_ip_stats st) \<and> ip_stats_inv (st\<lparr>ip_mem := m, ht_ip_stats := ht\<rparr>)"
proof -
  have inv: "table_inv (ip_mem st) (ht_ip_stats st)" using assms(1) by (simp add: ip_stats_inv_def)
  obtain rc m ht where s: "HashTable_Test_And_Set (ip_mem st) (ht_ip_stats st) (key_of_unsigned ipaddr) p
      HASHTABLE_SET_HOW_SET_OVERWRITE = Some (rc, m, ht)" "table_inv m ht" "brk (ip_mem st) \<le> brk m"
    "rc = HASHTABLE_SUCCESS \<and> table_map ht = (table_map (ht_ip_stats st))(key_of_unsigned ipaddr \<mapsto> p) \<or>
     rc = HASHTABLE_INSERT_MALLOC_ERROR \<and> table_map ht = table_map (ht_ip_stats st)"
    by (rule HashTable_Set_overwrite [OF inv])
  note f = HashTable_Set_frame [OF s(1)]
  have ok: "rc = HASHTABLE_SUCCESS" "table_map ht = (table_map (ht_ip_stats st))(key_of_unsigned ipaddr \<mapsto> p)"
    using s(4) f(3) [OF assms(3,4)] by auto
  have "nfs_ip_stats_add dump nb ipaddr (p # pool) st =
      Some (IP_SUCCESS, st\<lparr>ip_mem := m, ht_ip_stats := ht, ip_heap := (ip_heap st)(p := ip_stats_zero)\<rparr>)"
    using assms(2) s(1) ok(1) by (simp add: nfs_ip_stats_add_def GET_PREALLOC_def)
  moreover have "mem_good m" using f(2) assms(3) by (simp add: mem_good_def)
  moreover have "ip_stats_inv (st\<lparr>ip_mem := m, ht_ip_stats := ht\<rparr>)"
    using s(2) ok(2) assms(1) by (auto simp: ip_stats_inv_def)
  ultimately show ?thesis using ok(2) f(1) by blast
qed

definition stats_room :: "ip_stats_tables \<Rightarrow> bool" where
  "stats_room st \<longleftrightarrow> ip_stats_inv st \<and> mem_good (ip_mem st) \<and> nb_node_prealloc (dims (parameter (ht_ip_stats st))) \<noteq> 0"

lemma count_client_new:
  assumes "stats_room st" and "dump \<noteq> 0" and "stats_ptr st ipaddr = None"
    and "count_request nfs_prog mnt_prog req ip_stats_zero = Some s"
  shows "\<exists>st'. count_client dump nb (p # pool) ipaddr nfs_prog mnt_prog req st = Some st' \<and> stats_room st' \<and>
    table_map (ht_ip_stats st') = (table_map (ht_ip_stats st))(key_of_unsigned ipaddr \<mapsto> p) \<and>
    ip_heap st' = (ip_heap st)(p := s)"
proof -
  have r: "ip_stats_inv st" "mem_good (ip_mem st)" "nb_node_prealloc (dims (parameter (ht_ip_stats st))) \<noteq> 0"
    using assms(1) by (auto simp: stats_room_def)
  from nfs_ip_stats_incr_spec [OF r(1) assms(2), of ipaddr nfs_prog mnt_prog req] assms(3)
  obtain ht where 1: "ip_stats_inv (st\<lparr>ht_ip_stats := ht\<rparr>)" "table_map ht = table_map (ht_ip_stats st)"
    "parameter ht = parameter (ht_ip_stats st)"
    "nfs_ip_stats_incr dump ipaddr nfs_prog mnt_prog req st = Some (IP_NOT_FOUND, st\<lparr>ht_ip_stats := ht\<rparr>)"
    by (simp only: option.case) blast
  let ?st = "st\<lparr>ht_ip_stats := ht\<rparr>"
  have "mem_good (ip_mem ?st)" "nb_node_prealloc (dims (parameter (ht_ip_stats ?st))) \<noteq> 0" using r(2,3) 1(3) by simp_all
  from nfs_ip_stats_add_spec [OF 1(1) assms(2) this, of nb ipaddr p pool] obtain m ht2 where
    2: "nfs_ip_stats_add dump nb ipaddr (p # pool) ?st =
        Some (IP_SUCCESS, ?st\<lparr>ip_mem := m, ht_ip_stats := ht2, ip_heap := (ip_heap st)(p := ip_stats_zero)\<rparr>)"
      "table_map ht2 = (table_map ht)(key_of_unsigned ipaddr \<mapsto> p)" "mem_good m" "parameter ht2 = parameter ht"
      "ip_stats_inv (?st\<lparr>ip_mem := m, ht_ip_stats := ht2\<rparr>)" by auto
  let ?st2 = "?st\<lparr>ip_mem := m, ht_ip_stats := ht2, ip_heap := (ip_heap st)(p := ip_stats_zero)\<rparr>"
  have inv2: "ip_stats_inv ?st2" using 2(5) by (simp add: ip_stats_inv_def)
  have ptr: "stats_ptr ?st2 ipaddr = Some p" "ip_heap ?st2 p = ip_stats_zero" using 2(2) by simp_all
  from nfs_ip_stats_incr_spec [OF inv2 assms(2), of ipaddr nfs_prog mnt_prog req]
  obtain ht3 where 3: "ip_stats_inv (?st2\<lparr>ht_ip_stats := ht3\<rparr>)" "table_map ht3 = table_map ht2"
    "parameter ht3 = parameter ht2" "nfs_ip_stats_incr dump ipaddr nfs_prog mnt_prog req ?st2 =
      Some (IP_SUCCESS, ?st2\<lparr>ht_ip_stats := ht3, ip_heap := (ip_heap ?st2)(p := s)\<rparr>)"
    unfolding ptr option.case assms(4) option.map by auto
  have "ip_stats_inv (?st2\<lparr>ht_ip_stats := ht3, ip_heap := (ip_heap ?st2)(p := s)\<rparr>)"
    using 3(1) by (simp add: ip_stats_inv_def)
  with 1 2 3 r(3) show ?thesis by (simp add: count_client_def stats_room_def)
qed

text \<open>
  A worker passes its pool of counter records by value, so \<^verbatim>\<open>GET_PREALLOC\<close> hands out the same record
  for every new client: after the first request of two clients they share one record, and the
  counters of the first client are lost.
\<close>

theorem ip_stats_clients_share_record:
  assumes "stats_room st" and "dump \<noteq> 0" and "a \<noteq> b" and "stats_ptr st a = None" and "stats_ptr st b = None"
    and "count_request nfs_prog mnt_prog req_a ip_stats_zero = Some s_a"
    and "count_request nfs_prog mnt_prog req_b ip_stats_zero = Some s_b"
  shows "\<exists>st1 st2. count_client dump nb (p # pool) a nfs_prog mnt_prog req_a st = Some st1 \<and>
    stats_ptr st1 a = Some p \<and> ip_heap st1 p = s_a \<and>
    count_client dump nb (p # pool) b nfs_prog mnt_prog req_b st1 = Some st2 \<and>
    stats_ptr st2 a = Some p \<and> stats_ptr st2 b = Some p \<and> ip_heap st2 p = s_b"
proof -
  from count_client_new [OF assms(1,2,4,6), of nb p pool] obtain st1 where 1:
    "count_client dump nb (p # pool) a nfs_prog mnt_prog req_a st = Some st1" "stats_room st1"
    "table_map (ht_ip_stats st1) = (table_map (ht_ip_stats st))(key_of_unsigned a \<mapsto> p)"
    "ip_heap st1 = (ip_heap st)(p := s_a)" by blast
  have "stats_ptr st1 b = None" using 1(3) assms(3,5) by simp
  from count_client_new [OF 1(2) assms(2) this assms(7), of nb p pool] 1 assms(3) show ?thesis by auto
qed

definition small_stats :: ip_stats_tables where
  "small_stats = (case new_table (ip_stats_param small_dims) mem_ok of
     (ht, m) \<Rightarrow> \<lparr>ip_mem = m, ht_ip_stats = ht, ip_heap = (\<lambda>p. ip_stats_zero)\<rparr>)"

lemma small_stats_room: "stats_room small_stats" "table_map (ht_ip_stats small_stats) = Map.empty"
proof -
  obtain ht m where t: "(new_table (ip_stats_param small_dims) mem_ok :: (u64, addr) hash_table \<times> mem) = (ht, m)"
    by (cases "new_table (ip_stats_param small_dims) mem_ok :: (u64, addr) hash_table \<times> mem") auto
  note n = new_table [OF ip_stats_param_good [OF small_dims_nonzero(1)] mem_ok_good _ _ t]
  have "table_inv m ht" "table_map ht = Map.empty" "mem_good m" "parameter ht = ip_stats_param small_dims"
    using n(2,3,5,6) small_dims_nonzero by (auto simp: ip_stats_param_def)
  with t small_dims_nonzero(2) show "stats_room small_stats" "table_map (ht_ip_stats small_stats) = Map.empty"
    by (simp_all add: small_stats_def stats_room_def ip_stats_inv_def ip_stats_param_def)
qed

abbreviation getattr3 :: svc_req where
  "getattr3 \<equiv> \<lparr>rq_prog = 100003, rq_vers = 3, rq_proc = 1\<rparr>"

abbreviation read3 :: svc_req where
  "read3 \<equiv> \<lparr>rq_prog = 100003, rq_vers = 3, rq_proc = 6\<rparr>"

theorem ip_stats_clients_share_record_witness:
  "\<exists>st1 st2. count_client 1 20 [7, 8] 5 100003 100005 getattr3 small_stats = Some st1 \<and>
    req_nfs3 (ip_heap st1 7) ! 1 = 1 \<and>
    count_client 1 20 [7, 8] 6 100003 100005 read3 st1 = Some st2 \<and>
    stats_ptr st2 5 = Some 7 \<and> stats_ptr st2 6 = Some 7 \<and> req_nfs3 (ip_heap st2 7) ! 1 = 0"
proof -
  have c: "count_request 100003 100005 getattr3 ip_stats_zero =
      Some (ip_stats_zero\<lparr>nb_call := 1, nb_req_nfs3 := 1, req_nfs3 := (replicate 22 0)[1 := 1]\<rparr>)"
    "count_request 100003 100005 read3 ip_stats_zero =
      Some (ip_stats_zero\<lparr>nb_call := 1, nb_req_nfs3 := 1, req_nfs3 := (replicate 22 0)[6 := 1]\<rparr>)"
    by (simp_all add: count_request_def incr_at_def ip_stats_zero_def NFS_V3_NB_COMMAND_def)
  have "(5 :: u32) \<noteq> 6" "stats_ptr small_stats 5 = None" "stats_ptr small_stats 6 = None"
    using small_stats_room(2) by simp_all
  from ip_stats_clients_share_record [OF small_stats_room(1) _ this c, of 1 20 7 "[8]"] show ?thesis by auto
qed


section \<open>Host names\<close>

definition ip_name_ok :: "ip_name_tables \<Rightarrow> bool" where
  "ip_name_ok st \<longleftrightarrow> table_inv (ipn_mem st) (ht_ip_name st) \<and> (\<forall>p \<in> ran (table_map (ht_ip_name st)). p < brk (ipn_mem st))"

text \<open>The cached records by address.\<close>

definition ip_names :: "ip_name_tables \<Rightarrow> u64 \<rightharpoonup> nfs_ip_name" where
  "ip_names st = map_option (ipn_heap st) \<circ> table_map (ht_ip_name st)"

lemma strncpy_strncpy [simp]: "strncpy (strncpy s n) n = strncpy s n"
  by (simp add: strncpy_def)

lemma set_ip_name_spec:
  assumes "ip_name_ok st" and "Mem_Alloc 1 (ipn_mem st) = (Some p, m)"
  shows "\<exists>rc st'. set_ip_name ipaddr name now p (st\<lparr>ipn_mem := m\<rparr>) = Some (rc, st') \<and>
    ipn_heap st' p = \<lparr>ipn_ipaddr = ipaddr, timestamp = now, hostname = strncpy name MAXHOSTNAMELEN\<rparr> \<and>
    ip_name_ok st' \<and>
    (rc = HASHTABLE_SUCCESS \<and> ip_names st' = (ip_names st)(key_of_unsigned ipaddr \<mapsto>
       \<lparr>ipn_ipaddr = ipaddr, timestamp = now, hostname = strncpy name MAXHOSTNAMELEN\<rparr>) \<or>
     rc = HASHTABLE_INSERT_MALLOC_ERROR \<and> ip_names st' = ip_names st)"
proof -
  let ?r = "\<lparr>ipn_ipaddr = ipaddr, timestamp = now, hostname = strncpy name MAXHOSTNAMELEN\<rparr>"
  let ?h = "(ipn_heap st)(p := ?r)"
  have inv: "table_inv (ipn_mem st) (ht_ip_name st)" and lt: "\<forall>q \<in> ran (table_map (ht_ip_name st)). q < brk (ipn_mem st)"
    using assms(1) by (auto simp: ip_name_ok_def)
  have p: "p = brk (ipn_mem st)" "brk m = brk (ipn_mem st) + 1" using Mem_Alloc_Some [OF assms(2)] by auto
  obtain rc m' ht where s: "HashTable_Test_And_Set m (ht_ip_name st) (key_of_unsigned ipaddr) p
      HASHTABLE_SET_HOW_SET_OVERWRITE = Some (rc, m', ht)" "table_inv m' ht" "brk m \<le> brk m'"
    "rc = HASHTABLE_SUCCESS \<and> table_map ht = (table_map (ht_ip_name st))(key_of_unsigned ipaddr \<mapsto> p) \<or>
     rc = HASHTABLE_INSERT_MALLOC_ERROR \<and> table_map ht = table_map (ht_ip_name st)"
    by (rule HashTable_Set_overwrite [OF table_inv_Mem_Alloc [OF inv assms(2)]])
  let ?st = "st\<lparr>ipn_mem := m', ht_ip_name := ht, ipn_heap := ?h\<rparr>"
  have run: "set_ip_name ipaddr name now p (st\<lparr>ipn_mem := m\<rparr>) = Some (rc, ?st)" using s(1) by (simp add: set_ip_name_def)
  have "ran (table_map ht) \<subseteq> insert p (ran (table_map (ht_ip_name st)))"
    using s(4) ran_upd_subset [of "table_map (ht_ip_name st)" "key_of_unsigned ipaddr" p] by auto
  then have "\<forall>q \<in> ran (table_map ht). q < brk m'" using lt p s(3) by fastforce
  then have ok: "ip_name_ok ?st" using s(2) by (simp add: ip_name_ok_def)
  from s(4) have "rc = HASHTABLE_SUCCESS \<and> ip_names ?st = (ip_names st)(key_of_unsigned ipaddr \<mapsto> ?r) \<or>
     rc = HASHTABLE_INSERT_MALLOC_ERROR \<and> ip_names ?st = ip_names st"
  proof
    assume "rc = HASHTABLE_SUCCESS \<and> table_map ht = (table_map (ht_ip_name st))(key_of_unsigned ipaddr \<mapsto> p)"
    with deref_upd [OF lt, of p "ipn_heap st" ?r] p(1) show ?thesis by (simp add: ip_names_def)
  next
    assume "rc = HASHTABLE_INSERT_MALLOC_ERROR \<and> table_map ht = table_map (ht_ip_name st)"
    with deref_same [OF lt, of p "ipn_heap st" ?r] p(1) show ?thesis by (simp add: ip_names_def)
  qed
  with run ok show ?thesis by auto
qed

text \<open>
  \<^verbatim>\<open>nfs_ip_name_add\<close> asks the resolver and caches the first \<^verbatim>\<open>MAXHOSTNAMELEN\<close> bytes of the name:
  \<^verbatim>\<open>nfs_ip_name_get\<close> then returns what the caller of \<^verbatim>\<open>nfs_ip_name_add\<close> got, other addresses keep their
  names, and a failure of the resolver or of an allocation changes no name.
\<close>

lemma ip_name_add_get:
  assumes "ip_name_ok st"
  shows "\<exists>rc name st'. nfs_ip_name_add gethostbyaddr now ipaddr st = Some (rc, name, st') \<and> ip_name_ok st' \<and>
    (case rc of
       IP_SUCCESS \<Rightarrow> (\<exists>h st''. gethostbyaddr ipaddr = Some h \<and> name = Some (strncpy h MAXHOSTNAMELEN) \<and>
         ip_names st' = (ip_names st)(key_of_unsigned ipaddr \<mapsto>
           \<lparr>ipn_ipaddr = ipaddr, timestamp = now, hostname = strncpy h MAXHOSTNAMELEN\<rparr>) \<and>
         nfs_ip_name_get ipaddr st' = Some (IP_SUCCESS, name, st''))
     | IP_NETDB_ERROR \<Rightarrow> gethostbyaddr ipaddr = None \<and> name = None \<and> ip_names st' = ip_names st
     | IP_INSERT_MALLOC_ERROR \<Rightarrow> name = None \<and> ip_names st' = ip_names st
     | IP_NOT_FOUND \<Rightarrow> False)"
proof -
  obtain p m where a: "Mem_Alloc 1 (ipn_mem st) = (p, m)" by (cases "Mem_Alloc 1 (ipn_mem st)") auto
  have ok: "ip_name_ok (st\<lparr>ipn_mem := m\<rparr>)"
    using assms Mem_Alloc_brk [OF a] by (auto simp: ip_name_ok_def intro: table_inv_mono)
  show ?thesis
  proof (cases "p = None \<or> gethostbyaddr ipaddr = None")
    case True
    with a ok show ?thesis
      by (cases p) (auto simp: nfs_ip_name_add_def ip_names_def Let_def simp del: One_nat_def)
  next
    case False
    then obtain q h where q: "p = Some q" "gethostbyaddr ipaddr = Some h" by auto
    from set_ip_name_spec [OF assms a [unfolded q(1)], of ipaddr h now] obtain rc st' where
      s: "set_ip_name ipaddr h now q (st\<lparr>ipn_mem := m\<rparr>) = Some (rc, st')"
        "ipn_heap st' q = \<lparr>ipn_ipaddr = ipaddr, timestamp = now, hostname = strncpy h MAXHOSTNAMELEN\<rparr>"
        "ip_name_ok st'" "rc = HASHTABLE_SUCCESS \<and> ip_names st' = (ip_names st)(key_of_unsigned ipaddr \<mapsto>
           \<lparr>ipn_ipaddr = ipaddr, timestamp = now, hostname = strncpy h MAXHOSTNAMELEN\<rparr>) \<or>
         rc = HASHTABLE_INSERT_MALLOC_ERROR \<and> ip_names st' = ip_names st" by blast
    from s(4) show ?thesis
    proof
      assume new: "rc = HASHTABLE_SUCCESS \<and> ip_names st' = (ip_names st)(key_of_unsigned ipaddr \<mapsto>
           \<lparr>ipn_ipaddr = ipaddr, timestamp = now, hostname = strncpy h MAXHOSTNAMELEN\<rparr>)"
      then obtain r where r: "table_map (ht_ip_name st') (key_of_unsigned ipaddr) = Some r"
        "ipn_heap st' r = \<lparr>ipn_ipaddr = ipaddr, timestamp = now, hostname = strncpy h MAXHOSTNAMELEN\<rparr>"
        by (auto simp: ip_names_def fun_eq_iff split: if_splits)
      have "table_inv (ipn_mem st') (ht_ip_name st')" using s(3) by (simp add: ip_name_ok_def)
      from table.get_law [OF this, of "key_of_unsigned ipaddr"] r
      have "\<exists>st''. nfs_ip_name_get ipaddr st' = Some (IP_SUCCESS, Some (strncpy h MAXHOSTNAMELEN), st'')"
        by (auto simp: nfs_ip_name_get_def)
      with new s(1-3) a q show ?thesis
        by (auto simp: nfs_ip_name_add_def Let_def simp del: One_nat_def)
    next
      assume "rc = HASHTABLE_INSERT_MALLOC_ERROR \<and> ip_names st' = ip_names st"
      with s(1,3) a q show ?thesis by (auto simp: nfs_ip_name_add_def Let_def simp del: One_nat_def)
    qed
  qed
qed

definition small_names :: ip_name_tables where
  "small_names = (case new_table (ip_name_param small_dims) mem_ok of
     (ht, m) \<Rightarrow> \<lparr>ipn_mem = m, ht_ip_name = ht, ipn_heap = (\<lambda>p. \<lparr>ipn_ipaddr = 0, timestamp = 0, hostname = []\<rparr>)\<rparr>)"

lemma small_names_ok: "ip_name_ok small_names"
proof -
  obtain ht m where t: "(new_table (ip_name_param small_dims) mem_ok :: (u64, addr) hash_table \<times> mem) = (ht, m)"
    by (cases "new_table (ip_name_param small_dims) mem_ok :: (u64, addr) hash_table \<times> mem") auto
  note n = new_table [OF ip_name_param_good [OF small_dims_nonzero(1)] mem_ok_good _ _ t]
  have "table_inv m ht" "table_map ht = Map.empty"
    using n(2,3) small_dims_nonzero by (auto simp: ip_name_param_def)
  with t show ?thesis by (simp add: small_names_def ip_name_ok_def)
qed


end
