(* ===== verification/Open_Owner.thy ===== *)
theory Open_Owner
  imports Hash_Table C_String
begin

text \<open>
  The NFSv4 open owners of \<^verbatim>\<open>support/nfs_open_owner.c\<close>: a hash table from owner names (a client id and
  an opaque string) to records in the heap, and the global counter that numbers them.

  \<open>owner_len\<close> is the length of \<open>owner_val\<close>. The functions return 1 or 0, which is \<open>True\<close> or \<open>False\<close> here.
\<close>

record owner_name =
  on_clientid :: u64
  on_val :: "u8 list"

record open_owner =
  oo_clientid :: u64
  oo_val :: "u8 list"
  oo_confirmed :: u32
  oo_seqid :: u32
  oo_counter :: u32
  related_owner :: ptr

record owner_store =
  oo_mem :: mem
  ht_open_owner :: "(owner_name, addr) hash_table"
  owners :: "addr \<Rightarrow> open_owner"
  open_owner_counter :: u32

definition OWNER_VAL_SIZE :: nat where
  "OWNER_VAL_SIZE = 255"

section \<open>Hash functions\<close>

definition compare_open_owner :: "owner_name \<Rightarrow> owner_name \<Rightarrow> int" where
  "compare_open_owner n1 n2 =
     (if on_clientid n1 \<noteq> on_clientid n2 then 1
      else if length (on_val n1) \<noteq> length (on_val n2) then 1
      else memcmp (on_val n1) (on_val n2) (length (on_val n1)))"

definition owner_sum :: "owner_name \<Rightarrow> u64" where
  "owner_sum n = on_clientid n + ucast (foldl (\<lambda>acc c. acc + ucast c) (0 :: u32) (on_val n)) + of_nat (length (on_val n))"

definition open_owner_value_hash_func :: "hash_dims \<Rightarrow> owner_name \<Rightarrow> u64" where
  "open_owner_value_hash_func d n = owner_sum n mod ucast (index_size d)"

definition open_owner_rbt_hash_func :: "hash_dims \<Rightarrow> owner_name \<Rightarrow> u64" where
  "open_owner_rbt_hash_func d n = owner_sum n"

definition open_owner_param :: "hash_dims \<Rightarrow> owner_name hash_parameter" where
  "open_owner_param d = \<lparr>dims = d, hash_func_key = open_owner_value_hash_func,
     hash_func_rbt = open_owner_rbt_hash_func, compare_key = compare_open_owner\<rparr>"

section \<open>Operations\<close>

definition nfs4_Init_open_owner ::
  "int \<Rightarrow> (nat \<Rightarrow> pthread_codes) \<Rightarrow> hash_dims \<Rightarrow> mem \<Rightarrow> int \<times> (owner_name, addr) hash_table option \<times> mem" where
  "nfs4_Init_open_owner attr_rc codes d m =
     (case HashTable_Init attr_rc codes (open_owner_param d) m of
        (None, m) \<Rightarrow> (- 1, None, m)
      | (Some ht, m) \<Rightarrow> (0, Some ht, m))"

definition nfs_open_owner_Set :: "owner_name \<Rightarrow> addr \<Rightarrow> owner_store \<Rightarrow> (bool \<times> owner_store) option" where
  "nfs_open_owner_Set name powner st = do {
     let c = open_owner_counter st + 1;
     let st = st\<lparr>open_owner_counter := c, owners := (owners st)(powner := (owners st powner)\<lparr>oo_counter := c\<rparr>)\<rparr>;
     (rc, m, ht) \<leftarrow> HashTable_Test_And_Set (oo_mem st) (ht_open_owner st) name powner
                      HASHTABLE_SET_HOW_SET_NO_OVERWRITE;
     Some (rc = HASHTABLE_SUCCESS, st\<lparr>oo_mem := m, ht_open_owner := ht\<rparr>) }"

definition nfs_open_owner_Get_Pointer :: "owner_name \<Rightarrow> owner_store \<Rightarrow> (bool \<times> ptr \<times> owner_store) option" where
  "nfs_open_owner_Get_Pointer name st = do {
     (rc, buffval, ht) \<leftarrow> HashTable_Get (ht_open_owner st) name;
     let st = st\<lparr>ht_open_owner := ht\<rparr>;
     if rc \<noteq> HASHTABLE_SUCCESS then Some (False, None, st) else Some (True, buffval, st) }"

definition nfs_open_owner_Get :: "owner_name \<Rightarrow> owner_store \<Rightarrow> (bool \<times> open_owner option \<times> owner_store) option" where
  "nfs_open_owner_Get name st = do {
     (rc, buffval, ht) \<leftarrow> HashTable_Get (ht_open_owner st) name;
     let st = st\<lparr>ht_open_owner := ht\<rparr>;
     if rc \<noteq> HASHTABLE_SUCCESS then Some (False, None, st)
     else do { p \<leftarrow> buffval; Some (True, Some (owners st p), st) } }"

definition nfs_open_owner_Update :: "owner_name \<Rightarrow> open_owner \<Rightarrow> owner_store \<Rightarrow> (bool \<times> owner_store) option" where
  "nfs_open_owner_Update name owner st = do {
     (rc, buffval, ht) \<leftarrow> HashTable_Get (ht_open_owner st) name;
     let st = st\<lparr>ht_open_owner := ht\<rparr>;
     if rc \<noteq> HASHTABLE_SUCCESS then Some (False, st)
     else do { p \<leftarrow> buffval; Some (True, st\<lparr>owners := (owners st)(p := owner)\<rparr>) } }"

definition nfs_open_owner_Del :: "owner_name \<Rightarrow> owner_store \<Rightarrow> (bool \<times> owner_store) option" where
  "nfs_open_owner_Del name st = do {
     (rc, old, ht) \<leftarrow> HashTable_Del (ht_open_owner st) name;
     Some (rc = HASHTABLE_SUCCESS, st\<lparr>ht_open_owner := ht\<rparr>) }"

text \<open>The copy into the buffer of \<^verbatim>\<open>MAXNAMLEN\<close> bytes is not bounded: a longer name is \<open>None\<close>.\<close>

definition nfs_convert_open_owner :: "(u64 \<times> u8 list) option \<Rightarrow> bool \<Rightarrow> (bool \<times> owner_name option) option" where
  "nfs_convert_open_owner nfsowner name_null =
     (case nfsowner of
        None \<Rightarrow> Some (False, None)
      | Some (clientid, owner) \<Rightarrow>
          if name_null then Some (False, None)
          else if length owner \<le> OWNER_VAL_SIZE
          then Some (True, Some \<lparr>on_clientid = clientid, on_val = owner\<rparr>)
          else None)"

section \<open>The table of owners\<close>

lemma open_owner_param_good: "index_size d \<noteq> 0 \<Longrightarrow> good_param (open_owner_param d)"
  by (rule good_param_mod [where f = owner_sum])
    (auto simp: open_owner_param_def open_owner_value_hash_func_def compare_open_owner_def memcmp_zero)

definition owner_inv :: "owner_store \<Rightarrow> bool" where
  "owner_inv st \<longleftrightarrow> table_inv (oo_mem st) (ht_open_owner st)"

abbreviation owner_map :: "owner_store \<Rightarrow> owner_name \<rightharpoonup> addr" where
  "owner_map st \<equiv> table_map (ht_open_owner st)"

text \<open>
  The counters of the owners that are in the table: at most the global counter, and different for
  different records. \<open>distinct_counters\<close> is lost only when the global counter wraps around.
\<close>

definition distinct_counters :: "owner_store \<Rightarrow> bool" where
  "distinct_counters st \<longleftrightarrow>
     (\<forall>p \<in> ran (owner_map st). oo_counter (owners st p) \<le> open_owner_counter st) \<and>
     inj_on (\<lambda>p. oo_counter (owners st p)) (ran (owner_map st))"

lemma nfs_open_owner_Set_spec:
  assumes "owner_inv st"
  shows "\<exists>r st'. nfs_open_owner_Set name p st = Some (r, st') \<and> owner_inv st' \<and>
    open_owner_counter st' = open_owner_counter st + 1 \<and>
    owners st' = (owners st)(p := (owners st p)\<lparr>oo_counter := open_owner_counter st + 1\<rparr>) \<and>
    (if r then owner_map st name = None \<and> owner_map st' = (owner_map st)(name \<mapsto> p) else owner_map st' = owner_map st)"
proof -
  have inv: "table_inv (oo_mem st) (ht_open_owner st)" using assms by (simp add: owner_inv_def)
  from table.set_law [OF inv, of name p HASHTABLE_SET_HOW_SET_NO_OVERWRITE] obtain rc m ht where
    s: "HashTable_Test_And_Set (oo_mem st) (ht_open_owner st) name p HASHTABLE_SET_HOW_SET_NO_OVERWRITE = Some (rc, m, ht)"
      "table_inv m ht" "set_outcome HASHTABLE_SET_HOW_SET_NO_OVERWRITE name p (owner_map st) rc (table_map ht)" by blast
  have "if rc = HASHTABLE_SUCCESS then owner_map st name = None \<and> table_map ht = (owner_map st)(name \<mapsto> p)
      else table_map ht = owner_map st"
    using s(3) by (auto simp: set_outcome_def split: if_splits)
  with s(1,2) show ?thesis by (simp add: nfs_open_owner_Set_def owner_inv_def Let_def)
qed

text \<open>
  C34. Registering a new record under a new name keeps the counters of the registered owners different
  and returns success only for a name that was not registered; an existing name keeps its record. The
  counter is consumed either way.
\<close>

theorem open_owner_set_keeps_counters:
  assumes "owner_inv st" and "distinct_counters st" and "p \<notin> ran (owner_map st)" and "unat (open_owner_counter st) < 2 ^ 32 - 1"
  shows "\<exists>r st'. nfs_open_owner_Set name p st = Some (r, st') \<and> owner_inv st' \<and> distinct_counters st' \<and>
    unat (open_owner_counter st') = unat (open_owner_counter st) + 1 \<and>
    (r \<longrightarrow> owner_map st name = None \<and> owner_map st' = (owner_map st)(name \<mapsto> p)) \<and>
    (owner_map st name \<noteq> None \<longrightarrow> \<not> r \<and> owner_map st' = owner_map st)"
proof -
  from nfs_open_owner_Set_spec [OF assms(1), of name p] obtain r st' where
    s: "nfs_open_owner_Set name p st = Some (r, st')" "owner_inv st'"
      "open_owner_counter st' = open_owner_counter st + 1"
      "owners st' = (owners st)(p := (owners st p)\<lparr>oo_counter := open_owner_counter st + 1\<rparr>)"
      "if r then owner_map st name = None \<and> owner_map st' = (owner_map st)(name \<mapsto> p) else owner_map st' = owner_map st"
    by blast
  have succ: "unat (open_owner_counter st + 1) = unat (open_owner_counter st) + 1"
    using assms(4) by (simp add: unat_word_ariths)
  have old: "oo_counter (owners st' q) = oo_counter (owners st q)" "oo_counter (owners st q) < open_owner_counter st + 1"
    if "q \<in> ran (owner_map st)" for q
  proof -
    show "oo_counter (owners st' q) = oo_counter (owners st q)" using that assms(3) s(4) by auto
    have "oo_counter (owners st q) \<le> open_owner_counter st" using that assms(2) by (auto simp: distinct_counters_def)
    then show "oo_counter (owners st q) < open_owner_counter st + 1"
      using succ by (simp add: word_le_nat_alt word_less_nat_alt)
  qed
  have new: "oo_counter (owners st' p) = open_owner_counter st + 1" using s(4) by simp
  have ran: "ran (owner_map st') \<subseteq> insert p (ran (owner_map st))"
    using s(5) ran_upd_subset [of "owner_map st" name p] by (auto split: if_splits)
  have "oo_counter (owners st' q) \<le> open_owner_counter st'" if "q \<in> insert p (ran (owner_map st))" for q
    using that old [of q] new s(3) by (auto simp: less_imp_le)
  moreover have "inj_on (\<lambda>q. oo_counter (owners st' q)) (insert p (ran (owner_map st)))"
  proof (rule inj_onI)
    fix q q'
    assume q: "q \<in> insert p (ran (owner_map st))" "q' \<in> insert p (ran (owner_map st))"
      and eq: "oo_counter (owners st' q) = oo_counter (owners st' q')"
    have inj: "inj_on (\<lambda>q. oo_counter (owners st q)) (ran (owner_map st))" using assms(2) by (simp add: distinct_counters_def)
    show "q = q'"
    proof (cases "q = p \<or> q' = p")
      case True
      with q eq new old show ?thesis by (metis insertE less_irrefl)
    next
      case False
      with q eq old inj show ?thesis by (auto simp: inj_on_def)
    qed
  qed
  ultimately have "distinct_counters st'"
    unfolding distinct_counters_def using ran by (meson inj_on_subset subsetD)
  with s succ show ?thesis by (auto split: if_splits)
qed

text \<open>An instance: one owner in a table of two trees.\<close>

definition small_owners :: owner_store where
  "small_owners = (case new_table (open_owner_param small_dims) mem_ok of
     (ht, m) \<Rightarrow> \<lparr>oo_mem = m, ht_open_owner = ht,
       owners = (\<lambda>p. \<lparr>oo_clientid = 0, oo_val = [], oo_confirmed = 0, oo_seqid = 0, oo_counter = 0, related_owner = None\<rparr>),
       open_owner_counter = 0\<rparr>)"

lemma small_owners_inv: "owner_inv small_owners" "owner_map small_owners = Map.empty"
proof -
  obtain ht m where t: "(new_table (open_owner_param small_dims) mem_ok :: (owner_name, addr) hash_table \<times> mem) = (ht, m)"
    by (cases "new_table (open_owner_param small_dims) mem_ok :: (owner_name, addr) hash_table \<times> mem") auto
  note n = new_table [OF open_owner_param_good [OF small_dims_nonzero(1)] mem_ok_good _ _ t]
  have "table_inv m ht" "table_map ht = Map.empty" using n(2,3) small_dims_nonzero by (auto simp: open_owner_param_def)
  with t show "owner_inv small_owners" "owner_map small_owners = Map.empty"
    by (simp_all add: small_owners_def owner_inv_def)
qed

theorem open_owner_set_keeps_counters_witness:
  "\<exists>r st'. nfs_open_owner_Set \<lparr>on_clientid = 5, on_val = [1, 2]\<rparr> 9 small_owners = Some (r, st') \<and>
     distinct_counters st' \<and> unat (open_owner_counter st') = 1"
proof -
  have c: "open_owner_counter small_owners = 0" by (simp add: small_owners_def split: prod.splits)
  have "distinct_counters small_owners" "9 \<notin> ran (owner_map small_owners)"
    "unat (open_owner_counter small_owners) < 2 ^ 32 - 1"
    using small_owners_inv(2) c by (simp_all add: distinct_counters_def)
  from open_owner_set_keeps_counters [OF small_owners_inv(1) this, of "\<lparr>on_clientid = 5, on_val = [1, 2]\<rparr>"] c
  show ?thesis by auto
qed

end
