(* ===== verification/State_Id.thy ===== *)
theory State_Id
  imports Client_Id Open_Owner NFS_Status
begin

text \<open>
  The NFSv4 state ids of \<^verbatim>\<open>support/nfs_state_id.c\<close> and the records they stand for (\<^verbatim>\<open>cache_inode_state_t\<close>,
  \<^verbatim>\<open>cache_inode_open_owner_t\<close> and the state fields of \<^verbatim>\<open>cache_entry_t\<close>, all of \<^verbatim>\<open>include/cache_inode.h\<close>).

  States, owners and cache entries live in heaps; the hash table maps the 12 bytes of
  \<open>stateid.other\<close> to pointers to states. \<^verbatim>\<open>FSAL_DigestHandle\<close> belongs to the file system below and is an
  argument: the file id of a handle, or \<open>None\<close> for its error.
\<close>

section \<open>Data\<close>

definition CACHE_INODE_STATE_NONE :: u32 where
  "CACHE_INODE_STATE_NONE = 0"

definition CACHE_INODE_STATE_SHARE :: u32 where
  "CACHE_INODE_STATE_SHARE = 1"

definition CACHE_INODE_STATE_DELEG :: u32 where
  "CACHE_INODE_STATE_DELEG = 2"

definition CACHE_INODE_STATE_LOCK :: u32 where
  "CACHE_INODE_STATE_LOCK = 4"

definition CACHE_INODE_STATE_LAYOUT :: u32 where
  "CACHE_INODE_STATE_LAYOUT = 5"

record cache_inode_share =
  oexcl_verifier :: "8 bytes"
  share_access :: u32
  share_deny :: u32
  lockheld :: u32

record cache_inode_lock =
  lk_offset :: u64
  lk_length :: u64
  lk_type :: u32
  popenstate :: ptr

text \<open>
  The union \<^verbatim>\<open>cache_inode_state_data_t\<close> with all its members side by side; the code reads the member that
  the type of the state names.
\<close>

record state_data =
  sd_share :: cache_inode_share
  sd_lock :: cache_inode_lock
  sd_deleg :: u32
  sd_layout :: int

record cache_inode_state =
  state_type :: u32
  sdata :: state_data
  st_seqid :: u32
  stateid_other :: "12 bytes"
  powner :: ptr
  st_next :: ptr
  st_prev :: ptr
  st_pentry :: ptr

record 'h cache_entry =
  ce_type :: cache_inode_file_type
  ce_handle :: 'h
  pstate_head :: ptr
  pstate_tail :: ptr
  ce_lock :: rw_lock

text \<open>The commands that count their errors in \<open>pclient->stat.func_stats\<close>, and the memory of the state functions.\<close>

datatype state_cmd = ADD_STATE | GET_STATE | UPDATE_STATE | DEL_STATE

record 'h state_store =
  ss_mem :: mem
  ht_state_id :: "(12 bytes, addr) hash_table"
  states :: "addr \<Rightarrow> cache_inode_state"
  open_owners :: "addr \<Rightarrow> open_owner"
  entries :: "addr \<Rightarrow> 'h cache_entry"
  pool_state_v4 :: "addr list"
  nb_err_unrecover :: "state_cmd \<Rightarrow> u32"

section \<open>The hash table of states\<close>

definition compare_state_id :: "12 bytes \<Rightarrow> 12 bytes \<Rightarrow> int" where
  "compare_state_id a b = memcmp (bytes_list a) (bytes_list b) 12"

definition state_id_value_hash_func :: "hash_dims \<Rightarrow> 12 bytes \<Rightarrow> u64" where
  "state_id_value_hash_func d key =
     ucast (foldl (\<lambda>acc c. acc + ucast c) (0 :: u32) (bytes_list key) mod index_size d)"

definition state_id_rbt_hash_func :: "hash_dims \<Rightarrow> 12 bytes \<Rightarrow> u64" where
  "state_id_rbt_hash_func d key =
     (let b = bytes_list key;
          i1 = le_word (take 4 b) :: u32;
          i2 = le_word (take 4 (drop 4 b)) :: u32;
          i3 = le_word (take 4 (drop 8 b)) :: u32
      in ucast (i1 XOR i2 XOR i3))"

definition state_id_param :: "hash_dims \<Rightarrow> 12 bytes hash_parameter" where
  "state_id_param d = \<lparr>dims = d, hash_func_key = state_id_value_hash_func,
     hash_func_rbt = state_id_rbt_hash_func, compare_key = compare_state_id\<rparr>"

definition nfs4_Init_state_id ::
  "int \<Rightarrow> (nat \<Rightarrow> pthread_codes) \<Rightarrow> hash_dims \<Rightarrow> mem \<Rightarrow> int \<times> (12 bytes, addr) hash_table option \<times> mem" where
  "nfs4_Init_state_id attr_rc codes d m =
     (case HashTable_Init attr_rc codes (state_id_param d) m of
        (None, m) \<Rightarrow> (- 1, None, m)
      | (Some ht, m) \<Rightarrow> (0, Some ht, m))"

section \<open>Operations\<close>

text \<open>
  \<open>context\<close> says that \<open>pcontext\<close> is not NULL, \<open>boot\<close> is \<open>ServerBootTime\<close>; \<open>None\<close> is the return value 0.
\<close>

definition boot_digest :: "u64 \<Rightarrow> u16" where
  "boot_digest boot = ucast (boot AND 0x0000FFFF)"

definition nfs4_BuildStateId_Other ::
  "('h \<Rightarrow> u64 option) \<Rightarrow> u64 \<Rightarrow> bool \<Rightarrow> 'h cache_entry option \<Rightarrow> open_owner option \<Rightarrow> 12 bytes option" where
  "nfs4_BuildStateId_Other digest boot context pentry popen_owner =
     (if \<not> context then None
      else case (pentry, popen_owner) of
        (Some e, Some own) \<Rightarrow>
          if ce_type e \<noteq> REGULAR_FILE then None
          else (case digest (ce_handle e) of
                  None \<Rightarrow> None
                | Some fileid \<Rightarrow>
                    Some (mk_bytes (le_bytes (boot_digest boot) 2 @ le_bytes fileid 8 @ le_bytes (oo_counter own) 2)))
      | _ \<Rightarrow> None)"

definition nfs4_State_Set :: "12 bytes \<Rightarrow> addr \<Rightarrow> 'h state_store \<Rightarrow> (bool \<times> 'h state_store) option" where
  "nfs4_State_Set other pstate st =
     (case Mem_Alloc 1 (ss_mem st) of
        (None, m) \<Rightarrow> Some (False, st\<lparr>ss_mem := m\<rparr>)
      | (Some key, m) \<Rightarrow> do {
          (rc, m, ht) \<leftarrow> HashTable_Test_And_Set m (ht_state_id st) other pstate HASHTABLE_SET_HOW_SET_OVERWRITE;
          Some (rc = HASHTABLE_SUCCESS, st\<lparr>ss_mem := m, ht_state_id := ht\<rparr>) })"

definition nfs4_State_Get_Pointer :: "12 bytes \<Rightarrow> 'h state_store \<Rightarrow> (bool \<times> ptr \<times> 'h state_store) option" where
  "nfs4_State_Get_Pointer other st = do {
     (rc, buffval, ht) \<leftarrow> HashTable_Get (ht_state_id st) other;
     let st = st\<lparr>ht_state_id := ht\<rparr>;
     if rc \<noteq> HASHTABLE_SUCCESS then Some (False, None, st) else Some (True, buffval, st) }"

definition nfs4_State_Get :: "12 bytes \<Rightarrow> 'h state_store \<Rightarrow> (bool \<times> cache_inode_state option \<times> 'h state_store) option" where
  "nfs4_State_Get other st = do {
     (rc, buffval, ht) \<leftarrow> HashTable_Get (ht_state_id st) other;
     let st = st\<lparr>ht_state_id := ht\<rparr>;
     if rc \<noteq> HASHTABLE_SUCCESS then Some (False, None, st)
     else do { p \<leftarrow> buffval; Some (True, Some (states st p), st) } }"

definition nfs4_State_Update :: "12 bytes \<Rightarrow> cache_inode_state \<Rightarrow> 'h state_store \<Rightarrow> (bool \<times> 'h state_store) option" where
  "nfs4_State_Update other pstate_data st = do {
     (rc, buffval, ht) \<leftarrow> HashTable_Get (ht_state_id st) other;
     let st = st\<lparr>ht_state_id := ht\<rparr>;
     if rc \<noteq> HASHTABLE_SUCCESS then Some (False, st)
     else do { p \<leftarrow> buffval; Some (True, st\<lparr>states := (states st)(p := pstate_data)\<rparr>) } }"

definition nfs4_State_Del :: "12 bytes \<Rightarrow> 'h state_store \<Rightarrow> (bool \<times> 'h state_store) option" where
  "nfs4_State_Del other st = do {
     (rc, old, ht) \<leftarrow> HashTable_Del (ht_state_id st) other;
     Some (rc = HASHTABLE_SUCCESS, st\<lparr>ht_state_id := ht\<rparr>) }"

text \<open>
  \<open>return_bad\<close> is \<open>nfs_param.nfsv4_param.return_bad_stateid\<close>. A state without an owner is a NULL
  dereference, \<open>None\<close>; so is a NULL \<open>pstate\<close> when the full debug trace is on, which reads it before the test
  (\<open>debug\<close>).
\<close>

definition nfs4_Check_Stateid ::
  "bool \<Rightarrow> bool \<Rightarrow> u64 \<Rightarrow> 12 bytes option \<Rightarrow> 'h cache_entry option \<Rightarrow> u64 \<Rightarrow>
   'h state_store \<times> 'c client_tables \<Rightarrow> (nfsstat4 \<times> 'h state_store \<times> 'c client_tables) option" where
  "nfs4_Check_Stateid debug return_bad boot pstate pentry clientid sts =
     (case sts of (st, cl) \<Rightarrow>
      case pstate of
        None \<Rightarrow> if debug then None else Some (NFS4ERR_SERVERFAULT, st, cl)
      | Some other \<Rightarrow>
          (case pentry of
             None \<Rightarrow> Some (NFS4ERR_SERVERFAULT, st, cl)
           | Some e \<Rightarrow>
               if ce_type e \<noteq> REGULAR_FILE then Some (NFS4ERR_SERVERFAULT, st, cl)
               else do {
                 (found, state, st) \<leftarrow> nfs4_State_Get other st;
                 if \<not> found then Some (if return_bad then NFS4ERR_BAD_STATEID else NFS4_OK, st, cl)
                 else do {
                   state \<leftarrow> state;
                   (rc, cl) \<leftarrow> (if clientid = 0 then do {
                       p \<leftarrow> powner state;
                       (rc, r, cl) \<leftarrow> nfs_client_id_get (oo_clientid (open_owners st p)) False cl;
                       Some (rc, cl) }
                     else Some (CLIENT_ID_SUCCESS, cl));
                   if rc \<noteq> CLIENT_ID_SUCCESS then Some (if return_bad then NFS4ERR_BAD_STATEID else NFS4_OK, st, cl)
                   else if boot_digest boot \<noteq> le_word (take 2 (bytes_list other)) then Some (NFS4ERR_STALE_STATEID, st, cl)
                   else Some (NFS4_OK, st, cl) } }))"

section \<open>Laws of the table\<close>

lemma state_id_param_good:
  assumes "index_size d \<noteq> 0"
  shows "good_param (state_id_param d)"
proof -
  have "(ucast (v mod index_size d) :: u64) < ucast (index_size d)" for v :: u32
    using assms by (simp add: word_less_nat_alt unat_u64_of_u32 unat_mod unat_gt_0)
  then show ?thesis
    using memcmp_bytes [where ?'n = 12]
    by (simp add: good_param_def state_id_param_def state_id_value_hash_func_def compare_state_id_def)
qed

definition state_inv :: "'h state_store \<Rightarrow> bool" where
  "state_inv st \<longleftrightarrow> table_inv (ss_mem st) (ht_state_id st)"

abbreviation state_map :: "'h state_store \<Rightarrow> 12 bytes \<rightharpoonup> addr" where
  "state_map st \<equiv> table_map (ht_state_id st)"

text \<open>What the operations may touch besides the states themselves.\<close>

definition same_heaps :: "'h state_store \<Rightarrow> 'h state_store \<Rightarrow> bool" where
  "same_heaps st st' \<longleftrightarrow> states st' = states st \<and> open_owners st' = open_owners st \<and> entries st' = entries st \<and>
     pool_state_v4 st' = pool_state_v4 st \<and> nb_err_unrecover st' = nb_err_unrecover st \<and> brk (ss_mem st) \<le> brk (ss_mem st')"

lemma nfs4_State_Set_spec:
  assumes "state_inv st"
  shows "\<exists>r st'. nfs4_State_Set other p st = Some (r, st') \<and> state_inv st' \<and> same_heaps st st' \<and>
    state_map st' = (if r then (state_map st)(other \<mapsto> p) else state_map st)"
proof -
  obtain a m where a: "Mem_Alloc 1 (ss_mem st) = (a, m)" by (cases "Mem_Alloc 1 (ss_mem st)") auto
  have inv: "table_inv m (ht_state_id st)" using assms table_inv_Mem_Alloc [OF _ a] by (simp add: state_inv_def)
  note le = Mem_Alloc_brk [OF a]
  show ?thesis
  proof (cases a)
    case None
    with a inv le show ?thesis by (auto simp: nfs4_State_Set_def state_inv_def same_heaps_def simp del: One_nat_def)
  next
    case (Some key)
    obtain rc m' ht where s: "HashTable_Test_And_Set m (ht_state_id st) other p HASHTABLE_SET_HOW_SET_OVERWRITE =
        Some (rc, m', ht)" "table_inv m' ht" "brk m \<le> brk m'"
      "rc = HASHTABLE_SUCCESS \<and> table_map ht = (state_map st)(other \<mapsto> p) \<or>
       rc = HASHTABLE_INSERT_MALLOC_ERROR \<and> table_map ht = state_map st"
      by (rule HashTable_Set_overwrite [OF inv])
    with Some a le show ?thesis
      by (auto simp: nfs4_State_Set_def state_inv_def same_heaps_def simp del: One_nat_def)
  qed
qed

lemma HashTable_Get_state:
  assumes "state_inv st"
  obtains ht where "HashTable_Get (ht_state_id st) other = Some (get_rc (state_map st other), state_map st other, ht)"
    "state_inv (st\<lparr>ht_state_id := ht\<rparr>)" "table_map ht = state_map st" "same_heaps st (st\<lparr>ht_state_id := ht\<rparr>)"
proof -
  from assms have "table_inv (ss_mem st) (ht_state_id st)" by (simp add: state_inv_def)
  from table.get_law [OF this, of other] that show thesis by (auto simp: state_inv_def same_heaps_def)
qed

lemma nfs4_State_Get_Pointer_spec:
  assumes "state_inv st"
  shows "\<exists>st'. nfs4_State_Get_Pointer other st = Some (state_map st other \<noteq> None, state_map st other, st') \<and>
    state_inv st' \<and> same_heaps st st' \<and> state_map st' = state_map st"
  using assms
proof (rule HashTable_Get_state [where other = other])
  fix ht
  assume "HashTable_Get (ht_state_id st) other = Some (get_rc (state_map st other), state_map st other, ht)"
    "state_inv (st\<lparr>ht_state_id := ht\<rparr>)" "table_map ht = state_map st" "same_heaps st (st\<lparr>ht_state_id := ht\<rparr>)"
  then show ?thesis by (cases "state_map st other") (auto simp: nfs4_State_Get_Pointer_def)
qed

lemma nfs4_State_Get_spec:
  assumes "state_inv st"
  shows "\<exists>st'. nfs4_State_Get other st =
      Some (state_map st other \<noteq> None, map_option (states st) (state_map st other), st') \<and>
    state_inv st' \<and> same_heaps st st' \<and> state_map st' = state_map st"
  using assms
proof (rule HashTable_Get_state [where other = other])
  fix ht
  assume "HashTable_Get (ht_state_id st) other = Some (get_rc (state_map st other), state_map st other, ht)"
    "state_inv (st\<lparr>ht_state_id := ht\<rparr>)" "table_map ht = state_map st" "same_heaps st (st\<lparr>ht_state_id := ht\<rparr>)"
  then show ?thesis by (cases "state_map st other") (auto simp: nfs4_State_Get_def)
qed

lemma nfs4_State_Del_spec:
  assumes "state_inv st"
  shows "\<exists>st'. nfs4_State_Del other st = Some (state_map st other \<noteq> None, st') \<and>
    state_inv st' \<and> same_heaps st st' \<and> state_map st' = (state_map st)(other := None)"
proof -
  from assms have "table_inv (ss_mem st) (ht_state_id st)" by (simp add: state_inv_def)
  from table.del_law [OF this, of other] obtain ht where
    "HashTable_Del (ht_state_id st) other =
       Some (get_rc (state_map st other), map_option (Pair other) (state_map st other), ht)"
    "table_inv (ss_mem st) ht" "table_map ht = (state_map st)(other := None)" by blast
  then show ?thesis
    by (cases "state_map st other") (auto simp: nfs4_State_Del_def state_inv_def same_heaps_def)
qed

section \<open>State ids\<close>

text \<open>
  C24. Two state ids made by the same server instance are equal exactly when their files have the same
  file id and the counters of their owners agree in the low 16 bits: of the 32-bit counter that makes
  owners different, \<^verbatim>\<open>nfs4_BuildStateId_Other\<close> keeps two bytes.
\<close>

theorem stateid_collisions:
  assumes "nfs4_BuildStateId_Other digest boot True (Some e) (Some own) = Some other"
    and "nfs4_BuildStateId_Other digest boot True (Some e') (Some own') = Some other'"
  shows "other = other' \<longleftrightarrow> digest (ce_handle e) = digest (ce_handle e') \<and>
    take_bit 16 (oo_counter own) = take_bit 16 (oo_counter own')"
proof -
  let ?id = "\<lambda>f c. le_bytes (boot_digest boot) 2 @ le_bytes (f :: u64) 8 @ le_bytes (c :: u32) 2"
  from assms obtain f f' where f: "digest (ce_handle e) = Some f" "digest (ce_handle e') = Some f'"
    "other = mk_bytes (?id f (oo_counter own))" "other' = mk_bytes (?id f' (oo_counter own'))"
    by (auto simp: nfs4_BuildStateId_Other_def split: if_splits option.splits)
  have whole: "take_bit 64 x = x" for x :: u64 by (rule bit_word_eqI) (simp add: bit_simps)
  have "other = other' \<longleftrightarrow> ?id f (oo_counter own) = ?id f' (oo_counter own')"
    unfolding f(3,4) by (simp flip: bytes_list_inject add: bytes_list_mk)
  also have "\<dots> \<longleftrightarrow> f = f' \<and> take_bit 16 (oo_counter own) = take_bit 16 (oo_counter own')"
    by (simp add: le_bytes_inject whole)
  finally show ?thesis using f(1,2) by simp
qed

section \<open>The check of a state id\<close>

text \<open>
  What \<^verbatim>\<open>nfs4_Check_Stateid\<close> answers for a regular file. The client of a state is looked up only when the caller
  gives no client id; \<open>nfs_client_id_get\<close> fails for an unknown client and when its key cannot be allocated.
\<close>

definition client_found :: "u64 \<Rightarrow> 'c client_tables \<Rightarrow> bool" where
  "client_found clientid cl \<longleftrightarrow> by_id cl clientid \<noteq> None \<and> \<not> fails (cl_mem cl) (calls (cl_mem cl))"

lemma nfs4_Check_Stateid_spec:
  assumes "state_inv st" and "client_inv cl" and "ce_type e = REGULAR_FILE"
    and "\<And>p. state_map st other = Some p \<Longrightarrow> powner (states st p) \<noteq> None"
  shows "\<exists>r st' cl'. nfs4_Check_Stateid debug return_bad boot (Some other) (Some e) clientid (st, cl) = Some (r, st', cl') \<and>
    state_inv st' \<and> client_inv cl' \<and> same_heaps st st' \<and> state_map st' = state_map st \<and>
    r = (case state_map st other of
           None \<Rightarrow> if return_bad then NFS4ERR_BAD_STATEID else NFS4_OK
         | Some p \<Rightarrow>
             if clientid = 0 \<and> \<not> client_found (oo_clientid (open_owners st (the (powner (states st p))))) cl
             then (if return_bad then NFS4ERR_BAD_STATEID else NFS4_OK)
             else if boot_digest boot \<noteq> le_word (take 2 (bytes_list other)) then NFS4ERR_STALE_STATEID else NFS4_OK)"
proof -
  from nfs4_State_Get_spec [OF assms(1), of other] obtain st' where g:
    "nfs4_State_Get other st = Some (state_map st other \<noteq> None, map_option (states st) (state_map st other), st')"
    "state_inv st'" "same_heaps st st'" "state_map st' = state_map st" by blast
  show ?thesis
  proof (cases "state_map st other")
    case None
    with g assms(2,3) show ?thesis by (simp add: nfs4_Check_Stateid_def)
  next
    case (Some p)
    from assms(4) [OF this] obtain q where q: "powner (states st p) = Some q" by auto
    let ?c = "oo_clientid (open_owners st q)"
    from nfs_client_id_get_spec [OF assms(2), of ?c] obtain cl' where
      c: "nfs_client_id_get ?c False cl = Some (if fails (cl_mem cl) (calls (cl_mem cl)) then (CLIENT_ID_INSERT_MALLOC_ERROR, None, cl')
             else case by_id cl ?c of None \<Rightarrow> (CLIENT_ID_NOT_FOUND, None, cl') | Some r \<Rightarrow> (CLIENT_ID_SUCCESS, Some r, cl'))"
        "client_inv cl'" by blast
    have o: "open_owners st' = open_owners st" using g(3) by (simp add: same_heaps_def)
    show ?thesis
    proof (cases "clientid = 0")
      case True
      with Some g q c o assms(3) show ?thesis
        by (cases "by_id cl ?c") (simp_all add: nfs4_Check_Stateid_def client_found_def)
    next
      case False
      with Some g q assms(2,3) show ?thesis by (simp add: nfs4_Check_Stateid_def)
    qed
  qed
qed

text \<open>A state id that this instance of the server made starts with the bytes of its boot time.\<close>

lemma nfs4_BuildStateId_Other_boot:
  assumes "nfs4_BuildStateId_Other digest boot c e own = Some other"
  shows "le_word (take 2 (bytes_list other)) = boot_digest boot"
proof -
  from assms obtain f n where "bytes_list other = le_bytes (boot_digest boot) 2 @ le_bytes (f :: u64) 8 @ le_bytes (n :: u32) 2"
    by (auto simp: nfs4_BuildStateId_Other_def bytes_list_mk split: if_splits option.splits)
  then show ?thesis by (simp add: le_word_le_bytes2)
qed

text \<open>A small instance.\<close>

definition no_data :: state_data where
  "no_data = \<lparr>sd_share = \<lparr>oexcl_verifier = mk_bytes [], share_access = 0, share_deny = 0, lockheld = 0\<rparr>,
     sd_lock = \<lparr>lk_offset = 0, lk_length = 0, lk_type = 0, popenstate = None\<rparr>, sd_deleg = 0, sd_layout = 0\<rparr>"

definition small_states :: "unit state_store" where
  "small_states = (case new_table (state_id_param small_dims) mem_ok of
     (ht, m) \<Rightarrow> \<lparr>ss_mem = m, ht_state_id = ht,
       states = (\<lambda>p. \<lparr>state_type = 0, sdata = no_data, st_seqid = 0, stateid_other = mk_bytes [], powner = None,
         st_next = None, st_prev = None, st_pentry = None\<rparr>),
       open_owners = (\<lambda>p. \<lparr>oo_clientid = 0, oo_val = [], oo_confirmed = 0, oo_seqid = 0, oo_counter = of_nat p,
         related_owner = None\<rparr>),
       entries = (\<lambda>p. \<lparr>ce_type = REGULAR_FILE, ce_handle = (), pstate_head = None, pstate_tail = None,
         ce_lock = rw_lock_zero\<rparr>),
       pool_state_v4 = [], nb_err_unrecover = (\<lambda>c. 0)\<rparr>)"

lemma small_states_inv: "state_inv small_states" "state_map small_states = Map.empty" "mem_good (ss_mem small_states)"
  "parameter (ht_state_id small_states) = state_id_param small_dims"
proof -
  obtain ht m where t: "(new_table (state_id_param small_dims) mem_ok :: (12 bytes, addr) hash_table \<times> mem) = (ht, m)"
    by (cases "new_table (state_id_param small_dims) mem_ok :: (12 bytes, addr) hash_table \<times> mem") auto
  note n = new_table [OF state_id_param_good [OF small_dims_nonzero(1)] mem_ok_good _ _ t]
  have "table_inv m ht" "table_map ht = Map.empty" "mem_good m" "parameter ht = state_id_param small_dims"
    using n(2,3,5,6) small_dims_nonzero by (auto simp: state_id_param_def)
  with t show "state_inv small_states" "state_map small_states = Map.empty" "mem_good (ss_mem small_states)"
    "parameter (ht_state_id small_states) = state_id_param small_dims"
    by (simp_all add: small_states_def state_inv_def)
qed

text \<open>The owners with the counters 1 and 65537 get the same state id.\<close>

theorem stateid_collisions_witness:
  "\<exists>other. nfs4_BuildStateId_Other (\<lambda>h. Some 7) 9 True (Some (entries small_states 1)) (Some (open_owners small_states 1)) =
       Some other \<and>
     nfs4_BuildStateId_Other (\<lambda>h. Some 7) 9 True (Some (entries small_states 1)) (Some (open_owners small_states 65537)) =
       Some other"
proof -
  have e: "ce_type (entries small_states 1) = REGULAR_FILE" "oo_counter (open_owners small_states 1) = 1"
    "oo_counter (open_owners small_states 65537) = 65537" by (simp_all add: small_states_def split: prod.splits)
  then obtain a b where
    "nfs4_BuildStateId_Other (\<lambda>h. Some 7) 9 True (Some (entries small_states 1)) (Some (open_owners small_states 1)) = Some a"
    "nfs4_BuildStateId_Other (\<lambda>h. Some 7) 9 True (Some (entries small_states 1)) (Some (open_owners small_states 65537)) = Some b"
    by (simp add: nfs4_BuildStateId_Other_def)
  moreover have "take_bit 16 (1 :: u32) = take_bit 16 65537" by code_simp
  ultimately show ?thesis using stateid_collisions [of "\<lambda>h. Some 7" 9 "entries small_states 1" "open_owners small_states 1" a
    "entries small_states 1" "open_owners small_states 65537" b] e(2,3) by simp
qed

end
