(* ===== verification/Session_Id.thy ===== *)
theory Session_Id
  imports State_Id
begin

text \<open>
  The NFSv4.1 sessions of \<^verbatim>\<open>support/nfs_session_id.c\<close>: the sessions themselves (\<^verbatim>\<open>include/nfs41_session.h\<close>),
  the hash table from the 16 bytes of a session id to pointers to sessions, and the counter from which the
  ids are made.

  Sessions live in a heap. The mutex of a slot is \<open>True\<close> while it is held; an all-zero mutex, as
  \<^verbatim>\<open>memset\<close> leaves it, is free. \<open>cached_result\<close> is the buffer of \<^verbatim>\<open>NFS41_DRC_SIZE\<close> bytes in which
  \<^verbatim>\<open>nfs4_Compound\<close> keeps the reply; the functions here only hand out its address. The array
  \<^verbatim>\<open>ca_rdma_ird\<close>, which the code copies by its pointer, is the list of its values.

  The three tables of pointers with set, get and delete (open owners, states, sessions) satisfy one
  contract, the locale \<open>pointer_table\<close>.
\<close>

section \<open>Data\<close>

definition NFS4_SESSIONID_SIZE :: nat where
  "NFS4_SESSIONID_SIZE = 16"

definition NFS41_NB_SLOTS :: u32 where
  "NFS41_NB_SLOTS = 3"

definition NFS41_DRC_SIZE :: nat where
  "NFS41_DRC_SIZE = 32768"

record channel_attrs4 =
  ca_headerpadsize :: u32
  ca_maxrequestsize :: u32
  ca_maxresponsesize :: u32
  ca_maxresponsesize_cached :: u32
  ca_maxoperations :: u32
  ca_maxrequests :: u32
  ca_rdma_ird :: "u32 list"

record session_slot =
  slot_sequence :: u32
  slot_lock :: bool
  cached_result :: "u8 list"
  cache_used :: u32

record nfs41_session =
  ses_clientid :: u64
  ses_sequence :: u32
  session_flags :: u32
  session_id :: "16 bytes"
  fore_channel_attrs :: channel_attrs4
  back_channel_attrs :: channel_attrs4
  session_slots :: "session_slot list"

record session_store =
  ses_mem :: mem
  ht_session_id :: "(16 bytes, addr) hash_table"
  global_sequence :: u32
  sessions :: "addr \<Rightarrow> nfs41_session"

section \<open>The hash table of sessions\<close>

definition compare_session_id :: "16 bytes \<Rightarrow> 16 bytes \<Rightarrow> int" where
  "compare_session_id a b = memcmp (bytes_list a) (bytes_list b) NFS4_SESSIONID_SIZE"

definition session_id_value_hash_func :: "hash_dims \<Rightarrow> 16 bytes \<Rightarrow> u64" where
  "session_id_value_hash_func d key =
     ucast (foldl (\<lambda>acc c. acc + ucast c) (0 :: u32) (bytes_list key) mod index_size d)"

definition session_id_rbt_hash_func :: "hash_dims \<Rightarrow> 16 bytes \<Rightarrow> u64" where
  "session_id_rbt_hash_func d key =
     (let b = bytes_list key;
          i1 = le_word (take 4 b) :: u32;
          i2 = le_word (take 4 (drop 4 b)) :: u32;
          i3 = le_word (take 4 (drop 8 b)) :: u32;
          i4 = le_word (take 4 (drop 12 b)) :: u32
      in ucast ((i1 XOR i2 XOR i3) OR i4))"

definition session_id_param :: "hash_dims \<Rightarrow> 16 bytes hash_parameter" where
  "session_id_param d = \<lparr>dims = d, hash_func_key = session_id_value_hash_func,
     hash_func_rbt = session_id_rbt_hash_func, compare_key = compare_session_id\<rparr>"

definition nfs41_Init_session_id ::
  "int \<Rightarrow> (nat \<Rightarrow> pthread_codes) \<Rightarrow> hash_dims \<Rightarrow> mem \<Rightarrow> int \<times> (16 bytes, addr) hash_table option \<times> mem" where
  "nfs41_Init_session_id attr_rc codes d m =
     (case HashTable_Init attr_rc codes (session_id_param d) m of
        (None, m) \<Rightarrow> (- 1, None, m)
      | (Some ht, m) \<Rightarrow> (0, Some ht, m))"

section \<open>Operations\<close>

text \<open>\<^verbatim>\<open>nfs41_Build_sessionid\<close> always returns 1; the function has the id and the counter as its results.\<close>

definition nfs41_Build_sessionid :: "u64 \<Rightarrow> u32 \<Rightarrow> 16 bytes \<times> u32" where
  "nfs41_Build_sessionid clientid gseq =
     (let seq = gseq + 1
      in (mk_bytes (le_bytes clientid 8 @ le_bytes seq 4 @ replicate (NFS4_SESSIONID_SIZE - 12) 0), seq))"

definition nfs41_Session_Set :: "16 bytes \<Rightarrow> addr \<Rightarrow> session_store \<Rightarrow> (bool \<times> session_store) option" where
  "nfs41_Session_Set sessionid psession_data st =
     (case Mem_Alloc 1 (ses_mem st) of
        (None, m) \<Rightarrow> Some (False, st\<lparr>ses_mem := m\<rparr>)
      | (Some key, m) \<Rightarrow> do {
          (rc, m, ht) \<leftarrow> HashTable_Test_And_Set m (ht_session_id st) sessionid psession_data
                           HASHTABLE_SET_HOW_SET_NO_OVERWRITE;
          Some (rc = HASHTABLE_SUCCESS, st\<lparr>ses_mem := m, ht_session_id := ht\<rparr>) })"

definition nfs41_Session_Get ::
  "16 bytes \<Rightarrow> session_store \<Rightarrow> (bool \<times> nfs41_session option \<times> session_store) option" where
  "nfs41_Session_Get sessionid st = do {
     (rc, buffval, ht) \<leftarrow> HashTable_Get (ht_session_id st) sessionid;
     let st = st\<lparr>ht_session_id := ht\<rparr>;
     if rc \<noteq> HASHTABLE_SUCCESS then Some (False, None, st)
     else do { p \<leftarrow> buffval; Some (True, Some (sessions st p), st) } }"

definition nfs41_Session_Get_Pointer :: "16 bytes \<Rightarrow> session_store \<Rightarrow> (bool \<times> ptr \<times> session_store) option" where
  "nfs41_Session_Get_Pointer sessionid st = do {
     (rc, buffval, ht) \<leftarrow> HashTable_Get (ht_session_id st) sessionid;
     let st = st\<lparr>ht_session_id := ht\<rparr>;
     if rc \<noteq> HASHTABLE_SUCCESS then Some (False, None, st) else Some (True, buffval, st) }"

definition nfs41_Session_Update ::
  "16 bytes \<Rightarrow> nfs41_session \<Rightarrow> session_store \<Rightarrow> (bool \<times> session_store) option" where
  "nfs41_Session_Update sessionid psession_data st = do {
     (rc, buffval, ht) \<leftarrow> HashTable_Get (ht_session_id st) sessionid;
     let st = st\<lparr>ht_session_id := ht\<rparr>;
     if rc \<noteq> HASHTABLE_SUCCESS then Some (False, st)
     else do { p \<leftarrow> buffval; Some (True, st\<lparr>sessions := (sessions st)(p := psession_data)\<rparr>) } }"

definition nfs41_Session_Del :: "16 bytes \<Rightarrow> session_store \<Rightarrow> (bool \<times> session_store) option" where
  "nfs41_Session_Del sessionid st = do {
     (rc, old, ht) \<leftarrow> HashTable_Del (ht_session_id st) sessionid;
     Some (rc = HASHTABLE_SUCCESS, st\<lparr>ht_session_id := ht\<rparr>) }"

section \<open>Tables of pointers\<close>

text \<open>
  What the callers of the three tables rely on: \<open>set\<close>, \<open>get\<close> and \<open>del\<close> return on every table that
  satisfies \<open>inv\<close>, and a refused \<open>set\<close> changes no pointer.
\<close>

locale pointer_table =
  fixes inv :: "'s \<Rightarrow> bool"
    and lookup :: "'s \<Rightarrow> 'k \<Rightarrow> addr option"
    and store :: "'k \<Rightarrow> addr \<Rightarrow> 's \<Rightarrow> (bool \<times> 's) option"
    and get :: "'k \<Rightarrow> 's \<Rightarrow> (bool \<times> ptr \<times> 's) option"
    and del :: "'k \<Rightarrow> 's \<Rightarrow> (bool \<times> 's) option"
  assumes store_law: "inv s \<Longrightarrow> \<exists>r s'. store k p s = Some (r, s') \<and> inv s' \<and>
      lookup s' = (if r then (lookup s)(k \<mapsto> p) else lookup s)"
    and get_law: "inv s \<Longrightarrow> \<exists>s'. get k s = Some (lookup s k \<noteq> None, lookup s k, s') \<and> inv s' \<and> lookup s' = lookup s"
    and del_law: "inv s \<Longrightarrow> \<exists>s'. del k s = Some (lookup s k \<noteq> None, s') \<and> inv s' \<and> lookup s' = (lookup s)(k := None)"
begin

lemma get_after_store:
  assumes "inv s" and "store k p s = Some (True, s')"
  shows "\<exists>s''. get k s' = Some (True, Some p, s'') \<and> inv s''"
proof -
  from store_law [OF assms(1), of k p] assms(2) have "inv s'" "lookup s' k = Some p" by auto
  with get_law [of s' k] show ?thesis by auto
qed

lemma get_after_del:
  assumes "inv s" and "del k s = Some (r, s')"
  shows "\<exists>s''. get k s' = Some (False, None, s'') \<and> inv s''"
proof -
  from del_law [OF assms(1), of k] assms(2) have "inv s'" "lookup s' k = None" by auto
  with get_law [of s' k] show ?thesis by auto
qed

lemma del_twice:
  assumes "inv s" and "del k s = Some (r, s')"
  shows "\<exists>s''. del k s' = Some (False, s'') \<and> lookup s'' = lookup s'"
proof -
  from del_law [OF assms(1), of k] assms(2) have "inv s'" "lookup s' k = None" by auto
  with del_law [of s' k] show ?thesis by (auto simp: fun_upd_idem_iff)
qed

end

interpretation own_table: pointer_table owner_inv "\<lambda>st. owner_map st" nfs_open_owner_Set nfs_open_owner_Get_Pointer nfs_open_owner_Del
proof
  fix st :: owner_store and name p
  assume inv: "owner_inv st"
  from nfs_open_owner_Set_spec [OF inv, of name p]
  show "\<exists>r st'. nfs_open_owner_Set name p st = Some (r, st') \<and> owner_inv st' \<and>
      owner_map st' = (if r then (owner_map st)(name \<mapsto> p) else owner_map st)"
    by (auto split: if_splits)
  have t: "table_inv (oo_mem st) (ht_open_owner st)" using inv by (simp add: owner_inv_def)
  from table.get_law [OF t, of name]
  show "\<exists>st'. nfs_open_owner_Get_Pointer name st = Some (owner_map st name \<noteq> None, owner_map st name, st') \<and>
      owner_inv st' \<and> owner_map st' = owner_map st"
    by (cases "owner_map st name") (auto simp: nfs_open_owner_Get_Pointer_def owner_inv_def)
  from table.del_law [OF t, of name]
  show "\<exists>st'. nfs_open_owner_Del name st = Some (owner_map st name \<noteq> None, st') \<and> owner_inv st' \<and>
      owner_map st' = (owner_map st)(name := None)"
    by (cases "owner_map st name") (auto simp: nfs_open_owner_Del_def owner_inv_def)
qed

interpretation state_table: pointer_table state_inv "\<lambda>st. state_map st" nfs4_State_Set nfs4_State_Get_Pointer nfs4_State_Del
proof
  fix st :: "'h state_store" and other p
  assume inv: "state_inv st"
  from nfs4_State_Set_spec [OF inv, of other p]
  show "\<exists>r st'. nfs4_State_Set other p st = Some (r, st') \<and> state_inv st' \<and>
      state_map st' = (if r then (state_map st)(other \<mapsto> p) else state_map st)" by blast
  from nfs4_State_Get_Pointer_spec [OF inv, of other]
  show "\<exists>st'. nfs4_State_Get_Pointer other st = Some (state_map st other \<noteq> None, state_map st other, st') \<and>
      state_inv st' \<and> state_map st' = state_map st" by blast
  from nfs4_State_Del_spec [OF inv, of other]
  show "\<exists>st'. nfs4_State_Del other st = Some (state_map st other \<noteq> None, st') \<and> state_inv st' \<and>
      state_map st' = (state_map st)(other := None)" by blast
qed

section \<open>Laws of the table of sessions\<close>

lemma session_id_param_good:
  assumes "index_size d \<noteq> 0"
  shows "good_param (session_id_param d)"
proof -
  have "(ucast (v mod index_size d) :: u64) < ucast (index_size d)" for v :: u32
    using assms by (simp add: word_less_nat_alt unat_u64_of_u32 unat_mod unat_gt_0)
  then show ?thesis
    using memcmp_bytes [where ?'n = 16]
    by (simp add: good_param_def session_id_param_def session_id_value_hash_func_def compare_session_id_def
        NFS4_SESSIONID_SIZE_def)
qed

definition ses_inv :: "session_store \<Rightarrow> bool" where
  "ses_inv st \<longleftrightarrow> table_inv (ses_mem st) (ht_session_id st)"

abbreviation ses_map :: "session_store \<Rightarrow> 16 bytes \<rightharpoonup> addr" where
  "ses_map st \<equiv> table_map (ht_session_id st)"

text \<open>What the table functions leave alone.\<close>

definition same_sessions :: "session_store \<Rightarrow> session_store \<Rightarrow> bool" where
  "same_sessions st st' \<longleftrightarrow> sessions st' = sessions st \<and> global_sequence st' = global_sequence st \<and>
     brk (ses_mem st) \<le> brk (ses_mem st')"

lemma nfs41_Session_Set_spec:
  assumes "ses_inv st"
  shows "\<exists>r st'. nfs41_Session_Set sid p st = Some (r, st') \<and> ses_inv st' \<and> same_sessions st st' \<and>
    (if r then ses_map st sid = None \<and> ses_map st' = (ses_map st)(sid \<mapsto> p) else ses_map st' = ses_map st)"
proof -
  obtain a m where a: "Mem_Alloc 1 (ses_mem st) = (a, m)" by (cases "Mem_Alloc 1 (ses_mem st)") auto
  have inv: "table_inv m (ht_session_id st)" using assms table_inv_Mem_Alloc [OF _ a] by (simp add: ses_inv_def)
  note le = Mem_Alloc_brk [OF a]
  show ?thesis
  proof (cases a)
    case None
    with a inv le show ?thesis by (auto simp: nfs41_Session_Set_def ses_inv_def same_sessions_def simp del: One_nat_def)
  next
    case (Some key)
    from table.set_law [OF inv, of sid p HASHTABLE_SET_HOW_SET_NO_OVERWRITE] obtain rc m' ht where
      s: "HashTable_Test_And_Set m (ht_session_id st) sid p HASHTABLE_SET_HOW_SET_NO_OVERWRITE = Some (rc, m', ht)"
        "table_inv m' ht" "brk m \<le> brk m'"
        "set_outcome HASHTABLE_SET_HOW_SET_NO_OVERWRITE sid p (ses_map st) rc (table_map ht)" by blast
    have "if rc = HASHTABLE_SUCCESS then ses_map st sid = None \<and> table_map ht = (ses_map st)(sid \<mapsto> p)
        else table_map ht = ses_map st"
      using s(4) by (auto simp: set_outcome_def split: if_splits)
    with s(1-3) Some a le show ?thesis
      by (simp add: nfs41_Session_Set_def ses_inv_def same_sessions_def del: One_nat_def)
  qed
qed

lemma HashTable_Get_session:
  assumes "ses_inv st"
  obtains ht where "HashTable_Get (ht_session_id st) sid = Some (get_rc (ses_map st sid), ses_map st sid, ht)"
    "ses_inv (st\<lparr>ht_session_id := ht\<rparr>)" "table_map ht = ses_map st"
proof -
  from assms have "table_inv (ses_mem st) (ht_session_id st)" by (simp add: ses_inv_def)
  from table.get_law [OF this, of sid] that show thesis by (auto simp: ses_inv_def)
qed

lemma nfs41_Session_Get_Pointer_spec:
  assumes "ses_inv st"
  shows "\<exists>st'. nfs41_Session_Get_Pointer sid st = Some (ses_map st sid \<noteq> None, ses_map st sid, st') \<and>
    ses_inv st' \<and> same_sessions st st' \<and> ses_map st' = ses_map st"
  using assms
proof (rule HashTable_Get_session [where sid = sid])
  fix ht
  assume "HashTable_Get (ht_session_id st) sid = Some (get_rc (ses_map st sid), ses_map st sid, ht)"
    "ses_inv (st\<lparr>ht_session_id := ht\<rparr>)" "table_map ht = ses_map st"
  then show ?thesis by (cases "ses_map st sid") (auto simp: nfs41_Session_Get_Pointer_def same_sessions_def)
qed

lemma nfs41_Session_Get_spec:
  assumes "ses_inv st"
  shows "\<exists>st'. nfs41_Session_Get sid st =
      Some (ses_map st sid \<noteq> None, map_option (sessions st) (ses_map st sid), st') \<and>
    ses_inv st' \<and> same_sessions st st' \<and> ses_map st' = ses_map st"
  using assms
proof (rule HashTable_Get_session [where sid = sid])
  fix ht
  assume "HashTable_Get (ht_session_id st) sid = Some (get_rc (ses_map st sid), ses_map st sid, ht)"
    "ses_inv (st\<lparr>ht_session_id := ht\<rparr>)" "table_map ht = ses_map st"
  then show ?thesis by (cases "ses_map st sid") (auto simp: nfs41_Session_Get_def same_sessions_def)
qed

text \<open>An update is seen by the next look-up.\<close>

lemma session_update_get:
  assumes "ses_inv st" and "ses_map st sid \<noteq> None"
  shows "\<exists>st' st''. nfs41_Session_Update sid ses st = Some (True, st') \<and> ses_map st' = ses_map st \<and>
    nfs41_Session_Get sid st' = Some (True, Some ses, st'')"
  using assms(1)
proof (rule HashTable_Get_session [where sid = sid])
  fix ht
  assume h: "HashTable_Get (ht_session_id st) sid = Some (get_rc (ses_map st sid), ses_map st sid, ht)"
    "ses_inv (st\<lparr>ht_session_id := ht\<rparr>)" "table_map ht = ses_map st"
  from assms(2) obtain p where p: "ses_map st sid = Some p" by auto
  let ?st = "st\<lparr>ht_session_id := ht, sessions := (sessions st)(p := ses)\<rparr>"
  have "nfs41_Session_Update sid ses st = Some (True, ?st)" using h(1) p by (simp add: nfs41_Session_Update_def)
  moreover have "ses_inv ?st" using h(2) by (simp add: ses_inv_def)
  ultimately show ?thesis using nfs41_Session_Get_spec [of ?st sid] h(3) p by auto
qed

lemma nfs41_Session_Del_spec:
  assumes "ses_inv st"
  shows "\<exists>st'. nfs41_Session_Del sid st = Some (ses_map st sid \<noteq> None, st') \<and>
    ses_inv st' \<and> same_sessions st st' \<and> ses_map st' = (ses_map st)(sid := None)"
proof -
  from assms have "table_inv (ses_mem st) (ht_session_id st)" by (simp add: ses_inv_def)
  from table.del_law [OF this, of sid] obtain ht where
    "HashTable_Del (ht_session_id st) sid = Some (get_rc (ses_map st sid), map_option (Pair sid) (ses_map st sid), ht)"
    "table_inv (ses_mem st) ht" "table_map ht = (ses_map st)(sid := None)" by blast
  then show ?thesis by (cases "ses_map st sid") (auto simp: nfs41_Session_Del_def ses_inv_def same_sessions_def)
qed

interpretation ses_table: pointer_table ses_inv "\<lambda>st. ses_map st" nfs41_Session_Set nfs41_Session_Get_Pointer nfs41_Session_Del
proof
  fix st :: session_store and sid p
  assume inv: "ses_inv st"
  from nfs41_Session_Set_spec [OF inv, of sid p]
  show "\<exists>r st'. nfs41_Session_Set sid p st = Some (r, st') \<and> ses_inv st' \<and>
      ses_map st' = (if r then (ses_map st)(sid \<mapsto> p) else ses_map st)" by (auto split: if_splits)
  from nfs41_Session_Get_Pointer_spec [OF inv, of sid]
  show "\<exists>st'. nfs41_Session_Get_Pointer sid st = Some (ses_map st sid \<noteq> None, ses_map st sid, st') \<and>
      ses_inv st' \<and> ses_map st' = ses_map st" by blast
  from nfs41_Session_Del_spec [OF inv, of sid]
  show "\<exists>st'. nfs41_Session_Del sid st = Some (ses_map st sid \<noteq> None, st') \<and> ses_inv st' \<and>
      ses_map st' = (ses_map st)(sid := None)" by blast
qed

section \<open>Session ids\<close>

lemma sessionid_inject:
  "fst (nfs41_Build_sessionid c g) = fst (nfs41_Build_sessionid c' g') \<longleftrightarrow> c = c' \<and> g = g'"
proof -
  let ?id = "\<lambda>c g. le_bytes (c :: u64) 8 @ le_bytes (g + 1 :: u32) 4 @ replicate (NFS4_SESSIONID_SIZE - 12) 0"
  have whole: "take_bit 64 x = x" "take_bit 32 y = y" for x :: u64 and y :: u32
    by (rule bit_word_eqI, simp add: bit_simps)+
  have "fst (nfs41_Build_sessionid c g) = fst (nfs41_Build_sessionid c' g') \<longleftrightarrow> ?id c g = ?id c' g'"
    by (simp add: nfs41_Build_sessionid_def Let_def NFS4_SESSIONID_SIZE_def bytes_list_mk flip: bytes_list_inject)
  also have "\<dots> \<longleftrightarrow> c = c' \<and> g = g'" by (simp add: le_bytes_inject whole)
  finally show ?thesis .
qed

text \<open>The ids that a run of calls builds for the given clients, from a value of the counter on.\<close>

primrec built_ids :: "u64 list \<Rightarrow> u32 \<Rightarrow> 16 bytes list" where
  "built_ids [] gseq = []"
| "built_ids (c # cs) gseq = (let (sid, gseq) = nfs41_Build_sessionid c gseq in sid # built_ids cs gseq)"

lemma built_ids_nth:
  "i < length cs \<Longrightarrow> built_ids cs g ! i = fst (nfs41_Build_sessionid (cs ! i) (g + of_nat i))"
proof (induction cs arbitrary: i g)
  case (Cons c cs)
  then show ?case by (cases i) (auto simp: nfs41_Build_sessionid_def Let_def add.assoc)
qed simp

lemma length_built_ids [simp]: "length (built_ids cs g) = length cs"
  by (induction cs arbitrary: g) (simp_all add: nfs41_Build_sessionid_def Let_def)

text \<open>
  The session ids of one server are unique for the first \<open>2 ^ 32\<close> sessions, whoever the clients are
  and wherever the counter starts; the id after them is that of the first session if it is for the same client.
\<close>

theorem sessionids_unique:
  assumes "length cs \<le> 2 ^ 32"
  shows "distinct (built_ids cs gseq) \<and>
    (length cs = 2 ^ 32 \<longrightarrow> built_ids (cs @ [hd cs]) gseq ! (2 ^ 32) = built_ids cs gseq ! 0)"
proof
  show "distinct (built_ids cs gseq)" unfolding distinct_conv_nth
  proof (intro allI impI)
    fix i j
    assume ij: "i < length (built_ids cs gseq)" "j < length (built_ids cs gseq)" "i \<noteq> j"
    then have "i < 2 ^ 32" "j < 2 ^ 32" using assms by simp_all
    then have "unat (of_nat i :: u32) = i" "unat (of_nat j :: u32) = j"
      by (simp_all add: unat_of_nat take_bit_nat_eq_self)
    then have "(of_nat i :: u32) \<noteq> of_nat j" using ij(3) by metis
    with ij show "built_ids cs gseq ! i \<noteq> built_ids cs gseq ! j" by (simp add: built_ids_nth sessionid_inject)
  qed
  show "length cs = 2 ^ 32 \<longrightarrow> built_ids (cs @ [hd cs]) gseq ! (2 ^ 32) = built_ids cs gseq ! 0"
  proof
    assume n: "length cs = 2 ^ 32"
    then have "0 < length cs" by simp
    have zero: "(of_nat (2 ^ 32) :: u32) = 0" by simp
    have "gseq + of_nat (length cs) = gseq" unfolding n zero by simp
    then have "built_ids (cs @ [hd cs]) gseq ! length cs = built_ids cs gseq ! 0"
      using \<open>0 < length cs\<close> built_ids_nth [of "length cs" "cs @ [hd cs]" gseq] built_ids_nth [of 0 cs gseq]
      by (simp add: hd_conv_nth)
    then show "built_ids (cs @ [hd cs]) gseq ! (2 ^ 32) = built_ids cs gseq ! 0" unfolding n .
  qed
qed

theorem sessionids_unique_witness:
  "distinct (built_ids [7, 7, 8] 0xFFFFFFFE)"
  using sessionids_unique [of "[7, 7, 8]" "0xFFFFFFFE"] by simp

end
