(* ===== verification/Session_Ops.thy ===== *)
theory Session_Ops
  imports Session_Id
begin

text \<open>
  The operations of NFSv4.1 on sessions: \<^verbatim>\<open>nfs41_op_sequence\<close>, \<^verbatim>\<open>nfs41_op_create_session\<close> and
  \<^verbatim>\<open>nfs41_op_destroy_session\<close> of \<^verbatim>\<open>NFS_Protocols\<close>, and what a server that serves them in any order does.

  A handler is one step. It waits for the mutex of a slot: on a mutex that is held at its start it does not
  return, which is \<open>None\<close>. \<open>pcached_res\<close> is the address of a reply buffer, in a slot of a session or in the
  record of a client. The members of \<^verbatim>\<open>nfs_client_id_t\<close> that only the 4.1 build has are a second heap
  beside the one of \<^verbatim>\<open>Client_Id\<close>. The member of the result union is \<open>None\<close> where the handler does not fill it in.
\<close>

section \<open>Data\<close>

text \<open>The codes that \<^verbatim>\<open>nfsv41.h\<close> adds and the handlers use.\<close>

datatype nfsstat41 =
    NFS40 nfsstat4
  | NFS4ERR_BADSESSION
  | NFS4ERR_BADSLOT
  | NFS4ERR_SEQ_MISORDERED
  | NFS4ERR_SEQUENCE_POS
  | NFS4ERR_RETRY_UNCACHED_REP

datatype cached_res_ptr = SLOT_RESULT addr u32 | CREATE_SESSION_RESULT addr

text \<open>The members of \<^verbatim>\<open>compound_data_t\<close> for NFSv4.1; the handlers on sessions use no others.\<close>

record compound_data =
  oppos :: u32
  use_drc :: bool
  pcached_res :: "cached_res_ptr option"
  psession :: ptr

record SEQUENCE4args =
  sa_sessionid :: "16 bytes"
  sa_sequenceid :: u32
  sa_slotid :: u32
  sa_highest_slotid :: u32
  sa_cachethis :: bool

record SEQUENCE4resok =
  sr_sessionid :: "16 bytes"
  sr_sequenceid :: u32
  sr_slotid :: u32
  sr_highest_slotid :: u32
  sr_target_highest_slotid :: u32
  sr_status_flags :: u32

record SEQUENCE4res =
  sr_status :: nfsstat41
  sr_resok4 :: "SEQUENCE4resok option"

record CREATE_SESSION4args =
  csa_clientid :: u64
  csa_sequence :: u32
  csa_flags :: u32
  csa_fore_chan_attrs :: channel_attrs4
  csa_back_chan_attrs :: channel_attrs4
  csa_cb_program :: u32

record CREATE_SESSION4resok =
  csr_sessionid :: "16 bytes"
  csr_sequence :: u32
  csr_flags :: u32
  csr_fore_chan_attrs :: channel_attrs4
  csr_back_chan_attrs :: channel_attrs4

record CREATE_SESSION4res =
  csr_status :: nfsstat41
  csr_resok4 :: "CREATE_SESSION4resok option"

definition CREATE_SESSION4_FLAG_CONN_BACK_CHAN :: u32 where
  "CREATE_SESSION4_FLAG_CONN_BACK_CHAN = 2"

definition CREATE_SESSION4_FLAG_CONN_RDMA :: u32 where
  "CREATE_SESSION4_FLAG_CONN_RDMA = 4"

record client41_fields =
  nb_session :: u32
  create_session_slot :: session_slot
  create_session_sequence :: u32

record 'c session_server =
  srv_sessions :: session_store
  srv_clients :: "'c client_tables"
  client41 :: "addr \<Rightarrow> client41_fields"
  pool_session :: "addr list"

section \<open>SEQUENCE\<close>

definition put_slot :: "addr \<Rightarrow> nat \<Rightarrow> session_slot \<Rightarrow> session_store \<Rightarrow> session_store" where
  "put_slot p i slot st = st\<lparr>sessions := (sessions st)(p := (sessions st p)
     \<lparr>session_slots := (session_slots (sessions st p))[i := slot]\<rparr>)\<rparr>"

definition nfs41_op_sequence ::
  "SEQUENCE4args \<Rightarrow> compound_data \<Rightarrow> session_store \<Rightarrow> (SEQUENCE4res \<times> compound_data \<times> session_store) option" where
  "nfs41_op_sequence arg data st =
     (if oppos data \<noteq> 0 then Some (\<lparr>sr_status = NFS4ERR_SEQUENCE_POS, sr_resok4 = None\<rparr>, data, st)
      else do {
        (found, psession, st) \<leftarrow> nfs41_Session_Get_Pointer (sa_sessionid arg) st;
        if \<not> found then Some (\<lparr>sr_status = NFS4ERR_BADSESSION, sr_resok4 = None\<rparr>, data, st)
        else do {
          p \<leftarrow> psession;
          if ca_maxrequests (fore_channel_attrs (sessions st p)) \<le> sa_slotid arg
          then Some (\<lparr>sr_status = NFS4ERR_BADSLOT, sr_resok4 = None\<rparr>, data, st)
          else do {
            let data = data\<lparr>use_drc := False\<rparr>;
            let i = unat (sa_slotid arg);
            slot \<leftarrow> (if i < length (session_slots (sessions st p)) then Some (session_slots (sessions st p) ! i) else None);
            slot \<leftarrow> (if slot_lock slot then None else Some (slot\<lparr>slot_lock := True\<rparr>));
            if slot_sequence slot + 1 \<noteq> sa_sequenceid arg then
              (if slot_sequence slot = sa_sequenceid arg then
                 (if cache_used slot = 1 then
                    Some (\<lparr>sr_status = NFS40 NFS4_OK, sr_resok4 = None\<rparr>,
                      data\<lparr>use_drc := True, pcached_res := Some (SLOT_RESULT p (sa_slotid arg))\<rparr>, put_slot p i slot st)
                  else Some (\<lparr>sr_status = NFS4ERR_RETRY_UNCACHED_REP, sr_resok4 = None\<rparr>, data, put_slot p i slot st))
               else Some (\<lparr>sr_status = NFS4ERR_SEQ_MISORDERED, sr_resok4 = None\<rparr>, data,
                      put_slot p i (slot\<lparr>slot_lock := False\<rparr>) st))
            else do {
              let data = data\<lparr>psession := Some p\<rparr>;
              let slot = slot\<lparr>slot_sequence := slot_sequence slot + 1\<rparr>;
              let resok = \<lparr>sr_sessionid = sa_sessionid arg, sr_sequenceid = slot_sequence slot, sr_slotid = sa_slotid arg,
                sr_highest_slotid = NFS41_NB_SLOTS - 1, sr_target_highest_slotid = sa_slotid arg, sr_status_flags = 0\<rparr>;
              let (data, slot) =
                (if sa_cachethis arg
                 then (data\<lparr>pcached_res := Some (SLOT_RESULT p (sa_slotid arg))\<rparr>, slot\<lparr>cache_used := 1\<rparr>)
                 else (data\<lparr>pcached_res := None\<rparr>, slot\<lparr>cache_used := 0\<rparr>));
              Some (\<lparr>sr_status = NFS40 NFS4_OK, sr_resok4 = Some resok\<rparr>, data,
                put_slot p i (slot\<lparr>slot_lock := False\<rparr>) st) } } } })"

section \<open>CREATE_SESSION\<close>

definition zero_slot :: session_slot where
  "zero_slot = \<lparr>slot_sequence = 0, slot_lock = False, cached_result = replicate NFS41_DRC_SIZE 0, cache_used = 0\<rparr>"

definition init_session :: "CREATE_SESSION4args \<Rightarrow> 16 bytes \<Rightarrow> nfs41_session" where
  "init_session arg sid = \<lparr>ses_clientid = csa_clientid arg, ses_sequence = 1,
     session_flags = CREATE_SESSION4_FLAG_CONN_BACK_CHAN, session_id = sid,
     fore_channel_attrs = (csa_fore_chan_attrs arg)\<lparr>ca_maxrequests := NFS41_NB_SLOTS\<rparr>,
     back_channel_attrs = csa_back_chan_attrs arg,
     session_slots = replicate (unat NFS41_NB_SLOTS) zero_slot\<rparr>"

text \<open>The assignments to the record of the client, at \<open>c\<close>.\<close>

definition confirm_client :: "CREATE_SESSION4args \<Rightarrow> addr \<Rightarrow> 'c session_server \<Rightarrow> 'c session_server" where
  "confirm_client arg c st = st\<lparr>
     srv_clients := (srv_clients st)\<lparr>cl_heap := (cl_heap (srv_clients st))(c := (cl_heap (srv_clients st) c)
       \<lparr>confirmed := CONFIRMED_CLIENT_ID, cb_program := csa_cb_program arg\<rparr>)\<rparr>,
     client41 := (client41 st)(c := (client41 st c)
       \<lparr>create_session_sequence := create_session_sequence (client41 st c) + 1\<rparr>)\<rparr>"

text \<open>
  From \<^verbatim>\<open>GET_PREALLOC\<close> on; \<open>nb\<close> is \<open>nb_pre_state_v4\<close>. The test of the result of \<^verbatim>\<open>nfs41_Build_sessionid\<close>, which is
  always 1, is left out.
\<close>

definition open_session ::
  "u32 \<Rightarrow> CREATE_SESSION4args \<Rightarrow> addr \<Rightarrow> compound_data \<Rightarrow> 'c session_server \<Rightarrow>
   (CREATE_SESSION4res \<times> compound_data \<times> 'c session_server) option" where
  "open_session nb arg c data st =
     (let (p, pool, m) = GET_PREALLOC nb (pool_session st) (ses_mem (srv_sessions st));
          ss = (srv_sessions st)\<lparr>ses_mem := m\<rparr>;
          st = st\<lparr>pool_session := pool, srv_sessions := ss\<rparr>
      in case p of
           None \<Rightarrow> Some (\<lparr>csr_status = NFS40 NFS4ERR_SERVERFAULT, csr_resok4 = None\<rparr>, data, st)
         | Some p \<Rightarrow>
             if CREATE_SESSION4_FLAG_CONN_RDMA < csa_flags arg
             then Some (\<lparr>csr_status = NFS40 NFS4ERR_INVAL, csr_resok4 = None\<rparr>, data, st)
             else do {
               let (sid, gseq) = nfs41_Build_sessionid (csa_clientid arg) (global_sequence ss);
               let ses = init_session arg sid;
               let ss = ss\<lparr>global_sequence := gseq, sessions := (sessions ss)(p := ses)\<rparr>;
               let resok = \<lparr>csr_sessionid = sid, csr_sequence = 1, csr_flags = CREATE_SESSION4_FLAG_CONN_BACK_CHAN,
                 csr_fore_chan_attrs = fore_channel_attrs ses, csr_back_chan_attrs = back_channel_attrs ses\<rparr>;
               let data = data\<lparr>pcached_res := Some (CREATE_SESSION_RESULT c)\<rparr>;
               let c41 = client41 st c;
               let st = st\<lparr>client41 := (client41 st)(c := c41
                 \<lparr>create_session_slot := (create_session_slot c41)\<lparr>cache_used := 1\<rparr>\<rparr>)\<rparr>;
               (ok, ss) \<leftarrow> nfs41_Session_Set sid p ss;
               Some (\<lparr>csr_status = NFS40 (if ok then NFS4_OK else NFS4ERR_SERVERFAULT), csr_resok4 = Some resok\<rparr>, data,
                 st\<lparr>srv_sessions := ss\<rparr>) })"

definition nfs41_op_create_session ::
  "u32 \<Rightarrow> CREATE_SESSION4args \<Rightarrow> compound_data \<Rightarrow> 'c session_server \<Rightarrow>
   (CREATE_SESSION4res \<times> compound_data \<times> 'c session_server) option" where
  "nfs41_op_create_session nb arg data st = do {
     (rc, pnfs_clientid, cl) \<leftarrow> nfs_client_id_Get_Pointer (csa_clientid arg) False (srv_clients st);
     let st = st\<lparr>srv_clients := cl\<rparr>;
     if rc \<noteq> CLIENT_ID_SUCCESS
     then Some (\<lparr>csr_status = NFS40 NFS4ERR_STALE_CLIENTID, csr_resok4 = None\<rparr>, data, st)
     else do {
       c \<leftarrow> pnfs_clientid;
       let data = data\<lparr>use_drc := False\<rparr>;
       if oppos data = 0 \<and> csa_sequence arg + 1 = create_session_sequence (client41 st c) \<and>
          cache_used (create_session_slot (client41 st c)) = 1
       then Some (\<lparr>csr_status = NFS40 NFS4_OK, csr_resok4 = None\<rparr>,
              data\<lparr>use_drc := True, pcached_res := Some (CREATE_SESSION_RESULT c)\<rparr>, st)
       else if oppos data = 0 \<and> csa_sequence arg \<noteq> create_session_sequence (client41 st c)
       then Some (\<lparr>csr_status = NFS4ERR_SEQ_MISORDERED, csr_resok4 = None\<rparr>, data, st)
       else open_session nb arg c data (confirm_client arg c st) } }"

section \<open>DESTROY_SESSION\<close>

definition nfs41_op_destroy_session :: "16 bytes \<Rightarrow> session_store \<Rightarrow> (nfsstat41 \<times> session_store) option" where
  "nfs41_op_destroy_session sid st = do {
     (deleted, st) \<leftarrow> nfs41_Session_Del sid st;
     if deleted then Some (NFS4ERR_BADSESSION, st) else Some (NFS40 NFS4_OK, st) }"

end
