(* ===== verification/Session_Safety.thy ===== *)
theory Session_Safety
  imports Session_Ops
begin

text \<open>
  The server of sessions as a state machine: \<open>session_step\<close> is one call of CREATE_SESSION, SEQUENCE or
  DESTROY_SESSION with any arguments, or any change of the clients, and \<open>session_reach\<close> are the states
  that come after \<^verbatim>\<open>nfs41_Init_session_id\<close>. The theorems are about well-formed sessions, requests that are
  executed once, slots that stay locked after a replay, and new sessions that can be used.
\<close>

section \<open>Invariant\<close>

definition session_wf :: "16 bytes \<Rightarrow> nfs41_session \<Rightarrow> bool" where
  "session_wf sid ses \<longleftrightarrow> session_id ses = sid \<and> length (session_slots ses) = unat NFS41_NB_SLOTS \<and>
     ca_maxrequests (fore_channel_attrs ses) = NFS41_NB_SLOTS"

definition pool_apart :: "addr list \<Rightarrow> session_store \<Rightarrow> bool" where
  "pool_apart pool ss \<longleftrightarrow> distinct pool \<and> (\<forall>q \<in> set pool. q < brk (ses_mem ss)) \<and>
     (\<forall>p \<in> ran (ses_map ss). p < brk (ses_mem ss) \<and> p \<notin> set pool)"

definition table_wf :: "session_store \<Rightarrow> bool" where
  "table_wf ss \<longleftrightarrow> ses_inv ss \<and> inj_on (ses_map ss) (dom (ses_map ss)) \<and>
     (\<forall>sid p. ses_map ss sid = Some p \<longrightarrow> session_wf sid (sessions ss p))"

definition session_ok :: "'c session_server \<Rightarrow> bool" where
  "session_ok st \<longleftrightarrow> table_wf (srv_sessions st) \<and> pool_apart (pool_session st) (srv_sessions st) \<and>
     client_inv (srv_clients st)"

section \<open>Steps\<close>

definition session_start :: "hash_dims \<Rightarrow> 'c session_server \<Rightarrow> bool" where
  "session_start d st \<longleftrightarrow> index_size d \<noteq> 0 \<and> client_inv (srv_clients st) \<and> pool_session st = [] \<and>
     global_sequence (srv_sessions st) = 0 \<and>
     (\<exists>attr_rc codes m. nfs41_Init_session_id attr_rc codes d m =
        (0, Some (ht_session_id (srv_sessions st)), ses_mem (srv_sessions st)))"

inductive session_step :: "'c session_server \<Rightarrow> 'c session_server \<Rightarrow> bool" where
  create: "nfs41_op_create_session nb arg data st = Some (r, data', st') \<Longrightarrow> session_step st st'"
| sequence: "nfs41_op_sequence arg data (srv_sessions st) = Some (r, data', ss) \<Longrightarrow> session_step st (st\<lparr>srv_sessions := ss\<rparr>)"
| destroy: "nfs41_op_destroy_session sid (srv_sessions st) = Some (r, ss) \<Longrightarrow> session_step st (st\<lparr>srv_sessions := ss\<rparr>)"
| clients: "client_inv cl \<Longrightarrow> session_step st (st\<lparr>srv_clients := cl, client41 := c41\<rparr>)"

inductive session_reach :: "'c session_server \<Rightarrow> bool" where
  start: "session_start d st \<Longrightarrow> session_reach st"
| step: "session_reach st \<Longrightarrow> session_step st st' \<Longrightarrow> session_reach st'"

section \<open>What a call does\<close>

lemma table_wf_same:
  assumes "table_wf ss" and "ses_inv ss'" and "sessions ss' = sessions ss" and "ses_map ss' = ses_map ss"
  shows "table_wf ss'"
  using assms by (simp add: table_wf_def)

lemma pool_apart_same:
  assumes "pool_apart pool ss" and "brk (ses_mem ss) \<le> brk (ses_mem ss')" and "ses_map ss' = ses_map ss"
  shows "pool_apart pool ss'"
  using assms unfolding pool_apart_def by (metis le_trans not_le order.strict_trans2)

lemma put_slot_simps [simp]:
  "ses_map (put_slot p i slot ss) = ses_map ss" "ses_mem (put_slot p i slot ss) = ses_mem ss"
  "global_sequence (put_slot p i slot ss) = global_sequence ss"
  "ses_inv (put_slot p i slot ss) = ses_inv ss"
  "q \<noteq> p \<Longrightarrow> sessions (put_slot p i slot ss) q = sessions ss q"
  "session_slots (sessions (put_slot p i slot ss) p) = (session_slots (sessions ss p))[i := slot]"
  "session_id (sessions (put_slot p i slot ss) q) = session_id (sessions ss q)"
  "fore_channel_attrs (sessions (put_slot p i slot ss) q) = fore_channel_attrs (sessions ss q)"
  "length (session_slots (sessions (put_slot p i slot ss) q)) = length (session_slots (sessions ss q))"
  by (simp_all add: put_slot_def ses_inv_def)

lemma table_wf_put_slot [simp]: "table_wf (put_slot p i slot ss) = table_wf ss"
  by (simp add: table_wf_def session_wf_def)

lemma pool_apart_put_slot [simp]: "pool_apart pool (put_slot p i slot ss) = pool_apart pool ss"
  by (simp add: pool_apart_def)

text \<open>
  The slot that a SEQUENCE names, and its content after the call: \<open>seen ss ss0\<close> says that the look-up of the
  session has left everything but the statistics of the hash table.
\<close>

definition seen :: "session_store \<Rightarrow> session_store \<Rightarrow> bool" where
  "seen ss ss0 \<longleftrightarrow> sessions ss0 = sessions ss \<and> ses_map ss0 = ses_map ss \<and> brk (ses_mem ss) \<le> brk (ses_mem ss0) \<and>
     (ses_inv ss \<longrightarrow> ses_inv ss0)"

definition named_slot :: "SEQUENCE4args \<Rightarrow> session_store \<Rightarrow> addr \<Rightarrow> session_slot" where
  "named_slot arg ss p = session_slots (sessions ss p) ! unat (sa_slotid arg)"

definition seq_data :: "compound_data \<Rightarrow> SEQUENCE4args \<Rightarrow> addr \<Rightarrow> compound_data" where
  "seq_data data arg p = data\<lparr>use_drc := False, psession := Some p,
     pcached_res := (if sa_cachethis arg then Some (SLOT_RESULT p (sa_slotid arg)) else None)\<rparr>"

definition seq_resok :: "SEQUENCE4args \<Rightarrow> SEQUENCE4resok" where
  "seq_resok arg = \<lparr>sr_sessionid = sa_sessionid arg, sr_sequenceid = sa_sequenceid arg, sr_slotid = sa_slotid arg,
     sr_highest_slotid = NFS41_NB_SLOTS - 1, sr_target_highest_slotid = sa_slotid arg, sr_status_flags = 0\<rparr>"

text \<open>The call on a session at \<open>p\<close>, once the session is found.\<close>

definition seq_outcome ::
  "SEQUENCE4args \<Rightarrow> compound_data \<Rightarrow> session_store \<Rightarrow> addr \<Rightarrow> session_store \<Rightarrow>
   (SEQUENCE4res \<times> compound_data \<times> session_store) option" where
  "seq_outcome arg data ss p ss0 =
       (if NFS41_NB_SLOTS \<le> sa_slotid arg then Some (\<lparr>sr_status = NFS4ERR_BADSLOT, sr_resok4 = None\<rparr>, data, ss0)
        else if slot_lock (named_slot arg ss p) then None
        else let slot = named_slot arg ss p; i = unat (sa_slotid arg) in
          if slot_sequence slot + 1 = sa_sequenceid arg then
            Some (\<lparr>sr_status = NFS40 NFS4_OK, sr_resok4 = Some (seq_resok arg)\<rparr>, seq_data data arg p,
              put_slot p i (slot\<lparr>slot_sequence := sa_sequenceid arg, cache_used := (if sa_cachethis arg then 1 else 0)\<rparr>) ss0)
          else if slot_sequence slot \<noteq> sa_sequenceid arg then
            Some (\<lparr>sr_status = NFS4ERR_SEQ_MISORDERED, sr_resok4 = None\<rparr>, data\<lparr>use_drc := False\<rparr>, put_slot p i slot ss0)
          else if cache_used slot = 1 then
            Some (\<lparr>sr_status = NFS40 NFS4_OK, sr_resok4 = None\<rparr>,
              data\<lparr>use_drc := True, pcached_res := Some (SLOT_RESULT p (sa_slotid arg))\<rparr>,
              put_slot p i (slot\<lparr>slot_lock := True\<rparr>) ss0)
          else Some (\<lparr>sr_status = NFS4ERR_RETRY_UNCACHED_REP, sr_resok4 = None\<rparr>, data\<lparr>use_drc := False\<rparr>,
              put_slot p i (slot\<lparr>slot_lock := True\<rparr>) ss0))"

lemma seq_outcome_None:
  "seq_outcome arg data ss p ss0 = None \<longleftrightarrow> \<not> NFS41_NB_SLOTS \<le> sa_slotid arg \<and> slot_lock (named_slot arg ss p)"
  by (simp add: seq_outcome_def Let_def)

lemma sequence_no_session:
  assumes "table_wf ss" and "oppos data = 0" and "ses_map ss (sa_sessionid arg) = None"
  shows "\<exists>ss0. nfs41_op_sequence arg data ss = Some (\<lparr>sr_status = NFS4ERR_BADSESSION, sr_resok4 = None\<rparr>, data, ss0) \<and>
    seen ss ss0"
proof -
  have "ses_inv ss" using assms(1) by (simp add: table_wf_def)
  from nfs41_Session_Get_Pointer_spec [OF this, of "sa_sessionid arg"] assms show ?thesis
    by (auto simp: nfs41_op_sequence_def seen_def same_sessions_def)
qed

lemma sequence_session:
  assumes "table_wf ss" and "oppos data = 0" and "ses_map ss (sa_sessionid arg) = Some p"
  obtains ss0 where "seen ss ss0" and
    "nfs41_op_sequence arg data ss = seq_outcome arg data ss p ss0"
proof -
  have inv: "ses_inv ss" and wf: "session_wf (sa_sessionid arg) (sessions ss p)"
    using assms(1,3) by (simp_all add: table_wf_def)
  from nfs41_Session_Get_Pointer_spec [OF inv, of "sa_sessionid arg"] assms(3) obtain ss0 where
    g: "nfs41_Session_Get_Pointer (sa_sessionid arg) ss = Some (True, Some p, ss0)" "ses_inv ss0"
      "same_sessions ss ss0" "ses_map ss0 = ses_map ss" by auto
  have s0: "sessions ss0 = sessions ss" using g(3) by (simp add: same_sessions_def)
  have max: "ca_maxrequests (fore_channel_attrs (sessions ss p)) = NFS41_NB_SLOTS"
    and len: "\<not> NFS41_NB_SLOTS \<le> sa_slotid arg \<Longrightarrow> unat (sa_slotid arg) < length (session_slots (sessions ss p))"
    using wf by (simp_all add: session_wf_def word_le_nat_alt)
  show thesis
  proof (rule that [of ss0])
    show "seen ss ss0" using g by (auto simp: seen_def same_sessions_def)
    let ?slot = "session_slots (sessions ss p) ! unat (sa_slotid arg)"
    show "nfs41_op_sequence arg data ss = seq_outcome arg data ss p ss0"
    proof (cases "NFS41_NB_SLOTS \<le> sa_slotid arg")
      case True
      with assms(2) g(1) s0 max show ?thesis by (simp add: nfs41_op_sequence_def seq_outcome_def)
    next
      case False
      with len have "unat (sa_slotid arg) < length (session_slots (sessions ss p))" by simp
      with False assms(2) g(1) s0 max show ?thesis
        by (cases ?slot) (simp add: nfs41_op_sequence_def seq_outcome_def named_slot_def seq_data_def seq_resok_def Let_def)
    qed
  qed
qed

definition slot_held :: "addr \<Rightarrow> nat \<Rightarrow> session_store \<Rightarrow> bool" where
  "slot_held p i ss \<longleftrightarrow> i < length (session_slots (sessions ss p)) \<and> slot_lock (session_slots (sessions ss p) ! i)"

lemma slot_held_put_slot:
  "slot_held p i ss \<Longrightarrow> q \<noteq> p \<or> j \<noteq> i \<or> slot_lock slot \<Longrightarrow> slot_held p i (put_slot q j slot ss)"
  by (cases "q = p"; cases "j = i") (auto simp: slot_held_def)

lemma seen_slot_held [simp]: "seen ss ss0 \<Longrightarrow> slot_held p i ss0 = slot_held p i ss"
  by (simp add: seen_def slot_held_def)

lemma seen_table_wf: "seen ss ss0 \<Longrightarrow> table_wf ss \<Longrightarrow> table_wf ss0"
  by (simp add: seen_def table_wf_def)

lemma seen_pool_apart: "seen ss ss0 \<Longrightarrow> pool_apart pool ss \<Longrightarrow> pool_apart pool ss0"
  by (rule pool_apart_same) (simp_all add: seen_def)

lemma seen_refl: "seen ss ss"
  by (simp add: seen_def)

text \<open>SEQUENCE changes at most one slot, whose mutex was free.\<close>

lemma sequence_writes_slot:
  assumes "table_wf ss" and "nfs41_op_sequence arg data ss = Some (r, data', ss')"
  obtains ss0 where "seen ss ss0" and "ss' = ss0"
  | ss0 p slot where "seen ss ss0" and "ss' = put_slot p (unat (sa_slotid arg)) slot ss0"
    and "ses_map ss (sa_sessionid arg) = Some p" and "\<not> slot_held p (unat (sa_slotid arg)) ss"
proof (cases "oppos data = 0")
  case False
  with assms(2) seen_refl that(1) show thesis by (simp add: nfs41_op_sequence_def)
next
  case pos: True
  show thesis
  proof (cases "ses_map ss (sa_sessionid arg)")
    case None
    from sequence_no_session [OF assms(1) pos None] assms(2) that(1) show thesis by auto
  next
    case (Some p)
    from sequence_session [OF assms(1) pos Some] obtain ss0 where
      o: "seen ss ss0" "nfs41_op_sequence arg data ss = seq_outcome arg data ss p ss0" .
    show thesis
    proof (cases "NFS41_NB_SLOTS \<le> sa_slotid arg")
      case True
      with o assms(2) that(1) show thesis by (simp add: seq_outcome_def)
    next
      case False
      with o(2) assms(2) have free: "\<not> slot_lock (named_slot arg ss p)" by (auto simp: seq_outcome_def split: if_splits)
      then have "\<not> slot_held p (unat (sa_slotid arg)) ss" by (simp add: slot_held_def named_slot_def)
      moreover obtain slot where "ss' = put_slot p (unat (sa_slotid arg)) slot ss0"
        using False free o(2) assms(2) by (auto simp: seq_outcome_def Let_def split: if_splits)
      ultimately show thesis using that(2) [OF o(1) _ Some] by blast
    qed
  qed
qed

lemma seen_keeps:
  assumes "table_wf ss" and "seen ss ss0"
  shows "table_wf ss0 \<and> (\<forall>pool. pool_apart pool ss \<longrightarrow> pool_apart pool ss0) \<and> ses_map ss0 = ses_map ss \<and>
    brk (ses_mem ss) \<le> brk (ses_mem ss0)"
  using seen_table_wf [OF assms(2,1)] seen_pool_apart [OF assms(2)] assms(2) by (simp add: seen_def)

lemma sequence_keeps:
  assumes "table_wf ss" and "nfs41_op_sequence arg data ss = Some (r, data', ss')"
  shows "table_wf ss'" and "pool_apart pool ss \<Longrightarrow> pool_apart pool ss'" and "ses_map ss' = ses_map ss"
    and "slot_held p i ss \<Longrightarrow> slot_held p i ss'" and "brk (ses_mem ss) \<le> brk (ses_mem ss')"
proof -
  have "table_wf ss' \<and> (\<forall>pool. pool_apart pool ss \<longrightarrow> pool_apart pool ss') \<and> ses_map ss' = ses_map ss \<and>
      brk (ses_mem ss) \<le> brk (ses_mem ss') \<and> (slot_held p i ss \<longrightarrow> slot_held p i ss')"
  proof (rule sequence_writes_slot [OF assms])
    fix ss0
    assume "seen ss ss0" "ss' = ss0"
    with seen_keeps [OF assms(1) this(1)] show ?thesis by simp
  next
    fix ss0 q slot
    assume *: "seen ss ss0" "ss' = put_slot q (unat (sa_slotid arg)) slot ss0" "\<not> slot_held q (unat (sa_slotid arg)) ss"
    then have "slot_held p i ss \<longrightarrow> slot_held p i ss'" using slot_held_put_slot [of p i ss0 q "unat (sa_slotid arg)" slot] seen_slot_held [OF *(1)] by metis
    with seen_keeps [OF assms(1) *(1)] *(2) show ?thesis by simp
  qed
  then show "table_wf ss'" "pool_apart pool ss \<Longrightarrow> pool_apart pool ss'" "ses_map ss' = ses_map ss"
    "slot_held p i ss \<Longrightarrow> slot_held p i ss'" "brk (ses_mem ss) \<le> brk (ses_mem ss')" by blast+
qed

lemma destroy_keeps:
  assumes "table_wf ss" and "nfs41_op_destroy_session sid ss = Some (r, ss')"
  shows "table_wf ss'" and "pool_apart pool ss \<Longrightarrow> pool_apart pool ss'"
    and "sessions ss' = sessions ss" and "brk (ses_mem ss) \<le> brk (ses_mem ss')"
proof -
  have inv: "ses_inv ss" using assms(1) by (simp add: table_wf_def)
  from nfs41_Session_Del_spec [OF inv, of sid] assms(2) have
    d: "ses_inv ss'" "same_sessions ss ss'" "ses_map ss' = (ses_map ss)(sid := None)"
    by (auto simp: nfs41_op_destroy_session_def split: if_splits)
  then show "sessions ss' = sessions ss" "brk (ses_mem ss) \<le> brk (ses_mem ss')" by (simp_all add: same_sessions_def)
  have "inj_on (ses_map ss') (dom (ses_map ss'))"
    using assms(1) unfolding d(3) by (auto simp: table_wf_def inj_on_def)
  with assms(1) d show "table_wf ss'" by (auto simp: table_wf_def same_sessions_def)
  show "pool_apart pool ss \<Longrightarrow> pool_apart pool ss'"
    using d(2) ran_del_subset [of "ses_map ss" sid] unfolding pool_apart_def same_sessions_def d(3)
    by (meson order.strict_trans2 subsetD)
qed

section \<open>New sessions\<close>

lemma client_Get_Pointer_spec:
  assumes "client_inv cl"
  shows "\<exists>rc p cl'. nfs_client_id_Get_Pointer clientid False cl = Some (rc, p, cl') \<and> client_inv cl' \<and>
    table_map (ht_client_id cl') = table_map (ht_client_id cl) \<and>
    (rc = CLIENT_ID_SUCCESS \<and> p \<noteq> None \<and> p = table_map (ht_client_id cl) clientid \<or> rc \<noteq> CLIENT_ID_SUCCESS)"
proof -
  obtain a m where a: "Mem_Alloc 1 (cl_mem cl) = (a, m)" by (cases "Mem_Alloc 1 (cl_mem cl)") auto
  note i = client_inv_mem [OF assms Mem_Alloc_brk [OF a]]
  show ?thesis
  proof (cases a)
    case None
    with a i show ?thesis by (simp add: nfs_client_id_Get_Pointer_def)
  next
    case (Some key)
    from i have "table_inv m (ht_client_id cl)" by (simp add: client_inv_def)
    from table.get_law [OF this, of clientid] obtain ht where
      "HashTable_Get (ht_client_id cl) clientid =
         Some (get_rc (table_map (ht_client_id cl) clientid), table_map (ht_client_id cl) clientid, ht)"
      "table_inv m ht" "table_map ht = table_map (ht_client_id cl)" by blast
    with Some a i show ?thesis
      by (cases "table_map (ht_client_id cl) clientid") (auto simp: nfs_client_id_Get_Pointer_def client_inv_def)
  qed
qed

text \<open>Addresses in use before are in use after, and keep their sessions.\<close>

definition grows :: "'c session_server \<Rightarrow> 'c session_server \<Rightarrow> bool" where
  "grows st st' \<longleftrightarrow> (\<forall>q < brk (ses_mem (srv_sessions st)). q \<notin> set (pool_session st) \<longrightarrow>
     sessions (srv_sessions st') q = sessions (srv_sessions st) q \<and> q < brk (ses_mem (srv_sessions st')) \<and>
     q \<notin> set (pool_session st'))"

lemma grows_refl: "srv_sessions st' = srv_sessions st \<Longrightarrow> pool_session st' = pool_session st \<Longrightarrow> grows st st'"
  by (simp add: grows_def)

text \<open>\<^verbatim>\<open>GET_PREALLOC\<close> takes an address that no session of the table has.\<close>

lemma get_session_entry:
  assumes "table_wf ss" and "pool_apart pool ss" and "GET_PREALLOC nb pool (ses_mem ss) = (p, pool', m)"
  shows "table_wf (ss\<lparr>ses_mem := m\<rparr>)" and "pool_apart pool' (ss\<lparr>ses_mem := m\<rparr>)"
    and "\<forall>q < brk (ses_mem ss). q \<notin> set pool \<longrightarrow> q < brk m \<and> q \<notin> set pool' \<and> p \<noteq> Some q"
    and "\<forall>q. p = Some q \<longrightarrow> q < brk m \<and> q \<notin> set pool' \<and> q \<notin> ran (ses_map ss)"
proof -
  note le = GET_PREALLOC_brk [OF assms(3)]
  show "table_wf (ss\<lparr>ses_mem := m\<rparr>)" using assms(1) table_inv_mono [OF _ le, of "ht_session_id ss"] by (simp add: table_wf_def ses_inv_def)
  have "(case p of None \<Rightarrow> pool' = [] | Some q \<Rightarrow> q < brk m \<and> q \<notin> set pool' \<and> distinct pool' \<and>
      (\<forall>q \<in> set pool'. q < brk m) \<and> (\<forall>q \<in> insert q (set pool'). q \<in> set pool \<or> brk (ses_mem ss) \<le> q))"
  proof (cases p)
    case None
    with assms(3) show ?thesis by (auto simp: GET_PREALLOC_def split: list.splits prod.splits if_splits)
  next
    case (Some q)
    have "distinct pool" "\<forall>q \<in> set pool. q < brk (ses_mem ss)" using assms(2) by (simp_all add: pool_apart_def)
    from GET_PREALLOC_fresh [OF assms(3) [unfolded Some] this] Some show ?thesis by simp
  qed
  note f = this
  show "\<forall>q < brk (ses_mem ss). q \<notin> set pool \<longrightarrow> q < brk m \<and> q \<notin> set pool' \<and> p \<noteq> Some q"
    using f le by (auto split: option.splits)
  with f assms(2) show "pool_apart pool' (ss\<lparr>ses_mem := m\<rparr>)" by (auto simp: pool_apart_def split: option.splits)
  show "\<forall>q. p = Some q \<longrightarrow> q < brk m \<and> q \<notin> set pool' \<and> q \<notin> ran (ses_map ss)"
    using f assms(2) by (fastforce simp: pool_apart_def)
qed

text \<open>Entering the session at an address that the table does not have.\<close>

lemma enter_session:
  assumes "table_wf ss" and "pool_apart pool ss" and "p < brk (ses_mem ss)" and "p \<notin> set pool"
    and "p \<notin> ran (ses_map ss)" and "session_wf sid ses"
  shows "\<exists>ok ss'. nfs41_Session_Set sid p (ss\<lparr>global_sequence := g, sessions := (sessions ss)(p := ses)\<rparr>) = Some (ok, ss') \<and>
    table_wf ss' \<and> pool_apart pool ss' \<and> sessions ss' = (sessions ss)(p := ses) \<and> brk (ses_mem ss) \<le> brk (ses_mem ss') \<and>
    global_sequence ss' = g \<and>
    (if ok then ses_map ss sid = None \<and> ses_map ss' = (ses_map ss)(sid \<mapsto> p) else ses_map ss' = ses_map ss)"
proof -
  let ?ss = "ss\<lparr>global_sequence := g, sessions := (sessions ss)(p := ses)\<rparr>"
  have "ses_inv ?ss" using assms(1) by (simp add: table_wf_def ses_inv_def)
  moreover have "ht_session_id ?ss = ht_session_id ss" by simp
  ultimately obtain ok ss' where
    s: "nfs41_Session_Set sid p ?ss = Some (ok, ss')" "ses_inv ss'" "same_sessions ?ss ss'"
      "if ok then ses_map ss sid = None \<and> ses_map ss' = (ses_map ss)(sid \<mapsto> p) else ses_map ss' = ses_map ss"
    using nfs41_Session_Set_spec [of ?ss sid p] by metis
  have h: "sessions ss' = (sessions ss)(p := ses)" "global_sequence ss' = g" "brk (ses_mem ss) \<le> brk (ses_mem ss')"
    using s(3) by (simp_all add: same_sessions_def)
  have not_p: "ses_map ss k \<noteq> Some p" for k using assms(5) by (auto simp: ran_def)
  have "inj_on (ses_map ss') (dom (ses_map ss'))"
    using s(4) assms(1) not_p not_p [symmetric] by (cases ok) (auto simp: table_wf_def inj_on_def)
  moreover have "session_wf k (sessions ss' q)" if "ses_map ss' k = Some q" for k q
    using that s(4) assms(1,6) not_p h(1) by (cases ok) (auto simp: table_wf_def split: if_splits)
  ultimately have "table_wf ss'" using s(2) by (simp add: table_wf_def)
  moreover have "ran (ses_map ss') \<subseteq> insert p (ran (ses_map ss))"
    using s(4) ran_upd_subset [of "ses_map ss" sid p] by (cases ok) auto
  then have "pool_apart pool ss'"
    using assms(2-4) h(3) unfolding pool_apart_def by (metis insertE order.strict_trans2 subsetD)
  ultimately show ?thesis using s(1,4) h by auto
qed

lemma init_session_wf: "session_wf sid (init_session arg sid)"
  by (simp add: session_wf_def init_session_def)

lemma open_session_spec:
  assumes "session_ok st"
  shows "\<exists>r data' st'. open_session nb arg c data st = Some (r, data', st') \<and> session_ok st' \<and> grows st st' \<and>
    srv_clients st' = srv_clients st \<and> use_drc data' = use_drc data \<and>
    (csr_status r = NFS40 NFS4_OK \<longrightarrow>
      (\<exists>p sid resok. csr_resok4 r = Some resok \<and> csr_sessionid resok = sid \<and> ses_map (srv_sessions st) sid = None \<and>
         ses_map (srv_sessions st') = (ses_map (srv_sessions st))(sid \<mapsto> p) \<and>
         sessions (srv_sessions st') p = init_session arg sid \<and>
         sid = fst (nfs41_Build_sessionid (csa_clientid arg) (global_sequence (srv_sessions st))) \<and>
         create_session_sequence (client41 st' c) = create_session_sequence (client41 st c) \<and>
         cache_used (create_session_slot (client41 st' c)) = 1))"
proof -
  let ?ss = "srv_sessions st"
  obtain p pool m where g: "GET_PREALLOC nb (pool_session st) (ses_mem ?ss) = (p, pool, m)"
    by (cases "GET_PREALLOC nb (pool_session st) (ses_mem ?ss)") auto
  have wf: "table_wf ?ss" "pool_apart (pool_session st) ?ss" and cl: "client_inv (srv_clients st)"
    using assms by (simp_all add: session_ok_def)
  note e = get_session_entry [OF wf g]
  let ?ss' = "?ss\<lparr>ses_mem := m\<rparr>"
  show ?thesis
  proof (cases "p = None \<or> CREATE_SESSION4_FLAG_CONN_RDMA < csa_flags arg")
    case True
    with g e(1-3) cl show ?thesis
      by (cases p) (auto simp: open_session_def session_ok_def grows_def)
  next
    case False
    then obtain q where q: "p = Some q" "\<not> CREATE_SESSION4_FLAG_CONN_RDMA < csa_flags arg" by auto
    obtain sid gseq where b: "nfs41_Build_sessionid (csa_clientid arg) (global_sequence ?ss) = (sid, gseq)"
      by (cases "nfs41_Build_sessionid (csa_clientid arg) (global_sequence ?ss)") auto
    have fresh: "q < brk (ses_mem ?ss')" "q \<notin> set pool" "q \<notin> ran (ses_map ?ss')" using e(4) q(1) by simp_all
    from enter_session [OF e(1,2) fresh init_session_wf [of sid arg], of gseq] obtain ok ss' where
      s: "nfs41_Session_Set sid q (?ss\<lparr>ses_mem := m, global_sequence := gseq,
          sessions := (sessions ?ss)(q := init_session arg sid)\<rparr>) = Some (ok, ss')"
        "table_wf ss'" "pool_apart pool ss'" "sessions ss' = (sessions ?ss)(q := init_session arg sid)"
        "brk m \<le> brk (ses_mem ss')"
        "if ok then ses_map ?ss sid = None \<and> ses_map ss' = (ses_map ?ss)(sid \<mapsto> q) else ses_map ss' = ses_map ?ss"
      by (auto cong: if_cong)
    have gr: "\<forall>x < brk (ses_mem ?ss). x \<notin> set (pool_session st) \<longrightarrow>
        sessions ss' x = sessions ?ss x \<and> x < brk (ses_mem ss') \<and> x \<notin> set pool"
      using e(3) s(4,5) q(1) by auto
    show ?thesis using g q b s gr cl
      by (cases ok) (simp add: open_session_def session_ok_def grows_def Let_def, blast,
        simp add: open_session_def session_ok_def grows_def Let_def)
  qed
qed

lemma session_ok_clients:
  "session_ok st \<Longrightarrow> client_inv cl \<Longrightarrow> session_ok (st\<lparr>srv_clients := cl, client41 := c41\<rparr>)"
  by (simp add: session_ok_def)

lemma session_ok_confirm: "session_ok st \<Longrightarrow> session_ok (confirm_client arg c st)"
  by (simp add: session_ok_def confirm_client_def client_inv_def)

lemma confirm_client_simps [simp]:
  "srv_sessions (confirm_client arg c st) = srv_sessions st" "pool_session (confirm_client arg c st) = pool_session st"
  "ht_client_id (srv_clients (confirm_client arg c st)) = ht_client_id (srv_clients st)"
  "create_session_sequence (client41 (confirm_client arg c st) c) = create_session_sequence (client41 st c) + 1"
  by (simp_all add: confirm_client_def)

lemma create_session_spec:
  assumes "session_ok st"
  shows "\<exists>r data' st'. nfs41_op_create_session nb arg data st = Some (r, data', st') \<and> session_ok st' \<and> grows st st' \<and>
    table_map (ht_client_id (srv_clients st')) = table_map (ht_client_id (srv_clients st)) \<and>
    (csr_status r = NFS40 NFS4_OK \<and> \<not> use_drc data' \<longrightarrow>
      (\<exists>p c sid resok. csr_resok4 r = Some resok \<and> csr_sessionid resok = sid \<and> ses_map (srv_sessions st) sid = None \<and>
         ses_map (srv_sessions st') = (ses_map (srv_sessions st))(sid \<mapsto> p) \<and>
         sessions (srv_sessions st') p = init_session arg sid \<and>
         sid = fst (nfs41_Build_sessionid (csa_clientid arg) (global_sequence (srv_sessions st))) \<and>
         table_map (ht_client_id (srv_clients st)) (csa_clientid arg) = Some c \<and>
         (oppos data = 0 \<longrightarrow> create_session_sequence (client41 st' c) = csa_sequence arg + 1) \<and>
         cache_used (create_session_slot (client41 st' c)) = 1))"
proof -
  have "client_inv (srv_clients st)" using assms by (simp add: session_ok_def)
  from client_Get_Pointer_spec [OF this, of "csa_clientid arg"] obtain rc pc cl where
    g: "nfs_client_id_Get_Pointer (csa_clientid arg) False (srv_clients st) = Some (rc, pc, cl)" "client_inv cl"
      "table_map (ht_client_id cl) = table_map (ht_client_id (srv_clients st))"
      "rc = CLIENT_ID_SUCCESS \<and> pc \<noteq> None \<and> pc = table_map (ht_client_id (srv_clients st)) (csa_clientid arg) \<or>
       rc \<noteq> CLIENT_ID_SUCCESS" by blast
  let ?st = "st\<lparr>srv_clients := cl\<rparr>"
  have ok: "session_ok ?st" using assms g(2) by (simp add: session_ok_def)
  have gr: "grows st ?st" by (rule grows_refl) simp_all
  show ?thesis
  proof (cases "rc = CLIENT_ID_SUCCESS")
    case False
    with g ok gr show ?thesis by (simp add: nfs41_op_create_session_def)
  next
    case True
    with g(4) obtain c where c: "pc = Some c" "table_map (ht_client_id (srv_clients st)) (csa_clientid arg) = Some c" by auto
    show ?thesis
    proof (cases "oppos data = 0 \<and> csa_sequence arg \<noteq> create_session_sequence (client41 st c)")
      case seq: True
      with True c g ok gr show ?thesis by (auto simp: nfs41_op_create_session_def Let_def)
    next
      case seq: False
      then have "\<not> (oppos data = 0 \<and> csa_sequence arg + 1 = create_session_sequence (client41 st c))" by auto
      with seq True c g(1) have run: "nfs41_op_create_session nb arg data st =
          open_session nb arg c (data\<lparr>use_drc := False\<rparr>) (confirm_client arg c ?st)"
        by (auto simp: nfs41_op_create_session_def)
      from open_session_spec [OF session_ok_confirm [OF ok], of nb arg c "data\<lparr>use_drc := False\<rparr>" arg c]
      show ?thesis unfolding run using seq c(2) g(3) by (auto simp: grows_def)
    qed
  qed
qed

text \<open>When no allocation fails and the id is not in use, the request succeeds.\<close>

definition session_room :: "session_store \<Rightarrow> bool" where
  "session_room ss \<longleftrightarrow> mem_good (ses_mem ss) \<and> nb_node_prealloc (dims (parameter (ht_session_id ss))) \<noteq> 0"

lemma Session_Set_room:
  assumes "ses_inv ss" and "session_room ss" and "ses_map ss sid = None"
  shows "\<exists>ss'. nfs41_Session_Set sid p ss = Some (True, ss')"
proof -
  have good: "mem_good (ses_mem ss)" and nb: "nb_node_prealloc (dims (parameter (ht_session_id ss))) \<noteq> 0"
    using assms(2) by (simp_all add: session_room_def)
  obtain m where m: "Mem_Alloc 1 (ses_mem ss) = (Some (brk (ses_mem ss)), m)" "mem_good m"
    using Mem_Alloc_good [OF good, of 1] by auto
  have "table_inv m (ht_session_id ss)" using assms(1) table_inv_Mem_Alloc [OF _ m(1)] by (simp add: ses_inv_def)
  from growing_table.insert_succeeds [OF this m(2), of sid p] assms(3) nb m(1) show ?thesis
    by (auto simp: nfs41_Session_Set_def table_room_def simp del: One_nat_def)
qed

lemma open_session_room:
  assumes "session_ok st" and "session_room (srv_sessions st)" and "nb \<noteq> 0"
    and "\<not> CREATE_SESSION4_FLAG_CONN_RDMA < csa_flags arg"
    and "ses_map (srv_sessions st) (fst (nfs41_Build_sessionid (csa_clientid arg) (global_sequence (srv_sessions st)))) = None"
  shows "\<exists>r data' st'. open_session nb arg c data st = Some (r, data', st') \<and> csr_status r = NFS40 NFS4_OK"
proof -
  let ?ss = "srv_sessions st"
  obtain sid gseq where b: "nfs41_Build_sessionid (csa_clientid arg) (global_sequence ?ss) = (sid, gseq)"
    by (cases "nfs41_Build_sessionid (csa_clientid arg) (global_sequence ?ss)") auto
  obtain p pool m where g: "GET_PREALLOC nb (pool_session st) (ses_mem ?ss) = (p, pool, m)"
    by (cases "GET_PREALLOC nb (pool_session st) (ses_mem ?ss)") auto
  have good: "mem_good (ses_mem ?ss)" using assms(2) by (simp add: session_room_def)
  obtain q where q: "p = Some q" using GET_PREALLOC_good [OF g good assms(3)] by blast
  let ?ss' = "?ss\<lparr>ses_mem := m, global_sequence := gseq, sessions := (sessions ?ss)(q := init_session arg sid)\<rparr>"
  have "session_room ?ss'"
    using assms(2) GET_PREALLOC_fails [OF g] by (simp add: session_room_def mem_good_def)
  moreover have "ses_inv ?ss'"
    using assms(1) GET_PREALLOC_brk [OF g] table_inv_mono [of "ses_mem ?ss" "ht_session_id ?ss" m]
    by (simp add: session_ok_def table_wf_def ses_inv_def)
  ultimately obtain ss' where "nfs41_Session_Set sid q ?ss' = Some (True, ss')"
    using Session_Set_room [of ?ss' sid q] assms(5) b by auto
  with g q b assms(4) show ?thesis by (simp add: open_session_def Let_def)
qed

lemma create_session_room:
  assumes "session_ok st" and "session_room (srv_sessions st)" and "nb \<noteq> 0"
    and "\<not> CREATE_SESSION4_FLAG_CONN_RDMA < csa_flags arg"
    and "ses_map (srv_sessions st) (fst (nfs41_Build_sessionid (csa_clientid arg) (global_sequence (srv_sessions st)))) = None"
    and "mem_good (cl_mem (srv_clients st))" and "table_map (ht_client_id (srv_clients st)) (csa_clientid arg) = Some c"
    and "csa_sequence arg = create_session_sequence (client41 st c)"
  shows "\<exists>r data' st'. nfs41_op_create_session nb arg data st = Some (r, data', st') \<and> csr_status r = NFS40 NFS4_OK \<and>
    \<not> use_drc data'"
proof -
  have inv: "client_inv (srv_clients st)" using assms(1) by (simp add: session_ok_def)
  obtain m where m: "Mem_Alloc 1 (cl_mem (srv_clients st)) = (Some (brk (cl_mem (srv_clients st))), m)"
    using Mem_Alloc_good [OF assms(6), of 1] by auto
  have i: "client_inv ((srv_clients st)\<lparr>cl_mem := m\<rparr>)" by (rule client_inv_mem [OF inv Mem_Alloc_brk [OF m]])
  then have "table_inv m (ht_client_id (srv_clients st))" by (simp add: client_inv_def)
  from table.get_law [OF this, of "csa_clientid arg"] assms(7) obtain ht where
    t: "HashTable_Get (ht_client_id (srv_clients st)) (csa_clientid arg) = Some (HASHTABLE_SUCCESS, Some c, ht)"
      "table_inv m ht" by auto
  let ?st = "st\<lparr>srv_clients := (srv_clients st)\<lparr>cl_mem := m, ht_client_id := ht\<rparr>\<rparr>"
  have "session_ok ?st" using assms(1) i t(2) by (simp add: session_ok_def client_inv_def)
  from session_ok_confirm [OF this, of arg c] have ok: "session_ok (confirm_client arg c ?st)" .
  have "nfs41_op_create_session nb arg data st =
      open_session nb arg c (data\<lparr>use_drc := False\<rparr>) (confirm_client arg c ?st)"
    using m t(1) assms(8) by (simp add: nfs41_op_create_session_def nfs_client_id_Get_Pointer_def Let_def del: One_nat_def)
  with open_session_room [OF ok, of nb arg c "data\<lparr>use_drc := False\<rparr>"]
    open_session_spec [OF ok, of nb arg c "data\<lparr>use_drc := False\<rparr>"] assms(2-5)
  show ?thesis by auto
qed

section \<open>Reachable states\<close>

lemma session_start_ok:
  assumes "session_start d st"
  shows "session_ok st" and "ses_map (srv_sessions st) = Map.empty"
proof -
  let ?ss = "srv_sessions st"
  from assms obtain attr_rc codes m where
    s: "index_size d \<noteq> 0" "client_inv (srv_clients st)" "pool_session st = []"
      "nfs41_Init_session_id attr_rc codes d m = (0, Some (ht_session_id ?ss), ses_mem ?ss)"
    by (auto simp: session_start_def)
  then have i: "HashTable_Init attr_rc codes (session_id_param d) m = (Some (ht_session_id ?ss), ses_mem ?ss)"
    by (auto simp: nfs41_Init_session_id_def split: prod.splits option.splits)
  from HashTable_Init_inv [OF this session_id_param_good [OF s(1)]]
  have t: "table_inv (ses_mem ?ss) (ht_session_id ?ss)" "ses_map ?ss = Map.empty" by simp_all
  then show "ses_map (srv_sessions st) = Map.empty" by simp
  from t s show "session_ok st" by (simp add: session_ok_def table_wf_def ses_inv_def pool_apart_def)
qed

lemma session_step_keeps:
  assumes "session_step st st'" and "session_ok st"
  shows "session_ok st'"
  using assms
proof cases
  case (create nb arg data r data')
  with create_session_spec [OF assms(2), of nb arg data] show ?thesis by auto
next
  case (sequence arg data r data' ss)
  with sequence_keeps(1,2) [OF _ sequence(2)] assms(2) show ?thesis by (simp add: session_ok_def)
next
  case (destroy sid r ss)
  with destroy_keeps(1,2) [OF _ destroy(2)] assms(2) show ?thesis by (simp add: session_ok_def)
next
  case (clients cl c41)
  with assms(2) show ?thesis by (simp add: session_ok_clients)
qed

lemma session_reach_ok: "session_reach st \<Longrightarrow> session_ok st"
  by (induction rule: session_reach.induct) (auto intro: session_start_ok(1) session_step_keeps)

text \<open>A slot that is held stays held, in the table or out of it.\<close>

definition stuck :: "addr \<Rightarrow> nat \<Rightarrow> 'c session_server \<Rightarrow> bool" where
  "stuck p i st \<longleftrightarrow> p < brk (ses_mem (srv_sessions st)) \<and> p \<notin> set (pool_session st) \<and> slot_held p i (srv_sessions st)"

lemma session_step_stuck:
  assumes "session_step st st'" and "session_ok st" and "stuck p i st"
  shows "stuck p i st'"
proof -
  have wf: "table_wf (srv_sessions st)" using assms(2) by (simp add: session_ok_def)
  from assms(1) show ?thesis
  proof cases
    case (create nb arg data r data')
    with create_session_spec [OF assms(2), of nb arg data] assms(3) show ?thesis
      by (auto simp: stuck_def grows_def slot_held_def)
  next
    case (sequence arg data r data' ss)
    with sequence_keeps(4,5) [OF wf sequence(2)] assms(3) show ?thesis by (auto simp: stuck_def)
  next
    case (destroy sid r ss)
    with destroy_keeps(3,4) [OF wf destroy(2)] assms(3) show ?thesis by (auto simp: stuck_def slot_held_def)
  next
    case (clients cl c41)
    with assms(3) show ?thesis by (simp add: stuck_def)
  qed
qed

lemma session_steps_stuck:
  assumes "session_step\<^sup>*\<^sup>* st st'" and "session_ok st" and "stuck p i st"
  shows "session_ok st' \<and> stuck p i st'"
  using assms by (induction rule: rtranclp_induct) (auto intro: session_step_keeps session_step_stuck)

lemma sequence_stuck:
  assumes "table_wf ss" and "slot_held p (unat (sa_slotid arg)) ss" and "ses_map ss (sa_sessionid arg) = Some p"
    and "oppos data = 0"
  shows "nfs41_op_sequence arg data ss = None"
proof -
  have "session_wf (sa_sessionid arg) (sessions ss p)" using assms(1,3) by (simp add: table_wf_def)
  with assms(2) have "\<not> NFS41_NB_SLOTS \<le> sa_slotid arg" by (simp add: slot_held_def session_wf_def word_le_nat_alt)
  with sequence_session [OF assms(1,4,3)] assms(2) show ?thesis
    by (auto simp: seq_outcome_def slot_held_def named_slot_def)
qed

section \<open>Theorems\<close>

text \<open>
  C12. Sessions are well formed in every reachable state: the session found under an id has that id, exactly
  as many slots as its channel admits requests, and no other id leads to it. CREATE_SESSION and
  DESTROY_SESSION always return; SEQUENCE returns, without an access beyond the slots, unless it waits for
  the mutex of the slot that it names.
\<close>

theorem sessions_well_formed:
  assumes "session_reach st"
  shows "(\<forall>sid p. ses_map (srv_sessions st) sid = Some p \<longrightarrow> session_wf sid (sessions (srv_sessions st) p)) \<and>
    inj_on (ses_map (srv_sessions st)) (dom (ses_map (srv_sessions st))) \<and>
    nfs41_op_create_session nb carg cdata st \<noteq> None \<and> nfs41_op_destroy_session dsid (srv_sessions st) \<noteq> None \<and>
    (nfs41_op_sequence arg data (srv_sessions st) = None \<longleftrightarrow>
       oppos data = 0 \<and> (\<exists>p. ses_map (srv_sessions st) (sa_sessionid arg) = Some p \<and>
         slot_held p (unat (sa_slotid arg)) (srv_sessions st)))"
proof -
  let ?ss = "srv_sessions st"
  have ok: "session_ok st" by (rule session_reach_ok [OF assms])
  then have wf: "table_wf ?ss" and inv: "ses_inv ?ss" by (simp_all add: session_ok_def table_wf_def)
  have "nfs41_op_sequence arg data ?ss = None \<longleftrightarrow> oppos data = 0 \<and>
      (\<exists>p. ses_map ?ss (sa_sessionid arg) = Some p \<and> slot_held p (unat (sa_slotid arg)) ?ss)"
  proof (cases "oppos data = 0 \<and> ses_map ?ss (sa_sessionid arg) \<noteq> None")
    case False
    with sequence_no_session [OF wf, of data arg] show ?thesis by (auto simp: nfs41_op_sequence_def)
  next
    case True
    then obtain p where p: "oppos data = 0" "ses_map ?ss (sa_sessionid arg) = Some p" by auto
    then have "session_wf (sa_sessionid arg) (sessions ?ss p)" using wf by (simp add: table_wf_def)
    then have "NFS41_NB_SLOTS \<le> sa_slotid arg \<longleftrightarrow> length (session_slots (sessions ?ss p)) \<le> unat (sa_slotid arg)"
      by (simp add: session_wf_def word_le_nat_alt)
    then have held: "\<not> NFS41_NB_SLOTS \<le> sa_slotid arg \<and> slot_lock (named_slot arg ?ss p) \<longleftrightarrow>
        slot_held p (unat (sa_slotid arg)) ?ss" by (auto simp: slot_held_def named_slot_def)
    from sequence_session [OF wf p] obtain ss0 where
      "nfs41_op_sequence arg data ?ss = seq_outcome arg data ?ss p ss0" .
    with p held show ?thesis by (simp add: seq_outcome_None)
  qed
  moreover have "nfs41_op_create_session nb carg cdata st \<noteq> None" using create_session_spec [OF ok, of nb carg cdata] by auto
  moreover have "nfs41_op_destroy_session dsid ?ss \<noteq> None"
    using nfs41_Session_Del_spec [OF inv, of dsid] by (auto simp: nfs41_op_destroy_session_def)
  ultimately show ?thesis using wf by (simp add: table_wf_def)
qed

text \<open>
  C10. A request is executed once. When SEQUENCE lets a request pass, its sequence id is the successor of the
  one in the slot, modulo \<open>2 ^ 32\<close>; when the same request comes again next it does not pass a second time: it is
  answered from the reply that was cached, if the client had asked for that, and with
  \<open>NFS4ERR_RETRY_UNCACHED_REP\<close> otherwise.
\<close>

theorem sequence_executes_once:
  assumes "session_reach st" and "nfs41_op_sequence arg data (srv_sessions st) = Some (r, data', ss)"
    and "sr_status r = NFS40 NFS4_OK" and "\<not> use_drc data'" and "oppos data2 = 0"
  shows "\<exists>p. ses_map (srv_sessions st) (sa_sessionid arg) = Some p \<and> psession data' = Some p \<and>
    sa_sequenceid arg = slot_sequence (named_slot arg (srv_sessions st) p) + 1 \<and>
    slot_sequence (named_slot arg ss p) = sa_sequenceid arg \<and>
    (\<exists>r2 data3 ss2. nfs41_op_sequence arg data2 ss = Some (r2, data3, ss2) \<and> psession data3 = psession data2 \<and>
       (if sa_cachethis arg
        then sr_status r2 = NFS40 NFS4_OK \<and> use_drc data3 \<and> pcached_res data3 = Some (SLOT_RESULT p (sa_slotid arg))
        else sr_status r2 = NFS4ERR_RETRY_UNCACHED_REP \<and> \<not> use_drc data3))"
proof -
  let ?ss = "srv_sessions st"
  have wf: "table_wf ?ss" using session_reach_ok [OF assms(1)] by (simp add: session_ok_def)
  have pos: "oppos data = 0" using assms(2,3) by (auto simp: nfs41_op_sequence_def split: if_splits)
  from sequence_no_session [OF wf pos] assms(2,3) obtain p where p: "ses_map ?ss (sa_sessionid arg) = Some p"
    by fastforce
  from sequence_session [OF wf pos p] obtain ss0 where
    o: "seen ?ss ss0" "nfs41_op_sequence arg data ?ss = seq_outcome arg data ?ss p ss0" .
  let ?slot = "(named_slot arg ?ss p)\<lparr>slot_sequence := sa_sequenceid arg, cache_used := (if sa_cachethis arg then 1 else 0)\<rparr>"
  from o(2) assms(2-4) have ran: "\<not> NFS41_NB_SLOTS \<le> sa_slotid arg" "\<not> slot_lock (named_slot arg ?ss p)"
      "slot_sequence (named_slot arg ?ss p) + 1 = sa_sequenceid arg" "data' = seq_data data arg p"
      "ss = put_slot p (unat (sa_slotid arg)) ?slot ss0"
    by (auto simp: seq_outcome_def Let_def split: if_splits)
  have "session_wf (sa_sessionid arg) (sessions ?ss p)" using wf p by (simp add: table_wf_def)
  with ran(1) have len: "unat (sa_slotid arg) < length (session_slots (sessions ?ss p))"
    by (simp add: session_wf_def word_le_nat_alt)
  have s0: "sessions ss0 = sessions ?ss" "ses_map ss0 = ses_map ?ss" using o(1) by (simp_all add: seen_def)
  have slot: "named_slot arg ss p = ?slot" using len ran(5) s0(1) by (simp add: named_slot_def)
  have wf': "table_wf ss" "ses_map ss = ses_map ?ss" using sequence_keeps(1,3) [OF wf assms(2)] by simp_all
  with p have p': "ses_map ss (sa_sessionid arg) = Some p" by simp
  from sequence_session [OF wf'(1) assms(5) p'] obtain ss1 where
    o2: "nfs41_op_sequence arg data2 ss = seq_outcome arg data2 ss p ss1" .
  show ?thesis using p ran(1-4) o2 unfolding seq_outcome_def slot Let_def
    by (cases "sa_cachethis arg") (simp_all add: seq_data_def slot)
qed

text \<open>
  C39. A replayed request blocks its slot for good. When the sequence id of the slot comes again, SEQUENCE
  returns with the mutex of the slot held, on the path that answers from the cache as on the one that
  refuses: whatever is called afterwards, every SEQUENCE on this slot of the session waits for ever.
\<close>

theorem replay_blocks_slot:
  assumes "session_reach st" and "ses_map (srv_sessions st) (sa_sessionid arg) = Some p"
    and "sa_slotid arg < NFS41_NB_SLOTS" and "\<not> slot_held p (unat (sa_slotid arg)) (srv_sessions st)"
    and "sa_sequenceid arg = slot_sequence (named_slot arg (srv_sessions st) p)" and "oppos data = 0"
  shows "\<exists>r data' ss. nfs41_op_sequence arg data (srv_sessions st) = Some (r, data', ss) \<and>
    sr_status r \<in> {NFS40 NFS4_OK, NFS4ERR_RETRY_UNCACHED_REP} \<and>
    (\<forall>st2 arg2 data2. session_step\<^sup>*\<^sup>* (st\<lparr>srv_sessions := ss\<rparr>) st2 \<and> ses_map (srv_sessions st2) (sa_sessionid arg2) = Some p \<and>
       sa_slotid arg2 = sa_slotid arg \<and> oppos data2 = 0 \<longrightarrow>
       nfs41_op_sequence arg2 data2 (srv_sessions st2) = None)"
proof -
  let ?ss = "srv_sessions st" and ?i = "unat (sa_slotid arg)"
  have ok: "session_ok st" by (rule session_reach_ok [OF assms(1)])
  then have wf: "table_wf ?ss" and pool: "pool_apart (pool_session st) ?ss" by (simp_all add: session_ok_def)
  have "session_wf (sa_sessionid arg) (sessions ?ss p)" using wf assms(2) by (simp add: table_wf_def)
  with assms(3) have len: "?i < length (session_slots (sessions ?ss p))" by (simp add: session_wf_def word_less_nat_alt)
  with assms(4) have free: "\<not> slot_lock (named_slot arg ?ss p)" by (simp add: slot_held_def named_slot_def)
  from sequence_session [OF wf assms(6,2)] obtain ss0 where
    o: "seen ?ss ss0" "nfs41_op_sequence arg data ?ss = seq_outcome arg data ?ss p ss0" .
  let ?ss' = "put_slot p ?i ((named_slot arg ?ss p)\<lparr>slot_lock := True\<rparr>) ss0"
  have "\<exists>r data'. nfs41_op_sequence arg data ?ss = Some (r, data', ?ss') \<and>
      sr_status r \<in> {NFS40 NFS4_OK, NFS4ERR_RETRY_UNCACHED_REP}"
    unfolding o(2) seq_outcome_def using linorder_not_le [THEN iffD2, OF assms(3)] assms(5) free by (simp add: Let_def)
  then obtain r data' where run: "nfs41_op_sequence arg data ?ss = Some (r, data', ?ss')"
    and r: "sr_status r \<in> {NFS40 NFS4_OK, NFS4ERR_RETRY_UNCACHED_REP}" by blast
  have s0: "sessions ss0 = sessions ?ss" "brk (ses_mem ?ss) \<le> brk (ses_mem ss0)" using o(1) by (simp_all add: seen_def)
  have "session_ok (st\<lparr>srv_sessions := ?ss'\<rparr>)" by (rule session_step_keeps [OF session_step.sequence [OF run] ok])
  moreover have "p < brk (ses_mem ?ss)" "p \<notin> set (pool_session st)" using pool assms(2) by (auto simp: pool_apart_def ran_def)
  then have "stuck p ?i (st\<lparr>srv_sessions := ?ss'\<rparr>)" using len s0 by (simp add: stuck_def slot_held_def)
  ultimately have later: "session_ok st2 \<and> stuck p ?i st2" if "session_step\<^sup>*\<^sup>* (st\<lparr>srv_sessions := ?ss'\<rparr>) st2" for st2
    using session_steps_stuck [OF that] by blast
  show ?thesis
    using run r later by (metis session_ok_def stuck_def sequence_stuck)
qed

text \<open>
  C11. A session that CREATE_SESSION has made can be used: its id, the client id and the next value of the
  counter, was not in use, and SEQUENCE lets the first
  request, with the sequence id 1, pass on each of its slots. When the same CREATE_SESSION comes again as
  the first operation of a request, no second session is made; unless the client cannot be looked up, the
  answer is that of the replay cache of the client.
\<close>

theorem created_session_usable:
  assumes "session_reach st" and "nfs41_op_create_session nb arg data st = Some (r, data', st')"
    and "csr_status r = NFS40 NFS4_OK" and "\<not> use_drc data'" and "oppos data = 0"
    and "slotid < NFS41_NB_SLOTS"
  shows "\<exists>p resok. csr_resok4 r = Some resok \<and> ses_map (srv_sessions st) (csr_sessionid resok) = None \<and>
    csr_sessionid resok = fst (nfs41_Build_sessionid (csa_clientid arg) (global_sequence (srv_sessions st))) \<and>
    ses_map (srv_sessions st') = (ses_map (srv_sessions st))(csr_sessionid resok \<mapsto> p) \<and>
    (\<exists>r2 data2 ss. nfs41_op_sequence \<lparr>sa_sessionid = csr_sessionid resok, sa_sequenceid = 1, sa_slotid = slotid,
        sa_highest_slotid = hi, sa_cachethis = c\<rparr> data (srv_sessions st') = Some (r2, data2, ss) \<and>
      sr_status r2 = NFS40 NFS4_OK \<and> \<not> use_drc data2 \<and> psession data2 = Some p) \<and>
    (\<exists>r2 data2 st2. nfs41_op_create_session nb arg data st' = Some (r2, data2, st2) \<and>
      srv_sessions st2 = srv_sessions st' \<and>
      (csr_status r2 = NFS40 NFS4_OK \<and> use_drc data2 \<or> csr_status r2 = NFS40 NFS4ERR_STALE_CLIENTID))"
proof -
  have ok: "session_ok st" by (rule session_reach_ok [OF assms(1)])
  from create_session_spec [OF ok, of nb arg data] assms(2-5) obtain p cp resok where
    s: "session_ok st'" "table_map (ht_client_id (srv_clients st')) = table_map (ht_client_id (srv_clients st))"
      "csr_resok4 r = Some resok" "ses_map (srv_sessions st) (csr_sessionid resok) = None"
      "ses_map (srv_sessions st') = (ses_map (srv_sessions st))(csr_sessionid resok \<mapsto> p)"
      "sessions (srv_sessions st') p = init_session arg (csr_sessionid resok)"
      "table_map (ht_client_id (srv_clients st)) (csa_clientid arg) = Some cp"
      "create_session_sequence (client41 st' cp) = csa_sequence arg + 1"
      "cache_used (create_session_slot (client41 st' cp)) = 1"
      "csr_sessionid resok = fst (nfs41_Build_sessionid (csa_clientid arg) (global_sequence (srv_sessions st)))" by auto
  let ?arg = "\<lparr>sa_sessionid = csr_sessionid resok, sa_sequenceid = 1, sa_slotid = slotid,
    sa_highest_slotid = hi, sa_cachethis = c\<rparr>"
  have wf: "table_wf (srv_sessions st')" and cl: "client_inv (srv_clients st')" using s(1) by (simp_all add: session_ok_def)
  have slot: "named_slot ?arg (srv_sessions st') p = zero_slot"
    using s(6) assms(6) by (simp add: named_slot_def init_session_def word_less_nat_alt)
  have "ses_map (srv_sessions st') (sa_sessionid ?arg) = Some p" using s(5) by simp
  from sequence_session [OF wf assms(5) this] obtain ss0 where
    "nfs41_op_sequence ?arg data (srv_sessions st') = seq_outcome ?arg data (srv_sessions st') p ss0" .
  then have 1: "\<exists>r2 data2 ss. nfs41_op_sequence ?arg data (srv_sessions st') = Some (r2, data2, ss) \<and>
      sr_status r2 = NFS40 NFS4_OK \<and> \<not> use_drc data2 \<and> psession data2 = Some p"
    using linorder_not_le [THEN iffD2, OF assms(6)] unfolding seq_outcome_def slot by (simp add: zero_slot_def seq_data_def Let_def)
  from client_Get_Pointer_spec [OF cl, of "csa_clientid arg"] s(2,7-9) assms(5)
  have 2: "\<exists>r2 data2 st2. nfs41_op_create_session nb arg data st' = Some (r2, data2, st2) \<and>
      srv_sessions st2 = srv_sessions st' \<and>
      (csr_status r2 = NFS40 NFS4_OK \<and> use_drc data2 \<or> csr_status r2 = NFS40 NFS4ERR_STALE_CLIENTID)"
    by (auto simp: nfs41_op_create_session_def Let_def)
  show ?thesis by (intro exI [of _ p] exI [of _ resok] conjI s(3,4,10,5) 1 2)
qed

text \<open>
  C40. The answer of \<^verbatim>\<open>nfs41_op_destroy_session\<close> is the wrong way round: when the session exists it is
  removed, so that SEQUENCE no longer finds it, and \<open>NFS4ERR_BADSESSION\<close> is returned; when there is no such
  session nothing changes and the answer is \<open>NFS4_OK\<close>. In particular a session can be destroyed \<open>successfully\<close>
  only the second time.
\<close>

theorem destroy_session_inverted:
  assumes "ses_inv st"
  shows "\<exists>r st'. nfs41_op_destroy_session sid st = Some (r, st') \<and> ses_inv st' \<and>
    sessions st' = sessions st \<and> ses_map st' = (ses_map st)(sid := None) \<and>
    (if ses_map st sid = None then r = NFS40 NFS4_OK else r = NFS4ERR_BADSESSION) \<and>
    (\<exists>st''. nfs41_op_destroy_session sid st' = Some (NFS40 NFS4_OK, st'')) \<and>
    (\<exists>st''. nfs41_Session_Get_Pointer sid st' = Some (False, None, st''))"
proof -
  from nfs41_Session_Del_spec [OF assms, of sid] obtain st' where
    d: "nfs41_Session_Del sid st = Some (ses_map st sid \<noteq> None, st')" "ses_inv st'" "same_sessions st st'"
      "ses_map st' = (ses_map st)(sid := None)" by blast
  from ses_table.get_after_del [OF assms d(1)] ses_table.del_twice [OF assms d(1)] d show ?thesis
    by (auto simp: nfs41_op_destroy_session_def same_sessions_def)
qed

section \<open>An instance\<close>

text \<open>A server with one client, whose id is 5, and the same server after a CREATE_SESSION of this client.\<close>

definition small_attrs :: channel_attrs4 where
  "small_attrs = \<lparr>ca_headerpadsize = 0, ca_maxrequestsize = 4096, ca_maxresponsesize = 4096,
     ca_maxresponsesize_cached = 4096, ca_maxoperations = 8, ca_maxrequests = 16, ca_rdma_ird = []\<rparr>"

definition small_create :: CREATE_SESSION4args where
  "small_create = \<lparr>csa_clientid = 5, csa_sequence = 1, csa_flags = 0, csa_fore_chan_attrs = small_attrs,
     csa_back_chan_attrs = small_attrs, csa_cb_program = 0\<rparr>"

definition small_data :: compound_data where
  "small_data = \<lparr>oppos = 0, use_drc = False, pcached_res = None, psession = None\<rparr>"

definition small_sessions :: session_store where
  "small_sessions = (case new_table (session_id_param small_dims) mem_ok of
     (ht, m) \<Rightarrow> \<lparr>ses_mem = m, ht_session_id = ht, global_sequence = 0,
       sessions = (\<lambda>p. init_session small_create (mk_bytes []))\<rparr>)"

definition small_server :: "unit session_server" where
  "small_server = \<lparr>srv_sessions = small_sessions, srv_clients = small_clients1,
     client41 = (\<lambda>c. \<lparr>nb_session = 0, create_session_slot = zero_slot, create_session_sequence = 1\<rparr>), pool_session = []\<rparr>"

definition small_server1 :: "unit session_server" where
  "small_server1 = (case nfs41_op_create_session 2 small_create small_data small_server of
     Some (r, data, st) \<Rightarrow> st | None \<Rightarrow> small_server)"

definition small_sid :: "16 bytes" where
  "small_sid = fst (nfs41_Build_sessionid 5 0)"

definition small_seq :: "u32 \<Rightarrow> SEQUENCE4args" where
  "small_seq n = \<lparr>sa_sessionid = small_sid, sa_sequenceid = n, sa_slotid = 0, sa_highest_slotid = 2, sa_cachethis = True\<rparr>"

lemma small_server_start: "session_start small_dims small_server" and small_server_room: "session_room small_sessions"
proof -
  obtain ht m where t: "(new_table (session_id_param small_dims) mem_ok :: (16 bytes, addr) hash_table \<times> mem) = (ht, m)"
    by (cases "new_table (session_id_param small_dims) mem_ok :: (16 bytes, addr) hash_table \<times> mem") auto
  note n = new_table [OF session_id_param_good [OF small_dims_nonzero(1)] mem_ok_good _ _ t]
  have h: "HashTable_Init 0 (\<lambda>i. codes_ok) (session_id_param small_dims) mem_ok = (Some ht, m)" "mem_good m"
    "parameter ht = session_id_param small_dims" using n small_dims_nonzero by (simp_all add: session_id_param_def)
  have "nfs41_Init_session_id 0 (\<lambda>i. codes_ok) small_dims mem_ok = (0, Some ht, m)"
    using h(1) by (simp add: nfs41_Init_session_id_def)
  then show "session_start small_dims small_server"
    using t small_clients1_ok(1) small_dims_nonzero(1)
    by (auto simp: session_start_def small_server_def small_sessions_def)
  show "session_room small_sessions"
    using t h(2,3) small_dims_nonzero(2) by (simp add: session_room_def small_sessions_def session_id_param_def)
qed

lemma small_create_runs:
  obtains r data st where "nfs41_op_create_session 2 small_create small_data small_server = Some (r, data, st)"
    "csr_status r = NFS40 NFS4_OK" "\<not> use_drc data" "st = small_server1"
proof -
  have empty: "ses_map (srv_sessions small_server) = Map.empty" by (rule session_start_ok(2) [OF small_server_start])
  obtain c where c: "table_map (ht_client_id small_clients1) 5 = Some c" using small_clients1_ok(3) by blast
  have "\<exists>r data st. nfs41_op_create_session 2 small_create small_data small_server = Some (r, data, st) \<and>
      csr_status r = NFS40 NFS4_OK \<and> \<not> use_drc data"
    by (rule create_session_room [where c = c, OF session_start_ok(1) [OF small_server_start]])
      (use small_server_room small_clients1_ok(2) c empty in
        \<open>simp_all add: small_server_def small_create_def CREATE_SESSION4_FLAG_CONN_RDMA_def\<close>)
  then show thesis using that by (auto simp: small_server1_def)
qed

lemma small_server1_ok:
  "session_reach small_server1"
  "\<exists>p. ses_map (srv_sessions small_server1) small_sid = Some p \<and>
     sessions (srv_sessions small_server1) p = init_session small_create small_sid"
proof -
  obtain r data where c: "nfs41_op_create_session 2 small_create small_data small_server = Some (r, data, small_server1)"
    "csr_status r = NFS40 NFS4_OK" "\<not> use_drc data" by (rule small_create_runs) blast
  show "session_reach small_server1"
    by (rule session_reach.step [OF session_reach.start [OF small_server_start] session_step.create [OF c(1)]])
  have "global_sequence (srv_sessions small_server) = 0" using small_server_start by (simp add: session_start_def)
  then show "\<exists>p. ses_map (srv_sessions small_server1) small_sid = Some p \<and>
      sessions (srv_sessions small_server1) p = init_session small_create small_sid"
    using create_session_spec [OF session_start_ok(1) [OF small_server_start], of 2 small_create small_data] c
    by (auto simp: small_sid_def small_create_def)
qed

lemma small_slot:
  assumes "ses_map (srv_sessions small_server1) small_sid = Some p"
  shows "named_slot (small_seq n) (srv_sessions small_server1) p = zero_slot"
  using assms small_server1_ok(2)
  by (auto simp: named_slot_def init_session_def small_seq_def NFS41_NB_SLOTS_def)

theorem sessions_well_formed_witness:
  "\<exists>p. ses_map (srv_sessions small_server1) small_sid = Some p \<and>
     session_wf small_sid (sessions (srv_sessions small_server1) p) \<and>
     nfs41_op_sequence (small_seq 1) small_data (srv_sessions small_server1) \<noteq> None"
proof -
  obtain p where p: "ses_map (srv_sessions small_server1) small_sid = Some p" using small_server1_ok(2) by blast
  have "\<not> slot_held p 0 (srv_sessions small_server1)"
    using small_slot [OF p, of 1] by (simp add: slot_held_def named_slot_def small_seq_def zero_slot_def)
  then show ?thesis
    using p sessions_well_formed [OF small_server1_ok(1), of _ _ _ _ "small_seq 1" small_data]
    by (simp add: small_seq_def)
qed

theorem sequence_executes_once_witness:
  "\<exists>r data ss r2 data3 ss2. nfs41_op_sequence (small_seq 1) small_data (srv_sessions small_server1) = Some (r, data, ss) \<and>
     sr_status r = NFS40 NFS4_OK \<and> \<not> use_drc data \<and>
     nfs41_op_sequence (small_seq 1) small_data ss = Some (r2, data3, ss2) \<and> use_drc data3"
proof -
  have wf: "table_wf (srv_sessions small_server1)" using session_reach_ok [OF small_server1_ok(1)] by (simp add: session_ok_def)
  have pos: "oppos small_data = 0" by (simp add: small_data_def)
  obtain p where p: "ses_map (srv_sessions small_server1) small_sid = Some p" using small_server1_ok(2) by blast
  then have p': "ses_map (srv_sessions small_server1) (sa_sessionid (small_seq 1)) = Some p" by (simp add: small_seq_def)
  obtain ss0 where o: "nfs41_op_sequence (small_seq 1) small_data (srv_sessions small_server1) =
      seq_outcome (small_seq 1) small_data (srv_sessions small_server1) p ss0"
    by (rule sequence_session [OF wf pos p'])
  have "\<exists>r data ss. seq_outcome (small_seq 1) small_data (srv_sessions small_server1) p ss0 = Some (r, data, ss) \<and>
      sr_status r = NFS40 NFS4_OK \<and> \<not> use_drc data"
    unfolding seq_outcome_def small_slot [OF p]
    by (simp add: zero_slot_def small_seq_def seq_data_def NFS41_NB_SLOTS_def)
  then obtain r data ss where
    run: "nfs41_op_sequence (small_seq 1) small_data (srv_sessions small_server1) = Some (r, data, ss)"
      "sr_status r = NFS40 NFS4_OK" "\<not> use_drc data" unfolding o by blast
  from sequence_executes_once [OF small_server1_ok(1) run pos] run show ?thesis by (auto simp: small_seq_def)
qed

theorem replay_blocks_slot_witness:
  "\<exists>r data ss. nfs41_op_sequence (small_seq 0) small_data (srv_sessions small_server1) = Some (r, data, ss) \<and>
     nfs41_op_sequence (small_seq 1) small_data ss = None"
proof -
  obtain p where p: "ses_map (srv_sessions small_server1) small_sid = Some p" using small_server1_ok(2) by blast
  have slot: "named_slot (small_seq 0) (srv_sessions small_server1) p = zero_slot" by (rule small_slot [OF p])
  then have free: "\<not> slot_held p (unat (sa_slotid (small_seq 0))) (srv_sessions small_server1)"
    by (simp add: slot_held_def named_slot_def zero_slot_def)
  have c: "ses_map (srv_sessions small_server1) (sa_sessionid (small_seq 0)) = Some p" "sa_slotid (small_seq 0) < NFS41_NB_SLOTS"
    "sa_sequenceid (small_seq 0) = slot_sequence (named_slot (small_seq 0) (srv_sessions small_server1) p)"
    "oppos small_data = 0"
    using p unfolding slot by (simp_all add: small_seq_def zero_slot_def NFS41_NB_SLOTS_def small_data_def)
  from replay_blocks_slot [OF small_server1_ok(1) c(1,2) free c(3,4)] obtain r data ss where
    b: "nfs41_op_sequence (small_seq 0) small_data (srv_sessions small_server1) = Some (r, data, ss)"
      "\<forall>st2 arg2 data2. session_step\<^sup>*\<^sup>* (small_server1\<lparr>srv_sessions := ss\<rparr>) st2 \<and>
         ses_map (srv_sessions st2) (sa_sessionid arg2) = Some p \<and> sa_slotid arg2 = sa_slotid (small_seq 0) \<and>
         oppos data2 = 0 \<longrightarrow> nfs41_op_sequence arg2 data2 (srv_sessions st2) = None"
    by blast
  have wf: "table_wf (srv_sessions small_server1)" using session_reach_ok [OF small_server1_ok(1)] by (simp add: session_ok_def)
  have "ses_map ss small_sid = Some p" using sequence_keeps(3) [OF wf b(1)] p by simp
  with b(2) [rule_format, of "small_server1\<lparr>srv_sessions := ss\<rparr>" "small_seq 1" small_data] b(1) show ?thesis
    by (simp add: small_seq_def small_data_def)
qed

theorem created_session_usable_witness:
  "\<exists>r2 data2 ss. nfs41_op_sequence (small_seq 1) small_data (srv_sessions small_server1) = Some (r2, data2, ss) \<and>
     sr_status r2 = NFS40 NFS4_OK"
proof -
  obtain r data where c: "nfs41_op_create_session 2 small_create small_data small_server = Some (r, data, small_server1)"
    "csr_status r = NFS40 NFS4_OK" "\<not> use_drc data" by (rule small_create_runs) blast
  have "global_sequence (srv_sessions small_server) = 0" using small_server_start by (simp add: session_start_def)
  with created_session_usable [OF session_reach.start [OF small_server_start] c, of 0 2 True]
  show ?thesis by (auto simp: small_data_def small_seq_def small_sid_def small_create_def NFS41_NB_SLOTS_def)
qed

theorem destroy_session_inverted_witness:
  "\<exists>st' st''. nfs41_op_destroy_session small_sid (srv_sessions small_server1) = Some (NFS4ERR_BADSESSION, st') \<and>
     nfs41_op_destroy_session small_sid st' = Some (NFS40 NFS4_OK, st'')"
proof -
  have "ses_inv (srv_sessions small_server1)"
    using session_reach_ok [OF small_server1_ok(1)] by (simp add: session_ok_def table_wf_def)
  from destroy_session_inverted [OF this, of small_sid] small_server1_ok(2) show ?thesis by auto
qed

end
