(* ===== verification/Linked_List.thy ===== *)
theory Linked_List
  imports Prelude
begin

text \<open>
  Doubly linked lists in a heap of nodes, shared by the lists of states of a cache entry and the LRU lists. A
  node type is given by the two fields that link it; the locale \<open>links\<close> is what the lemmas need of them.

  \<open>seg nx pv h q p xs stop\<close>: from \<open>p\<close>, whose node points back to \<open>q\<close>, the next fields visit the nodes \<open>xs\<close>, linked
  backwards too, and lead to \<open>stop\<close>.
\<close>

primrec seg :: "('n \<Rightarrow> ptr) \<Rightarrow> ('n \<Rightarrow> ptr) \<Rightarrow> (addr \<Rightarrow> 'n) \<Rightarrow> ptr \<Rightarrow> ptr \<Rightarrow> addr list \<Rightarrow> ptr \<Rightarrow> bool" where
  "seg nx pv h q p [] stop \<longleftrightarrow> p = stop"
| "seg nx pv h q p (x # xs) stop \<longleftrightarrow> p = Some x \<and> pv (h x) = q \<and> seg nx pv h (Some x) (nx (h x)) xs stop"

definition last_ptr :: "ptr \<Rightarrow> addr list \<Rightarrow> ptr" where
  "last_ptr q xs = (if xs = [] then q else Some (last xs))"

definition first_ptr :: "addr list \<Rightarrow> ptr \<Rightarrow> ptr" where
  "first_ptr xs stop = (case xs of [] \<Rightarrow> stop | x # _ \<Rightarrow> Some x)"

lemma last_ptr_simps [simp]: "last_ptr q [] = q" "last_ptr q (x # xs) = last_ptr (Some x) xs"
  by (auto simp: last_ptr_def)

lemma last_ptr_append [simp]: "last_ptr q (xs @ ys) = last_ptr (last_ptr q xs) ys"
  by (auto simp: last_ptr_def)

lemma last_ptr_None_iff [simp]: "last_ptr None xs = None \<longleftrightarrow> xs = []"
  by (auto simp: last_ptr_def)

lemma first_ptr_simps [simp]: "first_ptr [] stop = stop" "first_ptr (x # xs) stop = Some x"
  by (auto simp: first_ptr_def)

lemma seg_first: "seg nx pv h q p xs stop \<Longrightarrow> p = first_ptr xs stop"
  by (cases xs) auto

lemma seg_append:
  "seg nx pv h q p (xs @ ys) stop \<longleftrightarrow> (\<exists>m. seg nx pv h q p xs m \<and> seg nx pv h (last_ptr q xs) m ys stop)"
  by (induction xs arbitrary: q p) auto

lemma seg_cong:
  "(\<And>x. x \<in> set xs \<Longrightarrow> nx (h' x) = nx (h x) \<and> pv (h' x) = pv (h x)) \<Longrightarrow>
   seg nx pv h' q p xs stop = seg nx pv h q p xs stop"
  by (induction xs arbitrary: q p) auto

text \<open>The node of a list and what its fields point to.\<close>

lemma seg_node:
  assumes "seg nx pv h q p (xs @ x # ys) stop"
  shows "nx (h x) = first_ptr ys stop" and "pv (h x) = last_ptr q xs"
  using assms by (auto simp: seg_append dest: seg_first)

text \<open>Taking the node \<open>p\<close> out: its neighbours are linked to each other.\<close>

definition relink ::
  "('n \<Rightarrow> ptr) \<Rightarrow> ('n \<Rightarrow> ptr) \<Rightarrow> (ptr \<Rightarrow> 'n \<Rightarrow> 'n) \<Rightarrow> (ptr \<Rightarrow> 'n \<Rightarrow> 'n) \<Rightarrow> addr \<Rightarrow> (addr \<Rightarrow> 'n) \<Rightarrow> addr \<Rightarrow> 'n" where
  "relink nx pv set_nx set_pv p h =
     (let h = (case nx (h p) of None \<Rightarrow> h | Some n \<Rightarrow> h(n := set_pv (pv (h p)) (h n)))
      in case pv (h p) of None \<Rightarrow> h | Some q \<Rightarrow> h(q := set_nx (nx (h p)) (h q)))"

locale links =
  fixes nx pv :: "'n \<Rightarrow> ptr" and set_nx set_pv :: "ptr \<Rightarrow> 'n \<Rightarrow> 'n"
  assumes nx_set_nx [simp]: "nx (set_nx p n) = p" and pv_set_nx [simp]: "pv (set_nx p n) = pv n"
    and nx_set_pv [simp]: "nx (set_pv p n) = nx n" and pv_set_pv [simp]: "pv (set_pv p n) = p"
begin

lemma seg_set_last:
  assumes "seg nx pv h q p xs stop" and "distinct xs" and "xs \<noteq> []"
  shows "seg nx pv (h(last xs := set_nx stop' (h (last xs)))) q p xs stop'"
proof -
  from assms(3) obtain ys y where xs: "xs = ys @ [y]" by (metis rev_exhaust)
  let ?h = "h(y := set_nx stop' (h y))"
  have "y \<notin> set ys" using assms(2) xs by simp
  then have "seg nx pv ?h q p ys m = seg nx pv h q p ys m" for m by (intro seg_cong) auto
  with assms(1) xs show ?thesis by (auto simp: seg_append)
qed

lemma seg_set_first:
  assumes "seg nx pv h q p (y # ys) stop" and "distinct (y # ys)"
  shows "seg nx pv (h(y := set_pv q' (h y))) q' p (y # ys) stop"
proof -
  let ?h = "h(y := set_pv q' (h y))"
  have "y \<notin> set ys" using assms(2) by simp
  then have "seg nx pv ?h (Some y) m ys stop = seg nx pv h (Some y) m ys stop" for m by (intro seg_cong) auto
  with assms(1) show ?thesis by simp
qed

lemma seg_snoc:
  assumes "seg nx pv h None p xs None" and "distinct xs" and "y \<notin> set xs"
    and h': "nx (h' y) = None" "pv (h' y) = last_ptr None xs"
    and last: "xs \<noteq> [] \<Longrightarrow> nx (h' (last xs)) = Some y \<and> pv (h' (last xs)) = pv (h (last xs))"
    and rest: "\<And>x. x \<in> set xs \<Longrightarrow> x \<noteq> last xs \<Longrightarrow> nx (h' x) = nx (h x) \<and> pv (h' x) = pv (h x)"
  shows "seg nx pv h' None (if xs = [] then Some y else p) (xs @ [y]) None"
proof (cases "xs = []")
  case True
  then show ?thesis using h' by simp
next
  case False
  have "seg nx pv h' None p xs (Some y) = seg nx pv (h(last xs := set_nx (Some y) (h (last xs)))) None p xs (Some y)"
    using last [OF False] rest by (intro seg_cong) auto
  with seg_set_last [OF assms(1,2) False, of "Some y"] have "seg nx pv h' None p xs (Some y)" by simp
  with False h' show ?thesis by (simp add: seg_append)
qed

lemma relink_seg:
  assumes "seg nx pv h None cur (xs @ p # ys) None" and "distinct (xs @ p # ys)"
  shows "seg nx pv (relink nx pv set_nx set_pv p h) None (if xs = [] then nx (h p) else cur) (xs @ ys) None" (is ?seg)
    and "\<And>q. relink nx pv set_nx set_pv p h q \<in>
      (if q \<in> set xs \<union> set ys then {h q, set_nx (nx (h p)) (h q), set_pv (pv (h p)) (h q)} else {h q})" (is "\<And>q. ?frame q")
proof -
  let ?re = "relink nx pv set_nx set_pv p h"
  from assms(1) have s: "seg nx pv h None cur xs (Some p)" "pv (h p) = last_ptr None xs" "seg nx pv h (Some p) (nx (h p)) ys None"
    by (auto simp: seg_append)
  define h1 where "h1 = (case ys of [] \<Rightarrow> h | y # _ \<Rightarrow> h(y := set_pv (pv (h p)) (h y)))"
  have nxp: "nx (h p) = first_ptr ys None" using s(3) by (rule seg_first)
  have p1: "h1 p = h p" and x1: "\<And>q. q \<in> set xs \<Longrightarrow> h1 q = h q"
    using assms(2) by (auto simp: h1_def split: list.splits)
  have ys1: "seg nx pv h1 (last_ptr None xs) (nx (h p)) ys None"
    using seg_set_first [of h "Some p" "nx (h p)" "hd ys" "tl ys" None "pv (h p)"] s nxp assms(2)
    by (cases ys) (simp_all add: h1_def)
  have first: "(case nx (h p) of None \<Rightarrow> h | Some n \<Rightarrow> h(n := set_pv (pv (h p)) (h n))) = h1"
    unfolding h1_def nxp by (cases ys) simp_all
  have re: "?re = (if xs = [] then h1 else h1(last xs := set_nx (nx (h p)) (h1 (last xs))))"
    unfolding relink_def Let_def first using p1 s(2) by (simp add: last_ptr_def)
  show ?seg
  proof (cases "xs = []")
    case True
    with ys1 re show ?thesis by simp
  next
    case False
    have "seg nx pv h1 None cur xs (Some p) = seg nx pv h None cur xs (Some p)" by (rule seg_cong) (simp add: x1)
    with seg_set_last [of h1 None cur xs "Some p" "nx (h p)"] s(1) assms(2) False re
    have a: "seg nx pv ?re None cur xs (nx (h p))" by simp
    have "last xs \<notin> set ys" using last_in_set [OF False] assms(2) by auto
    then have "seg nx pv ?re q c ys None = seg nx pv h1 q c ys None" for q c
      by (intro seg_cong) (use re False in auto)
    with a ys1 False show ?thesis by (auto simp: seg_append)
  qed
  have "h1 q = (if q \<in> set ys \<and> Some q = first_ptr ys None then set_pv (pv (h p)) (h q) else h q)" for q
    by (cases ys) (auto simp: h1_def)
  moreover have "last xs \<in> set xs \<and> last xs \<notin> set ys" if "xs \<noteq> []" using last_in_set [OF that] assms(2) by auto
  ultimately show "?frame q" for q unfolding re by auto
qed

end

end
