(* ===== verification/Cache_Inode_State.thy ===== *)
theory Cache_Inode_State
  imports State_Id Linked_List
begin

text \<open>
  The states of a cache entry, \<^verbatim>\<open>Cache_inode/cache_inode_state.c\<close>: every regular file has a doubly linked
  list of states (\<open>pstate_head\<close>, \<open>next\<close>, \<open>prev\<close>), which are also in the hash table of \<^verbatim>\<open>nfs_state_id.c\<close>.

  The functions take the entry's lock, which \<open>None\<close> says cannot be had; a NULL dereference is \<open>None\<close> too.
  The pool of states is the list of its free entries, as in \<open>Stuff_Alloc\<close>: while a state is in the pool its
  \<open>next\<close> field is the pool's.

  The invariant \<open>store_ok\<close> says what the lists, the table, the pool and the locks are between the calls; \<open>states_reach\<close>, in
  the last section, are the stores of a running server, for the check of a state id.
\<close>

section \<open>Conflicts\<close>

text \<open>
  The \<^verbatim>\<open>switch\<close> of \<^verbatim>\<open>cache_inode_state_conflict\<close>. The case of the share reservations has no \<^verbatim>\<open>break\<close>: it goes on
  to the next case, which sets the result.
\<close>

definition share_clash :: "cache_inode_share \<Rightarrow> cache_inode_share \<Rightarrow> bool" where
  "share_clash a b \<longleftrightarrow> share_access a AND share_deny b \<noteq> 0 \<or> share_deny a AND share_access b \<noteq> 0"

definition cache_inode_state_conflict :: "cache_inode_state option \<Rightarrow> u32 \<Rightarrow> state_data option \<Rightarrow> bool" where
  "cache_inode_state_conflict pstate ty pstate_data =
     (case (pstate, pstate_data) of
        (Some s, Some d) \<Rightarrow>
          let rc = False in
          if ty = CACHE_INODE_STATE_NONE then False
          else if ty = CACHE_INODE_STATE_SHARE \<or> ty = CACHE_INODE_STATE_LOCK then
            (let rc = (if ty = CACHE_INODE_STATE_SHARE \<and> state_type s = CACHE_INODE_STATE_SHARE \<and>
                          share_clash (sd_share (sdata s)) (sd_share d) then True else rc);
                 rc = False
             in rc)
          else if ty = CACHE_INODE_STATE_LAYOUT then False
          else True
      | _ \<Rightarrow> True)"

partial_function (option) browse_states ::
  "(addr \<Rightarrow> cache_inode_state) \<Rightarrow> u32 \<Rightarrow> state_data \<Rightarrow> ptr \<Rightarrow> ptr \<Rightarrow> (bool \<times> ptr) option" where
  "browse_states ss ty d piter saved =
     (case piter of
        None \<Rightarrow> Some (False, saved)
      | Some p \<Rightarrow> if cache_inode_state_conflict (Some (ss p)) ty (Some d) then Some (True, saved)
                  else browse_states ss ty d (st_next (ss p)) (Some p))"

section \<open>Operations\<close>

definition lock_entry :: "addr \<Rightarrow> 'h state_store \<Rightarrow> 'h state_store option" where
  "lock_entry e st = (case P_w (ce_lock (entries st e)) of
     Returns l \<Rightarrow> Some (st\<lparr>entries := (entries st)(e := (entries st e)\<lparr>ce_lock := l\<rparr>)\<rparr>) | Blocks l \<Rightarrow> None)"

definition unlock_entry :: "addr \<Rightarrow> 'h state_store \<Rightarrow> 'h state_store" where
  "unlock_entry e st =
     st\<lparr>entries := (entries st)(e := (entries st e)\<lparr>ce_lock := fst (V_w (ce_lock (entries st e)))\<rparr>)\<rparr>"

definition count_err :: "state_cmd \<Rightarrow> 'h state_store \<Rightarrow> 'h state_store" where
  "count_err c st = st\<lparr>nb_err_unrecover := (nb_err_unrecover st)(c := nb_err_unrecover st c + 1)\<rparr>"

definition upd_state :: "addr \<Rightarrow> (cache_inode_state \<Rightarrow> cache_inode_state) \<Rightarrow> 'h state_store \<Rightarrow> 'h state_store" where
  "upd_state p f st = st\<lparr>states := (states st)(p := f (states st p))\<rparr>"

definition upd_entry :: "addr \<Rightarrow> ('h cache_entry \<Rightarrow> 'h cache_entry) \<Rightarrow> 'h state_store \<Rightarrow> 'h state_store" where
  "upd_entry e f st = st\<lparr>entries := (entries st)(e := f (entries st e))\<rparr>"

text \<open>The fields of the new state after its \<open>next\<close> and \<open>prev\<close>, and its entry in the table.\<close>

definition fill_state :: "u32 \<Rightarrow> state_data \<Rightarrow> 12 bytes \<Rightarrow> addr \<Rightarrow> addr \<Rightarrow> cache_inode_state \<Rightarrow> cache_inode_state" where
  "fill_state ty d other e own s =
     s\<lparr>stateid_other := other, state_type := ty, sdata := d, st_seqid := 0, st_pentry := Some e, powner := Some own\<rparr>"

definition register_state ::
  "12 bytes \<Rightarrow> addr \<Rightarrow> addr \<Rightarrow> 'h state_store \<Rightarrow> (cache_inode_status \<times> ptr \<times> 'h state_store) option" where
  "register_state other new e st = do {
     (ok, st) \<leftarrow> nfs4_State_Set other new st;
     if \<not> ok then Some (CACHE_INODE_STATE_ERROR, None, unlock_entry e (count_err ADD_STATE st))
     else Some (CACHE_INODE_SUCCESS, Some new, unlock_entry e st) }"

definition add_first_state ::
  "('h \<Rightarrow> u64 option) \<Rightarrow> u64 \<Rightarrow> u32 \<Rightarrow> state_data \<Rightarrow> addr \<Rightarrow> addr \<Rightarrow> addr \<Rightarrow> 'h state_store \<Rightarrow>
   (cache_inode_status \<times> ptr \<times> 'h state_store) option" where
  "add_first_state digest boot ty d own e new st = do {
     let st = upd_state new (\<lambda>s. s\<lparr>st_next := None, st_prev := None\<rparr>) st;
     case nfs4_BuildStateId_Other digest boot True (Some (entries st e)) (Some (open_owners st own)) of
       None \<Rightarrow> Some (CACHE_INODE_STATE_ERROR, None, unlock_entry e (count_err ADD_STATE st))
     | Some other \<Rightarrow>
         register_state other new e
           (upd_entry e (\<lambda>x. x\<lparr>pstate_head := Some new\<rparr>) (upd_state new (fill_state ty d other e own) st)) }"

definition add_next_state ::
  "('h \<Rightarrow> u64 option) \<Rightarrow> u64 \<Rightarrow> u32 \<Rightarrow> state_data \<Rightarrow> addr \<Rightarrow> addr \<Rightarrow> addr \<Rightarrow> 'h state_store \<Rightarrow>
   (cache_inode_status \<times> ptr \<times> 'h state_store) option" where
  "add_next_state digest boot ty d own e new st = do {
     (conflict_found, piter_saved) \<leftarrow> browse_states (states st) ty d (pstate_head (entries st e)) None;
     if conflict_found then Some (CACHE_INODE_STATE_CONFLICT, None, unlock_entry e (count_err ADD_STATE st))
     else do {
       saved \<leftarrow> piter_saved;
       let st = upd_state new (\<lambda>s. s\<lparr>st_next := None, st_prev := piter_saved\<rparr>) st;
       let st = upd_state saved (\<lambda>s. s\<lparr>st_next := Some new\<rparr>) st;
       case nfs4_BuildStateId_Other digest boot True (Some (entries st e)) (Some (open_owners st own)) of
         None \<Rightarrow> Some (CACHE_INODE_STATE_ERROR, None, unlock_entry e (count_err ADD_STATE st))
       | Some other \<Rightarrow>
           register_state other new e
             (upd_entry e (\<lambda>x. x\<lparr>pstate_tail := Some new\<rparr>) (upd_state new (fill_state ty d other e own) st)) } }"

text \<open>\<open>args\<close> says that \<open>pclient\<close>, \<open>pcontext\<close>, \<open>ppstate\<close> and \<open>pstatus\<close> are not NULL; \<open>nb\<close> is \<open>pclient->nb_pre_state_v4\<close>.\<close>

definition cache_inode_add_state ::
  "('h \<Rightarrow> u64 option) \<Rightarrow> u64 \<Rightarrow> u32 \<Rightarrow> ptr \<Rightarrow> u32 \<Rightarrow> state_data option \<Rightarrow> ptr \<Rightarrow> bool \<Rightarrow> 'h state_store \<Rightarrow>
   (cache_inode_status \<times> ptr \<times> 'h state_store) option" where
  "cache_inode_add_state digest boot nb pentry ty pstate_data powner_input args st =
     (case (pentry, pstate_data, powner_input) of
        (Some e, Some d, Some own) \<Rightarrow>
          if \<not> args \<or> ce_type (entries st e) \<noteq> REGULAR_FILE then Some (CACHE_INODE_INVALID_ARGUMENT, None, st)
          else do {
            st \<leftarrow> lock_entry e st;
            let (pnew, pool, m) = GET_PREALLOC nb (pool_state_v4 st) (ss_mem st);
            let st = st\<lparr>pool_state_v4 := pool, ss_mem := m\<rparr>;
            case pnew of
              None \<Rightarrow> Some (CACHE_INODE_MALLOC_ERROR, None, unlock_entry e (count_err ADD_STATE st))
            | Some new \<Rightarrow>
                if pstate_head (entries st e) = None then add_first_state digest boot ty d own e new st
                else add_next_state digest boot ty d own e new st }
      | _ \<Rightarrow> Some (CACHE_INODE_INVALID_ARGUMENT, None, st))"

definition cache_inode_get_state ::
  "12 bytes \<Rightarrow> bool \<Rightarrow> 'h state_store \<Rightarrow> (cache_inode_status \<times> ptr \<times> 'h state_store) option" where
  "cache_inode_get_state other args st =
     (if \<not> args then Some (CACHE_INODE_INVALID_ARGUMENT, None, st)
      else do {
        (found, p, st) \<leftarrow> nfs4_State_Get_Pointer other st;
        if \<not> found then Some (CACHE_INODE_NOT_FOUND, None, count_err GET_STATE st)
        else Some (CACHE_INODE_SUCCESS, p, st) })"

definition cache_inode_update_state ::
  "ptr \<Rightarrow> bool \<Rightarrow> 'h state_store \<Rightarrow> (cache_inode_status \<times> 'h state_store) option" where
  "cache_inode_update_state pstate args st =
     (case pstate of
        None \<Rightarrow> Some (CACHE_INODE_INVALID_ARGUMENT, st)
      | Some p \<Rightarrow>
          if \<not> args then Some (CACHE_INODE_INVALID_ARGUMENT, st)
          else do {
            (ok, st) \<leftarrow> nfs4_State_Update (stateid_other (states st p)) (states st p) st;
            if \<not> ok then Some (CACHE_INODE_STATE_ERROR, count_err UPDATE_STATE st)
            else Some (CACHE_INODE_SUCCESS, st) })"

text \<open>Taking a state out of the list of its entry, as both delete functions do it.\<close>

definition unlink_state :: "addr \<Rightarrow> addr \<Rightarrow> 'h state_store \<Rightarrow> 'h state_store" where
  "unlink_state p e st =
     (let st = (if pstate_head (entries st e) = Some p
                then upd_entry e (\<lambda>x. x\<lparr>pstate_head := st_next (states st p)\<rparr>) st else st);
          st = (case st_next (states st p) of
                  None \<Rightarrow> st | Some n \<Rightarrow> upd_state n (\<lambda>s. s\<lparr>st_prev := st_prev (states st p)\<rparr>) st)
      in case st_prev (states st p) of
           None \<Rightarrow> st | Some q \<Rightarrow> upd_state q (\<lambda>s. s\<lparr>st_next := st_next (states st p)\<rparr>) st)"

definition reset_state :: "addr \<Rightarrow> 'h state_store \<Rightarrow> 'h state_store" where
  "reset_state p st =
     (let st = upd_state p (\<lambda>s. s\<lparr>stateid_other := mk_bytes [], state_type := CACHE_INODE_STATE_NONE, st_next := None,
                st_prev := None, st_pentry := None\<rparr>) st
      in st\<lparr>pool_state_v4 := RELEASE_PREALLOC p (pool_state_v4 st)\<rparr>)"

definition cache_inode_del_state ::
  "ptr \<Rightarrow> bool \<Rightarrow> 'h state_store \<Rightarrow> (cache_inode_status \<times> 'h state_store) option" where
  "cache_inode_del_state pstate args st =
     (case pstate of
        None \<Rightarrow> Some (CACHE_INODE_INVALID_ARGUMENT, st)
      | Some p \<Rightarrow>
          if \<not> args then Some (CACHE_INODE_INVALID_ARGUMENT, st)
          else do {
            (found, test, st) \<leftarrow> nfs4_State_Get_Pointer (stateid_other (states st p)) st;
            if \<not> found then Some (CACHE_INODE_NOT_FOUND, count_err DEL_STATE st)
            else do {
              e \<leftarrow> st_pentry (states st p);
              st \<leftarrow> lock_entry e st;
              let st = unlink_state p e st;
              (ok, st) \<leftarrow> nfs4_State_Del (stateid_other (states st p)) st;
              if \<not> ok then Some (CACHE_INODE_STATE_ERROR, unlock_entry e (count_err DEL_STATE st))
              else Some (CACHE_INODE_SUCCESS, unlock_entry e (reset_state p st)) } })"

definition cache_inode_del_state_by_key ::
  "12 bytes \<Rightarrow> bool \<Rightarrow> 'h state_store \<Rightarrow> (cache_inode_status \<times> 'h state_store) option" where
  "cache_inode_del_state_by_key other args st =
     (if \<not> args then Some (CACHE_INODE_INVALID_ARGUMENT, st)
      else do {
        (found, pstate, st) \<leftarrow> nfs4_State_Get_Pointer other st;
        if \<not> found then Some (CACHE_INODE_NOT_FOUND, count_err DEL_STATE st)
        else do {
          p \<leftarrow> pstate;
          e \<leftarrow> st_pentry (states st p);
          st \<leftarrow> lock_entry e st;
          let st = unlink_state p e st;
          if memcmp (bytes_list (stateid_other (states st p))) (bytes_list other) 12 = 0 then do {
            (ok, st) \<leftarrow> nfs4_State_Del (stateid_other (states st p)) st;
            if \<not> ok then Some (CACHE_INODE_STATE_ERROR, unlock_entry e (count_err DEL_STATE st))
            else Some (CACHE_INODE_SUCCESS, unlock_entry e (reset_state p st)) }
          else Some (CACHE_INODE_SUCCESS, unlock_entry e st) } })"

text \<open>
  \<^verbatim>\<open>cache_inode_state_iterate\<close> returns \<open>*pstatus\<close>, which it only sets on errors: \<open>status\<close> is the caller's value.
  The next state is \<open>None\<close> when \<open>*ppstate\<close> is not set.
\<close>

definition cache_inode_state_iterate ::
  "('h \<Rightarrow> u64 option) \<Rightarrow> ptr \<Rightarrow> ptr \<Rightarrow> bool \<Rightarrow> cache_inode_status \<Rightarrow> 'h state_store \<Rightarrow>
   (cache_inode_status \<times> ptr option \<times> 'h state_store) option" where
  "cache_inode_state_iterate digest pentry previous args status st =
     (case pentry of
        None \<Rightarrow> Some (CACHE_INODE_INVALID_ARGUMENT, None, st)
      | Some e \<Rightarrow>
          if \<not> args then Some (CACHE_INODE_INVALID_ARGUMENT, None, st)
          else if digest (ce_handle (entries st e)) = None then Some (CACHE_INODE_STATE_ERROR, None, st)
          else (case P_r (ce_lock (entries st e)) of
                  Blocks l \<Rightarrow> None
                | Returns l \<Rightarrow>
                    let st = upd_entry e (\<lambda>x. x\<lparr>ce_lock := fst (V_r l)\<rparr>) st in
                    (case previous of
                       None \<Rightarrow> Some (status, Some (pstate_head (entries st e)), st)
                     | Some q \<Rightarrow>
                         if st_pentry (states st q) \<noteq> Some e then Some (CACHE_INODE_STATE_ERROR, None, st)
                         else Some (status, Some (st_next (states st q)), st))))"

section \<open>Lists of states\<close>

text \<open>The states of a list are linked by \<open>st_next\<close> and \<open>st_prev\<close>; \<open>dll\<close> is a list that ends with NULL.\<close>

abbreviation dll :: "(addr \<Rightarrow> cache_inode_state) \<Rightarrow> ptr \<Rightarrow> ptr \<Rightarrow> addr list \<Rightarrow> bool" where
  "dll ss pv cur xs \<equiv> seg st_next st_prev ss pv cur xs None"

interpretation st: links st_next st_prev "\<lambda>p s. s\<lparr>st_next := p\<rparr>" "\<lambda>p s. s\<lparr>st_prev := p\<rparr>"
  by unfold_locales simp_all

lemma browse_dll:
  "dll ss pv cur xs \<Longrightarrow> browse_states ss ty d cur pv =
     (if \<exists>x \<in> set xs. cache_inode_state_conflict (Some (ss x)) ty (Some d)
      then Some (True, last_ptr pv (takeWhile (\<lambda>x. \<not> cache_inode_state_conflict (Some (ss x)) ty (Some d)) xs))
      else Some (False, last_ptr pv xs))"
proof (induction xs arbitrary: pv cur)
  case Nil
  then show ?case by (simp add: browse_states.simps)
next
  case (Cons x xs)
  then have cur: "cur = Some x" "dll ss (Some x) (st_next (ss x)) xs" by auto
  from Cons.IH [OF cur(2)] cur(1) show ?case
    by (subst browse_states.simps) simp
qed

lemma share_conflict_iff:
  "cache_inode_state_conflict (Some s) ty (Some d) \<longleftrightarrow>
     ty \<notin> {CACHE_INODE_STATE_NONE, CACHE_INODE_STATE_SHARE, CACHE_INODE_STATE_LOCK, CACHE_INODE_STATE_LAYOUT}"
  by (auto simp: cache_inode_state_conflict_def Let_def)

text \<open>
  C33. Share reservations never conflict: \<^verbatim>\<open>cache_inode_state_conflict\<close> answers FALSE for every candidate of
  the types none, share, lock and layout, whatever access the existing state has and denies. It
  answers TRUE for the other types and for missing arguments.
\<close>

theorem share_conflict_never_detected:
  "cache_inode_state_conflict pstate ty pstate_data \<longleftrightarrow>
     pstate = None \<or> pstate_data = None \<or>
     ty \<notin> {CACHE_INODE_STATE_NONE, CACHE_INODE_STATE_SHARE, CACHE_INODE_STATE_LOCK, CACHE_INODE_STATE_LAYOUT}"
  by (cases pstate; cases pstate_data) (auto simp: cache_inode_state_conflict_def Let_def)

text \<open>A state that denies writing, and a candidate that writes.\<close>

definition deny_write :: cache_inode_state where
  "deny_write = \<lparr>state_type = CACHE_INODE_STATE_SHARE,
     sdata = no_data\<lparr>sd_share := (sd_share no_data)\<lparr>share_access := 1, share_deny := 2\<rparr>\<rparr>, st_seqid = 0,
     stateid_other = mk_bytes [], powner = None, st_next = None, st_prev = None, st_pentry = None\<rparr>"

definition want_write :: state_data where
  "want_write = no_data\<lparr>sd_share := (sd_share no_data)\<lparr>share_access := 2, share_deny := 0\<rparr>\<rparr>"

theorem share_conflict_never_detected_witness:
  "share_clash (sd_share (sdata deny_write)) (sd_share want_write) \<and>
   \<not> cache_inode_state_conflict (Some deny_write) CACHE_INODE_STATE_SHARE (Some want_write)"
  using share_conflict_never_detected [of "Some deny_write" CACHE_INODE_STATE_SHARE "Some want_write"]
  by (simp add: share_clash_def deny_write_def want_write_def)

section \<open>The invariant\<close>

text \<open>
  \<open>L e\<close> is the list of the states of entry \<open>e\<close>. Free states are in no list and every state is in allocated
  memory; the locks are free between the calls.
\<close>

definition entry_ok :: "addr list \<Rightarrow> addr \<Rightarrow> 'h state_store \<Rightarrow> bool" where
  "entry_ok xs e st \<longleftrightarrow> dll (states st) None (pstate_head (entries st e)) xs \<and> distinct xs \<and>
     (\<forall>p \<in> set xs. st_pentry (states st p) = Some e \<and> p < brk (ss_mem st))"

definition pool_ok :: "(addr \<Rightarrow> addr list) \<Rightarrow> 'h state_store \<Rightarrow> bool" where
  "pool_ok L st \<longleftrightarrow> distinct (pool_state_v4 st) \<and>
     (\<forall>p \<in> set (pool_state_v4 st). p < brk (ss_mem st) \<and> (\<forall>e. p \<notin> set (L e)))"

definition store_ok :: "(addr \<Rightarrow> addr list) \<Rightarrow> 'h state_store \<Rightarrow> bool" where
  "store_ok L st \<longleftrightarrow> state_inv st \<and> pool_ok L st \<and>
     (\<forall>e. entry_ok (L e) e st \<and> ce_lock (entries st e) = rw_lock_zero)"

lemma entry_ok_cong:
  assumes "entry_ok xs e st" and "brk (ss_mem st) \<le> brk (ss_mem st')"
    and "pstate_head (entries st' e) = pstate_head (entries st e)"
    and "\<And>p. p \<in> set xs \<Longrightarrow> st_next (states st' p) = st_next (states st p) \<and> st_prev (states st' p) = st_prev (states st p) \<and>
      st_pentry (states st' p) = st_pentry (states st p)"
  shows "entry_ok xs e st'"
proof -
  have "dll (states st') pv cur xs = dll (states st) pv cur xs" for pv cur
    using assms(4) by (intro seg_cong) auto
  then show ?thesis using assms by (fastforce simp: entry_ok_def)
qed

lemma lock_entry_idle:
  assumes "ce_lock (entries st e) = rw_lock_zero"
  obtains l where "lock_entry e st = Some (st\<lparr>entries := (entries st)(e := (entries st e)\<lparr>ce_lock := l\<rparr>)\<rparr>)"
    "fst (V_w l) = rw_lock_zero"
  using assms by (auto simp: lock_entry_def P_w_def P_w_woken_def V_w_def rw_lock_zero_def)

text \<open>The invariant while the lock of \<open>e\<close> is held.\<close>

definition held :: "(addr \<Rightarrow> addr list) \<Rightarrow> addr \<Rightarrow> 'h state_store \<Rightarrow> bool" where
  "held L e st \<longleftrightarrow> state_inv st \<and> pool_ok L st \<and> (\<forall>e'. entry_ok (L e') e' st) \<and>
     fst (V_w (ce_lock (entries st e))) = rw_lock_zero \<and> (\<forall>e'. e' \<noteq> e \<longrightarrow> ce_lock (entries st e') = rw_lock_zero)"

lemma store_held:
  assumes "store_ok L st"
  obtains st' where "lock_entry e st = Some st'" "held L e st'" "states st' = states st" "open_owners st' = open_owners st"
    "pool_state_v4 st' = pool_state_v4 st" "ss_mem st' = ss_mem st" "ht_state_id st' = ht_state_id st"
    "pstate_head (entries st' e) = pstate_head (entries st e)" "ce_type (entries st' e) = ce_type (entries st e)"
    "ce_handle (entries st' e) = ce_handle (entries st e)"
proof -
  have "ce_lock (entries st e) = rw_lock_zero" using assms by (simp add: store_ok_def)
  from lock_entry_idle [OF this] obtain l where
    l: "lock_entry e st = Some (st\<lparr>entries := (entries st)(e := (entries st e)\<lparr>ce_lock := l\<rparr>)\<rparr>)" "fst (V_w l) = rw_lock_zero" .
  let ?st = "st\<lparr>entries := (entries st)(e := (entries st e)\<lparr>ce_lock := l\<rparr>)\<rparr>"
  have "entry_ok (L e') e' ?st" for e'
    by (rule entry_ok_cong [of _ _ st]) (use assms in \<open>auto simp: store_ok_def\<close>)
  with assms l(2) have "held L e ?st" by (auto simp: held_def store_ok_def state_inv_def pool_ok_def)
  with l(1) that show thesis by simp
qed

lemma held_unlock:
  assumes "held L e st"
  shows "store_ok L (unlock_entry e st)"
proof -
  have "entry_ok (L e') e' (unlock_entry e st)" for e'
    by (rule entry_ok_cong [of _ _ st]) (use assms in \<open>auto simp: held_def unlock_entry_def\<close>)
  with assms show ?thesis by (auto simp: held_def store_ok_def unlock_entry_def state_inv_def pool_ok_def)
qed

lemma held_count [simp]: "held L e (count_err c st) = held L e st"
  by (simp add: held_def count_err_def state_inv_def pool_ok_def entry_ok_def)

lemma held_same:
  assumes "held L e st" and "same_heaps st st'" and "state_inv st'"
  shows "held L e st'"
proof -
  have "entry_ok (L e') e' st'" for e'
    by (rule entry_ok_cong [of _ _ st]) (use assms in \<open>auto simp: held_def same_heaps_def\<close>)
  then show ?thesis using assms by (fastforce simp: held_def same_heaps_def pool_ok_def)
qed

lemma held_pool:
  assumes "held L e st" and "GET_PREALLOC nb (pool_state_v4 st) (ss_mem st) = (r, pool, m)"
  shows "held L e (st\<lparr>pool_state_v4 := pool, ss_mem := m\<rparr>)"
    and "r = Some p \<Longrightarrow> p < brk m \<and> p \<notin> set pool \<and> p \<notin> set (L e')"
proof -
  let ?st = "st\<lparr>pool_state_v4 := pool, ss_mem := m\<rparr>"
  note le = GET_PREALLOC_brk [OF assms(2)]
  have ok: "entry_ok (L e') e' ?st" for e'
    by (rule entry_ok_cong [of _ _ st]) (use assms le in \<open>auto simp: held_def\<close>)
  have inv: "state_inv ?st" using assms(1) le by (auto simp: held_def state_inv_def intro: table_inv_mono)
  have old: "distinct (pool_state_v4 st)" "\<forall>q \<in> set (pool_state_v4 st). q < brk (ss_mem st)"
    "\<forall>q \<in> set (pool_state_v4 st). \<forall>e. q \<notin> set (L e)" "\<forall>e. \<forall>q \<in> set (L e). q < brk (ss_mem st)"
    using assms(1) by (auto simp: held_def pool_ok_def entry_ok_def)
  show "p < brk m \<and> p \<notin> set pool \<and> p \<notin> set (L e')" if "r = Some p"
  proof -
    note f = GET_PREALLOC_fresh [OF assms(2) [unfolded that] old(1,2)]
    from f(5) old(3,4) have "p \<notin> set (L e')" by (meson insertI1 leD)
    with f(1,2) show ?thesis by simp
  qed
  have "pool_ok L ?st"
  proof (cases r)
    case None
    with assms(2) have "pool = []"
      by (auto simp: GET_PREALLOC_def Let_def split: if_splits list.splits prod.splits)
    then show ?thesis by (simp add: pool_ok_def)
  next
    case (Some p)
    note f = GET_PREALLOC_fresh [OF assms(2) [unfolded Some] old(1,2)]
    have "q \<notin> set (L e')" if "q \<in> set pool" for q e'
      using that f(5) old(3,4) by (meson insertI2 leD)
    with f(3,4) show ?thesis by (simp add: pool_ok_def)
  qed
  with assms(1) ok inv show "held L e ?st" by (simp add: held_def)
qed

text \<open>Appending a state to the list of \<open>e\<close>.\<close>

lemma held_append:
  assumes "held L e st" and "p < brk (ss_mem st)" and "p \<notin> set (pool_state_v4 st)" and "\<And>e'. p \<notin> set (L e')"
    and new: "st_next (states st' p) = None" "st_prev (states st' p) = last_ptr None (L e)" "st_pentry (states st' p) = Some e"
    and others: "\<And>q. q \<noteq> p \<Longrightarrow> last_ptr None (L e) \<noteq> Some q \<Longrightarrow> states st' q = states st q"
    and last: "\<And>q. last_ptr None (L e) = Some q \<Longrightarrow> states st' q = (states st q)\<lparr>st_next := Some p\<rparr>"
    and head: "pstate_head (entries st' e) = (if L e = [] then Some p else pstate_head (entries st e))"
    and same: "ss_mem st' = ss_mem st" "ht_state_id st' = ht_state_id st" "pool_state_v4 st' = pool_state_v4 st"
      "ce_lock (entries st' e) = ce_lock (entries st e)" "\<And>e'. e' \<noteq> e \<Longrightarrow> entries st' e' = entries st e'"
  shows "held (L(e := L e @ [p])) e st'"
proof -
  let ?xs = "L e"
  have ok: "entry_ok (L e') e' st" for e' using assms(1) by (simp add: held_def)
  have e: "dll (states st) None (pstate_head (entries st e)) ?xs" "distinct ?xs"
    "\<forall>q \<in> set ?xs. st_pentry (states st q) = Some e \<and> q < brk (ss_mem st)" using ok [of e] by (auto simp: entry_ok_def)
  have lst: "last_ptr None ?xs = Some q \<longleftrightarrow> ?xs \<noteq> [] \<and> q = last ?xs" for q by (auto simp: last_ptr_def)
  have l: "states st' q = (if q = last ?xs then (states st q)\<lparr>st_next := Some p\<rparr> else states st q)" if "q \<in> set ?xs" for q
  proof -
    have "q \<noteq> p" "?xs \<noteq> []" using that assms(4) by auto
    with others [of q] last [of q] lst show ?thesis by auto
  qed
  have "dll (states st') None (if ?xs = [] then Some p else pstate_head (entries st e)) (?xs @ [p])"
    by (rule st.seg_snoc [where h' = "states st'" and y = p, OF e(1,2) assms(4) new(1,2)]) (simp_all add: l)
  with l e(2,3) head new(3) assms(2,4) same(1) have mine: "entry_ok (?xs @ [p]) e st'"
    by (auto simp: entry_ok_def)
  have other: "entry_ok (L e') e' st'" if "e' \<noteq> e" for e'
  proof (rule entry_ok_cong [OF ok [of e']])
    fix q
    assume q: "q \<in> set (L e')"
    then have "st_pentry (states st q) = Some e'" using ok [of e'] by (auto simp: entry_ok_def)
    then have "q \<notin> set ?xs" using that e(3) by auto
    then have "last_ptr None ?xs \<noteq> Some q" by (auto simp: last_ptr_def)
    moreover have "q \<noteq> p" using q assms(4) by blast
    ultimately show "st_next (states st' q) = st_next (states st q) \<and>
      st_prev (states st' q) = st_prev (states st q) \<and> st_pentry (states st' q) = st_pentry (states st q)"
      using others [of q] by simp
  qed (use same that in auto)
  show ?thesis unfolding held_def
  proof (intro conjI allI impI)
    show "state_inv st'" using assms(1) same(1,2) by (simp add: held_def state_inv_def)
    show "pool_ok (L(e := ?xs @ [p])) st'" using assms(1,3) same(1,3) by (auto simp: held_def pool_ok_def)
    show "entry_ok ((L(e := ?xs @ [p])) e') e' st'" for e' using mine other by simp
    show "fst (V_w (ce_lock (entries st' e))) = rw_lock_zero" using assms(1) same(4) by (simp add: held_def)
    show "ce_lock (entries st' e') = rw_lock_zero" if "e' \<noteq> e" for e' using that assms(1) same(5) by (simp add: held_def)
  qed
qed

section \<open>Adding a state\<close>

lemma nfs4_State_Set_room:
  assumes "nfs4_State_Set other p st = Some (r, st')" and "state_inv st" and "mem_good (ss_mem st)"
    and "table_room (ht_state_id st)"
  shows "r"
proof -
  obtain m where a: "Mem_Alloc 1 (ss_mem st) = (Some (brk (ss_mem st)), m)" "mem_good m"
    using Mem_Alloc_good [OF assms(3), of 1] by auto
  have inv: "table_inv m (ht_state_id st)" using assms(2) table_inv_Mem_Alloc [OF _ a(1)] by (simp add: state_inv_def)
  from growing_table.overwrite_succeeds [OF inv a(2), of other p] assms(1,4) a(1) show ?thesis
    by (auto simp: nfs4_State_Set_def simp del: One_nat_def)
qed

text \<open>
  What entering the state \<open>p\<close> of \<open>e\<close> under its state id leaves: \<open>p\<close> is the last of the list and filled in. The table
  refuses it only when an allocation may fail.
\<close>

definition entered ::
  "(addr \<Rightarrow> addr list) \<Rightarrow> addr \<Rightarrow> addr \<Rightarrow> 12 bytes \<Rightarrow> u32 \<Rightarrow> state_data \<Rightarrow> addr \<Rightarrow> 'h state_store \<Rightarrow>
   cache_inode_status \<Rightarrow> ptr \<Rightarrow> 'h state_store \<Rightarrow> bool" where
  "entered L e p other ty d own st status r st' \<longleftrightarrow>
     store_ok (L(e := L e @ [p])) st' \<and> stateid_other (states st' p) = other \<and> state_type (states st' p) = ty \<and>
     sdata (states st' p) = d \<and> powner (states st' p) = Some own \<and>
     (status = CACHE_INODE_SUCCESS \<and> r = Some p \<and> state_map st' = (state_map st)(other \<mapsto> p) \<or>
      status = CACHE_INODE_STATE_ERROR \<and> r = None \<and> state_map st' = state_map st \<and>
        \<not> (mem_good (ss_mem st) \<and> table_room (ht_state_id st)))"

lemma register_state_spec:
  assumes "held (L(e := L e @ [p])) e st"
    and "states st p = fill_state ty d other e own s"
  shows "\<exists>status r st'. register_state other p e st = Some (status, r, st') \<and>
    entered L e p other ty d own st status r st' \<and> pool_state_v4 st' = pool_state_v4 st"
proof -
  let ?L = "L(e := L e @ [p])"
  have inv: "state_inv st" using assms(1) by (simp add: held_def)
  from nfs4_State_Set_spec [OF inv, of other p] obtain r st' where s:
    "nfs4_State_Set other p st = Some (r, st')" "state_inv st'" "same_heaps st st'"
    "state_map st' = (if r then (state_map st)(other \<mapsto> p) else state_map st)" by blast
  have "held ?L e st'" by (rule held_same [OF assms(1) s(3,2)])
  then have ok: "store_ok ?L (unlock_entry e st')" "store_ok ?L (unlock_entry e (count_err ADD_STATE st'))"
    by (auto intro: held_unlock)
  have room: "mem_good (ss_mem st) \<Longrightarrow> table_room (ht_state_id st) \<Longrightarrow> r"
    by (rule nfs4_State_Set_room [OF s(1) inv])
  show ?thesis
  proof (cases r)
    case True
    with s ok(1) assms(2) show ?thesis
      by (simp add: register_state_def entered_def unlock_entry_def same_heaps_def fill_state_def)
  next
    case False
    with s ok(2) assms(2) room show ?thesis
      by (auto simp: register_state_def entered_def unlock_entry_def count_err_def same_heaps_def fill_state_def)
  qed
qed

text \<open>A state that is in no list may be written.\<close>

lemma held_upd_free:
  assumes "held L e st" and "\<And>e'. p \<notin> set (L e')"
  shows "held L e (upd_state p f st)"
proof -
  have "entry_ok (L e') e' (upd_state p f st)" for e'
  proof (rule entry_ok_cong [of _ _ st])
    show "entry_ok (L e') e' st" using assms(1) by (simp add: held_def)
    fix q
    assume "q \<in> set (L e')"
    then have "q \<noteq> p" using assms(2) by blast
    then show "st_next (states (upd_state p f st) q) = st_next (states st q) \<and>
      st_prev (states (upd_state p f st) q) = st_prev (states st q) \<and>
      st_pentry (states (upd_state p f st) q) = st_pentry (states st q)" by (simp add: upd_state_def)
  qed (simp_all add: upd_state_def)
  with assms(1) show ?thesis by (simp add: held_def state_inv_def pool_ok_def upd_state_def)
qed

lemma build_regular:
  "ce_type x = REGULAR_FILE \<Longrightarrow> digest (ce_handle x) = Some fileid \<Longrightarrow>
   \<exists>other. nfs4_BuildStateId_Other digest boot True (Some x) (Some own) = Some other"
  by (simp add: nfs4_BuildStateId_Other_def)

text \<open>
  What a failing file id leaves: the first state of a file is dropped, a later one stays linked behind the last
  without being filled in.
\<close>

definition half_linked ::
  "(addr \<Rightarrow> addr list) \<Rightarrow> addr \<Rightarrow> addr \<Rightarrow> 'h state_store \<Rightarrow> cache_inode_status \<Rightarrow> ptr \<Rightarrow> 'h state_store \<Rightarrow> bool" where
  "half_linked L e p st status r st' \<longleftrightarrow>
     status = CACHE_INODE_STATE_ERROR \<and> r = None \<and> state_map st' = state_map st \<and>
     ce_lock (entries st' e) = rw_lock_zero \<and>
     (if L e = [] then store_ok L st'
      else dll (states st') None (pstate_head (entries st' e)) (L e @ [p]) \<and>
        states st' p = (states st p)\<lparr>st_next := None, st_prev := Some (last (L e))\<rparr>)"

lemma add_first_state_spec:
  assumes "held L e st" and "L e = []" and "p < brk (ss_mem st)" and "p \<notin> set (pool_state_v4 st)" and "\<And>e'. p \<notin> set (L e')"
  shows "\<exists>status r st'. add_first_state digest boot ty d own e p st = Some (status, r, st') \<and>
    pool_state_v4 st' = pool_state_v4 st \<and>
    (case nfs4_BuildStateId_Other digest boot True (Some (entries st e)) (Some (open_owners st own)) of
       None \<Rightarrow> half_linked L e p st status r st'
     | Some other \<Rightarrow> entered L e p other ty d own st status r st')"
proof (cases "nfs4_BuildStateId_Other digest boot True (Some (entries st e)) (Some (open_owners st own))")
  case None
  let ?st = "upd_state p (\<lambda>s. s\<lparr>st_next := None, st_prev := None\<rparr>) st"
  have "store_ok L (unlock_entry e (count_err ADD_STATE ?st))"
    using held_upd_free [OF assms(1,5)] by (intro held_unlock) simp
  moreover from this have "ce_lock (entries (unlock_entry e (count_err ADD_STATE ?st)) e) = rw_lock_zero"
    by (simp add: store_ok_def)
  ultimately show ?thesis using None assms(2)
    by (simp add: add_first_state_def half_linked_def upd_state_def unlock_entry_def count_err_def)
next
  case (Some other)
  let ?st = "upd_entry e (\<lambda>x. x\<lparr>pstate_head := Some p\<rparr>) (upd_state p (fill_state ty d other e own)
    (upd_state p (\<lambda>s. s\<lparr>st_next := None, st_prev := None\<rparr>) st))"
  have run: "add_first_state digest boot ty d own e p st = register_state other p e ?st"
    using Some by (simp add: add_first_state_def upd_state_def)
  have "held (L(e := L e @ [p])) e ?st"
    by (rule held_append [OF assms(1,3,4,5)]) (use assms(2) in \<open>simp_all add: upd_state_def upd_entry_def fill_state_def\<close>)
  from register_state_spec [OF this, of ty d other own "(states st p)\<lparr>st_next := None, st_prev := None\<rparr>"] run Some
  show ?thesis by (auto simp: upd_state_def upd_entry_def entered_def)
qed

lemma add_next_state_spec:
  assumes "held L e st" and "L e \<noteq> []" and "p < brk (ss_mem st)" and "p \<notin> set (pool_state_v4 st)" and "\<And>e'. p \<notin> set (L e')"
    and "ty \<in> {CACHE_INODE_STATE_NONE, CACHE_INODE_STATE_SHARE, CACHE_INODE_STATE_LOCK, CACHE_INODE_STATE_LAYOUT}"
  shows "\<exists>status r st'. add_next_state digest boot ty d own e p st = Some (status, r, st') \<and>
    pool_state_v4 st' = pool_state_v4 st \<and>
    (case nfs4_BuildStateId_Other digest boot True (Some (entries st e)) (Some (open_owners st own)) of
       None \<Rightarrow> half_linked L e p st status r st'
     | Some other \<Rightarrow> entered L e p other ty d own st status r st')"
proof -
  have e: "dll (states st) None (pstate_head (entries st e)) (L e)" "distinct (L e)"
    "fst (V_w (ce_lock (entries st e))) = rw_lock_zero" using assms(1) by (simp_all add: held_def entry_ok_def)
  have l: "last_ptr None (L e) = Some (last (L e))" using assms(2) by (simp add: last_ptr_def)
  have w: "browse_states (states st) ty d (pstate_head (entries st e)) None = Some (False, Some (last (L e)))"
    using browse_dll [OF e(1)] assms(6) l by (simp add: share_conflict_iff)
  have ne: "p \<noteq> last (L e)" using assms(2,5) last_in_set by metis
  let ?lk = "upd_state (last (L e)) (\<lambda>s. s\<lparr>st_next := Some p\<rparr>)
      (upd_state p (\<lambda>s. s\<lparr>st_next := None, st_prev := Some (last (L e))\<rparr>) st)"
  show ?thesis
  proof (cases "nfs4_BuildStateId_Other digest boot True (Some (entries st e)) (Some (open_owners st own))")
    case None
    have "q \<noteq> p" if "q \<in> set (L e)" for q using that assms(5) by blast
    then have "dll (states ?lk) None (if L e = [] then Some p else pstate_head (entries st e)) (L e @ [p])"
      by (intro st.seg_snoc [where h' = "states ?lk" and y = p, OF e(1,2) assms(5)])
        (use ne l assms(2) in \<open>auto simp: upd_state_def\<close>)
    with None w e(3) ne assms(2) show ?thesis
      by (simp add: add_next_state_def half_linked_def upd_state_def unlock_entry_def count_err_def)
  next
    case (Some other)
    let ?st = "upd_entry e (\<lambda>x. x\<lparr>pstate_tail := Some p\<rparr>) (upd_state p (fill_state ty d other e own) ?lk)"
    have run: "add_next_state digest boot ty d own e p st = register_state other p e ?st"
      using Some w by (simp add: add_next_state_def upd_state_def)
    have "held (L(e := L e @ [p])) e ?st"
      by (rule held_append [OF assms(1,3,4,5)])
        (use assms(2) ne l in \<open>auto simp: upd_state_def upd_entry_def fill_state_def\<close>)
    from register_state_spec [OF this, of ty d other own "states ?lk p"] run Some ne
    show ?thesis by (auto simp: upd_state_def upd_entry_def entered_def)
  qed
qed

lemma add_next_state_conflict:
  assumes "held L e st" and "L e \<noteq> []"
    and "ty \<notin> {CACHE_INODE_STATE_NONE, CACHE_INODE_STATE_SHARE, CACHE_INODE_STATE_LOCK, CACHE_INODE_STATE_LAYOUT}"
  shows "\<exists>st'. add_next_state digest boot ty d own e p st = Some (CACHE_INODE_STATE_CONFLICT, None, st') \<and>
    pool_state_v4 st' = pool_state_v4 st \<and> store_ok L st' \<and> state_map st' = state_map st"
proof -
  have "dll (states st) None (pstate_head (entries st e)) (L e)" using assms(1) by (simp add: held_def entry_ok_def)
  from browse_dll [OF this, of ty d] assms(2,3)
  have w: "\<exists>q. browse_states (states st) ty d (pstate_head (entries st e)) None = Some (True, q)"
    by (auto simp: share_conflict_iff)
  have "store_ok L (unlock_entry e (count_err ADD_STATE st))" using assms(1) by (simp add: held_unlock)
  with w show ?thesis by (auto simp: add_next_state_def unlock_entry_def count_err_def)
qed

text \<open>The call on a regular file, up to the first or next state of the file.\<close>

lemma add_state_run:
  assumes "store_ok L st" and "ce_type (entries st e) = REGULAR_FILE"
    and "GET_PREALLOC nb (pool_state_v4 st) (ss_mem st) = (r, pool, m)"
  obtains st1 where "held L e st1" "states st1 = states st" "state_map st1 = state_map st" "pool_state_v4 st1 = pool"
    "ss_mem st1 = m" "ht_state_id st1 = ht_state_id st"
    "\<And>own. nfs4_BuildStateId_Other digest boot True (Some (entries st1 e)) (Some (open_owners st1 own)) =
       nfs4_BuildStateId_Other digest boot True (Some (entries st e)) (Some (open_owners st own))"
    "cache_inode_add_state digest boot nb (Some e) ty (Some d) (Some own) True st =
      (case r of None \<Rightarrow> Some (CACHE_INODE_MALLOC_ERROR, None, unlock_entry e (count_err ADD_STATE st1))
       | Some new \<Rightarrow> if L e = [] then add_first_state digest boot ty d own e new st1
                     else add_next_state digest boot ty d own e new st1)"
proof -
  obtain st0 where l: "lock_entry e st = Some st0" "held L e st0" "states st0 = states st" "open_owners st0 = open_owners st"
    "pool_state_v4 st0 = pool_state_v4 st" "ss_mem st0 = ss_mem st" "ht_state_id st0 = ht_state_id st"
    "pstate_head (entries st0 e) = pstate_head (entries st e)" "ce_type (entries st0 e) = ce_type (entries st e)"
    "ce_handle (entries st0 e) = ce_handle (entries st e)" by (rule store_held [OF assms(1), of e])
  note g = assms(3) [folded l(5,6)]
  let ?st = "st0\<lparr>pool_state_v4 := pool, ss_mem := m\<rparr>"
  note h = held_pool(1) [OF l(2) g]
  have b: "nfs4_BuildStateId_Other digest boot True (Some (entries ?st e)) (Some (open_owners ?st own)) =
      nfs4_BuildStateId_Other digest boot True (Some (entries st e)) (Some (open_owners st own))" for own
    using l(4,9,10) by (simp add: nfs4_BuildStateId_Other_def)
  have head: "pstate_head (entries ?st e) = None \<longleftrightarrow> L e = []"
    using h by (cases "L e") (auto simp: held_def entry_ok_def dest!: spec [of _ e])
  have "cache_inode_add_state digest boot nb (Some e) ty (Some d) (Some own) True st =
      (case r of None \<Rightarrow> Some (CACHE_INODE_MALLOC_ERROR, None, unlock_entry e (count_err ADD_STATE ?st))
       | Some new \<Rightarrow> if L e = [] then add_first_state digest boot ty d own e new ?st
                     else add_next_state digest boot ty d own e new ?st)"
    using assms(2) l(1) g head by (simp add: cache_inode_add_state_def split: option.splits)
  with that [OF h _ _ _ _ _ b] l(3,7) show thesis by simp
qed

lemma store_pool_fresh:
  assumes "store_ok L st" and "GET_PREALLOC nb (pool_state_v4 st) (ss_mem st) = (Some p, pool, m)"
  shows "p < brk m" "p \<notin> set pool" "\<And>e'. p \<notin> set (L e')"
proof -
  obtain st0 where l: "lock_entry 0 st = Some st0" "held L 0 st0" "pool_state_v4 st0 = pool_state_v4 st"
    "ss_mem st0 = ss_mem st" by (rule store_held [OF assms(1), of 0])
  from held_pool(2) [OF l(2) assms(2) [folded l(3,4)] refl]
  show "p < brk m" "p \<notin> set pool" "\<And>e'. p \<notin> set (L e')" by blast+
qed

text \<open>
  C15. \<^verbatim>\<open>cache_inode_add_state\<close> returns on every branch, with the lock of the file free. Another type of file is an
  invalid argument and changes nothing. The answer is a memory error exactly when the pool is empty and no
  block can be had. Otherwise a state that is in no list leaves the pool. It is lost on a conflict, which is
  answered exactly for a type that the switch does not know on a file with states. When the file id cannot be
  computed the answer is a state error, and behind other states the new one stays linked although it was not filled in. Else the state is
  appended to the list of the file, filled in and entered in the table under its state id, with the other
  lists unchanged; this succeeds unless an allocation of the table may fail, where an error is answered although the
  state stays in the list.
\<close>

theorem add_state_appends:
  assumes "store_ok L st"
  shows "\<exists>status r st'. cache_inode_add_state digest boot nb (Some e) ty (Some d) (Some own) True st = Some (status, r, st') \<and>
    (if ce_type (entries st e) \<noteq> REGULAR_FILE then status = CACHE_INODE_INVALID_ARGUMENT \<and> r = None \<and> st' = st
     else if pool_state_v4 st = [] \<and> (nb = 0 \<or> fails (ss_mem st) (calls (ss_mem st)))
     then status = CACHE_INODE_MALLOC_ERROR \<and> r = None \<and> store_ok L st' \<and> state_map st' = state_map st
     else \<exists>p pool m. GET_PREALLOC nb (pool_state_v4 st) (ss_mem st) = (Some p, pool, m) \<and> pool_state_v4 st' = pool \<and>
       (\<forall>e'. p \<notin> set (L e')) \<and>
       (if L e \<noteq> [] \<and> ty \<notin> {CACHE_INODE_STATE_NONE, CACHE_INODE_STATE_SHARE, CACHE_INODE_STATE_LOCK, CACHE_INODE_STATE_LAYOUT}
        then status = CACHE_INODE_STATE_CONFLICT \<and> r = None \<and> store_ok L st' \<and> state_map st' = state_map st
        else case nfs4_BuildStateId_Other digest boot True (Some (entries st e)) (Some (open_owners st own)) of
          None \<Rightarrow> digest (ce_handle (entries st e)) = None \<and> half_linked L e p st status r st'
        | Some other \<Rightarrow> entered L e p other ty d own st status r st'))"
proof (cases "ce_type (entries st e) = REGULAR_FILE")
  case False
  then show ?thesis by (simp add: cache_inode_add_state_def)
next
  case reg: True
  let ?b = "nfs4_BuildStateId_Other digest boot True (Some (entries st e)) (Some (open_owners st own))"
  let ?tys = "{CACHE_INODE_STATE_NONE, CACHE_INODE_STATE_SHARE, CACHE_INODE_STATE_LOCK, CACHE_INODE_STATE_LAYOUT}"
  obtain r pool m where g: "GET_PREALLOC nb (pool_state_v4 st) (ss_mem st) = (r, pool, m)"
    by (cases "GET_PREALLOC nb (pool_state_v4 st) (ss_mem st)") auto
  obtain st1 where h: "held L e st1" "states st1 = states st" "state_map st1 = state_map st" "pool_state_v4 st1 = pool"
      "ss_mem st1 = m" "ht_state_id st1 = ht_state_id st"
    and b: "nfs4_BuildStateId_Other digest boot True (Some (entries st1 e)) (Some (open_owners st1 own)) = ?b"
    and run: "cache_inode_add_state digest boot nb (Some e) ty (Some d) (Some own) True st =
      (case r of None \<Rightarrow> Some (CACHE_INODE_MALLOC_ERROR, None, unlock_entry e (count_err ADD_STATE st1))
       | Some new \<Rightarrow> if L e = [] then add_first_state digest boot ty d own e new st1
                     else add_next_state digest boot ty d own e new st1)"
    by (rule add_state_run [OF assms reg g, where digest = digest and boot = boot and ty = ty and d = d and own = own]) blast
  note none = GET_PREALLOC_None_iff [OF g]
  show ?thesis
  proof (cases r)
    case None
    have "store_ok L (unlock_entry e (count_err ADD_STATE st1))" using h(1) by (simp add: held_unlock)
    with None run none reg h(3) show ?thesis by (simp add: unlock_entry_def count_err_def)
  next
    case (Some p)
    have p: "p < brk (ss_mem st1)" "p \<notin> set (pool_state_v4 st1)" "\<And>e'. p \<notin> set (L e')"
      using store_pool_fresh [OF assms g [unfolded Some]] h(4,5) by simp_all
    have same: "half_linked L e p st1 status r' st' = half_linked L e p st status r' st'"
      "entered L e p other ty d own st1 status r' st' = entered L e p other ty d own st status r' st'" for other status r' st'
      using h(2-6) GET_PREALLOC_fails [OF g] by (simp_all add: half_linked_def entered_def mem_good_def)
    have "\<exists>status r' st'. cache_inode_add_state digest boot nb (Some e) ty (Some d) (Some own) True st = Some (status, r', st') \<and>
        pool_state_v4 st' = pool \<and>
        (if L e \<noteq> [] \<and> ty \<notin> ?tys
         then status = CACHE_INODE_STATE_CONFLICT \<and> r' = None \<and> store_ok L st' \<and> state_map st' = state_map st
         else case ?b of None \<Rightarrow> half_linked L e p st status r' st'
           | Some other \<Rightarrow> entered L e p other ty d own st status r' st')"
    proof (cases "L e = []")
      case True
      from add_first_state_spec [OF h(1) True p, of digest boot ty d own, unfolded b same] run Some True h(4)
      show ?thesis by auto
    next
      case False
      with add_next_state_spec [OF h(1) False p, of ty digest boot d own, unfolded b same]
        add_next_state_conflict [OF h(1) False, of ty digest boot d own p] run Some h(3,4)
      show ?thesis by (cases "ty \<in> ?tys") auto
    qed
    moreover have "?b = None \<Longrightarrow> digest (ce_handle (entries st e)) = None"
      using reg by (auto simp: nfs4_BuildStateId_Other_def split: option.splits)
    ultimately show ?thesis using Some none reg g p(3) by (cases ?b) (auto split: if_splits)
  qed
qed

lemma small_states_ok:
  "store_ok (\<lambda>e. []) small_states" "ce_type (entries small_states e) = REGULAR_FILE" "table_room (ht_state_id small_states)"
  "pool_state_v4 small_states = []"
  using small_states_inv(1,4) small_dims_nonzero(2)
  by (auto simp: store_ok_def pool_ok_def entry_ok_def small_states_def table_room_def state_id_param_def split: prod.splits)

theorem add_state_appends_witness:
  "\<exists>p st'. cache_inode_add_state (\<lambda>h. Some 7) 9 4 (Some 1) CACHE_INODE_STATE_SHARE (Some no_data) (Some 3) True
      small_states = Some (CACHE_INODE_SUCCESS, Some p, st') \<and> store_ok ((\<lambda>e. [])(1 := [p])) st' \<and>
     state_map st' = [stateid_other (states st' p) \<mapsto> p]"
proof -
  note i = small_states_ok small_states_inv(2,3)
  obtain other where b: "nfs4_BuildStateId_Other (\<lambda>h. Some 7) 9 True (Some (entries small_states 1)) (Some (open_owners small_states 3)) =
      Some other" using build_regular [of "entries small_states 1" "\<lambda>h. Some 7" 7] i(2) by blast
  from add_state_appends [OF i(1), of "\<lambda>h. Some 7" 9 4 1 CACHE_INODE_STATE_SHARE no_data 3] i(2-6) b
  show ?thesis by (auto simp: mem_good_def entered_def)
qed

section \<open>Deleting a state\<close>

text \<open>The memory after \<open>unlink_state\<close>: the neighbours of \<open>p\<close> are linked to each other.\<close>

abbreviation relink_state :: "addr \<Rightarrow> (addr \<Rightarrow> cache_inode_state) \<Rightarrow> addr \<Rightarrow> cache_inode_state" where
  "relink_state \<equiv> relink st_next st_prev (\<lambda>p s. s\<lparr>st_next := p\<rparr>) (\<lambda>p s. s\<lparr>st_prev := p\<rparr>)"

lemma unlink_state_eq:
  "unlink_state p e st = (if pstate_head (entries st e) = Some p
     then upd_entry e (\<lambda>x. x\<lparr>pstate_head := st_next (states st p)\<rparr>) (st\<lparr>states := relink_state p (states st)\<rparr>)
     else st\<lparr>states := relink_state p (states st)\<rparr>)"
  by (auto simp: unlink_state_def relink_def upd_state_def upd_entry_def Let_def split: option.splits)

lemma relink_state_dll:
  assumes "dll ss None cur (xs @ p # ys)" and "distinct (xs @ p # ys)"
  shows "dll (relink_state p ss) None (if cur = Some p then st_next (ss p) else cur) (xs @ ys)"
    and "\<And>q. q \<notin> set xs \<union> set ys \<Longrightarrow> relink_state p ss q = ss q"
    and "\<And>q. st_pentry (relink_state p ss q) = st_pentry (ss q)"
proof -
  note r = st.relink_seg [OF assms]
  have "cur = Some p \<longleftrightarrow> xs = []" using seg_first [OF assms(1)] assms(2) by (cases xs) auto
  with r(1) show "dll (relink_state p ss) None (if cur = Some p then st_next (ss p) else cur) (xs @ ys)" by simp
  show "relink_state p ss q = ss q" if "q \<notin> set xs \<union> set ys" for q using r(2) [of q] that by simp
  show "st_pentry (relink_state p ss q) = st_pentry (ss q)" for q using r(2) [of q] by (auto split: if_splits)
qed

lemma held_unlink:
  assumes "held L e st" and "L e = xs @ p # ys"
  shows "held (L(e := xs @ ys)) e (unlink_state p e st)" and "states (unlink_state p e st) p = states st p"
    and "ht_state_id (unlink_state p e st) = ht_state_id st" "ss_mem (unlink_state p e st) = ss_mem st"
      "pool_state_v4 (unlink_state p e st) = pool_state_v4 st"
proof -
  let ?st = "unlink_state p e st"
  have ok: "entry_ok (L e') e' st" for e' using assms(1) by (simp add: held_def)
  have e: "dll (states st) None (pstate_head (entries st e)) (xs @ p # ys)" "distinct (xs @ p # ys)"
    "\<forall>q \<in> set (xs @ p # ys). st_pentry (states st q) = Some e \<and> q < brk (ss_mem st)"
    using ok [of e] assms(2) by (auto simp: entry_ok_def)
  note r = relink_state_dll [OF e(1,2)]
  have ss: "states ?st = relink_state p (states st)" and same: "ht_state_id ?st = ht_state_id st" "ss_mem ?st = ss_mem st"
    "pool_state_v4 ?st = pool_state_v4 st" "\<And>e'. ce_lock (entries ?st e') = ce_lock (entries st e')"
    "\<And>e'. e' \<noteq> e \<Longrightarrow> entries ?st e' = entries st e'"
    "pstate_head (entries ?st e) = (if pstate_head (entries st e) = Some p then st_next (states st p)
       else pstate_head (entries st e))"
    by (simp_all add: unlink_state_eq upd_entry_def)
  show "states ?st p = states st p" using ss r(2) [of p] e(2) by simp
  show "ht_state_id ?st = ht_state_id st" "ss_mem ?st = ss_mem st" "pool_state_v4 ?st = pool_state_v4 st" by (rule same)+
  have mine: "entry_ok (xs @ ys) e ?st"
    using r(1,3) e(2,3) by (auto simp: entry_ok_def ss same)
  have other: "entry_ok (L e') e' ?st" if "e' \<noteq> e" for e'
  proof (rule entry_ok_cong [OF ok [of e']])
    fix q
    assume q: "q \<in> set (L e')"
    then have "st_pentry (states st q) = Some e'" using ok [of e'] by (auto simp: entry_ok_def)
    then have "q \<notin> set xs \<union> set ys" using that e(3) by auto
    from r(2) [OF this] show "st_next (states ?st q) = st_next (states st q) \<and>
      st_prev (states ?st q) = st_prev (states st q) \<and> st_pentry (states ?st q) = st_pentry (states st q)" by (simp add: ss)
  qed (use same that in auto)
  have "pool_ok L st" using assms(1) by (simp add: held_def)
  moreover have "set ((L(e := xs @ ys)) e') \<subseteq> set (L e')" for e' using assms(2) by auto
  ultimately have "pool_ok (L(e := xs @ ys)) ?st" unfolding pool_ok_def same by blast
  then show "held (L(e := xs @ ys)) e ?st"
    using assms(1) mine other same by (auto simp: held_def state_inv_def)
qed

lemma held_reset:
  assumes "held L e st" and "p < brk (ss_mem st)" and "p \<notin> set (pool_state_v4 st)" and "\<And>e'. p \<notin> set (L e')"
  shows "held L e (reset_state p st)"
proof -
  let ?st = "reset_state p st"
  have "entry_ok (L e') e' ?st" for e'
  proof (rule entry_ok_cong [of _ _ st])
    show "entry_ok (L e') e' st" using assms(1) by (simp add: held_def)
    fix q
    assume "q \<in> set (L e')"
    then have "q \<noteq> p" using assms(4) by blast
    then show "st_next (states ?st q) = st_next (states st q) \<and> st_prev (states ?st q) = st_prev (states st q) \<and>
      st_pentry (states ?st q) = st_pentry (states st q)" by (simp add: reset_state_def upd_state_def Let_def)
  qed (simp_all add: reset_state_def upd_state_def Let_def)
  with assms show ?thesis
    by (auto simp: held_def pool_ok_def state_inv_def reset_state_def upd_state_def RELEASE_PREALLOC_def Let_def)
qed

text \<open>
  C16. Deleting a state that is in the list of a file and in the hash table succeeds: the state leaves the list,
  the others keep their order, its state id is unknown afterwards, the state is back in the pool and the lock
  is free.
\<close>

theorem del_state_removes:
  assumes "store_ok L st" and "L e = xs @ p # ys" and "state_map st (stateid_other (states st p)) \<noteq> None"
  shows "\<exists>st'. cache_inode_del_state (Some p) True st = Some (CACHE_INODE_SUCCESS, st') \<and>
    store_ok (L(e := xs @ ys)) st' \<and> state_map st' = (state_map st)(stateid_other (states st p) := None) \<and>
    pool_state_v4 st' = p # pool_state_v4 st"
proof -
  let ?id = "stateid_other (states st p)"
  have inv: "state_inv st" using assms(1) by (simp add: store_ok_def)
  from nfs4_State_Get_Pointer_spec [OF inv, of ?id] assms(3) obtain test st1 where g:
    "nfs4_State_Get_Pointer ?id st = Some (True, test, st1)" "state_inv st1" "same_heaps st st1" "state_map st1 = state_map st"
    by auto
  have "entry_ok (L e') e' st1" for e'
    by (rule entry_ok_cong [of _ _ st]) (use assms(1) g(3) in \<open>auto simp: store_ok_def same_heaps_def\<close>)
  then have ok1: "store_ok L st1" using assms(1) g(2,3) by (fastforce simp: store_ok_def same_heaps_def pool_ok_def)
  have pe: "st_pentry (states st1 p) = Some e" "p < brk (ss_mem st1)"
    using ok1 assms(2) unfolding store_ok_def entry_ok_def by (metis in_set_conv_decomp)+
  obtain st2 where l: "lock_entry e st1 = Some st2" "held L e st2" "states st2 = states st1" "pool_state_v4 st2 = pool_state_v4 st1"
    "ss_mem st2 = ss_mem st1" "ht_state_id st2 = ht_state_id st1" by (rule store_held [OF ok1, of e])
  let ?st3 = "unlink_state p e st2" and ?L = "L(e := xs @ ys)"
  note u = held_unlink [OF l(2) assms(2)]
  have id: "stateid_other (states ?st3 p) = ?id" using u(2) l(3) g(3) by (simp add: same_heaps_def)
  have "state_inv ?st3" using u(1) by (simp add: held_def)
  from nfs4_State_Del_spec [OF this, of ?id] obtain st4 where d:
    "nfs4_State_Del ?id ?st3 = Some (state_map ?st3 ?id \<noteq> None, st4)" "state_inv st4" "same_heaps ?st3 st4"
    "state_map st4 = (state_map ?st3)(?id := None)" by blast
  have map3: "state_map ?st3 = state_map st" using u(3) l(6) g(4) by simp
  have free: "p \<notin> set (?L e')" for e'
  proof
    assume "p \<in> set (?L e')"
    moreover have "entry_ok (?L e') e' ?st3" using u(1) by (simp add: held_def)
    ultimately have "st_pentry (states ?st3 p) = Some e'" by (simp add: entry_ok_def)
    then have "e' = e" using u(2) l(3) pe(1) by simp
    with \<open>p \<in> set (?L e')\<close> have "p \<in> set (xs @ ys)" by simp
    moreover have "distinct (xs @ p # ys)" using ok1 assms(2) unfolding store_ok_def entry_ok_def by metis
    ultimately show False by auto
  qed
  have h4: "held ?L e st4" by (rule held_same [OF u(1) d(3,2)])
  have pool: "pool_state_v4 st4 = pool_state_v4 st" "p \<notin> set (pool_state_v4 st)" "p < brk (ss_mem st4)"
  proof -
    show "pool_state_v4 st4 = pool_state_v4 st" using d(3) u(5) l(4) g(3) by (simp add: same_heaps_def)
    have "p \<in> set (L e)" using assms(2) by simp
    then show "p \<notin> set (pool_state_v4 st)" using assms(1) unfolding store_ok_def pool_ok_def by blast
    show "p < brk (ss_mem st4)" using pe(2) d(3) u(4) l(5) by (simp add: same_heaps_def)
  qed
  have h5: "held ?L e (reset_state p st4)" by (rule held_reset [OF h4 pool(3)]) (use pool free in simp_all)
  have "cache_inode_del_state (Some p) True st = Some (CACHE_INODE_SUCCESS, unlock_entry e (reset_state p st4))"
    using g(1) pe(1) l(1) d(1) id map3 assms(3) by (simp add: cache_inode_del_state_def)
  moreover have "state_map (unlock_entry e (reset_state p st4)) = (state_map st)(?id := None)"
    "pool_state_v4 (unlock_entry e (reset_state p st4)) = p # pool_state_v4 st"
    using d(4) map3 pool(1)
    by (simp_all add: unlock_entry_def reset_state_def upd_state_def RELEASE_PREALLOC_def Let_def)
  ultimately show ?thesis using held_unlock [OF h5] by blast
qed

text \<open>An instance: one file with one state.\<close>

definition one_linked :: "unit state_store" where
  "one_linked = upd_state 0 (\<lambda>s. s\<lparr>stateid_other := mk_bytes [1], st_pentry := Some 2\<rparr>)
     (upd_entry 2 (\<lambda>x. x\<lparr>pstate_head := Some 0\<rparr>) small_states)"

definition one_state :: "unit state_store" where
  "one_state = snd (the (nfs4_State_Set (mk_bytes [1]) 0 one_linked))"

lemma small_states_brk: "0 < brk (ss_mem small_states)"
proof -
  obtain ht m where t: "(new_table (state_id_param small_dims) mem_ok :: (12 bytes, addr) hash_table \<times> mem) = (ht, m)"
    by (cases "new_table (state_id_param small_dims) mem_ok :: (12 bytes, addr) hash_table \<times> mem") auto
  have "brk mem_ok \<le> brk m"
    using new_table(4) [OF state_id_param_good [OF small_dims_nonzero(1)] mem_ok_good _ _ t] small_dims_nonzero
    by (simp add: state_id_param_def)
  with t show ?thesis by (simp add: small_states_def mem_ok_def)
qed

lemma one_state_ok:
  "store_ok ((\<lambda>e. [])(2 := [0])) one_state" "stateid_other (states one_state 0) = mk_bytes [1]"
  "state_map one_state (mk_bytes [1]) = Some 0" "pool_state_v4 one_state = []"
proof -
  have lin: "ss_mem one_linked = ss_mem small_states" "ht_state_id one_linked = ht_state_id small_states"
    by (simp_all add: one_linked_def upd_state_def upd_entry_def)
  have inv: "state_inv one_linked" using small_states_inv(1) lin by (simp add: state_inv_def)
  from nfs4_State_Set_spec [OF inv, of "mk_bytes [1]" 0] obtain r st' where s:
    "nfs4_State_Set (mk_bytes [1]) 0 one_linked = Some (r, st')" "state_inv st'" "same_heaps one_linked st'"
    "state_map st' = (if r then (state_map one_linked)(mk_bytes [1] \<mapsto> 0) else state_map one_linked)" by blast
  have r: "r" using nfs4_State_Set_room [OF s(1) inv] small_states_inv(3) small_states_ok(3) lin by simp
  have st: "one_state = st'" using s(1) by (simp add: one_state_def)
  have h: "states st' = states one_linked" "entries st' = entries one_linked" "pool_state_v4 st' = pool_state_v4 one_linked"
    "brk (ss_mem one_linked) \<le> brk (ss_mem st')" using s(3) by (auto simp: same_heaps_def)
  have f: "states one_linked 0 = (states small_states 0)\<lparr>stateid_other := mk_bytes [1], st_pentry := Some 2\<rparr>"
    "entries one_linked e = (if e = 2 then (entries small_states 2)\<lparr>pstate_head := Some 0\<rparr> else entries small_states e)"
    "pool_state_v4 one_linked = pool_state_v4 small_states" for e
    by (simp_all add: one_linked_def upd_state_def upd_entry_def)
  have z: "st_next (states small_states 0) = None" "st_prev (states small_states 0) = None"
    "pstate_head (entries small_states e) = None" "ce_lock (entries small_states e) = rw_lock_zero"
    "pool_state_v4 small_states = []" for e by (simp_all add: small_states_def split: prod.splits)
  show "stateid_other (states one_state 0) = mk_bytes [1]" "pool_state_v4 one_state = []"
    using h f z by (simp_all add: st)
  show "state_map one_state (mk_bytes [1]) = Some 0" using s(4) r by (simp add: st)
  show "store_ok ((\<lambda>e. [])(2 := [0])) one_state"
    using s(2) h f z small_states_brk lin(1) by (simp add: st store_ok_def pool_ok_def entry_ok_def)
qed

theorem del_state_removes_witness:
  "\<exists>st'. cache_inode_del_state (Some 0) True one_state = Some (CACHE_INODE_SUCCESS, st') \<and>
     state_map st' (mk_bytes [1]) = None \<and> pool_state_v4 st' = [0]"
  using del_state_removes [OF one_state_ok(1), of 2 "[]" 0 "[]"] one_state_ok(2-4) by auto

section \<open>State ids of this instance of the server\<close>

text \<open>
  The states of the table were made with the boot time \<open>boot\<close> of this instance, and have an owner.
\<close>

definition made_here :: "u64 \<Rightarrow> 'h state_store \<Rightarrow> bool" where
  "made_here boot st \<longleftrightarrow> state_inv st \<and>
     (\<forall>other \<in> dom (state_map st). le_word (take 2 (bytes_list other)) = boot_digest boot) \<and>
     (\<forall>p \<in> ran (state_map st). powner (states st p) \<noteq> None)"

text \<open>
  The stores that a server reaches from the empty table of \<^verbatim>\<open>nfs4_Init_state_id\<close> by any sequence of calls; the check of a
  state id reads the table by \<^verbatim>\<open>nfs4_State_Get\<close>. Between the calls
  the NFS operations may write the owners, the entries and every field of a state but its owner, and memory is
  allocated elsewhere.
\<close>

inductive states_reach :: "u64 \<Rightarrow> 'h state_store \<Rightarrow> bool" for boot where
  start: "index_size d \<noteq> 0 \<Longrightarrow> nfs4_Init_state_id attr_rc codes d m = (0, Some (ht_state_id st), ss_mem st) \<Longrightarrow>
    states_reach boot st"
| add: "states_reach boot st \<Longrightarrow>
    cache_inode_add_state digest boot nb pentry ty pstate_data own args st = Some (status, r, st') \<Longrightarrow> states_reach boot st'"
| get: "states_reach boot st \<Longrightarrow> cache_inode_get_state other args st = Some (status, r, st') \<Longrightarrow> states_reach boot st'"
| update: "states_reach boot st \<Longrightarrow> p \<in> ran (state_map st) \<Longrightarrow>
    cache_inode_update_state (Some p) args st = Some (status, st') \<Longrightarrow> states_reach boot st'"
| del: "states_reach boot st \<Longrightarrow> cache_inode_del_state pstate args st = Some (status, st') \<Longrightarrow> states_reach boot st'"
| del_by_key: "states_reach boot st \<Longrightarrow> cache_inode_del_state_by_key other args st = Some (status, st') \<Longrightarrow>
    states_reach boot st'"
| lookup: "states_reach boot st \<Longrightarrow> nfs4_State_Get other st = Some (b, s, st') \<Longrightarrow> states_reach boot st'"
| elsewhere: "states_reach boot st \<Longrightarrow> (\<And>p. powner (ss p) = powner (states st p)) \<Longrightarrow> brk (ss_mem st) \<le> brk m \<Longrightarrow>
    states_reach boot (st\<lparr>states := ss, open_owners := oo, entries := es, ss_mem := m\<rparr>)"

lemma made_here_frame:
  assumes "made_here boot st" and "state_inv st'" and "state_map st' \<subseteq>\<^sub>m state_map st"
    and "\<And>p. p \<in> ran (state_map st) \<Longrightarrow> powner (states st p) \<noteq> None \<Longrightarrow> powner (states st' p) \<noteq> None"
  shows "made_here boot st'"
proof -
  have "dom (state_map st') \<subseteq> dom (state_map st)" "ran (state_map st') \<subseteq> ran (state_map st)"
    using assms(3) by (auto simp: map_le_def ran_def dom_def) (metis domI option.distinct(1))+
  with assms(1,2,4) show ?thesis unfolding made_here_def by blast
qed

lemma made_here_upd:
  assumes "made_here boot st" and "powner (states st p) \<noteq> None \<Longrightarrow> powner (f (states st p)) \<noteq> None"
  shows "made_here boot (upd_state p f st)"
  by (rule made_here_frame [OF assms(1)]) (use assms in \<open>auto simp: made_here_def state_inv_def upd_state_def\<close>)

lemma made_here_simps [simp]:
  "made_here boot (unlock_entry e st) = made_here boot st" "made_here boot (count_err c st) = made_here boot st"
  "made_here boot (upd_entry e f st) = made_here boot st" "made_here boot (st\<lparr>pool_state_v4 := pool\<rparr>) = made_here boot st"
  by (simp_all add: made_here_def state_inv_def unlock_entry_def count_err_def upd_entry_def)

lemma made_here_lock: "lock_entry e st = Some st' \<Longrightarrow> made_here boot st' = made_here boot st"
  by (auto simp: lock_entry_def made_here_def state_inv_def split: lock_result.splits)

lemma made_here_same:
  "made_here boot st \<Longrightarrow> same_heaps st st' \<Longrightarrow> state_inv st' \<Longrightarrow> state_map st' \<subseteq>\<^sub>m state_map st \<Longrightarrow> made_here boot st'"
  by (erule made_here_frame) (auto simp: same_heaps_def)

lemma made_here_pool:
  assumes "made_here boot st" and "GET_PREALLOC nb pool (ss_mem st) = (r, pool', m)"
  shows "made_here boot (st\<lparr>pool_state_v4 := pool', ss_mem := m\<rparr>)"
  using assms GET_PREALLOC_brk [OF assms(2)] by (auto simp: made_here_def state_inv_def intro: table_inv_mono)

lemma register_state_here:
  assumes "register_state other p e st = Some (status, r, st')" and "made_here boot st"
    and "le_word (take 2 (bytes_list other)) = boot_digest boot" and "powner (states st p) \<noteq> None"
  shows "made_here boot st'"
proof -
  have "state_inv st" using assms(2) by (simp add: made_here_def)
  from nfs4_State_Set_spec [OF this, of other p] obtain ok st1 where s:
    "nfs4_State_Set other p st = Some (ok, st1)" "state_inv st1" "same_heaps st st1"
    "state_map st1 = (if ok then (state_map st)(other \<mapsto> p) else state_map st)" by blast
  have "made_here boot st1"
  proof (cases ok)
    case True
    with s(4) have "ran (state_map st1) \<subseteq> insert p (ran (state_map st))"
      using ran_upd_subset [of "state_map st" other p] by simp
    with True s(2-4) assms(2-4) show ?thesis by (fastforce simp: made_here_def same_heaps_def)
  next
    case False
    with made_here_same [OF assms(2) s(3,2)] s(4) show ?thesis by simp
  qed
  with s(1) assms(1) show ?thesis by (auto simp: register_state_def split: if_splits)
qed

lemma enter_here:
  assumes "(case nfs4_BuildStateId_Other digest boot True ce ow of
      None \<Rightarrow> Some (CACHE_INODE_STATE_ERROR, None, unlock_entry e (count_err ADD_STATE st))
    | Some other \<Rightarrow> register_state other new e (upd_entry e f (upd_state new (fill_state ty d other e own) st))) =
      Some (status, r, st')" and "made_here boot st"
  shows "made_here boot st'"
proof (cases "nfs4_BuildStateId_Other digest boot True ce ow")
  case None
  with assms show ?thesis by auto
next
  case (Some other)
  let ?st = "upd_entry e f (upd_state new (fill_state ty d other e own) st)"
  have "made_here boot ?st" using made_here_upd [OF assms(2)] by (simp add: fill_state_def)
  moreover have "powner (states ?st new) \<noteq> None" by (simp add: upd_entry_def upd_state_def fill_state_def)
  moreover have "register_state other new e ?st = Some (status, r, st')" using assms(1) Some by simp
  ultimately show ?thesis using register_state_here nfs4_BuildStateId_Other_boot [OF Some] by blast
qed

lemma add_first_state_here:
  "add_first_state digest boot ty d own e new st = Some (status, r, st') \<Longrightarrow> made_here boot st \<Longrightarrow> made_here boot st'"
  unfolding add_first_state_def Let_def by (erule enter_here) (simp add: made_here_upd)

lemma add_next_state_here:
  "add_next_state digest boot ty d own e new st = Some (status, r, st') \<Longrightarrow> made_here boot st \<Longrightarrow> made_here boot st'"
  unfolding add_next_state_def Let_def
  by (auto split: bind_splits if_splits elim!: enter_here intro!: made_here_upd)

lemma cache_inode_add_state_here:
  assumes "cache_inode_add_state digest boot nb pentry ty pstate_data own args st = Some (status, r, st')"
    and "made_here boot st"
  shows "made_here boot st'"
proof (cases "\<exists>e d o'. pentry = Some e \<and> pstate_data = Some d \<and> own = Some o' \<and> args \<and> ce_type (entries st e) = REGULAR_FILE")
  case False
  with assms have "st' = st" by (auto simp: cache_inode_add_state_def split: option.splits if_splits)
  with assms(2) show ?thesis by simp
next
  case True
  then obtain e d o' where a: "pentry = Some e" "pstate_data = Some d" "own = Some o'" "args" "ce_type (entries st e) = REGULAR_FILE"
    by blast
  from assms(1) a obtain st1 where l: "lock_entry e st = Some st1"
    by (auto simp: cache_inode_add_state_def split: bind_splits)
  obtain q pool m where g: "GET_PREALLOC nb (pool_state_v4 st1) (ss_mem st1) = (q, pool, m)"
    by (cases "GET_PREALLOC nb (pool_state_v4 st1) (ss_mem st1)") auto
  have "made_here boot (st1\<lparr>pool_state_v4 := pool, ss_mem := m\<rparr>)"
    using made_here_pool [OF _ g] made_here_lock [OF l] assms(2) by simp
  with assms(1) a l g show ?thesis
    by (auto simp: cache_inode_add_state_def Let_def split: option.splits if_splits
        elim!: add_first_state_here add_next_state_here)
qed

lemma Get_Pointer_here:
  assumes "nfs4_State_Get_Pointer other st = Some (b, p, st')" and "made_here boot st"
  shows "made_here boot st'" "state_map st' = state_map st" "states st' = states st"
proof -
  have "state_inv st" using assms(2) by (simp add: made_here_def)
  from nfs4_State_Get_Pointer_spec [OF this, of other] assms(1)
  have s: "state_inv st'" "same_heaps st st'" "state_map st' = state_map st" by auto
  with made_here_same [OF assms(2) s(2,1)] show "made_here boot st'" "state_map st' = state_map st" "states st' = states st"
    by (simp_all add: same_heaps_def)
qed

lemma State_Del_here:
  assumes "nfs4_State_Del other st = Some (ok, st')" and "made_here boot st"
  shows "made_here boot st'"
proof -
  have "state_inv st" using assms(2) by (simp add: made_here_def)
  from nfs4_State_Del_spec [OF this, of other] assms(1)
  have s: "state_inv st'" "same_heaps st st'" "state_map st' = (state_map st)(other := None)" by auto
  show ?thesis by (rule made_here_same [OF assms(2) s(2,1)]) (simp add: s(3) map_le_def)
qed

lemma unlink_state_here: "made_here boot st \<Longrightarrow> made_here boot (unlink_state p e st)"
  by (auto simp: unlink_state_def Let_def split: option.splits intro!: made_here_upd)

lemma reset_state_here: "made_here boot st \<Longrightarrow> made_here boot (reset_state p st)"
  by (auto simp: reset_state_def Let_def intro!: made_here_upd)

lemma cache_inode_del_state_here:
  assumes "cache_inode_del_state pstate args st = Some (status, st')" and "made_here boot st"
  shows "made_here boot st'"
  using assms
  by (auto simp: cache_inode_del_state_def made_here_lock Let_def split: option.splits bind_splits if_splits
      dest!: Get_Pointer_here(1) [where boot = boot] State_Del_here [where boot = boot]
      intro!: reset_state_here unlink_state_here)

lemma cache_inode_del_state_by_key_here:
  assumes "cache_inode_del_state_by_key other args st = Some (status, st')" and "made_here boot st"
  shows "made_here boot st'"
  using assms
  by (auto simp: cache_inode_del_state_by_key_def made_here_lock Let_def split: option.splits bind_splits if_splits
      dest!: Get_Pointer_here(1) [where boot = boot] State_Del_here [where boot = boot]
      intro!: reset_state_here unlink_state_here)

lemma cache_inode_update_state_here:
  assumes "cache_inode_update_state (Some p) args st = Some (status, st')" and "made_here boot st" and "p \<in> ran (state_map st)"
  shows "made_here boot st'"
proof -
  let ?id = "stateid_other (states st p)"
  have inv: "state_inv st" and own: "powner (states st p) \<noteq> None" using assms(2,3) by (auto simp: made_here_def)
  obtain ht where h: "HashTable_Get (ht_state_id st) ?id = Some (get_rc (state_map st ?id), state_map st ?id, ht)"
    "state_inv (st\<lparr>ht_state_id := ht\<rparr>)" "table_map ht = state_map st" by (rule HashTable_Get_state [OF inv])
  have "made_here boot (st\<lparr>ht_state_id := ht\<rparr>)" by (rule made_here_frame [OF assms(2) h(2)]) (simp_all add: h(3))
  moreover from made_here_upd [OF this] own
  have "made_here boot (st\<lparr>ht_state_id := ht, states := (states st)(q := states st p)\<rparr>)" for q
    by (auto simp: upd_state_def dest!: meta_spec [of _ q] meta_spec [of _ "\<lambda>s. states st p"])
  ultimately show ?thesis using assms(1,2) h(1)
    by (cases "state_map st ?id")
      (auto simp: cache_inode_update_state_def nfs4_State_Update_def get_rc_def split: if_splits)
qed

lemma nfs4_State_Get_here:
  assumes "nfs4_State_Get other st = Some (b, s, st')" and "made_here boot st"
  shows "made_here boot st'"
proof -
  have "state_inv st" using assms(2) by (simp add: made_here_def)
  from nfs4_State_Get_spec [OF this, of other] assms(1) made_here_same [OF assms(2), of st'] show ?thesis by auto
qed

lemma states_reach_made_here: "states_reach boot st \<Longrightarrow> made_here boot st"
proof (induction rule: states_reach.induct)
  case (start d attr_rc codes m st)
  then have "HashTable_Init attr_rc codes (state_id_param d) m = (Some (ht_state_id st), ss_mem st)"
    by (auto simp: nfs4_Init_state_id_def split: prod.splits option.splits)
  from HashTable_Init_inv [OF this state_id_param_good [OF start(1)]] show ?case
    by (simp add: made_here_def state_inv_def)
next
  case (get st other args status r st')
  then show ?case
    by (auto simp: cache_inode_get_state_def split: if_splits bind_splits
        dest!: Get_Pointer_here(1) [where boot = boot])
next
  case (elsewhere st ss m oo es)
  then show ?case by (auto simp: made_here_def state_inv_def intro: table_inv_mono)
qed (blast intro: cache_inode_add_state_here cache_inode_update_state_here cache_inode_del_state_here
    cache_inode_del_state_by_key_here nfs4_State_Get_here)+

text \<open>
  C32. Whatever calls were made before, \<^verbatim>\<open>nfs4_Check_Stateid\<close> answers and never answers \<open>NFS4ERR_STALE_STATEID\<close>:
  a state id of an earlier instance of the server is not in the table and is treated as an unknown one. Missing
  arguments and files that are not regular are a server fault. An unknown state id, and a known one whose client
  is asked for and not found, is refused only if the configuration says so (\<open>return_bad_stateid\<close>) and accepted
  otherwise; every other known state id is accepted.
\<close>

theorem check_stateid_never_stale:
  assumes "states_reach boot st" and "client_inv cl" and "debug \<Longrightarrow> pstate \<noteq> None"
  shows "\<exists>r st' cl'. nfs4_Check_Stateid debug return_bad boot pstate pentry clientid (st, cl) = Some (r, st', cl') \<and>
    state_inv st' \<and> client_inv cl' \<and> state_map st' = state_map st \<and> r \<noteq> NFS4ERR_STALE_STATEID \<and>
    r = (case (pstate, pentry) of
           (Some other, Some e) \<Rightarrow>
             if ce_type e \<noteq> REGULAR_FILE then NFS4ERR_SERVERFAULT
             else if (case state_map st other of
                 None \<Rightarrow> True
               | Some p \<Rightarrow> clientid = 0 \<and> \<not> client_found (oo_clientid (open_owners st (the (powner (states st p))))) cl)
             then (if return_bad then NFS4ERR_BAD_STATEID else NFS4_OK)
             else NFS4_OK
         | _ \<Rightarrow> NFS4ERR_SERVERFAULT)"
proof (cases "\<exists>other e. pstate = Some other \<and> pentry = Some e \<and> ce_type e = REGULAR_FILE")
  case False
  have "state_inv st" using states_reach_made_here [OF assms(1)] by (simp add: made_here_def)
  with False assms(2,3) show ?thesis
    by (cases pstate; cases pentry) (auto simp: nfs4_Check_Stateid_def)
next
  case True
  then obtain other e where a: "pstate = Some other" "pentry = Some e" "ce_type e = REGULAR_FILE" by blast
  note here = states_reach_made_here [OF assms(1), unfolded made_here_def]
  have known: "powner (states st p) \<noteq> None" "le_word (take 2 (bytes_list other)) = boot_digest boot"
    if "state_map st other = Some p" for p using here that by (blast intro: ranI)+
  from nfs4_Check_Stateid_spec [OF conjunct1 [OF here] assms(2) a(3) known(1),
      where other = other and debug = debug and return_bad = return_bad and boot = boot and clientid = clientid] a known(2)
  show ?thesis by (cases "state_map st other") (auto split: if_splits)
qed

text \<open>An instance: a server that made one state and knows no client; the state is found, its client is not.\<close>

lemma small_states_reach: "states_reach boot small_states"
proof -
  obtain ht m where t: "(new_table (state_id_param small_dims) mem_ok :: (12 bytes, addr) hash_table \<times> mem) = (ht, m)"
    by (cases "new_table (state_id_param small_dims) mem_ok :: (12 bytes, addr) hash_table \<times> mem") auto
  have "HashTable_Init 0 (\<lambda>i. codes_ok) (state_id_param small_dims) mem_ok = (Some ht, m)"
    using new_table(1) [OF state_id_param_good [OF small_dims_nonzero(1)] mem_ok_good _ _ t] small_dims_nonzero
    by (simp add: state_id_param_def)
  then have "nfs4_Init_state_id 0 (\<lambda>i. codes_ok) small_dims mem_ok = (0, Some (ht_state_id small_states), ss_mem small_states)"
    using t by (simp add: nfs4_Init_state_id_def small_states_def)
  with small_dims_nonzero(1) show ?thesis by (rule states_reach.start)
qed

lemma small_states_added:
  obtains other p st' where "states_reach 9 (st' :: unit state_store)" "state_map st' other = Some p"
    "powner (states st' p) = Some 3"
proof -
  note i = small_states_ok small_states_inv(3)
  obtain r pool m where g: "GET_PREALLOC 4 (pool_state_v4 small_states) (ss_mem small_states) = (r, pool, m)"
    by (cases "GET_PREALLOC 4 (pool_state_v4 small_states) (ss_mem small_states)") auto
  obtain p where p: "r = Some p" using GET_PREALLOC_good [OF g i(5)] by auto
  obtain st1 where h: "held (\<lambda>e. []) 1 st1" "pool_state_v4 st1 = pool" "ss_mem st1 = m" "ht_state_id st1 = ht_state_id small_states"
    and b: "nfs4_BuildStateId_Other (\<lambda>h. Some 7) 9 True (Some (entries st1 1)) (Some (open_owners st1 3)) =
      nfs4_BuildStateId_Other (\<lambda>h. Some 7) 9 True (Some (entries small_states 1)) (Some (open_owners small_states 3))"
    and run: "cache_inode_add_state (\<lambda>h. Some 7) 9 4 (Some 1) CACHE_INODE_STATE_SHARE (Some no_data) (Some 3) True small_states =
      add_first_state (\<lambda>h. Some 7) 9 CACHE_INODE_STATE_SHARE no_data 3 1 p st1"
    by (rule add_state_run [OF i(1,2) g, where e = 1 and digest = "\<lambda>h. Some 7" and boot = 9 and ty = CACHE_INODE_STATE_SHARE
          and d = no_data and own = 3]) (use p in simp)
  obtain other where o: "nfs4_BuildStateId_Other (\<lambda>h. Some 7) 9 True (Some (entries small_states 1)) (Some (open_owners small_states 3)) =
      Some other" using build_regular [of "entries small_states 1" "\<lambda>h. Some 7" 7] i(2) by blast
  have good: "mem_good (ss_mem st1)" "table_room (ht_state_id st1)"
    using i(3,5) GET_PREALLOC_fails [OF g] h(3,4) by (simp_all add: mem_good_def)
  have "p < brk (ss_mem st1)" "p \<notin> set (pool_state_v4 st1)"
    using store_pool_fresh [OF i(1) g [unfolded p]] h(2,3) by simp_all
  from add_first_state_spec [OF h(1) _ this, of "\<lambda>h. Some 7" 9 CACHE_INODE_STATE_SHARE no_data 3] b o good run obtain r' st' where
    "cache_inode_add_state (\<lambda>h. Some 7) 9 4 (Some 1) CACHE_INODE_STATE_SHARE (Some no_data) (Some 3) True small_states =
       Some (CACHE_INODE_SUCCESS, r', st')"
    "state_map st' other = Some p" "powner (states st' p) = Some 3" by (auto simp: entered_def)
  with states_reach.add [OF small_states_reach this(1)] that show thesis by blast
qed

theorem check_stateid_never_stale_witness:
  "\<exists>(st :: unit state_store) other p st' st'' cl' cl''. state_map st other = Some p \<and>
     nfs4_Check_Stateid False True 9 (Some other) (Some (entries small_states 1)) 0 (st, small_clients) =
       Some (NFS4ERR_BAD_STATEID, st', cl') \<and>
     nfs4_Check_Stateid False True 9 (Some other) (Some (entries small_states 1)) 5 (st, small_clients) =
       Some (NFS4_OK, st'', cl'')"
proof -
  obtain other p and st :: "unit state_store" where s: "states_reach 9 st" "state_map st other = Some p"
    "powner (states st p) = Some 3" by (rule small_states_added)
  have "client_inv small_clients" using small_clients_ok(1) by (simp add: client_ok_def)
  note t = check_stateid_never_stale [OF s(1) this, of False "Some other" True "Some (entries small_states 1)"]
  have "\<not> client_found c small_clients" for c by (simp add: client_found_def small_clients_ok(2))
  with t [of 0] t [of 5] s(2) small_states_ok(2) show ?thesis by auto
qed

end
