(* ===== verification/LRU_List.thy ===== *)
theory LRU_List
  imports Hash_Table Linked_List
begin

text \<open>
  The LRU lists of \<^verbatim>\<open>LRU/LRU_List.c\<close>: a doubly linked list from the least (\<open>LRU\<close>) to the most recently added entry
  (\<open>MRU\<close>), with counters of its entries and of the invalid ones. Entries are added at the MRU end, marked invalid,
  and taken out by a garbage collection that never looks at the MRU entry.

  The entries live in a heap; the free ones are the list \<open>entry_prealloc\<close>, as in \<open>Stuff_Alloc\<close>. The callbacks
  (\<open>clean_entry\<close> and the functions given to \<open>LRU_invalidate_by_function\<close> and \<open>LRU_apply_function\<close>) get a pointer to
  the entry, of which those of the server read \<open>buffdata\<close>; they act on a state \<open>'w\<close> of their own, which
  includes their second parameter, and \<open>None\<close> says that they do not return. A NULL dereference is \<open>None\<close> too.
\<close>

datatype LRU_List_state = LRU_ENTRY_BLANK | LRU_ENTRY_VALID | LRU_ENTRY_INVALID

datatype lru_status = LRU_LIST_SUCCESS | LRU_LIST_MALLOC_ERROR | LRU_LIST_EMPTY_LIST | LRU_LIST_BAD_RELEASE_ENTRY

definition LRU_LIST_SET_INVALID :: int where
  "LRU_LIST_SET_INVALID = 0"

definition LRU_LIST_DO_NOT_SET_INVALID :: int where
  "LRU_LIST_DO_NOT_SET_INVALID = 1"

record lru_data =
  pdata :: ptr
  len :: u64

record lru_entry =
  lr_next :: ptr
  lr_prev :: ptr
  valid_state :: LRU_List_state
  buffdata :: lru_data

type_synonym 'w lru_callback = "lru_data \<Rightarrow> 'w \<Rightarrow> (int \<times> 'w) option"
type_synonym lru_heap = "addr \<Rightarrow> lru_entry"

record 'w lru_parameter =
  nb_entry_prealloc :: u32
  nb_call_gc_invalid :: u32
  clean_entry :: "'w lru_callback"

record 'w lru_list =
  LRU :: ptr
  MRU :: ptr
  nb_entry :: u32
  nb_invalid :: u32
  nb_call_gc :: u32
  lparameter :: "'w lru_parameter"
  entry_prealloc :: "addr list"

section \<open>Operations\<close>

definition LRU_Init :: "'w lru_parameter \<Rightarrow> mem \<Rightarrow> lru_status \<times> 'w lru_list option \<times> mem" where
  "LRU_Init lru_param m =
     (case Mem_Alloc 1 m of
        (None, m) \<Rightarrow> (LRU_LIST_MALLOC_ERROR, None, m)
      | (Some _, m) \<Rightarrow>
          let (pool, m) = STUFF_PREALLOC (nb_entry_prealloc lru_param) m in
          if pool = [] then (LRU_LIST_MALLOC_ERROR, None, m)
          else (LRU_LIST_SUCCESS,
                Some \<lparr>LRU = None, MRU = None, nb_entry = 0, nb_invalid = 0, nb_call_gc = 0, lparameter = lru_param,
                      entry_prealloc = pool\<rparr>, m))"

definition LRU_invalidate :: "'w lru_list \<Rightarrow> addr \<Rightarrow> lru_heap \<Rightarrow> lru_status \<times> 'w lru_list \<times> lru_heap" where
  "LRU_invalidate l pentry h =
     (if valid_state (h pentry) \<noteq> LRU_ENTRY_INVALID
      then (LRU_LIST_SUCCESS, l\<lparr>nb_invalid := nb_invalid l + 1\<rparr>,
            h(pentry := (h pentry)\<lparr>valid_state := LRU_ENTRY_INVALID\<rparr>))
      else (LRU_LIST_SUCCESS, l, h))"

definition LRU_new_entry :: "'w lru_list \<Rightarrow> lru_heap \<Rightarrow> mem \<Rightarrow> lru_status \<times> ptr \<times> 'w lru_list \<times> lru_heap \<times> mem" where
  "LRU_new_entry l h m =
     (let (new_entry, pool, m) = GET_PREALLOC (nb_entry_prealloc (lparameter l)) (entry_prealloc l) m;
          l = l\<lparr>entry_prealloc := pool\<rparr>
      in case new_entry of
           None \<Rightarrow> (LRU_LIST_MALLOC_ERROR, None, l, h, m)
         | Some p \<Rightarrow>
             let h = h(p := (h p)\<lparr>valid_state := LRU_ENTRY_VALID, lr_next := None\<rparr>);
                 (l, h) =
                   (case MRU l of
                      None \<Rightarrow> (l\<lparr>LRU := Some p\<rparr>, h(p := (h p)\<lparr>lr_prev := None\<rparr>))
                    | Some q \<Rightarrow>
                        let h = h(p := (h p)\<lparr>lr_prev := Some q\<rparr>)
                        in (l, h(q := (h q)\<lparr>lr_next := Some p\<rparr>)));
                 l = l\<lparr>nb_entry := nb_entry l + 1, nb_call_gc := nb_call_gc l + 1, MRU := Some p\<rparr>
             in (LRU_LIST_SUCCESS, Some p, l, h, m))"

text \<open>The body of the loop of \<^verbatim>\<open>LRU_gc_invalid\<close> for an invalid entry, after \<open>clean_entry\<close>.\<close>

definition gc_release :: "addr \<Rightarrow> 'w lru_list \<Rightarrow> lru_heap \<Rightarrow> 'w lru_list \<times> lru_heap" where
  "gc_release p l h =
     (let (l, h) = (case lr_prev (h p) of
                      Some q \<Rightarrow> (l, h(q := (h q)\<lparr>lr_next := lr_next (h p)\<rparr>))
                    | None \<Rightarrow> (l\<lparr>LRU := lr_next (h p)\<rparr>, h));
          h = (case lr_next (h p) of Some n \<Rightarrow> h(n := (h n)\<lparr>lr_prev := lr_prev (h p)\<rparr>) | None \<Rightarrow> h)
      in (l\<lparr>nb_entry := nb_entry l - 1, nb_invalid := nb_invalid l - 1,
            entry_prealloc := RELEASE_PREALLOC p (entry_prealloc l)\<rparr>, h))"

partial_function (option) gc_loop ::
  "ptr \<Rightarrow> lru_status \<Rightarrow> 'w lru_list \<Rightarrow> lru_heap \<Rightarrow> 'w \<Rightarrow> (lru_status \<times> 'w lru_list \<times> lru_heap \<times> 'w) option" where
  "gc_loop pentry rc l h w =
     (if pentry = MRU l then Some (rc, l, h, w)
      else case pentry of
        None \<Rightarrow> None
      | Some p \<Rightarrow>
          let pentrynext = lr_next (h p) in
          if valid_state (h p) = LRU_ENTRY_INVALID then
            (case clean_entry (lparameter l) (buffdata (h p)) w of
               None \<Rightarrow> None
             | Some (c, w) \<Rightarrow>
                 let (l', h') = gc_release p l h
                 in gc_loop pentrynext (if c \<noteq> 0 then LRU_LIST_BAD_RELEASE_ENTRY else rc) l' h' w)
          else gc_loop pentrynext rc l h w)"

definition LRU_gc_invalid ::
  "'w lru_list option \<Rightarrow> lru_heap \<Rightarrow> 'w \<Rightarrow> (lru_status \<times> 'w lru_list option \<times> lru_heap \<times> 'w) option" where
  "LRU_gc_invalid plru h w =
     (case plru of
        None \<Rightarrow> Some (LRU_LIST_EMPTY_LIST, None, h, w)
      | Some l \<Rightarrow>
          if nb_invalid l = 0 then Some (LRU_LIST_SUCCESS, Some l, h, w)
          else case MRU l of
            None \<Rightarrow> Some (LRU_LIST_EMPTY_LIST, Some l, h, w)
          | Some mru \<Rightarrow>
              if lr_prev (h mru) = None then Some (LRU_LIST_SUCCESS, Some l, h, w)
              else if nb_call_gc l < nb_call_gc_invalid (lparameter l) then Some (LRU_LIST_SUCCESS, Some l, h, w)
              else map_option (\<lambda>(rc, l, h, w). (rc, Some l, h, w)) (gc_loop (LRU l) LRU_LIST_SUCCESS l h w))"

text \<open>
  The \<^verbatim>\<open>break\<close> of the loop of \<^verbatim>\<open>LRU_invalidate_by_function\<close> is the branch where \<open>LRU_invalidate\<close> fails.
\<close>

partial_function (option) invalidate_loop ::
  "'w lru_callback \<Rightarrow> ptr \<Rightarrow> 'w lru_list \<Rightarrow> lru_heap \<Rightarrow> 'w \<Rightarrow> (lru_status \<times> 'w lru_list \<times> lru_heap \<times> 'w) option" where
  "invalidate_loop testfunc pentry l h w =
     (if pentry = MRU l then Some (LRU_LIST_SUCCESS, l, h, w)
      else case pentry of
        None \<Rightarrow> None
      | Some p \<Rightarrow>
          let pentry_next = lr_next (h p) in
          if valid_state (h p) \<noteq> LRU_ENTRY_INVALID then
            (case testfunc (buffdata (h p)) w of
               None \<Rightarrow> None
             | Some (r, w) \<Rightarrow>
                 if r = LRU_LIST_SET_INVALID then
                   let (rc, l', h') = LRU_invalidate l p h in
                   if rc \<noteq> LRU_LIST_SUCCESS then Some (rc, l', h', w)
                   else invalidate_loop testfunc pentry_next l' h' w
                 else invalidate_loop testfunc pentry_next l h w)
          else invalidate_loop testfunc pentry_next l h w)"

definition LRU_invalidate_by_function ::
  "'w lru_callback \<Rightarrow> 'w lru_list option \<Rightarrow> lru_heap \<Rightarrow> 'w \<Rightarrow>
   (lru_status \<times> 'w lru_list option \<times> lru_heap \<times> 'w) option" where
  "LRU_invalidate_by_function testfunc plru h w =
     (case plru of
        None \<Rightarrow> Some (LRU_LIST_EMPTY_LIST, None, h, w)
      | Some l \<Rightarrow>
          if nb_entry l = 0 then Some (LRU_LIST_SUCCESS, Some l, h, w)
          else case MRU l of
            None \<Rightarrow> Some (LRU_LIST_EMPTY_LIST, Some l, h, w)
          | Some mru \<Rightarrow>
              if lr_prev (h mru) = None then Some (LRU_LIST_SUCCESS, Some l, h, w)
              else map_option (\<lambda>(rc, l, h, w). (rc, Some l, h, w)) (invalidate_loop testfunc (LRU l) l h w))"

partial_function (option) apply_loop :: "'w lru_callback \<Rightarrow> ptr \<Rightarrow> lru_heap \<Rightarrow> 'w \<Rightarrow> 'w option" where
  "apply_loop myfunc pentry h w =
     (case pentry of
        None \<Rightarrow> Some w
      | Some p \<Rightarrow>
          if valid_state (h p) \<noteq> LRU_ENTRY_INVALID then
            (case myfunc (buffdata (h p)) w of
               None \<Rightarrow> None
             | Some (r, w) \<Rightarrow> if r = 0 then Some w else apply_loop myfunc (lr_prev (h p)) h w)
          else apply_loop myfunc (lr_prev (h p)) h w)"

definition LRU_apply_function ::
  "'w lru_callback \<Rightarrow> 'w lru_list option \<Rightarrow> lru_heap \<Rightarrow> 'w \<Rightarrow> (lru_status \<times> 'w) option" where
  "LRU_apply_function myfunc plru h w =
     (case plru of
        None \<Rightarrow> Some (LRU_LIST_EMPTY_LIST, w)
      | Some l \<Rightarrow>
          if nb_entry l = 0 then Some (LRU_LIST_SUCCESS, w)
          else case MRU l of
            None \<Rightarrow> Some (LRU_LIST_EMPTY_LIST, w)
          | Some mru \<Rightarrow>
              if lr_prev (h mru) = None then Some (LRU_LIST_SUCCESS, w)
              else map_option (\<lambda>w. (LRU_LIST_SUCCESS, w)) (apply_loop myfunc (lr_prev (h mru)) h w))"

section \<open>The invariant\<close>

text \<open>
  \<open>lru_ok xs l h\<close>: the list \<open>l\<close> in the heap \<open>h\<close> has the entries \<open>xs\<close>, from the LRU to the MRU, and its counters count
  them.
\<close>

abbreviation invalid :: "lru_heap \<Rightarrow> addr \<Rightarrow> bool" where
  "invalid h p \<equiv> valid_state (h p) = LRU_ENTRY_INVALID"

abbreviation lru_seg :: "lru_heap \<Rightarrow> ptr \<Rightarrow> addr list \<Rightarrow> bool" where
  "lru_seg h p xs \<equiv> seg lr_next lr_prev h None p xs None"

definition lru_ok :: "addr list \<Rightarrow> 'w lru_list \<Rightarrow> lru_heap \<Rightarrow> bool" where
  "lru_ok xs l h \<longleftrightarrow> lru_seg h (LRU l) xs \<and> MRU l = last_ptr None xs \<and> distinct xs \<and>
     nb_entry l = of_nat (length xs) \<and> nb_invalid l = of_nat (length (filter (invalid h) xs))"

lemma lru_ok_pool [simp]: "lru_ok xs (l\<lparr>entry_prealloc := pool\<rparr>) h = lru_ok xs l h"
  by (simp add: lru_ok_def)

interpretation lru: links lr_next lr_prev "\<lambda>p n. n\<lparr>lr_next := p\<rparr>" "\<lambda>p n. n\<lparr>lr_prev := p\<rparr>"
  by unfold_locales simp_all

abbreviation relink_lru :: "addr \<Rightarrow> lru_heap \<Rightarrow> lru_heap" where
  "relink_lru \<equiv> relink lr_next lr_prev (\<lambda>p n. n\<lparr>lr_next := p\<rparr>) (\<lambda>p n. n\<lparr>lr_prev := p\<rparr>)"

definition same_contents :: "addr set \<Rightarrow> lru_heap \<Rightarrow> lru_heap \<Rightarrow> bool" where
  "same_contents A h h' \<longleftrightarrow> (\<forall>p. valid_state (h' p) = valid_state (h p) \<and> buffdata (h' p) = buffdata (h p) \<and>
     (p \<notin> A \<longrightarrow> h' p = h p))"

lemma same_contents_refl [simp]: "same_contents A h h"
  by (simp add: same_contents_def)

lemma same_contents_trans:
  "same_contents A h h' \<Longrightarrow> same_contents B h' h'' \<Longrightarrow> B \<subseteq> A \<Longrightarrow> same_contents A h h''"
  unfolding same_contents_def by (metis subsetD)

text \<open>The two ends of a list.\<close>

lemma lru_ends:
  assumes "lru_ok xs l h"
  shows "LRU l = first_ptr xs None" and "MRU l = last_ptr None xs"
    and "xs \<noteq> [] \<Longrightarrow> lr_prev (h (last xs)) = last_ptr None (butlast xs)"
proof -
  have s: "lru_seg h (LRU l) xs" using assms by (simp add: lru_ok_def)
  show "LRU l = first_ptr xs None" using s by (rule seg_first)
  show "MRU l = last_ptr None xs" using assms by (simp add: lru_ok_def)
  show "lr_prev (h (last xs)) = last_ptr None (butlast xs)" if "xs \<noteq> []"
    using seg_node(2) [of lr_next lr_prev h None "LRU l" "butlast xs" "last xs" "[]" None] s that by simp
qed

lemma lru_next:
  assumes "lru_ok (ks @ p # zs) l h"
  shows "lr_next (h p) = first_ptr zs None"
  using assms by (auto simp: lru_ok_def dest: seg_node(1))

section \<open>Releasing one entry\<close>

lemma gc_release_eq:
  assumes "lr_prev (h p) \<noteq> Some p" and "lr_prev (h p) = None \<or> lr_prev (h p) \<noteq> lr_next (h p)" and "lr_next (h p) \<noteq> Some p"
  shows "gc_release p l h =
    (l\<lparr>LRU := (if lr_prev (h p) = None then lr_next (h p) else LRU l), nb_entry := nb_entry l - 1,
       nb_invalid := nb_invalid l - 1, entry_prealloc := p # entry_prealloc l\<rparr>, relink_lru p h)"
  using assms
  by (cases "lr_prev (h p)"; cases "lr_next (h p)")
     (auto simp: gc_release_def relink_def Let_def RELEASE_PREALLOC_def fun_upd_twist)

lemma gc_release_spec:
  assumes ok: "lru_ok (ks @ p # zs) l h" and "zs \<noteq> []" and "invalid h p"
  obtains l' h' where "gc_release p l h = (l', h')" and "lru_ok (ks @ zs) l' h'"
    and "same_contents (set (ks @ zs)) h h'" and "entry_prealloc l' = p # entry_prealloc l"
    and "MRU l' = MRU l" and "lparameter l' = lparameter l" and "nb_call_gc l' = nb_call_gc l"
proof -
  have s: "lru_seg h (LRU l) (ks @ p # zs)" and d: "distinct (ks @ p # zs)" using ok by (auto simp: lru_ok_def)
  note n = seg_node [OF s]
  note r = lru.relink_seg [OF s d]
  have nx: "lr_next (h p) = Some (hd zs)" using n(1) assms(2) by (cases zs) auto
  have hd: "hd zs \<in> set zs" using assms(2) by simp
  have pv: "lr_prev (h p) = None \<longleftrightarrow> ks = []" "\<And>q. lr_prev (h p) = Some q \<Longrightarrow> q \<in> set ks"
    using n(2) by (auto simp: last_ptr_def split: if_splits)
  have eq: "gc_release p l h = (l\<lparr>LRU := (if ks = [] then lr_next (h p) else LRU l), nb_entry := nb_entry l - 1,
      nb_invalid := nb_invalid l - 1, entry_prealloc := p # entry_prealloc l\<rparr>, relink_lru p h)"
    using gc_release_eq [of h p l] pv nx hd d by (cases "lr_prev (h p)") auto
  have c: "same_contents (set (ks @ zs)) h (relink_lru p h)"
    unfolding same_contents_def
  proof (intro allI)
    fix q
    show "valid_state (relink_lru p h q) = valid_state (h q) \<and> buffdata (relink_lru p h q) = buffdata (h q) \<and>
      (q \<notin> set (ks @ zs) \<longrightarrow> relink_lru p h q = h q)"
      using r(2) [of q] by (auto split: if_splits)
  qed
  then have "invalid (relink_lru p h) = invalid h" by (auto simp: same_contents_def)
  with r(1) ok assms(2,3) have "lru_ok (ks @ zs) (fst (gc_release p l h)) (relink_lru p h)"
    by (auto simp: eq lru_ok_def last_ptr_def)
  with c eq show thesis by (intro that [of "fst (gc_release p l h)" "relink_lru p h"]) auto
qed

section \<open>Garbage collection\<close>

text \<open>The calls of \<open>clean_entry\<close> on a sequence of entries, and the code they leave.\<close>

primrec clean_all :: "'w lru_callback \<Rightarrow> lru_data list \<Rightarrow> lru_status \<Rightarrow> 'w \<Rightarrow> (lru_status \<times> 'w) option" where
  "clean_all f [] rc w = Some (rc, w)"
| "clean_all f (d # ds) rc w =
     (case f d w of None \<Rightarrow> None
      | Some (c, w) \<Rightarrow> clean_all f ds (if c \<noteq> 0 then LRU_LIST_BAD_RELEASE_ENTRY else rc) w)"

lemma gc_loop_spec:
  assumes "lru_ok (ks @ ys @ [m]) l h"
  shows "\<exists>l' h'. (\<forall>rc w. gc_loop (first_ptr (ys @ [m]) None) rc l h w =
      map_option (\<lambda>(rc, w). (rc, l', h', w))
        (clean_all (clean_entry (lparameter l)) (map (\<lambda>p. buffdata (h p)) (filter (invalid h) ys)) rc w)) \<and>
    lru_ok (ks @ filter (\<lambda>p. \<not> invalid h p) ys @ [m]) l' h' \<and> same_contents (set (ks @ ys @ [m])) h h' \<and>
    entry_prealloc l' = rev (filter (invalid h) ys) @ entry_prealloc l \<and> lparameter l' = lparameter l \<and>
    nb_call_gc l' = nb_call_gc l"
  using assms
proof (induction ys arbitrary: ks l h)
  case Nil
  then have "MRU l = Some m" by (simp add: lru_ok_def last_ptr_def)
  with Nil show ?case by (intro exI [of _ l] exI [of _ h]) (simp add: gc_loop.simps)
next
  case (Cons p ys)
  have ok: "lru_ok (ks @ p # (ys @ [m])) l h" using Cons.prems by simp
  have nx: "lr_next (h p) = first_ptr (ys @ [m]) None" using ok by (rule lru_next)
  have "MRU l = Some m" "p \<noteq> m" using ok by (auto simp: lru_ok_def last_ptr_def)
  then have pm: "Some p \<noteq> MRU l" by simp
  show ?case
  proof (cases "invalid h p")
    case False
    have "gc_loop (first_ptr ((p # ys) @ [m]) None) rc l h w = gc_loop (first_ptr (ys @ [m]) None) rc l h w" for rc w
      using pm False nx by (subst gc_loop.simps) simp
    moreover have "lru_ok ((ks @ [p]) @ ys @ [m]) l h" using Cons.prems by simp
    note Cons.IH [OF this]
    ultimately show ?thesis using False by simp
  next
    case True
    have ne: "ys @ [m] \<noteq> []" by simp
    obtain l1 h1 where r: "gc_release p l h = (l1, h1)"
      "lru_ok (ks @ ys @ [m]) l1 h1" "same_contents (set (ks @ ys @ [m])) h h1" "entry_prealloc l1 = p # entry_prealloc l"
      "lparameter l1 = lparameter l" "nb_call_gc l1 = nb_call_gc l"
      using gc_release_spec [OF ok ne True] by blast
    have same: "\<And>q. valid_state (h1 q) = valid_state (h q)" "\<And>q. buffdata (h1 q) = buffdata (h q)"
      using r(3) by (auto simp: same_contents_def)
    from Cons.IH [OF r(2), unfolded same r(4-6)] obtain l' h' where i:
      "\<forall>rc w. gc_loop (first_ptr (ys @ [m]) None) rc l1 h1 w = map_option (\<lambda>(rc, w). (rc, l', h', w))
         (clean_all (clean_entry (lparameter l)) (map (\<lambda>p. buffdata (h p)) (filter (invalid h) ys)) rc w)"
      "lru_ok (ks @ filter (\<lambda>p. \<not> invalid h p) ys @ [m]) l' h'" "same_contents (set (ks @ ys @ [m])) h1 h'"
      "entry_prealloc l' = rev (filter (invalid h) ys) @ p # entry_prealloc l" "lparameter l' = lparameter l"
      "nb_call_gc l' = nb_call_gc l" by blast
    have "gc_loop (first_ptr ((p # ys) @ [m]) None) rc l h w = map_option (\<lambda>(rc, w). (rc, l', h', w))
        (clean_all (clean_entry (lparameter l)) (map (\<lambda>p. buffdata (h p)) (filter (invalid h) (p # ys))) rc w)" for rc w
      using pm True nx by (subst gc_loop.simps) (simp add: r(1) i(1) split: option.splits)
    moreover have "same_contents (set (ks @ (p # ys) @ [m])) h h'"
      using r(3) i(3) by (auto simp: same_contents_def)
    ultimately show ?thesis using True i by (intro exI [of _ l'] exI [of _ h']) simp
  qed
qed

section \<open>Adding and marking entries\<close>

lemma LRU_invalidate_spec:
  assumes "LRU_invalidate l p h = (rc, l', h')"
  shows "rc = LRU_LIST_SUCCESS" and "h' = h(p := (h p)\<lparr>valid_state := LRU_ENTRY_INVALID\<rparr>)"
    and "lru_ok xs l h \<Longrightarrow> p \<in> set xs \<Longrightarrow> lru_ok xs l' h'"
    and "LRU l' = LRU l" and "MRU l' = MRU l" and "lparameter l' = lparameter l" and "entry_prealloc l' = entry_prealloc l"
proof -
  show "rc = LRU_LIST_SUCCESS" "LRU l' = LRU l" "MRU l' = MRU l" "lparameter l' = lparameter l" "entry_prealloc l' = entry_prealloc l"
    using assms by (auto simp: LRU_invalidate_def split: if_splits)
  show h': "h' = h(p := (h p)\<lparr>valid_state := LRU_ENTRY_INVALID\<rparr>)"
    using assms by (auto simp: LRU_invalidate_def split: if_splits)
  assume ok: "lru_ok xs l h" and "p \<in> set xs"
  then obtain ys zs where xs: "xs = ys @ p # zs" by (auto simp: in_set_conv_decomp)
  have d: "p \<notin> set ys" "p \<notin> set zs" using ok xs by (auto simp: lru_ok_def)
  then have "filter (invalid h') ys = filter (invalid h) ys" "filter (invalid h') zs = filter (invalid h) zs"
    by (auto simp: h' intro!: filter_cong)
  moreover have "lru_seg h' (LRU l) xs = lru_seg h (LRU l) xs" by (rule seg_cong) (simp add: h')
  ultimately show "lru_ok xs l' h'"
    using ok assms xs by (auto simp: lru_ok_def LRU_invalidate_def h' split: if_splits)
qed

lemma LRU_new_entry_spec:
  assumes ok: "lru_ok xs l h" and own: "owned xs (entry_prealloc l) m" and run: "LRU_new_entry l h m = (rc, r, l', h', m')"
  shows "lparameter l' = lparameter l" and "brk m \<le> brk m'"
    and "r = None \<Longrightarrow> rc = LRU_LIST_MALLOC_ERROR \<and> h' = h \<and> lru_ok xs l' h' \<and> owned xs (entry_prealloc l') m'"
    and "\<And>p. r = Some p \<Longrightarrow> rc = LRU_LIST_SUCCESS \<and> p \<notin> set xs \<and> lru_ok (xs @ [p]) l' h' \<and>
      owned (xs @ [p]) (entry_prealloc l') m' \<and> valid_state (h' p) = LRU_ENTRY_VALID \<and>
      (\<forall>q. q \<noteq> p \<longrightarrow> valid_state (h' q) = valid_state (h q) \<and> buffdata (h' q) = buffdata (h q))"
proof -
  obtain q pool m1 where g: "GET_PREALLOC (nb_entry_prealloc (lparameter l)) (entry_prealloc l) m = (q, pool, m1)"
    by (cases "GET_PREALLOC (nb_entry_prealloc (lparameter l)) (entry_prealloc l) m") auto
  note s = GET_PREALLOC_spec [OF own g]
  have m: "MRU l = last_ptr None xs" using ok by (simp add: lru_ok_def)
  have r: "r = q" "lparameter l' = lparameter l" "m' = m1" "entry_prealloc l' = pool"
    using run g by (auto simp: LRU_new_entry_def Let_def split: option.splits)
  then show "lparameter l' = lparameter l" "brk m \<le> brk m'" using s(1) by auto
  show "rc = LRU_LIST_MALLOC_ERROR \<and> h' = h \<and> lru_ok xs l' h' \<and> owned xs (entry_prealloc l') m'" if "r = None"
  proof -
    have "l' = l\<lparr>entry_prealloc := pool\<rparr>" "h' = h" "rc = LRU_LIST_MALLOC_ERROR"
      using that run g r by (auto simp: LRU_new_entry_def)
    with s(2) r ok show ?thesis by simp
  qed
  fix p
  assume "r = Some p"
  with r have q: "q = Some p" by simp
  have new: "p \<notin> set xs" "owned (xs @ [p]) pool m1" using s(3) [OF q] by (auto simp: owned_def)
  have l: "MRU l = (if xs = [] then None else Some (last xs))" using m by (simp add: last_ptr_def)
  have lp: "xs \<noteq> [] \<Longrightarrow> last xs \<noteq> p" using new(1) last_in_set by fastforce
  have hp: "h' = (if xs = [] then h(p := (h p)\<lparr>valid_state := LRU_ENTRY_VALID, lr_next := None, lr_prev := None\<rparr>)
     else h(p := (h p)\<lparr>valid_state := LRU_ENTRY_VALID, lr_next := None, lr_prev := Some (last xs)\<rparr>,
            last xs := (h (last xs))\<lparr>lr_next := Some p\<rparr>))"
    and l': "LRU l' = (if xs = [] then Some p else LRU l)" "MRU l' = Some p" "nb_entry l' = nb_entry l + 1"
      "nb_invalid l' = nb_invalid l" "rc = LRU_LIST_SUCCESS"
    using run g q l lp by (auto simp: LRU_new_entry_def Let_def split: if_splits)
  have "lru_seg h' (LRU l') (xs @ [p])"
    unfolding l' by (rule lru.seg_snoc [where h = h]) (use ok new lp in \<open>auto simp: lru_ok_def hp last_ptr_def\<close>)
  moreover have v: "valid_state (h' u) = (if u = p then LRU_ENTRY_VALID else valid_state (h u))"
    and b: "buffdata (h' u) = buffdata (h u)" for u using lp by (auto simp: hp)
  moreover have "filter (invalid h') xs = filter (invalid h) xs" using new(1) by (auto simp: v intro!: filter_cong)
  ultimately have "lru_ok (xs @ [p]) l' h'" using ok l' new(1) by (auto simp: lru_ok_def)
  with l'(5) new r(3,4) v b
  show "rc = LRU_LIST_SUCCESS \<and> p \<notin> set xs \<and> lru_ok (xs @ [p]) l' h' \<and> owned (xs @ [p]) (entry_prealloc l') m' \<and>
    valid_state (h' p) = LRU_ENTRY_VALID \<and>
    (\<forall>q. q \<noteq> p \<longrightarrow> valid_state (h' q) = valid_state (h q) \<and> buffdata (h' q) = buffdata (h q))" by simp
qed

section \<open>What the walks do\<close>

text \<open>The three walks look at the entries before the MRU when there are at least two entries.\<close>

lemma lru_guards:
  assumes "lru_ok xs l h" and "length xs < 2 ^ 32"
  shows "nb_entry l = 0 \<longleftrightarrow> xs = []" and "nb_invalid l = 0 \<longleftrightarrow> filter (invalid h) xs = []"
    and "MRU l = (if xs = [] then None else Some (last xs))"
    and "xs \<noteq> [] \<Longrightarrow> lr_prev (h (last xs)) = None \<longleftrightarrow> butlast xs = []"
proof -
  have "length (filter (invalid h) xs) < 2 ^ 32" using assms(2) length_filter_le le_less_trans by blast
  then show "nb_entry l = 0 \<longleftrightarrow> xs = []" "nb_invalid l = 0 \<longleftrightarrow> filter (invalid h) xs = []"
    using assms by (simp_all add: lru_ok_def of_nat_u32_eq_0_iff)
  show "MRU l = (if xs = [] then None else Some (last xs))" using assms(1) by (simp add: lru_ok_def last_ptr_def)
  show "lr_prev (h (last xs)) = None \<longleftrightarrow> butlast xs = []" if "xs \<noteq> []" using lru_ends(3) [OF assms(1) that] by simp
qed

lemma lru_single: "xs \<noteq> [] \<Longrightarrow> butlast xs = [] \<Longrightarrow> xs = [last xs]"
  by (metis append_butlast_last_id append_Nil)

definition gc_keeps :: "lru_heap \<Rightarrow> addr list \<Rightarrow> addr list" where
  "gc_keeps h xs = (if xs = [] then [] else filter (\<lambda>p. \<not> invalid h p) (butlast xs) @ [last xs])"

definition gc_drops :: "lru_heap \<Rightarrow> addr list \<Rightarrow> addr list" where
  "gc_drops h xs = filter (invalid h) (butlast xs)"

lemma gc_nothing: "filter (invalid h) xs = [] \<or> butlast xs = [] \<Longrightarrow> gc_keeps h xs = xs \<and> gc_drops h xs = []"
  by (cases xs rule: rev_cases) (auto simp: gc_keeps_def gc_drops_def filter_empty_conv)

text \<open>A collection that is not due, or has nothing to do, changes nothing.\<close>

definition gc_idle :: "'w lru_list \<Rightarrow> bool" where
  "gc_idle l \<longleftrightarrow> nb_invalid l = 0 \<or> nb_call_gc l < nb_call_gc_invalid (lparameter l)"

lemma LRU_gc_idle:
  assumes "lru_ok xs l h" and "gc_idle l \<or> butlast xs = []"
  shows "LRU_gc_invalid (Some l) h w = Some (LRU_LIST_SUCCESS, Some l, h, w)"
proof (cases "xs = []")
  case True
  with assms(1) show ?thesis by (simp add: LRU_gc_invalid_def lru_ok_def)
next
  case False
  with lru_ends(2,3) [OF assms(1)] assms(2) show ?thesis
    by (auto simp: LRU_gc_invalid_def gc_idle_def last_ptr_def)
qed

lemma LRU_gc_run:
  assumes "lru_ok xs l h" and "\<not> gc_idle l"
  shows "\<exists>l' h'. (\<forall>w. LRU_gc_invalid (Some l) h w = map_option (\<lambda>(rc, w). (rc, Some l', h', w))
      (clean_all (clean_entry (lparameter l)) (map (\<lambda>p. buffdata (h p)) (gc_drops h xs)) LRU_LIST_SUCCESS w)) \<and>
    lru_ok (gc_keeps h xs) l' h' \<and> same_contents (set xs) h h' \<and>
    entry_prealloc l' = rev (gc_drops h xs) @ entry_prealloc l \<and> lparameter l' = lparameter l \<and> nb_call_gc l' = nb_call_gc l"
proof (cases "butlast xs = []")
  case True
  then show ?thesis using gc_nothing [of h xs] LRU_gc_idle [OF assms(1)] assms(1) by (intro exI [of _ l] exI [of _ h]) simp
next
  case False
  then have ne: "xs \<noteq> []" by auto
  have "LRU_gc_invalid (Some l) h w =
      map_option (\<lambda>(rc, l, h, w). (rc, Some l, h, w)) (gc_loop (first_ptr xs None) LRU_LIST_SUCCESS l h w)" for w
    using False ne assms(2) lru_ends [OF assms(1)] by (auto simp: LRU_gc_invalid_def gc_idle_def last_ptr_def)
  moreover obtain l' h' where "\<forall>rc w. gc_loop (first_ptr xs None) rc l h w = map_option (\<lambda>(rc, w). (rc, l', h', w))
        (clean_all (clean_entry (lparameter l)) (map (\<lambda>p. buffdata (h p)) (gc_drops h xs)) rc w)"
    and "lru_ok (gc_keeps h xs) l' h'" "same_contents (set xs) h h'"
      "entry_prealloc l' = rev (gc_drops h xs) @ entry_prealloc l" "lparameter l' = lparameter l" "nb_call_gc l' = nb_call_gc l"
    using gc_loop_spec [of "[]" "butlast xs" "last xs" l h] assms(1) ne by (auto simp: gc_keeps_def gc_drops_def)
  ultimately show ?thesis
    by (intro exI [of _ l'] exI [of _ h']) (simp add: option.map_comp comp_def split_def)
qed

lemma LRU_gc_spec:
  assumes "lru_ok xs l h" and "length xs < 2 ^ 32" and "nb_call_gc_invalid (lparameter l) \<le> nb_call_gc l"
  shows "\<exists>l' h'. (\<forall>w. LRU_gc_invalid (Some l) h w = map_option (\<lambda>(rc, w). (rc, Some l', h', w))
      (clean_all (clean_entry (lparameter l)) (map (\<lambda>p. buffdata (h p)) (gc_drops h xs)) LRU_LIST_SUCCESS w)) \<and>
    lru_ok (gc_keeps h xs) l' h' \<and> same_contents (set xs) h h' \<and>
    entry_prealloc l' = rev (gc_drops h xs) @ entry_prealloc l \<and> lparameter l' = lparameter l \<and> nb_call_gc l' = nb_call_gc l"
proof (cases "nb_invalid l = 0")
  case True
  then have "gc_keeps h xs = xs" "gc_drops h xs = []" using gc_nothing lru_guards(2) [OF assms(1,2)] by auto
  with True show ?thesis using LRU_gc_idle [OF assms(1)] assms(1) by (intro exI [of _ l] exI [of _ h]) (simp add: gc_idle_def)
next
  case False
  with assms(3) have "\<not> gc_idle l" by (simp add: gc_idle_def not_less)
  then show ?thesis by (rule LRU_gc_run [OF assms(1)])
qed

text \<open>
  C23. A garbage collection that is due (\<open>nb_call_gc_invalid\<close> entries were added) takes exactly the invalid entries
  before the MRU out of the list, in both directions of its links, and keeps the order of the others; the MRU stays,
  valid or not. The entries taken out are back in the pool, \<open>clean_entry\<close> was called once for each of
  them, from the LRU on, and the result is an error exactly if one of the calls failed. Contents and valid states do
  not change, nor does any entry of another list. The call returns if \<open>clean_entry\<close> does.
\<close>

theorem gc_invalid_correct:
  assumes "lru_ok xs l h" and "length xs < 2 ^ 32" and "nb_call_gc_invalid (lparameter l) \<le> nb_call_gc l"
  shows "\<exists>l' h'. (\<forall>w. LRU_gc_invalid (Some l) h w = map_option (\<lambda>(rc, w). (rc, Some l', h', w))
      (clean_all (clean_entry (lparameter l)) (map (\<lambda>p. buffdata (h p)) (gc_drops h xs)) LRU_LIST_SUCCESS w)) \<and>
    lru_ok (gc_keeps h xs) l' h' \<and> same_contents (set xs) h h' \<and>
    entry_prealloc l' = rev (gc_drops h xs) @ entry_prealloc l \<and> lparameter l' = lparameter l \<and> nb_call_gc l' = nb_call_gc l"
  by (rule LRU_gc_spec [OF assms])

section \<open>Marking by a function\<close>

text \<open>
  The entries of a sequence that the function chooses, with the calls in the order of the sequence, and the heap and
  the list after marking them.
\<close>

primrec chosen :: "'w lru_callback \<Rightarrow> (addr \<times> lru_data) list \<Rightarrow> 'w \<Rightarrow> (addr list \<times> 'w) option" where
  "chosen f [] w = Some ([], w)"
| "chosen f (x # xs) w =
     (case f (snd x) w of None \<Rightarrow> None
      | Some (r, w) \<Rightarrow>
          map_option (\<lambda>(ps, w). (if r = LRU_LIST_SET_INVALID then fst x # ps else ps, w)) (chosen f xs w))"

definition mark :: "addr list \<Rightarrow> lru_heap \<Rightarrow> lru_heap" where
  "mark ps h = (\<lambda>p. if p \<in> set ps then (h p)\<lparr>valid_state := LRU_ENTRY_INVALID\<rparr> else h p)"

abbreviation valid_data :: "lru_heap \<Rightarrow> addr list \<Rightarrow> (addr \<times> lru_data) list" where
  "valid_data h xs \<equiv> map (\<lambda>p. (p, buffdata (h p))) (filter (\<lambda>p. \<not> invalid h p) xs)"

lemma valid_data_mark: "p \<notin> set xs \<Longrightarrow> valid_data (mark [p] h) xs = valid_data h xs"
  by (induction xs) (auto simp: mark_def)

lemma mark_mark: "mark ps (mark [p] h) = mark (p # ps) h"
  by (auto simp: mark_def)

lemma lru_ok_marked:
  assumes "lru_ok xs l h" and "p \<in> set xs" and "\<not> invalid h p"
  shows "lru_ok xs (l\<lparr>nb_invalid := nb_invalid l + 1\<rparr>) (mark [p] h)"
    and "LRU_invalidate l p h = (LRU_LIST_SUCCESS, l\<lparr>nb_invalid := nb_invalid l + 1\<rparr>, mark [p] h)"
proof -
  show *: "LRU_invalidate l p h = (LRU_LIST_SUCCESS, l\<lparr>nb_invalid := nb_invalid l + 1\<rparr>, mark [p] h)"
    using assms(3) by (auto simp: LRU_invalidate_def mark_def)
  from LRU_invalidate_spec(3) [OF * assms(1,2)] show "lru_ok xs (l\<lparr>nb_invalid := nb_invalid l + 1\<rparr>) (mark [p] h)" .
qed

lemma invalidate_loop_spec:
  assumes "lru_ok (ks @ ys @ [m]) l h"
  shows "invalidate_loop f (first_ptr (ys @ [m]) None) l h w =
    map_option (\<lambda>(ps, w). (LRU_LIST_SUCCESS, l\<lparr>nb_invalid := nb_invalid l + of_nat (length ps)\<rparr>, mark ps h, w))
      (chosen f (valid_data h ys) w)"
  using assms
proof (induction ys arbitrary: ks l h w)
  case Nil
  then have "MRU l = Some m" by (simp add: lru_ok_def last_ptr_def)
  then show ?case by (simp add: invalidate_loop.simps mark_def)
next
  case (Cons p ys)
  let ?l = "l\<lparr>nb_invalid := nb_invalid l + 1\<rparr>"
  have ok: "lru_ok (ks @ p # (ys @ [m])) l h" "lru_ok ((ks @ [p]) @ ys @ [m]) l h" using Cons.prems by auto
  have nx: "lr_next (h p) = first_ptr (ys @ [m]) None" using ok(1) by (rule lru_next)
  have d: "MRU l = Some m" "p \<noteq> m" "p \<notin> set ys" using ok(1) by (auto simp: lru_ok_def last_ptr_def)
  note IH = Cons.IH [OF ok(2)]
  show ?case
  proof (cases "invalid h p")
    case True
    with d nx IH show ?thesis by (subst invalidate_loop.simps) simp
  next
    case False
    have "p \<in> set ((ks @ [p]) @ ys @ [m])" by simp
    note inv = lru_ok_marked [OF ok(2) this False]
    note IH' = Cons.IH [OF inv(1)]
    show ?thesis
    proof (cases "f (buffdata (h p)) w")
      case None
      with d nx False show ?thesis by (subst invalidate_loop.simps) simp
    next
      case (Some x)
      then obtain r w1 where r: "f (buffdata (h p)) w = Some (r, w1)" by (cases x) auto
      show ?thesis
      proof (cases "r = LRU_LIST_SET_INVALID")
        case True
        have "invalidate_loop f (first_ptr ((p # ys) @ [m]) None) l h w =
            invalidate_loop f (first_ptr (ys @ [m]) None) ?l (mark [p] h) w1"
          using d nx False r True inv(2) by (subst invalidate_loop.simps) simp
        also have "\<dots> = map_option (\<lambda>(ps, w). (LRU_LIST_SUCCESS,
            l\<lparr>nb_invalid := nb_invalid l + of_nat (length (p # ps))\<rparr>, mark (p # ps) h, w)) (chosen f (valid_data h ys) w1)"
          unfolding IH' valid_data_mark [OF d(3)] mark_mark by (simp add: add.assoc)
        finally show ?thesis using False r True by (simp add: option.map_comp comp_def split_def)
      next
        case False
        with d nx \<open>\<not> invalid h p\<close> r IH show ?thesis
          by (subst invalidate_loop.simps) (simp add: option.map_comp comp_def split_def)
      qed
    qed
  qed
qed

lemma chosen_ConsE:
  assumes "chosen f (x # xs) w = Some (ps, w')"
  obtains r w1 qs where "f (snd x) w = Some (r, w1)" and "chosen f xs w1 = Some (qs, w')"
    and "ps = (if r = LRU_LIST_SET_INVALID then fst x # qs else qs)"
  using assms by (auto split: option.splits)

lemma chosen_subset: "chosen f xs w = Some (ps, w') \<Longrightarrow> set ps \<subseteq> fst ` set xs"
proof (induction xs arbitrary: w ps)
  case (Cons x xs)
  from Cons.prems show ?case by (rule chosen_ConsE) (auto dest!: Cons.IH split: if_splits)
qed simp

lemma chosen_total: "(\<And>d w. f d w \<noteq> None) \<Longrightarrow> chosen f xs w \<noteq> None"
proof (induction xs arbitrary: w)
  case (Cons x xs)
  obtain r w1 where "f (snd x) w = Some (r, w1)" using Cons.prems [of "snd x" w] by auto
  with Cons.IH [OF Cons.prems, of w1] show ?case by auto
qed simp

lemma clean_all_total: "(\<And>d w. f d w \<noteq> None) \<Longrightarrow> clean_all f ds rc w \<noteq> None"
proof (induction ds arbitrary: rc w)
  case (Cons d ds)
  obtain c w1 where "f d w = Some (c, w1)" using Cons.prems [of d w] by auto
  with Cons.IH [OF Cons.prems] show ?case by simp
qed simp

lemma mark_Nil [simp]: "mark [] h = h"
  by (simp add: mark_def)

lemma lru_ok_mark:
  assumes "lru_ok xs l h" and "distinct ps" and "set ps \<subseteq> set xs" and "\<forall>p \<in> set ps. \<not> invalid h p"
  shows "lru_ok xs (l\<lparr>nb_invalid := nb_invalid l + of_nat (length ps)\<rparr>) (mark ps h)"
  using assms
proof (induction ps arbitrary: l h)
  case (Cons p ps)
  have "lru_ok xs (l\<lparr>nb_invalid := nb_invalid l + 1\<rparr>) (mark [p] h)" using Cons.prems by (intro lru_ok_marked) auto
  moreover have "\<forall>q \<in> set ps. \<not> invalid (mark [p] h) q" using Cons.prems by (auto simp: mark_def)
  ultimately have "lru_ok xs (l\<lparr>nb_invalid := nb_invalid l + 1 + of_nat (length ps)\<rparr>) (mark ps (mark [p] h))"
    using Cons.IH [of "l\<lparr>nb_invalid := nb_invalid l + 1\<rparr>" "mark [p] h"] Cons.prems by simp
  then show ?case by (simp add: mark_mark add.assoc)
qed simp

lemma chosen_distinct: "chosen f xs w = Some (ps, w') \<Longrightarrow> distinct (map fst xs) \<Longrightarrow> distinct ps"
proof (induction xs arbitrary: w ps)
  case (Cons x xs)
  from Cons.prems(1) obtain r w1 qs where c: "f (snd x) w = Some (r, w1)" "chosen f xs w1 = Some (qs, w')"
    "ps = (if r = LRU_LIST_SET_INVALID then fst x # qs else qs)" by (rule chosen_ConsE)
  from Cons.IH [OF c(2)] chosen_subset [OF c(2)] Cons.prems(2) c(3) show ?case by auto
qed simp

lemma chosen_marked:
  assumes "lru_ok xs l h" and c: "chosen f (valid_data h (butlast xs)) w = Some (ps, w')"
  shows "lru_ok xs (l\<lparr>nb_invalid := nb_invalid l + of_nat (length ps)\<rparr>) (mark ps h)" and "set ps \<subseteq> set (butlast xs)"
proof -
  have d: "distinct xs" using assms(1) by (simp add: lru_ok_def)
  then have "distinct (map fst (valid_data h (butlast xs)))" by (simp add: comp_def distinct_butlast)
  with chosen_distinct [OF c] have "distinct ps" by simp
  moreover have sub: "set ps \<subseteq> set (filter (\<lambda>p. \<not> invalid h p) (butlast xs))" using chosen_subset [OF c] by auto
  ultimately show "lru_ok xs (l\<lparr>nb_invalid := nb_invalid l + of_nat (length ps)\<rparr>) (mark ps h)"
    using lru_ok_mark [OF assms(1), of ps] by (auto dest: in_set_butlastD)
  show "set ps \<subseteq> set (butlast xs)" using sub by auto
qed

lemma LRU_by_function_run:
  assumes "lru_ok xs l h"
  shows "LRU_invalidate_by_function f (Some l) h w =
    (if nb_entry l = 0 then Some (LRU_LIST_SUCCESS, Some l, h, w)
     else map_option (\<lambda>(ps, w). (LRU_LIST_SUCCESS, Some (l\<lparr>nb_invalid := nb_invalid l + of_nat (length ps)\<rparr>), mark ps h, w))
        (chosen f (valid_data h (butlast xs)) w))"
proof (cases "butlast xs = []")
  case True
  then show ?thesis using lru_ends(2,3) [OF assms] assms
    by (cases "xs = []") (auto simp: LRU_invalidate_by_function_def last_ptr_def lru_ok_def)
next
  case False
  then have ne: "xs \<noteq> []" by auto
  with invalidate_loop_spec [of "[]" "butlast xs" "last xs" l h f w] assms False lru_ends [OF assms]
  show ?thesis by (auto simp: LRU_invalidate_by_function_def option.map_comp comp_def split_def last_ptr_def)
qed

lemma LRU_by_function_spec:
  assumes "lru_ok xs l h" and "length xs < 2 ^ 32"
  shows "LRU_invalidate_by_function f (Some l) h w =
    map_option (\<lambda>(ps, w). (LRU_LIST_SUCCESS, Some (l\<lparr>nb_invalid := nb_invalid l + of_nat (length ps)\<rparr>), mark ps h, w))
      (chosen f (valid_data h (butlast xs)) w)"
  using LRU_by_function_run [OF assms(1)] lru_guards(1) [OF assms] by auto

section \<open>Applying a function\<close>

text \<open>The calls of \<open>LRU_apply_function\<close>, until one returns FALSE.\<close>

primrec apply_all :: "'w lru_callback \<Rightarrow> lru_data list \<Rightarrow> 'w \<Rightarrow> 'w option" where
  "apply_all f [] w = Some w"
| "apply_all f (d # ds) w =
     (case f d w of None \<Rightarrow> None | Some (r, w) \<Rightarrow> if r = 0 then Some w else apply_all f ds w)"

lemma apply_all_total: "(\<And>d w. f d w \<noteq> None) \<Longrightarrow> apply_all f ds w \<noteq> None"
proof (induction ds arbitrary: w)
  case (Cons d ds)
  obtain c w1 where "f d w = Some (c, w1)" using Cons.prems [of d w] by auto
  with Cons.IH [OF Cons.prems] show ?case by simp
qed simp

lemma apply_loop_spec:
  assumes "lru_seg h p (ys @ zs)"
  shows "apply_loop f (last_ptr None ys) h w =
    apply_all f (map (\<lambda>p. buffdata (h p)) (filter (\<lambda>p. \<not> invalid h p) (rev ys))) w"
  using assms
proof (induction ys arbitrary: zs w rule: rev_induct)
  case Nil
  show ?case by (simp add: apply_loop.simps)
next
  case (snoc y ys)
  have "lru_seg h p (ys @ (y # zs))" using snoc.prems by simp
  note IH = snoc.IH [OF this] and pv = seg_node(2) [OF this]
  from IH pv show ?case by (subst apply_loop.simps) (simp split: option.splits)
qed

lemma LRU_apply_run:
  assumes "lru_ok xs l h"
  shows "LRU_apply_function f (Some l) h w = (if nb_entry l = 0 then Some (LRU_LIST_SUCCESS, w)
    else map_option (\<lambda>w. (LRU_LIST_SUCCESS, w))
      (apply_all f (map (\<lambda>p. buffdata (h p)) (filter (\<lambda>p. \<not> invalid h p) (rev (butlast xs)))) w))"
proof (cases "butlast xs = []")
  case True
  then show ?thesis using lru_ends(2,3) [OF assms] assms
    by (cases "xs = []") (auto simp: LRU_apply_function_def last_ptr_def lru_ok_def)
next
  case False
  then have ne: "xs \<noteq> []" by auto
  then have "lru_seg h (LRU l) (butlast xs @ [last xs])" using assms by (simp add: lru_ok_def)
  from apply_loop_spec [OF this, of f w] lru_ends(2,3) [OF assms] False ne
  show ?thesis by (auto simp: LRU_apply_function_def last_ptr_def)
qed

section \<open>Reachable lists\<close>

text \<open>
  The states a list goes through after \<open>LRU_Init\<close>: the operations of the module, with any callbacks, and the caller
  filling in the data of an entry or changing entries that are not in the list (those of other
  lists), and taking memory. The caller passes to \<open>LRU_invalidate\<close> an entry of the list.
\<close>

definition listed :: "addr \<Rightarrow> 'w lru_list \<Rightarrow> lru_heap \<Rightarrow> bool" where
  "listed p l h \<longleftrightarrow> (\<exists>xs. lru_seg h (LRU l) xs \<and> p \<in> set xs)"

inductive lru_reach :: "'w lru_list \<Rightarrow> lru_heap \<Rightarrow> mem \<Rightarrow> bool" where
  init: "LRU_Init prm m = (LRU_LIST_SUCCESS, Some l, m') \<Longrightarrow> lru_reach l h m'"
| new: "lru_reach l h m \<Longrightarrow> LRU_new_entry l h m = (rc, r, l', h', m') \<Longrightarrow> lru_reach l' h' m'"
| data: "lru_reach l h m \<Longrightarrow> lru_reach l (h(p := (h p)\<lparr>buffdata := d\<rparr>)) m"
| others: "lru_reach l h m \<Longrightarrow> (\<And>p. listed p l h \<Longrightarrow> h' p = h p) \<Longrightarrow> lru_reach l h' m"
| alloc: "lru_reach l h m \<Longrightarrow> brk m \<le> brk m' \<Longrightarrow> lru_reach l h m'"
| invalidate: "lru_reach l h m \<Longrightarrow> listed p l h \<Longrightarrow> LRU_invalidate l p h = (rc, l', h') \<Longrightarrow> lru_reach l' h' m"
| by_function: "lru_reach l h m \<Longrightarrow> LRU_invalidate_by_function f (Some l) h w = Some (rc, Some l', h', w') \<Longrightarrow>
    lru_reach l' h' m"
| gc: "lru_reach l h m \<Longrightarrow> LRU_gc_invalid (Some l) h w = Some (rc, Some l', h', w') \<Longrightarrow> lru_reach l' h' m"

definition lru_inv :: "addr list \<Rightarrow> 'w lru_list \<Rightarrow> lru_heap \<Rightarrow> mem \<Rightarrow> bool" where
  "lru_inv xs l h m \<longleftrightarrow> lru_ok xs l h \<and> owned xs (entry_prealloc l) m"

lemma lru_seg_unique: "seg nx pv h q p xs None \<Longrightarrow> seg nx pv h q p ys None \<Longrightarrow> xs = ys"
proof (induction xs arbitrary: q p ys)
  case Nil
  then show ?case by (cases ys) auto
next
  case (Cons x xs)
  then show ?case by (cases ys) auto
qed

lemma listed_iff: "lru_ok xs l h \<Longrightarrow> listed p l h \<longleftrightarrow> p \<in> set xs"
  unfolding listed_def lru_ok_def using lru_seg_unique by blast

lemma owned_gc:
  assumes "owned xs pool m"
  shows "owned (gc_keeps h xs) (rev (gc_drops h xs) @ pool) m"
proof (cases xs rule: rev_cases)
  case (snoc ys y)
  with assms show ?thesis
    by (auto simp: owned_def gc_keeps_def gc_drops_def)
qed (use assms in \<open>simp add: gc_keeps_def gc_drops_def\<close>)

lemma lru_inv_new:
  assumes "lru_inv xs l h m" and "LRU_new_entry l h m = (rc, r, l', h', m')"
  shows "\<exists>xs'. lru_inv xs' l' h' m'"
  using LRU_new_entry_spec(3,4) [OF _ _ assms(2), of xs] assms(1) by (cases r) (auto simp: lru_inv_def)

lemma lru_inv_gc:
  assumes "lru_inv xs l h m" and "LRU_gc_invalid (Some l) h w = Some (rc, Some l', h', w')"
  shows "\<exists>xs'. lru_inv xs' l' h' m"
proof (cases "gc_idle l")
  case True
  with LRU_gc_idle [of xs l h w] assms show ?thesis by (auto simp: lru_inv_def)
next
  case False
  have ok: "lru_ok xs l h" and own: "owned xs (entry_prealloc l) m" using assms(1) by (auto simp: lru_inv_def)
  from LRU_gc_run [OF ok False] obtain l1 h1 where g:
    "\<forall>w. LRU_gc_invalid (Some l) h w = map_option (\<lambda>(rc, w). (rc, Some l1, h1, w))
      (clean_all (clean_entry (lparameter l)) (map (\<lambda>p. buffdata (h p)) (gc_drops h xs)) LRU_LIST_SUCCESS w)"
    "lru_ok (gc_keeps h xs) l1 h1" "entry_prealloc l1 = rev (gc_drops h xs) @ entry_prealloc l" by blast
  then have "l' = l1" "h' = h1" using assms(2) by auto
  with g(2,3) owned_gc [OF own, of h] show ?thesis by (auto simp: lru_inv_def)
qed

lemma lru_inv_by_function:
  assumes "lru_inv xs l h m" and "LRU_invalidate_by_function f (Some l) h w = Some (rc, Some l', h', w')"
  shows "lru_inv xs l' h' m"
  using assms LRU_by_function_run [of xs l h f w] chosen_marked [of xs l h f w]
  by (auto simp: lru_inv_def split: if_splits)

lemma LRU_Init_spec:
  assumes "LRU_Init prm m = (LRU_LIST_SUCCESS, Some l, m')"
  shows "lru_inv [] l h m'" and "lparameter l = prm"
  using assms STUFF_PREALLOC_spec [of "nb_entry_prealloc prm"]
  by (auto simp: LRU_Init_def lru_inv_def lru_ok_def split: option.splits prod.splits if_splits)

lemma lru_inv_cong:
  assumes "lru_inv xs l h m"
    and "\<And>p. p \<in> set xs \<Longrightarrow> lr_next (h' p) = lr_next (h p) \<and> lr_prev (h' p) = lr_prev (h p) \<and> valid_state (h' p) = valid_state (h p)"
  shows "lru_inv xs l h' m"
proof -
  have "lru_seg h' (LRU l) xs = lru_seg h (LRU l) xs" "filter (invalid h') xs = filter (invalid h) xs"
    using assms(2) by (auto intro!: seg_cong filter_cong)
  with assms(1) show ?thesis by (simp add: lru_inv_def lru_ok_def)
qed

lemma lru_reach_inv: "lru_reach l h m \<Longrightarrow> \<exists>xs. lru_inv xs l h m"
proof (induction rule: lru_reach.induct)
  case (init prm m l m' h)
  then show ?case using LRU_Init_spec(1) by blast
next
  case (new l h m rc r l' h' m')
  then show ?case using lru_inv_new by blast
next
  case (data l h m p d)
  then obtain xs where "lru_inv xs l h m" by blast
  then have "lru_inv xs l (h(p := (h p)\<lparr>buffdata := d\<rparr>)) m" by (rule lru_inv_cong) simp
  then show ?case by blast
next
  case (others l h m h')
  then obtain xs where i: "lru_inv xs l h m" by blast
  then have eq: "h' p = h p" if "p \<in> set xs" for p using that others.hyps(2) listed_iff [of xs l h p] by (simp add: lru_inv_def)
  from i have "lru_inv xs l h' m" by (rule lru_inv_cong) (simp add: eq)
  then show ?case by blast
next
  case (alloc l h m m')
  then obtain xs where "lru_inv xs l h m" by blast
  with alloc.hyps(2) have "lru_inv xs l h m'" by (auto simp: lru_inv_def owned_def intro: less_le_trans)
  then show ?case by blast
next
  case (invalidate l h m p rc l' h')
  then obtain xs where i: "lru_inv xs l h m" by blast
  with invalidate.hyps(2) have "p \<in> set xs" using listed_iff [of xs l h p] by (simp add: lru_inv_def)
  with i LRU_invalidate_spec(3,7) [OF invalidate.hyps(3)] have "lru_inv xs l' h' m" by (simp add: lru_inv_def)
  then show ?case by blast
next
  case (by_function l h m f w rc l' h' w')
  then obtain xs where "lru_inv xs l h m" by blast
  from lru_inv_by_function [OF this by_function.hyps(2)] show ?case by blast
next
  case (gc l h m w rc l' h' w')
  then obtain xs where "lru_inv xs l h m" by blast
  from lru_inv_gc [OF this gc.hyps(2)] show ?case .
qed

text \<open>
  C35. In every state that the operations reach, an LRU list is one chain of different entries: the same entries are
  met from the LRU by the next fields and from the MRU by the prev fields, \<open>nb_entry\<close> and \<open>nb_invalid\<close> are the
  numbers of its entries and of the invalid ones, and no entry of the list is in the pool. This holds for all
  callbacks and patterns of allocation failures.
\<close>

theorem lru_lists_consistent:
  assumes "lru_reach l h m"
  shows "\<exists>xs. lru_inv xs l h m"
  using assms by (rule lru_reach_inv)

lemma gc_returns:
  assumes ok: "lru_ok xs l h" and total: "\<And>d w. clean_entry (lparameter l) d w \<noteq> None"
  shows "\<exists>rc l' h' w'. LRU_gc_invalid (Some l) h w = Some (rc, Some l', h', w') \<and> MRU l' = MRU l"
proof (cases "gc_idle l")
  case True
  then show ?thesis using LRU_gc_idle [OF ok] by simp
next
  case False
  from LRU_gc_run [OF ok False] obtain l' h' where g:
    "\<forall>w. LRU_gc_invalid (Some l) h w = map_option (\<lambda>(rc, w). (rc, Some l', h', w))
      (clean_all (clean_entry (lparameter l)) (map (\<lambda>p. buffdata (h p)) (gc_drops h xs)) LRU_LIST_SUCCESS w)"
    "lru_ok (gc_keeps h xs) l' h'" by blast
  have "MRU l' = MRU l"
    using lru_ends(2) [OF g(2)] lru_ends(2) [OF ok] by (simp add: gc_keeps_def last_ptr_def)
  with g(1) clean_all_total [OF total] show ?thesis by (fastforce simp: not_None_eq)
qed

lemma by_function_returns:
  assumes ok: "lru_ok xs l h" and total: "\<And>d w. f d w \<noteq> None"
  shows "\<exists>l' h' w'. LRU_invalidate_by_function f (Some l) h w = Some (LRU_LIST_SUCCESS, Some l', h', w') \<and>
      MRU l' = MRU l \<and> (\<forall>p. MRU l = Some p \<longrightarrow> h' p = h p)"
proof -
  obtain ps w' where c: "chosen f (valid_data h (butlast xs)) w = Some (ps, w')" using chosen_total [OF total] by fastforce
  have "p \<notin> set ps" if "MRU l = Some p" for p
  proof -
    have "distinct xs" using ok by (simp add: lru_ok_def)
    with that lru_ends(2) [OF ok] have "p \<notin> set (butlast xs)"
      by (cases xs rule: rev_cases) (auto simp: last_ptr_def)
    with chosen_marked(2) [OF ok c] show ?thesis by auto
  qed
  then have "MRU l = Some p \<Longrightarrow> mark ps h p = h p" for p by (simp add: mark_def)
  with LRU_by_function_run [OF ok, of f w] c show ?thesis by auto
qed

text \<open>
  C36. The three walks of a reachable list return whenever their callbacks do; the walk that marks entries and the one
  that applies a function return LRU_LIST_SUCCESS. \<open>LRU_invalidate_by_function\<close> never marks the MRU entry and
  \<open>LRU_gc_invalid\<close> never takes it out.
\<close>

theorem lru_walks_return:
  assumes "lru_reach l h m" and "\<And>d w. clean_entry (lparameter l) d w \<noteq> None" and "\<And>d w. f d w \<noteq> None"
  shows "(\<exists>rc l' h' w'. LRU_gc_invalid (Some l) h w = Some (rc, Some l', h', w') \<and> MRU l' = MRU l) \<and>
    (\<exists>w'. LRU_apply_function f (Some l) h w = Some (LRU_LIST_SUCCESS, w')) \<and>
    (\<exists>l' h' w'. LRU_invalidate_by_function f (Some l) h w = Some (LRU_LIST_SUCCESS, Some l', h', w') \<and>
      MRU l' = MRU l \<and> (\<forall>p. MRU l = Some p \<longrightarrow> h' p = h p))"
proof -
  from lru_reach_inv [OF assms(1)] obtain xs where ok: "lru_ok xs l h" by (auto simp: lru_inv_def)
  have "\<exists>w'. LRU_apply_function f (Some l) h w = Some (LRU_LIST_SUCCESS, w')"
    using LRU_apply_run [OF ok, of f w] apply_all_total [of f, OF assms(3)] by (auto simp: not_None_eq)
  with gc_returns [OF ok assms(2)] by_function_returns [where f = f, OF ok assms(3)] show ?thesis by blast
qed

section \<open>Example\<close>

text \<open>A list of three entries, the first of which is invalid, and a collection that is due.\<close>

definition small_param :: "nat lru_parameter" where
  "small_param = \<lparr>nb_entry_prealloc = 4, nb_call_gc_invalid = 2, clean_entry = (\<lambda>d w. Some (0, Suc w))\<rparr>"

definition small_lru :: "nat lru_list" where
  "small_lru = \<lparr>LRU = Some 1, MRU = Some 3, nb_entry = 3, nb_invalid = 1, nb_call_gc = 3, lparameter = small_param,
     entry_prealloc = [4]\<rparr>"

definition small_heap :: lru_heap where
  "small_heap p = \<lparr>lr_next = (if p = 1 then Some 2 else if p = 2 then Some 3 else None),
     lr_prev = (if p = 2 then Some 1 else if p = 3 then Some 2 else None),
     valid_state = (if p = 1 then LRU_ENTRY_INVALID else LRU_ENTRY_VALID), buffdata = \<lparr>pdata = Some p, len = 0\<rparr>\<rparr>"

lemma small_lru_ok: "lru_ok [1, 2, 3] small_lru small_heap"
  by (simp add: lru_ok_def small_lru_def small_heap_def last_ptr_def)

theorem gc_invalid_correct_witness:
  "\<exists>l' h'. LRU_gc_invalid (Some small_lru) small_heap 0 = Some (LRU_LIST_SUCCESS, Some l', h', 1) \<and>
     lru_ok [2, 3] l' h' \<and> entry_prealloc l' = [1, 4]"
proof -
  have "length [1 :: addr, 2, 3] < 2 ^ 32" "nb_call_gc_invalid (lparameter small_lru) \<le> nb_call_gc small_lru"
    by (simp_all add: small_lru_def small_param_def word_le_nat_alt)
  from gc_invalid_correct [OF small_lru_ok this] show ?thesis
    by (fastforce simp: gc_drops_def gc_keeps_def small_heap_def small_lru_def small_param_def)
qed

text \<open>The list after its initialisation and one new entry.\<close>

lemma small_reach:
  "\<exists>l h m. lru_reach l h m \<and> lparameter l = small_param \<and> MRU l = Some 1"
proof -
  let ?m = "\<lparr>brk = 0, calls = 0, fails = \<lambda>i. False\<rparr>"
  obtain l m where i: "LRU_Init small_param ?m = (LRU_LIST_SUCCESS, Some l, m)"
    and l: "entry_prealloc l = [1, 2, 3, 4]" "lparameter l = small_param" "MRU l = None"
    by (simp add: LRU_Init_def Mem_Alloc_def STUFF_PREALLOC_def small_param_def upt_rec del: One_nat_def)
  obtain rc r l' h' m' where n: "LRU_new_entry l small_heap m = (rc, r, l', h', m')" by (metis surj_pair)
  with l have "lparameter l' = small_param \<and> MRU l' = Some 1"
    by (auto simp: LRU_new_entry_def GET_PREALLOC_def Let_def)
  moreover have "lru_reach l' h' m'" by (rule lru_reach.new [OF lru_reach.init [OF i] n])
  ultimately show ?thesis by blast
qed

theorem lru_lists_consistent_witness:
  "\<exists>(l :: nat lru_list) h m xs. MRU l = Some 1 \<and> lru_inv xs l h m"
  using small_reach lru_lists_consistent by blast

theorem lru_walks_return_witness:
  "\<exists>(l :: nat lru_list) h w'. MRU l = Some 1 \<and> LRU_apply_function (\<lambda>d w. Some (1, w)) (Some l) h 0 = Some (LRU_LIST_SUCCESS, w')"
proof -
  obtain l h m where r: "lru_reach l h m" "lparameter l = small_param" "MRU l = Some 1" using small_reach by blast
  have "clean_entry (lparameter l) d w \<noteq> None" for d w using r(2) by (simp add: small_param_def)
  from lru_walks_return [OF r(1) this, of "\<lambda>d w. Some (1, w)" 0] r(3) show ?thesis by blast
qed

end
