(* ===== verification/Dupreq.thy ===== *)
theory Dupreq
  imports LRU_List IP_Cache
begin

text \<open>
  The cache of replies to duplicate requests, \<^verbatim>\<open>MainNFSD/nfs_dupreq.c\<close>: a hash table from transfer ids to cached
  replies, shared by the workers, and one LRU list per worker with the replies it has added, which the worker
  collects when they have expired. The callbacks of the LRU list work on the \<open>dupreq_world\<close>: the table, the
  replies, the pool of the worker (the second parameter of \<open>clean_entry_dupreq\<close>), the calls of the free functions
  and the clock.

  \<open>'r\<close> is the type \<^verbatim>\<open>nfs_res_t\<close> of the replies. The free functions of the protocols are not modelled: \<open>freed\<close> is the
  sequence of their calls. \<^verbatim>\<open>time(NULL)\<close> reads the next value of \<open>clock\<close>; a \<^verbatim>\<open>time_t\<close> is an integer. The build has NLM
  and quota support.
\<close>

section \<open>Keys\<close>

definition dupreq_value_hash_func :: "hash_dims \<Rightarrow> u64 \<Rightarrow> u64" where
  "dupreq_value_hash_func d key = key mod ucast (index_size d)"

definition dupreq_rbt_hash_func :: "hash_dims \<Rightarrow> u64 \<Rightarrow> u64" where
  "dupreq_rbt_hash_func d key = key"

definition compare_xid :: "u64 \<Rightarrow> u64 \<Rightarrow> int" where
  "compare_xid xid1 xid2 = (if xid1 = xid2 then 0 else 1)"

definition dupreq_param :: "hash_dims \<Rightarrow> u64 hash_parameter" where
  "dupreq_param d = \<lparr>dims = d, hash_func_key = dupreq_value_hash_func, hash_func_rbt = dupreq_rbt_hash_func,
     compare_key = compare_xid\<rparr>"

text \<open>
  \<open>xp_p1\<close> and \<open>xp_p2\<close> are the transfer ids in the private data of a TCP and of a UDP transport. The result is an
  \<^verbatim>\<open>unsigned int\<close>.
\<close>

definition get_rpc_xid :: "u64 option \<Rightarrow> u64 option \<Rightarrow> u32 option" where
  "get_rpc_xid xp_p1 xp_p2 =
     (case xp_p2 of
        Some up_xid \<Rightarrow> Some (ucast up_xid)
      | None \<Rightarrow> (case xp_p1 of Some x_id \<Rightarrow> Some (ucast x_id) | None \<Rightarrow> None))"

section \<open>State\<close>

datatype dupreq_rc = DUPREQ_SUCCESS | DUPREQ_INSERT_MALLOC_ERROR | DUPREQ_NOT_FOUND

record 'r dupreq_entry =
  xid :: u64
  res_nfs :: 'r
  d_prog :: u64
  d_vers :: u64
  d_proc :: u64
  timestamp :: int

datatype func_table = Nfs2 | Nfs3 | Nfs4 | Mnt1 | Mnt3 | Nlm4 | Rquota1 | Rquota2

record 'r dupreq_world =
  ht_dupreq :: "(u64, addr) hash_table"
  dr_heap :: "addr \<Rightarrow> 'r dupreq_entry"
  dupreq_pool :: "addr list"
  freed :: "((func_table \<times> nat) \<times> 'r) list"
  clock :: "nat \<Rightarrow> int"
  ticks :: nat

text \<open>What \<open>nfs_dupreq_add\<close> changes: the world, the memory, and the LRU list of the worker.\<close>

record 'r dupreq_state =
  dr_world :: "'r dupreq_world"
  dr_mem :: mem
  dr_lru :: "'r dupreq_world lru_list"
  dr_entries :: lru_heap

record rpc_programs =
  nfs_program :: u64
  mnt_program :: u64
  nlm_program :: u64
  rquota_program :: u64

definition time_NULL :: "'r dupreq_world \<Rightarrow> int \<times> 'r dupreq_world" where
  "time_NULL w = (clock w (ticks w), w\<lparr>ticks := Suc (ticks w)\<rparr>)"

section \<open>Operations\<close>

text \<open>
  The descriptor tables of \<^verbatim>\<open>nfs_worker_thread.c\<close> and the choice of the descriptor in \<open>clean_entry_dupreq\<close>. An index
  outside the table and a descriptor that is not set are \<open>None\<close>; only for NFS is there a default for unknown
  versions.
\<close>

definition table_size :: "func_table \<Rightarrow> nat" where
  "table_size t = (case t of Nfs2 \<Rightarrow> 18 | Nfs3 \<Rightarrow> 22 | Nfs4 \<Rightarrow> 2 | Mnt1 \<Rightarrow> 6 | Mnt3 \<Rightarrow> 6 | Nlm4 \<Rightarrow> 24 | Rquota1 \<Rightarrow> 5 | Rquota2 \<Rightarrow> 5)"

definition func_desc :: "func_table \<Rightarrow> u64 \<Rightarrow> (func_table \<times> nat) option" where
  "func_desc t i = (if unat i < table_size t then Some (t, unat i) else None)"

definition dupreq_funcdesc :: "rpc_programs \<Rightarrow> 'r dupreq_entry \<Rightarrow> (func_table \<times> nat) option" where
  "dupreq_funcdesc pg e =
     (if d_prog e = nfs_program pg then
        (if d_vers e = 2 then func_desc Nfs2 (d_proc e)
         else if d_vers e = 3 then func_desc Nfs3 (d_proc e)
         else if d_vers e = 4 then func_desc Nfs4 (d_proc e)
         else func_desc Nfs2 0)
      else if d_prog e = mnt_program pg then
        (if d_vers e = 1 then func_desc Mnt1 (d_proc e)
         else if d_vers e = 3 then func_desc Mnt3 (d_proc e)
         else None)
      else if d_prog e = nlm_program pg then
        (if d_vers e = 4 then func_desc Nlm4 (d_proc e) else None)
      else if d_prog e = rquota_program pg then
        (if d_vers e = 1 then func_desc Rquota1 (d_proc e)
         else if d_vers e = 2 then func_desc Rquota2 (d_proc e)
         else None)
      else None)"

definition clean_entry_dupreq :: "rpc_programs \<Rightarrow> 'r dupreq_world lru_callback" where
  "clean_entry_dupreq pg buff w = do {
     p \<leftarrow> pdata buff;
     (rc, old, ht) \<leftarrow> HashTable_Del (ht_dupreq w) (xid (dr_heap w p));
     let w = w\<lparr>ht_dupreq := ht\<rparr>;
     if rc \<noteq> HASHTABLE_SUCCESS \<and> rc \<noteq> HASHTABLE_ERROR_NO_SUCH_KEY then Some (1, w)
     else if rc = HASHTABLE_ERROR_NO_SUCH_KEY then Some (0, w)
     else do {
       funcdesc \<leftarrow> dupreq_funcdesc pg (dr_heap w p);
       let w = w\<lparr>freed := freed w @ [(funcdesc, res_nfs (dr_heap w p))]\<rparr>;
       Some (0, w\<lparr>dupreq_pool := RELEASE_PREALLOC p (dupreq_pool w)\<rparr>) } }"

definition nfs_Init_dupreq ::
  "int \<Rightarrow> (nat \<Rightarrow> pthread_codes) \<Rightarrow> hash_dims \<Rightarrow> mem \<Rightarrow> int \<times> (u64, addr) hash_table option \<times> mem" where
  "nfs_Init_dupreq attr_rc codes d m =
     (case HashTable_Init attr_rc codes (dupreq_param d) m of
        (None, m) \<Rightarrow> (- 1, None, m)
      | (Some ht, m) \<Rightarrow> (0, Some ht, m))"

text \<open>\<open>nb\<close> is \<open>nfs_param.worker_param.nb_dupreq_prealloc\<close>, \<open>sz\<close> the size of a cached reply.\<close>

definition nfs_dupreq_add ::
  "u32 \<Rightarrow> u64 \<Rightarrow> u64 \<Rightarrow> svc_req \<Rightarrow> 'r \<Rightarrow> 'r dupreq_state \<Rightarrow> (dupreq_rc \<times> 'r dupreq_state) option" where
  "nfs_dupreq_add nb sz x req res st =
     (let (pdupreq, pool, m) = GET_PREALLOC nb (dupreq_pool (dr_world st)) (dr_mem st);
          st = st\<lparr>dr_world := (dr_world st)\<lparr>dupreq_pool := pool\<rparr>, dr_mem := m\<rparr>
      in case pdupreq of
           None \<Rightarrow> Some (DUPREQ_INSERT_MALLOC_ERROR, st)
         | Some p \<Rightarrow> do {
             let (now, w) = time_NULL (dr_world st);
             let w = w\<lparr>dr_heap := (dr_heap w)(p := \<lparr>xid = x, res_nfs = res, d_prog = ucast (rq_prog req),
                       d_vers = ucast (rq_vers req), d_proc = ucast (rq_proc req), timestamp = now\<rparr>)\<rparr>;
             (rc, m, ht) \<leftarrow> HashTable_Test_And_Set (dr_mem st) (ht_dupreq w) x p HASHTABLE_SET_HOW_SET_OVERWRITE;
             let st = st\<lparr>dr_world := w\<lparr>ht_dupreq := ht\<rparr>, dr_mem := m\<rparr>;
             if rc \<noteq> HASHTABLE_SUCCESS then Some (DUPREQ_INSERT_MALLOC_ERROR, st)
             else
               let (lru_status, pentry, l, h, m) = LRU_new_entry (dr_lru st) (dr_entries st) (dr_mem st);
                   st = st\<lparr>dr_lru := l, dr_entries := h, dr_mem := m\<rparr>
               in case pentry of
                    None \<Rightarrow> Some (DUPREQ_INSERT_MALLOC_ERROR, st)
                  | Some e \<Rightarrow>
                      Some (DUPREQ_SUCCESS,
                            st\<lparr>dr_entries := h(e := (h e)\<lparr>buffdata := \<lparr>pdata = Some p, len = sz\<rparr>\<rparr>)\<rparr>) })"

text \<open>On a miss \<open>nfs_dupreq_get\<close> returns a local variable that is not set: no reply.\<close>

definition nfs_dupreq_get :: "u64 \<Rightarrow> 'r dupreq_world \<Rightarrow> (dupreq_rc \<times> 'r option \<times> 'r dupreq_world) option" where
  "nfs_dupreq_get x w = do {
     (rc, buffval, ht) \<leftarrow> HashTable_Get (ht_dupreq w) x;
     let w = w\<lparr>ht_dupreq := ht\<rparr>;
     if rc = HASHTABLE_SUCCESS then do {
       p \<leftarrow> buffval;
       let (now, w) = time_NULL w;
       let w = w\<lparr>dr_heap := (dr_heap w)(p := (dr_heap w p)\<lparr>timestamp := now\<rparr>)\<rparr>;
       Some (DUPREQ_SUCCESS, Some (res_nfs (dr_heap w p)), w) }
     else Some (DUPREQ_NOT_FOUND, None, w) }"

definition nfs_dupreq_gc_function :: "int \<Rightarrow> 'r dupreq_world lru_callback" where
  "nfs_dupreq_gc_function expiration_dupreq buff w = do {
     p \<leftarrow> pdata buff;
     let (now, w) = time_NULL w;
     if now - timestamp (dr_heap w p) > expiration_dupreq then Some (LRU_LIST_SET_INVALID, w)
     else Some (LRU_LIST_DO_NOT_SET_INVALID, w) }"

definition nfs_dupreq_get_stats :: "'r dupreq_world \<Rightarrow> hash_stat option" where
  "nfs_dupreq_get_stats w = HashTable_GetStats (ht_dupreq w)"

text \<open>The garbage collection of the replies in the loop of a worker: errors are only logged.\<close>

definition worker_dupreq_gc :: "int \<Rightarrow> 'r dupreq_state \<Rightarrow> (lru_status \<times> 'r dupreq_state) option" where
  "worker_dupreq_gc expiration_dupreq st = do {
     (rc, l, h, w) \<leftarrow> LRU_invalidate_by_function (nfs_dupreq_gc_function expiration_dupreq)
                        (Some (dr_lru st)) (dr_entries st) (dr_world st);
     (rc, l, h, w) \<leftarrow> LRU_gc_invalid l h w;
     l \<leftarrow> l;
     Some (rc, st\<lparr>dr_lru := l, dr_entries := h, dr_world := w\<rparr>) }"

section \<open>The cached replies\<close>

abbreviation cached :: "'r dupreq_world \<Rightarrow> u64 \<Rightarrow> addr option" where
  "cached w \<equiv> table_map (ht_dupreq w)"

definition reply :: "'r dupreq_world \<Rightarrow> u64 \<Rightarrow> 'r option" where
  "reply w k = map_option (\<lambda>p. res_nfs (dr_heap w p)) (cached w k)"

text \<open>Cached replies are in memory that is not in the pool, under their own transfer id.\<close>

definition world_ok :: "mem \<Rightarrow> 'r dupreq_world \<Rightarrow> bool" where
  "world_ok m w \<longleftrightarrow> table_inv m (ht_dupreq w) \<and> distinct (dupreq_pool w) \<and> (\<forall>a \<in> set (dupreq_pool w). a < brk m) \<and>
     (\<forall>k a. cached w k = Some a \<longrightarrow> a < brk m \<and> a \<notin> set (dupreq_pool w) \<and> xid (dr_heap w a) = k)"

text \<open>Every entry of the LRU list of the worker is for a cached reply of its own.\<close>

abbreviation reply_of :: "lru_heap \<Rightarrow> addr \<Rightarrow> ptr" where
  "reply_of h e \<equiv> pdata (buffdata (h e))"

definition tracks :: "addr list \<Rightarrow> lru_heap \<Rightarrow> 'r dupreq_world \<Rightarrow> bool" where
  "tracks xs h w \<longleftrightarrow> distinct (map (reply_of h) xs) \<and>
     (\<forall>e \<in> set xs. \<exists>a. reply_of h e = Some a \<and> cached w (xid (dr_heap w a)) = Some a)"

definition dup_inv :: "addr list \<Rightarrow> 'r dupreq_state \<Rightarrow> bool" where
  "dup_inv xs st \<longleftrightarrow> world_ok (dr_mem st) (dr_world st) \<and> lru_inv xs (dr_lru st) (dr_entries st) (dr_mem st) \<and>
     tracks xs (dr_entries st) (dr_world st)"

lemma dupreq_param_good: "index_size d \<noteq> 0 \<Longrightarrow> good_param (dupreq_param d)"
  using ip_stats_param_good [of d]
  by (simp add: dupreq_param_def ip_stats_param_def good_param_def dupreq_value_hash_func_def [abs_def]
      dupreq_rbt_hash_func_def [abs_def] compare_xid_def [abs_def] ip_stats_value_hash_func_def [abs_def]
      ip_stats_rbt_hash_func_def [abs_def] compare_ip_stats_def [abs_def])

lemma lru_inv_mono: "lru_inv xs l h m \<Longrightarrow> brk m \<le> brk m' \<Longrightarrow> lru_inv xs l h m'"
  by (auto simp: lru_inv_def owned_def intro: less_le_trans)

lemma world_ok_mono: "world_ok m w \<Longrightarrow> brk m \<le> brk m' \<Longrightarrow> world_ok m' w"
  unfolding world_ok_def using table.inv_mono by (metis less_le_trans)

section \<open>Looking a reply up\<close>

lemma nfs_dupreq_get_spec:
  assumes "world_ok m w"
  shows "\<exists>w'. nfs_dupreq_get k w = Some (if cached w k = None then DUPREQ_NOT_FOUND else DUPREQ_SUCCESS, reply w k, w') \<and>
    world_ok m w' \<and> cached w' = cached w \<and> reply w' = reply w \<and> dupreq_pool w' = dupreq_pool w \<and>
    (\<forall>a. xid (dr_heap w' a) = xid (dr_heap w a))"
proof -
  have inv: "table_inv m (ht_dupreq w)" using assms by (simp add: world_ok_def)
  from table.get_law [OF inv, of k] obtain ht where g:
    "HashTable_Get (ht_dupreq w) k = Some (get_rc (cached w k), cached w k, ht)"
    "table_inv m ht" "table_map ht = cached w" by blast
  show ?thesis
  proof (cases "cached w k")
    case None
    with g assms show ?thesis
      by (intro exI [of _ "w\<lparr>ht_dupreq := ht\<rparr>"]) (auto simp: nfs_dupreq_get_def world_ok_def reply_def fun_eq_iff)
  next
    case (Some p)
    let ?w = "w\<lparr>ht_dupreq := ht, ticks := Suc (ticks w), dr_heap := (dr_heap w)(p := (dr_heap w p)\<lparr>timestamp := clock w (ticks w)\<rparr>)\<rparr>"
    have "nfs_dupreq_get k w = Some (DUPREQ_SUCCESS, reply w k, ?w)"
      using g Some by (simp add: nfs_dupreq_get_def time_NULL_def reply_def)
    moreover have "world_ok m ?w" using assms g by (auto simp: world_ok_def)
    moreover have "reply ?w j = reply w j" for j using g(3) by (cases "cached w j") (simp_all add: reply_def)
    then have "reply ?w = reply w" by (rule ext)
    ultimately show ?thesis using Some g(3) by (intro exI [of _ ?w]) simp
  qed
qed

section \<open>Adding a reply\<close>

lemma LRU_new_entry_good:
  assumes "LRU_new_entry l h m = (rc, r, l', h', m')" and "mem_good m" and "nb_entry_prealloc (lparameter l) \<noteq> 0"
  shows "r \<noteq> None"
proof -
  obtain q pool m1 where g: "GET_PREALLOC (nb_entry_prealloc (lparameter l)) (entry_prealloc l) m = (q, pool, m1)"
    by (cases "GET_PREALLOC (nb_entry_prealloc (lparameter l)) (entry_prealloc l) m") auto
  from GET_PREALLOC_good [OF g assms(2,3)] assms(1) g show ?thesis
    by (auto simp: LRU_new_entry_def Let_def split: option.splits prod.splits)
qed

lemma world_ok_get:
  assumes ok: "world_ok m w" and g: "GET_PREALLOC nb (dupreq_pool w) m = (r, pool, m')"
  shows "world_ok m' (w\<lparr>dupreq_pool := pool\<rparr>)" and "brk m \<le> brk m'"
    and "\<And>p. r = Some p \<Longrightarrow> p < brk m' \<and> p \<notin> set pool \<and> (\<forall>k. cached w k \<noteq> Some p)"
proof -
  have o: "distinct (dupreq_pool w)" "\<forall>a \<in> set (dupreq_pool w). a < brk m" using ok by (auto simp: world_ok_def)
  show le: "brk m \<le> brk m'" by (rule GET_PREALLOC_brk [OF g])
  have c: "cached w k = Some a \<Longrightarrow> a < brk m \<and> a \<notin> set (dupreq_pool w)" for k a using ok by (auto simp: world_ok_def)
  have ok': "world_ok m' w" by (rule world_ok_mono [OF ok le])
  show "world_ok m' (w\<lparr>dupreq_pool := pool\<rparr>)"
  proof (cases r)
    case None
    with g have "pool = []" by (auto simp: GET_PREALLOC_def Let_def split: list.splits prod.splits)
    with ok' show ?thesis by (simp add: world_ok_def)
  next
    case (Some p)
    note f = GET_PREALLOC_fresh [OF g [unfolded Some] o]
    have "a \<notin> set pool" if "cached w k = Some a" for k a using c [OF that] f(5) by fastforce
    with ok' f(3,4) show ?thesis by (simp add: world_ok_def)
  qed
  show "p < brk m' \<and> p \<notin> set pool \<and> (\<forall>k. cached w k \<noteq> Some p)" if "r = Some p" for p
    using GET_PREALLOC_fresh [OF g [unfolded that] o] c by fastforce
qed

text \<open>A new reply at a fresh address, not yet in the table.\<close>

lemma world_ok_new:
  assumes "world_ok m w" and "\<forall>k. cached w k \<noteq> Some p"
  shows "world_ok m (w\<lparr>ticks := t, dr_heap := (dr_heap w)(p := e)\<rparr>)" and "reply (w\<lparr>ticks := t, dr_heap := (dr_heap w)(p := e)\<rparr>) = reply w"
proof -
  show "world_ok m (w\<lparr>ticks := t, dr_heap := (dr_heap w)(p := e)\<rparr>)" using assms by (auto simp: world_ok_def)
  show "reply (w\<lparr>ticks := t, dr_heap := (dr_heap w)(p := e)\<rparr>) = reply w"
  proof
    show "reply (w\<lparr>ticks := t, dr_heap := (dr_heap w)(p := e)\<rparr>) k = reply w k" for k
      using assms(2) by (cases "cached w k") (auto simp: reply_def)
  qed
qed

lemma world_ok_set:
  assumes ok: "world_ok m w" and p: "p < brk m" "p \<notin> set (dupreq_pool w)" "xid (dr_heap w p) = k"
  obtains rc m' ht where "HashTable_Test_And_Set m (ht_dupreq w) k p HASHTABLE_SET_HOW_SET_OVERWRITE = Some (rc, m', ht)"
    "world_ok m' (w\<lparr>ht_dupreq := ht\<rparr>)" "brk m \<le> brk m'"
    "rc = HASHTABLE_SUCCESS \<and> table_map ht = (cached w)(k \<mapsto> p) \<or> rc = HASHTABLE_INSERT_MALLOC_ERROR \<and> table_map ht = cached w"
proof -
  have "table_inv m (ht_dupreq w)" using ok by (simp add: world_ok_def)
  then obtain rc m' ht where s: "HashTable_Test_And_Set m (ht_dupreq w) k p HASHTABLE_SET_HOW_SET_OVERWRITE = Some (rc, m', ht)"
    "table_inv m' ht" "brk m \<le> brk m'"
    "rc = HASHTABLE_SUCCESS \<and> table_map ht = (cached w)(k \<mapsto> p) \<or> rc = HASHTABLE_INSERT_MALLOC_ERROR \<and> table_map ht = cached w"
    by (rule HashTable_Set_overwrite)
  have "world_ok m' w" by (rule world_ok_mono [OF ok s(3)])
  with s(2-4) p have "world_ok m' (w\<lparr>ht_dupreq := ht\<rparr>)" by (auto simp: world_ok_def split: if_splits)
  with s show thesis by (intro that)
qed

lemma tracks_world:
  assumes "tracks xs h w" and "\<And>e. e \<in> set xs \<Longrightarrow> buffdata (h' e) = buffdata (h e)"
    and "\<And>k a. cached w k = Some a \<Longrightarrow> k = xid (dr_heap w a) \<Longrightarrow> cached w' k = Some a \<and> xid (dr_heap w' a) = k"
  shows "tracks xs h' w'"
proof -
  have "map (reply_of h') xs = map (reply_of h) xs" using assms(2) by (simp cong: map_cong)
  then have "distinct (map (reply_of h') xs)" using assms(1) by (simp only: tracks_def)
  moreover have "\<exists>a. reply_of h' e = Some a \<and> cached w' (xid (dr_heap w' a)) = Some a" if "e \<in> set xs" for e
    using assms(1) assms(2) [OF that] that assms(3) unfolding tracks_def by metis
  ultimately show ?thesis unfolding tracks_def by blast
qed

text \<open>
  The last step: an LRU entry for the reply at \<open>p\<close>, which is in the table.
\<close>

lemma new_entry_tracks:
  assumes inv: "lru_inv xs l h m" and run: "LRU_new_entry l h m = (rc, Some e, l', h', m')"
    and tr: "tracks xs h w" and p: "cached w (xid (dr_heap w p)) = Some p" "\<forall>q \<in> set xs. reply_of h q \<noteq> Some p"
  shows "lru_inv (xs @ [e]) l' (h'(e := (h' e)\<lparr>buffdata := \<lparr>pdata = Some p, len = sz\<rparr>\<rparr>)) m'"
    and "tracks (xs @ [e]) (h'(e := (h' e)\<lparr>buffdata := \<lparr>pdata = Some p, len = sz\<rparr>\<rparr>)) w"
proof -
  let ?h = "h'(e := (h' e)\<lparr>buffdata := \<lparr>pdata = Some p, len = sz\<rparr>\<rparr>)"
  have n: "e \<notin> set xs" "lru_inv (xs @ [e]) l' h' m'" "\<And>q. q \<noteq> e \<Longrightarrow> buffdata (h' q) = buffdata (h q)"
    using LRU_new_entry_spec(4) [OF _ _ run] inv by (auto simp: lru_inv_def)
  show "lru_inv (xs @ [e]) l' ?h m'" using n(2) by (rule lru_inv_cong) simp
  have "buffdata (?h q) = buffdata (h q)" if "q \<in> set xs" for q using that n(1,3) by (cases "q = e") auto
  then have "tracks xs ?h w" by (intro tracks_world [OF tr]) auto
  moreover have "\<forall>q \<in> set xs. reply_of ?h q \<noteq> Some p" using p(2) n(1,3) by auto
  ultimately show "tracks (xs @ [e]) ?h w" using p(1) by (auto simp: tracks_def)
qed

lemma nfs_dupreq_add_spec:
  assumes inv: "dup_inv xs st"
  shows "\<exists>rc st'. nfs_dupreq_add nb sz x req res st = Some (rc, st') \<and> world_ok (dr_mem st') (dr_world st') \<and>
    (rc = DUPREQ_SUCCESS \<and> reply (dr_world st') = (reply (dr_world st))(x \<mapsto> res) \<and>
       (cached (dr_world st) x = None \<longrightarrow> (\<exists>e. dup_inv (xs @ [e]) st')) \<or>
     rc = DUPREQ_INSERT_MALLOC_ERROR \<and> (\<forall>k. k \<noteq> x \<longrightarrow> reply (dr_world st') k = reply (dr_world st) k) \<and>
       (cached (dr_world st) x = None \<longrightarrow> dup_inv xs st') \<and>
       \<not> (mem_good (dr_mem st) \<and> nb \<noteq> 0 \<and> nb_node_prealloc (dims (parameter (ht_dupreq (dr_world st)))) \<noteq> 0 \<and>
          nb_entry_prealloc (lparameter (dr_lru st)) \<noteq> 0))"
proof -
  let ?w = "dr_world st" and ?m = "dr_mem st"
  have ok: "world_ok ?m ?w" and lru: "lru_inv xs (dr_lru st) (dr_entries st) ?m" and tr: "tracks xs (dr_entries st) ?w"
    using inv by (auto simp: dup_inv_def)
  obtain r pool m1 where g: "GET_PREALLOC nb (dupreq_pool ?w) ?m = (r, pool, m1)"
    by (cases "GET_PREALLOC nb (dupreq_pool ?w) ?m") auto
  note wg = world_ok_get [OF ok g]
  have good1: "mem_good m1" if "mem_good ?m" using that GET_PREALLOC_fails [OF g] by (simp add: mem_good_def)
  show ?thesis
  proof (cases r)
    case None
    have "dup_inv xs (st\<lparr>dr_world := ?w\<lparr>dupreq_pool := pool\<rparr>, dr_mem := m1\<rparr>)"
      using wg(1,2) lru_inv_mono [OF lru] tr by (simp add: dup_inv_def tracks_def)
    with None g wg(1) GET_PREALLOC_good [OF g] show ?thesis
      by (auto simp: nfs_dupreq_add_def reply_def)
  next
    case (Some p)
    note p = wg(3) [OF Some]
    let ?e = "\<lparr>xid = x, res_nfs = res, d_prog = ucast (rq_prog req), d_vers = ucast (rq_vers req),
        d_proc = ucast (rq_proc req), timestamp = clock ?w (ticks ?w)\<rparr>"
    define w1 where "w1 = ?w\<lparr>dupreq_pool := pool, ticks := Suc (ticks ?w), dr_heap := (dr_heap ?w)(p := ?e)\<rparr>"
    have w1: "world_ok m1 w1" "reply w1 = reply ?w" "cached w1 = cached ?w" "dr_heap w1 p = ?e"
      "\<And>a. a \<noteq> p \<Longrightarrow> dr_heap w1 a = dr_heap ?w a" "dupreq_pool w1 = pool" "ht_dupreq w1 = ht_dupreq ?w"
      using world_ok_new [OF wg(1), where p = p and t = "Suc (ticks ?w)" and e = ?e] p by (auto simp: w1_def reply_def)
    obtain rc m2 ht where s: "HashTable_Test_And_Set m1 (ht_dupreq w1) x p HASHTABLE_SET_HOW_SET_OVERWRITE = Some (rc, m2, ht)"
      "world_ok m2 (w1\<lparr>ht_dupreq := ht\<rparr>)" "brk m1 \<le> brk m2"
      "rc = HASHTABLE_SUCCESS \<and> table_map ht = (cached w1)(x \<mapsto> p) \<or> rc = HASHTABLE_INSERT_MALLOC_ERROR \<and> table_map ht = cached w1"
      by (rule world_ok_set [OF w1(1), of p x]) (use p w1 in auto)
    note fr = HashTable_Set_frame(2,3) [OF s(1), unfolded w1(7)]
    let ?w2 = "w1\<lparr>ht_dupreq := ht\<rparr>"
    have lru2: "lru_inv xs (dr_lru st) (dr_entries st) m2" using lru_inv_mono [OF lru] wg(2) s(3) by simp
    have tr2: "tracks xs (dr_entries st) ?w2" if "cached ?w x = None"
    proof (rule tracks_world [OF tr])
      fix k a
      assume ka: "cached ?w k = Some a" "k = xid (dr_heap ?w a)"
      then have "a \<noteq> p" using p by auto
      with ka show "cached ?w2 k = Some a \<and> xid (dr_heap ?w2 a) = k" using s(4) w1(3,5) p that by auto
    qed simp
    have old: "\<forall>q \<in> set xs. reply_of (dr_entries st) q \<noteq> Some p" using tr p by (auto simp: tracks_def)
    have rep: "reply ?w2 = (if rc = HASHTABLE_SUCCESS then (reply ?w)(x \<mapsto> res) else reply ?w)"
      using s(4) w1(2,4) by (auto simp: reply_def fun_eq_iff)
    let ?st2 = "st\<lparr>dr_world := ?w2, dr_mem := m2\<rparr>"
    show ?thesis
    proof (cases "rc = HASHTABLE_SUCCESS")
      case False
      have run: "nfs_dupreq_add nb sz x req res st = Some (DUPREQ_INSERT_MALLOC_ERROR, ?st2)"
        using g Some s(1) False by (simp add: nfs_dupreq_add_def time_NULL_def w1_def)
      have "\<not> (mem_good ?m \<and> nb_node_prealloc (dims (parameter (ht_dupreq ?w))) \<noteq> 0)"
        using fr(2) good1 s(4) False by auto
      with run s(2) rep lru2 tr2 False show ?thesis by (auto simp: dup_inv_def)
    next
      case True
      obtain ls pe l h m3 where n: "LRU_new_entry (dr_lru st) (dr_entries st) m2 = (ls, pe, l, h, m3)" by (metis surj_pair)
      have own: "lru_ok xs (dr_lru st) (dr_entries st)" "owned xs (entry_prealloc (dr_lru st)) m2"
        using lru2 by (auto simp: lru_inv_def)
      note e = LRU_new_entry_spec [OF own n]
      have w3: "world_ok m3 ?w2" by (rule world_ok_mono [OF s(2) e(2)])
      have px: "cached ?w2 (xid (dr_heap ?w2 p)) = Some p" using s(4) True w1(4) by auto
      have good2: "mem_good m2" if "mem_good ?m" using good1 [OF that] fr(1) by (simp add: mem_good_def)
      show ?thesis
      proof (cases pe)
        case None
        have run: "nfs_dupreq_add nb sz x req res st =
            Some (DUPREQ_INSERT_MALLOC_ERROR, ?st2\<lparr>dr_lru := l, dr_entries := h, dr_mem := m3\<rparr>)"
          using g Some s(1) True n None by (simp add: nfs_dupreq_add_def time_NULL_def w1_def)
        have "\<not> (mem_good ?m \<and> nb_entry_prealloc (lparameter (dr_lru st)) \<noteq> 0)"
          using LRU_new_entry_good [OF n good2] None by auto
        moreover have "lru_inv xs l h m3" "h = dr_entries st" using e(3) [OF None] by (auto simp: lru_inv_def)
        ultimately show ?thesis using run w3 rep tr2 True by (auto simp: dup_inv_def)
      next
        case (Some en)
        let ?h = "h(en := (h en)\<lparr>buffdata := \<lparr>pdata = Some p, len = sz\<rparr>\<rparr>)"
        have run: "nfs_dupreq_add nb sz x req res st =
            Some (DUPREQ_SUCCESS, ?st2\<lparr>dr_lru := l, dr_entries := ?h, dr_mem := m3\<rparr>)"
          using g \<open>r = Some p\<close> s(1) True n Some by (simp add: nfs_dupreq_add_def time_NULL_def w1_def)
        have "dup_inv (xs @ [en]) (?st2\<lparr>dr_lru := l, dr_entries := ?h, dr_mem := m3\<rparr>)" if "cached ?w x = None"
          using new_entry_tracks [OF lru2 n [unfolded Some] tr2 [OF that] px old, of sz] w3 by (simp add: dup_inv_def)
        with run w3 rep True show ?thesis by auto
      qed
    qed
  qed
qed

section \<open>Collecting the replies\<close>

text \<open>The calls of \<open>clean_entry_dupreq\<close> on replies that are in the table.\<close>

definition drop_keys :: "u64 list \<Rightarrow> (u64 \<Rightarrow> 'b option) \<Rightarrow> u64 \<Rightarrow> 'b option" where
  "drop_keys ks f = (\<lambda>k. if k \<in> set ks then None else f k)"

lemma clean_entry_dupreq_spec:
  assumes ok: "world_ok m w" and p: "cached w (xid (dr_heap w p)) = Some p" and fd: "dupreq_funcdesc pg (dr_heap w p) = Some fd"
    and b: "pdata buff = Some p"
  obtains ht where "clean_entry_dupreq pg buff w =
      Some (0, w\<lparr>ht_dupreq := ht, freed := freed w @ [(fd, res_nfs (dr_heap w p))], dupreq_pool := p # dupreq_pool w\<rparr>)"
    "world_ok m (w\<lparr>ht_dupreq := ht, freed := freed w @ [(fd, res_nfs (dr_heap w p))], dupreq_pool := p # dupreq_pool w\<rparr>)"
    "table_map ht = (cached w)(xid (dr_heap w p) := None)"
proof -
  have inv: "table_inv m (ht_dupreq w)" using ok by (simp add: world_ok_def)
  from table.del_law [OF inv, of "xid (dr_heap w p)"] p obtain ht where d:
    "HashTable_Del (ht_dupreq w) (xid (dr_heap w p)) = Some (HASHTABLE_SUCCESS, Some (xid (dr_heap w p), p), ht)"
    "table_inv m ht" "table_map ht = (cached w)(xid (dr_heap w p) := None)" by auto
  have pp: "p < brk m" "p \<notin> set (dupreq_pool w)" using ok p unfolding world_ok_def by blast+
  have "a \<noteq> p" if "cached w k = Some a" "k \<noteq> xid (dr_heap w p)" for k a
    using ok that unfolding world_ok_def by blast
  with ok d(2,3) pp have "world_ok m (w\<lparr>ht_dupreq := ht, freed := freed w @ [(fd, res_nfs (dr_heap w p))], dupreq_pool := p # dupreq_pool w\<rparr>)"
    by (auto simp: world_ok_def split: if_splits)
  with d fd b show thesis by (intro that) (auto simp: clean_entry_dupreq_def RELEASE_PREALLOC_def)
qed

lemma clean_all_dupreq:
  assumes "world_ok m w" and "distinct ps" and "map pdata ds = map Some ps"
    and "\<And>p. p \<in> set ps \<Longrightarrow> cached w (xid (dr_heap w p)) = Some p \<and> dupreq_funcdesc pg (dr_heap w p) \<noteq> None"
  shows "\<exists>w'. clean_all (clean_entry_dupreq pg) ds LRU_LIST_SUCCESS w = Some (LRU_LIST_SUCCESS, w') \<and> world_ok m w' \<and>
    cached w' = drop_keys (map (\<lambda>p. xid (dr_heap w p)) ps) (cached w) \<and> dr_heap w' = dr_heap w \<and>
    dupreq_pool w' = rev ps @ dupreq_pool w \<and> map snd (freed w') = map snd (freed w) @ map (\<lambda>p. res_nfs (dr_heap w p)) ps"
  using assms
proof (induction ps arbitrary: w ds)
  case Nil
  then show ?case by (intro exI [of _ w]) (auto simp: drop_keys_def)
next
  case (Cons p ps)
  obtain buff bs where ds: "ds = buff # bs" "pdata buff = Some p" "map pdata bs = map Some ps"
    using Cons.prems(3) by (cases ds) auto
  obtain fd where fd: "dupreq_funcdesc pg (dr_heap w p) = Some fd" using Cons.prems(4) [of p] by auto
  have c: "cached w (xid (dr_heap w p)) = Some p" using Cons.prems(4) [of p] by simp
  obtain ht where r: "clean_entry_dupreq pg buff w =
      Some (0, w\<lparr>ht_dupreq := ht, freed := freed w @ [(fd, res_nfs (dr_heap w p))], dupreq_pool := p # dupreq_pool w\<rparr>)"
    "world_ok m (w\<lparr>ht_dupreq := ht, freed := freed w @ [(fd, res_nfs (dr_heap w p))], dupreq_pool := p # dupreq_pool w\<rparr>)"
    "table_map ht = (cached w)(xid (dr_heap w p) := None)"
    by (rule clean_entry_dupreq_spec [OF Cons.prems(1) c fd ds(2)])
  let ?w = "w\<lparr>ht_dupreq := ht, freed := freed w @ [(fd, res_nfs (dr_heap w p))], dupreq_pool := p # dupreq_pool w\<rparr>"
  have "cached ?w (xid (dr_heap ?w q)) = Some q \<and> dupreq_funcdesc pg (dr_heap ?w q) \<noteq> None" if "q \<in> set ps" for q
  proof -
    have "q \<noteq> p" using that Cons.prems(2) by auto
    moreover have "cached w (xid (dr_heap w q)) = Some q" "dupreq_funcdesc pg (dr_heap w q) \<noteq> None"
      using Cons.prems(4) [of q] that by auto
    ultimately show ?thesis using c r(3) by auto
  qed
  from Cons.IH [OF r(2) _ ds(3) this] Cons.prems(2) obtain w' where i:
    "clean_all (clean_entry_dupreq pg) bs LRU_LIST_SUCCESS ?w = Some (LRU_LIST_SUCCESS, w')"
    "world_ok m w'" "cached w' = drop_keys (map (\<lambda>q. xid (dr_heap w q)) ps) (table_map ht)" "dr_heap w' = dr_heap w"
    "dupreq_pool w' = rev ps @ p # dupreq_pool w"
    "map snd (freed w') = map snd (freed w) @ res_nfs (dr_heap w p) # map (\<lambda>q. res_nfs (dr_heap w q)) ps" by auto
  then show ?case using r(1,3) ds(1)
    by (intro exI [of _ w']) (auto simp: drop_keys_def fun_eq_iff)
qed

text \<open>The entries that \<open>nfs_dupreq_gc_function\<close> chooses: one reading of the clock for each.\<close>

definition expired :: "int \<Rightarrow> 'r dupreq_world \<Rightarrow> int \<Rightarrow> ptr \<Rightarrow> bool" where
  "expired ex w now a \<longleftrightarrow> (case a of None \<Rightarrow> False | Some p \<Rightarrow> now - timestamp (dr_heap w p) > ex)"

text \<open>
  The entries of a list that the collection takes out: the invalid ones, which are passed without reading the clock, and
  those that have expired at the reading made for them; the readings start with the \<open>t\<close>-th.
\<close>

primrec due_entries :: "int \<Rightarrow> 'r dupreq_world \<Rightarrow> lru_heap \<Rightarrow> addr list \<Rightarrow> nat \<Rightarrow> addr list" where
  "due_entries ex w h [] t = []"
| "due_entries ex w h (e # es) t =
     (if invalid h e then e # due_entries ex w h es t
      else if expired ex w (clock w t) (reply_of h e) then e # due_entries ex w h es (Suc t)
      else due_entries ex w h es (Suc t))"

lemma due_entries_ticks [simp]: "due_entries ex (w\<lparr>ticks := n\<rparr>) h es t = due_entries ex w h es t"
  by (induction es arbitrary: t) (simp_all add: expired_def cong: option.case_cong)

lemma chosen_dupreq:
  assumes "\<And>e. e \<in> set es \<Longrightarrow> reply_of h e \<noteq> None" and "distinct es"
  shows "\<exists>ps. chosen (nfs_dupreq_gc_function ex) (valid_data h es) w = Some (ps, w\<lparr>ticks := ticks w + length (valid_data h es)\<rparr>) \<and>
    filter (\<lambda>e. invalid h e \<or> e \<in> set ps) es = due_entries ex w h es (ticks w)"
  using assms
proof (induction es arbitrary: w)
  case Nil
  then show ?case by simp
next
  case (Cons e es)
  let ?w = "if invalid h e then w else w\<lparr>ticks := Suc (ticks w)\<rparr>"
  obtain a where a: "reply_of h e = Some a" using Cons.prems(1) [of e] by auto
  from Cons.IH [of ?w] Cons.prems obtain ps where i:
    "chosen (nfs_dupreq_gc_function ex) (valid_data h es) ?w = Some (ps, ?w\<lparr>ticks := ticks ?w + length (valid_data h es)\<rparr>)"
    "filter (\<lambda>e. invalid h e \<or> e \<in> set ps) es = due_entries ex ?w h es (ticks ?w)" by auto
  have e: "e \<notin> set ps" "e \<notin> set es" using chosen_subset [OF i(1)] Cons.prems(2) by auto
  then have "filter (\<lambda>x. invalid h x \<or> x = e \<or> x \<in> set ps) es = filter (\<lambda>x. invalid h x \<or> x \<in> set ps) es"
    by (intro filter_cong) auto
  note same = this
  have f: "nfs_dupreq_gc_function ex (buffdata (h e)) w =
      Some (if expired ex w (clock w (ticks w)) (Some a) then LRU_LIST_SET_INVALID else LRU_LIST_DO_NOT_SET_INVALID,
        w\<lparr>ticks := Suc (ticks w)\<rparr>)"
    using a by (simp add: nfs_dupreq_gc_function_def time_NULL_def expired_def)
  have ne: "LRU_LIST_DO_NOT_SET_INVALID \<noteq> LRU_LIST_SET_INVALID"
    by (simp add: LRU_LIST_SET_INVALID_def LRU_LIST_DO_NOT_SET_INVALID_def)
  consider "invalid h e" | "\<not> invalid h e" "expired ex w (clock w (ticks w)) (Some a)"
    | "\<not> invalid h e" "\<not> expired ex w (clock w (ticks w)) (Some a)" by blast
  then show ?case
  proof cases
    case 1
    with i show ?thesis by simp
  next
    case 2
    with i same f a show ?thesis by (intro exI [of _ "e # ps"]) simp
  next
    case 3
    with i same f a ne e show ?thesis by (intro exI [of _ ps]) simp
  qed
qed

lemma mark_buffdata [simp]: "buffdata (mark ps h p) = buffdata (h p)"
  by (simp add: mark_def)

text \<open>What the collection takes out of the list, and what it keeps.\<close>

lemma drops_marked:
  assumes "distinct xs" and "set ps \<subseteq> set (butlast xs)"
  shows "gc_keeps (mark ps h) xs = filter (\<lambda>e. e \<notin> set (gc_drops (mark ps h) xs)) xs"
    and "set (gc_drops (mark ps h) xs) = {e \<in> set (butlast xs). invalid h e \<or> e \<in> set ps}"
proof -
  show *: "set (gc_drops (mark ps h) xs) = {e \<in> set (butlast xs). invalid h e \<or> e \<in> set ps}"
    by (auto simp: gc_drops_def mark_def)
  show "gc_keeps (mark ps h) xs = filter (\<lambda>e. e \<notin> set (gc_drops (mark ps h) xs)) xs"
  proof (cases xs rule: rev_cases)
    case (snoc ys y)
    with assms show ?thesis
      by (auto simp: gc_keeps_def gc_drops_def mark_def intro!: filter_cong)
  qed (simp add: gc_keeps_def)
qed

lemma tracked_addresses:
  assumes "tracks xs h w" and "set ds \<subseteq> set xs" and "distinct ds"
  obtains ps where "map (reply_of h) ds = map Some ps" and "distinct ps"
    and "\<And>p. p \<in> set ps \<Longrightarrow> cached w (xid (dr_heap w p)) = Some p"
proof -
  let ?ps = "map (\<lambda>e. the (reply_of h e)) ds"
  have r: "\<exists>a. reply_of h e = Some a \<and> cached w (xid (dr_heap w a)) = Some a" if "e \<in> set ds" for e
    using assms(1,2) that by (auto simp: tracks_def)
  have inj: "inj_on (reply_of h) (set xs)" "distinct (map (reply_of h) xs)" using assms(1) by (auto simp: tracks_def distinct_map)
  have m: "map (reply_of h) ds = map Some ?ps" using r by fastforce
  have "distinct (map (reply_of h) ds)" using inj(1) assms(2,3) by (auto simp: distinct_map intro: inj_on_subset)
  then have "distinct ?ps" unfolding m by (simp only: distinct_map [of Some])
  with m r show thesis by (intro that [of ?ps]) fastforce+
qed

lemma tracks_kept:
  assumes tr: "tracks xs h w" and m: "map (reply_of h) ds = map Some ps" and sub: "set ds \<subseteq> set xs"
    and c: "\<And>p. p \<in> set ps \<Longrightarrow> cached w (xid (dr_heap w p)) = Some p"
    and w': "cached w' = drop_keys (map (\<lambda>p. xid (dr_heap w p)) ps) (cached w)" "dr_heap w' = dr_heap w"
    and h': "\<And>e. buffdata (h' e) = buffdata (h e)"
  shows "tracks (filter (\<lambda>e. e \<notin> set ds) xs) h' w'"
proof -
  have inj: "inj_on (reply_of h) (set xs)" "distinct xs" using tr by (auto simp: tracks_def distinct_map)
  have img: "Some ` set ps = reply_of h ` set ds" using arg_cong [OF m, of set] by simp
  have "\<exists>a. reply_of h e = Some a \<and> cached w' (xid (dr_heap w a)) = Some a" if e: "e \<in> set xs" "e \<notin> set ds" for e
  proof -
    obtain a where a: "reply_of h e = Some a" "cached w (xid (dr_heap w a)) = Some a" using tr e by (auto simp: tracks_def)
    have "a \<notin> set ps"
    proof
      assume "a \<in> set ps"
      then have "reply_of h e \<in> reply_of h ` set ds" using img a(1) by auto
      then obtain d where d: "d \<in> set ds" "reply_of h d = reply_of h e" by auto
      from inj_onD [OF inj(1) d(2)] d(1) sub e show False by blast
    qed
    have "xid (dr_heap w a) \<notin> (\<lambda>p. xid (dr_heap w p)) ` set ps"
    proof
      assume "xid (dr_heap w a) \<in> (\<lambda>p. xid (dr_heap w p)) ` set ps"
      then obtain p where "p \<in> set ps" "xid (dr_heap w a) = xid (dr_heap w p)" by auto
      with c [of p] a(2) \<open>a \<notin> set ps\<close> show False by simp
    qed
    with a show ?thesis by (simp add: w' drop_keys_def)
  qed
  moreover have "distinct (map (reply_of h) (filter (\<lambda>e. e \<notin> set ds) xs))"
    using inj by (auto simp: distinct_map intro: inj_on_subset)
  ultimately show ?thesis by (auto simp: tracks_def h' w'(2))
qed

lemma worker_dupreq_gc_spec:
  assumes inv: "dup_inv xs st" and len: "length xs < 2 ^ 32"
    and due: "nb_call_gc_invalid (lparameter (dr_lru st)) \<le> nb_call_gc (dr_lru st)"
    and cl: "clean_entry (lparameter (dr_lru st)) = clean_entry_dupreq pg"
    and known: "\<And>e a. e \<in> set xs \<Longrightarrow> reply_of (dr_entries st) e = Some a \<Longrightarrow>
      dupreq_funcdesc pg (dr_heap (dr_world st) a) \<noteq> None"
  shows "\<exists>st' ps. worker_dupreq_gc ex st = Some (LRU_LIST_SUCCESS, st') \<and>
    (let ds = due_entries ex (dr_world st) (dr_entries st) (butlast xs) (ticks (dr_world st)) in
     dup_inv (filter (\<lambda>e. e \<notin> set ds) xs) st' \<and> map (reply_of (dr_entries st)) ds = map Some ps) \<and>
    reply (dr_world st') = drop_keys (map (\<lambda>p. xid (dr_heap (dr_world st) p)) ps) (reply (dr_world st)) \<and>
    dupreq_pool (dr_world st') = rev ps @ dupreq_pool (dr_world st) \<and>
    map snd (freed (dr_world st')) = map snd (freed (dr_world st)) @ map (\<lambda>p. res_nfs (dr_heap (dr_world st) p)) ps"
proof -
  let ?w = "dr_world st" and ?h = "dr_entries st" and ?l = "dr_lru st" and ?xs = "valid_data (dr_entries st) (butlast xs)"
  have wok: "world_ok (dr_mem st) ?w" and ok: "lru_ok xs ?l ?h" and own: "owned xs (entry_prealloc ?l) (dr_mem st)"
    and tr: "tracks xs ?h ?w" using inv by (auto simp: dup_inv_def lru_inv_def)
  have dxs: "distinct xs" using ok by (simp add: lru_ok_def)
  have "reply_of ?h e \<noteq> None" if "e \<in> set (butlast xs)" for e using that tr by (auto simp: tracks_def dest!: in_set_butlastD)
  from chosen_dupreq [where ex = ex and w = ?w and h = ?h, OF this distinct_butlast [OF dxs]] obtain cs where c:
    "chosen (nfs_dupreq_gc_function ex) ?xs ?w = Some (cs, ?w\<lparr>ticks := ticks ?w + length ?xs\<rparr>)"
    "filter (\<lambda>e. invalid ?h e \<or> e \<in> set cs) (butlast xs) = due_entries ex ?w ?h (butlast xs) (ticks ?w)" by blast
  let ?w1 = "?w\<lparr>ticks := ticks ?w + length ?xs\<rparr>" and ?h1 = "mark cs ?h"
    and ?l1 = "?l\<lparr>nb_invalid := nb_invalid ?l + of_nat (length cs)\<rparr>"
  note mk = chosen_marked [OF ok c(1)]
  define ds where "ds = gc_drops ?h1 xs"
  note dr = drops_marked [OF dxs mk(2), of ?h, folded ds_def]
  have due_ds: "ds = due_entries ex ?w ?h (butlast xs) (ticks ?w)"
    unfolding ds_def gc_drops_def c(2) [symmetric] by (intro filter_cong) (auto simp: mark_def)
  have sub: "set ds \<subseteq> set (butlast xs)" "set ds \<subseteq> set xs" "distinct ds"
    using dr(2) dxs by (auto simp: ds_def gc_drops_def distinct_butlast dest: in_set_butlastD)
  have w1: "world_ok (dr_mem st) ?w1" "cached ?w1 = cached ?w" using wok by (auto simp: world_ok_def)
  obtain ps where ps: "map (reply_of ?h) ds = map Some ps" "distinct ps" "\<And>p. p \<in> set ps \<Longrightarrow> cached ?w (xid (dr_heap ?w p)) = Some p"
    using tracked_addresses [OF tr sub(2,3)] by blast
  have "p \<in> set ps \<Longrightarrow> dupreq_funcdesc pg (dr_heap ?w p) \<noteq> None" for p
    using arg_cong [OF ps(1), of set] known sub(2) by (auto simp: set_eq_iff image_iff) (metis subsetD)
  with clean_all_dupreq [OF w1(1) ps(2), of "map (\<lambda>e. buffdata (?h1 e)) ds" pg] ps obtain w2 where w2:
    "clean_all (clean_entry_dupreq pg) (map (\<lambda>e. buffdata (?h1 e)) ds) LRU_LIST_SUCCESS ?w1 = Some (LRU_LIST_SUCCESS, w2)"
    "world_ok (dr_mem st) w2" "cached w2 = drop_keys (map (\<lambda>p. xid (dr_heap ?w p)) ps) (cached ?w)" "dr_heap w2 = dr_heap ?w"
    "dupreq_pool w2 = rev ps @ dupreq_pool ?w"
    "map snd (freed w2) = map snd (freed ?w) @ map (\<lambda>p. res_nfs (dr_heap ?w p)) ps" by (auto simp: comp_def)
  from LRU_gc_spec [OF mk(1) len] due cl obtain l2 h2 where g:
    "\<forall>w. LRU_gc_invalid (Some ?l1) ?h1 w = map_option (\<lambda>(rc, w). (rc, Some l2, h2, w))
      (clean_all (clean_entry_dupreq pg) (map (\<lambda>p. buffdata (?h1 p)) ds) LRU_LIST_SUCCESS w)"
    "lru_ok (gc_keeps ?h1 xs) l2 h2" "same_contents (set xs) ?h1 h2" "entry_prealloc l2 = rev ds @ entry_prealloc ?l"
    unfolding ds_def by auto
  let ?st = "st\<lparr>dr_lru := l2, dr_entries := h2, dr_world := w2\<rparr>"
  have run: "worker_dupreq_gc ex st = Some (LRU_LIST_SUCCESS, ?st)"
    using LRU_by_function_spec [OF ok len, of "nfs_dupreq_gc_function ex" ?w] c(1) g(1) w2(1)
    by (simp add: worker_dupreq_gc_def)
  have "lru_inv (filter (\<lambda>e. e \<notin> set ds) xs) l2 h2 (dr_mem st)"
    using g(2,4) owned_gc [OF own, of ?h1] dr(1) by (simp add: lru_inv_def ds_def)
  moreover have "tracks (filter (\<lambda>e. e \<notin> set ds) xs) h2 w2"
    using g(3) by (intro tracks_kept [OF tr ps(1) sub(2) ps(3) w2(3,4)]) (simp_all add: same_contents_def)
  ultimately have "dup_inv (filter (\<lambda>e. e \<notin> set ds) xs) ?st" using w2(2) by (simp add: dup_inv_def)
  moreover have "reply w2 = drop_keys (map (\<lambda>p. xid (dr_heap ?w p)) ps) (reply ?w)"
    using w2(3,4) by (auto simp: reply_def drop_keys_def fun_eq_iff)
  ultimately show ?thesis using run ps(1) w2(5,6) by (intro exI [of _ ?st] exI [of _ ps]) (simp add: Let_def flip: due_ds)
qed

section \<open>What the cache promises\<close>

text \<open>
  C22. \<open>nfs_dupreq_add\<close> returns on every branch. On success a later \<open>nfs_dupreq_get\<close> of the transfer id returns the
  reply, and those of the other ids return what they returned before; on an error the other ids are not affected, and
  there is no error when no allocation fails. The LRU list, the table and the pools stay consistent when the id was
  not cached, which the workers check before they execute a request. Lookups change no reply, and an id that is
  not cached is reported as such.
\<close>

theorem dupreq_add_get:
  assumes "dup_inv xs st"
  shows "\<exists>rc st'. nfs_dupreq_add nb sz x req res st = Some (rc, st') \<and>
    (\<forall>k. \<exists>w. nfs_dupreq_get k (dr_world st') =
        Some (if reply (dr_world st') k = None then DUPREQ_NOT_FOUND else DUPREQ_SUCCESS, reply (dr_world st') k, w) \<and>
      reply w = reply (dr_world st')) \<and>
    (rc = DUPREQ_SUCCESS \<and> reply (dr_world st') = (reply (dr_world st))(x \<mapsto> res) \<and>
       (reply (dr_world st) x = None \<longrightarrow> (\<exists>e. dup_inv (xs @ [e]) st')) \<or>
     rc = DUPREQ_INSERT_MALLOC_ERROR \<and> (\<forall>k. k \<noteq> x \<longrightarrow> reply (dr_world st') k = reply (dr_world st) k) \<and>
       (reply (dr_world st) x = None \<longrightarrow> dup_inv xs st') \<and>
       \<not> (mem_good (dr_mem st) \<and> nb \<noteq> 0 \<and> nb_node_prealloc (dims (parameter (ht_dupreq (dr_world st)))) \<noteq> 0 \<and>
          nb_entry_prealloc (lparameter (dr_lru st)) \<noteq> 0))"
proof -
  have r: "reply w k = None \<longleftrightarrow> cached w k = None" for w :: "'a dupreq_world" and k by (simp add: reply_def)
  from nfs_dupreq_add_spec [OF assms, of nb sz x req res] obtain rc st' where a:
    "nfs_dupreq_add nb sz x req res st = Some (rc, st')" "world_ok (dr_mem st') (dr_world st')" by blast
  have "\<exists>w. nfs_dupreq_get k (dr_world st') =
        Some (if reply (dr_world st') k = None then DUPREQ_NOT_FOUND else DUPREQ_SUCCESS, reply (dr_world st') k, w) \<and>
      reply w = reply (dr_world st')" for k
    using nfs_dupreq_get_spec [OF a(2), of k] unfolding r by blast
  with a(1) nfs_dupreq_add_spec [OF assms, of nb sz x req res] show ?thesis unfolding r by (auto 0 0)
qed

text \<open>
  C21. The garbage collection that a worker runs on its replies, when its list is due for one
  (\<open>nb_call_gc_invalid\<close> \<open>\<le>\<close> \<open>nb_call_gc\<close>): it succeeds and takes out exactly the entries before the MRU that are invalid
  or have expired at the reading of the clock made for them, in the order of the list. The cached replies of exactly these entries
  are gone, each is freed once and back in the pool, and the replies of all other ids are unchanged. The
  hypothesis on the replies is that their programs and procedures are known.
\<close>

theorem dupreq_gc_removes_expired:
  assumes "dup_inv xs st" and "length xs < 2 ^ 32"
    and "nb_call_gc_invalid (lparameter (dr_lru st)) \<le> nb_call_gc (dr_lru st)"
    and "clean_entry (lparameter (dr_lru st)) = clean_entry_dupreq pg"
    and "\<And>e a. e \<in> set xs \<Longrightarrow> reply_of (dr_entries st) e = Some a \<Longrightarrow>
      dupreq_funcdesc pg (dr_heap (dr_world st) a) \<noteq> None"
  shows "\<exists>st' ps. worker_dupreq_gc ex st = Some (LRU_LIST_SUCCESS, st') \<and>
    (let ds = due_entries ex (dr_world st) (dr_entries st) (butlast xs) (ticks (dr_world st)) in
     dup_inv (filter (\<lambda>e. e \<notin> set ds) xs) st' \<and> map (reply_of (dr_entries st)) ds = map Some ps) \<and>
    reply (dr_world st') = drop_keys (map (\<lambda>p. xid (dr_heap (dr_world st) p)) ps) (reply (dr_world st)) \<and>
    dupreq_pool (dr_world st') = rev ps @ dupreq_pool (dr_world st) \<and>
    map snd (freed (dr_world st')) = map snd (freed (dr_world st)) @ map (\<lambda>p. res_nfs (dr_heap (dr_world st) p)) ps"
  by (rule worker_dupreq_gc_spec [OF assms])

text \<open>
  When an id is added again while an older reply is in the list, cleaning the entry of the older reply removes the
  newer reply from the table and puts the older one in the pool; the newer reply is neither freed nor released.
\<close>

lemma reused_xid_loses_reply:
  assumes ok: "world_ok m w" and "pdata buff = Some p" and "xid (dr_heap w p) = k" and "cached w k = Some q" and "p \<noteq> q"
    and "dupreq_funcdesc pg (dr_heap w p) \<noteq> None"
  shows "\<exists>w'. clean_entry_dupreq pg buff w = Some (0, w') \<and> cached w' k = None \<and> dupreq_pool w' = p # dupreq_pool w"
proof -
  have inv: "table_inv m (ht_dupreq w)" using ok by (simp add: world_ok_def)
  from table.del_law [OF inv, of k] assms(4) obtain ht where
    "HashTable_Del (ht_dupreq w) k = Some (HASHTABLE_SUCCESS, Some (k, q), ht)" "table_map ht = (cached w)(k := None)" by auto
  with assms(2,3,6) show ?thesis by (auto simp: clean_entry_dupreq_def RELEASE_PREALLOC_def)
qed

section \<open>Example\<close>

lemma LRU_new_entry_frame:
  assumes "LRU_new_entry l h m = (rc, r, l', h', m')"
  shows "lparameter l' = lparameter l \<and> fails m' = fails m"
proof -
  obtain q pool m1 where g: "GET_PREALLOC (nb_entry_prealloc (lparameter l)) (entry_prealloc l) m = (q, pool, m1)"
    by (cases "GET_PREALLOC (nb_entry_prealloc (lparameter l)) (entry_prealloc l) m") auto
  with assms GET_PREALLOC_fails [OF g] show ?thesis
    by (auto simp: LRU_new_entry_def Let_def split: option.splits)
qed

lemma set_frame:
  "HashTable_Test_And_Set m ht k v how = Some (rc, m', ht') \<Longrightarrow> parameter ht' = parameter ht \<and> fails m' = fails m"
  by (simp add: HashTable_Set_frame(1,2))

lemma nfs_dupreq_add_frame:
  assumes "nfs_dupreq_add nb sz x req res st = Some (rc, st')"
  shows "lparameter (dr_lru st') = lparameter (dr_lru st)" and "fails (dr_mem st') = fails (dr_mem st)"
    and "clock (dr_world st') = clock (dr_world st)"
    and "parameter (ht_dupreq (dr_world st')) = parameter (ht_dupreq (dr_world st))"
    and "\<And>a. dr_heap (dr_world st') a = dr_heap (dr_world st) a \<or> d_prog (dr_heap (dr_world st') a) = ucast (rq_prog req) \<and>
      d_vers (dr_heap (dr_world st') a) = ucast (rq_vers req) \<and> d_proc (dr_heap (dr_world st') a) = ucast (rq_proc req) \<and>
      timestamp (dr_heap (dr_world st') a) = clock (dr_world st) (ticks (dr_world st))"
proof -
  obtain q pool m1 where g: "GET_PREALLOC nb (dupreq_pool (dr_world st)) (dr_mem st) = (q, pool, m1)"
    by (cases "GET_PREALLOC nb (dupreq_pool (dr_world st)) (dr_mem st)") auto
  note f = GET_PREALLOC_fails [OF g]
  show "lparameter (dr_lru st') = lparameter (dr_lru st)" "fails (dr_mem st') = fails (dr_mem st)"
    "clock (dr_world st') = clock (dr_world st)"
    "parameter (ht_dupreq (dr_world st')) = parameter (ht_dupreq (dr_world st))"
    using assms g f
    by (auto simp: nfs_dupreq_add_def time_NULL_def Let_def dest!: set_frame LRU_new_entry_frame
        split: option.splits bind_splits if_splits prod.splits)
  show "dr_heap (dr_world st') a = dr_heap (dr_world st) a \<or> d_prog (dr_heap (dr_world st') a) = ucast (rq_prog req) \<and>
      d_vers (dr_heap (dr_world st') a) = ucast (rq_vers req) \<and> d_proc (dr_heap (dr_world st') a) = ucast (rq_proc req) \<and>
      timestamp (dr_heap (dr_world st') a) = clock (dr_world st) (ticks (dr_world st))" for a
    using assms g
    by (auto simp: nfs_dupreq_add_def time_NULL_def Let_def split: option.splits bind_splits if_splits prod.splits)
qed

text \<open>An empty cache, whose clock always reads 0, and two replies to NFSv3 requests.\<close>

definition small_programs :: rpc_programs where
  "small_programs = \<lparr>nfs_program = 100003, mnt_program = 100005, nlm_program = 100021, rquota_program = 100011\<rparr>"

definition empty_lru :: "nat dupreq_world lru_list" where
  "empty_lru = \<lparr>LRU = None, MRU = None, nb_entry = 0, nb_invalid = 0, nb_call_gc = 0,
     lparameter = \<lparr>nb_entry_prealloc = 2, nb_call_gc_invalid = 0, clean_entry = clean_entry_dupreq small_programs\<rparr>,
     entry_prealloc = []\<rparr>"

definition small_cache :: "nat dupreq_state" where
  "small_cache = (case new_table (dupreq_param small_dims) mem_ok of (ht, m) \<Rightarrow>
     \<lparr>dr_world = \<lparr>ht_dupreq = ht, dr_heap = (\<lambda>a. \<lparr>xid = 0, res_nfs = 0, d_prog = 100003, d_vers = 3, d_proc = 1, timestamp = 0\<rparr>),
        dupreq_pool = [], freed = [], clock = (\<lambda>i. 0), ticks = 0\<rparr>,
      dr_mem = m, dr_lru = empty_lru, dr_entries = (\<lambda>p. \<lparr>lr_next = None, lr_prev = None, valid_state = LRU_ENTRY_BLANK,
        buffdata = \<lparr>pdata = None, len = 0\<rparr>\<rparr>)\<rparr>)"

definition cache_ready :: "nat dupreq_state \<Rightarrow> bool" where
  "cache_ready st \<longleftrightarrow> mem_good (dr_mem st) \<and> parameter (ht_dupreq (dr_world st)) = dupreq_param small_dims \<and>
     lparameter (dr_lru st) = lparameter empty_lru \<and> clock (dr_world st) = (\<lambda>i. 0) \<and>
     (\<forall>a. dupreq_funcdesc small_programs (dr_heap (dr_world st) a) \<noteq> None \<and> timestamp (dr_heap (dr_world st) a) = 0)"

lemma small_cache_ok: "dup_inv [] small_cache" "cache_ready small_cache" "reply (dr_world small_cache) = Map.empty"
proof -
  obtain ht m where t: "(new_table (dupreq_param small_dims) mem_ok :: (u64, addr) hash_table \<times> mem) = (ht, m)"
    by (cases "new_table (dupreq_param small_dims) mem_ok :: (u64, addr) hash_table \<times> mem") auto
  note n = new_table [OF dupreq_param_good [OF small_dims_nonzero(1)] mem_ok_good _ _ t]
  have "table_inv m ht" "table_map ht = Map.empty" "mem_good m" "parameter ht = dupreq_param small_dims"
    using n(2,3,5,6) small_dims_nonzero by (auto simp: dupreq_param_def)
  with t show "dup_inv [] small_cache" "cache_ready small_cache" "reply (dr_world small_cache) = Map.empty"
    by (auto simp: small_cache_def dup_inv_def world_ok_def lru_inv_def lru_ok_def owned_def tracks_def empty_lru_def
        cache_ready_def reply_def fun_eq_iff dupreq_funcdesc_def func_desc_def table_size_def small_programs_def)
qed

lemma ready_add:
  assumes "dup_inv xs st" and "cache_ready st" and "reply (dr_world st) x = None"
  obtains st' e where "nfs_dupreq_add 2 8 x getattr3 res st = Some (DUPREQ_SUCCESS, st')" "dup_inv (xs @ [e]) st'"
    "cache_ready st'" "reply (dr_world st') = (reply (dr_world st))(x \<mapsto> res)"
proof -
  have "cached (dr_world st) x = None" using assms(3) by (simp add: reply_def)
  moreover have "mem_good (dr_mem st) \<and> nb_node_prealloc (dims (parameter (ht_dupreq (dr_world st)))) \<noteq> 0 \<and>
      nb_entry_prealloc (lparameter (dr_lru st)) \<noteq> 0"
    using assms(2) by (simp add: cache_ready_def dupreq_param_def empty_lru_def small_dims_def)
  ultimately obtain st' e where a: "nfs_dupreq_add 2 8 x getattr3 res st = Some (DUPREQ_SUCCESS, st')" "dup_inv (xs @ [e]) st'"
    "reply (dr_world st') = (reply (dr_world st))(x \<mapsto> res)"
    using nfs_dupreq_add_spec [OF assms(1), of 2 8 x getattr3 res] by auto
  note f = nfs_dupreq_add_frame [OF a(1)]
  have "dupreq_funcdesc small_programs (dr_heap (dr_world st') b) \<noteq> None \<and> timestamp (dr_heap (dr_world st') b) = 0" for b
  proof (cases "dr_heap (dr_world st') b = dr_heap (dr_world st) b")
    case False
    with f(5) [of b] assms(2) show ?thesis by (auto simp: cache_ready_def dupreq_funcdesc_def func_desc_def table_size_def small_programs_def)
  qed (use assms(2) in \<open>simp add: cache_ready_def\<close>)
  with f(1-4) assms(2) have "cache_ready st'" by (simp add: cache_ready_def mem_good_def)
  with a show thesis by (intro that)
qed

theorem dupreq_add_get_witness:
  "\<exists>st' w. nfs_dupreq_add 2 8 5 getattr3 42 small_cache = Some (DUPREQ_SUCCESS, st') \<and>
     nfs_dupreq_get 5 (dr_world st') = Some (DUPREQ_SUCCESS, Some 42, w)"
proof -
  have "mem_good (dr_mem small_cache) \<and> nb_node_prealloc (dims (parameter (ht_dupreq (dr_world small_cache)))) \<noteq> 0 \<and>
      nb_entry_prealloc (lparameter (dr_lru small_cache)) \<noteq> 0"
    using small_cache_ok(2) by (simp add: cache_ready_def dupreq_param_def empty_lru_def small_dims_def)
  with dupreq_add_get [OF small_cache_ok(1), of 2 8 5 getattr3 42] obtain st' where
    a: "nfs_dupreq_add 2 8 5 getattr3 42 small_cache = Some (DUPREQ_SUCCESS, st')" "reply (dr_world st') 5 = Some 42"
    and "\<forall>k. \<exists>w. nfs_dupreq_get k (dr_world st') = Some (if reply (dr_world st') k = None then DUPREQ_NOT_FOUND
       else DUPREQ_SUCCESS, reply (dr_world st') k, w) \<and> reply w = reply (dr_world st')" by force
  from this(3) [rule_format, of 5] a show ?thesis by auto
qed

text \<open>With an expiration of -1 every reply has expired at once; the newest one stays.\<close>

theorem dupreq_gc_removes_expired_witness:
  "\<exists>st1 st2 st3 k. nfs_dupreq_add 2 8 5 getattr3 42 small_cache = Some (DUPREQ_SUCCESS, st1) \<and>
     nfs_dupreq_add 2 8 6 getattr3 43 st1 = Some (DUPREQ_SUCCESS, st2) \<and>
     worker_dupreq_gc (- 1) st2 = Some (LRU_LIST_SUCCESS, st3) \<and>
     reply (dr_world st2) k \<noteq> None \<and> reply (dr_world st3) k = None"
proof -
  have n: "reply (dr_world small_cache) 5 = None" by (simp add: small_cache_ok(3))
  obtain st1 e1 where 1: "nfs_dupreq_add 2 8 5 getattr3 42 small_cache = Some (DUPREQ_SUCCESS, st1)" "dup_inv ([] @ [e1]) st1"
    "cache_ready st1" "reply (dr_world st1) = (reply (dr_world small_cache))(5 \<mapsto> 42)"
    by (rule ready_add [OF small_cache_ok(1,2) n, of 42])
  have n: "reply (dr_world st1) 6 = None" using 1(4) by (simp add: small_cache_ok(3))
  obtain st2 e2 where 2: "nfs_dupreq_add 2 8 6 getattr3 43 st1 = Some (DUPREQ_SUCCESS, st2)" "dup_inv (([] @ [e1]) @ [e2]) st2"
    "cache_ready st2" by (rule ready_add [OF 1(2,3) n, of 43])
  have r: "nb_call_gc_invalid (lparameter (dr_lru st2)) \<le> nb_call_gc (dr_lru st2)"
    "clean_entry (lparameter (dr_lru st2)) = clean_entry_dupreq small_programs"
    using 2(3) by (auto simp: cache_ready_def empty_lru_def)
  have k: "dupreq_funcdesc small_programs (dr_heap (dr_world st2) a) \<noteq> None" for a using 2(3) by (simp add: cache_ready_def)
  obtain a where a: "reply_of (dr_entries st2) e1 = Some a" "cached (dr_world st2) (xid (dr_heap (dr_world st2) a)) = Some a"
    using 2(2) by (auto simp: dup_inv_def tracks_def)
  have "due_entries (- 1) (dr_world st2) (dr_entries st2) (butlast (([] @ [e1]) @ [e2])) (ticks (dr_world st2)) = [e1]"
    using a(1) 2(3) by (simp add: expired_def cache_ready_def)
  with dupreq_gc_removes_expired [OF 2(2) _ r k, of "- 1"] a(1) obtain st3 where
    3: "worker_dupreq_gc (- 1) st2 = Some (LRU_LIST_SUCCESS, st3)"
      "reply (dr_world st3) = drop_keys [xid (dr_heap (dr_world st2) a)] (reply (dr_world st2))"
    by (auto simp: Let_def)
  from 3(2) have "reply (dr_world st3) (xid (dr_heap (dr_world st2) a)) = None" by (simp add: drop_keys_def)
  moreover have "reply (dr_world st2) (xid (dr_heap (dr_world st2) a)) \<noteq> None" using a(2) by (simp add: reply_def)
  ultimately show ?thesis using 1(1) 2(1) 3(1) by blast
qed

end
