(* ===== verification/Buddy.thy ===== *)
theory Buddy
  imports Hash_Table Linked_List
begin

text \<open>
  The memory allocator of the server, \<^verbatim>\<open>BuddyMalloc/BuddyMalloc.c\<close>. Every thread has a context with pages of \<open>2 ^ k_size\<close>
  bytes; a page is split into blocks whose sizes are powers of two, and a free block is in the list \<open>MemDesc\<close> of
  its size. This theory has the data and the operations; the proofs are in \<^verbatim>\<open>Buddy_Inv\<close> and the theories after it.

  The state is that of one context: \<open>self\<close> is the calling thread, which is the owner of the context in all calls but
  those of \<open>BuddyFree\<close>. Blocks are records in a heap indexed by their address in bytes; of the unions in a block the
  members are fields of their own, each read only where the code has written it. The pages come from \<^verbatim>\<open>malloc\<close>,
  which is \<open>Mem_Alloc\<close> in bytes: it may fail at any call and does not hand out an address twice. The build is that
  of a 64 bit system without memory leak debugging: a block header has 48 bytes, a free block at least 16 more.

  \<open>None\<close> is undefined or does not return: a NULL dereference, a shift \<^verbatim>\<open>1 << k\<close> of an \<^verbatim>\<open>int\<close> beyond 30 bits, a bad magic
  number where \<^verbatim>\<open>isBadMagicNumber\<close> is tested (it has no \<^verbatim>\<open>return\<close> on that path), a call of \<^verbatim>\<open>exit\<close>.
\<close>

unbundle bit_operations_syntax

section \<open>Data\<close>

datatype BuddyBlockStatus = FREE_BLOCK | RESERVED_BLOCK

datatype buddy_err = BUDDY_SUCCESS | BUDDY_ERR_ENOENT | BUDDY_ERR_EINVAL | BUDDY_ERR_EFAULT | BUDDY_ERR_INUSE | BUDDY_ERR_MALLOC
  | BUDDY_ERR_OUTOFMEM | BUDDY_ERR_NOTINIT | BUDDY_ERR_ALREADYINIT

definition MAGIC_NUMBER_FREE :: u32 where
  "MAGIC_NUMBER_FREE = 0xF4EEB10C"

definition MAGIC_NUMBER_USED :: u32 where
  "MAGIC_NUMBER_USED = 0x1D0BE1AE"

definition size_header64 :: u64 where
  "size_header64 = 48"

definition MIN_ALLOC_SIZE :: u64 where
  "MIN_ALLOC_SIZE = 16"

definition BUDDY_MAX_LOG2_SIZE :: nat where
  "BUDDY_MAX_LOG2_SIZE = 64"

record buddy_parameter =
  memory_area_size :: u64
  on_demand_alloc :: bool
  extra_alloc :: bool
  free_areas :: bool
  keep_factor :: u32
  keep_minimum :: u32

definition default_buddy_parameter :: buddy_parameter where
  "default_buddy_parameter = \<lparr>memory_area_size = 1048576, on_demand_alloc = True, extra_alloc = True, free_areas = True,
     keep_factor = 3, keep_minimum = 5\<rparr>"

record buddy_stats =
  TotalMemSpace :: u64
  WM_TotalMemSpace :: u64
  StdMemSpace :: u64
  WM_StdMemSpace :: u64
  StdUsedSpace :: u64
  WM_StdUsedSpace :: u64
  StdPageSize :: u64
  NbStdPages :: u32
  NbStdUsed :: u32
  WM_NbStdUsed :: u32
  ExtraMemSpace :: u64
  WM_ExtraMemSpace :: u64
  MinExtraPageSize :: u64
  MaxExtraPageSize :: u64
  NbExtraPages :: u32
  WM_NbExtraPages :: u32

record BuddyBlock =
  Base_ptr :: ptr
  MagicNumber :: u32
  OwnerThread :: nat
  Base_kSize :: nat
  k_size :: nat
  ExtraInfo :: u64
  status :: BuddyBlockStatus
  NextBlock :: ptr
  PrevBlock :: ptr
  NextToBeFreed :: ptr

record buddy_state =
  initialized :: bool
  owner :: nat
  Config :: buddy_parameter
  Stats :: buddy_stats
  page_ksize :: nat
  MemDesc :: "nat \<Rightarrow> ptr"
  Errno :: buddy_err
  ToBeFreed_list :: ptr
  destroy_pending :: bool
  released :: bool
  blocks :: "addr \<Rightarrow> BuddyBlock"
  sysmem :: mem
  user_writes :: "(addr \<times> u64) list"

text \<open>
  \<open>page_ksize\<close> is the field \<open>k_size\<close> of the context; \<open>released\<close> says that the context has been given to \<^verbatim>\<open>free\<close>. \<open>user_writes\<close> is the sequence of the \<^verbatim>\<open>memcpy\<close> and \<^verbatim>\<open>memset\<close> of the
  allocator to user memory: the address and the length.
\<close>

section \<open>Sizes\<close>

function log2_loop :: "u64 \<Rightarrow> nat \<Rightarrow> u64 \<Rightarrow> nat" where
  "log2_loop i_size k local_size =
     (if local_size < i_size then
        if Suc k \<ge> BUDDY_MAX_LOG2_SIZE then 0 else log2_loop i_size (Suc k) (push_bit 1 local_size)
      else k)"
  by pat_completeness auto
termination
  by (relation "measure (\<lambda>(i_size, k, local_size). BUDDY_MAX_LOG2_SIZE - k)") (auto simp: BUDDY_MAX_LOG2_SIZE_def)

declare log2_loop.simps [simp del]

definition Log2Ceil :: "u64 \<Rightarrow> nat" where
  "Log2Ceil i_size = log2_loop i_size 0 1"

text \<open>\<^verbatim>\<open>1 << k\<close> of type \<^verbatim>\<open>int\<close>, and the logarithm of the block for a request.\<close>

definition int_shift :: "nat \<Rightarrow> nat option" where
  "int_shift k = (if k < 31 then Some (2 ^ k) else None)"

definition request_log2 :: "u64 \<Rightarrow> nat" where
  "request_log2 Size = (if Size < MIN_ALLOC_SIZE then Log2Ceil (MIN_ALLOC_SIZE + size_header64)
     else Log2Ceil (Size + size_header64))"

definition BuddyPreferedPoolCount :: "u32 \<Rightarrow> u64 \<Rightarrow> buddy_state \<Rightarrow> u32 option" where
  "BuddyPreferedPoolCount min_count type_size st =
     (let sizelog2 = request_log2 (ucast min_count * type_size) in
      if sizelog2 > page_ksize st then Some min_count
      else do {
        s \<leftarrow> int_shift sizelog2;
        let prefered_size = of_nat s - size_header64;
        if type_size = 0 then None
        else
          let prefered_count = ucast (prefered_size div type_size) in
          Some (if prefered_count = 0 then 1 else prefered_count) })"

section \<open>Lists of free blocks\<close>

definition upd_block :: "addr \<Rightarrow> (BuddyBlock \<Rightarrow> BuddyBlock) \<Rightarrow> buddy_state \<Rightarrow> buddy_state" where
  "upd_block p f st = st\<lparr>blocks := (blocks st)(p := f (blocks st p))\<rparr>"

definition set_desc :: "nat \<Rightarrow> ptr \<Rightarrow> buddy_state \<Rightarrow> buddy_state" where
  "set_desc k q st = st\<lparr>MemDesc := (MemDesc st)(k := q)\<rparr>"

definition Insert_FreeBlock :: "addr \<Rightarrow> buddy_state \<Rightarrow> buddy_state" where
  "Insert_FreeBlock p st =
     (let k = k_size (blocks st p) in
      case MemDesc st k of
        Some nxt \<Rightarrow>
          upd_block nxt (\<lambda>b. b\<lparr>PrevBlock := Some p\<rparr>)
            (upd_block p (\<lambda>b. b\<lparr>NextBlock := Some nxt, PrevBlock := None\<rparr>) (set_desc k (Some p) st))
      | None \<Rightarrow> upd_block p (\<lambda>b. b\<lparr>NextBlock := None, PrevBlock := None\<rparr>) (set_desc k (Some p) st))"

definition Remove_FreeBlock :: "addr \<Rightarrow> buddy_state \<Rightarrow> buddy_state" where
  "Remove_FreeBlock p st =
     (let prv = PrevBlock (blocks st p); nxt = NextBlock (blocks st p);
          st = (case prv of Some q \<Rightarrow> upd_block q (\<lambda>b. b\<lparr>NextBlock := nxt\<rparr>) st
                | None \<Rightarrow> set_desc (k_size (blocks st p)) nxt st);
          st = (case nxt of Some n \<Rightarrow> upd_block n (\<lambda>b. b\<lparr>PrevBlock := prv\<rparr>) st | None \<Rightarrow> st)
      in upd_block p (\<lambda>b. b\<lparr>PrevBlock := None, NextBlock := None\<rparr>) st)"

text \<open>The offset of a block in its page is not negative in the calls of \<^verbatim>\<open>Get_BuddyBlock\<close>.\<close>

definition Get_BuddyBlock :: "addr \<Rightarrow> buddy_state \<Rightarrow> addr option" where
  "Get_BuddyBlock p st = do {
     base \<leftarrow> Base_ptr (blocks st p);
     s \<leftarrow> int_shift (k_size (blocks st p));
     if p < base then None else Some (base + ((p - base) XOR s)) }"

section \<open>Statistics\<close>

definition upd_stats :: "(buddy_stats \<Rightarrow> buddy_stats) \<Rightarrow> buddy_state \<Rightarrow> buddy_state" where
  "upd_stats f st = st\<lparr>Stats := f (Stats st)\<rparr>"

definition UpdateStats_InsertStdPage :: "buddy_stats \<Rightarrow> buddy_stats" where
  "UpdateStats_InsertStdPage s =
     (let s = s\<lparr>TotalMemSpace := TotalMemSpace s + StdPageSize s\<rparr>;
          s = (if TotalMemSpace s > WM_TotalMemSpace s then s\<lparr>WM_TotalMemSpace := TotalMemSpace s\<rparr> else s);
          s = s\<lparr>StdMemSpace := StdMemSpace s + StdPageSize s\<rparr>;
          s = (if StdMemSpace s > WM_StdMemSpace s then s\<lparr>WM_StdMemSpace := StdMemSpace s\<rparr> else s)
      in s\<lparr>NbStdPages := NbStdPages s + 1\<rparr>)"

definition UpdateStats_RemoveStdPage :: "buddy_stats \<Rightarrow> buddy_stats" where
  "UpdateStats_RemoveStdPage s =
     s\<lparr>TotalMemSpace := TotalMemSpace s - StdPageSize s, StdMemSpace := StdMemSpace s - StdPageSize s,
       NbStdPages := NbStdPages s - 1\<rparr>"

definition UpdateStats_UseStdPage :: "buddy_stats \<Rightarrow> buddy_stats" where
  "UpdateStats_UseStdPage s =
     (let s = s\<lparr>NbStdUsed := NbStdUsed s + 1\<rparr>
      in if NbStdUsed s > WM_NbStdUsed s then s\<lparr>WM_NbStdUsed := NbStdUsed s\<rparr> else s)"

definition UpdateStats_FreeStdPage :: "buddy_stats \<Rightarrow> buddy_stats" where
  "UpdateStats_FreeStdPage s = s\<lparr>NbStdUsed := NbStdUsed s - 1\<rparr>"

definition UpdateStats_UseStdMemSpace :: "u64 \<Rightarrow> buddy_stats \<Rightarrow> buddy_stats" where
  "UpdateStats_UseStdMemSpace amount s =
     (let s = s\<lparr>StdUsedSpace := StdUsedSpace s + amount\<rparr>
      in if StdUsedSpace s > WM_StdUsedSpace s then s\<lparr>WM_StdUsedSpace := StdUsedSpace s\<rparr> else s)"

definition UpdateStats_FreeStdMemSpace :: "u64 \<Rightarrow> buddy_stats \<Rightarrow> buddy_stats" where
  "UpdateStats_FreeStdMemSpace amount s = s\<lparr>StdUsedSpace := StdUsedSpace s - amount\<rparr>"

definition UpdateStats_AddExtraPage :: "u64 \<Rightarrow> buddy_stats \<Rightarrow> buddy_stats" where
  "UpdateStats_AddExtraPage alloc_size s =
     (let s = s\<lparr>TotalMemSpace := TotalMemSpace s + alloc_size\<rparr>;
          s = (if TotalMemSpace s > WM_TotalMemSpace s then s\<lparr>WM_TotalMemSpace := TotalMemSpace s\<rparr> else s);
          s = s\<lparr>ExtraMemSpace := ExtraMemSpace s + alloc_size\<rparr>;
          s = (if ExtraMemSpace s > WM_ExtraMemSpace s then s\<lparr>WM_ExtraMemSpace := ExtraMemSpace s\<rparr> else s);
          s = (if MinExtraPageSize s > alloc_size \<or> MinExtraPageSize s = 0 then s\<lparr>MinExtraPageSize := alloc_size\<rparr> else s);
          s = (if MaxExtraPageSize s < alloc_size then s\<lparr>MaxExtraPageSize := alloc_size\<rparr> else s);
          s = s\<lparr>NbExtraPages := NbExtraPages s + 1\<rparr>
      in if NbExtraPages s > WM_NbExtraPages s then s\<lparr>WM_NbExtraPages := NbExtraPages s\<rparr> else s)"

definition UpdateStats_RemoveExtraPage :: "u64 \<Rightarrow> buddy_stats \<Rightarrow> buddy_stats" where
  "UpdateStats_RemoveExtraPage alloc_size s =
     s\<lparr>TotalMemSpace := TotalMemSpace s - alloc_size, ExtraMemSpace := ExtraMemSpace s - alloc_size,
       NbExtraPages := NbExtraPages s - 1\<rparr>"

section \<open>Pages and large blocks\<close>

definition NewStdPage :: "buddy_state \<Rightarrow> (ptr \<times> buddy_state) option" where
  "NewStdPage st = do {
     allocation \<leftarrow> int_shift (page_ksize st);
     let (p_block, m) = Mem_Alloc allocation (sysmem st);
     let st = st\<lparr>sysmem := m\<rparr>;
     case p_block of
       None \<Rightarrow> Some (None, st)
     | Some p \<Rightarrow>
         let st = upd_block p (\<lambda>b. b\<lparr>Base_ptr := Some p, Base_kSize := page_ksize st, status := FREE_BLOCK,
                    k_size := page_ksize st, MagicNumber := MAGIC_NUMBER_FREE\<rparr>) st
         in Some (Some p, upd_stats UpdateStats_InsertStdPage (Insert_FreeBlock p st)) }"

definition Garbage_StdPages :: "addr \<Rightarrow> buddy_state \<Rightarrow> buddy_state" where
  "Garbage_StdPages p st =
     (if \<not> free_areas (Config st) then st
      else if NbStdPages (Stats st) \<le> keep_minimum (Config st) then st
      else if NbStdPages (Stats st) \<le> keep_factor (Config st) * NbStdUsed (Stats st) then st
      else upd_stats UpdateStats_RemoveStdPage (Remove_FreeBlock p st))"

definition AllocLargeBlock :: "nat \<Rightarrow> u64 \<Rightarrow> buddy_state \<Rightarrow> ptr \<times> buddy_state" where
  "AllocLargeBlock self Size st =
     (let total_size = Size + size_header64 in
      if \<not> extra_alloc (Config st) then (None, st\<lparr>Errno := BUDDY_ERR_EINVAL\<rparr>)
      else
        let (p_block, m) = Mem_Alloc (unat total_size) (sysmem st); st = st\<lparr>sysmem := m\<rparr> in
        case p_block of
          None \<Rightarrow> (None, st\<lparr>Errno := BUDDY_ERR_MALLOC\<rparr>)
        | Some p \<Rightarrow>
            let st = upd_block p (\<lambda>b. b\<lparr>Base_ptr := None, ExtraInfo := total_size, status := RESERVED_BLOCK,
                       MagicNumber := MAGIC_NUMBER_USED, OwnerThread := self\<rparr>) st;
                st = upd_stats (UpdateStats_AddExtraPage total_size) st
            in (Some (p + unat size_header64), st))"

definition IS_EXTRA_BLOCK :: "addr \<Rightarrow> buddy_state \<Rightarrow> bool" where
  "IS_EXTRA_BLOCK p st \<longleftrightarrow> Base_ptr (blocks st p) = None"

definition FreeLargeBlock :: "addr \<Rightarrow> buddy_state \<Rightarrow> buddy_state" where
  "FreeLargeBlock p st =
     (if \<not> IS_EXTRA_BLOCK p st then st
      else upd_stats (UpdateStats_RemoveExtraPage (ExtraInfo (blocks st p))) st)"

section \<open>Freeing\<close>

definition is_page :: "addr \<Rightarrow> buddy_state \<Rightarrow> bool" where
  "is_page p st \<longleftrightarrow> Base_ptr (blocks st p) = Some p \<and> Base_kSize (blocks st p) = k_size (blocks st p)"

text \<open>The loop that merges the free block \<open>p\<close> with its buddies.\<close>

partial_function (option) merge_loop :: "addr \<Rightarrow> buddy_state \<Rightarrow> (addr \<times> buddy_state) option" where
  "merge_loop p st =
     (if k_size (blocks st p) < Base_kSize (blocks st p) then
        (case Get_BuddyBlock p st of
           None \<Rightarrow> None
         | Some buddy \<Rightarrow>
             if status (blocks st buddy) = RESERVED_BLOCK \<or> k_size (blocks st buddy) \<noteq> k_size (blocks st p) then Some (p, st)
             else
               let st = Remove_FreeBlock buddy st; p = (if buddy < p then buddy else p)
               in merge_loop p (upd_block p (\<lambda>b. b\<lparr>k_size := Suc (k_size b)\<rparr>) st))
      else Some (p, st))"

definition free_std_block :: "addr \<Rightarrow> buddy_state \<Rightarrow> buddy_state option" where
  "free_std_block p st = do {
     base \<leftarrow> Base_ptr (blocks st p);
     area \<leftarrow> int_shift (Base_kSize (blocks st p));
     if p < base \<or> p > base + area then Some (st\<lparr>Errno := BUDDY_ERR_EINVAL\<rparr>)
     else do {
       let st = upd_block p (\<lambda>b. b\<lparr>status := FREE_BLOCK, MagicNumber := MAGIC_NUMBER_FREE\<rparr>) st;
       size \<leftarrow> int_shift (k_size (blocks st p));
       let st = upd_stats (UpdateStats_FreeStdMemSpace (of_nat size)) st;
       (p, st) \<leftarrow> merge_loop p st;
       let st = Insert_FreeBlock p st;
       if is_page p st then
         let st = upd_stats UpdateStats_FreeStdPage st
         in Some (if free_areas (Config st) then Garbage_StdPages p st else st)
       else Some st } }"

definition BuddyFree_internal :: "addr \<Rightarrow> buddy_state \<Rightarrow> buddy_state option" where
  "BuddyFree_internal p st = (if IS_EXTRA_BLOCK p st then Some (FreeLargeBlock p st) else free_std_block p st)"

partial_function (option) CheckBlocksToBeFreed :: "buddy_state \<Rightarrow> buddy_state option" where
  "CheckBlocksToBeFreed st =
     (case ToBeFreed_list st of
        None \<Rightarrow> Some st
      | Some p \<Rightarrow>
          (case BuddyFree_internal p (st\<lparr>ToBeFreed_list := NextToBeFreed (blocks st p)\<rparr>) of
             None \<Rightarrow> None
           | Some st \<Rightarrow> CheckBlocksToBeFreed st))"

text \<open>
  \<open>TryContextCleanup\<close>: the first loop gives the free pages back, the second looks for free blocks that are left. On
  BUDDY_SUCCESS the context itself is given to \<^verbatim>\<open>free\<close>.
\<close>

partial_function (option) release_pages :: "buddy_state \<Rightarrow> (buddy_err \<times> buddy_state) option" where
  "release_pages st =
     (case MemDesc st (page_ksize st) of
        None \<Rightarrow> Some (BUDDY_SUCCESS, st)
      | Some p \<Rightarrow>
          if \<not> is_page p st then Some (BUDDY_ERR_EFAULT, st)
          else release_pages (upd_stats UpdateStats_RemoveStdPage (Remove_FreeBlock p st)))"

definition TryContextCleanup :: "buddy_state \<Rightarrow> (buddy_err \<times> buddy_state) option" where
  "TryContextCleanup st = do {
     st \<leftarrow> CheckBlocksToBeFreed st;
     (rc, st) \<leftarrow> release_pages st;
     if rc \<noteq> BUDDY_SUCCESS then Some (rc, st)
     else if list_ex (\<lambda>i. MemDesc st i \<noteq> None) [0..<BUDDY_MAX_LOG2_SIZE]
     then Some (BUDDY_ERR_INUSE, st\<lparr>destroy_pending := True\<rparr>)
     else Some (BUDDY_SUCCESS, st\<lparr>released := True\<rparr>) }"

text \<open>
  \<open>BuddyFree\<close> by the thread \<open>self\<close>; \<open>ready\<close> says that the thread's own context is initialised. A block of another
  thread's context is put in the list of the owner.
\<close>

definition BuddyFree :: "nat \<Rightarrow> bool \<Rightarrow> ptr \<Rightarrow> buddy_state \<Rightarrow> buddy_state option" where
  "BuddyFree self ready ptr st =
     (case ptr of
        None \<Rightarrow> Some st
      | Some a \<Rightarrow>
          if \<not> ready then Some (if self = owner st then st\<lparr>Errno := BUDDY_ERR_NOTINIT\<rparr> else st)
          else
            let p = a - unat size_header64 in
            if status (blocks st p) = FREE_BLOCK then
              (if MagicNumber (blocks st p) \<noteq> MAGIC_NUMBER_FREE then None else Some st)
            else if MagicNumber (blocks st p) \<noteq> MAGIC_NUMBER_USED then None
            else if OwnerThread (blocks st p) \<noteq> self then
              (let st = upd_block p (\<lambda>b. b\<lparr>NextToBeFreed := ToBeFreed_list st\<rparr>) st; st = st\<lparr>ToBeFreed_list := Some p\<rparr>
               in if destroy_pending st then map_option snd (TryContextCleanup st) else Some st)
            else BuddyFree_internal p st)"

section \<open>Allocating\<close>

text \<open>The first size from \<open>k\<close> on with a free block, or 64.\<close>

function find_free :: "nat \<Rightarrow> buddy_state \<Rightarrow> nat" where
  "find_free k st = (if k < BUDDY_MAX_LOG2_SIZE \<and> MemDesc st k = None then find_free (Suc k) st else k)"
  by pat_completeness auto
termination
  by (relation "measure (\<lambda>(k, st). BUDDY_MAX_LOG2_SIZE - k)") auto

declare find_free.simps [simp del]

partial_function (option) split_loop :: "nat \<Rightarrow> addr \<Rightarrow> buddy_state \<Rightarrow> buddy_state option" where
  "split_loop sizelog2 p st =
     (if k_size (blocks st p) > sizelog2 then
        let st = upd_block p (\<lambda>b. b\<lparr>k_size := k_size b - 1\<rparr>) st in
        (case Get_BuddyBlock p st of
           None \<Rightarrow> None
         | Some buddy \<Rightarrow>
             let st = upd_block buddy (\<lambda>b. b\<lparr>Base_ptr := Base_ptr (blocks st p), Base_kSize := Base_kSize (blocks st p),
                        status := FREE_BLOCK, MagicNumber := MAGIC_NUMBER_FREE, k_size := k_size (blocks st p)\<rparr>) st
             in split_loop sizelog2 p (Insert_FreeBlock buddy st))
      else Some st)"

text \<open>The reservation of the free block \<open>p\<close>, split down to the size \<open>sizelog2\<close>.\<close>

definition reserve_block :: "nat \<Rightarrow> nat \<Rightarrow> nat \<Rightarrow> addr \<Rightarrow> buddy_state \<Rightarrow> (ptr \<times> buddy_state) option" where
  "reserve_block self sizelog2 allocation p st = do {
     let st = Remove_FreeBlock p st;
     let st = (if is_page p st then upd_stats UpdateStats_UseStdPage st else st);
     st \<leftarrow> split_loop sizelog2 p st;
     let st = upd_block p (\<lambda>b. b\<lparr>status := RESERVED_BLOCK, MagicNumber := MAGIC_NUMBER_USED, OwnerThread := self\<rparr>) st;
     let st = upd_stats (UpdateStats_UseStdMemSpace (of_nat allocation)) st;
     Some (Some (p + unat size_header64), st) }"

definition BuddyMalloc_internal :: "nat \<Rightarrow> u64 \<Rightarrow> bool \<Rightarrow> buddy_state \<Rightarrow> (ptr \<times> buddy_state) option" where
  "BuddyMalloc_internal self Size do_exit_on_error st =
     (if \<not> initialized st then Some (None, st\<lparr>Errno := BUDDY_ERR_NOTINIT\<rparr>)
      else do {
        st \<leftarrow> CheckBlocksToBeFreed st;
        if Size = 0 then Some (None, st)
        else do {
          let sizelog2 = request_log2 Size;
          allocation \<leftarrow> int_shift sizelog2;
          if allocation > 2 ^ page_ksize st then
            (if extra_alloc (Config st) then Some (AllocLargeBlock self Size st)
             else if do_exit_on_error then None
             else Some (None, st\<lparr>Errno := BUDDY_ERR_OUTOFMEM\<rparr>))
          else
            let actlog2 = find_free sizelog2 st in
            if actlog2 < BUDDY_MAX_LOG2_SIZE then
              (case MemDesc st actlog2 of None \<Rightarrow> None | Some p \<Rightarrow> reserve_block self sizelog2 allocation p st)
            else if on_demand_alloc (Config st) then do {
              (p_block, st) \<leftarrow> NewStdPage st;
              case p_block of
                None \<Rightarrow> if do_exit_on_error then None else Some (None, st\<lparr>Errno := BUDDY_ERR_MALLOC\<rparr>)
              | Some p \<Rightarrow> reserve_block self sizelog2 allocation p st }
            else if do_exit_on_error then None
            else Some (None, st\<lparr>Errno := BUDDY_ERR_OUTOFMEM\<rparr>) } })"

definition BuddyMalloc :: "nat \<Rightarrow> u64 \<Rightarrow> buddy_state \<Rightarrow> (ptr \<times> buddy_state) option" where
  "BuddyMalloc self Size st = BuddyMalloc_internal self Size False st"

definition BuddyMallocExit :: "nat \<Rightarrow> u64 \<Rightarrow> buddy_state \<Rightarrow> (ptr \<times> buddy_state) option" where
  "BuddyMallocExit self Size st = BuddyMalloc_internal self Size True st"

definition BuddyRealloc :: "nat \<Rightarrow> ptr \<Rightarrow> u64 \<Rightarrow> buddy_state \<Rightarrow> (ptr \<times> buddy_state) option" where
  "BuddyRealloc self ptr Size st =
     (case ptr of
        None \<Rightarrow> BuddyMalloc self Size st
      | Some a \<Rightarrow>
          if Size = 0 then map_option (Pair None) (BuddyFree self (initialized st) ptr st)
          else if \<not> initialized st then Some (None, st\<lparr>Errno := BUDDY_ERR_NOTINIT\<rparr>)
          else
            let p = a - unat size_header64 in
            if status (blocks st p) \<noteq> RESERVED_BLOCK then Some (None, st\<lparr>Errno := BUDDY_ERR_EINVAL\<rparr>)
            else do {
              (new_ptr, st) \<leftarrow> BuddyMalloc self Size st;
              case new_ptr of
                None \<Rightarrow> Some (None, st)
              | Some n \<Rightarrow> do {
                  copied \<leftarrow> (if IS_EXTRA_BLOCK p st then Some (ExtraInfo (blocks st p) - size_header64)
                             else map_option (\<lambda>s. of_nat s - size_header64) (int_shift (k_size (blocks st p))));
                  let st = st\<lparr>user_writes := user_writes st @ [(n, copied)]\<rparr>;
                  st \<leftarrow> BuddyFree self (initialized st) ptr st;
                  Some (new_ptr, st) } })"

definition BuddyCalloc :: "nat \<Rightarrow> u64 \<Rightarrow> u64 \<Rightarrow> buddy_state \<Rightarrow> (ptr \<times> buddy_state) option" where
  "BuddyCalloc self NumberOfElements ElementSize st = do {
     (ptr, st) \<leftarrow> BuddyMalloc self (NumberOfElements * ElementSize) st;
     case ptr of
       None \<Rightarrow> Some (None, st)
     | Some a \<Rightarrow> Some (ptr, st\<lparr>user_writes := user_writes st @ [(a, NumberOfElements * ElementSize)]\<rparr>) }"

section \<open>The context\<close>

definition stats_init :: "nat \<Rightarrow> buddy_stats" where
  "stats_init page = \<lparr>TotalMemSpace = 0, WM_TotalMemSpace = 0, StdMemSpace = 0, WM_StdMemSpace = 0, StdUsedSpace = 0,
     WM_StdUsedSpace = 0, StdPageSize = of_nat page, NbStdPages = 0, NbStdUsed = 0, WM_NbStdUsed = 0, ExtraMemSpace = 0,
     WM_ExtraMemSpace = 0, MinExtraPageSize = 0, MaxExtraPageSize = 0, NbExtraPages = 0, WM_NbExtraPages = 0\<rparr>"

text \<open>\<open>mutex_rc\<close> is the result of \<^verbatim>\<open>pthread_mutex_init\<close>.\<close>

definition BuddyInit :: "nat \<Rightarrow> buddy_parameter option \<Rightarrow> int \<Rightarrow> buddy_state \<Rightarrow> (buddy_err \<times> buddy_state) option" where
  "BuddyInit self p_buddy_init_info mutex_rc st =
     (if initialized st then Some (BUDDY_ERR_ALREADYINIT, st)
      else
        let st = st\<lparr>Config := (case p_buddy_init_info of Some c \<Rightarrow> c | None \<Rightarrow> default_buddy_parameter)\<rparr> in
        if memory_area_size (Config st) \<le> size_header64 + MIN_ALLOC_SIZE then Some (BUDDY_ERR_EINVAL, st)
        else
          let m = Log2Ceil (memory_area_size (Config st)) in
          if m = 0 then Some (BUDDY_ERR_EINVAL, st)
          else do {
            page \<leftarrow> int_shift m;
            let st = st\<lparr>page_ksize := m, Errno := BUDDY_SUCCESS, MemDesc := (\<lambda>i. None), Stats := stats_init page\<rparr>;
            if mutex_rc \<noteq> 0 then Some (BUDDY_ERR_EINVAL, st)
            else do {
              let st = st\<lparr>ToBeFreed_list := None, destroy_pending := False, initialized := True, owner := self\<rparr>;
              (p_block, st) \<leftarrow> NewStdPage st;
              Some (if p_block = None then BUDDY_ERR_MALLOC else BUDDY_SUCCESS, st) } })"

definition BuddyDestroy :: "buddy_state \<Rightarrow> (buddy_err \<times> buddy_state) option" where
  "BuddyDestroy st = (if \<not> initialized st then Some (BUDDY_ERR_NOTINIT, st) else TryContextCleanup st)"

definition BuddyGetStats :: "buddy_state \<Rightarrow> buddy_stats" where
  "BuddyGetStats st = Stats st"

definition BuddyCheck :: "nat \<Rightarrow> ptr \<Rightarrow> buddy_state \<Rightarrow> (bool \<times> buddy_state) option" where
  "BuddyCheck self ptr st =
     (case ptr of
        None \<Rightarrow> Some (False, st)
      | Some a \<Rightarrow>
          if \<not> initialized st then Some (False, st\<lparr>Errno := BUDDY_ERR_NOTINIT\<rparr>)
          else
            let p = a - unat size_header64 in
            if status (blocks st p) = FREE_BLOCK then
              (if MagicNumber (blocks st p) \<noteq> MAGIC_NUMBER_FREE then None else Some (False, st))
            else if MagicNumber (blocks st p) \<noteq> MAGIC_NUMBER_USED then None
            else if OwnerThread (blocks st p) \<noteq> self then Some (False, st)
            else (case Base_ptr (blocks st p) of
                    None \<Rightarrow> Some (True, st)
                  | Some base \<Rightarrow> do {
                      area \<leftarrow> int_shift (Base_kSize (blocks st p));
                      if p < base \<or> p > base + area then Some (False, st\<lparr>Errno := BUDDY_ERR_EINVAL\<rparr>)
                      else Some (True, st) }))"

end
