(* ===== verification/Buddy_Inv.thy ===== *)
theory Buddy_Inv
  imports Buddy
begin

text \<open>
  The invariant of the buddy allocator: the pages of a context are disjoint, each is divided without gaps into blocks
  at multiples of their size, the free blocks are exactly those of the lists, and no two buddies are both free. All
  operations keep it, so blocks handed out never overlap.
\<close>

section \<open>Sizes and offsets\<close>

lemma int_shift_small [simp]: "k < 31 \<Longrightarrow> int_shift k = Some (2 ^ k)"
  by (simp add: int_shift_def)

lemma unat_power_64:
  assumes "k < 64"
  shows "unat (2 ^ k :: u64) = 2 ^ k"
proof -
  have "(2 :: nat) ^ k < 2 ^ 64" using assms by (rule power_strict_increasing) simp
  then have "unat (of_nat (2 ^ k) :: u64) = 2 ^ k" unfolding unat_of_nat by simp
  then show ?thesis by simp
qed

lemma log2_loop_spec:
  assumes "k < 64" and "0 < k \<Longrightarrow> 2 ^ (k - 1) < unat n" and "unat n \<le> 2 ^ 63"
  shows "unat n \<le> 2 ^ log2_loop n k (2 ^ k) \<and> log2_loop n k (2 ^ k) < 64 \<and>
    (0 < log2_loop n k (2 ^ k) \<longrightarrow> 2 ^ (log2_loop n k (2 ^ k) - 1) < unat n)"
  using assms
proof (induction "64 - k" arbitrary: k)
  case 0
  then show ?case by simp
next
  case (Suc d)
  have u: "unat (2 ^ k :: u64) = 2 ^ k" by (rule unat_power_64 [OF Suc.prems(1)])
  show ?case
  proof (cases "(2 ^ k :: u64) < n")
    case False
    then have "unat n \<le> 2 ^ k" using u by (simp add: word_less_nat_alt)
    with False Suc.prems show ?thesis by (subst log2_loop.simps, subst (2) log2_loop.simps) (simp add: log2_loop.simps)
  next
    case True
    then have lt: "2 ^ k < unat n" using u by (simp add: word_less_nat_alt)
    have "k < 63"
    proof (rule ccontr)
      assume "\<not> k < 63"
      then have "k = 63" using Suc.prems(1) by simp
      with lt Suc.prems(3) show False by simp
    qed
    then have "log2_loop n k (2 ^ k) = log2_loop n (Suc k) (2 ^ Suc k)"
      using True by (subst log2_loop.simps) (simp add: BUDDY_MAX_LOG2_SIZE_def push_bit_eq_mult mult.commute)
    moreover have "d = 64 - Suc k" using Suc.hyps(2) by simp
    ultimately show ?thesis using Suc.hyps(1) [of "Suc k"] \<open>k < 63\<close> lt Suc.prems(3) by simp
  qed
qed

lemma Log2Ceil_spec:
  assumes "0 < unat n" and "unat n \<le> 2 ^ 63"
  shows "unat n \<le> 2 ^ Log2Ceil n" and "Log2Ceil n < 64" and "0 < Log2Ceil n \<Longrightarrow> 2 ^ (Log2Ceil n - 1) < unat n"
  using log2_loop_spec [of 0 n] assms by (auto simp: Log2Ceil_def)

lemma aligned_window:
  fixes x u :: nat
  assumes "2 ^ j dvd u"
  shows "u \<le> x \<and> x < u + 2 ^ j \<longleftrightarrow> x div 2 ^ j = u div 2 ^ j"
proof -
  obtain i where u: "u = 2 ^ j * i" using assms by (auto elim: dvdE)
  have "x div 2 ^ j = i \<longleftrightarrow> 2 ^ j * i \<le> x \<and> x < 2 ^ j * Suc i"
    using div_nat_eqI [of "2 ^ j" i x] dividend_less_times_div [of "2 ^ j" x] times_div_less_eq_dividend [of "2 ^ j" x] by auto
  then show ?thesis by (simp add: u add.commute)
qed

lemma window_coarser:
  fixes x y :: nat
  assumes "x div 2 ^ i = y div 2 ^ i" and "i \<le> j"
  shows "x div 2 ^ j = y div 2 ^ j"
proof -
  have "(2 :: nat) ^ j = 2 ^ i * 2 ^ (j - i)" using assms(2) by (simp flip: power_add)
  then show ?thesis using assms(1) by (simp add: div_mult2_eq)
qed

lemma offset_add: "b \<le> a \<Longrightarrow> d dvd a - b \<Longrightarrow> d dvd a + d - b" for a b d :: nat
  by (metis dvd_add_triv_right_iff add_diff_assoc2)

text \<open>The buddy of the block at offset \<open>n\<close>.\<close>

lemma xor_power:
  fixes n :: nat
  assumes "2 ^ k dvd n"
  shows "n XOR 2 ^ k = (if 2 ^ Suc k dvd n then n + 2 ^ k else n - 2 ^ k)"
proof -
  obtain i where i: "n = 2 ^ k * i" using assms by (auto elim: dvdE)
  have "n XOR 2 ^ k = push_bit k i XOR push_bit k 1" by (simp add: i push_bit_eq_mult mult.commute)
  also have "\<dots> = push_bit k (i XOR 1)" by (simp only: push_bit_xor)
  also have "i XOR 1 = (if even i then i + 1 else i - 1)" by (simp add: xor_Suc_0_eq)
  finally have "n XOR 2 ^ k = (if even i then i + 1 else i - 1) * 2 ^ k" by (simp add: push_bit_eq_mult)
  moreover have "2 ^ Suc k dvd n \<longleftrightarrow> even i" by (simp add: i)
  ultimately show ?thesis by (simp add: i algebra_simps)
qed

section \<open>The layout of the pages\<close>

definition brange :: "(addr \<Rightarrow> BuddyBlock) \<Rightarrow> addr \<Rightarrow> addr set" where
  "brange h a = {a ..< a + 2 ^ k_size (h a)}"

definition prange :: "nat \<Rightarrow> addr \<Rightarrow> addr set" where
  "prange K b = {b ..< b + 2 ^ K}"

definition in_page :: "nat \<Rightarrow> addr \<Rightarrow> (addr \<Rightarrow> BuddyBlock) \<Rightarrow> addr \<Rightarrow> bool" where
  "in_page K b h a \<longleftrightarrow> Base_ptr (h a) = Some b \<and> Base_kSize (h a) = K \<and> 6 \<le> k_size (h a) \<and> k_size (h a) \<le> K \<and>
     b \<le> a \<and> 2 ^ k_size (h a) dvd a - b \<and> brange h a \<subseteq> prange K b"

definition layout :: "nat \<Rightarrow> addr set \<Rightarrow> addr set \<Rightarrow> (addr \<Rightarrow> BuddyBlock) \<Rightarrow> bool" where
  "layout K P S h \<longleftrightarrow> finite P \<and> finite S \<and> (\<forall>a\<in>S. \<exists>b\<in>P. in_page K b h a) \<and>
     (\<forall>b\<in>P. prange K b \<subseteq> (\<Union>a\<in>S. brange h a)) \<and>
     (\<forall>a\<in>S. \<forall>c\<in>S. a \<noteq> c \<longrightarrow> brange h a \<inter> brange h c = {}) \<and>
     (\<forall>b\<in>P. \<forall>c\<in>P. b \<noteq> c \<longrightarrow> prange K b \<inter> prange K c = {})"

lemma layoutI:
  assumes "finite P" and "finite S" and "\<And>a. a \<in> S \<Longrightarrow> \<exists>b\<in>P. in_page K b h a"
    and "\<And>b. b \<in> P \<Longrightarrow> prange K b \<subseteq> (\<Union>a\<in>S. brange h a)"
    and "\<And>a c. a \<in> S \<Longrightarrow> c \<in> S \<Longrightarrow> a \<noteq> c \<Longrightarrow> brange h a \<inter> brange h c = {}"
    and "\<And>b c. b \<in> P \<Longrightarrow> c \<in> P \<Longrightarrow> b \<noteq> c \<Longrightarrow> prange K b \<inter> prange K c = {}"
  shows "layout K P S h"
  unfolding layout_def using assms by (intro conjI ballI impI)

definition buddy_of :: "(addr \<Rightarrow> BuddyBlock) \<Rightarrow> addr \<Rightarrow> addr" where
  "buddy_of h a = the (Base_ptr (h a)) + ((a - the (Base_ptr (h a))) XOR 2 ^ k_size (h a))"

lemma start_in_brange [simp]: "a \<in> brange h a"
  by (simp add: brange_def)

lemma buddy_of_alt:
  assumes "in_page K b h a"
  shows "buddy_of h a = (if 2 ^ Suc (k_size (h a)) dvd a - b then a + 2 ^ k_size (h a) else a - 2 ^ k_size (h a))"
    and "\<not> 2 ^ Suc (k_size (h a)) dvd a - b \<Longrightarrow> b + 2 ^ k_size (h a) \<le> a \<and> 2 ^ Suc (k_size (h a)) dvd a - 2 ^ k_size (h a) - b"
proof -
  let ?k = "k_size (h a)"
  have d: "2 ^ ?k dvd a - b" and le: "b \<le> a" and base: "Base_ptr (h a) = Some b" using assms by (auto simp: in_page_def)
  obtain i where i: "a - b = 2 ^ ?k * i" using d by (auto elim: dvdE)
  have odd: "b + 2 ^ ?k \<le> a \<and> 2 ^ Suc ?k dvd a - 2 ^ ?k - b" if "\<not> 2 ^ Suc ?k dvd a - b"
  proof -
    from that i have "odd i" by auto
    then obtain j where "i = 2 * j + 1" by (auto elim: oddE)
    with i have "a - b = 2 ^ Suc ?k * j + 2 ^ ?k" by simp
    with le have a: "a = b + (2 ^ Suc ?k * j + 2 ^ ?k)" by simp
    then have "b + 2 ^ ?k \<le> a" and "a - 2 ^ ?k - b = 2 ^ Suc ?k * j" by arith+
    then show ?thesis by simp
  qed
  then show "\<not> 2 ^ Suc ?k dvd a - b \<Longrightarrow> b + 2 ^ ?k \<le> a \<and> 2 ^ Suc ?k dvd a - 2 ^ ?k - b" .
  show "buddy_of h a = (if 2 ^ Suc ?k dvd a - b then a + 2 ^ ?k else a - 2 ^ ?k)"
    using odd le by (auto simp: buddy_of_def base xor_power [OF d])
qed

text \<open>The buddy of a block is a block of the same page, of the same size or divided further.\<close>

lemma buddy_window:
  assumes "in_page K b h p" and "k_size (h p) < K"
  shows "b \<le> buddy_of h p" and "buddy_of h p < b + 2 ^ K" and "2 ^ k_size (h p) dvd buddy_of h p - b"
    and "(buddy_of h p - b) div 2 ^ Suc (k_size (h p)) = (p - b) div 2 ^ Suc (k_size (h p))" and "buddy_of h p \<noteq> p"
proof -
  let ?k = "k_size (h p)"
  have d: "2 ^ ?k dvd p - b" and le: "b \<le> p" and r: "brange h p \<subseteq> prange K b" using assms(1) by (auto simp: in_page_def)
  from r have "p + 2 ^ ?k \<le> b + 2 ^ K" by (auto simp: brange_def prange_def atLeastLessThan_subset_iff)
  have odd: "b + 2 ^ ?k \<le> p \<and> 2 ^ Suc ?k dvd p - 2 ^ ?k - b" if "\<not> 2 ^ Suc ?k dvd p - b"
    using buddy_of_alt(2) [OF assms(1) that] .
  note alt = buddy_of_alt(1) [OF assms(1)]
  have "p - 2 ^ ?k \<noteq> p" if "b + 2 ^ ?k \<le> p"
  proof -
    have "(0 :: nat) < 2 ^ ?k" by simp
    with that show ?thesis by arith
  qed
  then show "b \<le> buddy_of h p" and "buddy_of h p \<noteq> p" using alt odd le by auto
  show "2 ^ ?k dvd buddy_of h p - b"
  proof (cases "2 ^ Suc ?k dvd p - b")
    case True
    then show ?thesis using alt offset_add [OF le d] by simp
  next
    case False
    then show ?thesis using alt odd power_le_dvd [of "2 :: nat" "Suc ?k" _ ?k] by simp
  qed
  show win: "(buddy_of h p - b) div 2 ^ Suc ?k = (p - b) div 2 ^ Suc ?k"
  proof (cases "2 ^ Suc ?k dvd p - b")
    case True
    have "(p - b + 2 ^ ?k) div 2 ^ Suc ?k = (p - b) div 2 ^ Suc ?k" by (rule iffD1 [OF aligned_window [OF True]]) simp
    moreover have "buddy_of h p - b = p - b + 2 ^ ?k" using alt True le by simp
    ultimately show ?thesis by simp
  next
    case False
    note o = odd [OF False]
    let ?u = "p - 2 ^ ?k - b"
    have "p - b = ?u + 2 ^ ?k" using o by simp
    moreover have "(?u + 2 ^ ?k) div 2 ^ Suc ?k = ?u div 2 ^ Suc ?k" by (rule iffD1 [OF aligned_window [OF conjunct2 [OF o]]]) simp
    moreover have "buddy_of h p - b = ?u" using alt False by simp
    ultimately show ?thesis by simp
  qed
  have "(0 :: nat) < 2 ^ ?k" by simp
  then have "p - b < 2 ^ K" using \<open>p + 2 ^ ?k \<le> b + 2 ^ K\<close> le by linarith
  then have "(p - b) div 2 ^ K = 0" by simp
  moreover have "(buddy_of h p - b) div 2 ^ K = (p - b) div 2 ^ K" by (rule window_coarser [OF win]) (use assms(2) in simp)
  ultimately have "buddy_of h p - b < 2 ^ K" by (simp add: div_eq_0_iff)
  with \<open>b \<le> buddy_of h p\<close> show "buddy_of h p < b + 2 ^ K" by simp
qed

lemma layout_page:
  assumes "layout K P S h" and "a \<in> S" and "x \<in> brange h a" and "x \<in> prange K b" and "b \<in> P"
  shows "in_page K b h a"
  using assms unfolding layout_def in_page_def by (metis IntI empty_iff subsetD)

lemma buddy_in_layout:
  assumes "layout K P S h" and "p \<in> S" and "in_page K b h p" and "b \<in> P" and "k_size (h p) < K"
  shows "buddy_of h p \<in> S" and "k_size (h (buddy_of h p)) \<le> k_size (h p)" and "in_page K b h (buddy_of h p)"
proof -
  let ?c = "buddy_of h p" and ?k = "k_size (h p)"
  note w = buddy_window [OF assms(3,5)]
  have c: "?c \<in> prange K b" using w by (simp add: prange_def)
  then obtain a where a: "a \<in> S" "?c \<in> brange h a" using assms(1,4) unfolding layout_def by blast
  have pa: "in_page K b h a" by (rule layout_page [OF assms(1) a c assms(4)])
  let ?j = "k_size (h a)"
  have dj: "2 ^ ?j dvd a - b" "b \<le> a" using pa by (simp_all add: in_page_def)
  have "a - b \<le> ?c - b \<and> ?c - b < a - b + 2 ^ ?j" using a(2) dj w(1) by (auto simp: brange_def)
  then have ca: "(?c - b) div 2 ^ ?j = (a - b) div 2 ^ ?j" using aligned_window [OF dj(1)] by blast
  have "?j \<le> ?k"
  proof (rule ccontr)
    assume "\<not> ?j \<le> ?k"
    then have "(p - b) div 2 ^ ?j = (a - b) div 2 ^ ?j" using window_coarser [OF w(4), of ?j] ca by simp
    then have "a - b \<le> p - b \<and> p - b < a - b + 2 ^ ?j" using aligned_window [OF dj(1)] by blast
    then have "p \<in> brange h a" using dj(2) assms(3) by (auto simp: brange_def in_page_def)
    then have "p = a" using assms(1,2) a(1) start_in_brange [of p h] unfolding layout_def by blast
    with \<open>\<not> ?j \<le> ?k\<close> show False by simp
  qed
  then have "2 ^ ?j dvd ?c - b" using w(3) by (metis le_imp_power_dvd dvd_trans)
  then have "(?c - b) = (a - b)" using ca dj(1) by (metis dvd_div_mult_self)
  then have "?c = a" using w(1) dj(2) by simp
  with a(1) pa \<open>?j \<le> ?k\<close> show "?c \<in> S" and "k_size (h ?c) \<le> ?k" and "in_page K b h ?c" by simp_all
qed

lemma buddy_of_buddy:
  assumes "in_page K b h p" and "in_page K b h (buddy_of h p)" and "k_size (h (buddy_of h p)) = k_size (h p)"
  shows "buddy_of h (buddy_of h p) = p"
proof -
  have "Base_ptr (h p) = Some b" "Base_ptr (h (buddy_of h p)) = Some b" "b \<le> p" using assms by (simp_all add: in_page_def)
  then show ?thesis using assms(3) by (simp add: buddy_of_def [of h "buddy_of h p"]) (simp add: buddy_of_def xor.assoc)
qed

text \<open>
  Splitting and merging: the block at \<open>a\<close> of size \<open>2 ^ (k + 1)\<close> in the heap \<open>h\<close> is, in the heap \<open>h'\<close>, the two
  blocks at \<open>a\<close> and \<open>a + 2 ^ k\<close>.
\<close>

definition halves :: "nat \<Rightarrow> addr \<Rightarrow> addr set \<Rightarrow> (addr \<Rightarrow> BuddyBlock) \<Rightarrow> (addr \<Rightarrow> BuddyBlock) \<Rightarrow> bool" where
  "halves k a S h h' \<longleftrightarrow> a \<in> S \<and> a + 2 ^ k \<notin> S \<and> k_size (h a) = Suc k \<and> k_size (h' a) = k \<and> k_size (h' (a + 2 ^ k)) = k \<and>
     Base_ptr (h' a) = Base_ptr (h a) \<and> Base_kSize (h' a) = Base_kSize (h a) \<and>
     Base_ptr (h' (a + 2 ^ k)) = Base_ptr (h a) \<and> Base_kSize (h' (a + 2 ^ k)) = Base_kSize (h a) \<and>
     (\<forall>c\<in>S - {a}. k_size (h' c) = k_size (h c) \<and> Base_ptr (h' c) = Base_ptr (h c) \<and> Base_kSize (h' c) = Base_kSize (h c))"

lemma halves_brange:
  assumes "halves k a S h h'"
  shows "brange h' a \<union> brange h' (a + 2 ^ k) = brange h a" and "brange h' a \<inter> brange h' (a + 2 ^ k) = {}"
    and "c \<in> S \<Longrightarrow> c \<noteq> a \<Longrightarrow> brange h' c = brange h c"
  using assms by (auto simp: halves_def brange_def)

lemma halves_union:
  assumes "halves k a S h h'"
  shows "(\<Union>c\<in>insert (a + 2 ^ k) S. brange h' c) = (\<Union>c\<in>S. brange h c)"
proof -
  have S: "S = insert a (S - {a})" using assms by (auto simp: halves_def)
  have "(\<Union>c\<in>insert (a + 2 ^ k) S. brange h' c) = brange h' a \<union> brange h' (a + 2 ^ k) \<union> (\<Union>c\<in>S - {a}. brange h' c)"
    by (subst S) auto
  also have "\<dots> = brange h a \<union> (\<Union>c\<in>S - {a}. brange h c)"
    unfolding halves_brange(1) [OF assms] using halves_brange(3) [OF assms] by auto
  also have "\<dots> = (\<Union>c\<in>S. brange h c)" by (subst (2) S) auto
  finally show ?thesis .
qed

lemma in_page_other:
  assumes "k_size (h' c) = k_size (h c)" and "Base_ptr (h' c) = Base_ptr (h c)" and "Base_kSize (h' c) = Base_kSize (h c)"
  shows "in_page K b h' c = in_page K b h c"
  using assms by (simp add: in_page_def brange_def)

lemma halves_in_page:
  assumes "halves k a S h h'" and "6 \<le> k"
  shows "in_page K b h a \<Longrightarrow> in_page K b h' a \<and> in_page K b h' (a + 2 ^ k)"
    and "in_page K b h' a \<Longrightarrow> in_page K b h' (a + 2 ^ k) \<Longrightarrow> k < K \<Longrightarrow> 2 ^ Suc k dvd a - b \<Longrightarrow> in_page K b h a"
proof -
  have f: "k_size (h a) = Suc k" "k_size (h' a) = k" "k_size (h' (a + 2 ^ k)) = k" "Base_ptr (h' a) = Base_ptr (h a)"
    "Base_kSize (h' a) = Base_kSize (h a)" "Base_ptr (h' (a + 2 ^ k)) = Base_ptr (h a)"
    "Base_kSize (h' (a + 2 ^ k)) = Base_kSize (h a)"
    using assms(1) by (simp_all add: halves_def)
  show "in_page K b h' a \<and> in_page K b h' (a + 2 ^ k)" if p: "in_page K b h a"
  proof -
    from p have "b \<le> a" "2 ^ Suc k dvd a - b" "Suc k \<le> K" "brange h a \<subseteq> prange K b" using f by (simp_all add: in_page_def)
    moreover from this have "2 ^ k dvd a - b" using power_le_dvd [of 2 "Suc k" "a - b" k] by simp
    moreover from this have "2 ^ k dvd a + 2 ^ k - b" using offset_add \<open>b \<le> a\<close> by blast
    ultimately show ?thesis using p f assms(2) halves_brange(1) [OF assms(1)] by (auto simp: in_page_def)
  qed
  show "in_page K b h a" if "in_page K b h' a" "in_page K b h' (a + 2 ^ k)" "k < K" "2 ^ Suc k dvd a - b"
    using that f assms(2) unfolding in_page_def halves_brange(1) [OF assms(1), symmetric] by auto
qed

lemma layout_split:
  assumes "layout K P S h" and "halves k a S h h'" and "6 \<le> k"
  shows "layout K P (insert (a + 2 ^ k) S) h'"
proof -
  note r = halves_brange [OF assms(2)]
  have same: "in_page K b h' c = in_page K b h c" if "c \<in> S" "c \<noteq> a" for b c
    by (rule in_page_other) (use assms(2) that in \<open>auto simp: halves_def\<close>)
  have page: "\<exists>b\<in>P. in_page K b h' c" if "c \<in> insert (a + 2 ^ k) S" for c
    using that assms(1) halves_in_page(1) [OF assms(2,3)] same assms(2) unfolding layout_def halves_def by (metis insertE)
  have disj: "brange h' c \<inter> brange h' d = {}" if "c \<in> insert (a + 2 ^ k) S" "d \<in> insert (a + 2 ^ k) S" "c \<noteq> d" for c d
  proof -
    have dis: "brange h c \<inter> brange h d = {}" if "c \<in> S" "d \<in> S" "c \<noteq> d" for c d
      using that assms(1) unfolding layout_def by blast
    have sub: "\<exists>e\<in>S. brange h' c \<subseteq> brange h e \<and> (c = e \<or> e = a \<and> c = a + 2 ^ k)" if "c \<in> insert (a + 2 ^ k) S" for c
      using that r assms(2) unfolding halves_def by (metis Un_upper1 Un_upper2 insertE order_refl)
    from sub [OF that(1)] sub [OF that(2)] obtain e f where
      e: "e \<in> S" "brange h' c \<subseteq> brange h e" "c = e \<or> e = a \<and> c = a + 2 ^ k" and
      f: "f \<in> S" "brange h' d \<subseteq> brange h f" "d = f \<or> f = a \<and> d = a + 2 ^ k" by blast
    show ?thesis
    proof (cases "e = f")
      case True
      with e(3) f(3) that(3) have "c = a \<and> d = a + 2 ^ k \<or> d = a \<and> c = a + 2 ^ k" by auto
      with r(2) show ?thesis by blast
    next
      case False
      with dis [OF e(1) f(1)] e(2) f(2) show ?thesis by blast
    qed
  qed
  show ?thesis
  proof (rule layoutI)
    show "finite P" "finite (insert (a + 2 ^ k) S)" using assms(1) by (simp_all add: layout_def)
    show "prange K b \<subseteq> (\<Union>c\<in>insert (a + 2 ^ k) S. brange h' c)" if "b \<in> P" for b
      unfolding halves_union [OF assms(2)] using that assms(1) unfolding layout_def by blast
    show "prange K b \<inter> prange K c = {}" if "b \<in> P" "c \<in> P" "b \<noteq> c" for b c using that assms(1) unfolding layout_def by blast
  qed (fact page disj)+
qed

lemma layout_merge:
  assumes "layout K P (insert (a + 2 ^ k) S) h'" and "halves k a S h h'" and "6 \<le> k" and "k < K"
    and "in_page K b h' a" and "in_page K b h' (a + 2 ^ k)" and "2 ^ Suc k dvd a - b" and "b \<in> P"
  shows "layout K P S h"
proof -
  note r = halves_brange [OF assms(2)]
  have same: "in_page K b h' c = in_page K b h c" if "c \<in> S" "c \<noteq> a" for b c
    by (rule in_page_other) (use assms(2) that in \<open>auto simp: halves_def\<close>)
  have "\<exists>b\<in>P. in_page K b h c" if "c \<in> S" for c
    using that assms(1,8) halves_in_page(2) [OF assms(2,3,5,6,4,7)] same unfolding layout_def by (metis insertI2)
  moreover have "brange h c \<inter> brange h d = {}" if "c \<in> S" "d \<in> S" "c \<noteq> d" for c d
  proof -
    have dis: "brange h' c \<inter> brange h' d = {}" if "c \<in> insert (a + 2 ^ k) S" "d \<in> insert (a + 2 ^ k) S" "c \<noteq> d" for c d
      using that assms(1) unfolding layout_def by blast
    have n: "a + 2 ^ k \<notin> S" "a \<in> S" using assms(2) by (auto simp: halves_def)
    have a: "brange h a \<inter> brange h d = {}" if "d \<in> S" "d \<noteq> a" for d
      unfolding r(3) [OF that, symmetric] r(1) [symmetric] using dis [of a d] dis [of "a + 2 ^ k" d] that n by auto
    show ?thesis using a [of c] a [of d] dis [of c d] r(3) that by (metis Int_commute insertI2)
  qed
  ultimately show ?thesis using assms(1) unfolding layout_def halves_union [OF assms(2)] by simp
qed

section \<open>The lists of free blocks\<close>

interpretation fb: links NextBlock PrevBlock "\<lambda>p b. b\<lparr>NextBlock := p\<rparr>" "\<lambda>p b. b\<lparr>PrevBlock := p\<rparr>"
  by unfold_locales simp_all

definition free_lists :: "addr set \<Rightarrow> buddy_state \<Rightarrow> bool" where
  "free_lists F st \<longleftrightarrow> (\<forall>k. \<exists>xs. seg NextBlock PrevBlock (blocks st) None (MemDesc st k) xs None \<and> distinct xs \<and>
     set xs = {a \<in> F. k_size (blocks st a) = k})"

text \<open>The part of a block that the list operations leave alone.\<close>

definition hdr :: "BuddyBlock \<Rightarrow> BuddyBlock" where
  "hdr b = b\<lparr>NextBlock := None, PrevBlock := None\<rparr>"

lemma hdr_eq:
  "hdr x = hdr y \<longleftrightarrow> Base_ptr x = Base_ptr y \<and> MagicNumber x = MagicNumber y \<and> OwnerThread x = OwnerThread y \<and>
     Base_kSize x = Base_kSize y \<and> k_size x = k_size y \<and> ExtraInfo x = ExtraInfo y \<and> status x = status y \<and>
     NextToBeFreed x = NextToBeFreed y"
  by (cases x, cases y) (auto simp: hdr_def)

definition same_but_lists :: "buddy_state \<Rightarrow> buddy_state \<Rightarrow> bool" where
  "same_but_lists st' st \<longleftrightarrow> st' = st\<lparr>blocks := blocks st', MemDesc := MemDesc st'\<rparr> \<and> (\<forall>a. hdr (blocks st' a) = hdr (blocks st a))"

lemma upd_simps [simp]:
  "blocks (upd_block p f st) = (blocks st)(p := f (blocks st p))" "MemDesc (upd_block p f st) = MemDesc st"
  "blocks (set_desc k q st) = blocks st" "MemDesc (set_desc k q st) = (MemDesc st)(k := q)"
  "blocks (upd_stats g st) = blocks st" "MemDesc (upd_stats g st) = MemDesc st" "Stats (upd_stats g st) = g (Stats st)"
  by (simp_all add: upd_block_def set_desc_def upd_stats_def)

lemma free_lists_cong:
  assumes "free_lists F st" and "MemDesc st' = MemDesc st"
    and "\<And>a. a \<in> F \<Longrightarrow> NextBlock (blocks st' a) = NextBlock (blocks st a) \<and> PrevBlock (blocks st' a) = PrevBlock (blocks st a) \<and>
      k_size (blocks st' a) = k_size (blocks st a)"
  shows "free_lists F st'"
  unfolding free_lists_def
proof
  fix k
  obtain xs where xs: "seg NextBlock PrevBlock (blocks st) None (MemDesc st k) xs None" "distinct xs"
    "set xs = {a \<in> F. k_size (blocks st a) = k}"
    using assms(1) unfolding free_lists_def by blast
  have "seg NextBlock PrevBlock (blocks st') None (MemDesc st' k) xs None"
    using seg_cong [of xs NextBlock "blocks st'" "blocks st" PrevBlock] assms(2,3) xs(1,3) by simp
  moreover have "set xs = {a \<in> F. k_size (blocks st' a) = k}" using xs(3) assms(3) by auto
  ultimately show "\<exists>xs. seg NextBlock PrevBlock (blocks st') None (MemDesc st' k) xs None \<and> distinct xs \<and>
      set xs = {a \<in> F. k_size (blocks st' a) = k}" using xs(2) by blast
qed

lemma Insert_FreeBlock_same: "same_but_lists (Insert_FreeBlock p st) st"
  by (cases st) (auto simp: same_but_lists_def Insert_FreeBlock_def Let_def hdr_eq upd_block_def set_desc_def split: option.split)

lemma Insert_FreeBlock_lists:
  assumes "free_lists F st" and "p \<notin> F"
  shows "free_lists (insert p F) (Insert_FreeBlock p st)"
  unfolding free_lists_def
proof
  fix k
  let ?st = "Insert_FreeBlock p st" and ?k = "k_size (blocks st p)"
  have ks: "k_size (blocks ?st a) = k_size (blocks st a)" for a
    using Insert_FreeBlock_same [of p st] by (simp add: same_but_lists_def hdr_eq)
  obtain xs where xs: "seg NextBlock PrevBlock (blocks st) None (MemDesc st k) xs None" "distinct xs"
    "set xs = {a \<in> F. k_size (blocks st a) = k}"
    using assms(1) unfolding free_lists_def by blast
  obtain ys where ys: "seg NextBlock PrevBlock (blocks st) None (MemDesc st ?k) ys None" "distinct ys"
    "set ys = {a \<in> F. k_size (blocks st a) = ?k}"
    using assms(1) unfolding free_lists_def by blast
  have py: "p \<notin> set ys" "p \<notin> set xs" using assms(2) ys(3) xs(3) by auto
  show "\<exists>xs. seg NextBlock PrevBlock (blocks ?st) None (MemDesc ?st k) xs None \<and> distinct xs \<and>
      set xs = {a \<in> insert p F. k_size (blocks ?st a) = k}"
  proof (cases "k = ?k")
    case True
    have "seg NextBlock PrevBlock (blocks ?st) None (MemDesc ?st k) (p # ys) None"
    proof (cases ys)
      case Nil
      with ys(1) True show ?thesis by (simp add: Insert_FreeBlock_def)
    next
      case (Cons y zs)
      with ys(1) have m: "MemDesc st ?k = Some y" by simp
      let ?h = "(blocks st)(y := (blocks st y)\<lparr>PrevBlock := Some p\<rparr>)"
      have "seg NextBlock PrevBlock ?h (Some p) (Some y) ys None"
        using fb.seg_set_first [of "blocks st" None "Some y" y zs None "Some p"] ys(1,2) m Cons by simp
      moreover have "seg NextBlock PrevBlock (blocks ?st) (Some p) (Some y) ys None =
          seg NextBlock PrevBlock ?h (Some p) (Some y) ys None"
        by (rule seg_cong) (use py(1) Cons m in \<open>auto simp: Insert_FreeBlock_def\<close>)
      ultimately show ?thesis using m True py(1) Cons by (simp add: Insert_FreeBlock_def)
    qed
    moreover have "set (p # ys) = {a \<in> insert p F. k_size (blocks ?st a) = k}" using ys(3) True ks by auto
    ultimately show ?thesis using ys(2) py(1) by (intro exI [of _ "p # ys"]) simp
  next
    case False
    have "y \<notin> set xs" if "MemDesc st ?k = Some y" for y
    proof -
      from that ys(1) have "y \<in> set ys" by (cases ys) auto
      then show ?thesis using ys(3) xs(3) False by auto
    qed
    then have "seg NextBlock PrevBlock (blocks ?st) None (MemDesc ?st k) xs None = seg NextBlock PrevBlock (blocks st) None (MemDesc ?st k) xs None"
      using py(2) by (intro seg_cong) (auto simp: Insert_FreeBlock_def Let_def split: option.split)
    moreover have "MemDesc ?st k = MemDesc st k" using False by (auto simp: Insert_FreeBlock_def Let_def split: option.split)
    moreover have "set xs = {a \<in> insert p F. k_size (blocks ?st a) = k}" using xs(3) False ks by auto
    ultimately show ?thesis using xs by (intro exI [of _ xs]) simp
  qed
qed

lemma Remove_FreeBlock_same: "same_but_lists (Remove_FreeBlock p st) st"
  by (cases st) (auto simp: same_but_lists_def Remove_FreeBlock_def Let_def hdr_eq upd_block_def set_desc_def split: option.split)

lemma Remove_FreeBlock_relink:
  assumes "PrevBlock (blocks st p) \<noteq> Some p" and "NextBlock (blocks st p) \<noteq> Some p"
  defines "h \<equiv> relink NextBlock PrevBlock (\<lambda>p b. b\<lparr>NextBlock := p\<rparr>) (\<lambda>p b. b\<lparr>PrevBlock := p\<rparr>) p (blocks st)"
  shows "blocks (Remove_FreeBlock p st) = h(p := (h p)\<lparr>PrevBlock := None, NextBlock := None\<rparr>)"
    and "MemDesc (Remove_FreeBlock p st) = (if PrevBlock (blocks st p) = None then
      (MemDesc st)(k_size (blocks st p) := NextBlock (blocks st p)) else MemDesc st)"
  using assms(1,2) unfolding h_def
  by (auto simp: Remove_FreeBlock_def relink_def Let_def split: option.split)

lemma Remove_FreeBlock_lists:
  assumes "free_lists F st" and "p \<in> F"
  shows "free_lists (F - {p}) (Remove_FreeBlock p st)"
  unfolding free_lists_def
proof
  fix k
  let ?st = "Remove_FreeBlock p st" and ?k = "k_size (blocks st p)"
  let ?h = "relink NextBlock PrevBlock (\<lambda>p b. b\<lparr>NextBlock := p\<rparr>) (\<lambda>p b. b\<lparr>PrevBlock := p\<rparr>) p (blocks st)"
  have ks: "k_size (blocks ?st a) = k_size (blocks st a)" for a
    using Remove_FreeBlock_same [of p st] by (simp add: same_but_lists_def hdr_eq)
  obtain zs where zs: "seg NextBlock PrevBlock (blocks st) None (MemDesc st ?k) zs None" "distinct zs"
    "set zs = {a \<in> F. k_size (blocks st a) = ?k}"
    using assms(1) unfolding free_lists_def by blast
  have "p \<in> set zs" using assms(2) zs(3) by simp
  then obtain xs ys where xy: "zs = xs @ p # ys" by (auto dest: split_list)
  note s = zs(1,2) [unfolded xy]
  have pv: "PrevBlock (blocks st p) = last_ptr None xs" "NextBlock (blocks st p) = first_ptr ys None"
    using seg_node [OF s(1)] by auto
  have "PrevBlock (blocks st p) \<noteq> Some p" "NextBlock (blocks st p) \<noteq> Some p"
    using s(2) last_in_set [of xs] unfolding pv by (auto simp: last_ptr_def first_ptr_def split: list.splits)
  note re = Remove_FreeBlock_relink [OF this]
  show "\<exists>xs. seg NextBlock PrevBlock (blocks ?st) None (MemDesc ?st k) xs None \<and> distinct xs \<and>
      set xs = {a \<in> F - {p}. k_size (blocks ?st a) = k}"
  proof (cases "k = ?k")
    case True
    have "seg NextBlock PrevBlock (blocks ?st) None (MemDesc ?st k) (xs @ ys) None =
        seg NextBlock PrevBlock ?h None (MemDesc ?st k) (xs @ ys) None"
      by (rule seg_cong) (use s(2) re(1) in auto)
    moreover have "MemDesc ?st k = (if xs = [] then NextBlock (blocks st p) else MemDesc st ?k)"
      using re(2) True pv(1) by simp
    ultimately have "seg NextBlock PrevBlock (blocks ?st) None (MemDesc ?st k) (xs @ ys) None" using fb.relink_seg(1) [OF s] by simp
    moreover have "set (xs @ ys) = {a \<in> F - {p}. k_size (blocks ?st a) = k}" using zs(3) s(2) True ks unfolding xy by auto
    ultimately show ?thesis using s(2) by (intro exI [of _ "xs @ ys"]) simp
  next
    case False
    obtain ws where ws: "seg NextBlock PrevBlock (blocks st) None (MemDesc st k) ws None" "distinct ws"
      "set ws = {a \<in> F. k_size (blocks st a) = k}"
      using assms(1) unfolding free_lists_def by blast
    have "blocks ?st a = blocks st a" if "a \<in> set ws" for a
    proof -
      have "a \<notin> set zs" using that ws(3) zs(3) False by auto
      then show ?thesis using fb.relink_seg(2) [OF s, of a] re(1) xy by (auto split: if_splits)
    qed
    then have "seg NextBlock PrevBlock (blocks ?st) None (MemDesc ?st k) ws None = seg NextBlock PrevBlock (blocks st) None (MemDesc ?st k) ws None"
      by (intro seg_cong) simp
    moreover have "MemDesc ?st k = MemDesc st k" using False re(2) by simp
    moreover have "set ws = {a \<in> F - {p}. k_size (blocks ?st a) = k}" using ws(3) False ks by auto
    ultimately show ?thesis using ws by (intro exI [of _ ws]) simp
  qed
qed

lemma free_lists_head:
  assumes "free_lists F st" and "MemDesc st k = Some p"
  shows "p \<in> F \<and> k_size (blocks st p) = k"
proof -
  obtain xs where xs: "seg NextBlock PrevBlock (blocks st) None (MemDesc st k) xs None" "set xs = {a \<in> F. k_size (blocks st a) = k}"
    using assms(1) unfolding free_lists_def by blast
  then have "p \<in> set xs" using assms(2) by (cases xs) auto
  with xs(2) show ?thesis by simp
qed

lemma free_lists_empty:
  assumes "free_lists F st"
  shows "MemDesc st k = None \<longleftrightarrow> (\<forall>a\<in>F. k_size (blocks st a) \<noteq> k)"
proof -
  obtain xs where xs: "seg NextBlock PrevBlock (blocks st) None (MemDesc st k) xs None" "set xs = {a \<in> F. k_size (blocks st a) = k}"
    using assms(1) unfolding free_lists_def by blast
  have "MemDesc st k = None \<longleftrightarrow> xs = []" using xs(1) by (cases xs) auto
  also have "\<dots> \<longleftrightarrow> (\<forall>a\<in>F. k_size (blocks st a) \<noteq> k)" using xs(2) by (auto simp flip: set_empty)
  finally show ?thesis .
qed

section \<open>The invariant\<close>

text \<open>
  \<open>P\<close> are the pages of the context, \<open>F\<close> the free blocks in the lists, \<open>R\<close> the blocks in use, \<open>X\<close> the blocks larger than a
  page and \<open>H\<close> the block that a loop is working on.
\<close>

definition free_mark :: "BuddyBlock \<Rightarrow> bool" where
  "free_mark b \<longleftrightarrow> status b = FREE_BLOCK \<and> MagicNumber b = MAGIC_NUMBER_FREE"

definition used_mark :: "nat \<Rightarrow> BuddyBlock \<Rightarrow> bool" where
  "used_mark own b \<longleftrightarrow> status b = RESERVED_BLOCK \<and> MagicNumber b = MAGIC_NUMBER_USED \<and> OwnerThread b = own"

definition no_free_buddies :: "nat \<Rightarrow> addr set \<Rightarrow> (addr \<Rightarrow> BuddyBlock) \<Rightarrow> bool" where
  "no_free_buddies K F h \<longleftrightarrow>
     (\<forall>a\<in>F. \<forall>c\<in>F. k_size (h a) < K \<longrightarrow> k_size (h c) = k_size (h a) \<longrightarrow> buddy_of h a \<noteq> c)"

definition xrange :: "(addr \<Rightarrow> BuddyBlock) \<Rightarrow> addr \<Rightarrow> addr set" where
  "xrange h a = {a ..< a + unat (ExtraInfo (h a))}"

definition extra_ok :: "nat \<Rightarrow> nat \<Rightarrow> addr \<Rightarrow> addr set \<Rightarrow> addr set \<Rightarrow> (addr \<Rightarrow> BuddyBlock) \<Rightarrow> bool" where
  "extra_ok K own lim P X h \<longleftrightarrow> finite X \<and>
     (\<forall>a\<in>X. Base_ptr (h a) = None \<and> used_mark own (h a) \<and> 48 < unat (ExtraInfo (h a)) \<and> a + unat (ExtraInfo (h a)) \<le> lim) \<and>
     (\<forall>a\<in>X. \<forall>c\<in>X. a \<noteq> c \<longrightarrow> xrange h a \<inter> xrange h c = {}) \<and> (\<forall>a\<in>X. \<forall>b\<in>P. xrange h a \<inter> prange K b = {})"

definition blocks_ok ::
  "nat \<Rightarrow> nat \<Rightarrow> addr \<Rightarrow> addr set \<Rightarrow> addr set \<Rightarrow> addr set \<Rightarrow> addr set \<Rightarrow> addr set \<Rightarrow> (addr \<Rightarrow> BuddyBlock) \<Rightarrow> bool" where
  "blocks_ok K own lim P F R X H h \<longleftrightarrow> 6 \<le> K \<and> K \<le> 30 \<and> layout K P (F \<union> R \<union> H) h \<and> F \<inter> R = {} \<and> H \<inter> (F \<union> R) = {} \<and>
     (\<forall>b\<in>P. b + 2 ^ K \<le> lim) \<and> (\<forall>a\<in>F \<union> H. free_mark (h a)) \<and> (\<forall>a\<in>R. used_mark own (h a)) \<and> no_free_buddies K F h \<and>
     extra_ok K own lim P X h"

definition used_pages :: "nat \<Rightarrow> addr set \<Rightarrow> addr set \<Rightarrow> (addr \<Rightarrow> BuddyBlock) \<Rightarrow> addr set" where
  "used_pages K P F h = {b \<in> P. \<not> (b \<in> F \<and> k_size (h b) = K)}"

definition stats_ok ::
  "nat \<Rightarrow> addr set \<Rightarrow> addr set \<Rightarrow> addr set \<Rightarrow> addr set \<Rightarrow> (addr \<Rightarrow> BuddyBlock) \<Rightarrow> buddy_stats \<Rightarrow> bool" where
  "stats_ok K P F R X h s \<longleftrightarrow> StdPageSize s = 2 ^ K \<and> NbStdPages s = of_nat (card P) \<and>
     NbStdUsed s = of_nat (card (used_pages K P F h)) \<and> StdUsedSpace s = (\<Sum>a\<in>R. 2 ^ k_size (h a)) \<and>
     StdMemSpace s = of_nat (card P) * 2 ^ K \<and> NbExtraPages s = of_nat (card X) \<and> ExtraMemSpace s = (\<Sum>a\<in>X. ExtraInfo (h a)) \<and>
     TotalMemSpace s = StdMemSpace s + ExtraMemSpace s"

definition binv :: "addr set \<Rightarrow> addr set \<Rightarrow> addr set \<Rightarrow> addr set \<Rightarrow> addr set \<Rightarrow> buddy_state \<Rightarrow> bool" where
  "binv P F R X H st \<longleftrightarrow> blocks_ok (page_ksize st) (owner st) (brk (sysmem st)) P F R X H (blocks st) \<and>
     stats_ok (page_ksize st) P F R X (blocks st) (Stats st) \<and> free_lists F st"

text \<open>The invariant apart from the lists depends on the headers of the blocks only.\<close>

lemma hdr_fields [simp]:
  "Base_ptr (hdr b) = Base_ptr b" "MagicNumber (hdr b) = MagicNumber b" "OwnerThread (hdr b) = OwnerThread b"
  "Base_kSize (hdr b) = Base_kSize b" "k_size (hdr b) = k_size b" "ExtraInfo (hdr b) = ExtraInfo b" "status (hdr b) = status b"
  "NextToBeFreed (hdr b) = NextToBeFreed b"
  by (simp_all add: hdr_def)

lemma layout_hdr: "layout K P S (\<lambda>a. hdr (h a)) = layout K P S h"
  by (simp add: layout_def in_page_def brange_def)

lemma blocks_ok_hdr: "blocks_ok K own lim P F R X H (\<lambda>a. hdr (h a)) = blocks_ok K own lim P F R X H h"
  unfolding blocks_ok_def layout_hdr
  by (simp add: free_mark_def used_mark_def no_free_buddies_def buddy_of_def extra_ok_def xrange_def)

lemma stats_ok_hdr: "stats_ok K P F R X (\<lambda>a. hdr (h a)) s = stats_ok K P F R X h s"
  by (simp add: stats_ok_def used_pages_def)

lemma same_blocks_ok:
  assumes "\<And>a. hdr (h' a) = hdr (h a)"
  shows "blocks_ok K own lim P F R X H h' = blocks_ok K own lim P F R X H h"
    and "stats_ok K P F R X h' s = stats_ok K P F R X h s"
proof -
  have "(\<lambda>a. hdr (h' a)) = (\<lambda>a. hdr (h a))" using assms by auto
  then show "blocks_ok K own lim P F R X H h' = blocks_ok K own lim P F R X H h"
    and "stats_ok K P F R X h' s = stats_ok K P F R X h s"
    using blocks_ok_hdr stats_ok_hdr by metis+
qed

lemma same_fields:
  assumes "same_but_lists st' st"
  shows "page_ksize st' = page_ksize st" "owner st' = owner st" "sysmem st' = sysmem st" "Stats st' = Stats st"
    "Config st' = Config st" "initialized st' = initialized st" "ToBeFreed_list st' = ToBeFreed_list st" "Errno st' = Errno st"
    "destroy_pending st' = destroy_pending st" "released st' = released st" "user_writes st' = user_writes st" "hdr (blocks st' a) = hdr (blocks st a)"
  using assms unfolding same_but_lists_def by (metis buddy_state.select_convs buddy_state.update_convs buddy_state.surjective)+

lemma blocks_ok_page:
  assumes "blocks_ok K own lim P F R X H h" and "a \<in> F \<union> R \<union> H"
  obtains b where "b \<in> P" and "in_page K b h a"
  using assms unfolding blocks_ok_def layout_def by blast

text \<open>A block is a whole page exactly if it has the size of a page.\<close>

lemma page_block:
  assumes "in_page K b h a" and "k_size (h a) = K"
  shows "a = b"
proof -
  have "b \<le> a" "{a ..< a + 2 ^ K} \<subseteq> {b ..< b + 2 ^ K}" using assms by (simp_all add: in_page_def brange_def prange_def)
  moreover have "(0 :: nat) < 2 ^ K" by simp
  ultimately show ?thesis by (auto simp: atLeastLessThan_subset_iff)
qed

lemma is_page_iff:
  assumes "in_page (page_ksize st) b (blocks st) a"
  shows "is_page a st \<longleftrightarrow> k_size (blocks st a) = page_ksize st"
  using assms page_block [OF assms] by (auto simp: is_page_def in_page_def)

end
