(* ===== verification/Buddy_Ops.thy ===== *)
theory Buddy_Ops
  imports Buddy_Inv
begin

text \<open>
  The operations of the buddy allocator keep the invariant: the steps of the splitting and the merging loop, that
  both loops end, and the calls of the interface.
\<close>

section \<open>Statistics\<close>

lemma stats_UseStdPage:
  assumes "stats_ok K P F R X h s" and "used_pages K P F' h = insert p (used_pages K P F h)" and "p \<notin> used_pages K P F h" and "finite P"
  shows "stats_ok K P F' R X h (UpdateStats_UseStdPage s)"
proof -
  have "finite (used_pages K P F h)" using assms(4) by (simp add: used_pages_def)
  then show ?thesis using assms(1-3) by (simp add: stats_ok_def UpdateStats_UseStdPage_def Let_def)
qed

lemma stats_FreeStdPage:
  assumes "stats_ok K P F R X h s" and "used_pages K P F h = insert p (used_pages K P F' h)" and "p \<notin> used_pages K P F' h" and "finite P"
  shows "stats_ok K P F' R X h (UpdateStats_FreeStdPage s)"
proof -
  have "finite (used_pages K P F' h)" using assms(4) by (simp add: used_pages_def)
  then show ?thesis using assms(1-3) by (simp add: stats_ok_def UpdateStats_FreeStdPage_def)
qed

lemma stats_cong:
  assumes "stats_ok K P F R X h s" and "used_pages K P F' h' = used_pages K P F h" and "\<And>a. a \<in> R \<Longrightarrow> k_size (h' a) = k_size (h a)"
    and "\<And>a. a \<in> X \<Longrightarrow> ExtraInfo (h' a) = ExtraInfo (h a)"
  shows "stats_ok K P F' R X h' s"
  using assms by (simp add: stats_ok_def)

lemma stats_UseStdMemSpace:
  assumes "stats_ok K P F R X h s" and "p \<notin> R" and "finite R" and "amount = 2 ^ k_size (h p)"
  shows "stats_ok K P F (insert p R) X h (UpdateStats_UseStdMemSpace amount s)"
  using assms by (simp add: stats_ok_def UpdateStats_UseStdMemSpace_def Let_def)

lemma stats_FreeStdMemSpace:
  assumes "stats_ok K P F R X h s" and "p \<in> R" and "finite R" and "amount = 2 ^ k_size (h p)"
  shows "stats_ok K P F (R - {p}) X h (UpdateStats_FreeStdMemSpace amount s)"
  using assms by (simp add: stats_ok_def UpdateStats_FreeStdMemSpace_def sum_diff1)

lemma stats_InsertStdPage:
  assumes "stats_ok K P F R X h s" and "p \<notin> P" and "finite P" and "used_pages K (insert p P) F' h = used_pages K P F h"
  shows "stats_ok K (insert p P) F' R X h (UpdateStats_InsertStdPage s)"
  using assms by (simp add: stats_ok_def UpdateStats_InsertStdPage_def Let_def algebra_simps)

lemma stats_RemoveStdPage:
  assumes "stats_ok K P F R X h s" and "p \<in> P" and "finite P" and "used_pages K (P - {p}) F' h = used_pages K P F h"
  shows "stats_ok K (P - {p}) F' R X h (UpdateStats_RemoveStdPage s)"
proof -
  obtain n where "card P = Suc n" using card.remove [OF assms(3,2)] by blast
  with assms show ?thesis by (simp add: stats_ok_def UpdateStats_RemoveStdPage_def algebra_simps)
qed

lemma stats_AddExtraPage:
  assumes "stats_ok K P F R X h s" and "p \<notin> X" and "finite X" and "amount = ExtraInfo (h p)"
  shows "stats_ok K P F R (insert p X) h (UpdateStats_AddExtraPage amount s)"
  using assms by (simp add: stats_ok_def UpdateStats_AddExtraPage_def Let_def algebra_simps)

lemma stats_RemoveExtraPage:
  assumes "stats_ok K P F R X h s" and "p \<in> X" and "finite X" and "amount = ExtraInfo (h p)"
  shows "stats_ok K P F R (X - {p}) h (UpdateStats_RemoveExtraPage amount s)"
proof -
  obtain n where "card X = Suc n" using card.remove [OF assms(3,2)] by blast
  with assms show ?thesis by (simp add: stats_ok_def UpdateStats_RemoveExtraPage_def sum_diff1 algebra_simps)
qed

section \<open>Taking a block out of its list and putting it back\<close>

lemma upd_stats_fields [simp]:
  "page_ksize (upd_stats g st) = page_ksize st" "owner (upd_stats g st) = owner st" "sysmem (upd_stats g st) = sysmem st"
  "Config (upd_stats g st) = Config st" "initialized (upd_stats g st) = initialized st" "ToBeFreed_list (upd_stats g st) = ToBeFreed_list st"
  "page_ksize (upd_block p f st) = page_ksize st" "owner (upd_block p f st) = owner st" "sysmem (upd_block p f st) = sysmem st"
  "Config (upd_block p f st) = Config st" "initialized (upd_block p f st) = initialized st" "Stats (upd_block p f st) = Stats st"
  "ToBeFreed_list (upd_block p f st) = ToBeFreed_list st"
  by (simp_all add: upd_stats_def upd_block_def)

lemma free_lists_upd_stats [simp]: "free_lists F (upd_stats g st) = free_lists F st"
  by (simp add: free_lists_def)

lemma binv_finite:
  assumes "binv P F R X H st"
  shows "finite P" "finite F" "finite R" "finite X"
  using assms by (auto simp: binv_def blocks_ok_def layout_def extra_ok_def)

lemma is_page_same: "same_but_lists st' st \<Longrightarrow> is_page a st' = is_page a st"
  using same_fields(12) [of st' st a] by (simp add: is_page_def hdr_eq)

lemma no_free_buddies_mono: "no_free_buddies K F h \<Longrightarrow> F' \<subseteq> F \<Longrightarrow> no_free_buddies K F' h"
  unfolding no_free_buddies_def by blast

lemma take_block:
  assumes "binv P F R X {} st" and "p \<in> F"
  shows "binv P (F - {p}) R X {p}
    (let st = Remove_FreeBlock p st in if is_page p st then upd_stats UpdateStats_UseStdPage st else st)"
proof -
  let ?st = "Remove_FreeBlock p st" and ?h = "blocks st" and ?K = "page_ksize st"
  note same = Remove_FreeBlock_same [of p st]
  have ok: "blocks_ok ?K (owner st) (brk (sysmem st)) P F R X {} ?h" and stats: "stats_ok ?K P F R X ?h (Stats st)"
    and fl: "free_lists F st" using assms(1) by (simp_all add: binv_def)
  obtain b where b: "b \<in> P" "in_page ?K b ?h p" using blocks_ok_page [OF ok] assms(2) by blast
  have S: "F - {p} \<union> R \<union> {p} = F \<union> R" using assms(2) by auto
  have "blocks_ok ?K (owner st) (brk (sysmem st)) P (F - {p}) R X {p} ?h"
    using ok assms(2) no_free_buddies_mono [of ?K F ?h "F - {p}"] unfolding blocks_ok_def S by auto
  then have ok': "blocks_ok ?K (owner st) (brk (sysmem st)) P (F - {p}) R X {p} (blocks ?st)"
    using same_blocks_ok(1) [of "blocks ?st" ?h] same_fields(12) [OF same] by simp
  have pg: "is_page p st \<longleftrightarrow> k_size (?h p) = ?K" by (rule is_page_iff [OF b(2)])
  have "stats_ok ?K P (F - {p}) R X ?h (if is_page p st then UpdateStats_UseStdPage (Stats st) else Stats st)"
  proof (cases "is_page p st")
    case True
    then have "p = b" using page_block [OF b(2)] pg by simp
    have "used_pages ?K P (F - {p}) ?h = insert p (used_pages ?K P F ?h)" "p \<notin> used_pages ?K P F ?h"
      using True pg assms(2) \<open>p = b\<close> b(1) by (auto simp: used_pages_def)
    with stats_UseStdPage [OF stats] binv_finite(1) [OF assms(1)] True show ?thesis by simp
  next
    case False
    then have "used_pages ?K P (F - {p}) ?h = used_pages ?K P F ?h" using pg by (auto simp: used_pages_def)
    with False stats_cong [OF stats] show ?thesis by simp
  qed
  then have "stats_ok ?K P (F - {p}) R X (blocks ?st) (if is_page p st then UpdateStats_UseStdPage (Stats st) else Stats st)"
    using same_blocks_ok(2) [of "blocks ?st" ?h] same_fields(12) [OF same] by simp
  with ok' Remove_FreeBlock_lists [OF fl assms(2)] show ?thesis
    unfolding Let_def is_page_same [OF same] binv_def by (simp add: same_fields [OF same] split: if_splits)
qed

lemma put_no_free_buddies:
  assumes "layout K P S h" and "insert p F \<subseteq> S" and "no_free_buddies K F h"
    and "\<And>c. c \<in> F \<Longrightarrow> k_size (h p) < K \<Longrightarrow> k_size (h c) = k_size (h p) \<Longrightarrow> buddy_of h p \<noteq> c"
  shows "no_free_buddies K (insert p F) h"
  unfolding no_free_buddies_def
proof (intro ballI impI notI)
  fix a c
  assume ac: "a \<in> insert p F" "c \<in> insert p F" and k: "k_size (h a) < K" "k_size (h c) = k_size (h a)" and c: "buddy_of h a = c"
  obtain b where b: "b \<in> P" "in_page K b h a" using assms(1,2) ac(1) unfolding layout_def by blast
  have "a \<noteq> c" using buddy_window(5) [OF b(2) k(1)] c by simp
  have "a \<in> S" using ac(1) assms(2) by blast
  have "in_page K b h (buddy_of h a)" by (rule buddy_in_layout(3) [OF assms(1) \<open>a \<in> S\<close> b(2,1) k(1)])
  then have "buddy_of h c = a" using buddy_of_buddy [OF b(2)] c k(2) by simp
  with ac \<open>a \<noteq> c\<close> k c assms(3) assms(4) [of a] assms(4) [of c] show False unfolding no_free_buddies_def by auto
qed

lemma put_block:
  assumes "binv P F R X {p} st"
    and "\<And>c. c \<in> F \<Longrightarrow> k_size (blocks st p) < page_ksize st \<Longrightarrow> k_size (blocks st c) = k_size (blocks st p) \<Longrightarrow> buddy_of (blocks st) p \<noteq> c"
  shows "binv P (insert p F) R X {}
    (let st = Insert_FreeBlock p st in if is_page p st then upd_stats UpdateStats_FreeStdPage st else st)"
proof -
  let ?st = "Insert_FreeBlock p st" and ?h = "blocks st" and ?K = "page_ksize st"
  note same = Insert_FreeBlock_same [of p st]
  have ok: "blocks_ok ?K (owner st) (brk (sysmem st)) P F R X {p} ?h" and stats: "stats_ok ?K P F R X ?h (Stats st)"
    and fl: "free_lists F st" using assms(1) by (simp_all add: binv_def)
  obtain b where b: "b \<in> P" "in_page ?K b ?h p" using blocks_ok_page [OF ok] by blast
  have pF: "p \<notin> F" using ok by (simp add: blocks_ok_def)
  have S: "insert p F \<union> R \<union> {} = F \<union> R \<union> {p}" by auto
  have "no_free_buddies ?K (insert p F) ?h"
    using put_no_free_buddies [of ?K P "F \<union> R \<union> {p}" ?h p F] ok assms(2) by (auto simp: blocks_ok_def)
  then have "blocks_ok ?K (owner st) (brk (sysmem st)) P (insert p F) R X {} ?h"
    using ok unfolding blocks_ok_def S by auto
  then have ok': "blocks_ok ?K (owner st) (brk (sysmem st)) P (insert p F) R X {} (blocks ?st)"
    using same_blocks_ok(1) [of "blocks ?st" ?h] same_fields(12) [OF same] by simp
  have pg: "is_page p st \<longleftrightarrow> k_size (?h p) = ?K" by (rule is_page_iff [OF b(2)])
  have "stats_ok ?K P (insert p F) R X ?h (if is_page p st then UpdateStats_FreeStdPage (Stats st) else Stats st)"
  proof (cases "is_page p st")
    case True
    then have "p = b" using page_block [OF b(2)] pg by simp
    have "used_pages ?K P F ?h = insert p (used_pages ?K P (insert p F) ?h)" "p \<notin> used_pages ?K P (insert p F) ?h"
      using True pg pF \<open>p = b\<close> b(1) by (auto simp: used_pages_def)
    with stats_FreeStdPage [OF stats] binv_finite(1) [OF assms(1)] True show ?thesis by simp
  next
    case False
    then have "used_pages ?K P (insert p F) ?h = used_pages ?K P F ?h" using pg by (auto simp: used_pages_def)
    with False stats_cong [OF stats] show ?thesis by simp
  qed
  then have "stats_ok ?K P (insert p F) R X (blocks ?st) (if is_page p st then UpdateStats_FreeStdPage (Stats st) else Stats st)"
    using same_blocks_ok(2) [of "blocks ?st" ?h] same_fields(12) [OF same] by simp
  with ok' Insert_FreeBlock_lists [OF fl pF] show ?thesis
    unfolding Let_def is_page_same [OF same] binv_def by (simp add: same_fields [OF same] split: if_splits)
qed

section \<open>Changing the mark of a block\<close>

lemma layout_cong:
  assumes "\<And>a. a \<in> S \<Longrightarrow> k_size (h' a) = k_size (h a) \<and> Base_ptr (h' a) = Base_ptr (h a) \<and> Base_kSize (h' a) = Base_kSize (h a)"
    and "layout K P S h"
  shows "layout K P S h'"
proof -
  have r: "brange h' a = brange h a" "in_page K b h' a = in_page K b h a" if "a \<in> S" for a b
    using assms(1) [OF that] by (simp_all add: in_page_def brange_def)
  show ?thesis using assms(2) r unfolding layout_def by simp
qed

lemma no_free_buddies_cong:
  assumes "\<And>a. a \<in> F \<Longrightarrow> k_size (h' a) = k_size (h a) \<and> Base_ptr (h' a) = Base_ptr (h a)" and "no_free_buddies K F h"
  shows "no_free_buddies K F h'"
proof -
  have "buddy_of h' a = buddy_of h a" if "a \<in> F" for a using assms(1) [OF that] by (simp add: buddy_of_def)
  with assms show ?thesis by (simp add: no_free_buddies_def)
qed

lemma extra_ok_cong:
  assumes "\<And>a. a \<in> X \<Longrightarrow> h' a = h a" and "extra_ok K own lim P X h"
  shows "extra_ok K own lim P X h'"
proof -
  have "xrange h' a = xrange h a" if "a \<in> X" for a using assms(1) [OF that] by (simp add: xrange_def)
  with assms show ?thesis by (simp add: extra_ok_def)
qed

lemma not_extra:
  assumes "blocks_ok K own lim P F R X H h" and "a \<in> X" and "b \<in> P"
  shows "a \<notin> prange K b"
proof -
  have "a \<in> xrange h a" "xrange h a \<inter> prange K b = {}" using assms by (auto simp: blocks_ok_def extra_ok_def xrange_def)
  then show ?thesis by blast
qed

lemma block_not_extra:
  assumes "blocks_ok K own lim P F R X H h" and "a \<in> F \<union> R \<union> H"
  shows "a \<notin> X"
proof
  assume "a \<in> X"
  obtain b where "b \<in> P" "in_page K b h a" using blocks_ok_page [OF assms] .
  then have "a \<in> prange K b" using start_in_brange [of a h] by (auto simp: in_page_def)
  with not_extra [OF assms(1) \<open>a \<in> X\<close> \<open>b \<in> P\<close>] show False by simp
qed

lemma used_pages_cong:
  "(\<And>a. a \<in> F \<Longrightarrow> k_size (h' a) = k_size (h a)) \<Longrightarrow> used_pages K P F h' = used_pages K P F h"
  by (auto simp: used_pages_def)

lemma mark_used:
  assumes "binv P F R X {p} st" and "self = owner st" and "amount = 2 ^ k_size (blocks st p)"
  shows "binv P F (insert p R) X {} (upd_stats (UpdateStats_UseStdMemSpace amount)
    (upd_block p (\<lambda>b. b\<lparr>status := RESERVED_BLOCK, MagicNumber := MAGIC_NUMBER_USED, OwnerThread := self\<rparr>) st))"
proof -
  let ?f = "\<lambda>b. b\<lparr>status := RESERVED_BLOCK, MagicNumber := MAGIC_NUMBER_USED, OwnerThread := self\<rparr>"
  let ?h = "blocks st" and ?K = "page_ksize st"
  let ?h' = "?h(p := ?f (?h p))"
  have ok: "blocks_ok ?K (owner st) (brk (sysmem st)) P F R X {p} ?h" and stats: "stats_ok ?K P F R X ?h (Stats st)"
    and fl: "free_lists F st" using assms(1) by (simp_all add: binv_def)
  have p: "p \<notin> F" "p \<notin> R" "p \<notin> X" using ok block_not_extra [OF ok, of p] by (auto simp: blocks_ok_def)
  have S: "F \<union> insert p R \<union> {} = F \<union> R \<union> {p}" by auto
  have "layout ?K P (F \<union> R \<union> {p}) ?h'" by (rule layout_cong [of _ _ ?h]) (use ok in \<open>auto simp: blocks_ok_def\<close>)
  moreover have "no_free_buddies ?K F ?h'" by (rule no_free_buddies_cong [of _ _ ?h]) (use ok p in \<open>auto simp: blocks_ok_def\<close>)
  moreover have "extra_ok ?K (owner st) (brk (sysmem st)) P X ?h'" by (rule extra_ok_cong [of _ _ ?h]) (use ok p in \<open>auto simp: blocks_ok_def\<close>)
  ultimately have ok': "blocks_ok ?K (owner st) (brk (sysmem st)) P F (insert p R) X {} ?h'"
    using ok p assms(2) unfolding blocks_ok_def S by (auto simp: used_mark_def)
  have am: "amount = 2 ^ k_size (?h' p)" using assms(3) by simp
  have "stats_ok ?K P F R X ?h' (Stats st)" by (rule stats_cong [OF stats]) (use p in \<open>auto simp: used_pages_def\<close>)
  then have "stats_ok ?K P F (insert p R) X ?h' (UpdateStats_UseStdMemSpace amount (Stats st))"
    by (rule stats_UseStdMemSpace) (use p binv_finite [OF assms(1)] am in auto)
  moreover have "free_lists F (upd_block p ?f st)" by (rule free_lists_cong [OF fl]) (use p in auto)
  ultimately show ?thesis using ok' by (simp add: binv_def)
qed

lemma mark_free:
  assumes "binv P F R X {} st" and "p \<in> R" and "amount = 2 ^ k_size (blocks st p)"
  shows "binv P F (R - {p}) X {p} (upd_stats (UpdateStats_FreeStdMemSpace amount)
    (upd_block p (\<lambda>b. b\<lparr>status := FREE_BLOCK, MagicNumber := MAGIC_NUMBER_FREE\<rparr>) st))"
proof -
  let ?f = "\<lambda>b. b\<lparr>status := FREE_BLOCK, MagicNumber := MAGIC_NUMBER_FREE\<rparr>"
  let ?h = "blocks st" and ?K = "page_ksize st"
  let ?h' = "?h(p := ?f (?h p))"
  have ok: "blocks_ok ?K (owner st) (brk (sysmem st)) P F R X {} ?h" and stats: "stats_ok ?K P F R X ?h (Stats st)"
    and fl: "free_lists F st" using assms(1) by (simp_all add: binv_def)
  have p: "p \<notin> F" "p \<notin> X" using ok block_not_extra [OF ok, of p] assms(2) by (auto simp: blocks_ok_def)
  have S: "F \<union> (R - {p}) \<union> {p} = F \<union> R \<union> {}" using assms(2) by auto
  have "layout ?K P (F \<union> R \<union> {}) ?h'" by (rule layout_cong [of _ _ ?h]) (use ok in \<open>auto simp: blocks_ok_def\<close>)
  moreover have "no_free_buddies ?K F ?h'" by (rule no_free_buddies_cong [of _ _ ?h]) (use ok p in \<open>auto simp: blocks_ok_def\<close>)
  moreover have "extra_ok ?K (owner st) (brk (sysmem st)) P X ?h'" by (rule extra_ok_cong [of _ _ ?h]) (use ok p in \<open>auto simp: blocks_ok_def\<close>)
  ultimately have ok': "blocks_ok ?K (owner st) (brk (sysmem st)) P F (R - {p}) X {p} ?h'"
    using ok p unfolding blocks_ok_def S by (auto simp: free_mark_def)
  have "stats_ok ?K P F R X ?h' (Stats st)" by (rule stats_cong [OF stats]) (use p in \<open>auto simp: used_pages_def\<close>)
  then have "stats_ok ?K P F (R - {p}) X ?h' (UpdateStats_FreeStdMemSpace amount (Stats st))"
    by (rule stats_FreeStdMemSpace) (use assms binv_finite [OF assms(1)] in auto)
  moreover have "free_lists F (upd_block p ?f st)" by (rule free_lists_cong [OF fl]) (use p in auto)
  ultimately show ?thesis using ok' by (simp add: binv_def)
qed

section \<open>Splitting\<close>

lemma Get_BuddyBlock_in_page:
  assumes "in_page K b (blocks st) p" and "k_size (blocks st p) < 31"
  shows "Get_BuddyBlock p st = Some (buddy_of (blocks st) p)"
  using assms by (simp add: Get_BuddyBlock_def buddy_of_def in_page_def)

definition split_step :: "addr \<Rightarrow> addr \<Rightarrow> buddy_state \<Rightarrow> buddy_state" where
  "split_step p buddy st =
     (let st = upd_block p (\<lambda>b. b\<lparr>k_size := k_size b - 1\<rparr>) st
      in Insert_FreeBlock buddy (upd_block buddy (\<lambda>b. b\<lparr>Base_ptr := Base_ptr (blocks st p), Base_kSize := Base_kSize (blocks st p),
           status := FREE_BLOCK, MagicNumber := MAGIC_NUMBER_FREE, k_size := k_size (blocks st p)\<rparr>) st))"

lemma split_step_halves:
  assumes "blocks_ok K own lim P F R X {p} h" and "k_size (h p) = Suc k" and "b \<in> P" and "in_page K b h p"
  defines "h1 \<equiv> h(p := (h p)\<lparr>k_size := k\<rparr>)"
  defines "h2 \<equiv> h1(p + 2 ^ k := (h (p + 2 ^ k))\<lparr>Base_ptr := Base_ptr (h p), Base_kSize := Base_kSize (h p),
    status := FREE_BLOCK, MagicNumber := MAGIC_NUMBER_FREE, k_size := k\<rparr>)"
  shows "buddy_of h1 p = p + 2 ^ k" and "p + 2 ^ k \<notin> F \<union> R \<union> {p} \<union> X" and "halves k p (F \<union> R \<union> {p}) h h2"
proof -
  have l: "layout K P (F \<union> R \<union> {p}) h" using assms(1) by (simp add: blocks_ok_def)
  have b: "Base_ptr (h p) = Some b" "b \<le> p" "2 ^ Suc k dvd p - b" "brange h p \<subseteq> prange K b" using assms(2,4) by (simp_all add: in_page_def)
  have "2 ^ k dvd p - b" using power_le_dvd [OF b(3), of k] by simp
  then show "buddy_of h1 p = p + 2 ^ k" using b by (simp add: buddy_of_def h1_def xor_power)
  have "p + 2 ^ k \<in> brange h p" using assms(2) by (simp add: brange_def)
  moreover have "p + 2 ^ k \<noteq> p" by simp
  ultimately have "p + 2 ^ k \<notin> F \<union> R \<union> {p}" using l start_in_brange [of "p + 2 ^ k" h] unfolding layout_def by blast
  moreover have "p + 2 ^ k \<notin> X" using not_extra [OF assms(1) _ assms(3)] b(4) \<open>p + 2 ^ k \<in> brange h p\<close> by blast
  ultimately show "p + 2 ^ k \<notin> F \<union> R \<union> {p} \<union> X" by simp
  then show "halves k p (F \<union> R \<union> {p}) h h2" using assms(2) by (auto simp: halves_def h2_def h1_def)
qed

text \<open>What an operation leaves alone: the headers of the blocks \<open>A\<close> and the rest of the context.\<close>

definition same_on :: "addr set \<Rightarrow> buddy_state \<Rightarrow> buddy_state \<Rightarrow> bool" where
  "same_on A st' st \<longleftrightarrow> page_ksize st' = page_ksize st \<and> owner st' = owner st \<and> sysmem st' = sysmem st \<and> Config st' = Config st \<and>
     initialized st' = initialized st \<and> ToBeFreed_list st' = ToBeFreed_list st \<and> Errno st' = Errno st \<and>
     destroy_pending st' = destroy_pending st \<and> released st' = released st \<and> user_writes st' = user_writes st \<and> (\<forall>a\<in>A. hdr (blocks st' a) = hdr (blocks st a))"

lemma same_on_refl [simp]: "same_on A st st"
  by (simp add: same_on_def)

lemma same_on_trans: "same_on A st'' st' \<Longrightarrow> same_on A st' st \<Longrightarrow> same_on A st'' st"
  by (simp add: same_on_def)

lemma same_on_mono: "same_on A st' st \<Longrightarrow> B \<subseteq> A \<Longrightarrow> same_on B st' st"
  by (auto simp: same_on_def)

lemma same_on_upd_stats [simp]: "same_on A (upd_stats g st) st"
  by (simp add: same_on_def upd_stats_def)

lemma same_on_upd_block: "p \<notin> A \<Longrightarrow> same_on A (upd_block p f st) st"
  by (auto simp: same_on_def upd_block_def)

lemma same_on_lists: "same_but_lists st' st \<Longrightarrow> same_on A st' st"
  using same_fields [of st' st] by (simp add: same_on_def)

lemmas same_on_fields = same_on_def [THEN iffD1]

lemma split_step_inv:
  assumes "binv P F R X {p} st" and "k_size (blocks st p) = Suc k" and "6 \<le> k"
  defines "c \<equiv> p + 2 ^ k"
  shows "binv P (insert c F) R X {p} (split_step p c st)" and "k_size (blocks (split_step p c st) p) = k"
    and "same_on (R \<union> X) (split_step p c st) st"
    and "Get_BuddyBlock p (upd_block p (\<lambda>b. b\<lparr>k_size := k_size b - 1\<rparr>) st) = Some c"
proof -
  let ?h = "blocks st" and ?K = "page_ksize st"
  let ?h1 = "?h(p := (?h p)\<lparr>k_size := k\<rparr>)"
  let ?f = "\<lambda>b. b\<lparr>Base_ptr := Base_ptr (?h p), Base_kSize := Base_kSize (?h p), status := FREE_BLOCK,
    MagicNumber := MAGIC_NUMBER_FREE, k_size := k\<rparr>"
  let ?h2 = "?h1(c := ?f (?h c))"
  let ?st2 = "upd_block c ?f (upd_block p (\<lambda>b. b\<lparr>k_size := k\<rparr>) st)"
  have ok: "blocks_ok ?K (owner st) (brk (sysmem st)) P F R X {p} ?h" and stats: "stats_ok ?K P F R X ?h (Stats st)"
    and fl: "free_lists F st" using assms(1) by (simp_all add: binv_def)
  obtain b where b: "b \<in> P" "in_page ?K b ?h p" using blocks_ok_page [OF ok] by blast
  note sp = split_step_halves [OF ok assms(2) b, folded c_def]
  have p: "p \<notin> F" "p \<notin> R" "p \<notin> X" using ok block_not_extra [OF ok, of p] by (auto simp: blocks_ok_def)
  have c: "c \<notin> F" "c \<notin> R" "c \<notin> X" "c \<noteq> p" using sp(2) by auto
  have k: "Suc k \<le> ?K" using b(2) assms(2) by (simp add: in_page_def)
  have ss: "split_step p c st = Insert_FreeBlock c ?st2"
    using assms(2) c(4) by (simp add: split_step_def upd_block_def)
  have st2: "blocks ?st2 = ?h2" using c(4) by simp
  have S: "insert c F \<union> R \<union> {p} = insert c (F \<union> R \<union> {p})" by auto
  have lay: "layout ?K P (insert c (F \<union> R \<union> {p})) ?h2"
    unfolding c_def by (rule layout_split) (use ok sp(3) assms(3) in \<open>auto simp: blocks_ok_def c_def\<close>)
  have bc: "buddy_of ?h2 c = p"
  proof -
    have p2: "in_page ?K b ?h2 p" and "in_page ?K b ?h2 c"
      using halves_in_page(1) [OF sp(3) assms(3) b(2)] by (auto simp: c_def)
    moreover have "buddy_of ?h2 p = c" using sp(1) c(4) by (simp add: buddy_of_def)
    ultimately show ?thesis using buddy_of_buddy [OF p2] c(4) by simp
  qed
  have "no_free_buddies ?K F ?h2" by (rule no_free_buddies_cong [of _ _ ?h]) (use ok p c in \<open>auto simp: blocks_ok_def\<close>)
  then have "no_free_buddies ?K (insert c F) ?h2"
    by (rule put_no_free_buddies [OF lay, rotated]) (use bc p(1) in auto)
  moreover have "extra_ok ?K (owner st) (brk (sysmem st)) P X ?h2" by (rule extra_ok_cong [of _ _ ?h]) (use ok p c in \<open>auto simp: blocks_ok_def\<close>)
  ultimately have ok': "blocks_ok ?K (owner st) (brk (sysmem st)) P (insert c F) R X {p} ?h2"
    using ok p c lay unfolding blocks_ok_def S by (auto simp: free_mark_def)
  have "stats_ok ?K P (insert c F) R X ?h2 (Stats st)"
    by (rule stats_cong [OF stats]) (use p c k in \<open>auto simp: used_pages_def\<close>)
  moreover have "free_lists F ?st2" by (rule free_lists_cong [OF fl]) (use p c in auto)
  note same = Insert_FreeBlock_same [of c ?st2]
  note same_blocks_ok [of "blocks (Insert_FreeBlock c ?st2)" ?h2, OF same_fields(12) [OF same, unfolded st2]]
  ultimately show "binv P (insert c F) R X {p} (split_step p c st)"
    using ok' Insert_FreeBlock_lists [OF \<open>free_lists F ?st2\<close> c(1)] unfolding ss binv_def by (simp add: same_fields [OF same])
  show "k_size (blocks (split_step p c st) p) = k"
    using same_fields(12) [OF same, of p] c(4) unfolding ss by (simp add: hdr_eq)
  show "same_on (R \<union> X) (split_step p c st) st"
    unfolding ss by (rule same_on_trans [OF same_on_lists [OF same] same_on_trans [OF same_on_upd_block same_on_upd_block]]) (use p c in auto)
  have "in_page ?K b ?h1 p" using halves_in_page(1) [OF sp(3) assms(3) b(2)] c(4) by (simp add: in_page_def brange_def)
  then show "Get_BuddyBlock p (upd_block p (\<lambda>b. b\<lparr>k_size := k_size b - 1\<rparr>) st) = Some c"
    using Get_BuddyBlock_in_page [of ?K b "upd_block p (\<lambda>b. b\<lparr>k_size := k_size b - 1\<rparr>) st" p] sp(1) k ok assms(2)
    by (simp add: blocks_ok_def)
qed

lemma split_loop_inv:
  assumes "binv P F R X {p} st" and "s \<le> k_size (blocks st p)" and "6 \<le> s"
  shows "\<exists>F' st'. split_loop s p st = Some st' \<and> binv P F' R X {p} st' \<and> k_size (blocks st' p) = s \<and> same_on (R \<union> X) st' st"
  using assms
proof (induction "k_size (blocks st p) - s" arbitrary: F st)
  case 0
  then have "split_loop s p st = Some st" by (subst split_loop.simps) simp
  with 0 show ?case by auto
next
  case (Suc d)
  then obtain k where k: "k_size (blocks st p) = Suc k" "s \<le> k" "d = k - s" by (cases "k_size (blocks st p)") auto
  have "6 \<le> k" using k(2) Suc.prems(3) by simp
  note step = split_step_inv [OF Suc.prems(1) k(1) this]
  let ?st = "split_step p (p + 2 ^ k) st"
  have "split_loop s p st = split_loop s p ?st"
    using step(4) k(1,2) by (subst split_loop.simps) (simp add: split_step_def Let_def)
  moreover have "\<exists>F' st'. split_loop s p ?st = Some st' \<and> binv P F' R X {p} st' \<and> k_size (blocks st' p) = s \<and> same_on (R \<union> X) st' ?st"
    by (rule Suc.hyps(1)) (use step k Suc.prems(3) in auto)
  ultimately show ?case using same_on_trans [OF _ step(3)] by metis
qed

section \<open>Merging\<close>

definition merge_step :: "addr \<Rightarrow> addr \<Rightarrow> buddy_state \<Rightarrow> buddy_state" where
  "merge_step c lo st = upd_block lo (\<lambda>b. b\<lparr>k_size := Suc (k_size b)\<rparr>) (Remove_FreeBlock c st)"

lemma buddy_order:
  assumes "in_page K b h p" and "buddy_of h p = c" and "lo = (if c < p then c else p)"
  shows "{lo, lo + 2 ^ k_size (h p)} = {p, c}" and "2 ^ Suc (k_size (h p)) dvd lo - b"
proof -
  let ?k = "k_size (h p)"
  note alt = buddy_of_alt [OF assms(1)]
  have "{lo, lo + 2 ^ ?k} = {p, c} \<and> 2 ^ Suc ?k dvd lo - b"
  proof (cases "2 ^ Suc ?k dvd p - b")
    case True
    then show ?thesis using alt(1) assms(2,3) by auto
  next
    case False
    have "(0 :: nat) < 2 ^ ?k" by simp
    moreover have cc: "c = p - 2 ^ ?k" "b + 2 ^ ?k \<le> p" using alt(1) alt(2) [OF False] False assms(2) by auto
    ultimately have "c < p" "p = c + 2 ^ ?k" by linarith+
    moreover have "2 ^ Suc ?k dvd c - b" using alt(2) [OF False] unfolding cc(1) by simp
    ultimately show ?thesis using assms(3) by auto
  qed
  then show "{lo, lo + 2 ^ ?k} = {p, c}" and "2 ^ Suc ?k dvd lo - b" by blast+
qed

lemma merge_step_inv:
  assumes "binv P F R X {p} st" and "k_size (blocks st p) < page_ksize st" and "buddy_of (blocks st) p = c"
    and "status (blocks st c) \<noteq> RESERVED_BLOCK" and "k_size (blocks st c) = k_size (blocks st p)" and "lo = (if c < p then c else p)"
  shows "binv P (F - {c}) R X {lo} (merge_step c lo st)" and "k_size (blocks (merge_step c lo st) lo) = Suc (k_size (blocks st p))"
    and "same_on (R \<union> X) (merge_step c lo st) st"
proof -
  let ?h = "blocks st" and ?K = "page_ksize st" and ?k = "k_size (blocks st p)"
  let ?st1 = "Remove_FreeBlock c st"
  let ?h' = "?h(lo := (?h lo)\<lparr>k_size := Suc (k_size (?h lo))\<rparr>)"
  have ok: "blocks_ok ?K (owner st) (brk (sysmem st)) P F R X {p} ?h" and stats: "stats_ok ?K P F R X ?h (Stats st)"
    and fl: "free_lists F st" using assms(1) by (simp_all add: binv_def)
  have lay: "layout ?K P (F \<union> R \<union> {p}) ?h" using ok by (simp add: blocks_ok_def)
  obtain b where b: "b \<in> P" "in_page ?K b ?h p" using blocks_ok_page [OF ok] by blast
  note bl = buddy_in_layout [OF lay _ b(2,1) assms(2), unfolded assms(3)]
  have "c \<noteq> p" using buddy_window(5) [OF b(2) assms(2)] assms(3) by simp
  have "c \<notin> R" using ok assms(4) by (auto simp: blocks_ok_def used_mark_def)
  then have cF: "c \<in> F" using bl(1) \<open>c \<noteq> p\<close> by auto
  have p: "p \<notin> F" "p \<notin> R" using ok by (auto simp: blocks_ok_def)
  have X: "p \<notin> X" "c \<notin> X" using block_not_extra [OF ok] cF by auto
  note ord = buddy_order [OF b(2) assms(3,6)]
  let ?S = "F - {c} \<union> R \<union> {lo}"
  have klo: "k_size (?h lo) = ?k" "lo = p \<or> lo = c" using assms(5,6) by auto
  have "lo + 2 ^ ?k \<in> {p, c}" using ord(1) by blast
  then have khi: "k_size (?h (lo + 2 ^ ?k)) = ?k" "lo + 2 ^ ?k = p \<or> lo + 2 ^ ?k = c" using assms(5) by auto
  have hiS: "lo + 2 ^ ?k \<notin> ?S" using khi(2) klo(2) p \<open>c \<notin> R\<close> \<open>c \<noteq> p\<close> ord(1) by auto
  have S: "insert (lo + 2 ^ ?k) ?S = F \<union> R \<union> {p}" using ord(1) cF by auto
  have base: "Base_ptr (?h a) = Some b" "Base_kSize (?h a) = ?K" "in_page ?K b ?h a" if "a = p \<or> a = c" for a
    using that b(2) bl(3) by (auto simp: in_page_def)
  have hv: "halves ?k lo ?S ?h' ?h"
    using klo khi hiS base [OF klo(2)] base [OF khi(2)] by (auto simp: halves_def)
  have "6 \<le> ?k" using b(2) by (simp add: in_page_def)
  have lay': "layout ?K P ?S ?h'"
    by (rule layout_merge [OF _ hv \<open>6 \<le> ?k\<close> assms(2) base(3) [OF klo(2)] base(3) [OF khi(2)] ord(2) b(1)]) (use lay S in simp)
  have loF: "lo \<notin> F - {c}" "lo \<notin> R" "lo \<notin> X" using klo(2) p \<open>c \<notin> R\<close> X by auto
  have "no_free_buddies ?K (F - {c}) ?h" by (rule no_free_buddies_mono [of _ F]) (use ok in \<open>auto simp: blocks_ok_def\<close>)
  then have "no_free_buddies ?K (F - {c}) ?h'" by (rule no_free_buddies_cong [rotated]) (use loF in auto)
  moreover have "extra_ok ?K (owner st) (brk (sysmem st)) P X ?h'" by (rule extra_ok_cong [of _ _ ?h]) (use ok loF in \<open>auto simp: blocks_ok_def\<close>)
  moreover have "free_mark (?h' lo)" using ok klo(2) cF by (auto simp: blocks_ok_def free_mark_def)
  ultimately have ok': "blocks_ok ?K (owner st) (brk (sysmem st)) P (F - {c}) R X {lo} ?h'"
    using ok lay' loF unfolding blocks_ok_def by auto
  have stats': "stats_ok ?K P (F - {c}) R X ?h' (Stats st)"
    by (rule stats_cong [OF stats]) (use loF assms(2,5) in \<open>auto simp: used_pages_def\<close>)
  note same = Remove_FreeBlock_same [of c st]
  have hd: "hdr (blocks (merge_step c lo st) a) = hdr (?h' a)" for a
    using same_fields(12) [OF same, of a] by (auto simp: merge_step_def hdr_eq)
  have "free_lists (F - {c}) (merge_step c lo st)"
    unfolding merge_step_def by (rule free_lists_cong [OF Remove_FreeBlock_lists [OF fl cF]]) (use loF in auto)
  then show "binv P (F - {c}) R X {lo} (merge_step c lo st)"
    using ok' stats' same_blocks_ok [of "blocks (merge_step c lo st)" ?h', OF hd] unfolding binv_def
    by (simp add: merge_step_def same_fields [OF same])
  show "k_size (blocks (merge_step c lo st) lo) = Suc ?k" using hd [of lo] klo by (simp add: hdr_eq)
  show "same_on (R \<union> X) (merge_step c lo st) st"
    unfolding merge_step_def by (rule same_on_trans [OF same_on_upd_block same_on_lists [OF same]]) (use loF in auto)
qed

lemma merge_loop_inv:
  assumes "binv P F R X {p} st"
  shows "\<exists>F' p' st'. merge_loop p st = Some (p', st') \<and> binv P F' R X {p'} st' \<and> same_on (R \<union> X) st' st \<and>
    (\<forall>c\<in>F'. k_size (blocks st' p') < page_ksize st' \<longrightarrow> k_size (blocks st' c) = k_size (blocks st' p') \<longrightarrow> buddy_of (blocks st') p' \<noteq> c)"
  using assms
proof (induction "page_ksize st - k_size (blocks st p)" arbitrary: F p st rule: less_induct)
  case less
  let ?h = "blocks st"
  have ok: "blocks_ok (page_ksize st) (owner st) (brk (sysmem st)) P F R X {p} ?h" using less.prems by (simp add: binv_def)
  obtain b where b: "b \<in> P" "in_page (page_ksize st) b ?h p" using blocks_ok_page [OF ok] by blast
  then have ks: "Base_kSize (?h p) = page_ksize st" "page_ksize st \<le> 30" using ok by (simp_all add: in_page_def blocks_ok_def)
  define c where "c = buddy_of ?h p"
  show ?case
  proof (cases "k_size (?h p) < page_ksize st \<and> status (?h c) \<noteq> RESERVED_BLOCK \<and> k_size (?h c) = k_size (?h p)")
    case True
    define lo where "lo = (if c < p then c else p)"
    note step = merge_step_inv [OF less.prems conjunct1 [OF True] c_def [symmetric] conjunct1 [OF conjunct2 [OF True]] conjunct2 [OF conjunct2 [OF True]] lo_def]
    have g: "Get_BuddyBlock p st = Some c" unfolding c_def by (rule Get_BuddyBlock_in_page [OF b(2)]) (use True ks in simp)
    have "merge_loop p st = merge_loop lo (merge_step c lo st)"
      using True ks g by (subst merge_loop.simps) (simp add: lo_def merge_step_def Let_def)
    moreover have "page_ksize (merge_step c lo st) - k_size (blocks (merge_step c lo st) lo) < page_ksize st - k_size (?h p)"
      using step(2) True same_on_fields [OF step(3)] by (auto intro: diff_less_mono2)
    ultimately show ?thesis using less.hyps [OF _ step(1)] same_on_trans [OF _ step(3)] by metis
  next
    case False
    have "merge_loop p st = Some (p, st)"
    proof (cases "k_size (?h p) < page_ksize st")
      case True
      then have "Get_BuddyBlock p st = Some c" unfolding c_def using Get_BuddyBlock_in_page [OF b(2)] ks by simp
      then show ?thesis using True False ks by (subst merge_loop.simps) auto
    next
      case False
      then show ?thesis using ks by (subst merge_loop.simps) simp
    qed
    moreover have "status (?h a) \<noteq> RESERVED_BLOCK" if "a \<in> F" for a using that ok by (auto simp: blocks_ok_def free_mark_def)
    ultimately show ?thesis using less.prems False c_def by (intro exI [of _ F] exI [of _ p] exI [of _ st]) auto
  qed
qed

section \<open>Pages and large blocks\<close>

lemma page_brange: "k_size (h p) = K \<Longrightarrow> brange h p = prange K p"
  by (simp add: brange_def prange_def)

lemma layout_drop_page:
  assumes "layout K P S h" and "p \<in> S" and "k_size (h p) = K"
  shows "layout K (P - {p}) (S - {p}) h"
proof (rule layoutI)
  show "finite (P - {p})" "finite (S - {p})" using assms(1) by (simp_all add: layout_def)
  have sep: "brange h a \<inter> prange K p = {}" if "a \<in> S - {p}" for a
    using that assms unfolding page_brange [of h p, OF assms(3), symmetric] layout_def by blast
  show "\<exists>b\<in>P - {p}. in_page K b h a" if a: "a \<in> S - {p}" for a
  proof -
    obtain b where "b \<in> P" "in_page K b h a" using a assms(1) unfolding layout_def by blast
    moreover have "b \<noteq> p" using sep [OF a] calculation(2) start_in_brange [of a h] unfolding in_page_def by blast
    ultimately show ?thesis by blast
  qed
  show "prange K b \<subseteq> (\<Union>a\<in>S - {p}. brange h a)" if b: "b \<in> P - {p}" for b
  proof
    fix x assume x: "x \<in> prange K b"
    then obtain a where a: "a \<in> S" "x \<in> brange h a" using b assms(1) unfolding layout_def by blast
    obtain b' where "b' \<in> P" "in_page K b' h p" using assms(1,2) unfolding layout_def by blast
    then have "p \<in> P" using page_block [of K b' h p] assms(3) by simp
    then have "x \<notin> prange K p" using x b assms(1) unfolding layout_def by blast
    then show "x \<in> (\<Union>a\<in>S - {p}. brange h a)" using a page_brange [of h p, OF assms(3)] by blast
  qed
qed (use assms(1) in \<open>unfold layout_def, blast\<close>)+

lemma drop_page:
  assumes "binv P F R X {} st" and "p \<in> F" and "k_size (blocks st p) = page_ksize st"
  shows "binv (P - {p}) (F - {p}) R X {} (upd_stats UpdateStats_RemoveStdPage (Remove_FreeBlock p st))"
    and "same_on (R \<union> X) (upd_stats UpdateStats_RemoveStdPage (Remove_FreeBlock p st)) st" and "p \<in> P"
proof -
  let ?st = "Remove_FreeBlock p st" and ?h = "blocks st" and ?K = "page_ksize st"
  note same = Remove_FreeBlock_same [of p st]
  have ok: "blocks_ok ?K (owner st) (brk (sysmem st)) P F R X {} ?h" and stats: "stats_ok ?K P F R X ?h (Stats st)"
    and fl: "free_lists F st" using assms(1) by (simp_all add: binv_def)
  obtain b where b: "b \<in> P" "in_page ?K b ?h p" using blocks_ok_page [OF ok] assms(2) by blast
  then show "p \<in> P" using page_block [OF b(2) assms(3)] by simp
  have "layout ?K (P - {p}) (F \<union> R \<union> {} - {p}) ?h" by (rule layout_drop_page) (use ok assms in \<open>auto simp: blocks_ok_def\<close>)
  moreover have "F \<union> R \<union> {} - {p} = F - {p} \<union> R \<union> {}" using ok assms(2) by (auto simp: blocks_ok_def)
  ultimately have "blocks_ok ?K (owner st) (brk (sysmem st)) (P - {p}) (F - {p}) R X {} ?h"
    using ok no_free_buddies_mono [of ?K F ?h "F - {p}"] by (auto simp: blocks_ok_def extra_ok_def)
  then have ok': "blocks_ok ?K (owner st) (brk (sysmem st)) (P - {p}) (F - {p}) R X {} (blocks ?st)"
    using same_blocks_ok(1) [of "blocks ?st" ?h] same_fields(12) [OF same] by simp
  have "used_pages ?K (P - {p}) (F - {p}) ?h = used_pages ?K P F ?h" using assms(2,3) by (auto simp: used_pages_def)
  then have "stats_ok ?K (P - {p}) (F - {p}) R X ?h (UpdateStats_RemoveStdPage (Stats st))"
    by (rule stats_RemoveStdPage [OF stats \<open>p \<in> P\<close> binv_finite(1) [OF assms(1)]])
  then have "stats_ok ?K (P - {p}) (F - {p}) R X (blocks ?st) (UpdateStats_RemoveStdPage (Stats st))"
    using same_blocks_ok(2) [of "blocks ?st" ?h] same_fields(12) [OF same] by simp
  with ok' Remove_FreeBlock_lists [OF fl assms(2)] show "binv (P - {p}) (F - {p}) R X {} (upd_stats UpdateStats_RemoveStdPage ?st)"
    by (simp add: binv_def same_fields [OF same])
  show "same_on (R \<union> X) (upd_stats UpdateStats_RemoveStdPage ?st) st"
    by (rule same_on_trans [OF same_on_upd_stats same_on_lists [OF same]])
qed

lemma blocks_ok_lim: "blocks_ok K own lim P F R X H h \<Longrightarrow> lim \<le> lim' \<Longrightarrow> blocks_ok K own lim' P F R X H h"
  by (fastforce simp: blocks_ok_def extra_ok_def)

lemma below_lim:
  assumes "blocks_ok K own lim P F R X H h"
  shows "a \<in> F \<union> R \<union> H \<Longrightarrow> a < lim" and "a \<in> X \<Longrightarrow> a < lim" and "b \<in> P \<Longrightarrow> b < lim"
proof -
  have P: "prange K b \<subseteq> {..<lim}" if "b \<in> P" for b using assms that by (fastforce simp: blocks_ok_def prange_def)
  show "a < lim" if "a \<in> F \<union> R \<union> H"
    using blocks_ok_page [OF assms that] P start_in_brange [of a h] unfolding in_page_def by blast
  show "a < lim" if "a \<in> X" using assms that by (fastforce simp: blocks_ok_def extra_ok_def)
  show "b < lim" if "b \<in> P" using subsetD [OF P [OF that], of b] by (simp add: prange_def)
qed

lemma layout_in_page: "layout K P S h \<Longrightarrow> a \<in> S \<Longrightarrow> \<exists>b\<in>P. in_page K b h a"
  by (simp add: layout_def)

lemma layout_new_page:
  assumes "layout K P S h" and "\<And>b. b \<in> P \<Longrightarrow> b + 2 ^ K \<le> p" and "6 \<le> K"
    and "Base_ptr (h p) = Some p" and "Base_kSize (h p) = K" and "k_size (h p) = K"
  shows "layout K (insert p P) (insert p S) h"
proof -
  have pg: "in_page K p h p" using assms(3-6) by (simp add: in_page_def page_brange)
  have P: "prange K b \<inter> prange K p = {}" if "b \<in> P" for b using assms(2) [OF that] by (auto simp: prange_def)
  have S: "brange h a \<inter> brange h p = {}" if a: "a \<in> S" for a
  proof -
    obtain b where "b \<in> P" "in_page K b h a" using layout_in_page [OF assms(1) a] by blast
    then have "b \<in> P" "brange h a \<subseteq> prange K b" by (simp_all add: in_page_def)
    with P [of b] show ?thesis unfolding page_brange [of h p, OF assms(6)] by blast
  qed
  show ?thesis
  proof (rule layoutI)
    show "finite (insert p P)" "finite (insert p S)" using assms(1) by (simp_all add: layout_def)
    show "\<exists>b\<in>insert p P. in_page K b h a" if "a \<in> insert p S" for a using that pg assms(1) unfolding layout_def by blast
    show "prange K b \<subseteq> (\<Union>a\<in>insert p S. brange h a)" if "b \<in> insert p P" for b
      using that assms(1) page_brange [of h p, OF assms(6)] unfolding layout_def by blast
    show "brange h a \<inter> brange h c = {}" if "a \<in> insert p S" "c \<in> insert p S" "a \<noteq> c" for a c
      using that S assms(1) unfolding layout_def by blast
    show "prange K b \<inter> prange K c = {}" if "b \<in> insert p P" "c \<in> insert p P" "b \<noteq> c" for b c
      using that P assms(1) unfolding layout_def by blast
  qed
qed

definition new_block :: "addr \<Rightarrow> nat \<Rightarrow> BuddyBlock \<Rightarrow> BuddyBlock" where
  "new_block p K b = b\<lparr>Base_ptr := Some p, Base_kSize := K, status := FREE_BLOCK, k_size := K, MagicNumber := MAGIC_NUMBER_FREE\<rparr>"

lemma extra_ok_new_page:
  assumes "extra_ok K own lim P X h" and "lim \<le> lim'" and "lim \<le> p"
  shows "extra_ok K own lim' (insert p P) X h"
proof -
  have "xrange h a \<inter> prange K p = {} \<and> a + unat (ExtraInfo (h a)) \<le> lim'" if "a \<in> X" for a
  proof -
    have "a + unat (ExtraInfo (h a)) \<le> lim" using that assms(1) by (simp add: extra_ok_def)
    with assms(2,3) show ?thesis by (auto simp: xrange_def prange_def)
  qed
  with assms(1) show ?thesis by (simp add: extra_ok_def)
qed

lemma add_page:
  assumes "binv P F R X {} st" and "brk m = brk (sysmem st) + 2 ^ page_ksize st" and "p = brk (sysmem st)"
  defines "st1 \<equiv> upd_block p (new_block p (page_ksize st)) (st\<lparr>sysmem := m\<rparr>)"
  shows "binv (insert p P) (insert p F) R X {} (upd_stats UpdateStats_InsertStdPage (Insert_FreeBlock p st1))"
    and "k_size (blocks st1 p) = page_ksize st" and "p \<notin> R \<union> X"
proof -
  let ?h = "blocks st" and ?K = "page_ksize st"
  let ?h' = "?h(p := new_block p ?K (?h p))"
  have ok: "blocks_ok ?K (owner st) (brk (sysmem st)) P F R X {} ?h" and stats: "stats_ok ?K P F R X ?h (Stats st)"
    and fl: "free_lists F st" using assms(1) by (simp_all add: binv_def)
  have p: "p \<notin> F" "p \<notin> R" "p \<notin> X" "p \<notin> P" using below_lim [OF ok] assms(3) by (meson Un_iff order_less_irrefl)+
  then show "p \<notin> R \<union> X" by simp
  have st1: "blocks st1 = ?h'" "page_ksize st1 = ?K" "owner st1 = owner st" "sysmem st1 = m" "Stats st1 = Stats st" "MemDesc st1 = MemDesc st"
    by (simp_all add: st1_def)
  show "k_size (blocks st1 p) = ?K" by (simp add: st1 new_block_def)
  have n: "6 \<le> ?K" "\<And>b. b \<in> P \<Longrightarrow> b + 2 ^ ?K \<le> p" using ok assms(3) by (auto simp: blocks_ok_def)
  have "layout ?K P (F \<union> R) ?h'" by (rule layout_cong [of _ _ ?h]) (use ok p in \<open>auto simp: blocks_ok_def\<close>)
  then have lay: "layout ?K (insert p P) (insert p (F \<union> R)) ?h'" by (rule layout_new_page) (use n in \<open>auto simp: new_block_def\<close>)
  have S: "insert p F \<union> R \<union> {} = insert p (F \<union> R)" by auto
  have "no_free_buddies ?K F ?h'" by (rule no_free_buddies_cong [of _ _ ?h]) (use ok p in \<open>auto simp: blocks_ok_def\<close>)
  then have nf: "no_free_buddies ?K (insert p F) ?h'" by (rule put_no_free_buddies [OF lay, rotated]) (auto simp: new_block_def)
  have "extra_ok ?K (owner st) (brk (sysmem st)) P X ?h'" by (rule extra_ok_cong [of _ _ ?h]) (use ok p in \<open>auto simp: blocks_ok_def\<close>)
  then have ex: "extra_ok ?K (owner st) (brk m) (insert p P) X ?h'" by (rule extra_ok_new_page) (use assms(2,3) in auto)
  have fm: "\<forall>a\<in>insert p F \<union> {}. free_mark (?h' a)" "\<forall>a\<in>R. used_mark (owner st) (?h' a)"
    using ok p by (auto simp: blocks_ok_def free_mark_def used_mark_def new_block_def)
  have pl: "\<forall>b\<in>insert p P. b + 2 ^ ?K \<le> brk m" using n(2) assms(2,3) by fastforce
  have "K \<le> 30" "F \<inter> R = {}" if "K = ?K" for K using ok that by (simp_all add: blocks_ok_def)
  then have ok': "blocks_ok ?K (owner st) (brk m) (insert p P) (insert p F) R X {} ?h'"
    unfolding blocks_ok_def S using lay nf ex fm pl n(1) p by simp
  have "stats_ok ?K P F R X ?h' (Stats st)" by (rule stats_cong [OF stats]) (use p in \<open>auto simp: used_pages_def\<close>)
  then have st': "stats_ok ?K (insert p P) (insert p F) R X ?h' (UpdateStats_InsertStdPage (Stats st))"
    by (rule stats_InsertStdPage) (use p binv_finite [OF assms(1)] in \<open>auto simp: used_pages_def new_block_def\<close>)
  note same = Insert_FreeBlock_same [of p st1]
  have "free_lists F st1" by (rule free_lists_cong [OF fl]) (use p st1 in auto)
  then have "free_lists (insert p F) (Insert_FreeBlock p st1)" by (rule Insert_FreeBlock_lists [OF _ p(1)])
  then show "binv (insert p P) (insert p F) R X {} (upd_stats UpdateStats_InsertStdPage (Insert_FreeBlock p st1))"
    using ok' st' same_blocks_ok [of "blocks (Insert_FreeBlock p st1)" ?h', OF same_fields(12) [OF same, unfolded st1]]
    by (simp add: binv_def same_fields [OF same] st1)
qed

end
