(* ===== verification/Buddy_Calls.thy ===== *)
theory Buddy_Calls
  imports Buddy_Ops
begin

text \<open>
  The calls of the buddy allocator as its users see them: from every state that the calls can reach, each call returns,
  blocks in use do not overlap and are as large as requested, and the statistics are exact.
\<close>

section \<open>Reserving a block\<close>

lemma reserve_block_inv:
  assumes "binv P F R X {} st" and "p \<in> F" and "6 \<le> s" and "s \<le> k_size (blocks st p)" and "self = owner st"
  shows "\<exists>F' st'. reserve_block self s (2 ^ s) p st = Some (Some (p + 48), st') \<and> binv P F' (insert p R) X {} st' \<and>
    same_on (R \<union> X) st' st \<and> k_size (blocks st' p) = s \<and> p \<notin> R \<union> X"
proof -
  let ?st1 = "let st = Remove_FreeBlock p st in if is_page p st then upd_stats UpdateStats_UseStdPage st else st"
  have inv1: "binv P (F - {p}) R X {p} ?st1" by (rule take_block [OF assms(1,2)])
  have same: "same_on A ?st1 st" for A
    unfolding Let_def using same_on_trans [OF same_on_upd_stats same_on_lists [OF Remove_FreeBlock_same]] same_on_lists [OF Remove_FreeBlock_same] by simp
  have "k_size (blocks ?st1 p) = k_size (blocks st p)" using same_on_fields [OF same, of "{p}"] by (simp add: hdr_eq)
  then obtain F' st2 where s: "split_loop s p ?st1 = Some st2" "binv P F' R X {p} st2" "k_size (blocks st2 p) = s" "same_on (R \<union> X) st2 ?st1"
    using split_loop_inv [OF inv1 _ assms(3)] assms(4) by auto
  let ?st3 = "upd_stats (UpdateStats_UseStdMemSpace (2 ^ s))
    (upd_block p (\<lambda>b. b\<lparr>status := RESERVED_BLOCK, MagicNumber := MAGIC_NUMBER_USED, OwnerThread := self\<rparr>) st2)"
  have own: "self = owner st2" using same_on_fields [OF s(4)] same_on_fields [OF same] assms(5) by simp
  have inv3: "binv P F' (insert p R) X {} ?st3" by (rule mark_used [OF s(2) own]) (simp add: s(3))
  have ok2: "blocks_ok (page_ksize st2) (owner st2) (brk (sysmem st2)) P F' R X {p} (blocks st2)" using s(2) by (simp add: binv_def)
  have p: "p \<notin> R \<union> X" using ok2 block_not_extra [OF ok2, of p] by (auto simp: blocks_ok_def)
  have "reserve_block self s (2 ^ s) p st = Some (Some (p + 48), ?st3)"
    using s(1) by (simp add: reserve_block_def size_header64_def Let_def)
  moreover have "same_on (R \<union> X) ?st3 st"
    using same_on_trans [OF same_on_upd_stats same_on_upd_block [OF p]] same_on_trans [OF s(4) same] same_on_trans by blast
  moreover have "k_size (blocks ?st3 p) = s" using s(3) by simp
  ultimately show ?thesis using inv3 p by blast
qed

lemma NewStdPage_inv:
  assumes "binv P F R X {} st"
  shows "(\<exists>m. NewStdPage st = Some (None, st\<lparr>sysmem := m\<rparr>) \<and> binv P F R X {} (st\<lparr>sysmem := m\<rparr>) \<and> \<not> mem_good (sysmem st) \<and> fails m = fails (sysmem st)) \<or>
    (\<exists>p m st'. NewStdPage st = Some (Some p, st') \<and> binv (insert p P) (insert p F) R X {} st' \<and>
       k_size (blocks st' p) = page_ksize st \<and> same_on (R \<union> X) st' (st\<lparr>sysmem := m\<rparr>) \<and> fails m = fails (sysmem st))"
proof -
  have K: "page_ksize st \<le> 30" using assms by (simp add: binv_def blocks_ok_def)
  obtain q m where a: "Mem_Alloc (2 ^ page_ksize st) (sysmem st) = (q, m)" by (cases "Mem_Alloc (2 ^ page_ksize st) (sysmem st)")
  show ?thesis
  proof (cases q)
    case None
    have "binv P F R X {} (st\<lparr>sysmem := m\<rparr>)"
      using assms Mem_Alloc_None [of "2 ^ page_ksize st" "sysmem st" m] a None by (simp add: binv_def free_lists_def)
    moreover have "\<not> mem_good (sysmem st)" using a None by (auto simp: Mem_Alloc_def mem_good_def Let_def split: if_splits)
    ultimately show ?thesis using a None K by (intro disjI1 exI [of _ m]) (simp add: NewStdPage_def Mem_Alloc_fails)
  next
    case (Some p)
    have m: "brk m = brk (sysmem st) + 2 ^ page_ksize st" "p = brk (sysmem st)"
      using Mem_Alloc_Some [of "2 ^ page_ksize st" "sysmem st" p m] a Some by simp_all
    let ?st1 = "upd_block p (new_block p (page_ksize st)) (st\<lparr>sysmem := m\<rparr>)"
    let ?st2 = "upd_stats UpdateStats_InsertStdPage (Insert_FreeBlock p ?st1)"
    note add = add_page [OF assms m]
    have "NewStdPage st = Some (Some p, ?st2)"
      using a Some K by (simp add: NewStdPage_def new_block_def upd_block_def Let_def)
    moreover have "k_size (blocks ?st2 p) = page_ksize st"
      using add(2) same_fields(12) [OF Insert_FreeBlock_same, of p ?st1 p] by (simp add: hdr_eq)
    moreover have "same_on (R \<union> X) ?st2 (st\<lparr>sysmem := m\<rparr>)"
      by (rule same_on_trans [OF same_on_upd_stats same_on_trans [OF same_on_lists [OF Insert_FreeBlock_same] same_on_upd_block [OF add(3)]]])
    moreover have "fails m = fails (sysmem st)" by (rule Mem_Alloc_fails [OF a])
    ultimately show ?thesis using add(1) by blast
  qed
qed

lemma extra_ok_add:
  assumes "extra_ok K own lim P X h" and "\<And>a. a \<in> X \<Longrightarrow> h' a = h a" and "\<And>b. b \<in> P \<Longrightarrow> b + 2 ^ K \<le> lim"
    and "Base_ptr (h' lim) = None" and "used_mark own (h' lim)" and "48 < unat (ExtraInfo (h' lim))" and "lim' = lim + unat (ExtraInfo (h' lim))"
  shows "extra_ok K own lim' P (insert lim X) h'"
proof -
  have X: "extra_ok K own lim P X h'" by (rule extra_ok_cong [OF assms(2,1)])
  then have below: "xrange h' a \<inter> xrange h' lim = {} \<and> a + unat (ExtraInfo (h' a)) \<le> lim'" if "a \<in> X" for a
    using that assms(7) by (auto simp: extra_ok_def xrange_def)
  have "xrange h' lim \<inter> prange K b = {}" if "b \<in> P" for b using assms(3) [OF that] by (auto simp: xrange_def prange_def)
  with X below assms(4-7) show ?thesis by (auto simp: extra_ok_def)
qed

lemma AllocLargeBlock_inv:
  assumes "binv P F R X {} st" and "self = owner st" and "extra_alloc (Config st)" and "0 < unat Size" and "unat Size + 48 < 2 ^ 64"
  shows "(\<exists>m. AllocLargeBlock self Size st = (None, st\<lparr>sysmem := m, Errno := BUDDY_ERR_MALLOC\<rparr>) \<and> binv P F R X {} (st\<lparr>sysmem := m\<rparr>) \<and> \<not> mem_good (sysmem st) \<and> fails m = fails (sysmem st)) \<or>
    (\<exists>p m st'. AllocLargeBlock self Size st = (Some (p + 48), st') \<and> binv P F R (insert p X) {} st' \<and>
       unat (ExtraInfo (blocks st' p)) = unat Size + 48 \<and> same_on (R \<union> X) st' (st\<lparr>sysmem := m\<rparr>) \<and> p \<notin> R \<union> X \<and> fails m = fails (sysmem st))"
proof -
  let ?t = "Size + size_header64" and ?K = "page_ksize st" and ?h = "blocks st"
  have t: "unat ?t = unat Size + 48" using assms(5) by (simp add: size_header64_def unat_add_lem [THEN iffD1])
  obtain q m where a: "Mem_Alloc (unat ?t) (sysmem st) = (q, m)" by (cases "Mem_Alloc (unat ?t) (sysmem st)")
  have ok: "blocks_ok ?K (owner st) (brk (sysmem st)) P F R X {} ?h" and stats: "stats_ok ?K P F R X ?h (Stats st)"
    and fl: "free_lists F st" using assms(1) by (simp_all add: binv_def)
  show ?thesis
  proof (cases q)
    case None
    have "binv P F R X {} (st\<lparr>sysmem := m\<rparr>)"
      using assms(1) Mem_Alloc_None [of "unat ?t" "sysmem st" m] a None by (simp add: binv_def free_lists_def)
    moreover have "\<not> mem_good (sysmem st)" using a None t by (auto simp: Mem_Alloc_def mem_good_def Let_def split: if_splits)
    ultimately show ?thesis using a None assms(3) by (intro disjI1 exI [of _ m]) (simp add: AllocLargeBlock_def Mem_Alloc_fails)
  next
    case (Some p)
    have m: "brk m = brk (sysmem st) + (unat Size + 48)" "p = brk (sysmem st)"
      using Mem_Alloc_Some [of "unat ?t" "sysmem st" p m] a Some t by simp_all
    let ?f = "\<lambda>b. b\<lparr>Base_ptr := None, ExtraInfo := ?t, status := RESERVED_BLOCK, MagicNumber := MAGIC_NUMBER_USED, OwnerThread := self\<rparr>"
    let ?st1 = "upd_block p ?f (st\<lparr>sysmem := m\<rparr>)"
    let ?st2 = "upd_stats (UpdateStats_AddExtraPage ?t) ?st1" and ?h' = "?h(p := ?f (?h p))"
    have p: "p \<notin> F" "p \<notin> R" "p \<notin> X" "p \<notin> P" using below_lim [OF ok] m(2) by (meson Un_iff order_less_irrefl)+
    have "layout ?K P (F \<union> R) ?h'" by (rule layout_cong [of _ _ ?h]) (use ok p in \<open>auto simp: blocks_ok_def\<close>)
    moreover have "no_free_buddies ?K F ?h'" by (rule no_free_buddies_cong [of _ _ ?h]) (use ok p in \<open>auto simp: blocks_ok_def\<close>)
    moreover have "extra_ok ?K (owner st) (brk m) P (insert p X) ?h'"
      by (rule extra_ok_add [of _ _ p _ _ ?h]) (use ok p m t assms in \<open>auto simp: blocks_ok_def used_mark_def\<close>)
    ultimately have "blocks_ok ?K (owner st) (brk m) P F R (insert p X) {} ?h'"
      using ok p m(1) by (fastforce simp: blocks_ok_def)
    moreover have "stats_ok ?K P F R X ?h' (Stats st)" by (rule stats_cong [OF stats]) (use p in \<open>auto simp: used_pages_def\<close>)
    then have "stats_ok ?K P F R (insert p X) ?h' (UpdateStats_AddExtraPage ?t (Stats st))"
      by (rule stats_AddExtraPage) (use p binv_finite [OF assms(1)] in auto)
    moreover have "free_lists F ?st1" by (rule free_lists_cong [OF fl]) (use p in auto)
    ultimately have "binv P F R (insert p X) {} ?st2" by (simp add: binv_def)
    moreover have "AllocLargeBlock self Size st = (Some (p + 48), ?st2)"
      using a Some assms(3) by (simp add: AllocLargeBlock_def Let_def size_header64_def)
    moreover have "same_on (R \<union> X) ?st2 (st\<lparr>sysmem := m\<rparr>)"
      by (rule same_on_trans [OF same_on_upd_stats same_on_upd_block]) (use p in auto)
    moreover have "unat (ExtraInfo (blocks ?st2 p)) = unat Size + 48" using t by simp
    ultimately show ?thesis using p Mem_Alloc_fails [OF a] by blast
  qed
qed

section \<open>Freeing a block\<close>

lemma Garbage_StdPages_inv:
  assumes "binv P F R X {} st" and "p \<in> F" and "k_size (blocks st p) = page_ksize st"
  shows "\<exists>P' F'. binv P' F' R X {} (Garbage_StdPages p st) \<and> same_on (R \<union> X) (Garbage_StdPages p st) st"
proof -
  consider "Garbage_StdPages p st = st" | "Garbage_StdPages p st = upd_stats UpdateStats_RemoveStdPage (Remove_FreeBlock p st)"
    unfolding Garbage_StdPages_def by presburger
  then show ?thesis
  proof cases
    case 1
    with assms(1) show ?thesis unfolding 1 by (intro exI conjI) auto
  next
    case 2
    show ?thesis unfolding 2 using drop_page(1,2) [OF assms] by blast
  qed
qed

lemma free_std_block_inv:
  assumes "binv P F R X {} st" and "p \<in> R"
  shows "\<exists>P' F' st'. free_std_block p st = Some st' \<and> binv P' F' (R - {p}) X {} st' \<and> same_on (R - {p} \<union> X) st' st"
proof -
  let ?h = "blocks st" and ?K = "page_ksize st"
  have ok: "blocks_ok ?K (owner st) (brk (sysmem st)) P F R X {} ?h" using assms(1) by (simp add: binv_def)
  obtain b where b: "b \<in> P" "in_page ?K b ?h p" using blocks_ok_page [OF ok] assms(2) by blast
  have K: "?K \<le> 30" using ok by (simp add: blocks_ok_def)
  have pb: "Base_ptr (?h p) = Some b" "Base_kSize (?h p) = ?K" "k_size (?h p) \<le> ?K" "b \<le> p" "p \<in> prange ?K b"
    using b(2) start_in_brange [of p ?h] unfolding in_page_def by blast+
  have pX: "p \<notin> R - {p} \<union> X" using block_not_extra [OF ok, of p] assms(2) by auto
  define st1 where "st1 = upd_stats (UpdateStats_FreeStdMemSpace (2 ^ k_size (?h p)))
    (upd_block p (\<lambda>b. b\<lparr>status := FREE_BLOCK, MagicNumber := MAGIC_NUMBER_FREE\<rparr>) st)"
  have inv1: "binv P F (R - {p}) X {p} st1" unfolding st1_def by (rule mark_free [OF assms refl])
  have same1: "same_on (R - {p} \<union> X) st1 st"
    unfolding st1_def by (rule same_on_trans [OF same_on_upd_stats same_on_upd_block [OF pX]])
  from merge_loop_inv [OF inv1] obtain F2 q st2 where m: "merge_loop p st1 = Some (q, st2)" "binv P F2 (R - {p}) X {q} st2"
    "same_on (R - {p} \<union> X) st2 st1"
    "\<And>c. c \<in> F2 \<Longrightarrow> k_size (blocks st2 q) < page_ksize st2 \<Longrightarrow> k_size (blocks st2 c) = k_size (blocks st2 q) \<Longrightarrow> buddy_of (blocks st2) q \<noteq> c"
    by metis
  let ?st3 = "Insert_FreeBlock q st2"
  let ?st4 = "let st = ?st3 in if is_page q st then upd_stats UpdateStats_FreeStdPage st else st"
  have inv4: "binv P (insert q F2) (R - {p}) X {} ?st4" by (rule put_block [OF m(2,4)])
  have same4: "same_on A ?st4 st2" for A
    unfolding Let_def using same_on_trans [OF same_on_upd_stats same_on_lists [OF Insert_FreeBlock_same]] same_on_lists [OF Insert_FreeBlock_same] by simp
  have ok2: "blocks_ok (page_ksize st2) (owner st2) (brk (sysmem st2)) P F2 (R - {p}) X {q} (blocks st2)" using m(2) by (simp add: binv_def)
  obtain b2 where b2: "in_page (page_ksize st2) b2 (blocks st2) q" using blocks_ok_page [OF ok2, of q] by blast
  have page: "k_size (blocks ?st4 q) = page_ksize ?st4" if "is_page q ?st3"
    using that same_on_fields [OF same4, of "{q}"] is_page_iff [OF b2] is_page_same [OF Insert_FreeBlock_same] by (simp add: hdr_eq)
  have eq: "free_std_block p st = Some (if is_page q ?st3 \<and> free_areas (Config ?st4) then Garbage_StdPages q ?st4 else ?st4)"
    using pb K m(1) unfolding st1_def by (simp add: free_std_block_def prange_def Let_def)
  have same: "same_on (R - {p} \<union> X) ?st4 st" by (rule same_on_trans [OF same4 same_on_trans [OF m(3) same1]])
  show ?thesis
  proof (cases "is_page q ?st3 \<and> free_areas (Config ?st4)")
    case True
    obtain P' F' where g: "binv P' F' (R - {p}) X {} (Garbage_StdPages q ?st4)" "same_on (R - {p} \<union> X) (Garbage_StdPages q ?st4) ?st4"
      using Garbage_StdPages_inv [OF inv4 _ page] True by blast
    from same_on_trans [OF g(2) same] g(1) eq True show ?thesis by auto
  next
    case False
    with eq inv4 same show ?thesis by auto
  qed
qed

lemma BuddyFree_internal_inv:
  assumes "binv P F R X {} st" and "p \<in> R \<union> X"
  shows "\<exists>P' F' st'. BuddyFree_internal p st = Some st' \<and> binv P' F' (R - {p}) (X - {p}) {} st' \<and> same_on (R \<union> X - {p}) st' st"
proof -
  have ok: "blocks_ok (page_ksize st) (owner st) (brk (sysmem st)) P F R X {} (blocks st)" and fl: "free_lists F st"
    and stats: "stats_ok (page_ksize st) P F R X (blocks st) (Stats st)" using assms(1) by (simp_all add: binv_def)
  show ?thesis
  proof (cases "p \<in> X")
    case True
    have "p \<notin> R" using block_not_extra [OF ok, of p] True by auto
    have ex: "IS_EXTRA_BLOCK p st" using ok True by (auto simp: IS_EXTRA_BLOCK_def blocks_ok_def extra_ok_def)
    have "blocks_ok (page_ksize st) (owner st) (brk (sysmem st)) P F R (X - {p}) {} (blocks st)"
      using ok by (simp add: blocks_ok_def extra_ok_def)
    with fl stats_RemoveExtraPage [OF stats True binv_finite(4) [OF assms(1)] refl]
    have "binv P F (R - {p}) (X - {p}) {} (FreeLargeBlock p st)"
      using ex \<open>p \<notin> R\<close> by (simp add: binv_def FreeLargeBlock_def)
    moreover have "BuddyFree_internal p st = Some (FreeLargeBlock p st)" using ex by (simp add: BuddyFree_internal_def)
    moreover have "same_on (R \<union> X - {p}) (FreeLargeBlock p st) st" using ex by (simp add: FreeLargeBlock_def)
    ultimately show ?thesis by blast
  next
    case False
    then have p: "p \<in> R" "X - {p} = X" "R \<union> X - {p} = R - {p} \<union> X" using assms(2) by auto
    obtain b where "in_page (page_ksize st) b (blocks st) p" using blocks_ok_page [OF ok] p(1) by blast
    then have "\<not> IS_EXTRA_BLOCK p st" by (simp add: IS_EXTRA_BLOCK_def in_page_def)
    then show ?thesis using free_std_block_inv [OF assms(1) p(1)] unfolding p(2,3) by (simp add: BuddyFree_internal_def)
  qed
qed

text \<open>The list of the blocks that other threads have freed.\<close>

primrec freed_chain :: "(addr \<Rightarrow> BuddyBlock) \<Rightarrow> ptr \<Rightarrow> addr list \<Rightarrow> bool" where
  "freed_chain h q [] \<longleftrightarrow> q = None"
| "freed_chain h q (x # xs) \<longleftrightarrow> q = Some x \<and> freed_chain h (NextToBeFreed (h x)) xs"

lemma freed_chain_cong:
  "(\<And>a. a \<in> set xs \<Longrightarrow> NextToBeFreed (h' a) = NextToBeFreed (h a)) \<Longrightarrow> freed_chain h' q xs = freed_chain h q xs"
  by (induction xs arbitrary: q) auto

lemma CheckBlocksToBeFreed_inv:
  assumes "binv P F R X {} st" and "freed_chain (blocks st) (ToBeFreed_list st) T" and "distinct T" and "set T \<subseteq> R \<union> X"
  shows "\<exists>P' F' st'. CheckBlocksToBeFreed st = Some st' \<and> binv P' F' (R - set T) (X - set T) {} st' \<and> ToBeFreed_list st' = None \<and>
    same_on (R \<union> X - set T) st' (st\<lparr>ToBeFreed_list := None\<rparr>)"
  using assms
proof (induction T arbitrary: P F R X st)
  case Nil
  then have "CheckBlocksToBeFreed st = Some st" by (subst CheckBlocksToBeFreed.simps) simp
  with Nil show ?case by (auto simp: same_on_def)
next
  case (Cons t T)
  let ?st1 = "st\<lparr>ToBeFreed_list := NextToBeFreed (blocks st t)\<rparr>"
  have inv1: "binv P F R X {} ?st1" using Cons.prems(1) by (simp add: binv_def free_lists_def)
  obtain P2 F2 st2 where f: "BuddyFree_internal t ?st1 = Some st2" "binv P2 F2 (R - {t}) (X - {t}) {} st2" "same_on (R \<union> X - {t}) st2 ?st1"
    using BuddyFree_internal_inv [OF inv1, of t] Cons.prems(4) by auto
  have eq: "R - {t} - set T = R - set (t # T)" "X - {t} - set T = X - set (t # T)" "R - {t} \<union> (X - {t}) - set T = R \<union> X - set (t # T)" by auto
  have "freed_chain (blocks st2) (ToBeFreed_list st2) T"
    using Cons.prems same_on_fields [OF f(3)] freed_chain_cong [of T "blocks st2" "blocks st"] by (auto simp: hdr_eq)
  then obtain P3 F3 st3 where r: "CheckBlocksToBeFreed st2 = Some st3" "binv P3 F3 (R - set (t # T)) (X - set (t # T)) {} st3"
    "ToBeFreed_list st3 = None" "same_on (R \<union> X - set (t # T)) st3 (st2\<lparr>ToBeFreed_list := None\<rparr>)"
    using Cons.IH [OF f(2)] Cons.prems(3,4) unfolding eq by auto
  have "CheckBlocksToBeFreed st = Some st3" using f(1) r(1) Cons.prems(2) by (subst CheckBlocksToBeFreed.simps) simp
  moreover have "same_on (R \<union> X - set (t # T)) st3 (st\<lparr>ToBeFreed_list := None\<rparr>)"
    using r(4) same_on_mono [OF f(3), of "R \<union> X - set (t # T)"] by (auto simp: same_on_def)
  ultimately show ?case using r(2,3) by blast
qed

section \<open>The users of the allocator\<close>

text \<open>
  \<open>U\<close> maps the addresses that users hold to the sizes they asked for. \<open>T\<close> are the blocks that wait in the list of the
  owner: no user holds them any more.
\<close>

definition block_bytes :: "buddy_state \<Rightarrow> addr \<Rightarrow> nat" where
  "block_bytes st p = (if IS_EXTRA_BLOCK p st then unat (ExtraInfo (blocks st p)) else 2 ^ k_size (blocks st p))"

definition user_size :: "buddy_state \<Rightarrow> addr \<Rightarrow> nat" where
  "user_size st u = block_bytes st (u - 48) - 48"

definition client_inv :: "buddy_state \<Rightarrow> (addr \<rightharpoonup> nat) \<Rightarrow> bool" where
  "client_inv st U \<longleftrightarrow> (\<exists>P F R X T. binv P F R X {} st \<and> initialized st \<and> freed_chain (blocks st) (ToBeFreed_list st) T \<and>
     distinct T \<and> set T \<subseteq> R \<union> X \<and> dom U = (\<lambda>a. a + 48) ` (R \<union> X - set T) \<and> (\<forall>u n. U u = Some n \<longrightarrow> n \<le> user_size st u))"

definition keeps :: "addr set \<Rightarrow> buddy_state \<Rightarrow> buddy_state \<Rightarrow> bool" where
  "keeps A st' st \<longleftrightarrow> page_ksize st' = page_ksize st \<and> owner st' = owner st \<and> Config st' = Config st \<and> initialized st' = initialized st \<and>
     destroy_pending st' = destroy_pending st \<and> released st' = released st \<and> user_writes st' = user_writes st \<and>
     fails (sysmem st') = fails (sysmem st) \<and> (\<forall>a\<in>A. hdr (blocks st' a) = hdr (blocks st a))"

lemma keeps_trans: "keeps A st'' st' \<Longrightarrow> keeps A st' st \<Longrightarrow> keeps A st'' st"
  by (simp add: keeps_def)

lemma keeps_refl [simp]: "keeps A st st"
  by (simp add: keeps_def)

lemma keeps_mono: "keeps A st' st \<Longrightarrow> B \<subseteq> A \<Longrightarrow> keeps B st' st"
  by (auto simp: keeps_def)

lemma same_on_keeps:
  "same_on A st' st \<Longrightarrow> keeps A st' st"
  "same_on A st' (st\<lparr>sysmem := m\<rparr>) \<Longrightarrow> fails m = fails (sysmem st) \<Longrightarrow> keeps A st' st"
  "same_on A st' (st\<lparr>ToBeFreed_list := l\<rparr>) \<Longrightarrow> keeps A st' st"
  by (simp_all add: same_on_def keeps_def)

lemma keeps_user_size: "keeps A st' st \<Longrightarrow> u - 48 \<in> A \<Longrightarrow> user_size st' u = user_size st u"
  by (auto simp: keeps_def user_size_def block_bytes_def IS_EXTRA_BLOCK_def hdr_eq)

lemma keeps_dom_size:
  assumes "keeps A st' st" and "dom U = (\<lambda>a. a + 48) ` A" and "u \<in> dom U"
  shows "user_size st' u = user_size st u"
  using assms(2,3) by (intro keeps_user_size [OF assms(1)]) auto

definition keeps_sizes :: "(addr \<rightharpoonup> nat) \<Rightarrow> buddy_state \<Rightarrow> buddy_state \<Rightarrow> bool" where
  "keeps_sizes U st' st \<longleftrightarrow> (\<forall>u\<in>dom U. user_size st' u = user_size st u)"

text \<open>The invariant of the users from that of the blocks.\<close>

lemma client_invI:
  assumes "binv P F R X {} st" and "initialized st" and "freed_chain (blocks st) (ToBeFreed_list st) T" and "distinct T" and "set T \<subseteq> R \<union> X"
    and "dom U = (\<lambda>a. a + 48) ` (R \<union> X - set T)" and "\<And>u n. U u = Some n \<Longrightarrow> n \<le> user_size st u"
  shows "client_inv st U"
  using assms unfolding client_inv_def by blast

lemma client_invE:
  assumes "client_inv st U"
  obtains P F R X T where "binv P F R X {} st" and "initialized st" and "freed_chain (blocks st) (ToBeFreed_list st) T" and "distinct T"
    and "set T \<subseteq> R \<union> X" and "dom U = (\<lambda>a. a + 48) ` (R \<union> X - set T)" and "\<forall>u n. U u = Some n \<longrightarrow> n \<le> user_size st u"
  using assms unfolding client_inv_def by (elim exE conjE) (rule that)

lemma binv_Errno [simp]: "binv P F R X H (st\<lparr>Errno := e\<rparr>) = binv P F R X H st"
  by (simp add: binv_def free_lists_def)

lemma client_inv_Errno [simp]: "client_inv (st\<lparr>Errno := e\<rparr>) U = client_inv st U"
  by (simp add: client_inv_def user_size_def block_bytes_def IS_EXTRA_BLOCK_def)

lemma find_free_spec:
  "k \<le> find_free k st" "find_free k st < BUDDY_MAX_LOG2_SIZE \<Longrightarrow> MemDesc st (find_free k st) \<noteq> None"
proof -
  have "k \<le> find_free k st \<and> (find_free k st < BUDDY_MAX_LOG2_SIZE \<longrightarrow> MemDesc st (find_free k st) \<noteq> None)"
  proof (induction k st rule: find_free.induct)
    case (1 k st)
    show ?case
    proof (cases "k < BUDDY_MAX_LOG2_SIZE \<and> MemDesc st k = None")
      case True
      then have "find_free k st = find_free (Suc k) st" by (subst find_free.simps) simp
      with 1 [OF True] show ?thesis by simp
    next
      case False
      then have "find_free k st = k" by (subst find_free.simps) (rule if_not_P)
      with False show ?thesis by auto
    qed
  qed
  then show "k \<le> find_free k st" "find_free k st < BUDDY_MAX_LOG2_SIZE \<Longrightarrow> MemDesc st (find_free k st) \<noteq> None" by blast+
qed

lemma request_log2_spec:
  assumes "unat Size + 48 \<le> 2 ^ 30"
  shows "6 \<le> request_log2 Size" "request_log2 Size \<le> 30" "unat Size + 48 \<le> 2 ^ request_log2 Size"
    "7 \<le> request_log2 Size \<Longrightarrow> 2 ^ (request_log2 Size - 1) < unat Size + 48"
proof -
  define n where "n = (if Size < MIN_ALLOC_SIZE then MIN_ALLOC_SIZE + size_header64 else Size + size_header64)"
  have r: "request_log2 Size = Log2Ceil n" by (simp add: request_log2_def n_def)
  have "unat (Size + size_header64) = unat Size + 48" using assms by (simp add: size_header64_def unat_add_lem [THEN iffD1])
  then have n: "unat n = (if unat Size < 16 then 64 else unat Size + 48)"
    by (simp add: n_def word_less_nat_alt MIN_ALLOC_SIZE_def size_header64_def)
  have b: "64 \<le> unat n" "unat n \<le> 2 ^ 30" using n assms by (auto split: if_splits)
  note l = Log2Ceil_spec [of n]
  have l1: "unat n \<le> 2 ^ Log2Ceil n" and l3: "0 < Log2Ceil n \<Longrightarrow> 2 ^ (Log2Ceil n - 1) < unat n" using l b by auto
  show "6 \<le> request_log2 Size"
  proof (rule ccontr)
    assume "\<not> 6 \<le> request_log2 Size"
    then have "(2 :: nat) ^ Log2Ceil n \<le> 2 ^ 5" unfolding r by (intro power_increasing) auto
    with l1 b(1) show False by simp
  qed
  show "request_log2 Size \<le> 30"
  proof (rule ccontr)
    assume "\<not> request_log2 Size \<le> 30"
    then have "(2 :: nat) ^ 30 \<le> 2 ^ (Log2Ceil n - 1)" unfolding r by (intro power_increasing) auto
    moreover have "0 < Log2Ceil n" using \<open>\<not> request_log2 Size \<le> 30\<close> r by simp
    ultimately show False using l3 b(2) by simp
  qed
  show "unat Size + 48 \<le> 2 ^ request_log2 Size" using l1 n unfolding r by (auto split: if_splits)
  show "2 ^ (request_log2 Size - 1) < unat Size + 48" if "7 \<le> request_log2 Size"
  proof -
    have "(2 :: nat) ^ 6 \<le> 2 ^ (Log2Ceil n - 1)" using that unfolding r by (intro power_increasing) auto
    with l3 n that r show ?thesis by (auto split: if_splits)
  qed
qed

section \<open>Allocation\<close>

lemma block_bytes_std:
  assumes "binv P F R X H st" and "p \<in> R"
  shows "block_bytes st p = 2 ^ k_size (blocks st p)"
proof -
  have ok: "blocks_ok (page_ksize st) (owner st) (brk (sysmem st)) P F R X H (blocks st)" using assms(1) by (simp add: binv_def)
  obtain b where "in_page (page_ksize st) b (blocks st) p" using blocks_ok_page [OF ok] assms(2) by blast
  then show ?thesis by (simp add: block_bytes_def IS_EXTRA_BLOCK_def in_page_def)
qed

lemma block_bytes_extra:
  assumes "binv P F R X H st" and "p \<in> X"
  shows "block_bytes st p = unat (ExtraInfo (blocks st p))"
  using assms by (auto simp: block_bytes_def IS_EXTRA_BLOCK_def binv_def blocks_ok_def extra_ok_def)

text \<open>A new block \<open>p\<close> is handed out.\<close>

lemma client_inv_new:
  assumes "binv P F R X {} st" and "initialized st" and "ToBeFreed_list st = None" and "dom U = (\<lambda>a. a + 48) ` (R \<union> X)"
    and "\<And>u n. U u = Some n \<Longrightarrow> n \<le> user_size st u"
    and "binv P' F' R' X' {} st'" and "keeps (R \<union> X) st' st" and "ToBeFreed_list st' = None" and "R' \<union> X' = insert p (R \<union> X)"
    and "p \<notin> R \<union> X" and "n + 48 \<le> block_bytes st' p"
  shows "client_inv st' (U(p + 48 \<mapsto> n))" and "p + 48 \<notin> dom U" and "keeps_sizes U st' st"
proof -
  have sz: "user_size st' u = user_size st u" if "u \<in> dom U" for u
    by (rule keeps_dom_size [OF assms(7,4) that])
  then show "keeps_sizes U st' st" by (simp add: keeps_sizes_def)
  show "p + 48 \<notin> dom U" using assms(4,10) by auto
  show "client_inv st' (U(p + 48 \<mapsto> n))"
  proof (rule client_invI [OF assms(6), of "[]"])
    show "initialized st'" using assms(2,7) by (simp add: keeps_def)
    show "dom (U(p + 48 \<mapsto> n)) = (\<lambda>a. a + 48) ` (R' \<union> X' - set [])" using assms(4,9) by auto
    show "m \<le> user_size st' u" if "(U(p + 48 \<mapsto> n)) u = Some m" for u m
    proof (cases "u = p + 48")
      case True
      with that assms(11) show ?thesis by (simp add: user_size_def)
    next
      case False
      with that have "U u = Some m" by simp
      then show ?thesis using assms(5) [of u m] sz [OF domI] by simp
    qed
  qed (simp_all add: assms(8))
qed

text \<open>Nothing is handed out.\<close>

lemma client_inv_same:
  assumes "binv P F R X {} st" and "initialized st" and "ToBeFreed_list st = None" and "dom U = (\<lambda>a. a + 48) ` (R \<union> X)"
    and "\<And>u n. U u = Some n \<Longrightarrow> n \<le> user_size st u"
  shows "client_inv st U"
  by (rule client_invI [OF assms(1,2), of "[]"]) (use assms in auto)

text \<open>The result of an allocation.\<close>

definition alloc_result :: "nat \<Rightarrow> nat \<Rightarrow> (addr \<rightharpoonup> nat) \<Rightarrow> buddy_state \<Rightarrow> ptr \<Rightarrow> buddy_state \<Rightarrow> bool" where
  "alloc_result n sz U st r st' \<longleftrightarrow> keeps_sizes U st' st \<and> keeps {} st' st \<and>
     (case r of
        None \<Rightarrow> client_inv st' U \<and> (n = 0 \<or> Errno st' = BUDDY_ERR_MALLOC \<and> \<not> mem_good (sysmem st) \<or>
          Errno st' = BUDDY_ERR_OUTOFMEM \<and> \<not> (extra_alloc (Config st) \<and> on_demand_alloc (Config st)))
      | Some u \<Rightarrow> 0 < n \<and> u \<notin> dom U \<and> client_inv st' (U(u \<mapsto> n)) \<and> user_size st' u = sz)"

lemma alloc_large:
  assumes "binv P F R X {} st" and "initialized st" and "ToBeFreed_list st = None" and "dom U = (\<lambda>a. a + 48) ` (R \<union> X)"
    and "\<And>u n. U u = Some n \<Longrightarrow> n \<le> user_size st u" and "extra_alloc (Config st)" and "0 < unat Size" and "unat Size + 48 < 2 ^ 64"
  shows "\<exists>r st'. AllocLargeBlock (owner st) Size st = (r, st') \<and> alloc_result (unat Size) (unat Size) U st r st'"
  using AllocLargeBlock_inv [OF assms(1) refl assms(6-8)]
proof (elim disjE exE conjE)
  fix m assume a: "AllocLargeBlock (owner st) Size st = (None, st\<lparr>sysmem := m, Errno := BUDDY_ERR_MALLOC\<rparr>)" "binv P F R X {} (st\<lparr>sysmem := m\<rparr>)"
    "\<not> mem_good (sysmem st)" "fails m = fails (sysmem st)"
  have us: "user_size (st\<lparr>sysmem := m\<rparr>) u = user_size st u" "user_size (st\<lparr>sysmem := m, Errno := e\<rparr>) u = user_size st u" for u e
    by (simp_all add: user_size_def block_bytes_def IS_EXTRA_BLOCK_def)
  have "client_inv (st\<lparr>sysmem := m\<rparr>) U" by (rule client_inv_same [OF a(2)]) (use assms us in auto)
  then have "alloc_result (unat Size) (unat Size) U st None (st\<lparr>sysmem := m, Errno := BUDDY_ERR_MALLOC\<rparr>)"
    using a(3,4) client_inv_Errno [of BUDDY_ERR_MALLOC "st\<lparr>sysmem := m\<rparr>" U] us by (simp add: alloc_result_def keeps_sizes_def keeps_def)
  with a(1) show ?thesis by blast
next
  fix p m st'
  assume a: "AllocLargeBlock (owner st) Size st = (Some (p + 48), st')" "binv P F R (insert p X) {} st'"
    "unat (ExtraInfo (blocks st' p)) = unat Size + 48" "same_on (R \<union> X) st' (st\<lparr>sysmem := m\<rparr>)" "p \<notin> R \<union> X" "fails m = fails (sysmem st)"
  note k = same_on_keeps(2) [OF a(4,6)]
  have "block_bytes st' p = unat Size + 48" using block_bytes_extra [OF a(2)] a(3) by simp
  note new = client_inv_new [OF assms(1-5) a(2) k _ _ a(5), of "unat Size"]
  have "alloc_result (unat Size) (unat Size) U st (Some (p + 48)) st'"
    using new same_on_fields [OF a(4)] assms(3,7) \<open>block_bytes st' p = unat Size + 48\<close> keeps_mono [OF k, of "{}"]
    by (simp add: alloc_result_def user_size_def)
  with a(1) show ?thesis by blast
qed

lemma alloc_std:
  assumes "binv P F R X {} st" and "initialized st" and "ToBeFreed_list st = None" and "dom U = (\<lambda>a. a + 48) ` (R \<union> X)"
    and "\<And>u n. U u = Some n \<Longrightarrow> n \<le> user_size st u" and "p \<in> F" and "6 \<le> s" and "s \<le> k_size (blocks st p)" and "0 < n" and "n + 48 \<le> 2 ^ s"
  shows "\<exists>u st'. reserve_block (owner st) s (2 ^ s) p st = Some (Some u, st') \<and> alloc_result n (2 ^ s - 48) U st (Some u) st'"
proof -
  obtain F' st' where r: "reserve_block (owner st) s (2 ^ s) p st = Some (Some (p + 48), st')" "binv P F' (insert p R) X {} st'"
    "same_on (R \<union> X) st' st" "k_size (blocks st' p) = s" "p \<notin> R \<union> X"
    using reserve_block_inv [OF assms(1,6-8) refl] by blast
  note k = same_on_keeps(1) [OF r(3)]
  have "block_bytes st' p = 2 ^ s" using block_bytes_std [OF r(2)] r(4) by simp
  with client_inv_new [OF assms(1-5) r(2) k _ _ r(5), of n] same_on_fields [OF r(3)] assms(3,9,10) keeps_mono [OF k, of "{}"]
  have "alloc_result n (2 ^ s - 48) U st (Some (p + 48)) st'" by (simp add: alloc_result_def user_size_def)
  with r(1) show ?thesis by blast
qed

text \<open>An allocation by the owner first frees the blocks that wait.\<close>

lemma client_flush:
  assumes "client_inv st U"
  shows "\<exists>P F R X st'. CheckBlocksToBeFreed st = Some st' \<and> binv P F R X {} st' \<and> initialized st' \<and> ToBeFreed_list st' = None \<and>
    dom U = (\<lambda>a. a + 48) ` (R \<union> X) \<and> (\<forall>u n. U u = Some n \<longrightarrow> n \<le> user_size st' u) \<and> keeps (R \<union> X) st' st \<and> sysmem st' = sysmem st"
proof -
  obtain P F R X T where i: "binv P F R X {} st" "initialized st" "freed_chain (blocks st) (ToBeFreed_list st) T" "distinct T" "set T \<subseteq> R \<union> X"
    "dom U = (\<lambda>a. a + 48) ` (R \<union> X - set T)" "\<forall>u n. U u = Some n \<longrightarrow> n \<le> user_size st u"
    by (rule client_invE [OF assms])
  obtain P' F' st' where c: "CheckBlocksToBeFreed st = Some st'" "binv P' F' (R - set T) (X - set T) {} st'" "ToBeFreed_list st' = None"
    "same_on (R \<union> X - set T) st' (st\<lparr>ToBeFreed_list := None\<rparr>)"
    using CheckBlocksToBeFreed_inv [OF i(1,3-5)] by blast
  have k: "keeps (R \<union> X - set T) st' st" by (rule same_on_keeps(3) [OF c(4)])
  have RX: "R - set T \<union> (X - set T) = R \<union> X - set T" by auto
  have "n \<le> user_size st' u" if "U u = Some n" for u n
    using that i(7) keeps_dom_size [OF k i(6) domI [of U, OF that]] by simp
  moreover have "initialized st'" "sysmem st' = sysmem st" using i(2) same_on_fields [OF c(4)] by simp_all
  ultimately show ?thesis using c i(6) k unfolding RX [symmetric] by blast
qed

lemma alloc_new_page:
  assumes "binv P F R X {} st" and "initialized st" and "ToBeFreed_list st = None" and "dom U = (\<lambda>a. a + 48) ` (R \<union> X)"
    and "\<And>u n. U u = Some n \<Longrightarrow> n \<le> user_size st u" and "6 \<le> s" and "s \<le> page_ksize st" and "0 < n" and "n + 48 \<le> 2 ^ s"
  shows "(\<exists>st'. NewStdPage st = Some (None, st') \<and> alloc_result n (2 ^ s - 48) U st None (st'\<lparr>Errno := BUDDY_ERR_MALLOC\<rparr>)) \<or>
    (\<exists>p st2 u st'. NewStdPage st = Some (Some p, st2) \<and> reserve_block (owner st) s (2 ^ s) p st2 = Some (Some u, st') \<and>
       alloc_result n (2 ^ s - 48) U st (Some u) st')"
  using NewStdPage_inv [OF assms(1)]
proof (elim disjE exE conjE)
  fix m assume a: "NewStdPage st = Some (None, st\<lparr>sysmem := m\<rparr>)" "binv P F R X {} (st\<lparr>sysmem := m\<rparr>)" "\<not> mem_good (sysmem st)" "fails m = fails (sysmem st)"
  have us: "user_size (st\<lparr>sysmem := m\<rparr>) u = user_size st u" "user_size (st\<lparr>sysmem := m, Errno := e\<rparr>) u = user_size st u" for u e
    by (simp_all add: user_size_def block_bytes_def IS_EXTRA_BLOCK_def)
  have "client_inv (st\<lparr>sysmem := m\<rparr>) U" by (rule client_inv_same [OF a(2)]) (use assms us in auto)
  then have "alloc_result n (2 ^ s - 48) U st None (st\<lparr>sysmem := m, Errno := BUDDY_ERR_MALLOC\<rparr>)"
    using a(3,4) client_inv_Errno [of BUDDY_ERR_MALLOC "st\<lparr>sysmem := m\<rparr>" U] us by (simp add: alloc_result_def keeps_sizes_def keeps_def)
  with a(1) show ?thesis by blast
next
  fix p m st2
  assume a: "NewStdPage st = Some (Some p, st2)" "binv (insert p P) (insert p F) R X {} st2" "k_size (blocks st2 p) = page_ksize st"
    "same_on (R \<union> X) st2 (st\<lparr>sysmem := m\<rparr>)" "fails m = fails (sysmem st)"
  have k: "keeps (R \<union> X) st2 st" by (rule same_on_keeps(2) [OF a(4,5)])
  have sz: "user_size st2 u = user_size st u" if "u \<in> dom U" for u by (rule keeps_dom_size [OF k assms(4) that])
  have "\<exists>u st'. reserve_block (owner st2) s (2 ^ s) p st2 = Some (Some u, st') \<and> alloc_result n (2 ^ s - 48) U st2 (Some u) st'"
  proof (rule alloc_std [OF a(2)])
    show "initialized st2" "ToBeFreed_list st2 = None" using assms(2,3) same_on_fields [OF a(4)] by simp_all
    show "m \<le> user_size st2 u" if "U u = Some m" for u m using assms(5) [OF that] sz [of u, OF domI [of U, OF that]] by simp
  qed (use assms a(3) in auto)
  moreover have "alloc_result n (2 ^ s - 48) U st (Some u) st'" if "alloc_result n (2 ^ s - 48) U st2 (Some u) st'" for u st'
    using that sz keeps_mono [OF k, of "{}"] by (auto simp: alloc_result_def keeps_sizes_def intro: keeps_trans)
  moreover have "owner st2 = owner st" using k by (simp add: keeps_def)
  ultimately show ?thesis using a(1) by metis
qed

definition granted :: "u64 \<Rightarrow> buddy_state \<Rightarrow> nat" where
  "granted Size st = (if request_log2 Size \<le> page_ksize st then 2 ^ request_log2 Size - 48 else unat Size)"

lemma BuddyMalloc_internal_inv:
  assumes "client_inv st U" and "unat Size + 48 \<le> 2 ^ 30"
  shows "\<exists>r st'. BuddyMalloc_internal (owner st) Size False st = Some (r, st') \<and> alloc_result (unat Size) (granted Size st) U st r st'"
proof -
  obtain P F R X st1 where c: "CheckBlocksToBeFreed st = Some st1" "binv P F R X {} st1" "initialized st1" "ToBeFreed_list st1 = None"
    "dom U = (\<lambda>a. a + 48) ` (R \<union> X)" "\<And>u n. U u = Some n \<Longrightarrow> n \<le> user_size st1 u" "keeps (R \<union> X) st1 st" "sysmem st1 = sysmem st"
    using client_flush [OF assms(1)] by blast
  have own: "owner st1 = owner st" "initialized st" "page_ksize st1 = page_ksize st" "Config st1 = Config st" using c(3,7) by (simp_all add: keeps_def)
  have lift: "alloc_result n sz U st r st'" if "alloc_result n sz U st1 r st'" for n sz r st'
  proof -
    have "keeps_sizes U st1 st" using keeps_dom_size [OF c(7,5)] by (simp add: keeps_sizes_def)
    with that own(4) c(8) keeps_mono [OF c(7), of "{}"] show ?thesis by (auto simp: alloc_result_def keeps_sizes_def intro: keeps_trans split: option.splits)
  qed
  have inv1: "client_inv st1 U" by (rule client_inv_same [OF c(2-6)])
  have K: "page_ksize st1 \<le> 30" using c(2) by (simp add: binv_def blocks_ok_def)
  let ?s = "request_log2 Size"
  note r = request_log2_spec [OF assms(2)]
  have ish: "int_shift ?s = Some (2 ^ ?s)" using r(2) by simp
  have "\<exists>r st'. BuddyMalloc_internal (owner st) Size False st = Some (r, st') \<and> alloc_result (unat Size) (granted Size st) U st1 r st'"
  proof (cases "Size = 0")
    case True
    then show ?thesis using c(1) own inv1 by (simp add: BuddyMalloc_internal_def alloc_result_def keeps_sizes_def)
  next
    case False
    then have pos: "0 < unat Size" by (simp add: unat_gt_0)
    show ?thesis
    proof (cases "page_ksize st1 < ?s")
      case large: True
      then have big: "(2 :: nat) ^ page_ksize st1 < 2 ^ ?s" by simp
      have gr: "granted Size st = unat Size" using large own(3) by (simp add: granted_def)
      show ?thesis
      proof (cases "extra_alloc (Config st1)")
        case True
        from alloc_large [OF c(2-6) True pos] assms(2) obtain r st' where
          "AllocLargeBlock (owner st1) Size st1 = (r, st')" "alloc_result (unat Size) (unat Size) U st1 r st'" by auto
        then show ?thesis using c(1) own False ish True big by (simp add: BuddyMalloc_internal_def gr)
      next
        case no: False
        have "alloc_result (unat Size) (unat Size) U st1 None (st1\<lparr>Errno := BUDDY_ERR_OUTOFMEM\<rparr>)"
          using inv1 no by (simp add: alloc_result_def keeps_sizes_def keeps_def user_size_def block_bytes_def IS_EXTRA_BLOCK_def)
        then show ?thesis using c(1) own False ish no big by (simp add: BuddyMalloc_internal_def gr)
      qed
    next
      case small: False
      then have "\<not> (2 :: nat) ^ page_ksize st1 < 2 ^ ?s" by simp
      note open_call = c(1) own False ish this
      have gr: "granted Size st = 2 ^ ?s - 48" using small own(3) by (simp add: granted_def)
      show ?thesis
      proof (cases "find_free ?s st1 < BUDDY_MAX_LOG2_SIZE")
        case True
        then obtain p where p: "MemDesc st1 (find_free ?s st1) = Some p" using find_free_spec(2) by blast
        have "p \<in> F \<and> k_size (blocks st1 p) = find_free ?s st1" using free_lists_head [OF conjunct2 [OF conjunct2 [OF c(2) [unfolded binv_def]]] p] .
        then have "\<exists>u st'. reserve_block (owner st1) ?s (2 ^ ?s) p st1 = Some (Some u, st') \<and> alloc_result (unat Size) (2 ^ ?s - 48) U st1 (Some u) st'"
          using find_free_spec(1) [of ?s st1] r(1,3) pos by (intro alloc_std [OF c(2-6)]) auto
        then show ?thesis using open_call True p by (auto simp: BuddyMalloc_internal_def gr)
      next
        case none: False
        show ?thesis
        proof (cases "on_demand_alloc (Config st1)")
          case demand: True
          show ?thesis using alloc_new_page [OF c(2-6) _ _ pos r(3)] r(1) small none demand open_call
            by (auto simp: BuddyMalloc_internal_def gr)
        next
          case no: False
          have "alloc_result (unat Size) (2 ^ ?s - 48) U st1 None (st1\<lparr>Errno := BUDDY_ERR_OUTOFMEM\<rparr>)"
            using inv1 no by (simp add: alloc_result_def keeps_sizes_def keeps_def user_size_def block_bytes_def IS_EXTRA_BLOCK_def)
          then show ?thesis using open_call none no by (simp add: BuddyMalloc_internal_def gr)
        qed
      qed
    qed
  qed
  then show ?thesis using lift by blast
qed

section \<open>Release\<close>

lemma tbf_fields:
  fixes h p q
  defines "h' \<equiv> h(p := (h p)\<lparr>NextToBeFreed := q\<rparr>)"
  shows "Base_ptr (h' a) = Base_ptr (h a)" "MagicNumber (h' a) = MagicNumber (h a)" "OwnerThread (h' a) = OwnerThread (h a)"
    "Base_kSize (h' a) = Base_kSize (h a)" "k_size (h' a) = k_size (h a)" "ExtraInfo (h' a) = ExtraInfo (h a)"
    "status (h' a) = status (h a)" "NextBlock (h' a) = NextBlock (h a)" "PrevBlock (h' a) = PrevBlock (h a)"
  by (simp_all add: h'_def)

lemma binv_tbf:
  assumes "binv P F R X H st"
  shows "binv P F R X H (upd_block p (\<lambda>b. b\<lparr>NextToBeFreed := q\<rparr>) st\<lparr>ToBeFreed_list := l\<rparr>)"
proof -
  let ?h' = "(blocks st)(p := (blocks st p)\<lparr>NextToBeFreed := q\<rparr>)"
  let ?st' = "upd_block p (\<lambda>b. b\<lparr>NextToBeFreed := q\<rparr>) st\<lparr>ToBeFreed_list := l\<rparr>"
  have "layout K P S ?h' = layout K P S (blocks st)" for K S
    by (simp only: layout_def in_page_def brange_def tbf_fields)
  then have "blocks_ok K own lim P F R X H ?h' = blocks_ok K own lim P F R X H (blocks st)" for K own lim
    by (simp only: blocks_ok_def no_free_buddies_def buddy_of_def extra_ok_def xrange_def free_mark_def used_mark_def tbf_fields)
  moreover have "stats_ok K P F R X ?h' s = stats_ok K P F R X (blocks st) s" for K s
    by (simp only: stats_ok_def used_pages_def tbf_fields)
  moreover have "free_lists F ?st'" by (rule free_lists_cong [of _ st]) (use assms in \<open>auto simp: binv_def\<close>)
  ultimately show ?thesis using assms by (simp add: binv_def)
qed

lemma live_block:
  assumes "binv P F R X {} st" and "p \<in> R \<union> X"
  shows "used_mark (owner st) (blocks st p)"
  using assms by (auto simp: binv_def blocks_ok_def extra_ok_def)

text \<open>The user at \<open>p + 48\<close> gives its block back; what is left are the users of \<open>R'\<close> and \<open>X'\<close> outside \<open>T'\<close>.\<close>

lemma client_inv_less:
  assumes "dom U = (\<lambda>a. a + 48) ` A" and "\<forall>u n. U u = Some n \<longrightarrow> n \<le> user_size st u" and "p \<in> A"
    and "binv P F R X {} st'" and "initialized st'" and "freed_chain (blocks st') (ToBeFreed_list st') T" and "distinct T" and "set T \<subseteq> R \<union> X"
    and "R \<union> X - set T = A - {p}" and "\<And>a. a \<in> A \<Longrightarrow> a \<noteq> p \<Longrightarrow> block_bytes st' a = block_bytes st a"
  shows "client_inv st' (U(p + 48 := None))" and "keeps_sizes (U(p + 48 := None)) st' st"
proof -
  have dom: "dom (U(p + 48 := None)) = (\<lambda>a. a + 48) ` (A - {p})" using assms(1) by auto
  have sz: "user_size st' u = user_size st u" if "u \<in> dom (U(p + 48 := None))" for u
  proof -
    obtain a where "u = a + 48" "a \<in> A" "a \<noteq> p" using \<open>u \<in> _\<close> unfolding dom by auto
    with assms(10) [of a] show ?thesis by (simp add: user_size_def)
  qed
  then show "keeps_sizes (U(p + 48 := None)) st' st" by (simp add: keeps_sizes_def)
  show "client_inv st' (U(p + 48 := None))"
  proof (rule client_invI [OF assms(4-8)])
    show "dom (U(p + 48 := None)) = (\<lambda>a. a + 48) ` (R \<union> X - set T)" unfolding dom assms(9) ..
    show "n \<le> user_size st' u" if "(U(p + 48 := None)) u = Some n" for u n
      using assms(2) sz [of u, OF domI [of "U(p + 48 := None)", OF that]] that by (auto split: if_splits)
  qed
qed

lemma block_bytes_hdr: "hdr (blocks st' a) = hdr (blocks st a) \<Longrightarrow> block_bytes st' a = block_bytes st a"
  by (simp add: block_bytes_def IS_EXTRA_BLOCK_def hdr_eq)

lemma BuddyFree_owner:
  assumes "client_inv st U" and "u \<in> dom U"
  shows "\<exists>st'. BuddyFree (owner st) True (Some u) st = Some st' \<and> client_inv st' (U(u := None)) \<and>
    keeps_sizes (U(u := None)) st' st \<and> keeps {} st' st"
proof -
  obtain P F R X T where i: "binv P F R X {} st" "initialized st" "freed_chain (blocks st) (ToBeFreed_list st) T" "distinct T" "set T \<subseteq> R \<union> X"
    "dom U = (\<lambda>a. a + 48) ` (R \<union> X - set T)" "\<forall>u n. U u = Some n \<longrightarrow> n \<le> user_size st u"
    by (rule client_invE [OF assms(1)])
  obtain p where p: "u = p + 48" "p \<in> R \<union> X - set T" using assms(2) i(6) by auto
  obtain P' F' st' where f: "BuddyFree_internal p st = Some st'" "binv P' F' (R - {p}) (X - {p}) {} st'" "same_on (R \<union> X - {p}) st' st"
    using BuddyFree_internal_inv [OF i(1)] p(2) by blast
  note s = same_on_fields [OF f(3)]
  have "BuddyFree (owner st) True (Some u) st = Some st'"
    using live_block [OF i(1)] p f(1) by (auto simp: BuddyFree_def used_mark_def size_header64_def)
  moreover have "freed_chain (blocks st') (ToBeFreed_list st') T"
    using i(3,5) p(2) s freed_chain_cong [of T "blocks st'" "blocks st"] by (auto simp: hdr_eq)
  then have "client_inv st' (U(p + 48 := None))" "keeps_sizes (U(p + 48 := None)) st' st"
    by (rule client_inv_less [OF i(6,7) p(2) f(2), rotated]; use i p s block_bytes_hdr in blast)+
  moreover have "keeps {} st' st" using same_on_keeps(1) [OF same_on_mono [OF f(3)]] by simp
  ultimately show ?thesis using p(1) by blast
qed

text \<open>Another thread frees a block: it waits in the list of the owner.\<close>

lemma BuddyFree_other:
  assumes "client_inv st U" and "u \<in> dom U" and "self \<noteq> owner st" and "\<not> destroy_pending st"
  shows "\<exists>st'. BuddyFree self True (Some u) st = Some st' \<and> client_inv st' (U(u := None)) \<and>
    keeps_sizes (U(u := None)) st' st \<and> keeps {} st' st"
proof -
  obtain P F R X T where i: "binv P F R X {} st" "initialized st" "freed_chain (blocks st) (ToBeFreed_list st) T" "distinct T" "set T \<subseteq> R \<union> X"
    "dom U = (\<lambda>a. a + 48) ` (R \<union> X - set T)" "\<forall>u n. U u = Some n \<longrightarrow> n \<le> user_size st u"
    by (rule client_invE [OF assms(1)])
  obtain p where p: "u = p + 48" "p \<in> R \<union> X - set T" using assms(2) i(6) by auto
  let ?st1 = "upd_block p (\<lambda>b. b\<lparr>NextToBeFreed := ToBeFreed_list st\<rparr>) st\<lparr>ToBeFreed_list := Some p\<rparr>"
  have "BuddyFree self True (Some u) st = Some ?st1"
    using live_block [OF i(1)] p assms(3,4) by (auto simp: BuddyFree_def used_mark_def size_header64_def upd_block_def)
  moreover have "freed_chain (blocks ?st1) q T = freed_chain (blocks st) q T" for q by (rule freed_chain_cong) (use p(2) in auto)
  then have "freed_chain (blocks ?st1) (ToBeFreed_list ?st1) (p # T)" using i(3) by simp
  then have "client_inv ?st1 (U(p + 48 := None))" "keeps_sizes (U(p + 48 := None)) ?st1 st"
    by (rule client_inv_less [OF i(6,7) p(2) binv_tbf [OF i(1)], rotated]; use i p in \<open>auto simp: block_bytes_def IS_EXTRA_BLOCK_def\<close>)+
  moreover have "keeps {} ?st1 st" by (simp add: keeps_def upd_block_def)
  ultimately show ?thesis using p(1) by blast
qed

section \<open>The end of a context\<close>

lemma release_pages_inv:
  assumes "binv P F R X {} st"
  shows "\<exists>P' st'. release_pages st = Some (BUDDY_SUCCESS, st') \<and> binv P' {a \<in> F. k_size (blocks st a) \<noteq> page_ksize st} R X {} st' \<and>
    same_on UNIV st' st"
  using assms
proof (induction "card F" arbitrary: P F st rule: less_induct)
  case less
  have fl: "free_lists F st" and ok: "blocks_ok (page_ksize st) (owner st) (brk (sysmem st)) P F R X {} (blocks st)"
    using less.prems by (simp_all add: binv_def)
  show ?case
  proof (cases "MemDesc st (page_ksize st)")
    case None
    then have "{a \<in> F. k_size (blocks st a) \<noteq> page_ksize st} = F" using free_lists_empty [OF fl] by auto
    moreover have "release_pages st = Some (BUDDY_SUCCESS, st)" using None by (subst release_pages.simps) simp
    ultimately show ?thesis using less.prems by auto
  next
    case (Some p)
    have p: "p \<in> F" "k_size (blocks st p) = page_ksize st" using free_lists_head [OF fl Some] by simp_all
    obtain b where b: "in_page (page_ksize st) b (blocks st) p" using blocks_ok_page [OF ok] p(1) by blast
    let ?st1 = "upd_stats UpdateStats_RemoveStdPage (Remove_FreeBlock p st)"
    note d = drop_page [OF less.prems p]
    have "card (F - {p}) < card F" using card_Diff1_less [OF binv_finite(2) [OF less.prems] p(1)] .
    from less.hyps [OF this d(1)] obtain P' st' where r: "release_pages ?st1 = Some (BUDDY_SUCCESS, st')"
      "binv P' {a \<in> F - {p}. k_size (blocks ?st1 a) \<noteq> page_ksize ?st1} R X {} st'" "same_on UNIV st' ?st1" by blast
    note same = same_fields(1,12) [OF Remove_FreeBlock_same [of p st]]
    have "release_pages st = Some (BUDDY_SUCCESS, st')" using Some is_page_iff [OF b] p(2) r(1) by (subst release_pages.simps) simp
    moreover have "{a \<in> F - {p}. k_size (blocks ?st1 a) \<noteq> page_ksize ?st1} = {a \<in> F. k_size (blocks st a) \<noteq> page_ksize st}"
      using p(2) same by (auto simp: hdr_eq)
    moreover have "same_on UNIV ?st1 st" by (rule same_on_trans [OF same_on_upd_stats same_on_lists [OF Remove_FreeBlock_same]])
    ultimately show ?thesis using r(2) same_on_trans [OF r(3)] by auto
  qed
qed

text \<open>If no block is in use, the blocks are the pages: a smallest block that is not a page would have a free buddy.\<close>

lemma all_free_pages:
  assumes "blocks_ok K own lim P F {} X {} h" and "a \<in> F"
  shows "k_size (h a) = K"
proof (rule ccontr)
  assume ne: "k_size (h a) \<noteq> K"
  have lay: "layout K P F h" and nf: "no_free_buddies K F h" using assms(1) by (simp_all add: blocks_ok_def)
  define a0 where "a0 = arg_min_on (\<lambda>a. k_size (h a)) F"
  have fin: "finite F" "F \<noteq> {}" using lay assms(2) by (auto simp: layout_def)
  have a0: "a0 \<in> F" and least: "\<And>c. c \<in> F \<Longrightarrow> k_size (h a0) \<le> k_size (h c)"
    unfolding a0_def using arg_min_if_finite(1) [OF fin] arg_min_least [OF fin] by auto
  have "k_size (h a) \<le> K" using layout_in_page [OF lay assms(2)] by (auto simp: in_page_def)
  then have k: "k_size (h a0) < K" using least [OF assms(2)] ne by simp
  obtain b where b: "b \<in> P" "in_page K b h a0" using layout_in_page [OF lay a0] by blast
  note bl = buddy_in_layout [OF lay a0 b(2,1) k]
  then have "k_size (h (buddy_of h a0)) = k_size (h a0)" using least [OF bl(1)] by simp
  with nf a0 bl(1) k show False unfolding no_free_buddies_def by blast
qed

lemma TryContextCleanup_inv:
  assumes "client_inv st U"
  shows "\<exists>rc st' P F R X. TryContextCleanup st = Some (rc, st') \<and> binv P F R X {} st' \<and> dom U = (\<lambda>a. a + 48) ` (R \<union> X) \<and>
    (\<forall>a\<in>F. k_size (blocks st' a) < page_ksize st') \<and> ToBeFreed_list st' = None \<and> keeps_sizes U st' st \<and> initialized st' \<and>
    (rc = BUDDY_SUCCESS \<and> F = {} \<and> released st' \<or> rc = BUDDY_ERR_INUSE \<and> F \<noteq> {} \<and> destroy_pending st' \<and> released st' = released st)"
proof -
  obtain P F R X st1 where c: "CheckBlocksToBeFreed st = Some st1" "binv P F R X {} st1" "initialized st1" "ToBeFreed_list st1 = None"
    "dom U = (\<lambda>a. a + 48) ` (R \<union> X)" "keeps (R \<union> X) st1 st"
    using client_flush [OF assms] by blast
  let ?F = "{a \<in> F. k_size (blocks st1 a) \<noteq> page_ksize st1}"
  obtain P' st2 where r: "release_pages st1 = Some (BUDDY_SUCCESS, st2)" "binv P' ?F R X {} st2" "same_on UNIV st2 st1"
    using release_pages_inv [OF c(2)] by blast
  note s = same_on_fields [OF r(3)]
  have ok: "blocks_ok (page_ksize st2) (owner st2) (brk (sysmem st2)) P' ?F R X {} (blocks st2)" and fl: "free_lists ?F st2"
    using r(2) by (simp_all add: binv_def)
  have small: "k_size (blocks st2 a) < page_ksize st2" if "a \<in> ?F" for a
  proof -
    obtain b where "in_page (page_ksize st2) b (blocks st2) a" using blocks_ok_page [OF ok, of a] \<open>a \<in> ?F\<close> by blast
    with \<open>a \<in> ?F\<close> s show ?thesis by (auto simp: in_page_def hdr_eq le_less)
  qed
  have K: "page_ksize st2 < 64" using ok by (simp add: blocks_ok_def)
  have "list_ex (\<lambda>i. MemDesc st2 i \<noteq> None) [0..<BUDDY_MAX_LOG2_SIZE] \<longleftrightarrow> ?F \<noteq> {}"
  proof -
    have "(\<exists>i<64. MemDesc st2 i \<noteq> None) \<longleftrightarrow> (\<exists>i<64. \<exists>a\<in>?F. k_size (blocks st2 a) = i)"
      unfolding free_lists_empty [OF fl] by blast
    also have "\<dots> \<longleftrightarrow> ?F \<noteq> {}" using small K by (metis (no_types, lifting) all_not_in_conv less_trans)
    finally show ?thesis by (simp add: list_ex_iff BUDDY_MAX_LOG2_SIZE_def Bex_def)
  qed
  then have cl: "TryContextCleanup st = Some (if ?F \<noteq> {} then (BUDDY_ERR_INUSE, st2\<lparr>destroy_pending := True\<rparr>) else (BUDDY_SUCCESS, st2\<lparr>released := True\<rparr>))"
    using c(1) r(1) by (simp add: TryContextCleanup_def)
  define st' where "st' = (if ?F \<noteq> {} then st2\<lparr>destroy_pending := True\<rparr> else st2\<lparr>released := True\<rparr>)"
  have f: "blocks st' = blocks st2" "page_ksize st' = page_ksize st2" "ToBeFreed_list st' = None" "initialized st'"
    using c(3,4) s by (simp_all add: st'_def)
  have inv': "binv P' ?F R X {} st'" using r(2) by (simp add: st'_def binv_def free_lists_def)
  have "keeps (R \<union> X) st2 st" by (rule keeps_trans [OF same_on_keeps(1) [OF same_on_mono [OF r(3)]] c(6)]) simp
  then have "user_size st2 u = user_size st u" if "u \<in> dom U" for u using keeps_dom_size [OF _ c(5) that] by simp
  moreover have "user_size st' u = user_size st2 u" for u by (simp add: user_size_def block_bytes_def IS_EXTRA_BLOCK_def f(1))
  ultimately have sizes: "keeps_sizes U st' st" by (simp add: keeps_sizes_def)
  have rel: "released st2 = released st" using \<open>keeps (R \<union> X) st2 st\<close> by (simp add: keeps_def)
  define rc where "rc = (if ?F \<noteq> {} then BUDDY_ERR_INUSE else BUDDY_SUCCESS)"
  have cl': "TryContextCleanup st = Some (rc, st')" unfolding cl rc_def st'_def by (simp only: if_distrib split: if_split) simp
  have last: "rc = BUDDY_SUCCESS \<and> ?F = {} \<and> released st' \<or> rc = BUDDY_ERR_INUSE \<and> ?F \<noteq> {} \<and> destroy_pending st' \<and> released st' = released st"
    by (cases "?F = {}") (simp_all only: rc_def st'_def if_True if_False simp_thms, simp_all add: rel)
  have small': "\<forall>a\<in>?F. k_size (blocks st' a) < page_ksize st'" using small f by simp
  show ?thesis by (intro exI conjI) (rule cl' inv' c(5) small' f(3,4) sizes last)+
qed

section \<open>The start of a context\<close>

text \<open>\<open>Log2Ceil\<close> of a size beyond \<open>2 ^ 63\<close> is 0.\<close>

lemma log2_loop_big:
  assumes "2 ^ 63 < unat n" and "k < 64"
  shows "log2_loop n k (2 ^ k) = 0"
  using assms(2)
proof (induction "64 - k" arbitrary: k)
  case 0
  then show ?case by simp
next
  case (Suc d)
  have "(2 :: nat) ^ k \<le> 2 ^ 63" using Suc.prems by (intro power_increasing) auto
  then have lt: "(2 ^ k :: u64) < n" using assms(1) by (simp add: word_less_nat_alt unat_power_64 [OF Suc.prems])
  show ?case
  proof (cases "k = 63")
    case True
    then show ?thesis using lt by (subst log2_loop.simps) (simp add: BUDDY_MAX_LOG2_SIZE_def)
  next
    case False
    then have "log2_loop n k (2 ^ k) = log2_loop n (Suc k) (2 ^ Suc k)"
      using lt Suc.prems by (subst log2_loop.simps) (simp add: BUDDY_MAX_LOG2_SIZE_def push_bit_eq_mult mult.commute)
    also have "\<dots> = 0" by (rule Suc.hyps(1)) (use Suc.hyps(2) Suc.prems False in auto)
    finally show ?thesis .
  qed
qed

lemma Log2Ceil_big: "2 ^ 63 < unat n \<Longrightarrow> Log2Ceil n = 0"
  using log2_loop_big [of n 0] by (simp add: Log2Ceil_def)

lemma BuddyInit_inv:
  assumes "\<not> initialized st" and "BuddyInit self cfg 0 st = Some (rc, st')" and "rc = BUDDY_SUCCESS \<or> rc = BUDDY_ERR_MALLOC"
  shows "client_inv st' Map.empty" and "owner st' = self" and "\<not> destroy_pending st'"
    and "Config st' = (case cfg of Some c \<Rightarrow> c | None \<Rightarrow> default_buddy_parameter)"
proof -
  define C where "C = (case cfg of Some c \<Rightarrow> c | None \<Rightarrow> default_buddy_parameter)"
  let ?m = "Log2Ceil (memory_area_size C)"
  have C: "\<not> memory_area_size C \<le> size_header64 + MIN_ALLOC_SIZE" "?m \<noteq> 0" "int_shift ?m \<noteq> None"
    using assms(1,2,3) by (auto simp: BuddyInit_def C_def Let_def bind_eq_Some_conv split: if_splits option.splits)
  then have m: "?m < 31" by (auto simp: int_shift_def split: if_splits)
  have n: "64 < unat (memory_area_size C)" using C(1) by (simp add: word_le_nat_alt size_header64_def MIN_ALLOC_SIZE_def)
  have "6 \<le> ?m"
  proof (rule ccontr)
    assume "\<not> 6 \<le> ?m"
    then have "(2 :: nat) ^ ?m \<le> 2 ^ 5" by (intro power_increasing) auto
    moreover have "unat (memory_area_size C) \<le> 2 ^ ?m"
    proof (rule Log2Ceil_spec(1))
      show "unat (memory_area_size C) \<le> 2 ^ 63" using C(2) Log2Ceil_big by (meson not_le_imp_less)
    qed (use n in simp)
    ultimately show False using n by simp
  qed
  define st1 where "st1 = st\<lparr>Config := C, page_ksize := ?m, Errno := BUDDY_SUCCESS, MemDesc := (\<lambda>i. None), Stats := stats_init (2 ^ ?m),
    ToBeFreed_list := None, destroy_pending := False, initialized := True, owner := self\<rparr>"
  have inv1: "binv {} {} {} {} {} st1"
    using \<open>6 \<le> ?m\<close> m by (simp add: st1_def binv_def blocks_ok_def layout_def no_free_buddies_def extra_ok_def stats_ok_def
      used_pages_def free_lists_def stats_init_def)
  have init: "BuddyInit self cfg 0 st = map_option (\<lambda>(p_block, st). (if p_block = None then BUDDY_ERR_MALLOC else BUDDY_SUCCESS, st)) (NewStdPage st1)"
    using assms(1) C(1,2) m unfolding st1_def
    by (simp add: BuddyInit_def C_def [symmetric] Let_def map_option_case split: option.split)
  have "\<exists>q st2 P F. NewStdPage st1 = Some (q, st2) \<and> binv P F {} {} {} st2 \<and> keeps {} st2 st1 \<and> ToBeFreed_list st2 = ToBeFreed_list st1"
    using NewStdPage_inv [OF inv1] by (elim disjE exE conjE) (auto simp: same_on_def keeps_def)
  then obtain q P F where q: "NewStdPage st1 = Some (q, st')" "binv P F {} {} {} st'" "keeps {} st' st1" "ToBeFreed_list st' = None"
    using init assms(2) by (auto simp: st1_def)
  show "client_inv st' Map.empty"
    by (rule client_inv_same [OF q(2)]) (use q(3,4) in \<open>auto simp: keeps_def st1_def\<close>)
  show "owner st' = self" "\<not> destroy_pending st'" "Config st' = (case cfg of Some c \<Rightarrow> c | None \<Rightarrow> default_buddy_parameter)"
    using q(3) by (simp_all add: keeps_def st1_def C_def)
qed

section \<open>Blocks in use do not overlap\<close>

lemma block_span:
  assumes "binv P F R X {} st" and "a \<in> R \<union> X"
  shows "48 < block_bytes st a" and "{a + 48 - 48 ..< a + 48 + user_size st (a + 48)} = {a ..< a + block_bytes st a}"
proof -
  have ok: "blocks_ok (page_ksize st) (owner st) (brk (sysmem st)) P F R X {} (blocks st)" using assms(1) by (simp add: binv_def)
  show *: "48 < block_bytes st a"
  proof (cases "a \<in> X")
    case True
    then show ?thesis using block_bytes_extra [OF assms(1)] ok by (simp add: blocks_ok_def extra_ok_def)
  next
    case False
    then have "a \<in> R" using assms(2) by simp
    then obtain b where "in_page (page_ksize st) b (blocks st) a" using blocks_ok_page [OF ok] by blast
    then have "(2 :: nat) ^ 6 \<le> 2 ^ k_size (blocks st a)" by (intro power_increasing) (auto simp: in_page_def)
    then show ?thesis using block_bytes_std [OF assms(1) \<open>a \<in> R\<close>] by simp
  qed
  then show "{a + 48 - 48 ..< a + 48 + user_size st (a + 48)} = {a ..< a + block_bytes st a}" by (simp add: user_size_def)
qed

lemma blocks_disjoint:
  assumes "binv P F R X {} st" and "a \<in> R \<union> X" and "c \<in> R \<union> X" and "a \<noteq> c"
  shows "{a ..< a + block_bytes st a} \<inter> {c ..< c + block_bytes st c} = {}"
proof -
  let ?h = "blocks st" and ?K = "page_ksize st"
  have ok: "blocks_ok ?K (owner st) (brk (sysmem st)) P F R X {} ?h" using assms(1) by (simp add: binv_def)
  have R: "{a ..< a + block_bytes st a} = brange ?h a \<and> (\<exists>b\<in>P. brange ?h a \<subseteq> prange ?K b)" if "a \<in> R" for a
  proof -
    obtain b where "b \<in> P" "in_page ?K b ?h a" using blocks_ok_page [OF ok, of a] \<open>a \<in> R\<close> by blast
    then show ?thesis using block_bytes_std [OF assms(1) \<open>a \<in> R\<close>] by (auto simp: brange_def in_page_def)
  qed
  have X: "{a ..< a + block_bytes st a} = xrange ?h a" if "a \<in> X" for a using block_bytes_extra [OF assms(1) that] by (simp add: xrange_def)
  have RR: "brange ?h a \<inter> brange ?h c = {}" if "a \<in> R" "c \<in> R" "a \<noteq> c" for a c using ok that unfolding blocks_ok_def layout_def by blast
  have XX: "xrange ?h a \<inter> xrange ?h c = {}" if "a \<in> X" "c \<in> X" "a \<noteq> c" for a c using ok that by (simp add: blocks_ok_def extra_ok_def)
  have XP: "xrange ?h a \<inter> prange ?K b = {}" if "a \<in> X" "b \<in> P" for a b using ok that by (simp add: blocks_ok_def extra_ok_def)
  consider "a \<in> R" "c \<in> R" | "a \<in> R" "c \<in> X" | "a \<in> X" "c \<in> R" | "a \<in> X" "c \<in> X" using assms(2,3) by blast
  then show ?thesis
  proof cases
    case 1
    with R [of a] R [of c] RR [of a c] assms(4) show ?thesis by simp
  next
    case 2
    with R [of a] X [of c] XP [of c] show ?thesis by blast
  next
    case 3
    with R [of c] X [of a] XP [of a] show ?thesis by blast
  next
    case 4
    with X [of a] X [of c] XX [of a c] assms(4) show ?thesis by simp
  qed
qed

lemma client_disjoint:
  assumes "client_inv st U" and "u \<in> dom U" and "v \<in> dom U" and "u \<noteq> v"
  shows "{u - 48 ..< u + user_size st u} \<inter> {v - 48 ..< v + user_size st v} = {}"
proof -
  obtain P F R X T where i: "binv P F R X {} st" "dom U = (\<lambda>a. a + 48) ` (R \<union> X - set T)" by (rule client_invE [OF assms(1)])
  then obtain a c where "u = a + 48" "v = c + 48" "a \<in> R \<union> X" "c \<in> R \<union> X" using assms(2,3) by blast
  with blocks_disjoint [OF i(1), of a c] block_span(2) [OF i(1)] assms(4) show ?thesis by simp
qed

section \<open>The interface of an allocator\<close>

text \<open>Requests: an allocation by the owner, the release of an address by a thread.\<close>

datatype request = Alloc u64 | Release nat addr

fun serve :: "(u64 \<Rightarrow> 's \<Rightarrow> (ptr \<times> 's) option) \<Rightarrow> (nat \<Rightarrow> addr \<Rightarrow> 's \<Rightarrow> 's option) \<Rightarrow> request list \<Rightarrow> 's \<Rightarrow> (addr \<rightharpoonup> nat) \<Rightarrow>
  ('s \<times> (addr \<rightharpoonup> nat)) option" where
  "serve alloc release [] s U = Some (s, U)"
| "serve alloc release (Alloc n # rs) s U =
     (case alloc n s of
        None \<Rightarrow> None
      | Some (None, s') \<Rightarrow> serve alloc release rs s' U
      | Some (Some u, s') \<Rightarrow> serve alloc release rs s' (U(u \<mapsto> unat n)))"
| "serve alloc release (Release t u # rs) s U =
     (if U u = None then serve alloc release rs s U
      else case release t u s of None \<Rightarrow> None | Some s' \<Rightarrow> serve alloc release rs s' (U(u := None)))"

text \<open>
  What the rest of the server relies on: from a state with the invariant, a call returns and keeps it, an address handed out
  is new, the blocks in use do not overlap, headers included, and are as large as requested.
\<close>

locale allocator =
  fixes inv :: "'s \<Rightarrow> (addr \<rightharpoonup> nat) \<Rightarrow> bool" and bsize :: "'s \<Rightarrow> addr \<Rightarrow> nat" and hdr_bytes :: nat
    and alloc :: "u64 \<Rightarrow> 's \<Rightarrow> (ptr \<times> 's) option" and release :: "nat \<Rightarrow> addr \<Rightarrow> 's \<Rightarrow> 's option" and fits :: "u64 \<Rightarrow> bool"
  assumes alloc_returns: "inv s U \<Longrightarrow> fits n \<Longrightarrow> \<exists>r s'. alloc n s = Some (r, s') \<and>
      (case r of None \<Rightarrow> inv s' U | Some u \<Rightarrow> u \<notin> dom U \<and> inv s' (U(u \<mapsto> unat n)))"
    and release_returns: "inv s U \<Longrightarrow> u \<in> dom U \<Longrightarrow> \<exists>s'. release t u s = Some s' \<and> inv s' (U(u := None))"
    and disjoint: "inv s U \<Longrightarrow> u \<in> dom U \<Longrightarrow> v \<in> dom U \<Longrightarrow> u \<noteq> v \<Longrightarrow>
      {u - hdr_bytes ..< u + bsize s u} \<inter> {v - hdr_bytes ..< v + bsize s v} = {}"
    and large_enough: "inv s U \<Longrightarrow> U u = Some k \<Longrightarrow> k \<le> bsize s u"
begin

lemma serve_returns:
  assumes "inv s U" and "\<forall>n. Alloc n \<in> set rs \<longrightarrow> fits n"
  shows "\<exists>s' U'. serve alloc release rs s U = Some (s', U') \<and> inv s' U'"
  using assms
proof (induction rs arbitrary: s U)
  case Nil
  then show ?case by simp
next
  case (Cons r rs)
  show ?case
  proof (cases r)
    case (Alloc n)
    then obtain q s' where "alloc n s = Some (q, s')" "case q of None \<Rightarrow> inv s' U | Some u \<Rightarrow> u \<notin> dom U \<and> inv s' (U(u \<mapsto> unat n))"
      using alloc_returns [OF Cons.prems(1), of n] Cons.prems(2) by auto
    with Cons.IH Cons.prems(2) Alloc show ?thesis by (cases q) auto
  next
    case (Release t u)
    show ?thesis
    proof (cases "U u")
      case None
      with Cons Release show ?thesis by simp
    next
      case (Some n)
      then obtain s' where "release t u s = Some s'" "inv s' (U(u := None))" using release_returns [OF Cons.prems(1), of u t] by auto
      with Cons.IH Cons.prems(2) Release Some show ?thesis by simp
    qed
  qed
qed

lemma serve_safe:
  assumes "inv s U" and "\<forall>n. Alloc n \<in> set rs \<longrightarrow> fits n"
  shows "\<exists>s' U'. serve alloc release rs s U = Some (s', U') \<and>
    (\<forall>u n v m. U' u = Some n \<longrightarrow> U' v = Some m \<longrightarrow> u \<noteq> v \<longrightarrow> {u - hdr_bytes ..< u + n} \<inter> {v - hdr_bytes ..< v + m} = {})"
proof -
  obtain s' U' where s: "serve alloc release rs s U = Some (s', U')" "inv s' U'" using serve_returns [OF assms] by blast
  have "{u - hdr_bytes ..< u + n} \<inter> {v - hdr_bytes ..< v + m} = {}" if "U' u = Some n" "U' v = Some m" "u \<noteq> v" for u n v m
    using disjoint [OF s(2), of u v] large_enough [OF s(2) that(1)] large_enough [OF s(2) that(2)] that by fastforce
  with s(1) show ?thesis by blast
qed

end

definition ready_inv :: "buddy_state \<Rightarrow> (addr \<rightharpoonup> nat) \<Rightarrow> bool" where
  "ready_inv st U \<longleftrightarrow> client_inv st U \<and> \<not> destroy_pending st"

definition small_request :: "u64 \<Rightarrow> bool" where
  "small_request n \<longleftrightarrow> unat n + 48 \<le> 2 ^ 30"

abbreviation buddy_serve :: "request list \<Rightarrow> buddy_state \<Rightarrow> (addr \<rightharpoonup> nat) \<Rightarrow> (buddy_state \<times> (addr \<rightharpoonup> nat)) option" where
  "buddy_serve \<equiv> serve (\<lambda>n st. BuddyMalloc (owner st) n st) (\<lambda>t u st. BuddyFree t True (Some u) st)"

interpretation bud: allocator ready_inv user_size 48 "\<lambda>n st. BuddyMalloc (owner st) n st" "\<lambda>t u st. BuddyFree t True (Some u) st" small_request
proof unfold_locales
  fix s U n assume a: "ready_inv s U" "small_request n"
  then obtain r s' where r: "BuddyMalloc (owner s) n s = Some (r, s')" "alloc_result (unat n) (granted n s) U s r s'"
    using BuddyMalloc_internal_inv [of s U n] by (auto simp: ready_inv_def small_request_def BuddyMalloc_def)
  moreover have "\<not> destroy_pending s'" using r(2) a(1) by (simp add: alloc_result_def keeps_def ready_inv_def)
  ultimately show "\<exists>r s'. BuddyMalloc (owner s) n s = Some (r, s') \<and>
      (case r of None \<Rightarrow> ready_inv s' U | Some u \<Rightarrow> u \<notin> dom U \<and> ready_inv s' (U(u \<mapsto> unat n)))"
    by (auto simp: alloc_result_def ready_inv_def split: option.splits)
next
  fix s U u t assume a: "ready_inv s U" "u \<in> dom U"
  then have "\<exists>st'. BuddyFree t True (Some u) s = Some st' \<and> client_inv st' (U(u := None)) \<and> keeps_sizes (U(u := None)) st' s \<and> keeps {} st' s"
    using BuddyFree_owner [of s U u] BuddyFree_other [of s U u t] by (cases "t = owner s") (auto simp: ready_inv_def)
  with a(1) show "\<exists>s'. BuddyFree t True (Some u) s = Some s' \<and> ready_inv s' (U(u := None))"
    by (auto simp: ready_inv_def keeps_def)
next
  show "{u - 48 ..< u + user_size s u} \<inter> {v - 48 ..< v + user_size s v} = {}"
    if "ready_inv s U" "u \<in> dom U" "v \<in> dom U" "u \<noteq> v" for s U u v
    using that by (intro client_disjoint) (auto simp: ready_inv_def)
  show "k \<le> user_size s u" if "ready_inv s U" "U u = Some k" for s U u k
    using that by (auto simp: ready_inv_def client_inv_def)
qed

end
