(* ===== verification/Buddy_Safety.thy ===== *)
theory Buddy_Safety
  imports Buddy_Calls
begin

text \<open>
  The properties of the buddy allocator. \<open>GetThreadContext\<close> makes the context of a thread; the list of all contexts is
  the last section.
\<close>

definition clean_stats :: buddy_stats where
  "clean_stats = stats_init 0"

definition clean_block :: BuddyBlock where
  "clean_block = \<lparr>Base_ptr = None, MagicNumber = 0, OwnerThread = 0, Base_kSize = 0, k_size = 0, ExtraInfo = 0, status = FREE_BLOCK,
     NextBlock = None, PrevBlock = None, NextToBeFreed = None\<rparr>"

text \<open>The context that \<^verbatim>\<open>GetThreadContext\<close> allocates and sets to zero.\<close>

definition GetThreadContext :: "mem \<Rightarrow> buddy_state" where
  "GetThreadContext m = \<lparr>initialized = False, owner = 0,
     Config = \<lparr>memory_area_size = 0, on_demand_alloc = False, extra_alloc = False, free_areas = False, keep_factor = 0, keep_minimum = 0\<rparr>,
     Stats = clean_stats, page_ksize = 0, MemDesc = (\<lambda>i. None), Errno = BUDDY_SUCCESS, ToBeFreed_list = None, destroy_pending = False,
     released = False, blocks = (\<lambda>a. clean_block), sysmem = m, user_writes = []\<rparr>"

lemma Log2Ceil_eqI:
  assumes "2 ^ k < unat n" and "unat n \<le> 2 ^ Suc k" and "k < 63"
  shows "Log2Ceil n = Suc k"
proof -
  have "(2 :: nat) ^ Suc k \<le> 2 ^ 63" using assms(3) by (intro power_increasing) auto
  then have n: "0 < unat n" "unat n \<le> 2 ^ 63" using assms(1,2) by simp_all
  note l = Log2Ceil_spec [OF n]
  have "(2 :: nat) ^ k < 2 ^ Log2Ceil n" using assms(1) l(1) by (rule less_le_trans)
  then have k: "k < Log2Ceil n" by simp
  then have "(2 :: nat) ^ (Log2Ceil n - 1) < 2 ^ Suc k" using l(3) assms(2) by (simp add: le_less_trans less_le_trans)
  then have "Log2Ceil n - 1 < Suc k" by (rule power_less_imp_less_exp [rotated]) simp
  with k show ?thesis by simp
qed

lemma Log2Ceil_default: "Log2Ceil (memory_area_size default_buddy_parameter) = 20"
  using Log2Ceil_eqI [of 19 "1048576"] by (simp add: default_buddy_parameter_def)

definition steady_mem :: mem where
  "steady_mem = \<lparr>brk = 4096, calls = 0, fails = (\<lambda>i. False)\<rparr>"

lemma BuddyInit_default:
  "\<exists>st. BuddyInit 1 None 0 (GetThreadContext steady_mem) = Some (BUDDY_SUCCESS, st)"
  by (simp add: BuddyInit_def GetThreadContext_def Log2Ceil_default NewStdPage_def Mem_Alloc_def steady_mem_def Let_def,
    simp add: default_buddy_parameter_def size_header64_def MIN_ALLOC_SIZE_def)

section \<open>Properties\<close>

text \<open>
  C5. Whatever the sequence of allocations by a thread and of releases, by that thread or by others, that follows a \<open>BuddyInit\<close>, as
  long as no request exceeds \<open>2 ^ 30\<close> bytes with its header: all calls return, and no two of the blocks in use at the end
  overlap, their headers included, over the whole size that was asked for.
\<close>

theorem buddy_requests_safe:
  assumes "\<not> initialized st0" and "BuddyInit self cfg 0 st0 = Some (rc, st)" and "rc = BUDDY_SUCCESS \<or> rc = BUDDY_ERR_MALLOC"
    and "\<forall>n. Alloc n \<in> set rs \<longrightarrow> unat n + 48 \<le> 2 ^ 30"
  shows "\<exists>st' U. buddy_serve rs st Map.empty = Some (st', U) \<and>
    (\<forall>u n v m. U u = Some n \<longrightarrow> U v = Some m \<longrightarrow> u \<noteq> v \<longrightarrow> {u - 48 ..< u + n} \<inter> {v - 48 ..< v + m} = {})"
  by (rule bud.serve_safe) (use BuddyInit_inv [OF assms(1-3)] assms(4) in \<open>simp_all add: ready_inv_def small_request_def\<close>)

theorem buddy_requests_safe_witness:
  "\<exists>st st' U. BuddyInit 1 None 0 (GetThreadContext steady_mem) = Some (BUDDY_SUCCESS, st) \<and>
    buddy_serve [Alloc 100, Alloc 5000, Release 2 4144, Alloc 7] st Map.empty = Some (st', U)"
proof -
  obtain st where st: "BuddyInit 1 None 0 (GetThreadContext steady_mem) = Some (BUDDY_SUCCESS, st)" using BuddyInit_default by blast
  have "\<not> initialized (GetThreadContext steady_mem)" by (simp add: GetThreadContext_def)
  from buddy_requests_safe [OF this st, of "[Alloc 100, Alloc 5000, Release 2 4144, Alloc 7]"]
  have "\<exists>st' U. buddy_serve [Alloc 100, Alloc 5000, Release 2 4144, Alloc 7] st Map.empty = Some (st', U)" by auto
  with st show ?thesis by blast
qed

text \<open>
  C6. An allocation in a state that the calls can reach returns an address that is not in use, with exactly the room of the
  smallest power of two that holds the request and the header, or, beyond the size of a page, exactly the request; the
  sizes of the other blocks do not change. NULL is returned only for a request of 0 bytes, when the system has no memory
  (\<open>BUDDY_ERR_MALLOC\<close>), or when the configuration forbids another page or a large block (\<open>BUDDY_ERR_OUTOFMEM\<close>).
\<close>

theorem BuddyMalloc_result:
  assumes "ready_inv st U" and "unat Size + 48 \<le> 2 ^ 30"
  shows "\<exists>r st'. BuddyMalloc (owner st) Size st = Some (r, st') \<and>
    (case r of
       None \<Rightarrow> ready_inv st' U \<and> (Size = 0 \<or> Errno st' = BUDDY_ERR_MALLOC \<and> \<not> mem_good (sysmem st) \<or>
         Errno st' = BUDDY_ERR_OUTOFMEM \<and> \<not> (extra_alloc (Config st) \<and> on_demand_alloc (Config st)))
     | Some u \<Rightarrow> u \<notin> dom U \<and> ready_inv st' (U(u \<mapsto> unat Size)) \<and>
         user_size st' u = (if request_log2 Size \<le> page_ksize st then 2 ^ request_log2 Size - 48 else unat Size) \<and>
         (\<forall>v\<in>dom U. user_size st' v = user_size st v))"
proof -
  obtain r st' where r: "BuddyMalloc (owner st) Size st = Some (r, st')" "alloc_result (unat Size) (granted Size st) U st r st'"
    using BuddyMalloc_internal_inv [of st U Size] assms by (auto simp: ready_inv_def BuddyMalloc_def)
  moreover have "\<not> destroy_pending st'" using r(2) assms(1) by (simp add: alloc_result_def keeps_def ready_inv_def)
  ultimately show ?thesis
    by (intro exI [of _ r] exI [of _ st'])
      (auto simp: alloc_result_def ready_inv_def keeps_sizes_def granted_def unat_eq_0 split: option.splits)
qed

lemma ready_default:
  assumes "BuddyInit 1 None 0 (GetThreadContext steady_mem) = Some (BUDDY_SUCCESS, st)"
  shows "ready_inv st Map.empty" and "owner st = 1" and "Config st = default_buddy_parameter"
  using BuddyInit_inv [OF _ assms] by (auto simp: GetThreadContext_def ready_inv_def)

theorem BuddyMalloc_result_witness:
  "\<exists>st r st'. BuddyInit 1 None 0 (GetThreadContext steady_mem) = Some (BUDDY_SUCCESS, st) \<and> BuddyMalloc 1 100 st = Some (r, st')"
proof -
  obtain st where st: "BuddyInit 1 None 0 (GetThreadContext steady_mem) = Some (BUDDY_SUCCESS, st)" using BuddyInit_default by blast
  from BuddyMalloc_result [OF ready_default(1) [OF st], of 100] ready_default(2) [OF st]
  have "\<exists>r st'. BuddyMalloc 1 100 st = Some (r, st')" by auto
  with st show ?thesis by blast
qed

lemma no_blocks_no_pages:
  assumes "binv P {} {} X {} st"
  shows "P = {}"
proof (rule ccontr)
  assume "P \<noteq> {}"
  then obtain b where "b \<in> P" by blast
  then have "b \<in> prange (page_ksize st) b" "prange (page_ksize st) b \<subseteq> {}"
    using assms by (auto simp: binv_def blocks_ok_def layout_def prange_def)
  then show False by blast
qed

text \<open>
  C13. When every block has been released, those that other threads freed and that still wait included, the merging has put all pages
  together again: \<open>BuddyDestroy\<close> succeeds, gives every page back and frees the context.
\<close>

theorem BuddyDestroy_all_free:
  assumes "ready_inv st Map.empty"
  shows "\<exists>st'. BuddyDestroy st = Some (BUDDY_SUCCESS, st') \<and> released st' \<and> NbStdPages (Stats st') = 0 \<and> NbExtraPages (Stats st') = 0 \<and>
    TotalMemSpace (Stats st') = 0 \<and> StdUsedSpace (Stats st') = 0"
proof -
  obtain rc st' P F R X where c: "TryContextCleanup st = Some (rc, st')" "binv P F R X {} st'" "dom (Map.empty :: addr \<rightharpoonup> nat) = (\<lambda>a. a + 48) ` (R \<union> X)"
    "\<forall>a\<in>F. k_size (blocks st' a) < page_ksize st'"
    "rc = BUDDY_SUCCESS \<and> F = {} \<and> released st' \<or> rc = BUDDY_ERR_INUSE \<and> F \<noteq> {} \<and> destroy_pending st' \<and> released st' = released st"
    using TryContextCleanup_inv [of st Map.empty] assms unfolding ready_inv_def by blast
  have RX: "R = {}" "X = {}" using c(3) by auto
  have "F = {}"
  proof (rule ccontr)
    assume "F \<noteq> {}"
    then obtain a where a: "a \<in> F" by blast
    have "k_size (blocks st' a) = page_ksize st'" using all_free_pages [OF _ a] c(2) RX unfolding binv_def by blast
    with c(4) a show False by auto
  qed
  moreover have "P = {}" using no_blocks_no_pages c(2) RX \<open>F = {}\<close> by blast
  moreover have "stats_ok (page_ksize st') P F R X (blocks st') (Stats st')" using c(2) by (simp add: binv_def)
  moreover have "initialized st" using assms by (auto simp: ready_inv_def client_inv_def)
  ultimately show ?thesis using c(1,5) RX by (auto simp: BuddyDestroy_def stats_ok_def)
qed

theorem BuddyDestroy_all_free_witness:
  "\<exists>st st'. BuddyInit 1 None 0 (GetThreadContext steady_mem) = Some (BUDDY_SUCCESS, st) \<and> BuddyDestroy st = Some (BUDDY_SUCCESS, st') \<and>
    TotalMemSpace (Stats st') = 0"
proof -
  obtain st where st: "BuddyInit 1 None 0 (GetThreadContext steady_mem) = Some (BUDDY_SUCCESS, st)" using BuddyInit_default by blast
  from BuddyDestroy_all_free [OF ready_default(1) [OF st]] st show ?thesis by blast
qed

text \<open>
  The blocks in use: those of the users, and those that other threads have freed and that still wait in the list \<open>T\<close>. The pages
  are those of the free blocks \<open>F\<close> and of the blocks in use that are not large.
\<close>

definition blocks_in_use :: "(addr \<rightharpoonup> nat) \<Rightarrow> addr list \<Rightarrow> addr set" where
  "blocks_in_use U T = (\<lambda>u. u - 48) ` dom U \<union> set T"

definition pages_of :: "addr set \<Rightarrow> addr set \<Rightarrow> buddy_state \<Rightarrow> addr set" where
  "pages_of F A st = {b. \<exists>a \<in> F \<union> {a \<in> A. \<not> IS_EXTRA_BLOCK a st}. Base_ptr (blocks st a) = Some b}"

lemma pages_of_layout:
  assumes "binv P F R X {} st"
  shows "pages_of F (R \<union> X) st = P" and "{a \<in> R \<union> X. \<not> IS_EXTRA_BLOCK a st} = R" and "{a \<in> R \<union> X. IS_EXTRA_BLOCK a st} = X"
proof -
  let ?K = "page_ksize st" and ?h = "blocks st"
  have ok: "blocks_ok ?K (owner st) (brk (sysmem st)) P F R X {} ?h" using assms by (simp add: binv_def)
  have lay: "layout ?K P (F \<union> R) ?h" using ok by (simp add: blocks_ok_def)
  have std: "\<exists>b\<in>P. in_page ?K b ?h a" if "a \<in> F \<union> R" for a using lay that unfolding layout_def by blast
  have x: "IS_EXTRA_BLOCK a st" if "a \<in> X" for a using ok that by (simp add: blocks_ok_def extra_ok_def IS_EXTRA_BLOCK_def)
  have r: "\<not> IS_EXTRA_BLOCK a st" if "a \<in> R" for a using std [of a] that by (auto simp: in_page_def IS_EXTRA_BLOCK_def)
  show RX: "{a \<in> R \<union> X. \<not> IS_EXTRA_BLOCK a st} = R" "{a \<in> R \<union> X. IS_EXTRA_BLOCK a st} = X" using x r by blast+
  have "\<exists>a\<in>F \<union> R. Base_ptr (?h a) = Some b" if "b \<in> P" for b
  proof -
    have b: "b \<in> prange ?K b" by (simp add: prange_def)
    have "prange ?K b \<subseteq> (\<Union>a\<in>F \<union> R. brange ?h a)" using lay that by (simp add: layout_def)
    with b obtain a where a: "a \<in> F \<union> R" "b \<in> brange ?h a" by blast
    from layout_page [OF lay a b that] a(1) show ?thesis by (auto simp: in_page_def)
  qed
  moreover have "b \<in> P" if "a \<in> F \<union> R" "Base_ptr (?h a) = Some b" for a b using std [OF that(1)] that(2) by (auto simp: in_page_def)
  ultimately show "pages_of F (R \<union> X) st = P" unfolding pages_of_def RX by blast
qed

text \<open>
  C37. The statistics are exact whatever the sequence of allocations and releases that follows a \<open>BuddyInit\<close>: the used
  space is the sum of the blocks in use that are not large, the extra space that of the large ones, headers included; the space of
  the pages is their number times their size, the pages in use are those that are not one free block, and the total is the
  space of the pages and of the large blocks. The numbers are those of the C type, modulo \<open>2 ^ 64\<close>.
\<close>

theorem BuddyGetStats_exact:
  assumes "\<not> initialized st0" and "BuddyInit self cfg 0 st0 = Some (rc, st)" and "rc = BUDDY_SUCCESS \<or> rc = BUDDY_ERR_MALLOC"
    and "\<forall>n. Alloc n \<in> set rs \<longrightarrow> unat n + 48 \<le> 2 ^ 30" and "buddy_serve rs st Map.empty = Some (st', U)"
  shows "\<exists>F T. free_lists F st' \<and> freed_chain (blocks st') (ToBeFreed_list st') T \<and>
    (let s = BuddyGetStats st'; A = blocks_in_use U T; pages = pages_of F A st' in
      StdUsedSpace s = of_nat (\<Sum>a\<in>{a \<in> A. \<not> IS_EXTRA_BLOCK a st'}. block_bytes st' a) \<and>
      ExtraMemSpace s = of_nat (\<Sum>a\<in>{a \<in> A. IS_EXTRA_BLOCK a st'}. block_bytes st' a) \<and>
      NbExtraPages s = of_nat (card {a \<in> A. IS_EXTRA_BLOCK a st'}) \<and>
      NbStdPages s = of_nat (card pages) \<and> StdMemSpace s = of_nat (card pages * 2 ^ page_ksize st') \<and>
      NbStdUsed s = of_nat (card {b \<in> pages. \<not> (b \<in> F \<and> k_size (blocks st' b) = page_ksize st')}) \<and>
      TotalMemSpace s = StdMemSpace s + ExtraMemSpace s)"
proof -
  have "ready_inv st Map.empty" using BuddyInit_inv [OF assms(1-3)] by (simp add: ready_inv_def)
  from bud.serve_returns [OF this, of rs] assms(4,5) have inv: "client_inv st' U"
    by (auto simp: small_request_def ready_inv_def)
  obtain P F R X T where i: "binv P F R X {} st'" "freed_chain (blocks st') (ToBeFreed_list st') T" "set T \<subseteq> R \<union> X"
    "dom U = (\<lambda>a. a + 48) ` (R \<union> X - set T)" by (rule client_invE [OF inv])
  have "(\<lambda>u. u - 48) ` dom U = R \<union> X - set T" unfolding i(4) image_image by simp
  then have A: "blocks_in_use U T = R \<union> X" using i(3) by (auto simp: blocks_in_use_def)
  note p = pages_of_layout [OF i(1)] and fin = binv_finite [OF i(1)]
  have "free_lists F st'" and stats: "stats_ok (page_ksize st') P F R X (blocks st') (Stats st')" using i(1) by (simp_all add: binv_def)
  moreover have "of_nat (\<Sum>a\<in>R. block_bytes st' a) = (\<Sum>a\<in>R. 2 ^ k_size (blocks st' a) :: u64)"
    "of_nat (\<Sum>a\<in>X. block_bytes st' a) = (\<Sum>a\<in>X. ExtraInfo (blocks st' a))"
    using block_bytes_std [OF i(1)] block_bytes_extra [OF i(1)] by simp_all
  ultimately show ?thesis using i(2) p
    by (intro exI [of _ F] exI [of _ T]) (simp add: A Let_def stats_ok_def used_pages_def BuddyGetStats_def)
qed

lemma client_inv_writes [simp]: "client_inv (st\<lparr>user_writes := w\<rparr>) U = client_inv st U"
  by (simp add: client_inv_def user_size_def block_bytes_def IS_EXTRA_BLOCK_def binv_def free_lists_def)

lemma user_size_writes [simp]: "user_size (st\<lparr>user_writes := w\<rparr>) u = user_size st u"
  by (simp add: user_size_def block_bytes_def IS_EXTRA_BLOCK_def)

lemma copied_size:
  assumes "client_inv st U" and "u \<in> dom U"
  shows "(if IS_EXTRA_BLOCK (u - 48) st then Some (ExtraInfo (blocks st (u - 48)) - size_header64)
    else map_option (\<lambda>s. of_nat s - size_header64) (int_shift (k_size (blocks st (u - 48))))) = Some (of_nat (user_size st u))"
    and "status (blocks st (u - 48)) = RESERVED_BLOCK"
proof -
  obtain P F R X T where i: "binv P F R X {} st" "dom U = (\<lambda>a. a + 48) ` (R \<union> X - set T)" by (rule client_invE [OF assms(1)])
  then obtain a where a: "u = a + 48" "a \<in> R \<union> X" using assms(2) by blast
  show "status (blocks st (u - 48)) = RESERVED_BLOCK" using live_block [OF i(1) a(2)] a(1) by (simp add: used_mark_def)
  have ok: "blocks_ok (page_ksize st) (owner st) (brk (sysmem st)) P F R X {} (blocks st)" using i(1) by (simp add: binv_def)
  have b: "48 < block_bytes st a" by (rule block_span(1) [OF i(1) a(2)])
  have "k_size (blocks st a) < 31" if "\<not> IS_EXTRA_BLOCK a st"
  proof -
    have "a \<in> R" using that a(2) ok by (auto simp: IS_EXTRA_BLOCK_def blocks_ok_def extra_ok_def)
    then obtain b where "in_page (page_ksize st) b (blocks st) a" using blocks_ok_page [OF ok] by blast
    then show ?thesis using ok by (simp add: in_page_def blocks_ok_def)
  qed
  with a(1) b show "(if IS_EXTRA_BLOCK (u - 48) st then Some (ExtraInfo (blocks st (u - 48)) - size_header64)
    else map_option (\<lambda>s. of_nat s - size_header64) (int_shift (k_size (blocks st (u - 48))))) = Some (of_nat (user_size st u))"
    by (auto simp: user_size_def block_bytes_def size_header64_def of_nat_diff)
qed

text \<open>
  C14. \<open>BuddyRealloc\<close> of a block in use to a size that is not 0 moves it: the new address is not in use and has the room of a new
  allocation, the old address is released, and the copy writes as many bytes as the old block had room for, whatever the new
  size. So when the block shrinks to a smaller power of two, the copy runs past the end of the new block. If no block can be
  had, the old one stays.
\<close>

theorem BuddyRealloc_result:
  assumes "ready_inv st U" and "u \<in> dom U" and "0 < unat Size" and "unat Size + 48 \<le> 2 ^ 30"
  shows "\<exists>r st'. BuddyRealloc (owner st) (Some u) Size st = Some (r, st') \<and>
    (case r of
       None \<Rightarrow> ready_inv st' U \<and> user_writes st' = user_writes st \<and>
         \<not> (mem_good (sysmem st) \<and> extra_alloc (Config st) \<and> on_demand_alloc (Config st))
     | Some w \<Rightarrow> w \<notin> dom U \<and> ready_inv st' ((U(w \<mapsto> unat Size))(u := None)) \<and>
         user_size st' w = (if request_log2 Size \<le> page_ksize st then 2 ^ request_log2 Size - 48 else unat Size) \<and>
         user_writes st' = user_writes st @ [(w, of_nat (user_size st u))])"
proof -
  have inv: "client_inv st U" and init: "initialized st" using assms(1) by (auto simp: ready_inv_def client_inv_def)
  have res: "status (blocks st (u - 48)) = RESERVED_BLOCK" by (rule copied_size(2) [OF inv assms(2)])
  have Size: "Size \<noteq> 0" using assms(3) by auto
  obtain r st1 where r: "BuddyMalloc (owner st) Size st = Some (r, st1)" "alloc_result (unat Size) (granted Size st) U st r st1"
    using BuddyMalloc_internal_inv [OF inv assms(4)] by (auto simp: BuddyMalloc_def)
  have k: "owner st1 = owner st" "initialized st1" "\<not> destroy_pending st1" "user_writes st1 = user_writes st"
    using r(2) init assms(1) by (simp_all add: alloc_result_def keeps_def ready_inv_def)
  show ?thesis
  proof (cases r)
    case None
    then show ?thesis using r k Size init res assms(3)
      by (intro exI [of _ None] exI [of _ st1]) (auto simp: BuddyRealloc_def alloc_result_def ready_inv_def size_header64_def)
  next
    case (Some w)
    let ?U = "U(w \<mapsto> unat Size)" and ?st2 = "st1\<lparr>user_writes := user_writes st1 @ [(w, of_nat (user_size st u))]\<rparr>"
    have w: "w \<notin> dom U" "client_inv st1 ?U" "user_size st1 w = granted Size st" "user_size st1 u = user_size st u"
      using r(2) Some assms(2) by (auto simp: alloc_result_def keeps_sizes_def)
    have u: "u \<in> dom ?U" "w \<noteq> u" using assms(2) w(1) by auto
    note cp = copied_size(1) [OF w(2) u(1), unfolded w(4)]
    have inv2: "client_inv ?st2 ?U" using w(2) by simp
    obtain st3 where f: "BuddyFree (owner st1) True (Some u) ?st2 = Some st3" "client_inv st3 (?U(u := None))"
      "keeps_sizes (?U(u := None)) st3 ?st2" "keeps {} st3 ?st2"
      using BuddyFree_owner [OF inv2 u(1)] by auto
    have "BuddyRealloc (owner st) (Some u) Size st = Some (Some w, st3)"
      using r(1) Some Size init res cp f(1) k by (simp add: BuddyRealloc_def size_header64_def)
    moreover have "user_size st3 w = granted Size st" using f(3) u(2) w(3) by (simp add: keeps_sizes_def)
    moreover have "user_writes st3 = user_writes st @ [(w, of_nat (user_size st u))]" "\<not> destroy_pending st3"
      using f(4) k by (simp_all add: keeps_def)
    ultimately show ?thesis using f(2) w(1)
      by (intro exI [of _ "Some w"] exI [of _ st3]) (simp add: ready_inv_def granted_def)
  qed
qed

text \<open>The state after \<open>BuddyInit\<close> with the default configuration: one page of 1 MB.\<close>

lemma BuddyInit_default_state:
  assumes "\<not> initialized st0" and "BuddyInit self None 0 st0 = Some (BUDDY_SUCCESS, st)"
  shows "\<exists>p. MemDesc st = (\<lambda>i. None)(20 := Some p) \<and> page_ksize st = 20 \<and> ToBeFreed_list st = None \<and> initialized st \<and> owner st = self \<and>
    k_size (blocks st p) = 20 \<and> PrevBlock (blocks st p) = None \<and> NextBlock (blocks st p) = None \<and>
    fails (sysmem st) = fails (sysmem st0)"
proof -
  have "20 < (31 :: nat)" by simp
  then show ?thesis
    using assms by (auto simp: BuddyInit_def Log2Ceil_default NewStdPage_def Let_def Mem_Alloc_def Insert_FreeBlock_def upd_stats_def upd_block_def
      set_desc_def split: if_splits)
qed

lemma request_log2_eqI:
  assumes "2 ^ k < unat Size + 48" and "unat Size + 48 \<le> 2 ^ Suc k" and "6 \<le> k" and "k < 30"
  shows "request_log2 Size = Suc k"
proof -
  have "(2 :: nat) ^ Suc k \<le> 2 ^ 30" "(2 :: nat) ^ 6 \<le> 2 ^ k" using assms(3,4) by (intro power_increasing; simp)+
  moreover from this have "unat (Size + size_header64) = unat Size + 48" "\<not> Size < MIN_ALLOC_SIZE"
    using assms(1,2) by (simp_all add: size_header64_def MIN_ALLOC_SIZE_def word_less_nat_alt unat_add_lem [THEN iffD1])
  ultimately show ?thesis using Log2Ceil_eqI [of k "Size + size_header64"] assms(1,2,4) by (simp add: request_log2_def)
qed

theorem BuddyRealloc_result_witness:
  "\<exists>st u st1 w st2 len. BuddyInit 1 None 0 (GetThreadContext steady_mem) = Some (BUDDY_SUCCESS, st) \<and>
    BuddyMalloc 1 1000 st = Some (Some u, st1) \<and> BuddyRealloc 1 (Some u) 10 st1 = Some (Some w, st2) \<and>
    last (user_writes st2) = (w, len) \<and> user_size st2 w < unat len"
proof -
  obtain st where st: "BuddyInit 1 None 0 (GetThreadContext steady_mem) = Some (BUDDY_SUCCESS, st)" using BuddyInit_default by blast
  have ni: "\<not> initialized (GetThreadContext steady_mem)" by (simp add: GetThreadContext_def)
  note d = ready_default [OF st]
  have k: "page_ksize st = 20" "mem_good (sysmem st)"
    using BuddyInit_default_state [OF ni st] by (auto simp: mem_good_def GetThreadContext_def steady_mem_def)
  have r: "request_log2 1000 = 11" "request_log2 10 = 6"
    using request_log2_eqI [of 10 1000] Log2Ceil_eqI [of 5 64] by (simp_all add: request_log2_def MIN_ALLOC_SIZE_def size_header64_def)
  have ex: "extra_alloc (Config st) \<and> on_demand_alloc (Config st)" using d(3) by (simp add: default_buddy_parameter_def)
  obtain q st1 where q: "BuddyMalloc 1 1000 st = Some (q, st1)" "alloc_result 1000 (granted 1000 st) Map.empty st q st1"
    using BuddyMalloc_internal_inv [of st Map.empty 1000] d(1,2) by (auto simp: BuddyMalloc_def ready_inv_def)
  then obtain u where u: "q = Some u" "client_inv st1 [u \<mapsto> 1000]" "user_size st1 u = 2000" "keeps {} st1 st" using k ex r
    by (cases q) (auto simp: alloc_result_def granted_def)
  then have r1: "ready_inv st1 [u \<mapsto> 1000]" "owner st1 = 1" "page_ksize st1 = 20" "Config st1 = Config st"
    using d k by (auto simp: ready_inv_def keeps_def)
  have good: "mem_good (sysmem st1)" "extra_alloc (Config st1) \<and> on_demand_alloc (Config st1)"
    using k(2) u(4) ex r1(4) by (simp_all add: mem_good_def keeps_def)
  obtain v st2 where v: "BuddyRealloc 1 (Some u) 10 st1 = Some (v, st2)" "case v of
       None \<Rightarrow> False | Some w \<Rightarrow> user_size st2 w = 16 \<and> user_writes st2 = user_writes st1 @ [(w, 2000)]"
    using BuddyRealloc_result [OF r1(1), of u 10] r1(2,3) r(2) u(3) good by (auto split: option.splits)
  then obtain w where w: "BuddyRealloc 1 (Some u) 10 st1 = Some (Some w, st2)" "user_size st2 w = 16" "user_writes st2 = user_writes st1 @ [(w, 2000)]"
    by (cases v) auto
  then have "last (user_writes st2) = (w, 2000)" "user_size st2 w < unat (2000 :: u64)" by simp_all
  with st q u(1) w(1) show ?thesis by blast
qed

text \<open>An allocation that fills the only page.\<close>

lemma BuddyMalloc_whole_page:
  assumes "\<not> initialized st0" and "BuddyInit self None 0 st0 = Some (BUDDY_SUCCESS, st)" and "2 ^ 19 < unat Size + 48" and "unat Size + 48 \<le> 2 ^ 20"
  obtains u st1 where "BuddyMalloc self Size st = Some (Some u, st1)" "ready_inv st1 [u \<mapsto> unat Size]" "MemDesc st1 = (\<lambda>i. None)"
    "ToBeFreed_list st1 = None" "initialized st1" "user_size st1 u = 2 ^ 20 - 48" "owner st = self"
proof -
  obtain p where p: "MemDesc st = (\<lambda>i. None)(20 := Some p)" "page_ksize st = 20" "ToBeFreed_list st = None" "initialized st" "owner st = self"
    "k_size (blocks st p) = 20" "PrevBlock (blocks st p) = None" "NextBlock (blocks st p) = None"
    using BuddyInit_default_state [OF assms(1,2)] by blast
  have s: "request_log2 Size = 20" using request_log2_eqI [of 19 Size] assms(3,4) by simp
  have Size: "Size \<noteq> 0" using assms(3) by auto
  have ready: "ready_inv st Map.empty" using BuddyInit_inv [OF assms(1,2)] by (simp add: ready_inv_def)
  have c: "CheckBlocksToBeFreed st = Some st" using p(3) by (subst CheckBlocksToBeFreed.simps) simp
  have f: "find_free 20 st = 20" using p(1) by (subst find_free.simps) simp
  let ?r = "Remove_FreeBlock p st"
  have r: "MemDesc ?r = (\<lambda>i. None)" using p(1,6,7,8) by (auto simp: Remove_FreeBlock_def Let_def)
  have rs: "k_size (blocks ?r p) = 20" "ToBeFreed_list ?r = None" "initialized ?r" "page_ksize ?r = 20"
    using same_fields [OF Remove_FreeBlock_same [of p st]] p by (simp_all add: hdr_eq)
  let ?r1 = "if is_page p ?r then upd_stats UpdateStats_UseStdPage ?r else ?r"
  have sp: "split_loop 20 p ?r1 = Some ?r1" using rs(1) by (subst split_loop.simps) simp
  have m: "\<exists>u st1. BuddyMalloc self Size st = Some (Some u, st1) \<and> MemDesc st1 = (\<lambda>i. None) \<and> ToBeFreed_list st1 = None \<and> initialized st1"
    using p(1,2,4) c f s sp r rs Size
    by (simp add: BuddyMalloc_def BuddyMalloc_internal_def reserve_block_def BUDDY_MAX_LOG2_SIZE_def Let_def)
  then obtain u st1 where u: "BuddyMalloc self Size st = Some (Some u, st1)" "MemDesc st1 = (\<lambda>i. None)" "ToBeFreed_list st1 = None" "initialized st1"
    by blast
  have "unat Size + 48 \<le> 2 ^ 30" using assms(4) by simp
  from BuddyMalloc_internal_inv [OF _ this, of st Map.empty] ready u(1) p(5)
  have "client_inv st1 [u \<mapsto> unat Size]" "keeps {} st1 st" "user_size st1 u = granted Size st"
    by (auto simp: ready_inv_def BuddyMalloc_def alloc_result_def)
  then have "ready_inv st1 [u \<mapsto> unat Size]" "user_size st1 u = 2 ^ 20 - 48"
    using ready s p(2) by (simp_all add: ready_inv_def keeps_def granted_def)
  with u p(5) show thesis by (intro that)
qed

text \<open>
  \<open>BuddyDestroy\<close> takes the context for unused as soon as it finds no free block smaller than a page. After the allocation of a
  block that fills the only page it reports success and frees the context, although the block is in use.
\<close>

theorem BuddyDestroy_in_use:
  assumes "\<not> initialized st0" and "BuddyInit self None 0 st0 = Some (BUDDY_SUCCESS, st)" and "2 ^ 19 < unat Size + 48" and "unat Size + 48 \<le> 2 ^ 20"
  shows "\<exists>u st1 st2. BuddyMalloc self Size st = Some (Some u, st1) \<and> ready_inv st1 [u \<mapsto> unat Size] \<and>
    BuddyDestroy st1 = Some (BUDDY_SUCCESS, st2) \<and> released st2"
proof -
  obtain u st1 where u: "BuddyMalloc self Size st = Some (Some u, st1)" "ready_inv st1 [u \<mapsto> unat Size]" "MemDesc st1 = (\<lambda>i. None)"
    "ToBeFreed_list st1 = None" "initialized st1" by (rule BuddyMalloc_whole_page [OF assms])
  have "CheckBlocksToBeFreed st1 = Some st1" using u(4) by (subst CheckBlocksToBeFreed.simps) simp
  moreover have "release_pages st1 = Some (BUDDY_SUCCESS, st1)" using u(3) by (subst release_pages.simps) simp
  ultimately show ?thesis using u by (auto simp: BuddyDestroy_def TryContextCleanup_def list_ex_iff)
qed

theorem BuddyDestroy_in_use_witness:
  "\<exists>st u st1 st2. BuddyInit 1 None 0 (GetThreadContext steady_mem) = Some (BUDDY_SUCCESS, st) \<and>
    BuddyMalloc 1 1000000 st = Some (Some u, st1) \<and> BuddyDestroy st1 = Some (BUDDY_SUCCESS, st2) \<and> released st2"
proof -
  obtain st where st: "BuddyInit 1 None 0 (GetThreadContext steady_mem) = Some (BUDDY_SUCCESS, st)" using BuddyInit_default by blast
  have "\<not> initialized (GetThreadContext steady_mem)" by (simp add: GetThreadContext_def)
  from BuddyDestroy_in_use [OF this st, of 1000000] st show ?thesis by auto
qed

theorem BuddyGetStats_exact_witness:
  "\<exists>st st' u. BuddyInit 1 None 0 (GetThreadContext steady_mem) = Some (BUDDY_SUCCESS, st) \<and>
    buddy_serve [Alloc 1000000] st Map.empty = Some (st', [u \<mapsto> 1000000]) \<and>
    StdUsedSpace (BuddyGetStats st') + ExtraMemSpace (BuddyGetStats st') = 1048576"
proof -
  obtain st where st: "BuddyInit 1 None 0 (GetThreadContext steady_mem) = Some (BUDDY_SUCCESS, st)" using BuddyInit_default by blast
  have ni: "\<not> initialized (GetThreadContext steady_mem)" by (simp add: GetThreadContext_def)
  obtain u st' where u: "BuddyMalloc 1 1000000 st = Some (Some u, st')" "ready_inv st' [u \<mapsto> unat (1000000 :: u64)]" "ToBeFreed_list st' = None"
    "user_size st' u = 2 ^ 20 - 48" "owner st = 1" by (rule BuddyMalloc_whole_page [OF ni st, of 1000000]) simp_all
  have run: "buddy_serve [Alloc 1000000] st Map.empty = Some (st', [u \<mapsto> 1000000])" using u(1,5) by simp
  obtain F T where t: "freed_chain (blocks st') (ToBeFreed_list st') T"
    "StdUsedSpace (BuddyGetStats st') = of_nat (\<Sum>a\<in>{a \<in> blocks_in_use [u \<mapsto> 1000000] T. \<not> IS_EXTRA_BLOCK a st'}. block_bytes st' a)"
    "ExtraMemSpace (BuddyGetStats st') = of_nat (\<Sum>a\<in>{a \<in> blocks_in_use [u \<mapsto> 1000000] T. IS_EXTRA_BLOCK a st'}. block_bytes st' a)"
    using BuddyGetStats_exact [OF ni st _ _ run] by (auto simp: Let_def)
  have "T = []" using t(1) u(3) by (cases T) auto
  then have A: "{a \<in> blocks_in_use [u \<mapsto> 1000000] T. Q a} = (if Q (u - 48) then {u - 48} else {})" for Q
    by (auto simp: blocks_in_use_def)
  have "block_bytes st' (u - 48) = 2 ^ 20" using u(4) by (simp add: user_size_def)
  with t(2,3) have "StdUsedSpace (BuddyGetStats st') + ExtraMemSpace (BuddyGetStats st') = 1048576" unfolding A by simp
  with st run show ?thesis by blast
qed

lemma entries_fit:
  fixes x t c :: nat
  assumes "48 \<le> x" and "0 < t" and "c = (x - 48) div t"
  shows "c * t + 48 \<le> x \<and> x < (c + 1) * t + 48"
proof -
  have "c * t \<le> x - 48" unfolding assms(3) by (rule div_times_less_eq_dividend)
  moreover have "x - 48 < t + c * t" unfolding assms(3) by (rule dividend_less_div_times [OF assms(2)])
  moreover have "(c + 1) * t = t + c * t" by simp
  ultimately show ?thesis using assms(1) by linarith
qed

text \<open>
  \<open>BuddyPreferedPoolCount\<close> gives the largest number of entries that fit into the block which the requested number would get
  anyway, and at least the requested number.
\<close>

theorem BuddyPreferedPoolCount_best:
  assumes "0 < unat min_count" and "0 < unat type_size" and "unat min_count * unat type_size + 48 \<le> 2 ^ 30"
    and "request_log2 (ucast min_count * type_size) \<le> page_ksize st"
  shows "\<exists>c. BuddyPreferedPoolCount min_count type_size st = Some c \<and> unat min_count \<le> unat c \<and>
    unat c * unat type_size + 48 \<le> 2 ^ request_log2 (ucast min_count * type_size) \<and>
    2 ^ request_log2 (ucast min_count * type_size) < (unat c + 1) * unat type_size + 48"
proof -
  let ?n = "unat min_count" and ?t = "unat type_size" and ?m = "ucast min_count * type_size :: u64"
  let ?s = "request_log2 ?m"
  have "?n < 2 ^ 32" using unsigned_less [of min_count, where ?'a = nat] by simp
  then have "unat (ucast min_count :: u64) = ?n" unfolding unsigned_ucast_eq by (intro take_bit_nat_eq_self) simp
  then have m: "unat ?m = ?n * ?t" using assms(3) by (subst unat_mult_lem [THEN iffD1]) auto
  note r = request_log2_spec [of ?m, unfolded m, OF assms(3)]
  have s: "int_shift ?s = Some (2 ^ ?s)" using r(2) by simp
  let ?p = "of_nat (2 ^ ?s) - size_header64 :: u64"
  have pw: "(2 :: nat) ^ ?s \<le> 2 ^ 30" "(2 :: nat) ^ 6 \<le> 2 ^ ?s" using r(1,2) by (intro power_increasing; simp)+
  have "unat (of_nat (2 ^ ?s) :: u64) = 2 ^ ?s" using unat_power_64 [of ?s] r(2) by simp
  then have p: "unat ?p = 2 ^ ?s - 48" using pw by (subst unat_sub) (simp_all add: word_le_nat_alt size_header64_def)
  let ?c = "ucast (?p div type_size) :: u32"
  have "unat (?p div type_size) = (2 ^ ?s - 48) div ?t" by (simp only: unat_div p)
  moreover have le: "(2 ^ ?s - 48) div ?t \<le> 2 ^ 30" using pw(1) div_le_dividend [of "2 ^ ?s - 48" ?t] by linarith
  ultimately have c: "unat ?c = (2 ^ ?s - 48) div ?t" unfolding unsigned_ucast_eq by (simp add: take_bit_nat_eq_self)
  have "?n \<le> (2 ^ ?s - 48) div ?t" using assms(2) r(3) by (simp add: less_eq_div_iff_mult_less_eq)
  moreover have "?c \<noteq> 0" using calculation assms(1) c by auto
  moreover have "type_size \<noteq> 0" using assms(2) by auto
  ultimately have "BuddyPreferedPoolCount min_count type_size st = Some ?c" "?n \<le> unat ?c"
    using s assms(4) c by (simp_all add: BuddyPreferedPoolCount_def Let_def)
  moreover have "48 \<le> (2 :: nat) ^ ?s" using pw(2) by simp
  note fit = entries_fit [OF this assms(2) c]
  ultimately show ?thesis using fit by blast
qed

theorem BuddyPreferedPoolCount_best_witness:
  "\<exists>c. BuddyPreferedPoolCount 10 100 (GetThreadContext steady_mem\<lparr>page_ksize := 20\<rparr>) = Some c \<and> unat c * 100 + 48 \<le> 2048 \<and> 10 \<le> unat c"
proof -
  have "ucast (10 :: u32) * (100 :: u64) = 1000" by simp
  moreover have "request_log2 1000 = 11" using request_log2_eqI [of 10 1000] by simp
  ultimately show ?thesis
    using BuddyPreferedPoolCount_best [of 10 100 "GetThreadContext steady_mem\<lparr>page_ksize := 20\<rparr>"] by auto
qed

section \<open>The list of contexts\<close>

text \<open>
  The contexts of all threads are in a doubly linked list; \<open>insert_context\<close> is called by \<open>GetThreadContext\<close>, \<open>remove_context\<close>
  before a context is freed.
\<close>

record context_links =
  ctx_prev :: ptr
  ctx_next :: ptr

record context_list =
  first_context :: ptr
  last_context :: ptr
  contexts :: "addr \<Rightarrow> context_links"

definition insert_context :: "addr \<Rightarrow> context_list \<Rightarrow> context_list" where
  "insert_context c s =
     (case last_context s of
        None \<Rightarrow> s\<lparr>first_context := Some c, last_context := Some c, contexts := (contexts s)(c := \<lparr>ctx_prev = None, ctx_next = None\<rparr>)\<rparr>
      | Some l \<Rightarrow>
          let h = (contexts s)(c := \<lparr>ctx_prev = Some l, ctx_next = None\<rparr>)
          in s\<lparr>contexts := h(l := (h l)\<lparr>ctx_next := Some c\<rparr>), last_context := Some c\<rparr>)"

definition remove_context :: "addr \<Rightarrow> context_list \<Rightarrow> context_list" where
  "remove_context c s =
     (let s = (case ctx_prev (contexts s c) of
                 None \<Rightarrow> s\<lparr>first_context := ctx_next (contexts s c)\<rparr>
               | Some q \<Rightarrow> s\<lparr>contexts := (contexts s)(q := (contexts s q)\<lparr>ctx_next := ctx_next (contexts s c)\<rparr>)\<rparr>);
          s = (case ctx_next (contexts s c) of
                 None \<Rightarrow> s\<lparr>last_context := ctx_prev (contexts s c)\<rparr>
               | Some n \<Rightarrow> s\<lparr>contexts := (contexts s)(n := (contexts s n)\<lparr>ctx_prev := ctx_prev (contexts s c)\<rparr>)\<rparr>)
      in s\<lparr>contexts := (contexts s)(c := \<lparr>ctx_prev = None, ctx_next = None\<rparr>)\<rparr>)"

interpretation ctx: links ctx_next ctx_prev "\<lambda>p b. b\<lparr>ctx_next := p\<rparr>" "\<lambda>p b. b\<lparr>ctx_prev := p\<rparr>"
  by unfold_locales simp_all

definition lists_contexts :: "context_list \<Rightarrow> addr list \<Rightarrow> bool" where
  "lists_contexts s xs \<longleftrightarrow> seg ctx_next ctx_prev (contexts s) None (first_context s) xs None \<and> distinct xs \<and> last_context s = last_ptr None xs"

lemma insert_context_list:
  assumes "lists_contexts s xs" and "c \<notin> set xs"
  shows "lists_contexts (insert_context c s) (xs @ [c])"
proof (cases "xs = []")
  case True
  with assms show ?thesis by (simp add: lists_contexts_def insert_context_def)
next
  case False
  then have l: "last_context s = Some (last xs)" "last xs \<in> set xs" using assms(1) by (simp_all add: lists_contexts_def last_ptr_def)
  let ?h = "contexts (insert_context c s)"
  have "seg ctx_next ctx_prev ?h None (if xs = [] then Some c else first_context s) (xs @ [c]) None"
    by (rule ctx.seg_snoc [of "contexts s"])
      (use assms False l in \<open>auto simp: lists_contexts_def insert_context_def last_ptr_def Let_def\<close>)
  with assms False l show ?thesis by (auto simp: lists_contexts_def insert_context_def Let_def last_ptr_def)
qed

lemma remove_context_list:
  assumes "lists_contexts s (xs @ c # ys)"
  shows "lists_contexts (remove_context c s) (xs @ ys)"
proof -
  let ?h = "contexts s"
  let ?re = "relink ctx_next ctx_prev (\<lambda>p b. b\<lparr>ctx_next := p\<rparr>) (\<lambda>p b. b\<lparr>ctx_prev := p\<rparr>) c ?h"
  have a: "seg ctx_next ctx_prev ?h None (first_context s) (xs @ c # ys) None" "distinct (xs @ c # ys)"
    using assms by (simp_all add: lists_contexts_def)
  have pv: "ctx_prev (?h c) = last_ptr None xs" "ctx_next (?h c) = first_ptr ys None" using seg_node [OF a(1)] by auto
  have ne: "ctx_prev (?h c) \<noteq> Some c" "ctx_next (?h c) \<noteq> Some c"
    using a(2) last_in_set [of xs] unfolding pv by (auto simp: last_ptr_def first_ptr_def split: list.splits)
  have h: "contexts (remove_context c s) = ?re(c := \<lparr>ctx_prev = None, ctx_next = None\<rparr>)"
    using ne by (auto simp: remove_context_def relink_def Let_def split: option.split)
  have f: "first_context (remove_context c s) = (if xs = [] then ctx_next (?h c) else first_context s)"
    using ne pv(1) by (auto simp: remove_context_def Let_def split: option.split)
  have l: "last_context (remove_context c s) = (if ys = [] then last_ptr None xs else last_context s)"
    using ne pv by (auto simp: remove_context_def Let_def first_ptr_def split: option.split list.splits)
  have "seg ctx_next ctx_prev (contexts (remove_context c s)) None (first_context (remove_context c s)) (xs @ ys) None =
      seg ctx_next ctx_prev ?re None (first_context (remove_context c s)) (xs @ ys) None"
    by (rule seg_cong) (use a(2) in \<open>auto simp: h\<close>)
  with ctx.relink_seg(1) [OF a] f l a(2) assms show ?thesis by (auto simp: lists_contexts_def last_ptr_def)
qed

text \<open>
  The contexts in the list are those that have been inserted and not removed, in the order of insertion; both links and both
  ends are right after every change.
\<close>

lemma contexts_kept:
  assumes "lists_contexts s xs"
  shows "(c \<notin> set xs \<longrightarrow> lists_contexts (insert_context c s) (xs @ [c])) \<and> (c \<in> set xs \<longrightarrow> lists_contexts (remove_context c s) (remove1 c xs))"
proof (intro conjI impI)
  show "lists_contexts (insert_context c s) (xs @ [c])" if "c \<notin> set xs" using insert_context_list [OF assms that] .
  show "lists_contexts (remove_context c s) (remove1 c xs)" if c: "c \<in> set xs"
  proof -
    obtain ys zs where "xs = ys @ c # zs" "c \<notin> set ys" using split_list_first [OF c] by blast
    with remove_context_list [of s ys c zs] assms show ?thesis by (simp add: remove1_append)
  qed
qed


end
