(* ===== verification/Dir_Cache.thy ===== *)
theory Dir_Cache
  imports Hash_Table NFS_Status C_String LRU_List
begin

text \<open>
  The cached directories of \<^verbatim>\<open>Cache_inode/cache_inode_readdir.c\<close> and the functions of \<^verbatim>\<open>Cache_inode/cache_inode_misc.c\<close>
  they call. A directory is a chain of cache entries: a \<^verbatim>\<open>DIR_BEGINNING\<close>, followed over \<open>pdir_cont\<close> by
  \<^verbatim>\<open>DIR_CONTINUE\<close> entries, each with an array of 16 slots. A cached entry lists the slots that name it in its
  \<open>parent_list\<close>. Every entry of a chain is also in the hash table of the cache, under the handle of the directory and its
  position in the chain.

  Cache entries, arrays of slots, parent records and LRU entries live in heaps; the free ones are lists, as in
  \<open>Stuff_Alloc\<close>. A NULL dereference and an endless walk are the result \<open>None\<close>. Handles and attributes belong to
  the file system below and are type parameters. The state is that of one worker: its pools, its LRU list
  and the shared cache. \<open>now\<close> is what \<^verbatim>\<open>time\<close> returns during a call, \<open>full_debug\<close> says that the full debug trace is on,
  \<open>sizeof_entry\<close> is the size of a \<^verbatim>\<open>cache_entry_t\<close>.
\<close>

section \<open>Data\<close>

text \<open>\<^verbatim>\<open>fsal_name_t\<close>, a name with its length.\<close>

record fsal_name =
  fsal_chars :: "255 cstr"
  fsal_len :: u32

definition FSAL_MAX_NAME_LEN :: nat where
  "FSAL_MAX_NAME_LEN = 255"

definition FSAL_namecmp :: "fsal_name \<Rightarrow> fsal_name \<Rightarrow> int" where
  "FSAL_namecmp a b = strncmp (bytes_of (fsal_chars a)) (bytes_of (fsal_chars b)) FSAL_MAX_NAME_LEN"

text \<open>The target is a field of a structure; the source may be NULL.\<close>

definition FSAL_namecpy :: "fsal_name \<Rightarrow> fsal_name option \<Rightarrow> fsal_error \<times> fsal_name" where
  "FSAL_namecpy tgt src =
     (case src of
        None \<Rightarrow> (ERR_FSAL_FAULT, tgt)
      | Some s \<Rightarrow> (ERR_FSAL_NO_ERROR, tgt\<lparr>fsal_chars := fsal_chars s, fsal_len := fsal_len s\<rparr>))"

definition FSAL_str2name :: "u8 list \<Rightarrow> nat \<Rightarrow> fsal_name \<Rightarrow> fsal_error \<times> fsal_name" where
  "FSAL_str2name string in_str_maxlen tgt =
     (let s = takeWhile (\<lambda>c. c \<noteq> 0) (take in_str_maxlen string) in
      if FSAL_MAX_NAME_LEN \<le> length s then (ERR_FSAL_NAMETOOLONG, tgt)
      else (ERR_FSAL_NO_ERROR, tgt\<lparr>fsal_chars := cstr s, fsal_len := of_nat (length s)\<rparr>))"

datatype endofdir = TO_BE_CONTINUED | END_OF_DIR | UNASSIGNED_EOD
datatype entry_valid_state = VALID | INVALID
datatype inode_flag = CACHE_INODE_YES | CACHE_INODE_NO | CACHE_INODE_RENEW_NEEDED
datatype dirent_op = CACHE_INODE_DIRENT_OP_LOOKUP | CACHE_INODE_DIRENT_OP_REMOVE | CACHE_INODE_DIRENT_OP_RENAME
datatype inode_op = CACHE_INODE_OP_GET | CACHE_INODE_OP_SET

definition CHILDREN_ARRAY_SIZE :: nat where
  "CHILDREN_ARRAY_SIZE = 16"

record dir_entry =
  active :: entry_valid_state
  de_pentry :: ptr
  de_name :: fsal_name

record ('h, 'a) dir_begin =
  db_handle :: 'h
  db_attributes :: 'a
  db_end_of_dir :: endofdir
  db_pdir_cont :: ptr
  db_pdir_last :: ptr
  db_nbactive :: u32
  db_nbdircont :: u32
  has_been_readdir :: inode_flag
  referral :: ptr
  db_pdir_data :: ptr

record dir_cont =
  dc_pdir_begin :: ptr
  dc_pdir_cont :: ptr
  dc_pdir_prev :: ptr
  dc_end_of_dir :: endofdir
  dc_nbactive :: u32
  dir_cont_pos :: u32
  dc_pdir_data :: ptr

record internal_md =
  md_type :: cache_inode_file_type
  md_valid_state :: entry_valid_state
  read_time :: int
  mod_time :: int
  refresh_time :: int
  alloc_time :: int

text \<open>
  \<^verbatim>\<open>cache_entry_t\<close> with the two members for directories of its union \<^verbatim>\<open>object\<close> side by side; the code reads the one that the type
  of the entry names. Of entries that are no directories the functions here use \<open>internal_md\<close> and \<open>parent_list\<close>.
\<close>

record ('h, 'a) centry =
  dir_begin :: "('h, 'a) dir_begin"
  dir_cont :: dir_cont
  entry_lock :: rw_lock
  internal_md :: internal_md
  gc_lru_entry :: ptr
  gc_lru :: ptr
  parent_list :: ptr

record parent_entry =
  subdirpos :: u32
  parent :: ptr
  next_parent :: ptr

text \<open>The counters of \<^verbatim>\<open>cache_inode_stat_t\<close> that these functions change, at index \<^verbatim>\<open>CACHE_INODE_NEW_ENTRY\<close>.\<close>

record inode_stat =
  nb_call_total :: u32
  ne_nb_call :: u32
  ne_nb_success :: u32
  ne_nb_err_retryable :: u32
  ne_nb_err_unrecover :: u32

record ('h, 'a) inode_store =
  ic_mem :: mem
  ic_ht :: "('h \<times> u32, addr) hash_table"
  ents :: "addr \<Rightarrow> ('h, 'a) centry"
  dir_datas :: "addr \<Rightarrow> dir_entry list"
  parents :: "addr \<Rightarrow> parent_entry"
  lru_heap :: lru_heap
  lru_gc :: addr
  lru_gc_list :: "unit lru_list"
  pool_entry :: "addr list"
  pool_dir_data :: "addr list"
  pool_parent :: "addr list"
  pool_key :: "addr list"
  nb_prealloc :: u32
  nb_pre_dir_data :: u32
  nb_pre_parent :: u32
  ic_stat :: inode_stat
  call_since_last_gc :: u32
  sizeof_entry :: u64
  full_debug :: bool

section \<open>Access to the fields\<close>

text \<open>
  The code treats the two kinds of directory entries in branches that differ only in the member they use; these are the fields
  the branches read and write. Every type that is not \<^verbatim>\<open>DIR_BEGINNING\<close> goes to the branch of the \<^verbatim>\<open>DIR_CONTINUE\<close>.
\<close>

definition is_begin :: "('h, 'a) centry \<Rightarrow> bool" where
  "is_begin e \<longleftrightarrow> md_type (internal_md e) = DIR_BEGINNING"

definition is_dir :: "('h, 'a) centry \<Rightarrow> bool" where
  "is_dir e \<longleftrightarrow> md_type (internal_md e) = DIR_BEGINNING \<or> md_type (internal_md e) = DIR_CONTINUE"

definition end_of_dir :: "('h, 'a) centry \<Rightarrow> endofdir" where
  "end_of_dir e = (if is_begin e then db_end_of_dir (dir_begin e) else dc_end_of_dir (dir_cont e))"

definition pdir_cont :: "('h, 'a) centry \<Rightarrow> ptr" where
  "pdir_cont e = (if is_begin e then db_pdir_cont (dir_begin e) else dc_pdir_cont (dir_cont e))"

definition pdir_data :: "('h, 'a) centry \<Rightarrow> ptr" where
  "pdir_data e = (if is_begin e then db_pdir_data (dir_begin e) else dc_pdir_data (dir_cont e))"

definition nbactive :: "('h, 'a) centry \<Rightarrow> u32" where
  "nbactive e = (if is_begin e then db_nbactive (dir_begin e) else dc_nbactive (dir_cont e))"

definition set_nbactive :: "u32 \<Rightarrow> ('h, 'a) centry \<Rightarrow> ('h, 'a) centry" where
  "set_nbactive n e =
     (if is_begin e then e\<lparr>dir_begin := (dir_begin e)\<lparr>db_nbactive := n\<rparr>\<rparr>
      else e\<lparr>dir_cont := (dir_cont e)\<lparr>dc_nbactive := n\<rparr>\<rparr>)"

definition upd_ent :: "addr \<Rightarrow> (('h, 'a) centry \<Rightarrow> ('h, 'a) centry) \<Rightarrow> ('h, 'a) inode_store \<Rightarrow> ('h, 'a) inode_store" where
  "upd_ent p f st = st\<lparr>ents := (ents st)(p := f (ents st p))\<rparr>"

definition upd_slot :: "addr \<Rightarrow> nat \<Rightarrow> (dir_entry \<Rightarrow> dir_entry) \<Rightarrow> ('h, 'a) inode_store \<Rightarrow> ('h, 'a) inode_store" where
  "upd_slot d i f st = st\<lparr>dir_datas := (dir_datas st)(d := (dir_datas st d)[i := f (dir_datas st d ! i)])\<rparr>"

definition upd_parent :: "addr \<Rightarrow> (parent_entry \<Rightarrow> parent_entry) \<Rightarrow> ('h, 'a) inode_store \<Rightarrow> ('h, 'a) inode_store" where
  "upd_parent p f st = st\<lparr>parents := (parents st)(p := f (parents st p))\<rparr>"

definition upd_stat :: "(inode_stat \<Rightarrow> inode_stat) \<Rightarrow> ('h, 'a) inode_store \<Rightarrow> ('h, 'a) inode_store" where
  "upd_stat f st = st\<lparr>ic_stat := f (ic_stat st)\<rparr>"

definition err_unrecover :: "('h, 'a) inode_store \<Rightarrow> ('h, 'a) inode_store" where
  "err_unrecover = upd_stat (\<lambda>s. s\<lparr>ne_nb_err_unrecover := ne_nb_err_unrecover s + 1\<rparr>)"

definition err_retryable :: "('h, 'a) inode_store \<Rightarrow> ('h, 'a) inode_store" where
  "err_retryable = upd_stat (\<lambda>s. s\<lparr>ne_nb_err_retryable := ne_nb_err_retryable s + 1\<rparr>)"

definition release_entry :: "addr \<Rightarrow> ('h, 'a) inode_store \<Rightarrow> ('h, 'a) inode_store" where
  "release_entry p st = st\<lparr>pool_entry := RELEASE_PREALLOC p (pool_entry st)\<rparr>"

section \<open>The hash table of the cache\<close>

text \<open>The comparison and the hash functions of the file system are arguments.\<close>

definition cache_inode_compare_key_fsal :: "('h \<Rightarrow> 'h \<Rightarrow> int) \<Rightarrow> ('h \<times> u32) option \<Rightarrow> ('h \<times> u32) option \<Rightarrow> int" where
  "cache_inode_compare_key_fsal handlecmp buff1 buff2 =
     (case buff1 of
        None \<Rightarrow> if buff2 = None then 0 else 1
      | Some (h1, c1) \<Rightarrow>
          (case buff2 of
             None \<Rightarrow> - 1
           | Some (h2, c2) \<Rightarrow> if handlecmp h1 h2 = 0 \<and> c1 = c2 then 0 else 1))"

definition cache_inode_fsal_hash_func :: "('h \<Rightarrow> u32 \<Rightarrow> u32 \<Rightarrow> u32 \<Rightarrow> u64) \<Rightarrow> hash_dims \<Rightarrow> 'h \<times> u32 \<Rightarrow> u64" where
  "cache_inode_fsal_hash_func to_hash d key = to_hash (fst key) (snd key) (alphabet_length d) (index_size d)"

definition cache_inode_fsal_rbt_func :: "('h \<Rightarrow> u32 \<Rightarrow> u64) \<Rightarrow> hash_dims \<Rightarrow> 'h \<times> u32 \<Rightarrow> u64" where
  "cache_inode_fsal_rbt_func to_rbt d key = to_rbt (fst key) (snd key)"

text \<open>
  A key for a lookup is the caller's \<open>pfsdata\<close>, at address \<open>local\<close>; a key for an insertion (\<open>keep\<close>, \<^verbatim>\<open>pclient\<close> not NULL) is a copy of it in a
  record of the pool. The result is the return code and \<open>pkey->pdata\<close>.
\<close>

definition cache_inode_fsaldata_2_key :: "ptr \<Rightarrow> addr \<Rightarrow> bool \<Rightarrow> ('h, 'a) inode_store \<Rightarrow> int \<times> ptr \<times> ('h, 'a) inode_store" where
  "cache_inode_fsaldata_2_key pkey local keep st =
     (if keep then
        (case GET_PREALLOC (nb_prealloc st) (pool_key st) (ic_mem st) of
           (r, pool, m) \<Rightarrow>
             let st = st\<lparr>pool_key := pool, ic_mem := m\<rparr> in
             (case r of None \<Rightarrow> (1, pkey, st) | Some p \<Rightarrow> (0, Some p, st)))
      else (0, Some local, st))"

definition cache_inode_release_fsaldata_key :: "ptr \<Rightarrow> ('h, 'a) inode_store \<Rightarrow> ('h, 'a) inode_store option" where
  "cache_inode_release_fsaldata_key pkey st =
     (case pkey of None \<Rightarrow> None | Some p \<Rightarrow> Some (st\<lparr>pool_key := RELEASE_PREALLOC p (pool_key st)\<rparr>))"

section \<open>Entries and the LRU list\<close>

definition lru_inode_clean_entry :: "unit lru_callback" where
  "lru_inode_clean_entry d w = Some (0, w)"

text \<open>
  \<^verbatim>\<open>cache_inode_valid\<close> for directories; the branch for regular files, which closes file descriptors, is left out. A worker has
  one LRU list, so \<open>gc_lru\<close> is NULL or that list.
\<close>

definition lru_append :: "addr \<Rightarrow> ('h, 'a) inode_store \<Rightarrow> bool \<times> ptr \<times> ('h, 'a) inode_store" where
  "lru_append pentry st =
     (case LRU_new_entry (lru_gc_list st) (lru_heap st) (ic_mem st) of
        (_, None, l, h, m) \<Rightarrow> (False, None, st\<lparr>lru_gc_list := l, lru_heap := h, ic_mem := m\<rparr>)
      | (_, Some q, l, h, m) \<Rightarrow>
          (True, Some q,
           st\<lparr>lru_gc_list := l, lru_heap := h(q := (h q)\<lparr>buffdata := \<lparr>pdata = Some pentry, len = sizeof_entry st\<rparr>\<rparr>), ic_mem := m\<rparr>))"

definition lru_drop :: "addr \<Rightarrow> ('h, 'a) inode_store \<Rightarrow> bool \<times> ('h, 'a) inode_store" where
  "lru_drop pentry st =
     (case (gc_lru (ents st pentry), gc_lru_entry (ents st pentry)) of
        (Some _, Some q) \<Rightarrow>
          (case LRU_invalidate (lru_gc_list st) q (lru_heap st) of
             (rc, l, h) \<Rightarrow> (rc = LRU_LIST_SUCCESS, st\<lparr>lru_gc_list := l, lru_heap := h\<rparr>))
      | _ \<Rightarrow> (True, st))"

definition lru_collect :: "('h, 'a) inode_store \<Rightarrow> (bool \<times> ('h, 'a) inode_store) option" where
  "lru_collect st = do {
     (rc, l, h, w) \<leftarrow> LRU_gc_invalid (Some (lru_gc_list st)) (lru_heap st) ();
     l \<leftarrow> l;
     Some (rc = LRU_LIST_SUCCESS, st\<lparr>lru_gc_list := l, lru_heap := h\<rparr>) }"

definition touch_md :: "inode_op \<Rightarrow> int \<Rightarrow> internal_md \<Rightarrow> internal_md" where
  "touch_md op now md =
     (let md = md\<lparr>md_valid_state := VALID\<rparr> in
      case op of
        CACHE_INODE_OP_GET \<Rightarrow> md\<lparr>read_time := now\<rparr>
      | CACHE_INODE_OP_SET \<Rightarrow> md\<lparr>mod_time := now, refresh_time := now\<rparr>)"

partial_function (option) cache_inode_valid ::
  "ptr \<Rightarrow> inode_op \<Rightarrow> int \<Rightarrow> ('h, 'a) inode_store \<Rightarrow> (cache_inode_status \<times> ('h, 'a) inode_store) option" where
  "cache_inode_valid pentry op now st =
     (case pentry of
        None \<Rightarrow> Some (CACHE_INODE_INVALID_ARGUMENT, st)
      | Some p \<Rightarrow>
          if md_type (internal_md (ents st p)) = DIR_CONTINUE then
            cache_inode_valid (dc_pdir_begin (dir_cont (ents st p))) op now st
          else
            (case lru_drop p st of
               (False, st) \<Rightarrow> Some (CACHE_INODE_LRU_ERROR, release_entry p st)
             | (True, st) \<Rightarrow>
                 (case lru_append p st of
                    (False, _, st) \<Rightarrow> Some (CACHE_INODE_LRU_ERROR, release_entry p st)
                  | (True, q, st) \<Rightarrow>
                      let st = upd_ent p (\<lambda>e. e\<lparr>gc_lru := Some (lru_gc st), gc_lru_entry := q,
                                  internal_md := touch_md op now (internal_md e)\<rparr>) st;
                          st = st\<lparr>call_since_last_gc := call_since_last_gc st + 1\<rparr>
                      in Option.bind (lru_collect st) (\<lambda>(good, st).
                           Some (if good then CACHE_INODE_SUCCESS else CACHE_INODE_LRU_ERROR, st)))))"

section \<open>New entries\<close>

text \<open>
  \<^verbatim>\<open>cache_inode_new_entry\<close> for the two types of directory entries: a \<^verbatim>\<open>DIR_BEGINNING\<close> with the attributes that the caller
  provides, or a \<^verbatim>\<open>DIR_CONTINUE\<close> after \<open>pentry_dir_prev\<close>. \<open>local\<close> is the address of the caller's \<open>pfsdata\<close>,
  \<open>codes\<close> are the results of the pthread initialisers of the new lock.
\<close>

datatype 'a new_dir = New_begin 'a | New_continue addr

definition empty_slot :: "dir_entry \<Rightarrow> dir_entry" where
  "empty_slot s = s\<lparr>active := INVALID, de_pentry := None, de_name := snd (FSAL_str2name [0] 1 (de_name s))\<rparr>"

definition new_md :: "cache_inode_file_type \<Rightarrow> int \<Rightarrow> internal_md" where
  "new_md ty now = \<lparr>md_type = ty, md_valid_state = VALID, read_time = 0, mod_time = now, refresh_time = now, alloc_time = now\<rparr>"

text \<open>The part before the \<^verbatim>\<open>switch\<close>: allocation and the lock. The result is the entry and its array, or a status.\<close>

definition new_entry_alloc ::
  "pthread_codes \<Rightarrow> bool \<Rightarrow> ('h, 'a) inode_store \<Rightarrow> (cache_inode_status + addr \<times> addr) \<times> ('h, 'a) inode_store" where
  "new_entry_alloc codes begins st =
     (case GET_PREALLOC (nb_prealloc st) (pool_entry st) (ic_mem st) of
        (r, pool, m) \<Rightarrow>
          let st = st\<lparr>pool_entry := pool, ic_mem := m\<rparr> in
          (case r of
             None \<Rightarrow> (Inl CACHE_INODE_MALLOC_ERROR, err_unrecover st)
           | Some p \<Rightarrow>
               (case GET_PREALLOC (nb_pre_dir_data st) (pool_dir_data st) (ic_mem st) of
                  (r, pool, m) \<Rightarrow>
                    let st = st\<lparr>pool_dir_data := pool, ic_mem := m\<rparr> in
                    (case r of
                       None \<Rightarrow> (Inl CACHE_INODE_MALLOC_ERROR, err_unrecover st)
                     | Some d \<Rightarrow>
                         let st = upd_ent p (\<lambda>e.
                               if begins then e\<lparr>dir_begin := (dir_begin e)\<lparr>db_pdir_data := Some d\<rparr>\<rparr>
                               else e\<lparr>dir_cont := (dir_cont e)\<lparr>dc_pdir_data := Some d\<rparr>\<rparr>) st;
                             (rc, lock) = rw_lock_init codes (entry_lock (ents st p));
                             st = upd_ent p (\<lambda>e. e\<lparr>entry_lock := lock\<rparr>) st
                         in if rc \<noteq> 0 then (Inl CACHE_INODE_INIT_ENTRY_FAILED, err_retryable (release_entry p st))
                            else (Inr (p, d), st)))))"

definition init_begin :: "'h \<Rightarrow> 'a \<Rightarrow> addr \<Rightarrow> ('h, 'a) dir_begin \<Rightarrow> ('h, 'a) dir_begin" where
  "init_begin handle attr p b =
     b\<lparr>db_handle := handle, db_attributes := attr, has_been_readdir := CACHE_INODE_NO, db_end_of_dir := END_OF_DIR,
       db_pdir_cont := None, db_pdir_last := Some p, db_nbactive := 0, db_nbdircont := 0, referral := None\<rparr>"

text \<open>The \<^verbatim>\<open>switch\<close> on the type, for the entry \<open>p\<close> with the array \<open>d\<close>; \<open>False\<close> is the error of a \<open>pentry_dir_prev\<close> that is no directory.\<close>

definition new_entry_init ::
  "'h \<Rightarrow> 'a new_dir \<Rightarrow> int \<Rightarrow> addr \<Rightarrow> addr \<Rightarrow> ('h, 'a) inode_store \<Rightarrow> bool \<times> ('h, 'a) inode_store" where
  "new_entry_init handle kind now p d st =
     (case kind of
        New_begin attr \<Rightarrow>
          let st = upd_ent p (\<lambda>e. e\<lparr>internal_md := new_md DIR_BEGINNING now, gc_lru_entry := None, gc_lru := None,
                parent_list := None, dir_begin := init_begin handle attr p (dir_begin e)\<rparr>) st
          in (True, st\<lparr>dir_datas := (dir_datas st)(d := map empty_slot (dir_datas st d))\<rparr>)
      | New_continue prev \<Rightarrow>
          let st = upd_ent p (\<lambda>e. e\<lparr>internal_md := new_md DIR_CONTINUE now, gc_lru_entry := None, gc_lru := None,
                parent_list := None, dir_cont := (dir_cont e)\<lparr>dc_end_of_dir := END_OF_DIR, dc_pdir_cont := None,
                  dc_pdir_prev := Some prev\<rparr>\<rparr>) st;
              pe = ents st prev
          in if md_type (internal_md pe) = DIR_BEGINNING \<or> md_type (internal_md pe) = DIR_CONTINUE then
               let (b, pos) = (if md_type (internal_md pe) = DIR_BEGINNING then (Some prev, 1)
                               else (dc_pdir_begin (dir_cont pe), dir_cont_pos (dir_cont pe) + 1));
                   st = upd_ent p (\<lambda>e. e\<lparr>dir_cont := (dir_cont e)\<lparr>dc_pdir_begin := b, dir_cont_pos := pos,
                          dc_nbactive := 0\<rparr>\<rparr>) st
               in (True, st\<lparr>dir_datas := (dir_datas st)(d := map empty_slot (dir_datas st d))\<rparr>)
             else (False, err_unrecover (release_entry p st)))"

text \<open>The part after the \<^verbatim>\<open>switch\<close>: the entry gets into the hash table and the LRU list.\<close>

definition new_entry_publish ::
  "'h \<times> u32 \<Rightarrow> ptr \<Rightarrow> addr \<Rightarrow> int \<Rightarrow> addr \<Rightarrow> ('h, 'a) inode_store \<Rightarrow> (ptr \<times> cache_inode_status \<times> ('h, 'a) inode_store) option" where
  "new_entry_publish fsdata key local now p st =
     (case cache_inode_fsaldata_2_key key local True st of
        (rc, key, st) \<Rightarrow>
          if rc \<noteq> 0 then do {
            st \<leftarrow> cache_inode_release_fsaldata_key key (err_unrecover st);
            Some (None, CACHE_INODE_UNAPPROPRIATED_KEY, st) }
          else do {
            (rc, m, ht) \<leftarrow> HashTable_Test_And_Set (ic_mem st) (ic_ht st) fsdata p HASHTABLE_SET_HOW_SET_NO_OVERWRITE;
            let st = st\<lparr>ic_mem := m, ic_ht := ht\<rparr>;
            if rc \<noteq> HASHTABLE_SUCCESS then Some (None, CACHE_INODE_HASH_SET_ERROR, err_unrecover (release_entry p st))
            else (case P_w (entry_lock (ents st p)) of
                    Blocks l \<Rightarrow> None
                  | Returns l \<Rightarrow> do {
                      let st = upd_ent p (\<lambda>e. e\<lparr>entry_lock := l\<rparr>) st;
                      (status, st) \<leftarrow> cache_inode_valid (Some p) CACHE_INODE_OP_GET now st;
                      let st = upd_ent p (\<lambda>e. e\<lparr>entry_lock := fst (V_w (entry_lock e))\<rparr>) st;
                      Some (Some p, CACHE_INODE_SUCCESS, upd_stat (\<lambda>s. s\<lparr>ne_nb_success := ne_nb_success s + 1\<rparr>) st) }) })"

definition cache_inode_new_entry ::
  "pthread_codes \<Rightarrow> 'h \<times> u32 \<Rightarrow> addr \<Rightarrow> 'a new_dir \<Rightarrow> int \<Rightarrow> ('h, 'a) inode_store \<Rightarrow>
   (ptr \<times> cache_inode_status \<times> ('h, 'a) inode_store) option" where
  "cache_inode_new_entry codes fsdata local kind now st =
     (let st = upd_stat (\<lambda>s. s\<lparr>nb_call_total := nb_call_total s + 1, ne_nb_call := ne_nb_call s + 1\<rparr>) st in
      case cache_inode_fsaldata_2_key None local False st of
        (rc, key, st) \<Rightarrow>
          if rc \<noteq> 0 then do {
            st \<leftarrow> cache_inode_release_fsaldata_key key (err_unrecover st);
            Some (None, CACHE_INODE_UNAPPROPRIATED_KEY, st) }
          else do {
            (rc, found, ht) \<leftarrow> HashTable_Get (ic_ht st) fsdata;
            let st = st\<lparr>ic_ht := ht\<rparr>;
            if rc = HASHTABLE_SUCCESS then Some (found, CACHE_INODE_ENTRY_EXISTS, err_retryable st)
            else (case new_entry_alloc codes (case kind of New_begin _ \<Rightarrow> True | New_continue _ \<Rightarrow> False) st of
                    (Inl status, st) \<Rightarrow> Some (None, status, st)
                  | (Inr (p, d), st) \<Rightarrow>
                      (case new_entry_init (fst fsdata) kind now p d st of
                         (False, st) \<Rightarrow> Some (None, CACHE_INODE_NOT_A_DIRECTORY, st)
                       | (True, st) \<Rightarrow> new_entry_publish fsdata key local now p st)) })"

section \<open>Operations on directories\<close>

text \<open>
  The loop over the slots of one array: the first slot that is active, whose entry is valid and that has the name. With the
  full debug trace on, the loop of a \<^verbatim>\<open>DIR_BEGINNING\<close> reads through the pointer of every slot it looks at (\<open>trace\<close>).
\<close>

fun find_slot :: "bool \<Rightarrow> (addr \<Rightarrow> ('h, 'a) centry) \<Rightarrow> fsal_name \<Rightarrow> dir_entry list \<Rightarrow> nat \<Rightarrow> (addr \<times> nat) option option" where
  "find_slot trace es pname [] i = Some None"
| "find_slot trace es pname (s # ss) i =
     (case de_pentry s of
        None \<Rightarrow> if trace \<or> active s = VALID then None else find_slot trace es pname ss (Suc i)
      | Some p \<Rightarrow>
          if active s = VALID \<and> md_valid_state (internal_md (es p)) = VALID \<and> FSAL_namecmp pname (de_name s) = 0
          then Some (Some (p, i))
          else find_slot trace es pname ss (Suc i))"

partial_function (option) find_dirent ::
  "fsal_name \<Rightarrow> ptr \<Rightarrow> ('h, 'a) inode_store \<Rightarrow> (addr \<times> addr \<times> nat) option option" where
  "find_dirent pname pdir_chain st =
     (case pdir_chain of
        None \<Rightarrow> None
      | Some c \<Rightarrow>
          let e = ents st c in
          Option.bind (pdir_data e) (\<lambda>d.
          Option.bind (find_slot (full_debug st \<and> is_begin e) (ents st) pname (dir_datas st d) 0) (\<lambda>r.
            case r of
              Some (p, i) \<Rightarrow> Some (Some (p, c, i))
            | None \<Rightarrow> if end_of_dir e = END_OF_DIR then Some None else find_dirent pname (pdir_cont e) st)))"

definition cache_inode_operate_cached_dirent ::
  "addr \<Rightarrow> fsal_name \<Rightarrow> fsal_name option \<Rightarrow> dirent_op \<Rightarrow> ('h, 'a) inode_store \<Rightarrow>
   (ptr \<times> cache_inode_status \<times> ('h, 'a) inode_store) option" where
  "cache_inode_operate_cached_dirent pentry_parent pname newname dirent_op st =
     (if \<not> is_dir (ents st pentry_parent) then Some (None, CACHE_INODE_BAD_TYPE, st)
      else Option.bind (find_dirent pname (Some pentry_parent) st) (\<lambda>r.
        case r of
          None \<Rightarrow> Some (None, CACHE_INODE_NOT_FOUND, st)
        | Some (p, c, i) \<Rightarrow>
            (case dirent_op of
               CACHE_INODE_DIRENT_OP_REMOVE \<Rightarrow>
                 if is_dir (ents st c) then
                   Option.bind (pdir_data (ents st c)) (\<lambda>d.
                     let st = upd_slot d i (\<lambda>s. s\<lparr>active := INVALID\<rparr>) st
                     in Some (Some p, CACHE_INODE_SUCCESS, upd_ent c (\<lambda>e. set_nbactive (nbactive e - 1) e) st))
                 else Some (Some p, CACHE_INODE_INVALID_ARGUMENT, st)
             | CACHE_INODE_DIRENT_OP_RENAME \<Rightarrow>
                 Option.bind (pdir_data (ents st c)) (\<lambda>d.
                   case FSAL_namecpy (de_name (dir_datas st d ! i)) newname of
                     (fsal_status, nm) \<Rightarrow>
                       let st = upd_slot d i (\<lambda>s. s\<lparr>de_name := nm\<rparr>) st
                       in Some (Some p, if fsal_status \<noteq> ERR_FSAL_NO_ERROR then cache_inode_error_convert fsal_status
                                else CACHE_INODE_SUCCESS, st))
             | CACHE_INODE_DIRENT_OP_LOOKUP \<Rightarrow> Some (Some p, CACHE_INODE_INVALID_ARGUMENT, st))))"

text \<open>The search for a free slot: one is found, the chain has an entry that is no directory, or the last entry has no free slot.\<close>

datatype free_slot = Free addr nat | Not_dir | Full addr

definition slot_free :: "dir_entry \<Rightarrow> bool" where
  "slot_free s \<longleftrightarrow> active s = INVALID \<or> de_pentry s = None"

fun first_free :: "dir_entry list \<Rightarrow> nat \<Rightarrow> nat option" where
  "first_free [] i = None"
| "first_free (s # ss) i = (if slot_free s then Some i else first_free ss (Suc i))"

partial_function (option) find_free_slot :: "ptr \<Rightarrow> ('h, 'a) inode_store \<Rightarrow> free_slot option" where
  "find_free_slot pdir_chain st =
     (case pdir_chain of
        None \<Rightarrow> None
      | Some c \<Rightarrow>
          let e = ents st c in
          if \<not> is_dir e then Some Not_dir
          else Option.bind (if nbactive e \<noteq> of_nat CHILDREN_ARRAY_SIZE
                            then Option.bind (pdir_data e) (\<lambda>d. Some (first_free (dir_datas st d) 0)) else Some None) (\<lambda>r.
            case r of
              Some i \<Rightarrow> Some (Free c i)
            | None \<Rightarrow> if end_of_dir e = END_OF_DIR then Some (Full c) else find_free_slot (pdir_cont e) st))"

text \<open>A full chain, whose last entry is \<open>c\<close>: the \<^verbatim>\<open>DIR_CONTINUE\<close> that follows it is used again or made.\<close>

definition chain_fsdata :: "addr \<Rightarrow> ('h, 'a) inode_store \<Rightarrow> ('h \<times> u32) option" where
  "chain_fsdata c st =
     (if is_begin (ents st c) then Some (db_handle (dir_begin (ents st c)), 1)
      else map_option (\<lambda>b. (db_handle (dir_begin (ents st b)), dir_cont_pos (dir_cont (ents st c)) + 1))
             (dc_pdir_begin (dir_cont (ents st c))))"

definition chain_link :: "addr \<Rightarrow> addr \<Rightarrow> ('h, 'a) inode_store \<Rightarrow> ('h, 'a) inode_store option" where
  "chain_link c n st =
     (if is_begin (ents st c) then
        Some (upd_ent c (\<lambda>e. e\<lparr>dir_begin := (dir_begin e)\<lparr>db_pdir_cont := Some n, db_pdir_last := Some n,
               db_end_of_dir := TO_BE_CONTINUED, db_nbdircont := db_nbdircont (dir_begin e) + 1\<rparr>\<rparr>) st)
      else
        (let st = upd_ent c (\<lambda>e. e\<lparr>dir_cont := (dir_cont e)\<lparr>dc_pdir_cont := Some n, dc_end_of_dir := TO_BE_CONTINUED\<rparr>\<rparr>) st
         in map_option (\<lambda>b. upd_ent b (\<lambda>e. e\<lparr>dir_begin := (dir_begin e)\<lparr>db_pdir_last := Some n,
              db_nbdircont := db_nbdircont (dir_begin e) + 1\<rparr>\<rparr>) st)
            (dc_pdir_begin (dir_cont (ents st c)))))"

definition chain_extend ::
  "pthread_codes \<Rightarrow> addr \<Rightarrow> int \<Rightarrow> addr \<Rightarrow> ('h, 'a) inode_store \<Rightarrow> (ptr \<times> cache_inode_status \<times> ('h, 'a) inode_store) option" where
  "chain_extend codes local now c st = do {
     fsdata \<leftarrow> chain_fsdata c st;
     (pentry, status, st) \<leftarrow>
       (case pdir_cont (ents st c) of
          Some n \<Rightarrow> Some (Some n, CACHE_INODE_SUCCESS, st)
        | None \<Rightarrow> cache_inode_new_entry codes fsdata local (New_continue c) now st);
     case pentry of
       None \<Rightarrow> Some (None, status, st)
     | Some n \<Rightarrow> do { st \<leftarrow> chain_link c n st; Some (Some n, CACHE_INODE_SUCCESS, st) } }"

text \<open>
  The rest of \<^verbatim>\<open>cache_inode_add_cached_dirent\<close>: slot \<open>i\<close> of \<open>pentry\<close> is filled. The results are the status and what is stored
  to \<open>ppentry_next\<close>, if anything.
\<close>

definition fill_slot ::
  "fsal_name option \<Rightarrow> addr \<Rightarrow> addr \<Rightarrow> nat \<Rightarrow> ('h, 'a) inode_store \<Rightarrow> (cache_inode_status \<times> ptr \<times> ('h, 'a) inode_store) option" where
  "fill_slot pname pentry_added pentry i st =
     (case GET_PREALLOC (nb_pre_parent st) (pool_parent st) (ic_mem st) of
        (r, pool, m) \<Rightarrow>
          let st = st\<lparr>pool_parent := pool, ic_mem := m\<rparr> in
          (case r of
             None \<Rightarrow> Some (CACHE_INODE_MALLOC_ERROR, None, st)
           | Some q \<Rightarrow> do {
               let st = upd_parent q (\<lambda>r. \<lparr>subdirpos = 0, parent = None, next_parent = None\<rparr>) st;
               let st = upd_ent pentry (\<lambda>e. set_nbactive (nbactive e + 1) e) st;
               d \<leftarrow> pdir_data (ents st pentry);
               let st = upd_slot d i (\<lambda>s. s\<lparr>active := VALID, de_pentry := Some pentry_added\<rparr>) st;
               let (fsal_status, nm) = FSAL_namecpy (de_name (dir_datas st d ! i)) pname;
               let st = upd_slot d i (\<lambda>s. s\<lparr>de_name := nm\<rparr>) st;
               if fsal_status \<noteq> ERR_FSAL_NO_ERROR
               then Some (CACHE_INODE_FSAL_ERROR, None, upd_ent pentry (\<lambda>e. set_nbactive (nbactive e - 1) e) st)
               else
                 let st = upd_parent q (\<lambda>r. \<lparr>subdirpos = of_nat i, parent = Some pentry,
                            next_parent = parent_list (ents st pentry_added)\<rparr>) st;
                     st = upd_ent pentry_added (\<lambda>e. e\<lparr>parent_list := Some q\<rparr>) st
                 in Some (CACHE_INODE_SUCCESS, Some pentry, st) }))"

definition cache_inode_add_cached_dirent ::
  "pthread_codes \<Rightarrow> addr \<Rightarrow> int \<Rightarrow> addr \<Rightarrow> fsal_name option \<Rightarrow> addr \<Rightarrow> ('h, 'a) inode_store \<Rightarrow>
   (cache_inode_status \<times> ptr \<times> ('h, 'a) inode_store) option" where
  "cache_inode_add_cached_dirent codes local now pentry_parent pname pentry_added st =
     (if \<not> is_dir (ents st pentry_parent) then Some (CACHE_INODE_BAD_TYPE, None, st)
      else do {
        r \<leftarrow> find_free_slot (Some pentry_parent) st;
        case r of
          Not_dir \<Rightarrow> Some (CACHE_INODE_BAD_TYPE, None, st)
        | Free c i \<Rightarrow> fill_slot pname pentry_added c i st
        | Full c \<Rightarrow> do {
            (pentry, status, st) \<leftarrow> chain_extend codes local now c st;
            case pentry of
              None \<Rightarrow> Some (status, None, st)
            | Some n \<Rightarrow> fill_slot pname pentry_added n 0 st } })"

definition clear_slots :: "addr \<Rightarrow> ('h, 'a) inode_store \<Rightarrow> ('h, 'a) inode_store" where
  "clear_slots d st = st\<lparr>dir_datas := (dir_datas st)(d := map (\<lambda>s. s\<lparr>active := INVALID\<rparr>) (dir_datas st d))\<rparr>"

partial_function (option) invalidate_conts :: "ptr \<Rightarrow> ('h, 'a) inode_store \<Rightarrow> ('h, 'a) inode_store option" where
  "invalidate_conts pentry st =
     (case pentry of
        None \<Rightarrow> Some st
      | Some c \<Rightarrow>
          Option.bind (dc_pdir_data (dir_cont (ents st c))) (\<lambda>d.
          let st = upd_ent c (\<lambda>e. e\<lparr>dir_cont := (dir_cont e)\<lparr>dc_nbactive := 0\<rparr>\<rparr>) (clear_slots d st)
          in invalidate_conts (dc_pdir_cont (dir_cont (ents st c))) st))"

definition cache_inode_invalidate_all_cached_dirent ::
  "addr \<Rightarrow> ('h, 'a) inode_store \<Rightarrow> (cache_inode_status \<times> ('h, 'a) inode_store) option" where
  "cache_inode_invalidate_all_cached_dirent pentry_dir st =
     (if \<not> is_begin (ents st pentry_dir) then Some (CACHE_INODE_BAD_TYPE, st)
      else do {
        d \<leftarrow> db_pdir_data (dir_begin (ents st pentry_dir));
        let st = upd_ent pentry_dir (\<lambda>e. e\<lparr>dir_begin := (dir_begin e)\<lparr>db_nbactive := 0\<rparr>\<rparr>) (clear_slots d st);
        st \<leftarrow> invalidate_conts (db_pdir_cont (dir_begin (ents st pentry_dir))) st;
        let st = upd_ent pentry_dir (\<lambda>e. e\<lparr>dir_begin := (dir_begin e)\<lparr>has_been_readdir := CACHE_INODE_NO,
          db_end_of_dir := END_OF_DIR\<rparr>\<rparr>) st;
        Some (CACHE_INODE_SUCCESS, st) })"

text \<open>
  The walk over the parent records of the removed entry: the record before and the record itself, if one of them is in the directory.
\<close>

partial_function (option) find_parent ::
  "addr \<Rightarrow> ptr \<Rightarrow> ptr \<Rightarrow> ('h, 'a) inode_store \<Rightarrow> (ptr \<times> addr) option option" where
  "find_parent pentry_parent previous_iter parent_iter st =
     (case parent_iter of
        None \<Rightarrow> Some None
      | Some q \<Rightarrow>
          (case parent (parents st q) of
             None \<Rightarrow> Some None
           | Some c \<Rightarrow>
               if c = pentry_parent \<or>
                  md_type (internal_md (ents st c)) = DIR_CONTINUE \<and> dc_pdir_begin (dir_cont (ents st c)) = Some pentry_parent
               then Some (Some (previous_iter, q))
               else find_parent pentry_parent (Some q) (next_parent (parents st q)) st))"

text \<open>The results are the return value and \<open>*pstatus\<close>, which differ.\<close>

definition cache_inode_remove_cached_dirent ::
  "addr \<Rightarrow> fsal_name \<Rightarrow> ('h, 'a) inode_store \<Rightarrow> (cache_inode_status \<times> cache_inode_status \<times> ('h, 'a) inode_store) option" where
  "cache_inode_remove_cached_dirent pentry_parent pname st =
     (if \<not> is_dir (ents st pentry_parent) then Some (CACHE_INODE_BAD_TYPE, CACHE_INODE_BAD_TYPE, st)
      else do {
        (removed, status, st) \<leftarrow> cache_inode_operate_cached_dirent pentry_parent pname None CACHE_INODE_DIRENT_OP_REMOVE st;
        case removed of
          None \<Rightarrow> Some (status, status, st)
        | Some p \<Rightarrow> do {
            r \<leftarrow> find_parent pentry_parent None (parent_list (ents st p)) st;
            case r of
              None \<Rightarrow> Some (CACHE_INODE_SUCCESS, CACHE_INODE_INCONSISTENT_ENTRY, st)
            | Some (previous_iter, q) \<Rightarrow>
                let st = (case previous_iter of
                            None \<Rightarrow> upd_ent p (\<lambda>e. e\<lparr>parent_list := next_parent (parents st q)\<rparr>) st
                          | Some q0 \<Rightarrow> upd_parent q0 (\<lambda>r. r\<lparr>next_parent := next_parent (parents st q)\<rparr>) st)
                in Some (CACHE_INODE_SUCCESS, status, st\<lparr>pool_parent := RELEASE_PREALLOC q (pool_parent st)\<rparr>) } })"

section \<open>Empty directories\<close>

text \<open>The loop of \<^verbatim>\<open>cache_inode_is_dir_empty\<close> of \<^verbatim>\<open>Cache_inode/cache_inode_remove.c\<close>, which trusts the counters.\<close>

partial_function (option) empty_from :: "ptr \<Rightarrow> ('h, 'a) inode_store \<Rightarrow> cache_inode_status option" where
  "empty_from pentry_iter st =
     (case pentry_iter of
        None \<Rightarrow> Some CACHE_INODE_SUCCESS
      | Some c \<Rightarrow>
          if nbactive (ents st c) \<noteq> 0 then Some CACHE_INODE_DIR_NOT_EMPTY
          else if end_of_dir (ents st c) = END_OF_DIR then Some CACHE_INODE_SUCCESS
          else empty_from (pdir_cont (ents st c)) st)"

definition cache_inode_is_dir_empty :: "addr \<Rightarrow> ('h, 'a) inode_store \<Rightarrow> cache_inode_status option" where
  "cache_inode_is_dir_empty pentry st =
     (if \<not> is_begin (ents st pentry) then Some CACHE_INODE_BAD_TYPE else empty_from (Some pentry) st)"

definition cache_inode_is_dir_empty_WithLock :: "addr \<Rightarrow> ('h, 'a) inode_store \<Rightarrow> (cache_inode_status \<times> ('h, 'a) inode_store) option" where
  "cache_inode_is_dir_empty_WithLock pentry st =
     (case P_r (entry_lock (ents st pentry)) of
        Blocks l \<Rightarrow> None
      | Returns l \<Rightarrow> do {
          let st = upd_ent pentry (\<lambda>e. e\<lparr>entry_lock := l\<rparr>) st;
          status \<leftarrow> cache_inode_is_dir_empty pentry st;
          Some (status, upd_ent pentry (\<lambda>e. e\<lparr>entry_lock := fst (V_r (entry_lock e))\<rparr>) st) })"

partial_function (option) cache_inode_type_are_rename_compatible :: "ptr \<Rightarrow> ptr \<Rightarrow> ('h, 'a) inode_store \<Rightarrow> bool option" where
  "cache_inode_type_are_rename_compatible pentry_src pentry_dest st =
     (case pentry_src of
        None \<Rightarrow> None
      | Some s \<Rightarrow>
          if md_type (internal_md (ents st s)) = DIR_CONTINUE
          then cache_inode_type_are_rename_compatible (dc_pdir_begin (dir_cont (ents st s))) pentry_dest st
          else
            (case pentry_dest of
               None \<Rightarrow> None
             | Some d \<Rightarrow>
                 if md_type (internal_md (ents st d)) = DIR_CONTINUE
                 then cache_inode_type_are_rename_compatible pentry_src (dc_pdir_begin (dir_cont (ents st d))) st
                 else if is_begin (ents st s) then
                   (if is_begin (ents st d)
                    then map_option (\<lambda>status. status = CACHE_INODE_SUCCESS) (cache_inode_is_dir_empty d st)
                    else Some False)
                 else Some (\<not> is_begin (ents st d))))"

definition cache_inode_clean_entry :: "('h, 'a) centry \<Rightarrow> ('h, 'a) centry" where
  "cache_inode_clean_entry pentry = pentry\<lparr>internal_md := (internal_md pentry)\<lparr>md_type := RECYCLED, md_valid_state := INVALID,
     read_time := 0, mod_time := 0, refresh_time := 0, alloc_time := 0\<rparr>\<rparr>"

declare cache_inode_valid.simps [code] find_dirent.simps [code] find_free_slot.simps [code] invalidate_conts.simps [code]
  find_parent.simps [code] empty_from.simps [code] cache_inode_type_are_rename_compatible.simps [code]

end
