(* ===== verification/Dir_Inv.thy ===== *)
theory Dir_Inv
  imports Dir_Cache
begin

text \<open>
  What holds of the cached directories between two calls, and the walks along the chains. A directory is given by its
  \<^verbatim>\<open>DIR_BEGINNING\<close> \<open>b\<close> and the list \<open>cs\<close> of its \<^verbatim>\<open>DIR_CONTINUE\<close> entries; \<open>C\<close> is the map of all of them.
\<close>

named_theorems store_simps \<open>how the updates of the store act on its fields\<close>

section \<open>Fields\<close>

lemmas centry_defs = is_begin_def is_dir_def end_of_dir_def pdir_cont_def pdir_data_def nbactive_def

lemma set_nbactive_fields [simp]:
  "internal_md (set_nbactive n e) = internal_md e" "is_begin (set_nbactive n e) = is_begin e" "is_dir (set_nbactive n e) = is_dir e"
  "end_of_dir (set_nbactive n e) = end_of_dir e" "pdir_cont (set_nbactive n e) = pdir_cont e"
  "pdir_data (set_nbactive n e) = pdir_data e" "nbactive (set_nbactive n e) = n"
  "parent_list (set_nbactive n e) = parent_list e" "gc_lru (set_nbactive n e) = gc_lru e" "gc_lru_entry (set_nbactive n e) = gc_lru_entry e"
  "db_handle (dir_begin (set_nbactive n e)) = db_handle (dir_begin e)"
  "dc_pdir_begin (dir_cont (set_nbactive n e)) = dc_pdir_begin (dir_cont e)"
  "dc_pdir_prev (dir_cont (set_nbactive n e)) = dc_pdir_prev (dir_cont e)"
  "dir_cont_pos (dir_cont (set_nbactive n e)) = dir_cont_pos (dir_cont e)"
  by (auto simp: set_nbactive_def centry_defs)

lemma namecmp_zero: "FSAL_namecmp a b = 0 \<longleftrightarrow> fsal_chars a = fsal_chars b"
  by (simp add: FSAL_namecmp_def FSAL_MAX_NAME_LEN_def strncmp_cstr)

section \<open>Contents of a directory\<close>

definition slots :: "('h, 'a) inode_store \<Rightarrow> addr \<Rightarrow> dir_entry list" where
  "slots st c = dir_datas st (the (pdir_data (ents st c)))"

abbreviation live :: "dir_entry list \<Rightarrow> dir_entry list" where
  "live ss \<equiv> filter (\<lambda>s. active s = VALID) ss"

definition named :: "dir_entry \<Rightarrow> fsal_name \<times> addr" where
  "named s = (de_name s, the (de_pentry s))"

definition dirents :: "('h, 'a) inode_store \<Rightarrow> addr list \<Rightarrow> (fsal_name \<times> addr) list" where
  "dirents st cs = map named (live (concat (map (slots st) cs)))"

lemma dirents_simps [simp]:
  "dirents st [] = []" "dirents st (c # cs) = map named (live (slots st c)) @ dirents st cs"
  "dirents st (xs @ ys) = dirents st xs @ dirents st ys"
  by (simp_all add: dirents_def)

lemma dirents_cong: "(\<And>c. c \<in> set cs \<Longrightarrow> slots st' c = slots st c) \<Longrightarrow> dirents st' cs = dirents st cs"
  by (induction cs) simp_all

text \<open>A directory entry that a search for a name finds: its name agrees and the entry is valid.\<close>

definition hit :: "('h, 'a) inode_store \<Rightarrow> fsal_name \<Rightarrow> fsal_name \<times> addr \<Rightarrow> bool" where
  "hit st nm x \<longleftrightarrow> md_valid_state (internal_md (ents st (snd x))) = VALID \<and> fsal_chars (fst x) = fsal_chars nm"

section \<open>One entry of a chain\<close>

definition slots_ok :: "dir_entry list \<Rightarrow> bool" where
  "slots_ok ss \<longleftrightarrow> length ss = CHILDREN_ARRAY_SIZE \<and> (\<forall>s \<in> set ss. active s = VALID \<longrightarrow> de_pentry s \<noteq> None)"

definition node_ok :: "('h, 'a) inode_store \<Rightarrow> addr \<Rightarrow> bool" where
  "node_ok st c \<longleftrightarrow> is_dir (ents st c) \<and> pdir_data (ents st c) \<noteq> None \<and> slots_ok (slots st c) \<and>
     nbactive (ents st c) = of_nat (length (live (slots st c)))"

definition slot_hit :: "('h, 'a) inode_store \<Rightarrow> fsal_name \<Rightarrow> dir_entry list \<Rightarrow> addr \<Rightarrow> nat \<Rightarrow> bool" where
  "slot_hit st nm ss p i \<longleftrightarrow> i < length ss \<and> active (ss ! i) = VALID \<and> de_pentry (ss ! i) = Some p \<and> hit st nm (named (ss ! i)) \<and>
     (\<forall>x \<in> set (map named (live (take i ss))). \<not> hit st nm x)"

lemma slot_hit_Suc: "slot_hit st nm ss p i \<Longrightarrow> \<not> (active s = VALID \<and> hit st nm (named s)) \<Longrightarrow> slot_hit st nm (s # ss) p (Suc i)"
  by (auto simp: slot_hit_def)

lemma find_slot_spec:
  assumes "\<forall>s \<in> set ss. active s = VALID \<longrightarrow> de_pentry s \<noteq> None"
  shows "case find_slot False (ents st) nm ss i of
      None \<Rightarrow> False
    | Some None \<Rightarrow> \<forall>x \<in> set (map named (live ss)). \<not> hit st nm x
    | Some (Some (p, k)) \<Rightarrow> i \<le> k \<and> slot_hit st nm ss p (k - i)"
  using assms
proof (induction ss arbitrary: i)
  case (Cons s ss)
  note IH = Cons.IH [of "Suc i"]
  have *: ?case if miss: "\<not> (active s = VALID \<and> hit st nm (named s))"
    and step: "find_slot False (ents st) nm (s # ss) i = find_slot False (ents st) nm ss (Suc i)"
  proof -
    have "slot_hit st nm (s # ss) p (k - i)" if "slot_hit st nm ss p (k - Suc i)" "Suc i \<le> k" for p k
    proof -
      have "k - i = Suc (k - Suc i)" using that(2) by simp
      with slot_hit_Suc [OF that(1) miss] show ?thesis by simp
    qed
    with IH Cons.prems miss show ?thesis unfolding step by (auto split: option.splits prod.splits)
  qed
  show ?case
  proof (cases "de_pentry s")
    case None
    with Cons.prems have "active s \<noteq> VALID" by auto
    with None show ?thesis by (intro *) simp_all
  next
    case (Some p)
    show ?thesis
    proof (cases "active s = VALID \<and> hit st nm (named s)")
      case True
      with Some show ?thesis by (auto simp: slot_hit_def hit_def named_def namecmp_zero)
    next
      case False
      with Some show ?thesis by (intro *) (auto simp: hit_def named_def namecmp_zero)
    qed
  qed
qed simp

lemma node_find:
  assumes "node_ok st c" and "\<not> full_debug st"
  obtains d r where "pdir_data (ents st c) = Some d"
    "find_slot (full_debug st \<and> is_begin (ents st c)) (ents st) nm (dir_datas st d) 0 = Some r"
    "case r of None \<Rightarrow> \<forall>x \<in> set (map named (live (slots st c))). \<not> hit st nm x | Some (p, i) \<Rightarrow> slot_hit st nm (slots st c) p i"
proof -
  from assms(1) obtain d where d: "pdir_data (ents st c) = Some d" "slots st c = dir_datas st d" by (auto simp: node_ok_def slots_def)
  from assms(1) have "\<forall>s \<in> set (dir_datas st d). active s = VALID \<longrightarrow> de_pentry s \<noteq> None"
    by (simp add: node_ok_def slots_ok_def flip: d(2))
  from find_slot_spec [OF this, of st nm 0] that [OF d(1)] d(2) assms(2) show thesis by (auto split: option.splits)
qed

lemma first_free_spec:
  "case first_free ss i of
     None \<Rightarrow> \<forall>s \<in> set ss. \<not> slot_free s
   | Some k \<Rightarrow> i \<le> k \<and> k < i + length ss \<and> slot_free (ss ! (k - i))"
proof (induction ss arbitrary: i)
  case (Cons s ss)
  show ?case
  proof (cases "slot_free s")
    case False
    with Cons.IH [of "Suc i"] show ?thesis by (auto split: option.splits simp: nth_Cons' Suc_diff_le)
  qed simp
qed simp

section \<open>Walks\<close>

text \<open>From \<open>c\<close> the loops over a chain go on to the entries \<open>ns\<close> and stop at the last of them.\<close>

fun walk :: "('h, 'a) inode_store \<Rightarrow> addr \<Rightarrow> addr list \<Rightarrow> bool" where
  "walk st c [] \<longleftrightarrow> end_of_dir (ents st c) = END_OF_DIR"
| "walk st c (n # ns) \<longleftrightarrow> end_of_dir (ents st c) \<noteq> END_OF_DIR \<and> pdir_cont (ents st c) = Some n \<and> walk st n ns"

lemma walk_append: "walk st c (xs @ y # ys) \<Longrightarrow> walk st y ys"
  by (induction xs arbitrary: c) auto

definition found_at :: "('h, 'a) inode_store \<Rightarrow> fsal_name \<Rightarrow> addr list \<Rightarrow> addr \<Rightarrow> addr \<Rightarrow> nat \<Rightarrow> bool" where
  "found_at st nm cs p c i \<longleftrightarrow> (\<exists>us vs. cs = us @ c # vs \<and> (\<forall>x \<in> set (dirents st us). \<not> hit st nm x)) \<and> slot_hit st nm (slots st c) p i"

lemma found_at_Cons:
  assumes "found_at st nm cs p c i" and "\<forall>x \<in> set (map named (live (slots st n))). \<not> hit st nm x"
  shows "found_at st nm (n # cs) p c i"
proof -
  from assms(1) obtain us vs where "cs = us @ c # vs" "\<forall>x \<in> set (dirents st us). \<not> hit st nm x" "slot_hit st nm (slots st c) p i"
    by (auto simp: found_at_def)
  with assms(2) show ?thesis unfolding found_at_def by (intro conjI exI [of _ "n # us"] exI [of _ vs]) auto
qed

lemma find_dirent_spec:
  assumes "walk st c ns" and "\<forall>n \<in> set (c # ns). node_ok st n" and "\<not> full_debug st"
  shows "case find_dirent nm (Some c) st of
      None \<Rightarrow> False
    | Some None \<Rightarrow> \<forall>x \<in> set (dirents st (c # ns)). \<not> hit st nm x
    | Some (Some (p, c', i)) \<Rightarrow> found_at st nm (c # ns) p c' i"
  using assms
proof (induction ns arbitrary: c)
  case Nil
  then have "node_ok st c" by simp
  from node_find [OF this Nil(3), of nm] obtain d r where r: "pdir_data (ents st c) = Some d"
    "find_slot (full_debug st \<and> is_begin (ents st c)) (ents st) nm (dir_datas st d) 0 = Some r"
    "case r of None \<Rightarrow> \<forall>x \<in> set (map named (live (slots st c))). \<not> hit st nm x | Some (p, i) \<Rightarrow> slot_hit st nm (slots st c) p i" by blast
  have "found_at st nm [c] p c i" if "slot_hit st nm (slots st c) p i" for p i
    unfolding found_at_def by (intro conjI exI [of _ "[]"]) (use that in auto)
  with r show ?case using Nil(1) by (cases r) (auto simp: find_dirent.simps [of nm "Some c"])
next
  case (Cons n ns)
  then have "node_ok st c" by simp
  from node_find [OF this Cons.prems(3), of nm] obtain d r where r: "pdir_data (ents st c) = Some d"
    "find_slot (full_debug st \<and> is_begin (ents st c)) (ents st) nm (dir_datas st d) 0 = Some r"
    "case r of None \<Rightarrow> \<forall>x \<in> set (map named (live (slots st c))). \<not> hit st nm x | Some (p, i) \<Rightarrow> slot_hit st nm (slots st c) p i" by blast
  show ?case
  proof (cases r)
    case None
    with r have miss: "\<forall>x \<in> set (map named (live (slots st c))). \<not> hit st nm x" by simp
    have step: "find_dirent nm (Some c) st = find_dirent nm (Some n) st"
      using r None Cons.prems by (simp add: find_dirent.simps [of nm "Some c"])
    have IH: "case find_dirent nm (Some n) st of None \<Rightarrow> False | Some None \<Rightarrow> \<forall>x \<in> set (dirents st (n # ns)). \<not> hit st nm x
      | Some (Some (p, c', i)) \<Rightarrow> found_at st nm (n # ns) p c' i" by (rule Cons.IH) (use Cons.prems in auto)
    show ?thesis
    proof (cases "find_dirent nm (Some n) st")
      case (Some x)
      with IH miss found_at_Cons [OF _ miss, of "n # ns"] show ?thesis unfolding step by (cases x) auto
    qed (use IH in simp)
  next
    case (Some x)
    obtain p i where x: "x = (p, i)" by (cases x)
    with r Some have "find_dirent nm (Some c) st = Some (Some (p, c, i))" by (simp add: find_dirent.simps [of nm "Some c"])
    moreover have "found_at st nm (c # n # ns) p c i" unfolding found_at_def
      by (intro conjI exI [of _ "[]"] exI [of _ "n # ns"]) (use r Some x in auto)
    ultimately show ?thesis by simp
  qed
qed

lemma live_full: "length (live ss) = length ss \<longleftrightarrow> (\<forall>s \<in> set ss. active s = VALID)"
proof
  assume "length (live ss) = length ss"
  then show "\<forall>s \<in> set ss. active s = VALID" using length_filter_less [of _ ss "\<lambda>s. active s = VALID"] by fastforce
qed simp

lemma of_nat_small: "n \<le> 16 \<Longrightarrow> unat (of_nat n :: u32) = n"
  by (simp add: unat_of_nat take_bit_nat_eq_self)

lemma node_free:
  assumes "node_ok st c"
  obtains r where "(if nbactive (ents st c) \<noteq> of_nat CHILDREN_ARRAY_SIZE
      then Option.bind (pdir_data (ents st c)) (\<lambda>d. Some (first_free (dir_datas st d) 0)) else Some None) = Some r"
    "case r of None \<Rightarrow> \<forall>s \<in> set (slots st c). active s = VALID
     | Some i \<Rightarrow> i < CHILDREN_ARRAY_SIZE \<and> active (slots st c ! i) = INVALID"
proof -
  from assms obtain d where d: "pdir_data (ents st c) = Some d" "slots st c = dir_datas st d" by (auto simp: node_ok_def slots_def)
  have len: "length (slots st c) = 16" and ptrs: "\<forall>s \<in> set (slots st c). active s = VALID \<longrightarrow> de_pentry s \<noteq> None"
    and nb: "nbactive (ents st c) = of_nat (length (live (slots st c)))"
    using assms by (auto simp: node_ok_def slots_ok_def CHILDREN_ARRAY_SIZE_def)
  have free: "slot_free s \<longleftrightarrow> active s = INVALID" if "s \<in> set (slots st c)" for s
    using ptrs that by (cases "active s") (auto simp: slot_free_def)
  show thesis
  proof (cases "nbactive (ents st c) = of_nat CHILDREN_ARRAY_SIZE")
    case True
    have "length (live (slots st c)) \<le> 16" using length_filter_le [of "\<lambda>s. active s = VALID" "slots st c"] len by simp
    from of_nat_small [OF this] True nb of_nat_small [of 16] have "length (live (slots st c)) = length (slots st c)"
      by (simp add: len CHILDREN_ARRAY_SIZE_def)
    with that True live_full show ?thesis by simp
  next
    case False
    have valid: "active s = VALID" if "\<not> slot_free s" "s \<in> set (slots st c)" for s
      using free [OF that(2)] that(1) by (cases "active s") auto
    have "case first_free (slots st c) 0 of None \<Rightarrow> \<forall>s \<in> set (slots st c). active s = VALID
      | Some i \<Rightarrow> i < CHILDREN_ARRAY_SIZE \<and> active (slots st c ! i) = INVALID"
      using first_free_spec [of "slots st c" 0] free [OF nth_mem] valid len
      by (auto split: option.splits simp: CHILDREN_ARRAY_SIZE_def)
    with False d show ?thesis by (intro that [of "first_free (slots st c) 0"]) simp_all
  qed
qed


lemma find_free_slot_spec:
  assumes "walk st c ns" and "\<forall>n \<in> set (c # ns). node_ok st n"
  shows "case find_free_slot (Some c) st of
      None \<Rightarrow> False
    | Some Not_dir \<Rightarrow> False
    | Some (Free c' i) \<Rightarrow> c' \<in> set (c # ns) \<and> i < CHILDREN_ARRAY_SIZE \<and> active (slots st c' ! i) = INVALID
    | Some (Full c') \<Rightarrow> c' = last (c # ns) \<and> (\<forall>n \<in> set (c # ns). \<forall>s \<in> set (slots st n). active s = VALID)"
  using assms
proof (induction ns arbitrary: c)
  case Nil
  then have "node_ok st c" by simp
  then have "is_dir (ents st c)" by (simp add: node_ok_def)
  with Nil(1) show ?case by (rule_tac node_free [OF \<open>node_ok st c\<close>]) (auto simp: find_free_slot.simps [of "Some c"] split: option.splits)
next
  case (Cons n ns)
  then have "node_ok st c" by simp
  then have dir: "is_dir (ents st c)" by (simp add: node_ok_def)
  from node_free [OF \<open>node_ok st c\<close>] obtain r where r: "(if nbactive (ents st c) \<noteq> of_nat CHILDREN_ARRAY_SIZE
      then Option.bind (pdir_data (ents st c)) (\<lambda>d. Some (first_free (dir_datas st d) 0)) else Some None) = Some r"
    "case r of None \<Rightarrow> \<forall>s \<in> set (slots st c). active s = VALID
     | Some i \<Rightarrow> i < CHILDREN_ARRAY_SIZE \<and> active (slots st c ! i) = INVALID" by blast
  have IH: "case find_free_slot (Some n) st of None \<Rightarrow> False | Some Not_dir \<Rightarrow> False
    | Some (Free c' i) \<Rightarrow> c' \<in> set (n # ns) \<and> i < CHILDREN_ARRAY_SIZE \<and> active (slots st c' ! i) = INVALID
    | Some (Full c') \<Rightarrow> c' = last (n # ns) \<and> (\<forall>n \<in> set (n # ns). \<forall>s \<in> set (slots st n). active s = VALID)"
    by (rule Cons.IH) (use Cons.prems in auto)
  show ?case
  proof (cases r)
    case None
    then have "find_free_slot (Some c) st = find_free_slot (Some n) st"
      using r(1) dir Cons.prems by (simp add: find_free_slot.simps [of "Some c"])
    with IH r(2) None show ?thesis by (auto split: option.splits free_slot.splits)
  next
    case (Some i)
    with r dir show ?thesis by (simp add: find_free_slot.simps [of "Some c"])
  qed
qed

section \<open>Directories\<close>

text \<open>
  The chain from \<open>c\<close> on: every entry but the last says \<^verbatim>\<open>TO_BE_CONTINUED\<close>. \<^verbatim>\<open>cache_inode_invalidate_all_cached_dirent\<close> sets only the flag of the
  \<^verbatim>\<open>DIR_BEGINNING\<close>, so a chain may continue behind an \<^verbatim>\<open>END_OF_DIR\<close> there, with nothing active in it.
\<close>

fun linked :: "('h, 'a) inode_store \<Rightarrow> addr \<Rightarrow> addr list \<Rightarrow> bool" where
  "linked st c [] \<longleftrightarrow> pdir_cont (ents st c) = None \<and> end_of_dir (ents st c) = END_OF_DIR"
| "linked st c (n # ns) \<longleftrightarrow> pdir_cont (ents st c) = Some n \<and> end_of_dir (ents st c) = TO_BE_CONTINUED \<and> linked st n ns"

definition dir_links :: "('h, 'a) inode_store \<Rightarrow> addr \<Rightarrow> addr list \<Rightarrow> bool" where
  "dir_links st b cs \<longleftrightarrow> linked st b cs \<or>
     (\<exists>n ns. cs = n # ns \<and> pdir_cont (ents st b) = Some n \<and> end_of_dir (ents st b) = END_OF_DIR \<and> linked st n ns \<and>
       (\<forall>c \<in> set cs. live (slots st c) = []))"

definition conts_ok :: "('h, 'a) inode_store \<Rightarrow> addr \<Rightarrow> addr list \<Rightarrow> bool" where
  "conts_ok st b cs \<longleftrightarrow> (\<forall>i < length cs. md_type (internal_md (ents st (cs ! i))) = DIR_CONTINUE \<and>
     dc_pdir_begin (dir_cont (ents st (cs ! i))) = Some b \<and> dc_pdir_prev (dir_cont (ents st (cs ! i))) = Some ((b # cs) ! i) \<and>
     dir_cont_pos (dir_cont (ents st (cs ! i))) = of_nat (Suc i))"

definition dir_ok :: "('h, 'a) inode_store \<Rightarrow> addr \<Rightarrow> addr list \<Rightarrow> bool" where
  "dir_ok st b cs \<longleftrightarrow> is_begin (ents st b) \<and> conts_ok st b cs \<and> dir_links st b cs \<and> (\<forall>c \<in> set (b # cs). node_ok st c) \<and>
     length cs < 2 ^ 32 - 1"

text \<open>The entries that the loops visit after \<open>b\<close>.\<close>

definition visible :: "('h, 'a) inode_store \<Rightarrow> addr \<Rightarrow> addr list \<Rightarrow> addr list" where
  "visible st b cs = (if end_of_dir (ents st b) = END_OF_DIR then [] else cs)"

lemma linked_walk: "linked st c ns \<Longrightarrow> walk st c ns"
  by (induction ns arbitrary: c) auto

lemma dirents_dead: "\<forall>c \<in> set cs. live (slots st c) = [] \<Longrightarrow> dirents st cs = []"
  by (induction cs) auto

lemma dir_visible:
  assumes "dir_links st b cs"
  shows "walk st b (visible st b cs)" and "dirents st (visible st b cs) = dirents st cs"
    and "set (visible st b cs) \<subseteq> set cs"
  using assms dirents_dead [of cs st]
  by (cases cs; auto simp: dir_links_def visible_def linked_walk)+

lemma dir_okD:
  assumes "dir_ok st b cs"
  shows "is_begin (ents st b)" "is_dir (ents st b)" "conts_ok st b cs" "dir_links st b cs" "length cs < 2 ^ 32 - 1"
    and "\<And>c. c \<in> set (b # cs) \<Longrightarrow> node_ok st c"
  using assms by (auto simp: dir_ok_def is_dir_def is_begin_def)

lemma cont_fields:
  assumes "dir_ok st b cs" and "c \<in> set cs"
  shows "md_type (internal_md (ents st c)) = DIR_CONTINUE" and "dc_pdir_begin (dir_cont (ents st c)) = Some b" and "\<not> is_begin (ents st c)"
proof -
  from assms(2) obtain i where "i < length cs" "c = cs ! i" by (auto simp: in_set_conv_nth)
  with dir_okD(3) [OF assms(1)] show "md_type (internal_md (ents st c)) = DIR_CONTINUE" "dc_pdir_begin (dir_cont (ents st c)) = Some b"
    by (auto simp: conts_ok_def)
  then show "\<not> is_begin (ents st c)" by (simp add: is_begin_def)
qed

lemma unat_of_nat_pos: "n < 2 ^ 32 \<Longrightarrow> unat (of_nat n :: u32) = n"
  by (simp add: unat_of_nat take_bit_nat_eq_self)

lemma dir_distinct:
  assumes "dir_ok st b cs"
  shows "distinct (b # cs)"
proof -
  have "b \<notin> set cs" using cont_fields(3) [OF assms] dir_okD(1) [OF assms] by blast
  moreover have "distinct cs"
  proof (clarsimp simp: distinct_conv_nth)
    fix i j assume ij: "i < length cs" "j < length cs" "i \<noteq> j" "cs ! i = cs ! j"
    with dir_okD(3) [OF assms] have "(of_nat (Suc i) :: u32) = of_nat (Suc j)" by (metis conts_ok_def)
    moreover have "Suc i < 2 ^ 32" "Suc j < 2 ^ 32" using ij dir_okD(5) [OF assms] by simp_all
    ultimately show False using ij(3) unat_of_nat_pos [of "Suc i"] unat_of_nat_pos [of "Suc j"] by (metis nat.inject)
  qed
  ultimately show ?thesis by simp
qed

text \<open>What a directory depends on.\<close>

definition dview :: "('h, 'a) centry \<Rightarrow> ('h, 'a) dir_begin \<times> dir_cont \<times> cache_inode_file_type" where
  "dview e = (dir_begin e, dir_cont e, md_type (internal_md e))"

lemma dview_fields:
  assumes "dview e = dview e'"
  shows "dir_begin e = dir_begin e'" "dir_cont e = dir_cont e'" "md_type (internal_md e) = md_type (internal_md e')"
    "is_begin e = is_begin e'" "is_dir e = is_dir e'" "end_of_dir e = end_of_dir e'" "pdir_cont e = pdir_cont e'"
    "pdir_data e = pdir_data e'" "nbactive e = nbactive e'"
  using assms by (auto simp: dview_def centry_defs)

lemma linked_cong:
  assumes "\<And>n. n \<in> set (c # ns) \<Longrightarrow> pdir_cont (ents st' n) = pdir_cont (ents st n) \<and> end_of_dir (ents st' n) = end_of_dir (ents st n)"
  shows "linked st' c ns = linked st c ns"
  using assms by (induction ns arbitrary: c) simp_all

lemma dir_ok_cong:
  assumes "dir_ok st b cs" and "\<And>c. c \<in> set (b # cs) \<Longrightarrow> dview (ents st' c) = dview (ents st c) \<and> slots st' c = slots st c"
  shows "dir_ok st' b cs"
proof -
  note f = dview_fields [OF conjunct1 [OF assms(2)]] and sl = conjunct2 [OF assms(2)]
  have "conts_ok st' b cs" using dir_okD(3) [OF assms(1)] f by (simp add: conts_ok_def)
  moreover have "linked st' c ns = linked st c ns" if "set (c # ns) \<subseteq> set (b # cs)" for c ns
    by (rule linked_cong) (use f that in blast)
  then have "dir_links st' b cs" using dir_okD(4) [OF assms(1)] f sl by (cases cs) (auto simp: dir_links_def)
  moreover have "\<forall>c \<in> set (b # cs). node_ok st' c" using assms(1) f sl by (simp add: dir_ok_def node_ok_def)
  ultimately show ?thesis using dir_okD(1,5) [OF assms(1)] f by (simp add: dir_ok_def)
qed

lemma dir_ok_node:
  assumes ok: "dir_ok st b cs" and c: "c \<in> set (b # visible st b cs)"
    and ss: "slots_ok ss" "slots st' c = ss" and e: "dview (ents st' c) = dview (set_nbactive (of_nat (length (live ss))) (ents st c))"
    and rest: "\<And>x. x \<in> set (b # cs) \<Longrightarrow> x \<noteq> c \<Longrightarrow> dview (ents st' x) = dview (ents st x) \<and> slots st' x = slots st x"
  shows "dir_ok st' b cs"
proof -
  note fc = dview_fields [OF e] and f = dview_fields [OF conjunct1 [OF rest]] and sl = conjunct2 [OF rest]
  note cc = fc(2) [symmetric]
  have fields: "pdir_cont (ents st' x) = pdir_cont (ents st x) \<and> end_of_dir (ents st' x) = end_of_dir (ents st x) \<and>
      is_begin (ents st' x) = is_begin (ents st x) \<and> is_dir (ents st' x) = is_dir (ents st x) \<and>
      md_type (internal_md (ents st' x)) = md_type (internal_md (ents st x)) \<and> pdir_data (ents st' x) = pdir_data (ents st x) \<and>
      dc_pdir_begin (dir_cont (ents st' x)) = dc_pdir_begin (dir_cont (ents st x)) \<and>
      dc_pdir_prev (dir_cont (ents st' x)) = dc_pdir_prev (dir_cont (ents st x)) \<and>
      dir_cont_pos (dir_cont (ents st' x)) = dir_cont_pos (dir_cont (ents st x))" if "x \<in> set (b # cs)" for x
    using that f [of x] fc by (cases "x = c") simp_all
  have node: "node_ok st' x" if "x \<in> set (b # cs)" for x
    using that dir_okD(6) [OF ok that] fields [OF that] f(9) [of x] fc(9) sl [of x] ss by (cases "x = c") (auto simp: node_ok_def)
  have "linked st' x ns = linked st x ns" if "set (x # ns) \<subseteq> set (b # cs)" for x ns
    by (rule linked_cong) (use fields that in blast)
  moreover have "live (slots st' x) = live (slots st x)" if "end_of_dir (ents st b) = END_OF_DIR" "x \<in> set cs" for x
    using that c dir_distinct [OF ok] sl [of x] by (cases "x = b") (auto simp: visible_def)
  ultimately have "dir_links st' b cs" using dir_okD(4) [OF ok] fields [of b]
    by (cases cs) (auto simp: dir_links_def)
  moreover have "conts_ok st' b cs" using dir_okD(3) [OF ok] fields by (simp add: conts_ok_def)
  ultimately show ?thesis using node dir_okD(1,5) [OF ok] fields [of b] by (simp add: dir_ok_def)
qed

section \<open>All directories\<close>

definition free_ok :: "addr set \<Rightarrow> addr list \<Rightarrow> mem \<Rightarrow> bool" where
  "free_ok A pool m \<longleftrightarrow> distinct pool \<and> A \<inter> set pool = {} \<and> (\<forall>a \<in> A \<union> set pool. a < brk m)"

lemma free_ok_mono: "free_ok A pool m \<Longrightarrow> brk m \<le> brk m' \<Longrightarrow> free_ok A pool m'"
  unfolding free_ok_def by (meson order_less_le_trans)

lemma free_ok_subset: "free_ok A pool m \<Longrightarrow> B \<subseteq> A \<Longrightarrow> free_ok B pool m"
  by (auto simp: free_ok_def)

lemma free_ok_get:
  assumes "free_ok A pool m" and "GET_PREALLOC nb pool m = (r, pool', m')"
  shows "brk m \<le> brk m'" and "free_ok A pool' m'" and "\<And>p. r = Some p \<Longrightarrow> p \<notin> A \<and> free_ok (insert p A) pool' m'"
proof -
  show le: "brk m \<le> brk m'" by (rule GET_PREALLOC_brk [OF assms(2)])
  show new: "p \<notin> A \<and> free_ok (insert p A) pool' m'" if "r = Some p" for p
  proof -
    note g = GET_PREALLOC_fresh [of nb pool m p pool' m']
    have *: "p < brk m'" "p \<notin> set pool'" "distinct pool'" "\<forall>q \<in> set pool'. q < brk m'"
      "\<forall>q \<in> insert p (set pool'). q \<in> set pool \<or> brk m \<le> q" using g assms that by (auto simp: free_ok_def)
    moreover have "q \<notin> A" if "q \<in> insert p (set pool')" for q
      using *(5) that assms(1) unfolding free_ok_def by (metis IntI UnCI empty_iff not_less)
    moreover have "\<forall>a \<in> A. a < brk m'" using free_ok_mono [OF assms(1) le] by (simp add: free_ok_def)
    ultimately show ?thesis unfolding free_ok_def by (intro conjI) auto
  qed
  show "free_ok A pool' m'"
  proof (cases r)
    case None
    with assms list_pool.get_fail [of pool pool nb m pool' m'] show ?thesis by (auto simp: free_ok_def)
  next
    case (Some p)
    with new show ?thesis by (blast intro: free_ok_subset)
  qed
qed

lemma free_ok_release: "free_ok (insert p A) pool m \<Longrightarrow> p \<notin> A \<Longrightarrow> free_ok A (RELEASE_PREALLOC p pool) m"
  by (auto simp: free_ok_def RELEASE_PREALLOC_def)

type_synonym dirs = "addr \<rightharpoonup> addr list"

definition nodes :: "dirs \<Rightarrow> addr set" where
  "nodes C = {c. \<exists>b cs. C b = Some cs \<and> c \<in> set (b # cs)}"

lemma nodesI [intro]: "C b = Some cs \<Longrightarrow> c \<in> set (b # cs) \<Longrightarrow> c \<in> nodes C"
  unfolding nodes_def by blast

definition data_of :: "('h, 'a) inode_store \<Rightarrow> addr \<Rightarrow> addr" where
  "data_of st c = the (pdir_data (ents st c))"

definition handle_of :: "('h, 'a) inode_store \<Rightarrow> addr \<Rightarrow> 'h" where
  "handle_of st b = db_handle (dir_begin (ents st b))"

text \<open>
  The chains and the memory they use: \<open>E\<close> are the cache entries in use, those of the chains and the others.
\<close>

definition struct_inv :: "dirs \<Rightarrow> addr set \<Rightarrow> ('h, 'a) inode_store \<Rightarrow> bool" where
  "struct_inv C E st \<longleftrightarrow>
     (\<forall>b cs. C b = Some cs \<longrightarrow> dir_ok st b cs \<and> snd ` set (dirents st (b # cs)) \<subseteq> E) \<and>
     inj_on (data_of st) (nodes C) \<and> inj_on (handle_of st) (dom C) \<and> nodes C \<subseteq> E \<and>
     (\<forall>d. length (dir_datas st d) = CHILDREN_ARRAY_SIZE) \<and>
     free_ok E (pool_entry st) (ic_mem st) \<and> free_ok (data_of st ` nodes C) (pool_dir_data st) (ic_mem st)"

text \<open>
  The keys of the chains in the hash table: position 0 is the \<^verbatim>\<open>DIR_BEGINNING\<close>, which may also be the key of an entry that is no directory;
  the other positions are those of directories only.
\<close>

definition keys_ok :: "dirs \<Rightarrow> ('h, 'a) inode_store \<Rightarrow> bool" where
  "keys_ok C st \<longleftrightarrow> table_inv (ic_mem st) (ic_ht st) \<and>
     (\<forall>b cs k. C b = Some cs \<longrightarrow> table_map (ic_ht st) (handle_of st b, k) =
        (if unat k \<le> length cs then Some ((b # cs) ! unat k) else None)) \<and>
     (\<forall>h k. table_map (ic_ht st) (h, k) \<noteq> None \<longrightarrow> k \<noteq> 0 \<longrightarrow> h \<in> handle_of st ` dom C)"

text \<open>
  The parent records: \<open>PL e\<close> are those of the entry \<open>e\<close>. For every directory an entry has at least as many records as active slots that
  name it; there can be more of them, since an invalidation leaves the records in place.
\<close>

fun plist :: "(addr \<Rightarrow> parent_entry) \<Rightarrow> ptr \<Rightarrow> addr list \<Rightarrow> bool" where
  "plist pm p [] \<longleftrightarrow> p = None"
| "plist pm p (q # qs) \<longleftrightarrow> p = Some q \<and> plist pm (next_parent (pm q)) qs"

definition in_dir :: "('h, 'a) inode_store \<Rightarrow> addr list \<Rightarrow> addr \<Rightarrow> bool" where
  "in_dir st cs q \<longleftrightarrow> parent (parents st q) \<in> Some ` set cs"

definition parents_inv :: "dirs \<Rightarrow> addr set \<Rightarrow> (addr \<Rightarrow> addr list) \<Rightarrow> ('h, 'a) inode_store \<Rightarrow> bool" where
  "parents_inv C E PL st \<longleftrightarrow>
     (\<forall>e \<in> E. plist (parents st) (parent_list (ents st e)) (PL e) \<and> distinct (PL e) \<and>
        (\<forall>q \<in> set (PL e). parent (parents st q) \<in> Some ` nodes C) \<and>
        (\<forall>b cs. C b = Some cs \<longrightarrow> count_list (map snd (dirents st (b # cs))) e \<le> length (filter (in_dir st (b # cs)) (PL e)))) \<and>
     (\<forall>e \<in> E. \<forall>e' \<in> E. e \<noteq> e' \<longrightarrow> set (PL e) \<inter> set (PL e') = {}) \<and>
     free_ok (\<Union>e \<in> E. set (PL e)) (pool_parent st) (ic_mem st)"

text \<open>The LRU list of the worker, and the entries in it that the directories point to.\<close>

definition lru_entry_of :: "('h, 'a) centry \<Rightarrow> ptr" where
  "lru_entry_of e = (if gc_lru e = None then None else gc_lru_entry e)"

definition lru_good :: "dirs \<Rightarrow> addr list \<Rightarrow> ('h, 'a) inode_store \<Rightarrow> bool" where
  "lru_good C xs st \<longleftrightarrow> lru_inv xs (lru_gc_list st) (lru_heap st) (ic_mem st) \<and>
     (\<forall>b \<in> dom C. \<forall>q. lru_entry_of (ents st b) = Some q \<longrightarrow> q \<in> set xs \<and> valid_state (lru_heap st q) = LRU_ENTRY_VALID) \<and>
     (\<forall>b \<in> dom C. \<forall>b' \<in> dom C. \<forall>q. lru_entry_of (ents st b) = Some q \<longrightarrow> lru_entry_of (ents st b') = Some q \<longrightarrow> b = b') \<and>
     clean_entry (lparameter (lru_gc_list st)) = lru_inode_clean_entry \<and>
     nb_entry_prealloc (lparameter (lru_gc_list st)) \<noteq> 0 \<and> mem_good (ic_mem st)"

definition lists_ok :: "dirs \<Rightarrow> ('h, 'a) inode_store \<Rightarrow> bool" where
  "lists_ok C st \<longleftrightarrow> (\<exists>xs. lru_good C xs st)"

lemma lru_goodD:
  assumes "lru_good C xs st"
  shows "lru_inv xs (lru_gc_list st) (lru_heap st) (ic_mem st)"
    and "\<And>b q. b \<in> dom C \<Longrightarrow> lru_entry_of (ents st b) = Some q \<Longrightarrow> q \<in> set xs \<and> valid_state (lru_heap st q) = LRU_ENTRY_VALID"
    and "\<And>b b' q. b \<in> dom C \<Longrightarrow> b' \<in> dom C \<Longrightarrow> lru_entry_of (ents st b) = Some q \<Longrightarrow> lru_entry_of (ents st b') = Some q \<Longrightarrow> b = b'"
    and "clean_entry (lparameter (lru_gc_list st)) = lru_inode_clean_entry" "nb_entry_prealloc (lparameter (lru_gc_list st)) \<noteq> 0"
    and "mem_good (ic_mem st)"
  using assms unfolding lru_good_def by blast+

lemma lru_goodI:
  assumes "lru_inv xs (lru_gc_list st) (lru_heap st) (ic_mem st)"
    and "\<And>b q. b \<in> dom C \<Longrightarrow> lru_entry_of (ents st b) = Some q \<Longrightarrow> q \<in> set xs \<and> valid_state (lru_heap st q) = LRU_ENTRY_VALID"
    and "\<And>b b' q. b \<in> dom C \<Longrightarrow> b' \<in> dom C \<Longrightarrow> lru_entry_of (ents st b) = Some q \<Longrightarrow> lru_entry_of (ents st b') = Some q \<Longrightarrow> b = b'"
    and "clean_entry (lparameter (lru_gc_list st)) = lru_inode_clean_entry" "nb_entry_prealloc (lparameter (lru_gc_list st)) \<noteq> 0"
    and "mem_good (ic_mem st)"
  shows "lru_good C xs st"
  unfolding lru_good_def using assms by blast

definition dirs_inv :: "dirs \<Rightarrow> addr set \<Rightarrow> (addr \<Rightarrow> addr list) \<Rightarrow> ('h, 'a) inode_store \<Rightarrow> bool" where
  "dirs_inv C E PL st \<longleftrightarrow> struct_inv C E st \<and> keys_ok C st \<and> parents_inv C E PL st \<and> lists_ok C st"

end
