(* ===== verification/Dir_Ops.thy ===== *)
theory Dir_Ops
  imports Dir_Inv
begin

text \<open>
  What each operation does to the contents of the directories, and that it keeps the invariant.
\<close>

section \<open>Frames\<close>

lemma struct_invD:
  assumes "struct_inv C E st"
  shows "\<And>b cs. C b = Some cs \<Longrightarrow> dir_ok st b cs" "\<And>b cs. C b = Some cs \<Longrightarrow> snd ` set (dirents st (b # cs)) \<subseteq> E"
    and "inj_on (data_of st) (nodes C)" "inj_on (handle_of st) (dom C)" "nodes C \<subseteq> E"
    and "\<And>d. length (dir_datas st d) = CHILDREN_ARRAY_SIZE" "free_ok E (pool_entry st) (ic_mem st)"
    and "free_ok (data_of st ` nodes C) (pool_dir_data st) (ic_mem st)"
  using assms by (simp_all add: struct_inv_def)

lemma same_dir:
  assumes "struct_inv C E st" and "C b = Some cs" "C b' = Some cs'" and "c \<in> set (b # cs)" "c \<in> set (b' # cs')"
  shows "b' = b"
proof -
  note ok = struct_invD(1) [OF assms(1,2)] struct_invD(1) [OF assms(1,3)]
  note f = cont_fields [OF ok(1), of c] cont_fields [OF ok(2), of c] dir_okD(1) [OF ok(1)] dir_okD(1) [OF ok(2)]
  show ?thesis
  proof (cases "is_begin (ents st c)")
    case True
    with f assms(4,5) show ?thesis by auto
  next
    case False
    then have "c \<noteq> b" "c \<noteq> b'" using f(7,8) by auto
    with f assms(4,5) show ?thesis by auto
  qed
qed

lemma nodes_other:
  assumes "struct_inv C E st" and "C b = Some cs" "C b' = Some cs'" "b' \<noteq> b" and "c \<in> set (b # cs)"
  shows "c \<notin> set (b' # cs')"
  using same_dir [OF assms(1-3,5)] assms(4) by blast

lemma keys_cong:
  assumes "keys_ok C st" and "ic_ht st' = ic_ht st" "brk (ic_mem st) \<le> brk (ic_mem st')"
    and "\<And>b. b \<in> dom C \<Longrightarrow> handle_of st' b = handle_of st b"
  shows "keys_ok C st'"
proof -
  have "handle_of st' ` dom C = handle_of st ` dom C" using assms(4) by (rule image_cong [OF refl])
  moreover have "table_inv (ic_mem st) (ic_ht st)" using assms(1) by (simp add: keys_ok_def)
  ultimately show ?thesis using assms table_inv_mono [OF _ assms(3)] by (auto simp: keys_ok_def domI)
qed

lemma lists_cong:
  assumes "lists_ok C st" and "lru_gc_list st' = lru_gc_list st" "lru_heap st' = lru_heap st"
    and "brk (ic_mem st) \<le> brk (ic_mem st')" "fails (ic_mem st') = fails (ic_mem st)" and "dom C' \<subseteq> dom C"
    and "\<And>b. b \<in> dom C' \<Longrightarrow> lru_entry_of (ents st' b) = lru_entry_of (ents st b)"
  shows "lists_ok C' st'"
proof -
  from assms(1) obtain xs where "lru_good C xs st" by (auto simp: lists_ok_def)
  note L = lru_goodD [OF this]
  have "lru_good C' xs st'"
  proof (rule lru_goodI)
    show "lru_inv xs (lru_gc_list st') (lru_heap st') (ic_mem st')" using L(1) assms(2-4) owned_mono by (auto simp: lru_inv_def)
    show "q \<in> set xs \<and> valid_state (lru_heap st' q) = LRU_ENTRY_VALID" if "b \<in> dom C'" "lru_entry_of (ents st' b) = Some q" for b q
      using L(2) [of b q] that assms(3,6,7) by auto
    show "b = b'" if "b \<in> dom C'" "b' \<in> dom C'" "lru_entry_of (ents st' b) = Some q" "lru_entry_of (ents st' b') = Some q" for b b' q
      using L(3) [of b b' q] that assms(6,7) by auto
  qed (use L(4-6) assms(2,5) in \<open>simp_all add: mem_good_def\<close>)
  then show ?thesis by (auto simp: lists_ok_def)
qed

lemma parents_frame:
  assumes "parents_inv C E PL st" and "parents st' = parents st" "free_ok (\<Union>e \<in> E. set (PL e)) (pool_parent st') (ic_mem st')"
    and "\<And>e. e \<in> E \<Longrightarrow> parent_list (ents st' e) = parent_list (ents st e)"
    and "\<And>b cs e. C b = Some cs \<Longrightarrow> count_list (map snd (dirents st' (b # cs))) e \<le> count_list (map snd (dirents st (b # cs))) e"
  shows "parents_inv C E PL st'"
proof -
  have "in_dir st' cs = in_dir st cs" for cs by (simp add: in_dir_def assms(2) fun_eq_iff)
  then show ?thesis using assms(1-4) assms(5) [THEN le_trans] unfolding parents_inv_def by simp
qed

lemma parents_cong:
  assumes "parents_inv C E PL st" and "parents st' = parents st" "pool_parent st' = pool_parent st" "brk (ic_mem st) \<le> brk (ic_mem st')"
    and "\<And>e. e \<in> E \<Longrightarrow> parent_list (ents st' e) = parent_list (ents st e)"
    and "\<And>b cs e. C b = Some cs \<Longrightarrow> count_list (map snd (dirents st' (b # cs))) e \<le> count_list (map snd (dirents st (b # cs))) e"
  shows "parents_inv C E PL st'"
proof (rule parents_frame [OF assms(1,2)])
  show "free_ok (\<Union>e \<in> E. set (PL e)) (pool_parent st') (ic_mem st')"
    using assms(1,3,4) free_ok_mono by (metis parents_inv_def)
qed (use assms(5,6) in auto)

text \<open>An update of the slots of one entry \<open>c\<close> of a chain.\<close>

definition new_slots :: "addr \<Rightarrow> dir_entry list \<Rightarrow> ('h, 'a) inode_store \<Rightarrow> ('h, 'a) inode_store \<Rightarrow> bool" where
  "new_slots c ss st st' \<longleftrightarrow> dir_datas st' = (dir_datas st)(data_of st c := ss) \<and>
     dview (ents st' c) = dview (set_nbactive (of_nat (length (live ss))) (ents st c)) \<and>
     (\<forall>x. x \<noteq> c \<longrightarrow> dview (ents st' x) = dview (ents st x))"

lemma new_slots_fields:
  assumes "new_slots c ss st st'"
  shows "pdir_data (ents st' x) = pdir_data (ents st x)" "handle_of st' x = handle_of st x" "end_of_dir (ents st' x) = end_of_dir (ents st x)"
proof -
  have "dview (ents st' x) = dview (if x = c then set_nbactive (of_nat (length (live ss))) (ents st c) else ents st x)"
    using assms by (simp add: new_slots_def)
  from dview_fields [OF this] show "pdir_data (ents st' x) = pdir_data (ents st x)" "handle_of st' x = handle_of st x"
    "end_of_dir (ents st' x) = end_of_dir (ents st x)" by (auto simp: handle_of_def)
qed

lemma new_slots_slots:
  assumes "struct_inv C E st" and "new_slots c ss st st'" and "c \<in> nodes C" and "x \<in> nodes C"
  shows "slots st' x = (if x = c then ss else slots st x)"
proof -
  have "data_of st x = data_of st c \<longleftrightarrow> x = c" using struct_invD(3) [OF assms(1)] assms(3,4) by (metis inj_onD)
  with assms(2) new_slots_fields(1) [OF assms(2)] show ?thesis by (simp add: new_slots_def slots_def data_of_def)
qed

lemma struct_new_slots:
  assumes inv: "struct_inv C E st" and b: "C b = Some cs" and c: "c \<in> set (b # visible st b cs)"
    and ss: "slots_ok ss" "snd ` named ` set (live ss) \<subseteq> E" and up: "new_slots c ss st st'"
    and mem: "pool_entry st' = pool_entry st" "pool_dir_data st' = pool_dir_data st" "brk (ic_mem st) \<le> brk (ic_mem st')"
  shows "struct_inv C E st'"
    and "\<And>us vs. b # cs = us @ c # vs \<Longrightarrow> dirents st' (b # cs) = dirents st us @ map named (live ss) @ dirents st vs"
    and "\<And>b' cs'. C b' = Some cs' \<Longrightarrow> b' \<noteq> b \<Longrightarrow> dirents st' (b' # cs') = dirents st (b' # cs')"
proof -
  note ok = struct_invD(1) [OF inv b]
  have cin: "c \<in> set (b # cs)" using c dir_visible(3) [OF dir_okD(4) [OF ok]] by auto
  then have cn: "c \<in> nodes C" using b by blast
  note sl = new_slots_slots [OF inv up cn]
  have all: "x \<in> nodes C" if "C b' = Some cs'" "x \<in> set (b' # cs')" for x b' cs' using that by blast
  show cat: "dirents st' (b # cs) = dirents st us @ map named (live ss) @ dirents st vs" if eq: "b # cs = us @ c # vs" for us vs
  proof -
    have d: "distinct (us @ c # vs)" using dir_distinct [OF ok] eq by simp
    have n: "x \<in> nodes C" if "x \<in> set (us @ c # vs)" for x using all [OF b] that eq by metis
    have "dirents st' us = dirents st us" "dirents st' vs = dirents st vs"
      using d n by (auto intro!: dirents_cong simp: sl)
    moreover have "slots st' c = ss" using sl [OF cn] by simp
    ultimately show ?thesis unfolding eq by simp
  qed
  show other: "dirents st' (b' # cs') = dirents st (b' # cs')" if "C b' = Some cs'" "b' \<noteq> b" for b' cs'
  proof (rule dirents_cong)
    fix x assume x: "x \<in> set (b' # cs')"
    with nodes_other [OF inv b that cin] have "x \<noteq> c" by blast
    with sl [OF all [OF that(1) x]] show "slots st' x = slots st x" by simp
  qed
  have "dir_ok st' b' cs'" if b': "C b' = Some cs'" for b' cs'
  proof (cases "b' = b")
    case True
    with b b' have "cs' = cs" by simp
    moreover have "dir_ok st' b cs"
      by (rule dir_ok_node [OF ok c ss(1)])
        (use sl [OF cn] sl [OF all [OF b]] up in \<open>auto simp: new_slots_def\<close>)
    ultimately show ?thesis using True by simp
  next
    case False
    have ne: "x \<noteq> c" if "x \<in> set (b' # cs')" for x using nodes_other [OF inv b b' False cin] that by blast
    show ?thesis
      by (rule dir_ok_cong [OF struct_invD(1) [OF inv b']]) (use ne sl [OF all [OF b']] up in \<open>auto simp: new_slots_def\<close>)
  qed
  moreover have "snd ` set (dirents st' (b' # cs')) \<subseteq> E" if b': "C b' = Some cs'" for b' cs'
  proof (cases "b' = b")
    case True
    obtain us vs where eq: "b # cs = us @ c # vs" using cin by (meson split_list)
    have "snd ` set (dirents st us) \<subseteq> E" "snd ` set (dirents st vs) \<subseteq> E"
      using struct_invD(2) [OF inv b] unfolding eq by auto
    with True b b' cat [OF eq] ss(2) show ?thesis by auto
  next
    case False
    with other [OF b'] struct_invD(2) [OF inv b'] show ?thesis by simp
  qed
  moreover have "data_of st' = data_of st" "handle_of st' = handle_of st"
    using new_slots_fields [OF up] by (auto simp: data_of_def)
  moreover have "length (dir_datas st' d) = CHILDREN_ARRAY_SIZE" for d
    using up struct_invD(6) [OF inv] ss(1) by (simp add: new_slots_def slots_ok_def)
  ultimately show "struct_inv C E st'"
    using inv free_ok_mono [OF _ mem(3)] unfolding struct_inv_def mem by metis
qed

section \<open>Search, removal and renaming\<close>

text \<open>A removal or a renaming changes one slot; the rest of the store stays as it is.\<close>

definition slot_frame :: "('h, 'a) inode_store \<Rightarrow> ('h, 'a) inode_store \<Rightarrow> bool" where
  "slot_frame st st' \<longleftrightarrow> pool_entry st' = pool_entry st \<and> pool_dir_data st' = pool_dir_data st \<and> pool_parent st' = pool_parent st \<and>
     ic_mem st' = ic_mem st \<and> ic_ht st' = ic_ht st \<and> lru_heap st' = lru_heap st \<and> lru_gc_list st' = lru_gc_list st \<and>
     parents st' = parents st \<and> full_debug st' = full_debug st \<and>
     (\<forall>x. parent_list (ents st' x) = parent_list (ents st x) \<and> lru_entry_of (ents st' x) = lru_entry_of (ents st x) \<and>
       internal_md (ents st' x) = internal_md (ents st x))"

lemma count_list_append_le:
  "count_list ys e \<le> count_list ys' e \<Longrightarrow> count_list (xs @ ys @ zs) e \<le> count_list (xs @ ys' @ zs) e"
  by simp

lemma dirs_new_slots:
  assumes inv: "dirs_inv C E PL st" and b: "C b = Some cs" and c: "c \<in> set (b # visible st b cs)"
    and ss: "slots_ok ss" "snd ` named ` set (live ss) \<subseteq> E" and up: "new_slots c ss st st'" and fr: "slot_frame st st'"
    and cnt: "\<And>e. count_list (map snd (map named (live ss))) e \<le> count_list (map snd (map named (live (slots st c)))) e"
  shows "dirs_inv C E PL st'"
proof -
  have si: "struct_inv C E st" and rest: "keys_ok C st" "parents_inv C E PL st" "lists_ok C st" using inv by (auto simp: dirs_inv_def)
  have f: "pool_entry st' = pool_entry st" "pool_dir_data st' = pool_dir_data st" "brk (ic_mem st) \<le> brk (ic_mem st')"
    using fr by (auto simp: slot_frame_def)
  note sn = struct_new_slots [OF si b c ss up f]
  note ok = struct_invD(1) [OF si b]
  have "c \<in> set (b # cs)" using c dir_visible(3) [OF dir_okD(4) [OF ok]] by auto
  then obtain us vs where eq: "b # cs = us @ c # vs" by (meson split_list)
  have "count_list (map snd (dirents st' (b # cs))) e \<le> count_list (map snd (dirents st (b # cs))) e" for e
  proof -
    have "dirents st (b # cs) = dirents st us @ map named (live (slots st c)) @ dirents st vs" unfolding eq by simp
    then show ?thesis unfolding sn(2) [OF eq] by (simp only: map_append) (rule count_list_append_le, rule cnt)
  qed
  then have "count_list (map snd (dirents st' (b' # cs'))) e \<le> count_list (map snd (dirents st (b' # cs'))) e"
    if "C b' = Some cs'" for b' cs' e
    using sn(3) [OF that] that b by (cases "b' = b") (simp_all del: dirents_simps)
  then have "parents_inv C E PL st'" by (intro parents_cong [OF rest(2)]) (use fr in \<open>auto simp: slot_frame_def\<close>)
  moreover have "keys_ok C st'" by (rule keys_cong [OF rest(1)]) (use fr new_slots_fields(2) [OF up] in \<open>auto simp: slot_frame_def\<close>)
  moreover have "lists_ok C st'" by (rule lists_cong [OF rest(3)]) (use fr in \<open>auto simp: slot_frame_def\<close>)
  ultimately show ?thesis using sn(1) by (simp add: dirs_inv_def)
qed

lemma live_update:
  "i < length ss \<Longrightarrow> live (ss[i := s]) = live (take i ss) @ (if active s = VALID then [s] else []) @ live (drop (Suc i) ss)"
  by (simp add: upd_conv_take_nth_drop)

lemma live_split:
  "i < length ss \<Longrightarrow> live ss = live (take i ss) @ (if active (ss ! i) = VALID then [ss ! i] else []) @ live (drop (Suc i) ss)"
  using live_update [of i ss "ss ! i"] by simp

lemma slots_ok_update:
  "slots_ok ss \<Longrightarrow> (active s = VALID \<Longrightarrow> de_pentry s \<noteq> None) \<Longrightarrow> slots_ok (ss[i := s])"
  by (auto simp: slots_ok_def dest!: set_update_subset_insert [THEN subsetD])

text \<open>
  One slot gets the content \<open>s\<close>: the entry of the directory it held, if any, is replaced by the new one, if any, and the others stay in
  order.
\<close>

lemma struct_new_slot:
  assumes inv: "struct_inv C E st" and b: "C b = Some cs" and c: "c \<in> set (b # visible st b cs)" and eq: "b # cs = us @ c # vs"
    and i: "i < CHILDREN_ARRAY_SIZE" and sv: "active s = VALID \<Longrightarrow> de_pentry s \<in> Some ` E"
    and up: "new_slots c ((slots st c)[i := s]) st st'"
    and mem: "pool_entry st' = pool_entry st" "pool_dir_data st' = pool_dir_data st" "brk (ic_mem st) \<le> brk (ic_mem st')"
  shows "struct_inv C E st'"
    and "dirents st (b # cs) = (dirents st us @ map named (live (take i (slots st c)))) @
      (if active (slots st c ! i) = VALID then [named (slots st c ! i)] else []) @ map named (live (drop (Suc i) (slots st c))) @ dirents st vs"
    and "dirents st' (b # cs) = (dirents st us @ map named (live (take i (slots st c)))) @
      (if active s = VALID then [named s] else []) @ map named (live (drop (Suc i) (slots st c))) @ dirents st vs"
    and "\<And>b' cs'. C b' = Some cs' \<Longrightarrow> b' \<noteq> b \<Longrightarrow> dirents st' (b' # cs') = dirents st (b' # cs')"
    and "slots_ok ((slots st c)[i := s])" "snd ` named ` set (live ((slots st c)[i := s])) \<subseteq> E"
proof -
  let ?ss = "(slots st c)[i := s]"
  note ok = struct_invD(1) [OF inv b]
  have "c \<in> set (b # cs)" by (simp add: eq)
  then have n: "slots_ok (slots st c)" using dir_okD(6) [OF ok] by (simp add: node_ok_def)
  then have i': "i < length (slots st c)" using i by (simp add: slots_ok_def)
  show so: "slots_ok ?ss" using sv by (intro slots_ok_update [OF n]) auto
  have "snd ` named ` set (live (slots st c)) \<subseteq> E" using struct_invD(2) [OF inv b] unfolding eq by auto
  moreover have "set (live ?ss) \<subseteq> (if active s = VALID then {s} else {}) \<union> set (live (slots st c))"
    unfolding live_update [OF i'] by (auto dest: in_set_takeD in_set_dropD)
  ultimately show sub: "snd ` named ` set (live ?ss) \<subseteq> E" using sv by (force simp: named_def split: if_splits)
  note sn = struct_new_slots [OF inv b c so sub up mem]
  show "struct_inv C E st'" by (rule sn(1))
  show "dirents st' (b' # cs') = dirents st (b' # cs')" if "C b' = Some cs'" "b' \<noteq> b" for b' cs' using sn(3) that .
  show "dirents st (b # cs) = (dirents st us @ map named (live (take i (slots st c)))) @
      (if active (slots st c ! i) = VALID then [named (slots st c ! i)] else []) @ map named (live (drop (Suc i) (slots st c))) @ dirents st vs"
    unfolding eq dirents_simps by (subst live_split [OF i']) simp
  show "dirents st' (b # cs) = (dirents st us @ map named (live (take i (slots st c)))) @
      (if active s = VALID then [named s] else []) @ map named (live (drop (Suc i) (slots st c))) @ dirents st vs"
    unfolding sn(2) [OF eq] live_update [OF i'] by simp
qed

text \<open>
  The search started at the beginning of a directory, in terms of its contents: the first hit in the order of the chain.
\<close>

lemma find_in_dir:
  assumes inv: "struct_inv C E st" and b: "C b = Some cs" and dbg: "\<not> full_debug st"
  shows "(\<forall>x \<in> set (dirents st (b # cs)). \<not> hit st nm x) \<and> find_dirent nm (Some b) st = Some None \<or>
    (\<exists>p c i us vs. find_dirent nm (Some b) st = Some (Some (p, c, i)) \<and> c \<in> set (b # visible st b cs) \<and> b # cs = us @ c # vs \<and>
      i < CHILDREN_ARRAY_SIZE \<and> active (slots st c ! i) = VALID \<and> de_pentry (slots st c ! i) = Some p \<and> hit st nm (named (slots st c ! i)) \<and>
      (\<forall>x \<in> set (dirents st us @ map named (live (take i (slots st c)))). \<not> hit st nm x))"
proof -
  note ok = struct_invD(1) [OF inv b]
  note v = dir_visible [OF dir_okD(4) [OF ok]]
  have nodes: "\<forall>n \<in> set (b # visible st b cs). node_ok st n" using dir_okD(6) [OF ok] v(3) by auto
  note f = find_dirent_spec [OF v(1) nodes dbg, of nm]
  show ?thesis
  proof (cases "find_dirent nm (Some b) st")
    case (Some r)
    show ?thesis
    proof (cases r)
      case None
      with f Some v(2) show ?thesis by simp
    next
      case (Some x)
      obtain p c i where x: "x = (p, c, i)" by (cases x)
      with f \<open>find_dirent nm (Some b) st = Some r\<close> Some obtain us vs where u: "b # visible st b cs = us @ c # vs"
        "\<forall>x \<in> set (dirents st us). \<not> hit st nm x" "slot_hit st nm (slots st c) p i" by (auto simp: found_at_def)
      have c: "c \<in> set (b # visible st b cs)" by (simp add: u(1))
      with nodes have len: "length (slots st c) = CHILDREN_ARRAY_SIZE" by (auto simp: node_ok_def slots_ok_def)
      have "\<exists>ws. b # cs = (b # visible st b cs) @ ws" by (simp add: visible_def)
      then obtain ws where "b # cs = (b # visible st b cs) @ ws" by blast
      then have "b # cs = us @ c # (vs @ ws)" using u(1) by simp
      moreover have "find_dirent nm (Some b) st = Some (Some (p, c, i))" using \<open>find_dirent nm (Some b) st = Some r\<close> Some x by simp
      moreover have "\<forall>x \<in> set (dirents st us @ map named (live (take i (slots st c)))). \<not> hit st nm x"
        using u(2,3) unfolding slot_hit_def set_append by blast
      moreover have "i < CHILDREN_ARRAY_SIZE" "active (slots st c ! i) = VALID" "de_pentry (slots st c ! i) = Some p"
        "hit st nm (named (slots st c ! i))" using u(3) len by (auto simp: slot_hit_def)
      ultimately show ?thesis using c by blast
    qed
  qed (use f in simp)
qed

lemma lru_entry_set_nbactive [simp]: "lru_entry_of (set_nbactive n e) = lru_entry_of e"
  by (simp add: lru_entry_of_def)

text \<open>What the two operations that change a slot do to the store.\<close>

lemma slot_changed:
  assumes inv: "dirs_inv C E PL st" and b: "C b = Some cs" and c: "c \<in> set (b # visible st b cs)" and eq: "b # cs = us @ c # vs"
    and i: "i < CHILDREN_ARRAY_SIZE" and old: "active (slots st c ! i) = VALID" "de_pentry (slots st c ! i) = Some p"
    and new: "active s = VALID \<Longrightarrow> de_pentry s = Some p"
    and up: "new_slots c ((slots st c)[i := s]) st st'" and fr: "slot_frame st st'"
  shows "dirs_inv C E PL st'"
proof -
  have si: "struct_inv C E st" using inv by (simp add: dirs_inv_def)
  note ok = struct_invD(1) [OF si b]
  have "c \<in> set (b # cs)" by (simp add: eq)
  then have "slots_ok (slots st c)" using dir_okD(6) [OF ok] by (simp add: node_ok_def)
  then have i': "i < length (slots st c)" using i by (simp add: slots_ok_def)
  have "slots st c ! i \<in> set (live (slots st c))" using i' old(1) by simp
  moreover have "snd ` named ` set (live (slots st c)) \<subseteq> E" using struct_invD(2) [OF si b] unfolding eq by auto
  ultimately have pE: "p \<in> E" using old(2) by (force simp: named_def)
  then have sv: "active s = VALID \<Longrightarrow> de_pentry s \<in> Some ` E" using new by simp
  have mem: "pool_entry st' = pool_entry st" "pool_dir_data st' = pool_dir_data st" "brk (ic_mem st) \<le> brk (ic_mem st')"
    using fr by (auto simp: slot_frame_def)
  note sn = struct_new_slot [OF si b c eq i sv up mem]
  show ?thesis
  proof (rule dirs_new_slots [OF inv b c sn(5,6) up fr])
    fix e
    show "count_list (map snd (map named (live ((slots st c)[i := s])))) e \<le> count_list (map snd (map named (live (slots st c)))) e"
      unfolding live_update [OF i'] by (subst live_split [OF i']) (use old new in \<open>auto simp: named_def\<close>)
  qed
qed

lemma set_nbactive_self: "nbactive e = n \<Longrightarrow> dview (set_nbactive n e) = dview e"
  by (auto simp: dview_def set_nbactive_def nbactive_def)

lemma new_slots_upd:
  assumes "node_ok st c" and "i < CHILDREN_ARRAY_SIZE" and "active (slots st c ! i) = VALID" and "pdir_data (ents st c) = Some d"
  shows "active (f (slots st c ! i)) = INVALID \<Longrightarrow>
      new_slots c ((slots st c)[i := f (slots st c ! i)]) st (upd_ent c (\<lambda>e. set_nbactive (nbactive e - 1) e) (upd_slot d i f st))"
    and "active (f (slots st c ! i)) = VALID \<Longrightarrow> new_slots c ((slots st c)[i := f (slots st c ! i)]) st (upd_slot d i f st)"
proof -
  have d: "slots st c = dir_datas st d" "data_of st c = d" using assms(4) by (simp_all add: slots_def data_of_def)
  have i: "i < length (slots st c)" and nb: "nbactive (ents st c) = of_nat (length (live (slots st c)))"
    using assms(1,2) by (simp_all add: node_ok_def slots_ok_def)
  have len: "length (live (slots st c)) = Suc (length (live (take i (slots st c))) + length (live (drop (Suc i) (slots st c))))"
    by (subst live_split [OF i]) (simp add: assms(3))
  show "new_slots c ((slots st c)[i := f (slots st c ! i)]) st (upd_ent c (\<lambda>e. set_nbactive (nbactive e - 1) e) (upd_slot d i f st))"
    if "active (f (slots st c ! i)) = INVALID"
    using that nb len i by (simp add: new_slots_def upd_ent_def upd_slot_def d live_update)
  show "new_slots c ((slots st c)[i := f (slots st c ! i)]) st (upd_slot d i f st)" if "active (f (slots st c ! i)) = VALID"
  proof -
    have "dview (set_nbactive (of_nat (length (live ((slots st c)[i := f (slots st c ! i)])))) (ents st c)) = dview (ents st c)"
      by (rule set_nbactive_self) (use nb len i that in \<open>simp add: live_update\<close>)
    then show ?thesis by (simp add: new_slots_def upd_slot_def d)
  qed
qed

text \<open>
  The operations on the entry of a directory with a given name, the first valid one in the order of the chain. What they do is told by the
  contents of the directory before and after; the other directories keep theirs.
\<close>

definition same_others :: "dirs \<Rightarrow> addr \<Rightarrow> ('h, 'a) inode_store \<Rightarrow> ('h, 'a) inode_store \<Rightarrow> bool" where
  "same_others C b st st' \<longleftrightarrow> (\<forall>b' cs'. C b' = Some cs' \<longrightarrow> b' \<noteq> b \<longrightarrow> dirents st' (b' # cs') = dirents st (b' # cs'))"

lemma operate_miss:
  assumes "dirs_inv C E PL st" and "C b = Some cs" and "\<not> full_debug st" and "\<forall>x \<in> set (dirents st (b # cs)). \<not> hit st nm x"
  shows "cache_inode_operate_cached_dirent b nm newname op st = Some (None, CACHE_INODE_NOT_FOUND, st)"
proof -
  have si: "struct_inv C E st" using assms(1) by (simp add: dirs_inv_def)
  have "find_dirent nm (Some b) st = Some None" using find_in_dir [OF si assms(2,3), of nm]
  proof (elim disjE exE conjE)
    fix p c i us vs assume c: "b # cs = us @ c # vs" "i < CHILDREN_ARRAY_SIZE" "active (slots st c ! i) = VALID" "hit st nm (named (slots st c ! i))"
    then have "node_ok st c" using dir_okD(6) [OF struct_invD(1) [OF si assms(2)]] by simp
    then have "slots st c ! i \<in> set (live (slots st c))" using c by (simp add: node_ok_def slots_ok_def)
    with assms(4) c have False unfolding c(1) by auto
    then show ?thesis ..
  qed
  then show ?thesis using dir_okD(2) [OF struct_invD(1) [OF si assms(2)]] by (simp add: cache_inode_operate_cached_dirent_def)
qed

lemma first_unique:
  "xs @ x # ys = xs' @ x' # ys' \<Longrightarrow> P x \<Longrightarrow> P x' \<Longrightarrow> \<forall>z \<in> set xs. \<not> P z \<Longrightarrow> \<forall>z \<in> set xs'. \<not> P z \<Longrightarrow> xs = xs' \<and> x = x' \<and> ys = ys'"
proof (induction xs arbitrary: xs')
  case Nil
  then show ?case by (cases xs') auto
next
  case (Cons z xs)
  then show ?case by (cases xs') auto
qed

lemma fsal_name_eq: "s\<lparr>fsal_chars := fsal_chars n, fsal_len := fsal_len n\<rparr> = (n :: fsal_name)"
  by simp

lemma operate_hit:
  assumes inv: "dirs_inv C E PL st" and b: "C b = Some cs" and dbg: "\<not> full_debug st"
    and eq: "dirents st (b # cs) = xs @ x # ys" and hit: "hit st nm x" and miss: "\<forall>x \<in> set xs. \<not> hit st nm x"
  shows "cache_inode_operate_cached_dirent b nm newname CACHE_INODE_DIRENT_OP_LOOKUP st =
      Some (Some (snd x), CACHE_INODE_INVALID_ARGUMENT, st)"
    and "\<exists>st'. cache_inode_operate_cached_dirent b nm newname CACHE_INODE_DIRENT_OP_REMOVE st =
      Some (Some (snd x), CACHE_INODE_SUCCESS, st') \<and> dirs_inv C E PL st' \<and> dirents st' (b # cs) = xs @ ys \<and>
      same_others C b st st' \<and> slot_frame st st'"
    and "\<exists>st'. cache_inode_operate_cached_dirent b nm (Some n) CACHE_INODE_DIRENT_OP_RENAME st =
      Some (Some (snd x), CACHE_INODE_SUCCESS, st') \<and> dirs_inv C E PL st' \<and> dirents st' (b # cs) = xs @ (n, snd x) # ys \<and>
      same_others C b st st' \<and> slot_frame st st'"
proof -
  have si: "struct_inv C E st" using inv by (simp add: dirs_inv_def)
  note ok = struct_invD(1) [OF si b]
  have "\<not> (\<forall>x \<in> set (dirents st (b # cs)). \<not> hit st nm x)" unfolding eq using hit by auto
  with find_in_dir [OF si b dbg, of nm] obtain p c i us vs where f: "find_dirent nm (Some b) st = Some (Some (p, c, i))"
    "c \<in> set (b # visible st b cs)" "b # cs = us @ c # vs" "i < CHILDREN_ARRAY_SIZE" "active (slots st c ! i) = VALID"
    "de_pentry (slots st c ! i) = Some p" "hit st nm (named (slots st c ! i))"
    "\<forall>x \<in> set (dirents st us @ map named (live (take i (slots st c)))). \<not> hit st nm x" by blast
  have n: "node_ok st c" using dir_okD(6) [OF ok] f(3) by simp
  then obtain d where d: "pdir_data (ents st c) = Some d" "slots st c = dir_datas st d" by (auto simp: node_ok_def slots_def)
  have i: "i < length (slots st c)" using n f(4) by (simp add: node_ok_def slots_ok_def)
  have dir: "is_dir (ents st b)" "is_dir (ents st c)" using dir_okD(2) [OF ok] n by (simp_all add: node_ok_def)
  let ?A = "dirents st us @ map named (live (take i (slots st c)))" and ?B = "map named (live (drop (Suc i) (slots st c))) @ dirents st vs"
  have "dirents st (b # cs) = ?A @ named (slots st c ! i) # ?B"
    unfolding f(3) dirents_simps by (subst live_split [OF i]) (simp add: f(5))
  with eq have "xs @ x # ys = ?A @ named (slots st c ! i) # ?B" by simp
  from first_unique [OF this hit f(7) miss f(8)]
  have split: "xs = ?A" "x = named (slots st c ! i)" "ys = ?B" by simp_all
  note upd = new_slots_upd [OF n f(4,5) d(1)]
  have rest: "slot_frame st st' \<Longrightarrow> pool_entry st' = pool_entry st" "slot_frame st st' \<Longrightarrow> pool_dir_data st' = pool_dir_data st"
    "slot_frame st st' \<Longrightarrow> brk (ic_mem st) \<le> brk (ic_mem st')" for st' by (auto simp: slot_frame_def)
  have pE: "p \<in> E" using struct_invD(2) [OF si b] unfolding eq split(2) using f(6) by (simp add: named_def)
  have step: "dirs_inv C E PL st' \<and> same_others C b st st' \<and>
      dirents st' (b # cs) = xs @ (if active s = VALID then [named s] else []) @ ys"
    if "new_slots c ((slots st c)[i := s]) st st'" "slot_frame st st'" "active s = VALID \<Longrightarrow> de_pentry s = Some p" for s st'
  proof -
    have sv: "active s = VALID \<Longrightarrow> de_pentry s \<in> Some ` E" using that(3) pE by simp
    note sn = struct_new_slot [OF si b f(2,3,4) sv that(1) rest [OF that(2)]]
    from slot_changed [OF inv b f(2-6) that(3,1,2)] sn(3,4) split show ?thesis by (simp add: same_others_def)
  qed
  show "cache_inode_operate_cached_dirent b nm newname CACHE_INODE_DIRENT_OP_LOOKUP st = Some (Some (snd x), CACHE_INODE_INVALID_ARGUMENT, st)"
    using f dir split(2) by (simp add: cache_inode_operate_cached_dirent_def named_def)
  let ?rm = "upd_ent c (\<lambda>e. set_nbactive (nbactive e - 1) e) (upd_slot d i (\<lambda>s. s\<lparr>active := INVALID\<rparr>) st)"
  have fr: "slot_frame st ?rm" by (simp add: slot_frame_def upd_ent_def upd_slot_def)
  have "cache_inode_operate_cached_dirent b nm newname CACHE_INODE_DIRENT_OP_REMOVE st = Some (Some (snd x), CACHE_INODE_SUCCESS, ?rm)"
    using f dir split(2) d by (simp add: cache_inode_operate_cached_dirent_def named_def upd_slot_def upd_ent_def)
  with step [OF upd(1) fr] fr
  show "\<exists>st'. cache_inode_operate_cached_dirent b nm newname CACHE_INODE_DIRENT_OP_REMOVE st =
      Some (Some (snd x), CACHE_INODE_SUCCESS, st') \<and> dirs_inv C E PL st' \<and> dirents st' (b # cs) = xs @ ys \<and>
      same_others C b st st' \<and> slot_frame st st'" by simp
  let ?mv = "upd_slot d i (\<lambda>s. s\<lparr>de_name := n\<rparr>) st"
  have fr: "slot_frame st ?mv" by (simp add: slot_frame_def upd_slot_def)
  have "cache_inode_operate_cached_dirent b nm (Some n) CACHE_INODE_DIRENT_OP_RENAME st = Some (Some (snd x), CACHE_INODE_SUCCESS, ?mv)"
    using f dir split(2) d by (simp add: cache_inode_operate_cached_dirent_def FSAL_namecpy_def named_def fsal_name_eq)
  with step [OF upd(2) fr] fr f(5,6) split(2)
  show "\<exists>st'. cache_inode_operate_cached_dirent b nm (Some n) CACHE_INODE_DIRENT_OP_RENAME st =
      Some (Some (snd x), CACHE_INODE_SUCCESS, st') \<and> dirs_inv C E PL st' \<and> dirents st' (b # cs) = xs @ (n, snd x) # ys \<and>
      same_others C b st st' \<and> slot_frame st st'" by (simp add: named_def)
qed

section \<open>Parent records\<close>

lemma plist_cong:
  "(\<And>q. q \<in> set qs \<Longrightarrow> next_parent (pm' q) = next_parent (pm q)) \<Longrightarrow> plist pm' p qs = plist pm p qs"
  by (induction qs arbitrary: p) auto

lemma plist_remove:
  assumes "plist pm p (us @ q # vs)" and "distinct (us @ q # vs)" and "us \<noteq> []"
  shows "plist (pm(last us := (pm (last us))\<lparr>next_parent := next_parent (pm q)\<rparr>)) p (us @ vs)"
  using assms
proof (induction us arbitrary: p)
  case (Cons u us)
  show ?case
  proof (cases "us = []")
    case True
    have "plist (pm(u := (pm u)\<lparr>next_parent := next_parent (pm q)\<rparr>)) (next_parent (pm q)) vs = plist pm (next_parent (pm q)) vs"
      by (rule plist_cong) (use Cons.prems True in auto)
    with Cons.prems True show ?thesis by (simp add: fun_upd_def)
  next
    case False
    then have "last us \<in> set us" by simp
    then have "last us \<noteq> u" using Cons.prems(2) by auto
    with Cons.IH [of "next_parent (pm u)"] Cons.prems False show ?thesis by simp
  qed
qed simp

lemma parent_test:
  assumes "struct_inv C E st" and "C b = Some cs" and "c \<in> nodes C"
  shows "(c = b \<or> md_type (internal_md (ents st c)) = DIR_CONTINUE \<and> dc_pdir_begin (dir_cont (ents st c)) = Some b) \<longleftrightarrow> c \<in> set (b # cs)"
proof -
  from assms(3) obtain b' cs' where b': "C b' = Some cs'" "c \<in> set (b' # cs')" by (auto simp: nodes_def)
  note ok = struct_invD(1) [OF assms(1,2)] struct_invD(1) [OF assms(1) b'(1)]
  note f = cont_fields [OF ok(1), of c] cont_fields [OF ok(2), of c] dir_okD(1) [OF ok(1)] dir_okD(1) [OF ok(2)]
  show ?thesis
  proof (cases "c = b'")
    case True
    with f show ?thesis by (auto simp: is_begin_def)
  next
    case False
    with b' f have "dc_pdir_begin (dir_cont (ents st c)) = Some b'" "\<not> is_begin (ents st c)" by auto
    with f b' assms(2) show ?thesis by auto
  qed
qed

lemma find_parent_spec:
  assumes inv: "struct_inv C E st" and b: "C b = Some cs" and "plist (parents st) ptr qs"
    and "\<forall>q \<in> set qs. parent (parents st q) \<in> Some ` nodes C"
  shows "(\<forall>q \<in> set qs. \<not> in_dir st (b # cs) q) \<and> find_parent b prev ptr st = Some None \<or>
    (\<exists>us q vs. qs = us @ q # vs \<and> in_dir st (b # cs) q \<and> find_parent b prev ptr st = Some (Some (last_ptr prev us, q)))"
  using assms(3,4)
proof (induction qs arbitrary: ptr prev)
  case Nil
  then show ?case by (simp add: find_parent.simps)
next
  case (Cons q qs)
  from Cons.prems obtain c where c: "parent (parents st q) = Some c" "c \<in> nodes C" "ptr = Some q" by auto
  note t = parent_test [OF inv b c(2)]
  show ?case
  proof (cases "c \<in> set (b # cs)")
    case True
    with c t have "find_parent b prev ptr st = Some (Some (prev, q))" "in_dir st (b # cs) q"
      by (simp_all only: find_parent.simps [of b prev] in_dir_def option.case if_True) auto
    then show ?thesis by (intro disjI2 exI [of _ "[]"] exI [of _ q] exI [of _ qs]) simp
  next
    case False
    with c t have step: "find_parent b prev ptr st = find_parent b (Some q) (next_parent (parents st q)) st" "\<not> in_dir st (b # cs) q"
      by (simp_all only: find_parent.simps [of b prev] in_dir_def option.case if_False) auto
    from Cons.IH [of "next_parent (parents st q)" "Some q"] Cons.prems have
      "(\<forall>q \<in> set qs. \<not> in_dir st (b # cs) q) \<and> find_parent b (Some q) (next_parent (parents st q)) st = Some None \<or>
       (\<exists>us q' vs. qs = us @ q' # vs \<and> in_dir st (b # cs) q' \<and>
         find_parent b (Some q) (next_parent (parents st q)) st = Some (Some (last_ptr (Some q) us, q')))" by simp
    then show ?thesis
    proof (elim disjE exE conjE)
      fix us q' vs assume a: "qs = us @ q' # vs" "in_dir st (b # cs) q'"
        "find_parent b (Some q) (next_parent (parents st q)) st = Some (Some (last_ptr (Some q) us, q'))"
      show ?thesis
        by (intro disjI2 exI [of _ "q # us"] exI [of _ q'] exI [of _ vs]) (use a step(1) in simp)
    qed (use step in simp)
  qed
qed

lemma parents_invD:
  assumes "parents_inv C E PL st" and "e \<in> E"
  shows "plist (parents st) (parent_list (ents st e)) (PL e)" "distinct (PL e)" "\<forall>q \<in> set (PL e). parent (parents st q) \<in> Some ` nodes C"
    and "\<And>b cs. C b = Some cs \<Longrightarrow> count_list (map snd (dirents st (b # cs))) e \<le> length (filter (in_dir st (b # cs)) (PL e))"
    and "\<And>e'. e' \<in> E \<Longrightarrow> e \<noteq> e' \<Longrightarrow> set (PL e) \<inter> set (PL e') = {}"
  using assms unfolding parents_inv_def by blast+

text \<open>The record \<open>q\<close> of the entry \<open>p\<close> leaves its list and goes back to the pool.\<close>

lemma parents_unlink:
  assumes si: "struct_inv C E st" and pi: "parents_inv C E PL st" and b: "C b = Some cs" and p: "p \<in> E" and PL: "PL p = us @ q # vs"
    and q: "in_dir st (b # cs) q"
    and plist: "plist (parents st') (parent_list (ents st' p)) (us @ vs)"
    and nx: "\<And>r. r \<notin> set us \<Longrightarrow> next_parent (parents st' r) = next_parent (parents st r)"
    and par: "\<And>r. parent (parents st' r) = parent (parents st r)"
    and pl: "\<And>e. e \<noteq> p \<Longrightarrow> parent_list (ents st' e) = parent_list (ents st e)"
    and mem: "pool_parent st' = q # pool_parent st" "ic_mem st' = ic_mem st"
    and cnt: "count_list (map snd (dirents st' (b # cs))) p < count_list (map snd (dirents st (b # cs))) p"
      "\<And>e. count_list (map snd (dirents st' (b # cs))) e \<le> count_list (map snd (dirents st (b # cs))) e"
    and others: "same_others C b st st'"
  shows "parents_inv C E (PL(p := us @ vs)) st'"
proof -
  let ?PL = "PL(p := us @ vs)"
  note P = parents_invD [OF pi]
  have ind: "in_dir st' xs = in_dir st xs" for xs by (simp add: in_dir_def par fun_eq_iff)
  have sub: "set (?PL e) \<subseteq> set (PL e)" for e by (auto simp: PL)
  have lists: "plist (parents st') (parent_list (ents st' e)) (?PL e) \<and> distinct (?PL e) \<and>
    (\<forall>q \<in> set (?PL e). parent (parents st' q) \<in> Some ` nodes C)" if e: "e \<in> E" for e
  proof (cases "e = p")
    case True
    with plist P(2) [OF p] P(3) [OF p] show ?thesis by (simp add: PL par)
  next
    case False
    have "set us \<inter> set (PL e) = {}" using P(5) [OF p e] False by (auto simp: PL)
    then have "plist (parents st') (parent_list (ents st e)) (PL e) = plist (parents st) (parent_list (ents st e)) (PL e)"
      by (intro plist_cong nx) blast
    with False P(1,2,3) [OF e] show ?thesis by (simp add: pl par)
  qed
  have counts: "count_list (map snd (dirents st' (b' # cs'))) e \<le> length (filter (in_dir st' (b' # cs')) (?PL e))"
    if e: "e \<in> E" and b': "C b' = Some cs'" for e b' cs'
  proof (cases "b' = b")
    case True
    with b b' have "cs' = cs" by simp
    with True P(4) [OF e b] P(4) [OF p b] cnt(1) cnt(2) [of e] q show ?thesis
      by (cases "e = p") (simp_all add: ind PL del: dirents_simps)
  next
    case False
    have "\<not> in_dir st (b' # cs') q" using q nodes_other [OF si b b' False] unfolding in_dir_def image_iff by (metis option.inject)
    with P(4) [OF e b'] others b' False show ?thesis
      by (cases "e = p") (simp_all add: ind PL same_others_def del: dirents_simps)
  qed
  have fr: "free_ok (insert q (\<Union>e \<in> E. set (?PL e))) (pool_parent st) (ic_mem st)"
  proof (rule free_ok_subset [of "\<Union>e \<in> E. set (PL e)"])
    show "free_ok (\<Union>e \<in> E. set (PL e)) (pool_parent st) (ic_mem st)" using pi by (simp add: parents_inv_def)
    have "q \<in> set (PL p)" by (simp add: PL)
    then show "insert q (\<Union>e \<in> E. set (?PL e)) \<subseteq> (\<Union>e \<in> E. set (PL e))" using sub p by blast
  qed
  have "q \<notin> set (?PL e)" if "e \<in> E" for e
    using P(2) [OF p] P(5) [OF p that] by (cases "e = p") (auto simp: PL)
  then have "free_ok (\<Union>e \<in> E. set (?PL e)) (pool_parent st') (ic_mem st')"
    using free_ok_release [OF fr] by (simp add: mem RELEASE_PREALLOC_def)
  moreover have "set (?PL e) \<inter> set (?PL e') = {}" if "e \<in> E" "e' \<in> E" "e \<noteq> e'" for e e'
    using sub [of e] sub [of e'] P(5) [OF that] by blast
  ultimately show ?thesis using lists counts unfolding parents_inv_def by blast
qed

lemma struct_cong:
  assumes "struct_inv C E st" and "\<And>c. c \<in> E \<Longrightarrow> dview (ents st' c) = dview (ents st c)"
    and "\<And>d. d \<in> data_of st ` nodes C \<Longrightarrow> dir_datas st' d = dir_datas st d" "\<And>d. length (dir_datas st' d) = CHILDREN_ARRAY_SIZE"
    and "free_ok E (pool_entry st') (ic_mem st')" "free_ok (data_of st ` nodes C) (pool_dir_data st') (ic_mem st')"
  shows "struct_inv C E st'" and "\<And>b cs. C b = Some cs \<Longrightarrow> dirents st' (b # cs) = dirents st (b # cs)"
    and "\<And>b. b \<in> dom C \<Longrightarrow> handle_of st' b = handle_of st b"
    and "\<And>c. c \<in> nodes C \<Longrightarrow> slots st' c = slots st c" "\<And>c. c \<in> nodes C \<Longrightarrow> data_of st' c = data_of st c"
proof -
  note S = struct_invD [OF assms(1)]
  have E: "c \<in> E" if "c \<in> nodes C" for c using that S(5) by blast
  show data: "data_of st' c = data_of st c" if "c \<in> nodes C" for c
    using dview_fields(8) [OF assms(2) [OF E [OF that]]] by (simp add: data_of_def)
  show sl: "slots st' c = slots st c" if "c \<in> nodes C" for c
    using data [OF that] assms(3) [OF imageI [OF that]] by (simp add: slots_def data_of_def)
  show dir: "dirents st' (b # cs) = dirents st (b # cs)" if "C b = Some cs" for b cs
    by (rule dirents_cong) (use sl that in blast)
  show hd: "handle_of st' b = handle_of st b" if "b \<in> dom C" for b
  proof -
    from that obtain cs where "C b = Some cs" by auto
    then have "b \<in> nodes C" by (rule nodesI) simp
    from dview_fields(1) [OF assms(2) [OF E [OF this]]] show ?thesis by (simp add: handle_of_def)
  qed
  have "dir_ok st' b cs" if b: "C b = Some cs" for b cs
    by (rule dir_ok_cong [OF S(1) [OF b]]) (use sl b assms(2) E in blast)
  moreover have "data_of st' ` nodes C = data_of st ` nodes C" using data by (rule image_cong [OF refl])
  moreover have "inj_on (data_of st') (nodes C)" "inj_on (handle_of st') (dom C)"
    using S(3,4) data hd by (simp_all cong: inj_on_cong)
  ultimately show "struct_inv C E st'"
    using S(2) dir S(5) assms(4-6) unfolding struct_inv_def by simp
qed

lemma remove_miss:
  assumes "dirs_inv C E PL st" and "C b = Some cs" and "\<not> full_debug st" and "\<forall>x \<in> set (dirents st (b # cs)). \<not> hit st nm x"
  shows "cache_inode_remove_cached_dirent b nm st = Some (CACHE_INODE_NOT_FOUND, CACHE_INODE_NOT_FOUND, st)"
proof -
  have "struct_inv C E st" using assms(1) by (simp add: dirs_inv_def)
  from dir_okD(2) [OF struct_invD(1) [OF this assms(2)]] have "is_dir (ents st b)" .
  with operate_miss [OF assms, of None] show ?thesis by (simp add: cache_inode_remove_cached_dirent_def)
qed

lemma remove_hit:
  assumes inv: "dirs_inv C E PL st" and b: "C b = Some cs" and dbg: "\<not> full_debug st"
    and eq: "dirents st (b # cs) = xs @ x # ys" and hit: "hit st nm x" and miss: "\<forall>x \<in> set xs. \<not> hit st nm x"
  shows "\<exists>us q vs st'. PL (snd x) = us @ q # vs \<and> in_dir st (b # cs) q \<and>
    cache_inode_remove_cached_dirent b nm st = Some (CACHE_INODE_SUCCESS, CACHE_INODE_SUCCESS, st') \<and>
    dirs_inv C E (PL(snd x := us @ vs)) st' \<and> dirents st' (b # cs) = xs @ ys \<and> same_others C b st st' \<and>
    pool_parent st' = q # pool_parent st \<and> full_debug st' = full_debug st \<and> (\<forall>e. internal_md (ents st' e) = internal_md (ents st e))"
proof -
  let ?p = "snd x"
  from operate_hit(2) [OF inv b dbg eq hit miss, of None] obtain st1 where r:
    "cache_inode_operate_cached_dirent b nm None CACHE_INODE_DIRENT_OP_REMOVE st = Some (Some ?p, CACHE_INODE_SUCCESS, st1)"
    "dirs_inv C E PL st1" "dirents st1 (b # cs) = xs @ ys" "same_others C b st st1" "slot_frame st st1" by blast
  have si: "struct_inv C E st" "struct_inv C E st1" and pi: "parents_inv C E PL st" "parents_inv C E PL st1"
    using inv r(2) by (simp_all add: dirs_inv_def)
  have p: "?p \<in> E" using struct_invD(2) [OF si(1) b] unfolding eq by simp
  note P = parents_invD [OF pi(2) p] and P0 = parents_invD [OF pi(1) p]
  have fr: "parents st1 = parents st" "in_dir st1 = in_dir st" "\<And>e. parent_list (ents st1 e) = parent_list (ents st e)"
    "pool_parent st1 = pool_parent st" "ic_mem st1 = ic_mem st" "full_debug st1 = full_debug st" "\<And>e. internal_md (ents st1 e) = internal_md (ents st e)"
    using r(5) by (auto simp: slot_frame_def in_dir_def fun_eq_iff)
  have "filter (in_dir st1 (b # cs)) (PL ?p) \<noteq> []" using P0(4) [OF b] unfolding eq fr(2) by auto
  then have "\<not> (\<forall>q \<in> set (PL ?p). \<not> in_dir st1 (b # cs) q)" by (metis filter_False)
  with find_parent_spec [OF si(2) b P(1,3), of None] obtain us q vs where q: "PL ?p = us @ q # vs" "in_dir st1 (b # cs) q"
    "find_parent b None (parent_list (ents st1 ?p)) st1 = Some (Some (last_ptr None us, q))" by blast
  define st2 where "st2 = (case last_ptr None us of None \<Rightarrow> upd_ent ?p (\<lambda>e. e\<lparr>parent_list := next_parent (parents st1 q)\<rparr>) st1
      | Some q0 \<Rightarrow> upd_parent q0 (\<lambda>r. r\<lparr>next_parent := next_parent (parents st1 q)\<rparr>) st1)"
  let ?st = "st2\<lparr>pool_parent := RELEASE_PREALLOC q (pool_parent st2)\<rparr>"
  have "is_dir (ents st b)" by (rule dir_okD(2) [OF struct_invD(1) [OF si(1) b]])
  then have run: "cache_inode_remove_cached_dirent b nm st = Some (CACHE_INODE_SUCCESS, CACHE_INODE_SUCCESS, ?st)"
    using r(1) q(3) by (simp add: cache_inode_remove_cached_dirent_def st2_def Let_def)
  have same: "dview (ents ?st e) = dview (ents st1 e)" "lru_entry_of (ents ?st e) = lru_entry_of (ents st1 e)"
    "e \<noteq> ?p \<Longrightarrow> parent_list (ents ?st e) = parent_list (ents st1 e)" "dir_datas ?st = dir_datas st1" "pool_entry ?st = pool_entry st1"
    "pool_dir_data ?st = pool_dir_data st1" "ic_mem ?st = ic_mem st1" "ic_ht ?st = ic_ht st1" "lru_heap ?st = lru_heap st1"
    "lru_gc_list ?st = lru_gc_list st1" "parent (parents ?st e) = parent (parents st1 e)" "pool_parent ?st = q # pool_parent st1"
    "e \<notin> set us \<Longrightarrow> next_parent (parents ?st e) = next_parent (parents st1 e)" "full_debug ?st = full_debug st1" "internal_md (ents ?st e) = internal_md (ents st1 e)" for e
    by (auto simp: st2_def upd_ent_def upd_parent_def dview_def lru_entry_of_def RELEASE_PREALLOC_def last_ptr_def)
  have pl: "plist (parents ?st) (parent_list (ents ?st ?p)) (us @ vs)"
  proof (cases "us = []")
    case True
    with P(1) q(1) show ?thesis by (simp add: st2_def upd_ent_def)
  next
    case False
    with plist_remove [OF P(1) [unfolded q(1)] P(2) [unfolded q(1)]] show ?thesis by (simp add: st2_def last_ptr_def upd_parent_def)
  qed
  note S = struct_invD [OF si(2)]
  have sc: "struct_inv C E ?st" "\<And>b cs. C b = Some cs \<Longrightarrow> dirents ?st (b # cs) = dirents st1 (b # cs)"
    "\<And>b. b \<in> dom C \<Longrightarrow> handle_of ?st b = handle_of st1 b"
    by (rule struct_cong [OF si(2)]; use same S(6-8) in simp)+
  have d: "dirents ?st (b # cs) = xs @ ys" "same_others C b st ?st"
    using sc(2) b r(3,4) by (simp_all add: same_others_def del: dirents_simps)
  have "parents_inv C E (PL(?p := us @ vs)) ?st"
  proof (rule parents_unlink [OF si(1) pi(1) b p q(1) _ pl])
    show "count_list (map snd (dirents ?st (b # cs))) ?p < count_list (map snd (dirents st (b # cs))) ?p" unfolding d(1) eq by simp
    show "count_list (map snd (dirents ?st (b # cs))) e \<le> count_list (map snd (dirents st (b # cs))) e" for e unfolding d(1) eq by simp
  qed (use q(2) fr same d(2) in auto)
  moreover note sc(1)
  moreover have "keys_ok C ?st" by (rule keys_cong [of C st1]) (use r(2) sc(3) same in \<open>auto simp: dirs_inv_def\<close>)
  moreover have "lists_ok C ?st" by (rule lists_cong [of C st1]) (use r(2) same in \<open>auto simp: dirs_inv_def\<close>)
  ultimately show ?thesis using q(1,2) run d fr same(12,14,15) by (auto simp: dirs_inv_def)
qed

section \<open>Invalidation\<close>

definition deact :: "dir_entry list \<Rightarrow> dir_entry list" where
  "deact ss = map (\<lambda>s. s\<lparr>active := INVALID\<rparr>) ss"

lemma deact_simps [simp]: "live (deact ss) = []" "length (deact ss) = length ss" "deact (deact ss) = deact ss"
  by (auto simp: deact_def filter_empty_conv)

lemma slots_ok_deact: "length ss = CHILDREN_ARRAY_SIZE \<Longrightarrow> slots_ok (deact ss)"
  by (auto simp: slots_ok_def deact_def)

text \<open>The state after the loop over the \<^verbatim>\<open>DIR_CONTINUE\<close> entries \<open>cs\<close>.\<close>

definition clear_conts :: "addr list \<Rightarrow> ('h, 'a) inode_store \<Rightarrow> ('h, 'a) inode_store" where
  "clear_conts cs st = st\<lparr>
     ents := (\<lambda>c. if c \<in> set cs then (ents st c)\<lparr>dir_cont := (dir_cont (ents st c))\<lparr>dc_nbactive := 0\<rparr>\<rparr> else ents st c),
     dir_datas := (\<lambda>d. if Some d \<in> (\<lambda>c. dc_pdir_data (dir_cont (ents st c))) ` set cs then deact (dir_datas st d) else dir_datas st d)\<rparr>"

fun cont_chain :: "('h, 'a) inode_store \<Rightarrow> ptr \<Rightarrow> addr list \<Rightarrow> bool" where
  "cont_chain st p [] \<longleftrightarrow> p = None"
| "cont_chain st p (c # cs) \<longleftrightarrow> p = Some c \<and> dc_pdir_data (dir_cont (ents st c)) \<noteq> None \<and> cont_chain st (dc_pdir_cont (dir_cont (ents st c))) cs"

lemma clear_conts_ents:
  "ents (clear_conts cs st) c = (if c \<in> set cs then (ents st c)\<lparr>dir_cont := (dir_cont (ents st c))\<lparr>dc_nbactive := 0\<rparr>\<rparr> else ents st c)"
  by (simp add: clear_conts_def)

lemma clear_conts_datas:
  "dir_datas (clear_conts cs st) d =
     (if Some d \<in> (\<lambda>c. dc_pdir_data (dir_cont (ents st c))) ` set cs then deact (dir_datas st d) else dir_datas st d)"
  by (simp add: clear_conts_def)

lemma clear_conts_fields [simp]:
  "dc_pdir_data (dir_cont (ents (clear_conts cs st) c)) = dc_pdir_data (dir_cont (ents st c))"
  "dc_pdir_cont (dir_cont (ents (clear_conts cs st) c)) = dc_pdir_cont (dir_cont (ents st c))"
  by (simp_all add: clear_conts_def)

lemma cont_chain_clear [simp]: "cont_chain (clear_conts xs st) p cs = cont_chain st p cs"
  by (induction cs arbitrary: p) simp_all

lemma clear_conts_Cons: "clear_conts cs (clear_conts [c] st) = clear_conts (c # cs) st"
proof (rule inode_store.equality)
  show "ents (clear_conts cs (clear_conts [c] st)) = ents (clear_conts (c # cs) st)" by (simp add: fun_eq_iff clear_conts_ents)
  show "dir_datas (clear_conts cs (clear_conts [c] st)) = dir_datas (clear_conts (c # cs) st)"
    by (simp add: fun_eq_iff clear_conts_datas)
qed (simp_all add: clear_conts_def)

lemma invalidate_conts_run: "cont_chain st p cs \<Longrightarrow> invalidate_conts p st = Some (clear_conts cs st)"
proof (induction cs arbitrary: p st)
  case Nil
  then show ?case by (simp add: invalidate_conts.simps clear_conts_def)
next
  case (Cons c cs)
  then obtain d where d: "p = Some c" "dc_pdir_data (dir_cont (ents st c)) = Some d" by auto
  have "upd_ent c (\<lambda>e. e\<lparr>dir_cont := (dir_cont e)\<lparr>dc_nbactive := 0\<rparr>\<rparr>) (clear_slots d st) = clear_conts [c] st"
    by (auto simp: upd_ent_def clear_slots_def clear_conts_def deact_def d(2) fun_eq_iff)
  then have "invalidate_conts p st = invalidate_conts (dc_pdir_cont (dir_cont (ents st c))) (clear_conts [c] st)"
    by (simp add: invalidate_conts.simps [of "Some c"] d)
  also have "\<dots> = Some (clear_conts cs (clear_conts [c] st))" by (rule Cons.IH) (use Cons.prems in simp)
  finally show ?case by (simp add: clear_conts_Cons)
qed

lemma linked_chain:
  assumes "linked st n ns" and "\<And>c. c \<in> set (n # ns) \<Longrightarrow> \<not> is_begin (ents st c) \<and> pdir_data (ents st c) \<noteq> None"
  shows "cont_chain st (Some n) (n # ns)"
  using assms
proof (induction ns arbitrary: n)
  case Nil
  then show ?case by (auto simp: pdir_cont_def pdir_data_def split: if_splits)
next
  case (Cons m ns)
  from Cons.IH [of m] Cons.prems have "cont_chain st (Some m) (m # ns)" by simp
  moreover have "\<not> is_begin (ents st n)" "dc_pdir_data (dir_cont (ents st n)) \<noteq> None"
    using Cons.prems(2) [of n] by (auto simp: pdir_data_def split: if_splits)
  ultimately show ?case using Cons.prems(1) by (simp add: pdir_cont_def)
qed

lemma dir_chain:
  assumes "dir_ok st b cs"
  shows "cont_chain st (db_pdir_cont (dir_begin (ents st b))) cs" and "cs = n # ns \<Longrightarrow> linked st n ns"
    and "pdir_cont (ents st b) = (case cs of [] \<Rightarrow> None | n # _ \<Rightarrow> Some n)"
proof -
  have p: "pdir_cont (ents st b) = db_pdir_cont (dir_begin (ents st b))" using dir_okD(1) [OF assms] by (simp add: pdir_cont_def)
  show l: "linked st n ns" if "cs = n # ns" for n ns using dir_okD(4) [OF assms] that by (auto simp: dir_links_def)
  show q: "pdir_cont (ents st b) = (case cs of [] \<Rightarrow> None | n # _ \<Rightarrow> Some n)"
    using dir_okD(4) [OF assms] by (cases cs) (auto simp: dir_links_def)
  show "cont_chain st (db_pdir_cont (dir_begin (ents st b))) cs"
  proof (cases cs)
    case Nil
    with p q show ?thesis by simp
  next
    case (Cons n ns)
    have "cont_chain st (Some n) (n # ns)"
      by (rule linked_chain [OF l [OF Cons]]) (use Cons cont_fields(3) [OF assms] dir_okD(6) [OF assms] in \<open>auto simp: node_ok_def\<close>)
    with Cons p q show ?thesis by simp
  qed
qed

text \<open>What an invalidation leaves of the directory: everything but the slots, the counters and the flags of the beginning.\<close>

lemma invalidate_run:
  assumes "dir_ok st b cs"
  obtains st' where "cache_inode_invalidate_all_cached_dirent b st = Some (CACHE_INODE_SUCCESS, st')"
    "\<And>d. dir_datas st' d = (if d \<in> data_of st ` set (b # cs) then deact (dir_datas st d) else dir_datas st d)"
    "\<And>c. c \<notin> set (b # cs) \<Longrightarrow> ents st' c = ents st c"
    "\<And>c. c \<in> set cs \<Longrightarrow> ents st' c = (ents st c)\<lparr>dir_cont := (dir_cont (ents st c))\<lparr>dc_nbactive := 0\<rparr>\<rparr>"
    "ents st' b = (ents st b)\<lparr>dir_begin := (dir_begin (ents st b))\<lparr>db_nbactive := 0, has_been_readdir := CACHE_INODE_NO, db_end_of_dir := END_OF_DIR\<rparr>\<rparr>"
    "pool_entry st' = pool_entry st" "pool_dir_data st' = pool_dir_data st" "pool_parent st' = pool_parent st" "ic_mem st' = ic_mem st"
    "ic_ht st' = ic_ht st" "lru_heap st' = lru_heap st" "lru_gc_list st' = lru_gc_list st" "parents st' = parents st" "full_debug st' = full_debug st"
proof -
  note D = dir_okD [OF assms]
  from D(1) D(6) [of b] obtain d where d: "db_pdir_data (dir_begin (ents st b)) = Some d" "data_of st b = d"
    by (auto simp: node_ok_def pdir_data_def data_of_def)
  let ?s1 = "upd_ent b (\<lambda>e. e\<lparr>dir_begin := (dir_begin e)\<lparr>db_nbactive := 0\<rparr>\<rparr>) (clear_slots d st)"
  let ?s2 = "clear_conts cs ?s1"
  let ?s3 = "upd_ent b (\<lambda>e. e\<lparr>dir_begin := (dir_begin e)\<lparr>has_been_readdir := CACHE_INODE_NO, db_end_of_dir := END_OF_DIR\<rparr>\<rparr>) ?s2"
  have b: "b \<notin> set cs" using dir_distinct [OF assms] by simp
  have "cont_chain ?s1 p xs = cont_chain st p xs" if "b \<notin> set xs" for p xs
    using that by (induction xs arbitrary: p) (simp_all add: upd_ent_def clear_slots_def)
  with dir_chain(1) [OF assms] b have "cont_chain ?s1 (db_pdir_cont (dir_begin (ents ?s1 b))) cs" by (simp add: upd_ent_def clear_slots_def)
  from invalidate_conts_run [OF this] d(1) D(1)
  have run: "cache_inode_invalidate_all_cached_dirent b st = Some (CACHE_INODE_SUCCESS, ?s3)"
    by (simp add: cache_inode_invalidate_all_cached_dirent_def)
  have img: "(\<lambda>c. dc_pdir_data (dir_cont (ents ?s1 c))) ` set cs = Some ` data_of st ` set cs"
  proof (subst image_image, rule image_cong [OF refl])
    fix c assume c: "c \<in> set cs"
    with b have "c \<noteq> b" by blast
    with D(6) [of c] c cont_fields(3) [OF assms c] show "dc_pdir_data (dir_cont (ents ?s1 c)) = Some (data_of st c)"
      by (auto simp: node_ok_def pdir_data_def data_of_def upd_ent_def clear_slots_def split: if_splits)
  qed
  have "dir_datas ?s3 x = dir_datas ?s2 x" for x by (simp add: upd_ent_def)
  moreover have "dir_datas ?s1 x = (if x = d then deact (dir_datas st x) else dir_datas st x)" for x
    by (simp add: upd_ent_def clear_slots_def deact_def)
  ultimately have datas: "dir_datas ?s3 x = (if x \<in> data_of st ` set (b # cs) then deact (dir_datas st x) else dir_datas st x)" for x
    unfolding clear_conts_datas img using d(2) by auto
  show thesis
    by (rule that [OF run datas]) (use b in \<open>auto simp: upd_ent_def clear_slots_def clear_conts_def\<close>)
qed

lemma dir_ok_cleared:
  assumes ok: "dir_ok st b cs" and sl: "\<And>c. c \<in> set (b # cs) \<Longrightarrow> slots st' c = deact (slots st c)"
    and cs: "\<And>c. c \<in> set cs \<Longrightarrow> ents st' c = (ents st c)\<lparr>dir_cont := (dir_cont (ents st c))\<lparr>dc_nbactive := 0\<rparr>\<rparr>"
    and b: "ents st' b = (ents st b)\<lparr>dir_begin := (dir_begin (ents st b))\<lparr>db_nbactive := 0, has_been_readdir := CACHE_INODE_NO,
      db_end_of_dir := END_OF_DIR\<rparr>\<rparr>"
  shows "dir_ok st' b cs"
proof -
  note D = dir_okD [OF ok]
  have bf: "is_begin (ents st' b)" "pdir_cont (ents st' b) = pdir_cont (ents st b)" "end_of_dir (ents st' b) = END_OF_DIR"
    "pdir_data (ents st' b) = pdir_data (ents st b)" "nbactive (ents st' b) = 0" "is_dir (ents st' b)"
    using D(1) b by (simp_all add: centry_defs)
  have cf: "\<not> is_begin (ents st' c)" "is_dir (ents st' c)" "pdir_cont (ents st' c) = pdir_cont (ents st c)" "end_of_dir (ents st' c) = end_of_dir (ents st c)"
    "pdir_data (ents st' c) = pdir_data (ents st c)" "nbactive (ents st' c) = 0" if "c \<in> set cs" for c
    using cont_fields(1,3) [OF ok that] cs [OF that] by (simp_all add: centry_defs)
  have node: "node_ok st' c" if c: "c \<in> set (b # cs)" for c
  proof -
    have "length (slots st c) = CHILDREN_ARRAY_SIZE" using D(6) [OF c] by (simp add: node_ok_def slots_ok_def)
    with c sl [OF c] slots_ok_deact D(6) [OF c] bf cf show ?thesis by (auto simp: node_ok_def)
  qed
  have lk: "linked st' n ns" if "cs = n # ns" for n ns
  proof -
    have "linked st' n ns = linked st n ns" by (rule linked_cong) (use cf that in auto)
    with dir_chain(2) [OF ok that] show ?thesis by simp
  qed
  have "dir_links st' b cs"
  proof (cases cs)
    case Nil
    with dir_chain(3) [OF ok] bf show ?thesis by (simp add: dir_links_def)
  next
    case (Cons n ns)
    with dir_chain(3) [OF ok] bf lk [OF Cons] sl show ?thesis by (simp add: dir_links_def)
  qed
  moreover have "conts_ok st' b cs" using D(3) cs by (simp add: conts_ok_def)
  ultimately show ?thesis using bf(1) node D(5) by (simp add: dir_ok_def)
qed

lemma invalidate_spec:
  assumes inv: "dirs_inv C E PL st" and b: "C b = Some cs"
  shows "\<exists>st'. cache_inode_invalidate_all_cached_dirent b st = Some (CACHE_INODE_SUCCESS, st') \<and> dirs_inv C E PL st' \<and>
    dirents st' (b # cs) = [] \<and> same_others C b st st' \<and> full_debug st' = full_debug st \<and> has_been_readdir (dir_begin (ents st' b)) = CACHE_INODE_NO \<and>
    (\<forall>c. internal_md (ents st' c) = internal_md (ents st c))"
proof -
  have si: "struct_inv C E st" and rest: "keys_ok C st" "parents_inv C E PL st" "lists_ok C st" using inv by (auto simp: dirs_inv_def)
  note S = struct_invD [OF si]
  note ok = S(1) [OF b]
  obtain st' where run: "cache_inode_invalidate_all_cached_dirent b st = Some (CACHE_INODE_SUCCESS, st')"
    and dt: "\<And>d. dir_datas st' d = (if d \<in> data_of st ` set (b # cs) then deact (dir_datas st d) else dir_datas st d)"
    and oth: "\<And>c. c \<notin> set (b # cs) \<Longrightarrow> ents st' c = ents st c"
    and ce: "\<And>c. c \<in> set cs \<Longrightarrow> ents st' c = (ents st c)\<lparr>dir_cont := (dir_cont (ents st c))\<lparr>dc_nbactive := 0\<rparr>\<rparr>"
    and be: "ents st' b = (ents st b)\<lparr>dir_begin := (dir_begin (ents st b))\<lparr>db_nbactive := 0, has_been_readdir := CACHE_INODE_NO, db_end_of_dir := END_OF_DIR\<rparr>\<rparr>"
    and fr: "pool_entry st' = pool_entry st" "pool_dir_data st' = pool_dir_data st" "pool_parent st' = pool_parent st" "ic_mem st' = ic_mem st"
      "ic_ht st' = ic_ht st" "lru_heap st' = lru_heap st" "lru_gc_list st' = lru_gc_list st" "parents st' = parents st" "full_debug st' = full_debug st"
    by (rule invalidate_run [OF ok]) blast
  have fields: "pdir_data (ents st' c) = pdir_data (ents st c)" "handle_of st' c = handle_of st c" "parent_list (ents st' c) = parent_list (ents st c)"
    "lru_entry_of (ents st' c) = lru_entry_of (ents st c)" "internal_md (ents st' c) = internal_md (ents st c)" for c
    using oth [of c] ce [of c] be by (cases "c \<in> set (b # cs)"; auto simp: centry_defs handle_of_def lru_entry_of_def)+
  have sl: "slots st' c = (if c \<in> set (b # cs) then deact (slots st c) else slots st c)" if "c \<in> nodes C" for c
  proof -
    have "data_of st c \<in> data_of st ` set (b # cs) \<longleftrightarrow> c \<in> set (b # cs)"
      by (rule inj_on_image_mem_iff [OF S(3) that]) (use b in blast)
    then show ?thesis using fields(1) [of c] dt [of "data_of st c"] by (simp add: slots_def data_of_def)
  qed
  have own: "slots st' c = deact (slots st c)" if "c \<in> set (b # cs)" for c using sl [OF nodesI [of C b, OF b that]] that by simp
  have d: "dirents st' (b # cs) = []" by (rule dirents_dead) (use own in auto)
  have ne: "c \<notin> set (b # cs)" if "C b' = Some cs'" "b' \<noteq> b" "c \<in> set (b' # cs')" for b' cs' c
    using nodes_other [OF si b that(1,2)] that(3) by blast
  have so: "same_others C b st st'" unfolding same_others_def
    by (intro allI impI dirents_cong) (use ne sl in \<open>meson nodesI\<close>)
  have "dir_ok st' b' cs' \<and> snd ` set (dirents st' (b' # cs')) \<subseteq> E" if b': "C b' = Some cs'" for b' cs'
  proof (cases "b' = b")
    case True
    with b b' d dir_ok_cleared [OF ok own ce be] show ?thesis by (auto simp del: dirents_simps)
  next
    case False
    have "dir_ok st' b' cs'"
      by (rule dir_ok_cong [OF S(1) [OF b']]) (use oth [OF ne [OF b' False]] sl [OF nodesI [of C b', OF b']] ne [OF b' False] in auto)
    with so b' False S(2) [OF b'] show ?thesis by (simp add: same_others_def del: dirents_simps)
  qed
  moreover have "data_of st' = data_of st" "handle_of st' = handle_of st" using fields by (auto simp: data_of_def)
  moreover have "length (dir_datas st' x) = CHILDREN_ARRAY_SIZE" for x using dt S(6) by simp
  ultimately have "struct_inv C E st'" using S(3-8) unfolding struct_inv_def fr by simp
  moreover have "parents_inv C E PL st'"
  proof (rule parents_cong [OF rest(2)])
    show "count_list (map snd (dirents st' (b' # cs'))) e \<le> count_list (map snd (dirents st (b' # cs'))) e" if "C b' = Some cs'" for b' cs' e
      using that b d so by (cases "b' = b") (auto simp: same_others_def simp del: dirents_simps)
  qed (use fr fields in auto)
  moreover have "keys_ok C st'" by (rule keys_cong [OF rest(1)]) (use fr fields in auto)
  moreover have "lists_ok C st'" by (rule lists_cong [OF rest(3)]) (use fr fields in auto)
  ultimately show ?thesis using run d so fr(9) be fields(5) by (auto simp: dirs_inv_def)
qed

end
