(* ===== verification/Dir_New.thy ===== *)
theory Dir_New
  imports Dir_Ops
begin

text \<open>
  What \<^verbatim>\<open>cache_inode_valid\<close> and \<^verbatim>\<open>cache_inode_new_entry\<close> do for the entries of directories, on every path.
\<close>

section \<open>The LRU list\<close>

lemma LRU_collect:
  assumes "lru_inv xs l h m" and "clean_entry (lparameter l) = lru_inode_clean_entry"
  shows "\<exists>l' h' xs'. LRU_gc_invalid (Some l) h () = Some (LRU_LIST_SUCCESS, Some l', h', ()) \<and> lru_inv xs' l' h' m \<and>
    lparameter l' = lparameter l \<and> (\<forall>q \<in> set xs. valid_state (h q) = LRU_ENTRY_VALID \<longrightarrow> q \<in> set xs') \<and>
    (\<forall>q. valid_state (h' q) = valid_state (h q))"
proof (cases "gc_idle l")
  case True
  then have "LRU_gc_invalid (Some l) h () = Some (LRU_LIST_SUCCESS, Some l, h, ())"
    using LRU_gc_idle [of xs l h "()"] assms(1) by (simp add: lru_inv_def)
  with assms(1) show ?thesis by blast
next
  case False
  have ok: "lru_ok xs l h" and own: "owned xs (entry_prealloc l) m" using assms(1) by (auto simp: lru_inv_def)
  from LRU_gc_run [OF ok False] obtain l' h' where g:
    "\<forall>w. LRU_gc_invalid (Some l) h w = map_option (\<lambda>(rc, w). (rc, Some l', h', w))
      (clean_all (clean_entry (lparameter l)) (map (\<lambda>p. buffdata (h p)) (gc_drops h xs)) LRU_LIST_SUCCESS w)"
    "lru_ok (gc_keeps h xs) l' h'" "same_contents (set xs) h h'" "entry_prealloc l' = rev (gc_drops h xs) @ entry_prealloc l"
    "lparameter l' = lparameter l" by blast
  have "clean_all lru_inode_clean_entry ds rc () = Some (rc, ())" for ds rc
    by (induction ds) (simp_all add: lru_inode_clean_entry_def)
  then have "LRU_gc_invalid (Some l) h () = Some (LRU_LIST_SUCCESS, Some l', h', ())" by (simp add: g(1) assms(2))
  moreover have "lru_inv (gc_keeps h xs) l' h' m" using g(2,4) owned_gc [OF own, of h] by (simp add: lru_inv_def)
  moreover have "q \<in> set (gc_keeps h xs)" if "q \<in> set xs" "valid_state (h q) = LRU_ENTRY_VALID" for q
    using that by (cases xs rule: rev_cases) (auto simp: gc_keeps_def)
  moreover have "\<forall>q. valid_state (h' q) = valid_state (h q)" using g(3) by (simp add: same_contents_def)
  ultimately show ?thesis using g(5) by blast
qed

lemma LRU_new_good:
  assumes "LRU_new_entry l h m = (rc, r, l', h', m')" and "mem_good m" and "nb_entry_prealloc (lparameter l) \<noteq> 0"
  shows "r \<noteq> None" and "fails m' = fails m"
proof -
  obtain q pool m1 where g: "GET_PREALLOC (nb_entry_prealloc (lparameter l)) (entry_prealloc l) m = (q, pool, m1)"
    by (cases "GET_PREALLOC (nb_entry_prealloc (lparameter l)) (entry_prealloc l) m") auto
  then have "r = q" "m' = m1" using assms(1) by (auto simp: LRU_new_entry_def Let_def split: option.splits)
  with GET_PREALLOC_good [OF g assms(2,3)] GET_PREALLOC_fails [OF g] show "r \<noteq> None" "fails m' = fails m" by auto
qed

text \<open>What \<^verbatim>\<open>cache_inode_valid\<close> may change: the LRU list, and of the directory \<open>b\<close> its place in the list and its times.\<close>

definition lru_frame :: "addr \<Rightarrow> ('h, 'a) inode_store \<Rightarrow> ('h, 'a) inode_store \<Rightarrow> bool" where
  "lru_frame b st st' \<longleftrightarrow> (\<forall>c. c \<noteq> b \<longrightarrow> ents st' c = ents st c) \<and> dview (ents st' b) = dview (ents st b) \<and>
     parent_list (ents st' b) = parent_list (ents st b) \<and> entry_lock (ents st' b) = entry_lock (ents st b) \<and>
     md_valid_state (internal_md (ents st' b)) = VALID \<and>
     dir_datas st' = dir_datas st \<and> parents st' = parents st \<and> ic_ht st' = ic_ht st \<and> pool_entry st' = pool_entry st \<and>
     pool_dir_data st' = pool_dir_data st \<and> pool_parent st' = pool_parent st \<and> full_debug st' = full_debug st \<and>
     brk (ic_mem st) \<le> brk (ic_mem st') \<and> fails (ic_mem st') = fails (ic_mem st)"

lemma lru_drop_spec:
  assumes "lists_ok C st" and "b \<in> dom C"
  obtains l h where "lru_drop b st = (True, st\<lparr>lru_gc_list := l, lru_heap := h\<rparr>)" "lists_ok (C(b := None)) (st\<lparr>lru_gc_list := l, lru_heap := h\<rparr>)"
proof -
  from assms(1) obtain xs where "lru_good C xs st" by (auto simp: lists_ok_def)
  note L = lru_goodD [OF this]
  show thesis
  proof (cases "lru_entry_of (ents st b)")
    case None
    then have "lru_drop b st = (True, st\<lparr>lru_gc_list := lru_gc_list st, lru_heap := lru_heap st\<rparr>)"
      by (auto simp: lru_drop_def lru_entry_of_def split: option.splits if_splits)
    moreover have "lists_ok (C(b := None)) st" by (rule lists_cong [OF assms(1)]) auto
    ultimately show ?thesis using that [of "lru_heap st" "lru_gc_list st"] by simp
  next
    case (Some q)
    obtain rc l h where i: "LRU_invalidate (lru_gc_list st) q (lru_heap st) = (rc, l, h)" by (metis prod_cases3)
    note I = LRU_invalidate_spec [OF i]
    have q: "q \<in> set xs" using L(2) assms(2) Some by blast
    let ?st = "st\<lparr>lru_gc_list := l, lru_heap := h\<rparr>"
    have "lru_drop b st = (True, ?st)" using Some i I(1)
      by (auto simp: lru_drop_def lru_entry_of_def split: option.splits if_splits)
    moreover have "lru_good (C(b := None)) xs ?st"
    proof (rule lru_goodI)
      show "lru_inv xs (lru_gc_list ?st) (lru_heap ?st) (ic_mem ?st)" using I(3) [of xs] I(7) L(1) q by (simp add: lru_inv_def)
      show "q' \<in> set xs \<and> valid_state (lru_heap ?st q') = LRU_ENTRY_VALID"
        if "b' \<in> dom (C(b := None))" "lru_entry_of (ents ?st b') = Some q'" for b' q'
      proof -
        from that have b': "b' \<in> dom C" "b' \<noteq> b" "lru_entry_of (ents st b') = Some q'" by auto
        with L(3) [OF b'(1) assms(2)] Some have "q' \<noteq> q" by blast
        with L(2) [OF b'(1,3)] I(2) show ?thesis by simp
      qed
      show "b1 = b2" if "b1 \<in> dom (C(b := None))" "b2 \<in> dom (C(b := None))" "lru_entry_of (ents ?st b1) = Some u" "lru_entry_of (ents ?st b2) = Some u"
        for b1 b2 u using L(3) [of b1 b2 u] that by auto
    qed (use L(4-6) I(6) in auto)
    ultimately show ?thesis using that lists_ok_def by blast
  qed
qed

lemma lru_append_spec:
  assumes "lists_ok C st"
  shows "\<exists>q xs l h m. lru_append b st = (True, Some q, st\<lparr>lru_gc_list := l, lru_heap := h, ic_mem := m\<rparr>) \<and>
    lru_good C xs (st\<lparr>lru_gc_list := l, lru_heap := h, ic_mem := m\<rparr>) \<and> q \<in> set xs \<and> valid_state (h q) = LRU_ENTRY_VALID \<and>
    (\<forall>b' \<in> dom C. lru_entry_of (ents st b') \<noteq> Some q) \<and> brk (ic_mem st) \<le> brk m \<and> fails m = fails (ic_mem st)"
proof -
  from assms(1) obtain xs where "lru_good C xs st" by (auto simp: lists_ok_def)
  note L = lru_goodD [OF this]
  obtain rc r l h m where n: "LRU_new_entry (lru_gc_list st) (lru_heap st) (ic_mem st) = (rc, r, l, h, m)" by (metis prod_cases5)
  have ok: "lru_ok xs (lru_gc_list st) (lru_heap st)" "owned xs (entry_prealloc (lru_gc_list st)) (ic_mem st)" using L(1) by (auto simp: lru_inv_def)
  note N = LRU_new_entry_spec [OF ok n] and G = LRU_new_good [OF n L(6,5)]
  from G(1) obtain q where q: "r = Some q" by auto
  let ?h = "h(q := (h q)\<lparr>buffdata := \<lparr>pdata = Some b, len = sizeof_entry st\<rparr>\<rparr>)"
  let ?st = "st\<lparr>lru_gc_list := l, lru_heap := ?h, ic_mem := m\<rparr>"
  have run: "lru_append b st = (True, Some q, ?st)" using n q by (simp add: lru_append_def)
  have inv: "lru_inv (xs @ [q]) l ?h m"
    by (rule lru_inv_cong [of _ _ h]) (use N(4) [OF q] in \<open>auto simp: lru_inv_def\<close>)
  have hs: "valid_state (?h q) = LRU_ENTRY_VALID" "\<And>u. u \<noteq> q \<Longrightarrow> valid_state (?h u) = valid_state (lru_heap st u)" "q \<notin> set xs"
    using N(4) [OF q] by auto
  have "lru_good C (xs @ [q]) ?st"
  proof (rule lru_goodI)
    show "lru_inv (xs @ [q]) (lru_gc_list ?st) (lru_heap ?st) (ic_mem ?st)" using inv by simp
    show "u \<in> set (xs @ [q]) \<and> valid_state (lru_heap ?st u) = LRU_ENTRY_VALID" if "b' \<in> dom C" "lru_entry_of (ents ?st b') = Some u" for b' u
    proof -
      from that have u: "u \<in> set xs" "valid_state (lru_heap st u) = LRU_ENTRY_VALID" using L(2) [of b' u] by auto
      with hs(3) have "u \<noteq> q" by blast
      with u hs(2) show ?thesis by simp
    qed
    show "b1 = b2" if "b1 \<in> dom C" "b2 \<in> dom C" "lru_entry_of (ents ?st b1) = Some u" "lru_entry_of (ents ?st b2) = Some u" for b1 b2 u
      using L(3) [of b1 b2 u] that by simp
  qed (use L(4-6) N(1) G(2) in \<open>simp_all add: mem_good_def\<close>)
  moreover have "\<forall>b' \<in> dom C. lru_entry_of (ents st b') \<noteq> Some q" using L(2) hs(3) by blast
  ultimately show ?thesis using run hs(1) N(2) G(2)
    by (intro exI [of _ q] exI [of _ "xs @ [q]"] exI [of _ l] exI [of _ ?h] exI [of _ m]) simp
qed

lemma cache_inode_valid_spec:
  assumes lo: "lists_ok C st" and b: "b \<in> dom C" and ty: "md_type (internal_md (ents st b)) \<noteq> DIR_CONTINUE"
  shows "\<exists>st'. cache_inode_valid (Some b) op now st = Some (CACHE_INODE_SUCCESS, st') \<and> lists_ok C st' \<and> lru_frame b st st'"
proof -
  obtain l1 h1 where d: "lru_drop b st = (True, st\<lparr>lru_gc_list := l1, lru_heap := h1\<rparr>)"
    "lists_ok (C(b := None)) (st\<lparr>lru_gc_list := l1, lru_heap := h1\<rparr>)" by (rule lru_drop_spec [OF lo b])
  from lru_append_spec [OF d(2), of b] obtain q xs l2 h2 m where
    a: "lru_append b (st\<lparr>lru_gc_list := l1, lru_heap := h1\<rparr>) = (True, Some q, st\<lparr>lru_gc_list := l2, lru_heap := h2, ic_mem := m\<rparr>)"
      "lru_good (C(b := None)) xs (st\<lparr>lru_gc_list := l2, lru_heap := h2, ic_mem := m\<rparr>)" "q \<in> set xs" "valid_state (h2 q) = LRU_ENTRY_VALID"
      "\<forall>b' \<in> dom (C(b := None)). lru_entry_of (ents st b') \<noteq> Some q" "brk (ic_mem st) \<le> brk m" "fails m = fails (ic_mem st)" by auto
  let ?s2 = "st\<lparr>lru_gc_list := l2, lru_heap := h2, ic_mem := m\<rparr>"
  note L = lru_goodD [OF a(2)]
  have "lru_inv xs l2 h2 m" "clean_entry (lparameter l2) = lru_inode_clean_entry" using L(1,4) by simp_all
  from LRU_collect [OF this] obtain l3 h3 ys where g: "LRU_gc_invalid (Some l2) h2 () = Some (LRU_LIST_SUCCESS, Some l3, h3, ())" "lru_inv ys l3 h3 m"
    "lparameter l3 = lparameter l2" "\<forall>u \<in> set xs. valid_state (h2 u) = LRU_ENTRY_VALID \<longrightarrow> u \<in> set ys"
    "\<forall>u. valid_state (h3 u) = valid_state (h2 u)" by blast
  let ?e = "(ents st b)\<lparr>gc_lru := Some (lru_gc st), gc_lru_entry := Some q, internal_md := touch_md op now (internal_md (ents st b))\<rparr>"
  let ?st = "st\<lparr>ents := (ents st)(b := ?e), lru_gc_list := l3, lru_heap := h3, ic_mem := m, call_since_last_gc := call_since_last_gc st + 1\<rparr>"
  have run: "cache_inode_valid (Some b) op now st = Some (CACHE_INODE_SUCCESS, ?st)"
    using ty d(1) a(1) g(1) by (simp add: cache_inode_valid.simps [of "Some b"] lru_collect_def upd_ent_def)
  have le: "lru_entry_of (ents ?st b') = (if b' = b then Some q else lru_entry_of (ents st b'))" for b' by (simp add: lru_entry_of_def)
  have "lru_good C ys ?st"
  proof (rule lru_goodI)
    show "u \<in> set ys \<and> valid_state (lru_heap ?st u) = LRU_ENTRY_VALID" if "b' \<in> dom C" "lru_entry_of (ents ?st b') = Some u" for b' u
      using that L(2) [of b' u] a(3,4) g(4,5) unfolding le by (auto split: if_splits)
    show "b1 = b2" if "b1 \<in> dom C" "b2 \<in> dom C" "lru_entry_of (ents ?st b1) = Some u" "lru_entry_of (ents ?st b2) = Some u" for b1 b2 u
      using that L(3) [of b1 b2 u] a(5) unfolding le by (auto split: if_splits)
  qed (use g(2,3) L(4-6) in auto)
  moreover have "lru_frame b st ?st"
    using a(6,7) by (simp add: lru_frame_def dview_def touch_md_def Let_def split: inode_op.splits)
  ultimately show ?thesis using run lists_ok_def by blast
qed

section \<open>Memory aside\<close>

text \<open>Steps that touch no cache entry of \<open>E\<close> and no array of \<open>D\<close>.\<close>

definition aside :: "addr set \<Rightarrow> addr set \<Rightarrow> ('h, 'a) inode_store \<Rightarrow> ('h, 'a) inode_store \<Rightarrow> bool" where
  "aside E D st st' \<longleftrightarrow> (\<forall>c \<in> E. ents st' c = ents st c) \<and> (\<forall>d \<in> D. dir_datas st' d = dir_datas st d) \<and>
     (\<forall>d. length (dir_datas st' d) = length (dir_datas st d)) \<and> parents st' = parents st \<and> pool_parent st' = pool_parent st \<and>
     lru_heap st' = lru_heap st \<and> lru_gc_list st' = lru_gc_list st \<and> full_debug st' = full_debug st \<and>
     brk (ic_mem st) \<le> brk (ic_mem st') \<and> fails (ic_mem st') = fails (ic_mem st)"

lemma aside_trans: "aside E D st st1 \<Longrightarrow> aside E D st1 st2 \<Longrightarrow> aside E D st st2"
  by (auto simp: aside_def)

definition same_contents_dirs :: "dirs \<Rightarrow> ('h, 'a) inode_store \<Rightarrow> ('h, 'a) inode_store \<Rightarrow> bool" where
  "same_contents_dirs C st st' \<longleftrightarrow> (\<forall>b cs. C b = Some cs \<longrightarrow> dirents st' (b # cs) = dirents st (b # cs))"

lemma dirs_aside:
  assumes inv: "dirs_inv C E PL st" and as: "aside E (data_of st ` nodes C) st st'"
    and mem: "free_ok E (pool_entry st') (ic_mem st')" "free_ok (data_of st ` nodes C) (pool_dir_data st') (ic_mem st')"
    and ht: "table_inv (ic_mem st') (ic_ht st')" "table_map (ic_ht st') = table_map (ic_ht st)"
  shows "dirs_inv C E PL st'" and "same_contents_dirs C st st'"
proof -
  have si: "struct_inv C E st" and rest: "keys_ok C st" "parents_inv C E PL st" "lists_ok C st" using inv by (auto simp: dirs_inv_def)
  note S = struct_invD [OF si]
  have A: "\<And>c. c \<in> E \<Longrightarrow> ents st' c = ents st c" "\<And>d. d \<in> data_of st ` nodes C \<Longrightarrow> dir_datas st' d = dir_datas st d"
    "\<And>d. length (dir_datas st' d) = CHILDREN_ARRAY_SIZE"
    using as S(6) unfolding aside_def by auto
  have sc: "struct_inv C E st'" "\<And>b cs. C b = Some cs \<Longrightarrow> dirents st' (b # cs) = dirents st (b # cs)"
    "\<And>b. b \<in> dom C \<Longrightarrow> handle_of st' b = handle_of st b" by (rule struct_cong [OF si]; use A mem in simp)+
  show "same_contents_dirs C st st'" using sc(2) by (simp add: same_contents_dirs_def del: dirents_simps)
  have "b \<in> E" if "b \<in> dom C" for b
  proof -
    from that obtain cs where "C b = Some cs" by auto
    then have "b \<in> nodes C" by (rule nodesI) simp
    with S(5) show ?thesis by blast
  qed
  then have "lists_ok C st'" by (intro lists_cong [OF rest(3)]) (use as A(1) in \<open>auto simp: aside_def\<close>)
  moreover have "parents_inv C E PL st'"
    by (rule parents_cong [OF rest(2)]) (use as A(1) sc(2) in \<open>auto simp: aside_def simp del: dirents_simps\<close>)
  moreover have "handle_of st' ` dom C = handle_of st ` dom C" using sc(3) by (rule image_cong [OF refl])
  then have "keys_ok C st'" using rest(1) ht sc(3) by (simp add: keys_ok_def domI)
  ultimately show "dirs_inv C E PL st'" using sc(1) by (simp add: dirs_inv_def)
qed

section \<open>Allocation\<close>

lemmas stat_defs = upd_stat_def err_unrecover_def err_retryable_def release_entry_def

definition fresh_lock :: "rw_lock \<Rightarrow> bool" where
  "fresh_lock l \<longleftrightarrow> nbr_active l = 0 \<and> nbw_active l = 0"

lemma rw_lock_init_fresh: "rw_lock_init codes l = (0, l') \<Longrightarrow> fresh_lock l'"
  by (auto simp: rw_lock_init_def fresh_lock_def split: if_splits)

lemma P_w_fresh: "fresh_lock l \<Longrightarrow> \<exists>l'. P_w l = Returns l'"
  by (simp add: P_w_def P_w_woken_def fresh_lock_def)

lemma new_entry_alloc_spec:
  assumes fe: "free_ok E (pool_entry st) (ic_mem st)" and fd: "free_ok D (pool_dir_data st) (ic_mem st)"
    and run: "new_entry_alloc codes begins st = (r, st')"
  shows "aside E D st st'" and "dir_datas st' = dir_datas st" and "ic_ht st' = ic_ht st"
    and "r = Inl status \<Longrightarrow> status \<in> {CACHE_INODE_MALLOC_ERROR, CACHE_INODE_INIT_ENTRY_FAILED} \<and>
      free_ok E (pool_entry st') (ic_mem st') \<and> free_ok D (pool_dir_data st') (ic_mem st')"
    and "r = Inr (p, d) \<Longrightarrow> p \<notin> E \<and> d \<notin> D \<and> free_ok (insert p E) (pool_entry st') (ic_mem st') \<and>
      free_ok (insert d D) (pool_dir_data st') (ic_mem st') \<and> fresh_lock (entry_lock (ents st' p)) \<and>
      (if begins then db_pdir_data (dir_begin (ents st' p)) = Some d else dc_pdir_data (dir_cont (ents st' p)) = Some d)"
proof -
  obtain r1 pool1 m1 where g1: "GET_PREALLOC (nb_prealloc st) (pool_entry st) (ic_mem st) = (r1, pool1, m1)" by (metis prod_cases3)
  obtain r2 pool2 m2 where g2: "GET_PREALLOC (nb_pre_dir_data st) (pool_dir_data st) m1 = (r2, pool2, m2)" by (metis prod_cases3)
  note G1 = free_ok_get [OF fe g1] and F1 = GET_PREALLOC_fails [OF g1]
  note G2 = free_ok_get [OF free_ok_mono [OF fd G1(1)] g2] and F2 = GET_PREALLOC_fails [OF g2]
  consider (no_entry) "r1 = None" | (no_data) q where "r1 = Some q" "r2 = None" | (lock) q x where "r1 = Some q" "r2 = Some x"
    by (cases r1; cases r2) auto
  then have "aside E D st st' \<and> dir_datas st' = dir_datas st \<and> ic_ht st' = ic_ht st \<and>
    (case r of Inl status \<Rightarrow> status \<in> {CACHE_INODE_MALLOC_ERROR, CACHE_INODE_INIT_ENTRY_FAILED} \<and>
        free_ok E (pool_entry st') (ic_mem st') \<and> free_ok D (pool_dir_data st') (ic_mem st')
     | Inr (p, d) \<Rightarrow> p \<notin> E \<and> d \<notin> D \<and> free_ok (insert p E) (pool_entry st') (ic_mem st') \<and>
        free_ok (insert d D) (pool_dir_data st') (ic_mem st') \<and> fresh_lock (entry_lock (ents st' p)) \<and>
        (if begins then db_pdir_data (dir_begin (ents st' p)) = Some d else dc_pdir_data (dir_cont (ents st' p)) = Some d))"
  proof cases
    case no_entry
    with run g1 have "r = Inl CACHE_INODE_MALLOC_ERROR" "st' = err_unrecover (st\<lparr>pool_entry := pool1, ic_mem := m1\<rparr>)"
      by (simp_all add: new_entry_alloc_def)
    with G1 F1 free_ok_mono [OF fd G1(1)] show ?thesis by (simp add: aside_def stat_defs)
  next
    case no_data
    with run g1 g2 have "r = Inl CACHE_INODE_MALLOC_ERROR"
      "st' = err_unrecover (st\<lparr>pool_entry := pool1, pool_dir_data := pool2, ic_mem := m2\<rparr>)"
      by (simp_all add: new_entry_alloc_def)
    with G1 G2 F1 F2 free_ok_mono [OF G1(2) G2(1)] show ?thesis by (simp add: aside_def stat_defs)
  next
    case lock
    note P = G1(3) [OF lock(1)] and X = G2(3) [OF lock(2)]
    let ?e = "if begins then (ents st q)\<lparr>dir_begin := (dir_begin (ents st q))\<lparr>db_pdir_data := Some x\<rparr>\<rparr>
      else (ents st q)\<lparr>dir_cont := (dir_cont (ents st q))\<lparr>dc_pdir_data := Some x\<rparr>\<rparr>"
    obtain rc l where rl: "rw_lock_init codes (entry_lock (ents st q)) = (rc, l)" by (metis prod.exhaust)
    let ?st = "st\<lparr>pool_entry := pool1, pool_dir_data := pool2, ic_mem := m2, ents := (ents st)(q := ?e\<lparr>entry_lock := l\<rparr>)\<rparr>"
    have a: "aside E D st ?st" using P G1(1) G2(1) F1 F2 by (auto simp: aside_def)
    have el: "entry_lock ?e = entry_lock (ents st q)" by simp
    have res: "(r, st') = (if rc \<noteq> 0 then (Inl CACHE_INODE_INIT_ENTRY_FAILED, err_retryable (release_entry q ?st)) else (Inr (q, x), ?st))"
      unfolding run [symmetric] new_entry_alloc_def using g1 g2 lock rl el
      by (simp add: upd_ent_def Let_def)
    have "free_ok (insert q E) pool1 m2" by (rule free_ok_mono [OF conjunct2 [OF P] G2(1)])
    moreover from free_ok_release [OF this] P have "free_ok E (q # pool1) m2" by (simp add: RELEASE_PREALLOC_def)
    ultimately show ?thesis using res a P X G2(2) rw_lock_init_fresh [of codes "entry_lock (ents st q)"] rl
      by (cases "rc = 0") (auto simp: aside_def stat_defs RELEASE_PREALLOC_def)
  qed
  then show "aside E D st st'" "dir_datas st' = dir_datas st" "ic_ht st' = ic_ht st"
    "r = Inl status \<Longrightarrow> status \<in> {CACHE_INODE_MALLOC_ERROR, CACHE_INODE_INIT_ENTRY_FAILED} \<and>
      free_ok E (pool_entry st') (ic_mem st') \<and> free_ok D (pool_dir_data st') (ic_mem st')"
    "r = Inr (p, d) \<Longrightarrow> p \<notin> E \<and> d \<notin> D \<and> free_ok (insert p E) (pool_entry st') (ic_mem st') \<and>
      free_ok (insert d D) (pool_dir_data st') (ic_mem st') \<and> fresh_lock (entry_lock (ents st' p)) \<and>
      (if begins then db_pdir_data (dir_begin (ents st' p)) = Some d else dc_pdir_data (dir_cont (ents st' p)) = Some d)"
    by (simp_all split: sum.splits)
qed

section \<open>The new entry\<close>

lemma live_empty_slots [simp]: "live (map empty_slot ss) = []"
  by (induction ss) (simp_all add: empty_slot_def)

text \<open>What the \<^verbatim>\<open>switch\<close> of \<^verbatim>\<open>cache_inode_new_entry\<close> makes of the entry \<open>p\<close> for a \<^verbatim>\<open>DIR_CONTINUE\<close> after \<open>c\<close> in the directory \<open>b\<close>.\<close>

definition new_cont :: "addr \<Rightarrow> addr \<Rightarrow> u32 \<Rightarrow> addr \<Rightarrow> ('h, 'a) centry \<Rightarrow> bool" where
  "new_cont b c pos d e \<longleftrightarrow> md_type (internal_md e) = DIR_CONTINUE \<and> parent_list e = None \<and>
     dir_cont e = \<lparr>dc_pdir_begin = Some b, dc_pdir_cont = None, dc_pdir_prev = Some c, dc_end_of_dir = END_OF_DIR, dc_nbactive = 0,
       dir_cont_pos = pos, dc_pdir_data = Some d\<rparr>"

definition new_begin :: "'h \<Rightarrow> addr \<Rightarrow> ('h, 'a) centry \<Rightarrow> bool" where
  "new_begin handle d e \<longleftrightarrow> md_type (internal_md e) = DIR_BEGINNING \<and> parent_list e = None \<and> db_handle (dir_begin e) = handle \<and>
     db_end_of_dir (dir_begin e) = END_OF_DIR \<and> db_pdir_cont (dir_begin e) = None \<and> db_nbactive (dir_begin e) = 0 \<and>
     db_pdir_data (dir_begin e) = Some d"

definition slots_made :: "addr \<Rightarrow> ('h, 'a) inode_store \<Rightarrow> ('h, 'a) inode_store \<Rightarrow> bool" where
  "slots_made d st st' \<longleftrightarrow> dir_datas st' = (dir_datas st)(d := map empty_slot (dir_datas st d))"

lemma new_entry_init_begin:
  assumes "db_pdir_data (dir_begin (ents st p)) = Some d"
  obtains st' where "new_entry_init handle (New_begin attr) now p d st = (True, st')" "slots_made d st st'" "new_begin handle d (ents st' p)"
    "lru_entry_of (ents st' p) = None" "entry_lock (ents st' p) = entry_lock (ents st p)" "\<And>c. c \<noteq> p \<Longrightarrow> ents st' c = ents st c"
    "st' = st\<lparr>ents := ents st', dir_datas := dir_datas st'\<rparr>"
proof -
  let ?e = "(ents st p)\<lparr>internal_md := new_md DIR_BEGINNING now, gc_lru_entry := None, gc_lru := None, parent_list := None,
    dir_begin := init_begin handle attr p (dir_begin (ents st p))\<rparr>"
  let ?st = "st\<lparr>ents := (ents st)(p := ?e), dir_datas := (dir_datas st)(d := map empty_slot (dir_datas st d))\<rparr>"
  show thesis
  proof (rule that)
    show "new_entry_init handle (New_begin attr) now p d st = (True, ?st)" by (simp add: new_entry_init_def upd_ent_def)
  qed (use assms in \<open>simp_all add: slots_made_def new_begin_def init_begin_def new_md_def lru_entry_of_def\<close>)
qed

lemma new_entry_init_cont:
  assumes "dc_pdir_data (dir_cont (ents st p)) = Some d" and "prev \<noteq> p" and "is_dir (ents st prev)"
    and "if is_begin (ents st prev) then b = prev \<and> pos = 1
      else dc_pdir_begin (dir_cont (ents st prev)) = Some b \<and> pos = dir_cont_pos (dir_cont (ents st prev)) + 1"
  obtains st' where "new_entry_init handle (New_continue prev) now p d st = (True, st')" "slots_made d st st'" "new_cont b prev pos d (ents st' p)"
    "entry_lock (ents st' p) = entry_lock (ents st p)" "\<And>c. c \<noteq> p \<Longrightarrow> ents st' c = ents st c"
    "st' = st\<lparr>ents := ents st', dir_datas := dir_datas st'\<rparr>"
proof -
  let ?e = "(ents st p)\<lparr>internal_md := new_md DIR_CONTINUE now, gc_lru_entry := None, gc_lru := None, parent_list := None,
    dir_cont := (dir_cont (ents st p))\<lparr>dc_end_of_dir := END_OF_DIR, dc_pdir_cont := None, dc_pdir_prev := Some prev,
      dc_pdir_begin := Some b, dir_cont_pos := pos, dc_nbactive := 0\<rparr>\<rparr>"
  let ?st = "st\<lparr>ents := (ents st)(p := ?e), dir_datas := (dir_datas st)(d := map empty_slot (dir_datas st d))\<rparr>"
  show thesis
  proof (rule that)
    show "new_entry_init handle (New_continue prev) now p d st = (True, ?st)"
      using assms(2-4) by (auto simp: new_entry_init_def upd_ent_def is_begin_def is_dir_def Let_def split: if_splits)
    show "new_cont b prev pos d (ents ?st p)" using assms(1) by (simp add: new_cont_def new_md_def)
  qed (simp_all add: slots_made_def)
qed

section \<open>Publication\<close>

definition published :: "addr \<Rightarrow> addr \<Rightarrow> ('h, 'a) inode_store \<Rightarrow> ('h, 'a) inode_store \<Rightarrow> bool" where
  "published b p st st' \<longleftrightarrow> (\<forall>x. dview (ents st' x) = dview (ents st x) \<and> parent_list (ents st' x) = parent_list (ents st x) \<and>
       (md_valid_state (internal_md (ents st x)) = VALID \<longrightarrow> md_valid_state (internal_md (ents st' x)) = VALID) \<and>
       (x \<noteq> b \<longrightarrow> internal_md (ents st' x) = internal_md (ents st x))) \<and>
     dir_datas st' = dir_datas st \<and> parents st' = parents st \<and> pool_entry st' = pool_entry st \<and> pool_dir_data st' = pool_dir_data st \<and>
     pool_parent st' = pool_parent st \<and> full_debug st' = full_debug st \<and> brk (ic_mem st) \<le> brk (ic_mem st')"

text \<open>\<^verbatim>\<open>cache_inode_valid\<close> of a \<^verbatim>\<open>DIR_CONTINUE\<close> is that of its \<^verbatim>\<open>DIR_BEGINNING\<close> \<open>b\<close>; a \<^verbatim>\<open>DIR_BEGINNING\<close> is its own.\<close>

definition begins_at :: "('h, 'a) inode_store \<Rightarrow> addr \<Rightarrow> addr \<Rightarrow> bool" where
  "begins_at st p b \<longleftrightarrow> md_type (internal_md (ents st b)) \<noteq> DIR_CONTINUE \<and>
     (p = b \<or> md_type (internal_md (ents st p)) = DIR_CONTINUE \<and> dc_pdir_begin (dir_cont (ents st p)) = Some b)"

lemma valid_begins_at:
  assumes "begins_at st p b" and "lists_ok C st" and "b \<in> dom C"
  shows "\<exists>st'. cache_inode_valid (Some p) op now st = Some (CACHE_INODE_SUCCESS, st') \<and> lists_ok C st' \<and> lru_frame b st st'"
proof -
  have "cache_inode_valid (Some p) op now st = cache_inode_valid (Some b) op now st"
    using assms(1) by (cases "p = b") (auto simp: begins_at_def cache_inode_valid.simps [of "Some p"])
  with cache_inode_valid_spec [OF assms(2,3), of op now] assms(1) show ?thesis by (simp add: begins_at_def)
qed

lemma new_entry_publish_spec:
  assumes ti: "table_inv (ic_mem st) (ic_ht st)" and new: "table_map (ic_ht st) key = None" and lock: "fresh_lock (entry_lock (ents st p))"
    and ba: "begins_at st p b" and lo: "lists_ok C st" and b: "b \<in> dom C"
  shows "\<exists>st'. new_entry_publish key (Some local) local now p st = Some (None, CACHE_INODE_UNAPPROPRIATED_KEY, st') \<and> aside UNIV UNIV st st' \<and>
      ic_ht st' = ic_ht st \<and> pool_entry st' = pool_entry st \<and> pool_dir_data st' = pool_dir_data st \<and> nb_prealloc st = 0 \<and> pool_key st' = [local] \<or>
    new_entry_publish key (Some local) local now p st = Some (None, CACHE_INODE_HASH_SET_ERROR, st') \<and> aside UNIV UNIV st st' \<and>
      table_inv (ic_mem st') (ic_ht st') \<and> table_map (ic_ht st') = table_map (ic_ht st) \<and>
      pool_entry st' = p # pool_entry st \<and> pool_dir_data st' = pool_dir_data st \<or>
    new_entry_publish key (Some local) local now p st = Some (Some p, CACHE_INODE_SUCCESS, st') \<and>
      table_inv (ic_mem st') (ic_ht st') \<and> table_map (ic_ht st') = (table_map (ic_ht st))(key \<mapsto> p) \<and> lists_ok C st' \<and> published b p st st'"
proof -
  obtain r pool m where g: "GET_PREALLOC (nb_prealloc st) (pool_key st) (ic_mem st) = (r, pool, m)" by (metis prod_cases3)
  note le = GET_PREALLOC_brk [OF g] and fl = GET_PREALLOC_fails [OF g]
  show ?thesis
  proof (cases r)
    case None
    let ?st = "err_unrecover (st\<lparr>pool_key := local # pool, ic_mem := m\<rparr>)"
    have "mem_good (ic_mem st)" using lo by (auto simp: lists_ok_def dest: lru_goodD(6))
    then have "nb_prealloc st = 0" using GET_PREALLOC_good [OF g] None by blast
    moreover have "pool = []" using list_pool.get_fail [of "pool_key st" "pool_key st" "nb_prealloc st"] g None by auto
    moreover have "new_entry_publish key (Some local) local now p st = Some (None, CACHE_INODE_UNAPPROPRIATED_KEY, ?st)"
      using g None by (simp add: new_entry_publish_def cache_inode_fsaldata_2_key_def cache_inode_release_fsaldata_key_def stat_defs RELEASE_PREALLOC_def)
    ultimately show ?thesis using le fl by (intro exI [of _ ?st] disjI1) (simp add: aside_def stat_defs)
  next
    case (Some k)
    from table.set_law [OF table_inv_mono [OF ti le], of key p HASHTABLE_SET_HOW_SET_NO_OVERWRITE] obtain rc m2 ht where h:
      "HashTable_Test_And_Set m (ic_ht st) key p HASHTABLE_SET_HOW_SET_NO_OVERWRITE = Some (rc, m2, ht)" "table_inv m2 ht" "brk m \<le> brk m2"
      "set_outcome HASHTABLE_SET_HOW_SET_NO_OVERWRITE key p (table_map (ic_ht st)) rc (table_map ht)" by blast
    note f2 = HashTable_Set_frame(2) [OF h(1)]
    let ?s = "st\<lparr>pool_key := pool, ic_mem := m2, ic_ht := ht\<rparr>"
    have run: "new_entry_publish key (Some local) local now p st =
      (if rc \<noteq> HASHTABLE_SUCCESS then Some (None, CACHE_INODE_HASH_SET_ERROR, err_unrecover (release_entry p ?s))
       else (case P_w (entry_lock (ents ?s p)) of
          Blocks l \<Rightarrow> None
        | Returns l \<Rightarrow> do {
            let st = upd_ent p (\<lambda>e. e\<lparr>entry_lock := l\<rparr>) ?s;
            (status, st) \<leftarrow> cache_inode_valid (Some p) CACHE_INODE_OP_GET now st;
            let st = upd_ent p (\<lambda>e. e\<lparr>entry_lock := fst (V_w (entry_lock e))\<rparr>) st;
            Some (Some p, CACHE_INODE_SUCCESS, upd_stat (\<lambda>s. s\<lparr>ne_nb_success := ne_nb_success s + 1\<rparr>) st) }))"
      using g Some h(1) by (simp add: new_entry_publish_def cache_inode_fsaldata_2_key_def split: lock_result.split)
    show ?thesis
    proof (cases "rc = HASHTABLE_SUCCESS")
      case False
      let ?st = "err_unrecover (release_entry p ?s)"
      have "table_map ht = table_map (ic_ht st)" using h(4) new False by (auto simp: set_outcome_def)
      with False run h(2,3) le fl f2 show ?thesis
        by (intro exI [of _ ?st] disjI2 [OF disjI1]) (simp add: aside_def stat_defs RELEASE_PREALLOC_def)
    next
      case True
      then have tm: "table_map ht = (table_map (ic_ht st))(key \<mapsto> p)" using h(4) new by (auto simp: set_outcome_def)
      from P_w_fresh [OF lock] obtain l where l: "P_w (entry_lock (ents st p)) = Returns l" ..
      let ?s1 = "upd_ent p (\<lambda>e. e\<lparr>entry_lock := l\<rparr>) ?s"
      have f1: "dview (ents ?s1 x) = dview (ents st x)" "parent_list (ents ?s1 x) = parent_list (ents st x)" "internal_md (ents ?s1 x) = internal_md (ents st x)"
        "lru_entry_of (ents ?s1 x) = lru_entry_of (ents st x)" for x by (auto simp: upd_ent_def dview_def lru_entry_of_def)
      have "begins_at ?s1 p b" using ba dview_fields(2) [OF f1(1) [of p]] f1(3) by (simp add: begins_at_def)
      moreover have "lists_ok C ?s1" by (rule lists_cong [OF lo]) (use le fl f2 h(3) f1(4) in \<open>auto simp: upd_ent_def\<close>)
      ultimately obtain s2 where v: "cache_inode_valid (Some p) CACHE_INODE_OP_GET now ?s1 = Some (CACHE_INODE_SUCCESS, s2)" "lists_ok C s2"
        "lru_frame b ?s1 s2" using valid_begins_at b by blast
      let ?st = "upd_stat (\<lambda>s. s\<lparr>ne_nb_success := ne_nb_success s + 1\<rparr>) (upd_ent p (\<lambda>e. e\<lparr>entry_lock := fst (V_w (entry_lock e))\<rparr>) s2)"
      have fs: "dview (ents ?st x) = dview (ents s2 x)" "parent_list (ents ?st x) = parent_list (ents s2 x)" "internal_md (ents ?st x) = internal_md (ents s2 x)"
        "lru_entry_of (ents ?st x) = lru_entry_of (ents s2 x)" for x by (auto simp: upd_ent_def upd_stat_def dview_def lru_entry_of_def)
      have f2: "dview (ents s2 x) = dview (ents ?s1 x)" "parent_list (ents s2 x) = parent_list (ents ?s1 x)"
        "x \<noteq> b \<Longrightarrow> internal_md (ents s2 x) = internal_md (ents ?s1 x)" "md_valid_state (internal_md (ents s2 b)) = VALID" for x
        using v(3) by (cases "x = b"; simp add: lru_frame_def)+
      have "published b p st ?st" unfolding published_def
      proof (intro conjI allI impI)
        fix x
        show "md_valid_state (internal_md (ents ?st x)) = VALID" if "md_valid_state (internal_md (ents st x)) = VALID"
          using that f2(3,4) f1(3) by (cases "x = b") (simp_all add: fs)
        show "internal_md (ents ?st x) = internal_md (ents st x)" if "x \<noteq> b" using that f2(3) f1(3) by (simp add: fs)
      qed (use fs f1 f2 v(3) h(3) le in \<open>auto simp: lru_frame_def upd_ent_def upd_stat_def\<close>)
      moreover have "lists_ok C ?st" by (rule lists_cong [OF v(2)]) (use fs(4) in \<open>auto simp: upd_ent_def upd_stat_def\<close>)
      moreover have "ic_ht ?st = ht" "brk m2 \<le> brk (ic_mem ?st)" using v(3) by (simp_all add: lru_frame_def upd_ent_def upd_stat_def)
      moreover have "new_entry_publish key (Some local) local now p st = Some (Some p, CACHE_INODE_SUCCESS, ?st)"
        unfolding run using True l v(1) by simp
      ultimately show ?thesis using tm table_inv_mono [OF h(2)] by (intro exI [of _ ?st] disjI2) simp
    qed
  qed
qed

section \<open>New entries\<close>

text \<open>What a successful call leaves: the entry \<open>p\<close> with its array \<open>d\<close> is new memory, and under its key in the table.\<close>

definition made :: "dirs \<Rightarrow> addr set \<Rightarrow> 'h \<times> u32 \<Rightarrow> addr \<Rightarrow> addr \<Rightarrow> addr \<Rightarrow> ('h, 'a) inode_store \<Rightarrow> ('h, 'a) inode_store \<Rightarrow> bool" where
  "made C E key p d b st st' \<longleftrightarrow> p \<notin> E \<and> d \<notin> data_of st ` nodes C \<and> free_ok (insert p E) (pool_entry st') (ic_mem st') \<and>
     free_ok (insert d (data_of st ` nodes C)) (pool_dir_data st') (ic_mem st') \<and>
     (\<forall>x \<in> E. dview (ents st' x) = dview (ents st x) \<and> parent_list (ents st' x) = parent_list (ents st x) \<and>
        (md_valid_state (internal_md (ents st x)) = VALID \<longrightarrow> md_valid_state (internal_md (ents st' x)) = VALID) \<and>
        (x \<noteq> b \<longrightarrow> internal_md (ents st' x) = internal_md (ents st x))) \<and>
     (\<forall>x \<in> data_of st ` nodes C. dir_datas st' x = dir_datas st x) \<and> live (dir_datas st' d) = [] \<and>
     (\<forall>x. length (dir_datas st' x) = CHILDREN_ARRAY_SIZE) \<and> parents st' = parents st \<and> pool_parent st' = pool_parent st \<and>
     full_debug st' = full_debug st \<and> brk (ic_mem st) \<le> brk (ic_mem st') \<and>
     table_inv (ic_mem st') (ic_ht st') \<and> table_map (ic_ht st') = (table_map (ic_ht st))(key \<mapsto> p)"

abbreviation kind_begins :: "'a new_dir \<Rightarrow> bool" where
  "kind_begins kind \<equiv> (case kind of New_begin _ \<Rightarrow> True | New_continue _ \<Rightarrow> False)"

lemma new_entry_unfold:
  assumes "table_inv (ic_mem st) (ic_ht st)" and "table_map (ic_ht st) key = None"
  obtains s where "cache_inode_new_entry codes key local kind now st = (case new_entry_alloc codes (kind_begins kind) s of
        (Inl status, st) \<Rightarrow> Some (None, status, st)
      | (Inr (p, d), st) \<Rightarrow>
          (case new_entry_init (fst key) kind now p d st of
             (False, st) \<Rightarrow> Some (None, CACHE_INODE_NOT_A_DIRECTORY, st)
           | (True, st) \<Rightarrow> new_entry_publish key (Some local) local now p st))"
    "aside UNIV UNIV st s" "ents s = ents st" "dir_datas s = dir_datas st" "ic_mem s = ic_mem st" "pool_entry s = pool_entry st" "pool_dir_data s = pool_dir_data st"
    "table_inv (ic_mem s) (ic_ht s)" "table_map (ic_ht s) = table_map (ic_ht st)"
proof -
  let ?s = "upd_stat (\<lambda>s. s\<lparr>nb_call_total := nb_call_total s + 1, ne_nb_call := ne_nb_call s + 1\<rparr>) st"
  from table.get_law [OF assms(1), of key] obtain ht where h: "HashTable_Get (ic_ht st) key = Some (get_rc None, None, ht)"
    "table_inv (ic_mem st) ht" "table_map ht = table_map (ic_ht st)" using assms(2) by auto
  show thesis
    by (rule that [of "?s\<lparr>ic_ht := ht\<rparr>"])
      (use h in \<open>simp_all add: cache_inode_new_entry_def cache_inode_fsaldata_2_key_def upd_stat_def get_rc_def aside_def\<close>)
qed

lemma new_entry_spec:
  fixes st :: "('h, 'a) inode_store"
  assumes inv: "dirs_inv C E PL st" and key: "table_map (ic_ht st) key = None"
    and init: "\<And>p d s. p \<notin> E \<Longrightarrow> \<forall>x \<in> E. ents s x = ents st x \<Longrightarrow>
      (if kind_begins kind then db_pdir_data (dir_begin (ents s p)) = Some d else dc_pdir_data (dir_cont (ents s p)) = Some d) \<Longrightarrow>
      \<exists>s'. new_entry_init (fst key) kind now p d s = (True, s') \<and> slots_made d s s' \<and> Q p d (ents s' p) \<and>
        entry_lock (ents s' p) = entry_lock (ents s p) \<and> (\<forall>c. c \<noteq> p \<longrightarrow> ents s' c = ents s c) \<and> s' = s\<lparr>ents := ents s', dir_datas := dir_datas s'\<rparr> \<and>
        begins_at s' p (bof p) \<and> bof p \<in> dom (Cof p) \<and> (lists_ok C s' \<longrightarrow> lists_ok (Cof p) s')"
    and Q: "\<And>p d e e'. dview e = dview e' \<Longrightarrow> parent_list e = parent_list e' \<Longrightarrow> Q p d e' \<Longrightarrow> Q p d e"
  shows "\<exists>r status st'. cache_inode_new_entry codes key local kind now st = Some (r, status, st') \<and> full_debug st' = full_debug st \<and>
    (r = None \<and> status \<in> {CACHE_INODE_MALLOC_ERROR, CACHE_INODE_INIT_ENTRY_FAILED, CACHE_INODE_UNAPPROPRIATED_KEY, CACHE_INODE_HASH_SET_ERROR} \<and>
       dirs_inv C E PL st' \<and> same_contents_dirs C st st' \<and> (\<forall>x \<in> E. ents st' x = ents st x) \<or>
     (\<exists>p d. r = Some p \<and> status = CACHE_INODE_SUCCESS \<and> made C E key p d (bof p) st st' \<and> Q p d (ents st' p) \<and> lists_ok (Cof p) st'))"
proof -
  let ?D = "data_of st ` nodes C"
  have si: "struct_inv C E st" and ti: "table_inv (ic_mem st) (ic_ht st)" and lo: "lists_ok C st"
    using inv by (auto simp: dirs_inv_def keys_ok_def)
  note S = struct_invD [OF si]
  obtain s where s: "cache_inode_new_entry codes key local kind now st = (case new_entry_alloc codes (kind_begins kind) s of
        (Inl status, st) \<Rightarrow> Some (None, status, st)
      | (Inr (p, d), st) \<Rightarrow>
          (case new_entry_init (fst key) kind now p d st of
             (False, st) \<Rightarrow> Some (None, CACHE_INODE_NOT_A_DIRECTORY, st)
           | (True, st) \<Rightarrow> new_entry_publish key (Some local) local now p st))"
    "aside UNIV UNIV st s" "ents s = ents st" "dir_datas s = dir_datas st" "ic_mem s = ic_mem st" "pool_entry s = pool_entry st" "pool_dir_data s = pool_dir_data st"
    "table_inv (ic_mem s) (ic_ht s)" "table_map (ic_ht s) = table_map (ic_ht st)" by (rule new_entry_unfold [OF ti key])
  have as: "aside E ?D st s'" if "aside E ?D s s'" for s' using s(2) that by (auto simp: aside_def)
  obtain r1 s1 where a: "new_entry_alloc codes (kind_begins kind) s = (r1, s1)" by (metis prod.exhaust)
  have fe: "free_ok E (pool_entry s) (ic_mem s)" "free_ok ?D (pool_dir_data s) (ic_mem s)" using S(7,8) s(5-7) by simp_all
  note A = new_entry_alloc_spec [OF fe a]
  have ti1: "table_inv (ic_mem s1) (ic_ht s1)" "table_map (ic_ht s1) = table_map (ic_ht st)"
    using table_inv_mono [OF s(8)] A(1,3) s(9) by (auto simp: aside_def)
  show ?thesis
  proof (cases r1)
    case (Inl status)
    note R = A(4) [OF Inl]
    have "dirs_inv C E PL s1 \<and> same_contents_dirs C st s1"
      using dirs_aside [OF inv as [OF A(1)]] R ti1 by simp
    with s(1) a Inl R as [OF A(1)] show ?thesis by (auto simp: aside_def)
  next
    case (Inr pd)
    obtain p d where pd: "r1 = Inr (p, d)" using Inr by (cases pd) auto
    note R = A(5) [OF pd]
    have e1: "\<forall>x \<in> E. ents s1 x = ents st x" using as [OF A(1)] by (simp add: aside_def)
    from init [of p s1 d] R e1 obtain s2 where i: "new_entry_init (fst key) kind now p d s1 = (True, s2)" "slots_made d s1 s2" "Q p d (ents s2 p)"
      "entry_lock (ents s2 p) = entry_lock (ents s1 p)" "\<forall>c. c \<noteq> p \<longrightarrow> ents s2 c = ents s1 c" "s2 = s1\<lparr>ents := ents s2, dir_datas := dir_datas s2\<rparr>"
      "begins_at s2 p (bof p)" "bof p \<in> dom (Cof p)" "lists_ok C s2 \<longrightarrow> lists_ok (Cof p) s2" by blast
    have f2: "ic_ht s2 = ic_ht s1" "ic_mem s2 = ic_mem s1" "pool_entry s2 = pool_entry s1" "pool_dir_data s2 = pool_dir_data s1"
      "lru_heap s2 = lru_heap s1" "lru_gc_list s2 = lru_gc_list s1" "parents s2 = parents s1" "pool_parent s2 = pool_parent s1" "full_debug s2 = full_debug s1"
      by (subst i(6); simp)+
    have a2: "aside E ?D st s2"
      using as [OF A(1)] i(2,5) R f2 unfolding aside_def slots_made_def by auto
    have bE: "b \<in> E" if "b \<in> dom C" for b
    proof -
      from that obtain cs where "C b = Some cs" by auto
      then have "b \<in> nodes C" by (rule nodesI) simp
      with S(5) show ?thesis by blast
    qed
    have "lists_ok C s2" by (rule lists_cong [OF lo]) (use a2 bE in \<open>auto simp: aside_def\<close>)
    then have lo2: "lists_ok (Cof p) s2" using i(9) by blast
    have ti2: "table_inv (ic_mem s2) (ic_ht s2)" "table_map (ic_ht s2) = table_map (ic_ht st)" using ti1 f2 by simp_all
    have lk: "fresh_lock (entry_lock (ents s2 p))" using R i(4) by simp
    have run: "cache_inode_new_entry codes key local kind now st = new_entry_publish key (Some local) local now p s2"
      using s(1) a pd i(1) by simp
    have fo: "free_ok E (pool_entry s2) (ic_mem s2)" "free_ok ?D (pool_dir_data s2) (ic_mem s2)"
      using R f2 by (auto intro: free_ok_subset)
    have key2: "table_map (ic_ht s2) key = None" using key ti2(2) by simp
    have fails: ?thesis if run': "new_entry_publish key (Some local) local now p s2 = Some (None, status, s3)" and a3: "aside UNIV UNIV s2 s3"
      and status: "status \<in> {CACHE_INODE_UNAPPROPRIATED_KEY, CACHE_INODE_HASH_SET_ERROR}"
      and t3: "table_inv (ic_mem s3) (ic_ht s3)" "table_map (ic_ht s3) = table_map (ic_ht s2)"
      and pools: "free_ok E (pool_entry s3) (ic_mem s3)" "pool_dir_data s3 = pool_dir_data s2" for status s3
    proof -
      have a: "aside E ?D st s3" using a2 a3 by (auto simp: aside_def)
      have "free_ok ?D (pool_dir_data s3) (ic_mem s3)" using free_ok_mono [OF fo(2)] a3 pools(2) by (simp add: aside_def)
      with dirs_aside [OF inv a pools(1)] t3 ti2(2) have "dirs_inv C E PL s3" "same_contents_dirs C st s3" by simp_all
      with run run' status a show ?thesis by (intro exI [of _ None] exI [of _ status] exI [of _ s3]) (auto simp: aside_def)
    qed
    from new_entry_publish_spec [OF ti2(1) key2 lk i(7) lo2 i(8), of local now] obtain s3 where
      "new_entry_publish key (Some local) local now p s2 = Some (None, CACHE_INODE_UNAPPROPRIATED_KEY, s3) \<and> aside UNIV UNIV s2 s3 \<and>
        ic_ht s3 = ic_ht s2 \<and> pool_entry s3 = pool_entry s2 \<and> pool_dir_data s3 = pool_dir_data s2 \<and> nb_prealloc s2 = 0 \<and> pool_key s3 = [local] \<or>
       new_entry_publish key (Some local) local now p s2 = Some (None, CACHE_INODE_HASH_SET_ERROR, s3) \<and> aside UNIV UNIV s2 s3 \<and>
        table_inv (ic_mem s3) (ic_ht s3) \<and> table_map (ic_ht s3) = table_map (ic_ht s2) \<and>
        pool_entry s3 = p # pool_entry s2 \<and> pool_dir_data s3 = pool_dir_data s2 \<or>
       new_entry_publish key (Some local) local now p s2 = Some (Some p, CACHE_INODE_SUCCESS, s3) \<and>
        table_inv (ic_mem s3) (ic_ht s3) \<and> table_map (ic_ht s3) = (table_map (ic_ht s2))(key \<mapsto> p) \<and> lists_ok (Cof p) s3 \<and> published (bof p) p s2 s3" ..
    then consider (key) "new_entry_publish key (Some local) local now p s2 = Some (None, CACHE_INODE_UNAPPROPRIATED_KEY, s3)" "aside UNIV UNIV s2 s3"
        "ic_ht s3 = ic_ht s2" "pool_entry s3 = pool_entry s2" "pool_dir_data s3 = pool_dir_data s2"
      | (set) "new_entry_publish key (Some local) local now p s2 = Some (None, CACHE_INODE_HASH_SET_ERROR, s3)" "aside UNIV UNIV s2 s3"
        "table_inv (ic_mem s3) (ic_ht s3)" "table_map (ic_ht s3) = table_map (ic_ht s2)" "pool_entry s3 = p # pool_entry s2" "pool_dir_data s3 = pool_dir_data s2"
      | (ok) "new_entry_publish key (Some local) local now p s2 = Some (Some p, CACHE_INODE_SUCCESS, s3)"
        "table_inv (ic_mem s3) (ic_ht s3)" "table_map (ic_ht s3) = (table_map (ic_ht s2))(key \<mapsto> p)" "lists_ok (Cof p) s3" "published (bof p) p s2 s3"
      by blast
    then show ?thesis
    proof cases
      case key
      have "brk (ic_mem s2) \<le> brk (ic_mem s3)" using key(2) by (simp add: aside_def)
      with key show ?thesis using table_inv_mono [OF ti2(1)] free_ok_mono [OF fo(1)] by (intro fails [OF key(1,2)]) simp_all
    next
      case set
      have le: "brk (ic_mem s2) \<le> brk (ic_mem s3)" using set(2) by (simp add: aside_def)
      have "free_ok (insert p E) (pool_entry s2) (ic_mem s2)" "p \<notin> E" using R f2 by simp_all
      from free_ok_mono [OF free_ok_release [OF this] le] set show ?thesis
        by (intro fails [OF set(1,2)]) (simp_all add: RELEASE_PREALLOC_def)
    next
      case ok
      have le: "brk (ic_mem s2) \<le> brk (ic_mem s3)" using ok(5) by (simp add: published_def)
      have eq: "ents s2 x = ents st x" if "x \<in> E" for x using a2 that by (simp add: aside_def)
      have "made C E key p d (bof p) st s3" unfolding made_def
      proof (intro conjI ballI allI)
        show "free_ok (insert p E) (pool_entry s3) (ic_mem s3)" "free_ok (insert d ?D) (pool_dir_data s3) (ic_mem s3)"
          using R f2 ok(5) free_ok_mono [OF _ le] by (simp_all add: published_def)
        show "live (dir_datas s3 d) = []" using i(2) ok(5) by (simp add: slots_made_def published_def)
        show "length (dir_datas s3 x) = CHILDREN_ARRAY_SIZE" for x using a2 S(6) ok(5) by (simp add: aside_def published_def)
      qed (use R ok eq a2 ti2(2) in \<open>auto simp: published_def aside_def\<close>)
      moreover have "Q p d (ents s3 p)" by (rule Q [OF _ _ i(3)]) (use ok(5) in \<open>auto simp: published_def\<close>)
      moreover have "full_debug s3 = full_debug st" using ok(5) a2 by (simp add: published_def aside_def)
      ultimately show ?thesis using run ok(1,4) by (intro exI [of _ "Some p"] exI [of _ CACHE_INODE_SUCCESS] exI [of _ s3]) auto
    qed
  qed
qed

end
