(* ===== verification/Dir_Link.thy ===== *)
theory Dir_Link
  imports Dir_New
begin

text \<open>
  A chain that grows: \<^verbatim>\<open>cache_inode_add_cached_dirent\<close> links the \<^verbatim>\<open>DIR_CONTINUE\<close> after the last entry of a full chain, made by
  \<^verbatim>\<open>cache_inode_new_entry\<close> or left there by an invalidation.
\<close>

section \<open>Linking\<close>

definition relinked :: "addr \<Rightarrow> addr \<Rightarrow> ('h, 'a) inode_store \<Rightarrow> ('h, 'a) inode_store \<Rightarrow> bool" where
  "relinked c n st st' \<longleftrightarrow> (\<exists>es. st' = st\<lparr>ents := es\<rparr>) \<and>
     (\<forall>x. internal_md (ents st' x) = internal_md (ents st x) \<and> parent_list (ents st' x) = parent_list (ents st x) \<and>
        lru_entry_of (ents st' x) = lru_entry_of (ents st x) \<and> pdir_data (ents st' x) = pdir_data (ents st x) \<and>
        nbactive (ents st' x) = nbactive (ents st x) \<and> handle_of st' x = handle_of st x \<and>
        dc_pdir_begin (dir_cont (ents st' x)) = dc_pdir_begin (dir_cont (ents st x)) \<and>
        dc_pdir_prev (dir_cont (ents st' x)) = dc_pdir_prev (dir_cont (ents st x)) \<and>
        dir_cont_pos (dir_cont (ents st' x)) = dir_cont_pos (dir_cont (ents st x)) \<and>
        pdir_cont (ents st' x) = (if x = c then Some n else pdir_cont (ents st x)) \<and>
        end_of_dir (ents st' x) = (if x = c then TO_BE_CONTINUED else end_of_dir (ents st x)))"

lemma chain_link_spec:
  assumes "is_begin (ents st c) \<or> dc_pdir_begin (dir_cont (ents st c)) = Some b"
  shows "\<exists>st'. chain_link c n st = Some st' \<and> relinked c n st st'"
proof -
  let ?head = "\<lambda>e. e\<lparr>dir_begin := (dir_begin e)\<lparr>db_pdir_cont := Some n, db_pdir_last := Some n, db_end_of_dir := TO_BE_CONTINUED,
    db_nbdircont := db_nbdircont (dir_begin e) + 1\<rparr>\<rparr>"
  let ?cont = "\<lambda>e. e\<lparr>dir_cont := (dir_cont e)\<lparr>dc_pdir_cont := Some n, dc_end_of_dir := TO_BE_CONTINUED\<rparr>\<rparr>"
  let ?last = "\<lambda>e. e\<lparr>dir_begin := (dir_begin e)\<lparr>db_pdir_last := Some n, db_nbdircont := db_nbdircont (dir_begin e) + 1\<rparr>\<rparr>"
  show ?thesis
  proof (cases "is_begin (ents st c)")
    case True
    let ?es = "(ents st)(c := ?head (ents st c))"
    have "chain_link c n st = Some (st\<lparr>ents := ?es\<rparr>)" using True by (simp add: chain_link_def upd_ent_def)
    moreover have "relinked c n st (st\<lparr>ents := ?es\<rparr>)"
      unfolding relinked_def by (intro conjI allI exI [of _ ?es]) (use True in \<open>auto simp: centry_defs handle_of_def lru_entry_of_def\<close>)
    ultimately show ?thesis by blast
  next
    case False
    let ?es = "let es = (ents st)(c := ?cont (ents st c)) in es(b := ?last (es b))"
    have "chain_link c n st = Some (st\<lparr>ents := ?es\<rparr>)" using False assms by (simp add: chain_link_def upd_ent_def Let_def)
    moreover have "relinked c n st (st\<lparr>ents := ?es\<rparr>)"
      unfolding relinked_def
      by (intro conjI allI exI [of _ ?es]) (use False in \<open>auto simp: centry_defs handle_of_def lru_entry_of_def Let_def\<close>)
    ultimately show ?thesis by blast
  qed
qed

lemma relinkedD:
  assumes "relinked c n st st'"
  shows "internal_md (ents st' x) = internal_md (ents st x)" "parent_list (ents st' x) = parent_list (ents st x)"
    "lru_entry_of (ents st' x) = lru_entry_of (ents st x)" "pdir_data (ents st' x) = pdir_data (ents st x)"
    "nbactive (ents st' x) = nbactive (ents st x)" "handle_of st' x = handle_of st x"
    "dc_pdir_begin (dir_cont (ents st' x)) = dc_pdir_begin (dir_cont (ents st x))"
    "dc_pdir_prev (dir_cont (ents st' x)) = dc_pdir_prev (dir_cont (ents st x))"
    "dir_cont_pos (dir_cont (ents st' x)) = dir_cont_pos (dir_cont (ents st x))"
    "pdir_cont (ents st' x) = (if x = c then Some n else pdir_cont (ents st x))"
    "end_of_dir (ents st' x) = (if x = c then TO_BE_CONTINUED else end_of_dir (ents st x))"
    and "is_begin (ents st' x) = is_begin (ents st x)" "is_dir (ents st' x) = is_dir (ents st x)"
    and "slots st' x = slots st x" "data_of st' x = data_of st x" "node_ok st' x = node_ok st x"
proof -
  show f: "internal_md (ents st' x) = internal_md (ents st x)" "parent_list (ents st' x) = parent_list (ents st x)"
    "lru_entry_of (ents st' x) = lru_entry_of (ents st x)" "pdir_data (ents st' x) = pdir_data (ents st x)"
    "nbactive (ents st' x) = nbactive (ents st x)" "handle_of st' x = handle_of st x"
    "dc_pdir_begin (dir_cont (ents st' x)) = dc_pdir_begin (dir_cont (ents st x))"
    "dc_pdir_prev (dir_cont (ents st' x)) = dc_pdir_prev (dir_cont (ents st x))"
    "dir_cont_pos (dir_cont (ents st' x)) = dir_cont_pos (dir_cont (ents st x))"
    "pdir_cont (ents st' x) = (if x = c then Some n else pdir_cont (ents st x))"
    "end_of_dir (ents st' x) = (if x = c then TO_BE_CONTINUED else end_of_dir (ents st x))"
    using assms unfolding relinked_def by blast+
  show g: "is_begin (ents st' x) = is_begin (ents st x)" "is_dir (ents st' x) = is_dir (ents st x)"
    using f(1) by (simp_all add: is_begin_def is_dir_def)
  have "dir_datas st' = dir_datas st" using assms by (auto simp: relinked_def)
  with f show s: "slots st' x = slots st x" "data_of st' x = data_of st x" by (simp_all add: slots_def data_of_def)
  show "node_ok st' x = node_ok st x" using f g s by (simp add: node_ok_def)
qed

lemma relinked_frame:
  assumes "relinked c n st st'"
  shows "dir_datas st' = dir_datas st" "parents st' = parents st" "ic_ht st' = ic_ht st" "ic_mem st' = ic_mem st" "pool_entry st' = pool_entry st"
    "pool_dir_data st' = pool_dir_data st" "pool_parent st' = pool_parent st" "lru_heap st' = lru_heap st" "lru_gc_list st' = lru_gc_list st"
    "full_debug st' = full_debug st"
  using assms by (auto simp: relinked_def)

lemma linked_snoc:
  assumes "linked st a xs" and "distinct (a # xs @ [p])" and "relinked (last (a # xs)) p st st'"
    and "pdir_cont (ents st p) = None" "end_of_dir (ents st p) = END_OF_DIR"
  shows "linked st' a (xs @ [p])"
  using assms
proof (induction xs arbitrary: a)
  case Nil
  then show ?case using relinkedD(10,11) [OF Nil(3)] by auto
next
  case (Cons x xs)
  from Cons.prems(3) have rl: "relinked (last (x # xs)) p st st'" by simp
  have "linked st' x (xs @ [p])" by (rule Cons.IH [OF _ _ rl]) (use Cons.prems in auto)
  moreover have "a \<noteq> last (x # xs)" using Cons.prems(2) last_in_set [of "x # xs"] by auto
  ultimately show ?case using Cons.prems(1) relinkedD(10,11) [OF rl, of a] by simp
qed

lemma dirents_relinked: "relinked c n st st' \<Longrightarrow> dirents st' cs = dirents st cs"
  by (rule dirents_cong) (simp add: relinkedD(14))

lemma dir_ok_relinked:
  assumes "dir_ok st b cs" and rl: "relinked c n st st'" and "dir_links st' b cs"
  shows "dir_ok st' b cs"
  using assms dir_okD [OF assms(1)] by (simp add: dir_ok_def conts_ok_def relinkedD [OF rl])

lemma dir_links_other:
  assumes "dir_links st b cs" and rl: "relinked c n st st'" and "c \<notin> set (b # cs)"
  shows "dir_links st' b cs"
proof -
  have "linked st' x ns = linked st x ns" if "set (x # ns) \<subseteq> set (b # cs)" for x ns
    by (rule linked_cong) (use that assms(3) relinkedD(10,11) [OF rl] in auto)
  then show ?thesis using assms(1,3) by (cases cs) (auto simp: dir_links_def relinkedD [OF rl])
qed

text \<open>The chain behind the \<^verbatim>\<open>END_OF_DIR\<close> of a \<^verbatim>\<open>DIR_BEGINNING\<close> is used again.\<close>

lemma relink_old:
  assumes inv: "dirs_inv C E PL st" and b: "C b = Some (n # ns)" and rl: "relinked b n st st'"
  shows "dirs_inv C E PL st'" "linked st' b (n # ns)" "same_contents_dirs C st st'"
proof -
  have si: "struct_inv C E st" and rest: "keys_ok C st" "parents_inv C E PL st" "lists_ok C st" using inv by (auto simp: dirs_inv_def)
  note S = struct_invD [OF si]
  note ok = S(1) [OF b] and D = relinkedD [OF rl] and F = relinked_frame [OF rl]
  have bn: "b \<notin> set (n # ns)" using dir_distinct [OF ok] by simp
  have "linked st' n ns = linked st n ns" by (rule linked_cong) (use bn in \<open>auto simp: D\<close>)
  then show lk: "linked st' b (n # ns)" using dir_chain(2) [OF ok refl] by (simp add: D)
  show "same_contents_dirs C st st'" using dirents_relinked [OF rl] by (simp add: same_contents_dirs_def del: dirents_simps)
  have "dir_ok st' b' cs'" if b': "C b' = Some cs'" for b' cs'
  proof (cases "b' = b")
    case True
    with b b' lk dir_ok_relinked [OF ok rl] show ?thesis by (simp add: dir_links_def)
  next
    case False
    with nodes_other [OF si b b'] have "b \<notin> set (b' # cs')" by simp
    with dir_ok_relinked [OF S(1) [OF b'] rl] dir_links_other [OF dir_okD(4) [OF S(1) [OF b']] rl] show ?thesis by blast
  qed
  moreover have "data_of st' = data_of st" "handle_of st' = handle_of st" using D(6,15) by auto
  ultimately have "struct_inv C E st'" using S(2-8) unfolding struct_inv_def F by (simp add: dirents_relinked [OF rl] del: dirents_simps)
  moreover have "parents_inv C E PL st'"
    by (rule parents_cong [OF rest(2)]) (simp_all add: F D dirents_relinked [OF rl] del: dirents_simps)
  moreover have "keys_ok C st'" by (rule keys_cong [OF rest(1)]) (simp_all add: F D)
  moreover have "lists_ok C st'" by (rule lists_cong [OF rest(3)]) (simp_all add: F D)
  ultimately show "dirs_inv C E PL st'" by (simp add: dirs_inv_def)
qed

lemma filter_length_mono: "(\<And>x. P x \<Longrightarrow> Q x) \<Longrightarrow> length (filter P xs) \<le> length (filter Q xs)"
  by (induction xs) (auto intro: le_SucI)

section \<open>A new entry at the end of a chain\<close>

lemma nodes_snoc: "C b = Some cs \<Longrightarrow> nodes (C(b \<mapsto> cs @ [p])) = insert p (nodes C)"
proof (intro set_eqI iffI)
  fix x assume b: "C b = Some cs"
  let ?C = "C(b \<mapsto> cs @ [p])"
  show "x \<in> insert p (nodes C)" if x: "x \<in> nodes ?C"
  proof -
    obtain b' cs' where "?C b' = Some cs'" "x \<in> set (b' # cs')" using x unfolding nodes_def by blast
    then show ?thesis using nodesI [of C b cs x, OF b] nodesI [of C b' cs' x] by (cases "b' = b") auto
  qed
  show "x \<in> nodes ?C" if x: "x \<in> insert p (nodes C)"
  proof (cases "x = p")
    case False
    with x obtain b' cs' where "C b' = Some cs'" "x \<in> set (b' # cs')" unfolding nodes_def by blast
    with b show ?thesis using nodesI [of ?C b "cs @ [p]" x] nodesI [of ?C b' cs' x] by (cases "b' = b") auto
  qed (use nodesI [of ?C b "cs @ [p]" p] in simp)
qed

lemma new_cont_fields:
  assumes "new_cont b c pos d e"
  shows "\<not> is_begin e" "is_dir e" "pdir_data e = Some d" "pdir_cont e = None" "end_of_dir e = END_OF_DIR" "nbactive e = 0" "parent_list e = None"
    "md_type (internal_md e) = DIR_CONTINUE" "dc_pdir_begin (dir_cont e) = Some b" "dc_pdir_prev (dir_cont e) = Some c" "dir_cont_pos (dir_cont e) = pos"
  using assms by (simp_all add: new_cont_def centry_defs)

lemma dir_ok_snoc:
  assumes ok: "dir_ok st b cs" and lk: "linked st b cs" and p: "p \<notin> set (b # cs)" "new_cont b (last (b # cs)) (of_nat (Suc (length cs))) d (ents st p)"
    and sl: "slots_ok (slots st p)" "live (slots st p) = []" and len: "Suc (length cs) < 2 ^ 32 - 1"
    and rl: "relinked (last (b # cs)) p st st'"
  shows "dir_ok st' b (cs @ [p])" "linked st' b (cs @ [p])"
proof -
  note N = new_cont_fields [OF p(2)] and D = relinkedD [OF rl]
  show lk': "linked st' b (cs @ [p])" by (rule linked_snoc [OF lk _ rl]) (use dir_distinct [OF ok] p(1) N in auto)
  have "node_ok st p" using N sl by (simp add: node_ok_def)
  then have nodes: "\<forall>c \<in> set (b # cs @ [p]). node_ok st' c" using dir_okD(6) [OF ok] by (simp add: D)
  have "conts_ok st' b (cs @ [p])" unfolding conts_ok_def
  proof (intro allI impI)
    fix i assume i: "i < length (cs @ [p])"
    show "md_type (internal_md (ents st' ((cs @ [p]) ! i))) = DIR_CONTINUE \<and> dc_pdir_begin (dir_cont (ents st' ((cs @ [p]) ! i))) = Some b \<and>
      dc_pdir_prev (dir_cont (ents st' ((cs @ [p]) ! i))) = Some ((b # cs @ [p]) ! i) \<and> dir_cont_pos (dir_cont (ents st' ((cs @ [p]) ! i))) = of_nat (Suc i)"
    proof (cases "i < length cs")
      case True
      then have "(cs @ [p]) ! i = cs ! i" "(b # cs @ [p]) ! i = (b # cs) ! i" by (simp_all add: nth_append nth_Cons' less_imp_diff_less)
      with True dir_okD(3) [OF ok] show ?thesis by (simp add: conts_ok_def D)
    next
      case False
      with i have i': "i = length cs" by simp
      have "(b # cs @ [p]) ! length cs = last (b # cs)" by (simp add: last_conv_nth nth_append nth_Cons')
      with i' N show ?thesis by (simp add: D)
    qed
  qed
  with nodes lk' len dir_okD(1) [OF ok] show "dir_ok st' b (cs @ [p])" by (simp add: dir_ok_def dir_links_def D)
qed

lemma struct_snoc:
  assumes si: "struct_inv C E st" and b: "C b = Some cs" and lk: "linked st b cs" and len: "Suc (length cs) < 2 ^ 32 - 1"
    and p: "p \<notin> E" "d \<notin> data_of st ` nodes C" "new_cont b (last (b # cs)) (of_nat (Suc (length cs))) d (ents st p)" "live (dir_datas st d) = []"
    and fo: "free_ok (insert p E) (pool_entry st) (ic_mem st)" "free_ok (insert d (data_of st ` nodes C)) (pool_dir_data st) (ic_mem st)"
    and rl: "relinked (last (b # cs)) p st st'"
  shows "struct_inv (C(b \<mapsto> cs @ [p])) (insert p E) st'" and "dirents st' (b # cs @ [p]) = dirents st (b # cs)" and "linked st' b (cs @ [p])"
proof -
  note S = struct_invD [OF si] and N = new_cont_fields [OF p(3)] and D = relinkedD [OF rl] and F = relinked_frame [OF rl]
  have sp: "slots st p = dir_datas st d" "data_of st p = d" using N by (simp_all add: slots_def data_of_def)
  have pn: "p \<notin> set (b' # cs')" if "C b' = Some cs'" for b' cs' using that S(5) p(1) by blast
  have so: "slots_ok (slots st p)" using S(6) p(4) by (auto simp: slots_ok_def sp filter_empty_conv)
  have li: "live (slots st p) = []" using p(4) sp by simp
  note snoc = dir_ok_snoc [OF S(1) [OF b] lk pn [OF b] p(3) so li len rl]
  show "linked st' b (cs @ [p])" by (rule snoc(2))
  show dn: "dirents st' (b # cs @ [p]) = dirents st (b # cs)" using p(4) by (simp only: dirents_relinked [OF rl]) (simp add: sp)
  have each: "dir_ok st' b' cs' \<and> snd ` set (dirents st' (b' # cs')) \<subseteq> insert p E" if b': "(C(b \<mapsto> cs @ [p])) b' = Some cs'" for b' cs'
  proof (cases "b' = b")
    case True
    with b' have "cs' = cs @ [p]" by simp
    with True snoc(1) dn S(2) [OF b] show ?thesis by (auto simp del: dirents_simps)
  next
    case False
    with b' have b': "C b' = Some cs'" by simp
    have "last (b # cs) \<in> set (b # cs)" by (rule last_in_set) simp
    from nodes_other [OF si b b' False this] have "dir_links st' b' cs'" by (rule dir_links_other [OF dir_okD(4) [OF S(1) [OF b']] rl])
    with dir_ok_relinked [OF S(1) [OF b'] rl] S(2) [OF b'] show ?thesis by (auto simp: dirents_relinked [OF rl] simp del: dirents_simps)
  qed
  have eq: "data_of st' = data_of st" "handle_of st' = handle_of st" "dom (C(b \<mapsto> cs @ [p])) = dom C" using D(6,15) b by auto
  have "p \<notin> nodes C" using S(5) p(1) by blast
  then have "inj_on (data_of st') (nodes (C(b \<mapsto> cs @ [p])))" using S(3) p(2) unfolding nodes_snoc [of C b cs p, OF b] eq by (simp add: sp)
  then show "struct_inv (C(b \<mapsto> cs @ [p])) (insert p E) st'"
    using each S(4,5,6) fo unfolding struct_inv_def eq F nodes_snoc [of C b cs p, OF b] by (auto simp: sp)
qed

lemma keys_snoc:
  assumes ko: "keys_ok C st" and si: "struct_inv C E st" and b: "C b = Some cs" and len: "Suc (length cs) < 2 ^ 32"
    and ti: "table_inv (ic_mem st') (ic_ht st')" "table_map (ic_ht st') = (table_map (ic_ht st))((handle_of st b, of_nat (Suc (length cs))) \<mapsto> p)"
    and h: "\<And>x. x \<in> dom C \<Longrightarrow> handle_of st' x = handle_of st x"
  shows "keys_ok (C(b \<mapsto> cs @ [p])) st'"
proof -
  have "table_map (ic_ht st') (handle_of st' b', k) = (if unat k \<le> length cs' then Some ((b' # cs') ! unat k) else None)"
    if b': "(C(b \<mapsto> cs @ [p])) b' = Some cs'" for b' cs' k
  proof (cases "b' = b")
    case True
    with b' have cs': "cs' = cs @ [p]" by simp
    have old: "table_map (ic_ht st) (handle_of st b, k) = (if unat k \<le> length cs then Some ((b # cs) ! unat k) else None)"
      using ko b unfolding keys_ok_def by blast
    have n: "unat (of_nat (Suc (length cs)) :: u32) = Suc (length cs)" by (rule unat_of_nat_pos [OF len])
    show ?thesis
    proof (cases "k = of_nat (Suc (length cs))")
      case True
      have "(b # cs @ [p]) ! Suc (length cs) = p" by simp
      with True \<open>b' = b\<close> cs' n b show ?thesis by (simp add: ti(2) h domI del: of_nat_Suc)
    next
      case False
      have "unat k \<noteq> Suc (length cs)" using False n by (metis word_unat_eq_iff)
      with False \<open>b' = b\<close> cs' b old show ?thesis by (auto simp: ti(2) h domI nth_append nth_Cons' simp del: of_nat_Suc)
    qed
  next
    case False
    with b' have b': "C b' = Some cs'" by simp
    have "handle_of st b' \<noteq> handle_of st b" using struct_invD(4) [OF si] b b' False by (metis domI inj_onD)
    with ko b' show ?thesis by (auto simp: ti(2) h domI keys_ok_def)
  qed
  moreover have "x \<in> handle_of st' ` dom (C(b \<mapsto> cs @ [p]))" if "table_map (ic_ht st') (x, k) \<noteq> None" "k \<noteq> 0" for x k
  proof -
    have "dom (C(b \<mapsto> cs @ [p])) = dom C" "handle_of st' ` dom C = handle_of st ` dom C" using b h by (auto intro: image_cong)
    moreover have "(x, k) = (handle_of st b, of_nat (Suc (length cs))) \<or> table_map (ic_ht st) (x, k) \<noteq> None"
      using that(1) unfolding ti(2) by (metis fun_upd_apply)
    moreover have "handle_of st b \<in> handle_of st ` dom C" using b by blast
    moreover have "x \<in> handle_of st ` dom C" if "table_map (ic_ht st) (x, k) \<noteq> None"
      using ko that \<open>k \<noteq> 0\<close> unfolding keys_ok_def by blast
    ultimately show ?thesis by (metis prod.inject)
  qed
  ultimately show ?thesis using ti(1) by (simp add: keys_ok_def)
qed

text \<open>A new entry \<open>p\<close>, which no directory names, has no parent records; the directories have it in their chains or not.\<close>

lemma parents_extend:
  assumes pi: "parents_inv C E PL st" and si: "struct_inv C E st" and p: "p \<notin> E" "parent_list (ents st' p) = None"
    and fr: "parents st' = parents st" "pool_parent st' = pool_parent st" "brk (ic_mem st) \<le> brk (ic_mem st')"
      "\<And>e. e \<in> E \<Longrightarrow> parent_list (ents st' e) = parent_list (ents st e)"
    and nd: "nodes C \<subseteq> nodes C'"
    and dn: "\<And>b cs. C' b = Some cs \<Longrightarrow>
      dirents st' (b # cs) = [] \<or> (\<exists>cs0. C b = Some cs0 \<and> set cs0 \<subseteq> set cs \<and> dirents st' (b # cs) = dirents st (b # cs0))"
  shows "parents_inv C' (insert p E) (PL(p := [])) st'"
proof -
  let ?PL = "PL(p := [])"
  note P = parents_invD [OF pi]
  have old: "?PL e = PL e" if "e \<in> E" for e using that p(1) by auto
  have un: "(\<Union>e \<in> insert p E. set (?PL e)) = (\<Union>e \<in> E. set (PL e))" using old by auto
  have lists: "plist (parents st') (parent_list (ents st' e)) (?PL e) \<and> distinct (?PL e) \<and>
    (\<forall>q \<in> set (?PL e). parent (parents st' q) \<in> Some ` nodes C')" if "e \<in> insert p E" for e
  proof (cases "e = p")
    case False
    with that have e: "e \<in> E" by simp
    have "\<forall>q \<in> set (PL e). parent (parents st q) \<in> Some ` nodes C'" using P(3) [OF e] image_mono [OF nd, of Some] by blast
    with P(1,2) [OF e] e show ?thesis unfolding old [OF e] by (simp add: fr)
  qed (use p(2) in simp)
  have counts: "count_list (map snd (dirents st' (b # cs))) e \<le> length (filter (in_dir st' (b # cs)) (?PL e))"
    if e: "e \<in> insert p E" and b: "C' b = Some cs" for e b cs
    using dn [OF b]
  proof (elim disjE exE conjE)
    fix cs0 assume cs0: "C b = Some cs0" "set cs0 \<subseteq> set cs" "dirents st' (b # cs) = dirents st (b # cs0)"
    show ?thesis
    proof (cases "e = p")
      case True
      have "p \<notin> snd ` set (dirents st (b # cs0))" using struct_invD(2) [OF si cs0(1)] p(1) by blast
      then have "count_list (map snd (dirents st (b # cs0))) p = 0" by (simp add: count_list_0_iff del: dirents_simps)
      with True cs0(3) show ?thesis by (simp del: dirents_simps)
    next
      case False
      with e have e: "e \<in> E" by simp
      have "length (filter (in_dir st (b # cs0)) (PL e)) \<le> length (filter (in_dir st' (b # cs)) (PL e))"
        by (rule filter_length_mono) (use cs0(2) fr(1) in \<open>auto simp: in_dir_def\<close>)
      with P(4) [OF e cs0(1)] show ?thesis unfolding cs0(3) old [OF e] by linarith
    qed
  qed (simp del: dirents_simps)
  have "free_ok (\<Union>e \<in> insert p E. set (?PL e)) (pool_parent st') (ic_mem st')" unfolding un fr(2)
    using pi free_ok_mono [OF _ fr(3)] by (simp add: parents_inv_def)
  moreover have "set (?PL e) \<inter> set (?PL e') = {}" if "e \<in> insert p E" "e' \<in> insert p E" "e \<noteq> e'" for e e'
    using P(5) [of e e'] that by auto
  ultimately show ?thesis unfolding parents_inv_def
    by (intro conjI ballI allI impI) (rule lists [THEN conjunct1] lists [THEN conjunct2, THEN conjunct1]
      lists [THEN conjunct2, THEN conjunct2, rule_format] counts | assumption)+
qed

section \<open>A full chain\<close>

text \<open>The flags that say which entries are valid: only that of the directory itself may change, and only to \<^verbatim>\<open>VALID\<close>.\<close>

definition valid_kept :: "addr \<Rightarrow> addr set \<Rightarrow> ('h, 'a) inode_store \<Rightarrow> ('h, 'a) inode_store \<Rightarrow> bool" where
  "valid_kept b E st st' \<longleftrightarrow> (\<forall>x \<in> E. (x \<noteq> b \<longrightarrow> internal_md (ents st' x) = internal_md (ents st x)) \<and>
     (md_valid_state (internal_md (ents st x)) = VALID \<longrightarrow> md_valid_state (internal_md (ents st' x)) = VALID))"

lemma last_cont:
  assumes ok: "dir_ok st b cs"
  defines "c \<equiv> last (b # cs)" and "pos \<equiv> of_nat (Suc (length cs)) :: u32"
  shows "is_dir (ents st c)"
    and "if is_begin (ents st c) then b = c \<and> pos = 1 else dc_pdir_begin (dir_cont (ents st c)) = Some b \<and> pos = dir_cont_pos (dir_cont (ents st c)) + 1"
    and "chain_fsdata c st = Some (handle_of st b, pos)"
proof -
  have "c \<in> set (b # cs)" unfolding c_def by (rule last_in_set) simp
  then show "is_dir (ents st c)" using dir_okD(6) [OF ok] by (simp add: node_ok_def)
  show l: "if is_begin (ents st c) then b = c \<and> pos = 1 else dc_pdir_begin (dir_cont (ents st c)) = Some b \<and> pos = dir_cont_pos (dir_cont (ents st c)) + 1"
  proof (cases cs rule: rev_cases)
    case Nil
    then show ?thesis using dir_okD(1) [OF ok] by (simp add: c_def pos_def)
  next
    case (snoc ds n)
    then have "c = cs ! length ds" "length ds < length cs" by (simp_all add: c_def)
    with dir_okD(3) [OF ok] have "dc_pdir_begin (dir_cont (ents st c)) = Some b" "dir_cont_pos (dir_cont (ents st c)) = of_nat (Suc (length ds))"
      by (simp_all add: conts_ok_def)
    moreover have "\<not> is_begin (ents st c)" using snoc by (intro cont_fields(3) [OF ok]) (simp add: c_def)
    ultimately show ?thesis using snoc by (simp add: pos_def)
  qed
  then show "chain_fsdata c st = Some (handle_of st b, pos)" by (auto simp: chain_fsdata_def handle_of_def split: if_splits)
qed

lemma new_continue_spec:
  fixes st :: "('h, 'a) inode_store"
  assumes inv: "dirs_inv C E PL st" and b: "C b = Some cs" and len: "Suc (length cs) < 2 ^ 32"
  defines "c \<equiv> last (b # cs)" and "key \<equiv> (handle_of st b, of_nat (Suc (length cs)))"
  shows "\<exists>r status st'. cache_inode_new_entry codes key local (New_continue c) now st = Some (r, status, st') \<and> full_debug st' = full_debug st \<and>
    (r = None \<and> status \<in> {CACHE_INODE_MALLOC_ERROR, CACHE_INODE_INIT_ENTRY_FAILED, CACHE_INODE_UNAPPROPRIATED_KEY, CACHE_INODE_HASH_SET_ERROR} \<and>
       dirs_inv C E PL st' \<and> same_contents_dirs C st st' \<and> (\<forall>x \<in> E. ents st' x = ents st x) \<or>
     (\<exists>p d. r = Some p \<and> status = CACHE_INODE_SUCCESS \<and> made C E key p d b st st' \<and> new_cont b c (snd key) d (ents st' p) \<and> lists_ok C st'))"
proof (rule new_entry_spec [where Q = "\<lambda>p. new_cont b c (snd key)" and bof = "\<lambda>p. b" and Cof = "\<lambda>p. C", OF inv])
  have si: "struct_inv C E st" and ko: "keys_ok C st" using inv by (auto simp: dirs_inv_def)
  note S = struct_invD [OF si] and ok = struct_invD(1) [OF si b]
  have "\<not> unat (of_nat (Suc (length cs)) :: u32) \<le> length cs" unfolding unat_of_nat_pos [OF len] by simp
  with ko b show "table_map (ic_ht st) key = None" unfolding keys_ok_def key_def by presburger
  fix p d and s :: "('h, 'a) inode_store"
  assume p: "p \<notin> E" and e: "\<forall>x \<in> E. ents s x = ents st x"
    and "if kind_begins (New_continue c) then db_pdir_data (dir_begin (ents s p)) = Some d else dc_pdir_data (dir_cont (ents s p)) = Some d"
  then have d: "dc_pdir_data (dir_cont (ents s p)) = Some d" by simp
  have "c \<in> set (b # cs)" unfolding c_def by (rule last_in_set) simp
  then have cE: "c \<in> E" "b \<in> E" using S(5) nodesI [of C b cs, OF b] by auto
  note lc = last_cont [OF ok, folded c_def]
  obtain s' where i: "new_entry_init (fst key) (New_continue c) now p d s = (True, s')" "slots_made d s s'" "new_cont b c (snd key) d (ents s' p)"
    "entry_lock (ents s' p) = entry_lock (ents s p)" "\<And>c. c \<noteq> p \<Longrightarrow> ents s' c = ents s c" "s' = s\<lparr>ents := ents s', dir_datas := dir_datas s'\<rparr>"
    by (rule new_entry_init_cont [OF d, of c b "snd key"]) (use cE p e lc in \<open>auto simp: key_def\<close>)
  have "ents s' b = ents st b" using i(5) [of b] cE p e by auto
  then have "begins_at s' p b" using new_cont_fields [OF i(3)] dir_okD(1) [OF ok] by (simp add: begins_at_def is_begin_def)
  with i b show "\<exists>s'. new_entry_init (fst key) (New_continue c) now p d s = (True, s') \<and> slots_made d s s' \<and> new_cont b c (snd key) d (ents s' p) \<and>
      entry_lock (ents s' p) = entry_lock (ents s p) \<and> (\<forall>c. c \<noteq> p \<longrightarrow> ents s' c = ents s c) \<and> s' = s\<lparr>ents := ents s', dir_datas := dir_datas s'\<rparr> \<and>
      begins_at s' p b \<and> b \<in> dom C \<and> (lists_ok C s' \<longrightarrow> lists_ok C s')" by (intro exI [of _ s']) auto
next
  show "new_cont b c (snd key) d e" if "dview e = dview e'" "parent_list e = parent_list e'" "new_cont b c (snd key) d e'" for d and e e' :: "('h, 'a) centry"
    using that dview_fields [OF that(1)] by (simp add: new_cont_def)
qed

lemma made_link:
  assumes inv: "dirs_inv C E PL st" and b: "C b = Some cs" and lk: "linked st b cs" and len: "Suc (length cs) < 2 ^ 32 - 1"
    and mk: "made C E (handle_of st b, of_nat (Suc (length cs))) p d b st s" and new: "new_cont b (last (b # cs)) (of_nat (Suc (length cs))) d (ents s p)"
    and lo: "lists_ok C s" and rl: "relinked (last (b # cs)) p s st'"
  shows "dirs_inv (C(b \<mapsto> cs @ [p])) (insert p E) (PL(p := [])) st'" and "linked st' b (cs @ [p])"
    and "dirents st' (b # cs @ [p]) = dirents st (b # cs)" "same_others C b st st'" "live (slots st' p) = []" "valid_kept b E st st'"
proof -
  have si: "struct_inv C E st" and rest: "keys_ok C st" "parents_inv C E PL st" "lists_ok C st" using inv by (auto simp: dirs_inv_def)
  note S = struct_invD [OF si] and D = relinkedD [OF rl] and F = relinked_frame [OF rl] and M = mk [unfolded made_def]
  have sc: "struct_inv C E s" "\<And>b cs. C b = Some cs \<Longrightarrow> dirents s (b # cs) = dirents st (b # cs)" "\<And>b. b \<in> dom C \<Longrightarrow> handle_of s b = handle_of st b"
    "\<And>c. c \<in> nodes C \<Longrightarrow> data_of s c = data_of st c"
    by (rule struct_cong [OF si]; use M in \<open>auto intro: free_ok_subset\<close>)+
  have im: "data_of s ` nodes C = data_of st ` nodes C" using sc(4) by (rule image_cong [OF refl])
  have bE: "x \<in> E" if "x \<in> set (b # cs)" for x using S(5) nodesI [of C b cs x, OF b that] by blast
  have "linked s b cs" using lk linked_cong [of b cs s st] dview_fields(6,7) M bE by metis
  from struct_snoc [OF sc(1) b this len _ _ new _ _ _ rl] M im have sn: "struct_inv (C(b \<mapsto> cs @ [p])) (insert p E) st'"
    "dirents st' (b # cs @ [p]) = dirents s (b # cs)" "linked st' b (cs @ [p])" by simp_all
  show dn: "dirents st' (b # cs @ [p]) = dirents st (b # cs)" using sn(2) sc(2) [OF b] by simp
  show "linked st' b (cs @ [p])" by (rule sn(3))
  show so: "same_others C b st st'" using sc(2) by (simp add: same_others_def dirents_relinked [OF rl] del: dirents_simps)
  have "slots st' p = dir_datas s d" using new_cont_fields(3) [OF new] by (simp add: D F slots_def)
  then show "live (slots st' p) = []" using M by simp
  show "valid_kept b E st st'" using M by (simp add: valid_kept_def D)
  have "parents_inv (C(b \<mapsto> cs @ [p])) (insert p E) (PL(p := [])) st'"
  proof (rule parents_extend [OF rest(2) si])
    show "dirents st' (b' # cs') = [] \<or> (\<exists>cs0. C b' = Some cs0 \<and> set cs0 \<subseteq> set cs' \<and> dirents st' (b' # cs') = dirents st (b' # cs0))"
      if "(C(b \<mapsto> cs @ [p])) b' = Some cs'" for b' cs'
      using that b dn so by (cases "b' = b") (auto simp: same_others_def simp del: dirents_simps)
  qed (use M new_cont_fields(7) [OF new] nodes_snoc [of C b cs p, OF b] in \<open>auto simp: F D\<close>)
  moreover have "keys_ok (C(b \<mapsto> cs @ [p])) st'"
    by (rule keys_snoc [OF rest(1) si b]) (use M len sc(3) in \<open>simp_all add: F D\<close>)
  moreover have "lists_ok (C(b \<mapsto> cs @ [p])) st'" by (rule lists_cong [OF lo]) (use b in \<open>auto simp: F D\<close>)
  ultimately show "dirs_inv (C(b \<mapsto> cs @ [p])) (insert p E) (PL(p := [])) st'" using sn(1) by (simp add: dirs_inv_def)
qed

text \<open>What a call leaves of the maps that describe the directories: they stay, or \<open>n\<close> is new at the end of \<open>b\<close>.\<close>

definition grows :: "addr \<Rightarrow> addr \<Rightarrow> dirs \<Rightarrow> addr set \<Rightarrow> (addr \<Rightarrow> addr list) \<Rightarrow> dirs \<Rightarrow> addr set \<Rightarrow> (addr \<Rightarrow> addr list) \<Rightarrow> bool" where
  "grows b n C E PL C' E' PL' \<longleftrightarrow> C' = C \<and> E' = E \<and> PL' = PL \<or>
     n \<notin> E \<and> C' = C(b \<mapsto> the (C b) @ [n]) \<and> E' = insert n E \<and> PL' = PL(n := [])"

definition fails_unchanged :: "dirs \<Rightarrow> addr set \<Rightarrow> (addr \<Rightarrow> addr list) \<Rightarrow> cache_inode_status \<Rightarrow> ('h, 'a) inode_store \<Rightarrow> ('h, 'a) inode_store \<Rightarrow> bool" where
  "fails_unchanged C E PL status st st' \<longleftrightarrow>
     status \<in> {CACHE_INODE_MALLOC_ERROR, CACHE_INODE_INIT_ENTRY_FAILED, CACHE_INODE_UNAPPROPRIATED_KEY, CACHE_INODE_HASH_SET_ERROR} \<and>
     dirs_inv C E PL st' \<and> same_contents_dirs C st st'"

lemma full_chain:
  assumes "dir_ok st b cs" and "c = last (b # visible st b cs)"
  shows "pdir_cont (ents st c) = None \<and> linked st b cs \<and> c = last (b # cs) \<or>
    (\<exists>n ns. c = b \<and> cs = n # ns \<and> pdir_cont (ents st c) = Some n \<and> (\<forall>x \<in> set cs. live (slots st x) = []))"
proof -
  have last: "linked st a xs \<Longrightarrow> pdir_cont (ents st (last (a # xs))) = None" for a xs by (induction xs arbitrary: a) auto
  show ?thesis
  proof (cases "linked st b cs")
    case True
    then have "visible st b cs = cs" by (cases cs) (simp_all add: visible_def)
    with True last assms(2) show ?thesis by simp
  next
    case False
    with dir_okD(4) [OF assms(1)] assms(2) show ?thesis by (auto simp: dir_links_def visible_def)
  qed
qed

lemma chain_extend_spec:
  assumes inv: "dirs_inv C E PL st" and b: "C b = Some cs" and c: "c = last (b # visible st b cs)" and len: "Suc (length cs) < 2 ^ 32 - 1"
  shows "\<exists>r status st'. chain_extend codes local now c st = Some (r, status, st') \<and> full_debug st' = full_debug st \<and>
    (r = None \<and> fails_unchanged C E PL status st st' \<and> valid_kept b E st st' \<or>
     (\<exists>n C' E' PL' cs'. r = Some n \<and> status = CACHE_INODE_SUCCESS \<and> grows b n C E PL C' E' PL' \<and> C' b = Some cs' \<and> dirs_inv C' E' PL' st' \<and>
       linked st' b cs' \<and> n \<in> set cs' \<and> live (slots st' n) = [] \<and> dirents st' (b # cs') = dirents st (b # cs) \<and> same_others C b st st' \<and>
       valid_kept b E st st'))"
proof -
  have si: "struct_inv C E st" using inv by (simp add: dirs_inv_def)
  note ok = struct_invD(1) [OF si b]
  from full_chain [OF ok c] show ?thesis
  proof (elim disjE exE conjE)
    fix n ns assume old: "c = b" "cs = n # ns" "pdir_cont (ents st c) = Some n" "\<forall>x \<in> set cs. live (slots st x) = []"
    have isb: "is_begin (ents st b)" by (rule dir_okD(1) [OF ok])
    then obtain st' where l: "chain_link b n st = Some st'" "relinked b n st st'" using chain_link_spec by blast
    note R = relink_old [OF inv b [unfolded old(2)] l(2)]
    have "chain_extend codes local now c st = Some (Some n, CACHE_INODE_SUCCESS, st')"
      using old isb l(1) by (simp add: chain_extend_def chain_fsdata_def)
    moreover have "dirents st' (b # cs) = dirents st (b # cs)" "same_others C b st st'"
      using R(3) b by (simp_all add: same_contents_dirs_def same_others_def del: dirents_simps)
    moreover have "live (slots st' n) = []" "valid_kept b E st st'" using old(2,4) by (simp_all add: relinkedD [OF l(2)] valid_kept_def)
    ultimately show ?thesis using R(1,2) b old(2) relinked_frame(10) [OF l(2)]
      by (intro exI [of _ "Some n"] exI [of _ CACHE_INODE_SUCCESS] exI [of _ st'] conjI disjI2 exI [of _ n] exI [of _ C] exI [of _ E] exI [of _ PL] exI [of _ cs])
        (simp_all add: grows_def del: dirents_simps)
  next
    assume end': "pdir_cont (ents st c) = None" and lk: "linked st b cs" and c: "c = last (b # cs)"
    have len': "Suc (length cs) < 2 ^ 32" using len by simp
    note lc = last_cont [OF ok, folded c]
    obtain r status s where n: "cache_inode_new_entry codes (handle_of st b, of_nat (Suc (length cs))) local (New_continue c) now st = Some (r, status, s)"
      "full_debug s = full_debug st"
      "r = None \<and> status \<in> {CACHE_INODE_MALLOC_ERROR, CACHE_INODE_INIT_ENTRY_FAILED, CACHE_INODE_UNAPPROPRIATED_KEY, CACHE_INODE_HASH_SET_ERROR} \<and>
         dirs_inv C E PL s \<and> same_contents_dirs C st s \<and> (\<forall>x \<in> E. ents s x = ents st x) \<or>
       (\<exists>p d. r = Some p \<and> status = CACHE_INODE_SUCCESS \<and> made C E (handle_of st b, of_nat (Suc (length cs))) p d b st s \<and>
         new_cont b c (of_nat (Suc (length cs))) d (ents s p) \<and> lists_ok C s)"
      using new_continue_spec [OF inv b len', of codes local now] unfolding c snd_conv by blast
    from n(3) show ?thesis
    proof (elim disjE exE conjE)
      fix p d assume p: "r = Some p" "made C E (handle_of st b, of_nat (Suc (length cs))) p d b st s"
        "new_cont b c (of_nat (Suc (length cs))) d (ents s p)" "lists_ok C s"
      have "c \<in> set (b # cs)" unfolding c by (rule last_in_set) simp
      then have "c \<in> E" using struct_invD(5) [OF si] nodesI [of C b cs, OF b] by blast
      then have "dview (ents s c) = dview (ents st c)" "p \<notin> E" using p(2) by (auto simp: made_def)
      with lc(2) have "is_begin (ents s c) \<or> dc_pdir_begin (dir_cont (ents s c)) = Some b" using dview_fields(2,4) by (metis (full_types))
      then obtain st' where l: "chain_link c p s = Some st'" "relinked c p s st'" using chain_link_spec by blast
      note M = made_link [OF inv b lk len p(2) p(3) [unfolded c] p(4) l(2) [unfolded c]]
      have "chain_extend codes local now c st = Some (Some p, CACHE_INODE_SUCCESS, st')"
        using end' lc(3) n(1) p(1) l(1) by (simp add: chain_extend_def)
      with M show ?thesis using \<open>p \<notin> E\<close> b n(2) relinked_frame(10) [OF l(2)]
        by (intro exI [of _ "Some p"] exI [of _ CACHE_INODE_SUCCESS] exI [of _ st'] conjI disjI2 exI [of _ p] exI [of _ "C(b \<mapsto> cs @ [p])"]
          exI [of _ "insert p E"] exI [of _ "PL(p := [])"] exI [of _ "cs @ [p]"]) (simp_all add: grows_def del: dirents_simps)
    next
      assume f: "r = None" "status \<in> {CACHE_INODE_MALLOC_ERROR, CACHE_INODE_INIT_ENTRY_FAILED, CACHE_INODE_UNAPPROPRIATED_KEY, CACHE_INODE_HASH_SET_ERROR}"
        "dirs_inv C E PL s" "same_contents_dirs C st s" "\<forall>x \<in> E. ents s x = ents st x"
      have "chain_extend codes local now c st = Some (None, status, s)" using end' lc(3) n(1) f(1) by (simp add: chain_extend_def)
      with f n(2) show ?thesis by (simp add: fails_unchanged_def valid_kept_def)
    qed
  qed
qed

end
