(* ===== verification/Dir_Add.thy ===== *)
theory Dir_Add
  imports Dir_Link
begin

text \<open>
  \<^verbatim>\<open>cache_inode_add_cached_dirent\<close>: the first free slot from the entry it is given on is filled, and a parent record of the
  added entry points back to it. A full chain is extended first.
\<close>

section \<open>Filling a slot\<close>

lemma parents_link:
  assumes si: "struct_inv C E st" and pi: "parents_inv C E PL st" and b: "C b = Some cs" and e: "e \<in> E" and c: "c \<in> set (b # cs)"
    and fresh: "q \<notin> (\<Union>e \<in> E. set (PL e))" "free_ok (insert q (\<Union>e \<in> E. set (PL e))) (pool_parent st') (ic_mem st')"
    and q: "parent (parents st' q) = Some c" "next_parent (parents st' q) = parent_list (ents st e)" and pe: "parent_list (ents st' e) = Some q"
    and rest: "\<And>r. r \<noteq> q \<Longrightarrow> parents st' r = parents st r" "\<And>x. x \<noteq> e \<Longrightarrow> parent_list (ents st' x) = parent_list (ents st x)"
    and cnt: "\<And>x. count_list (map snd (dirents st' (b # cs))) x = count_list (map snd (dirents st (b # cs))) x + (if x = e then 1 else 0)"
    and others: "same_others C b st st'"
  shows "parents_inv C E (PL(e := q # PL e)) st'"
proof -
  let ?PL = "PL(e := q # PL e)"
  note P = parents_invD [OF pi]
  have nq: "q \<notin> set (PL x)" if "x \<in> E" for x using fresh(1) that by blast
  have cN: "c \<in> nodes C" using b c by blast
  have old: "plist (parents st') p qs = plist (parents st) p qs" if "q \<notin> set qs" for p qs
    by (rule plist_cong) (use that rest(1) in metis)
  have ind: "in_dir st' xs r = in_dir st xs r" if "r \<noteq> q" for xs r using rest(1) [OF that] by (simp add: in_dir_def)
  have flt: "filter (in_dir st' xs) (PL x) = filter (in_dir st xs) (PL x)" if "x \<in> E" for xs x
    by (rule filter_cong [OF refl]) (use ind nq [OF that] in metis)
  have lists: "plist (parents st') (parent_list (ents st' x)) (?PL x) \<and> distinct (?PL x) \<and>
    (\<forall>r \<in> set (?PL x). parent (parents st' r) \<in> Some ` nodes C)" if x: "x \<in> E" for x
  proof -
    have "parent (parents st' r) \<in> Some ` nodes C" if "r \<in> set (PL x)" for r
      using P(3) [OF x] that nq [OF x] rest(1) by metis
    then show ?thesis using P(1,2) [OF x] nq [OF x] q pe rest(2) cN by (cases "x = e") (simp_all add: old)
  qed
  have counts: "count_list (map snd (dirents st' (b' # cs'))) x \<le> length (filter (in_dir st' (b' # cs')) (?PL x))"
    if x: "x \<in> E" and b': "C b' = Some cs'" for x b' cs'
  proof (cases "b' = b")
    case True
    with b b' have cs: "cs' = cs" by simp
    have "in_dir st' (b # cs) q" using q(1) c by (auto simp: in_dir_def)
    with True cs P(4) [OF x b] cnt [of x] flt [OF x] show ?thesis by (cases "x = e") (simp_all del: dirents_simps)
  next
    case False
    have "\<not> in_dir st' (b' # cs') q" using q(1) nodes_other [OF si b b' False c] by (auto simp: in_dir_def)
    with P(4) [OF x b'] others b' False flt [OF x] show ?thesis
      by (cases "x = e") (simp_all add: same_others_def del: dirents_simps)
  qed
  have "(\<Union>x \<in> E. set (?PL x)) = insert q (\<Union>x \<in> E. set (PL x))" using e by (auto split: if_splits)
  with fresh(2) have "free_ok (\<Union>x \<in> E. set (?PL x)) (pool_parent st') (ic_mem st')" by simp
  moreover have "set (?PL x) \<inter> set (?PL y) = {}" if "x \<in> E" "y \<in> E" "x \<noteq> y" for x y
    using P(5) [OF that] nq [OF that(1)] nq [OF that(2)] that(3) by auto
  ultimately show ?thesis using lists counts unfolding parents_inv_def by blast
qed

definition filled :: "fsal_name \<Rightarrow> addr \<Rightarrow> dir_entry \<Rightarrow> dir_entry" where
  "filled nm e s = s\<lparr>active := VALID, de_pentry := Some e, de_name := nm\<rparr>"

lemma named_filled [simp]: "active (filled nm e s) = VALID" "de_pentry (filled nm e s) = Some e" "named (filled nm e s) = (nm, e)"
  by (simp_all add: filled_def named_def)

text \<open>The memory of the parent records is taken first, so that a failure changes nothing else.\<close>

lemma fill_slot_run:
  assumes "pdir_data (ents st c) = Some d" and "i < length (dir_datas st d)" and "GET_PREALLOC (nb_pre_parent st) (pool_parent st) (ic_mem st) = (r, pool, m)"
  shows "r = None \<Longrightarrow> fill_slot (Some nm) e c i st = Some (CACHE_INODE_MALLOC_ERROR, None, st\<lparr>pool_parent := pool, ic_mem := m\<rparr>)"
    and "r = Some q \<Longrightarrow> \<exists>st'. fill_slot (Some nm) e c i st = Some (CACHE_INODE_SUCCESS, Some c, st') \<and>
      dir_datas st' = (dir_datas st)(d := (dir_datas st d)[i := filled nm e (dir_datas st d ! i)]) \<and>
      parents st' = (parents st)(q := \<lparr>subdirpos = of_nat i, parent = Some c, next_parent = parent_list (ents st e)\<rparr>) \<and>
      ents st' = (let es = (ents st)(c := set_nbactive (nbactive (ents st c) + 1) (ents st c)) in es(e := (es e)\<lparr>parent_list := Some q\<rparr>)) \<and>
      pool_parent st' = pool \<and> ic_mem st' = m \<and> pool_entry st' = pool_entry st \<and> pool_dir_data st' = pool_dir_data st \<and> ic_ht st' = ic_ht st \<and>
      lru_heap st' = lru_heap st \<and> lru_gc_list st' = lru_gc_list st \<and> full_debug st' = full_debug st"
  using assms
  by (auto simp: fill_slot_def upd_ent_def upd_slot_def upd_parent_def FSAL_namecpy_def fsal_name_eq Let_def filled_def)

lemma fill_slot_spec:
  assumes inv: "dirs_inv C E PL st" and b: "C b = Some cs" and c: "c \<in> set (b # visible st b cs)" and i: "i < CHILDREN_ARRAY_SIZE"
    and free: "active (slots st c ! i) = INVALID" and e: "e \<in> E"
  shows "\<exists>st'. full_debug st' = full_debug st \<and> (\<forall>x. internal_md (ents st' x) = internal_md (ents st x)) \<and>
    (fill_slot (Some nm) e c i st = Some (CACHE_INODE_MALLOC_ERROR, None, st') \<and> dirs_inv C E PL st' \<and> same_contents_dirs C st st' \<and>
       nb_pre_parent st = 0 \<or>
     (\<exists>q xs ys. fill_slot (Some nm) e c i st = Some (CACHE_INODE_SUCCESS, Some c, st') \<and> dirs_inv C E (PL(e := q # PL e)) st' \<and>
       dirents st (b # cs) = xs @ ys \<and> dirents st' (b # cs) = xs @ (nm, e) # ys \<and> same_others C b st st' \<and>
       visible st' b cs = visible st b cs \<and> parent (parents st' q) = Some c \<and> subdirpos (parents st' q) = of_nat i))"
proof -
  have si: "struct_inv C E st" and rest: "keys_ok C st" "parents_inv C E PL st" "lists_ok C st" using inv by (auto simp: dirs_inv_def)
  note S = struct_invD [OF si]
  note ok = S(1) [OF b]
  have cin: "c \<in> set (b # cs)" using c dir_visible(3) [OF dir_okD(4) [OF ok]] by auto
  note n = dir_okD(6) [OF ok cin]
  from n obtain d where d: "pdir_data (ents st c) = Some d" by (auto simp: node_ok_def)
  then have dd: "slots st c = dir_datas st d" "data_of st c = d" by (simp_all add: slots_def data_of_def)
  have i': "i < length (slots st c)" using n i by (simp add: node_ok_def slots_ok_def)
  obtain r pool m where g: "GET_PREALLOC (nb_pre_parent st) (pool_parent st) (ic_mem st) = (r, pool, m)" by (metis prod_cases3)
  let ?R = "\<Union>e \<in> E. set (PL e)"
  have fo: "free_ok ?R (pool_parent st) (ic_mem st)" using rest(2) by (simp add: parents_inv_def)
  note G = free_ok_get [OF fo g] and GF = GET_PREALLOC_fails [OF g]
  note run = fill_slot_run [OF d i' [unfolded dd(1)] g]
  show ?thesis
  proof (cases r)
    case None
    let ?st = "st\<lparr>pool_parent := pool, ic_mem := m\<rparr>"
    have "mem_good (ic_mem st)" using rest(3) by (auto simp: lists_ok_def dest: lru_goodD(6))
    then have "nb_pre_parent st = 0" using GET_PREALLOC_good [OF g] None by blast
    have sc: "struct_inv C E ?st" "\<And>b cs. C b = Some cs \<Longrightarrow> dirents ?st (b # cs) = dirents st (b # cs)" "\<And>b. handle_of ?st b = handle_of st b"
      using struct_cong(1,2) [OF si, of ?st] S(6-8) G(1) free_ok_mono by (simp_all add: handle_of_def)
    have "parents_inv C E PL ?st"
      by (rule parents_frame [OF rest(2)]) (use G(2) sc(2) in \<open>simp_all del: dirents_simps\<close>)
    moreover have "keys_ok C ?st" by (rule keys_cong [OF rest(1)]) (use G(1) sc(3) in auto)
    moreover have "lists_ok C ?st" by (rule lists_cong [OF rest(3)]) (use G(1) GF in auto)
    ultimately have "dirs_inv C E PL ?st" using sc(1) by (simp add: dirs_inv_def)
    with run(1) [OF None, of nm e] sc(2) \<open>nb_pre_parent st = 0\<close> show ?thesis
      by (intro exI [of _ ?st]) (simp add: same_contents_dirs_def del: dirents_simps)
  next
    case (Some q)
    let ?s = "filled nm e (slots st c ! i)"
    from run(2) [OF Some, of nm e] obtain st' where R: "fill_slot (Some nm) e c i st = Some (CACHE_INODE_SUCCESS, Some c, st')"
      "dir_datas st' = (dir_datas st)(d := (dir_datas st d)[i := ?s])"
      "parents st' = (parents st)(q := \<lparr>subdirpos = of_nat i, parent = Some c, next_parent = parent_list (ents st e)\<rparr>)"
      "ents st' = (let es = (ents st)(c := set_nbactive (nbactive (ents st c) + 1) (ents st c)) in es(e := (es e)\<lparr>parent_list := Some q\<rparr>))"
      "pool_parent st' = pool" "ic_mem st' = m" "pool_entry st' = pool_entry st" "pool_dir_data st' = pool_dir_data st" "ic_ht st' = ic_ht st"
      "lru_heap st' = lru_heap st" "lru_gc_list st' = lru_gc_list st" "full_debug st' = full_debug st" unfolding dd(1) by blast
    have ef: "internal_md (ents st' x) = internal_md (ents st x)" "lru_entry_of (ents st' x) = lru_entry_of (ents st x)"
      "x \<noteq> e \<Longrightarrow> parent_list (ents st' x) = parent_list (ents st x)" "parent_list (ents st' e) = Some q" for x
      unfolding R(4) Let_def lru_entry_of_def by auto
    have "length (live ((slots st c)[i := ?s])) = Suc (length (live (slots st c)))"
      unfolding live_update [OF i'] using live_split [OF i'] free by simp
    then have "nbactive (ents st c) + 1 = of_nat (length (live ((slots st c)[i := ?s])))" using n by (simp add: node_ok_def)
    then have up: "new_slots c ((slots st c)[i := ?s]) st st'"
      unfolding new_slots_def R(2,4) Let_def by (simp add: dd dview_def)
    obtain us vs where eq: "b # cs = us @ c # vs" using cin by (meson split_list)
    have sn: "struct_inv C E st'"
      "dirents st (b # cs) = (dirents st us @ map named (live (take i (slots st c)))) @ map named (live (drop (Suc i) (slots st c))) @ dirents st vs"
      "dirents st' (b # cs) = (dirents st us @ map named (live (take i (slots st c)))) @ (nm, e) # map named (live (drop (Suc i) (slots st c))) @ dirents st vs"
      "same_others C b st st'"
      using struct_new_slot [OF si b c eq i _ up R(7,8)] e free G(1) R(6) by (simp_all add: same_others_def del: dirents_simps)
    have fq: "q \<notin> ?R" "free_ok (insert q ?R) pool m" using G(3) [OF Some] by auto
    have "parents_inv C E (PL(e := q # PL e)) st'"
    proof (rule parents_link [OF si rest(2) b e cin fq(1)])
      show "count_list (map snd (dirents st' (b # cs))) x = count_list (map snd (dirents st (b # cs))) x + (if x = e then 1 else 0)" for x
        unfolding sn(2,3) by simp
    qed (use fq(2) R(3,5,6) ef(3,4) sn(4) in auto)
    moreover have "keys_ok C st'" by (rule keys_cong [OF rest(1)]) (use G(1) R(6,9) new_slots_fields(2) [OF up] in auto)
    moreover have "lists_ok C st'" by (rule lists_cong [OF rest(3)]) (use G(1) GF R(6,10,11) ef(2) in auto)
    ultimately have "dirs_inv C E (PL(e := q # PL e)) st'" using sn(1) by (simp add: dirs_inv_def)
    moreover have "visible st' b cs = visible st b cs" using new_slots_fields(3) [OF up] by (simp add: visible_def)
    ultimately show ?thesis using R(1,3,12) ef(1) sn(2,3,4)
      by (intro exI [of _ st'] conjI disjI2 allI exI [of _ q] exI) (assumption | simp)+
  qed
qed

section \<open>Adding an entry\<close>

text \<open>The contents of all directories.\<close>

definition contents :: "dirs \<Rightarrow> ('h, 'a) inode_store \<Rightarrow> addr \<rightharpoonup> (fsal_name \<times> addr) list" where
  "contents C st b = map_option (\<lambda>cs. dirents st (b # cs)) (C b)"

lemma contents_same: "same_contents_dirs C st st' \<Longrightarrow> contents C st' = contents C st"
  by (auto simp: same_contents_dirs_def contents_def fun_eq_iff map_option_case split: option.split simp del: dirents_simps)

lemma contents_others: "C b = Some cs \<Longrightarrow> same_others C b st st' \<Longrightarrow> contents C st' = (contents C st)(b \<mapsto> dirents st' (b # cs))"
  by (auto simp: same_others_def contents_def fun_eq_iff map_option_case split: option.split simp del: dirents_simps)

lemma contents_grows:
  "grows b n C E PL C' E' PL' \<Longrightarrow> C b = Some cs \<Longrightarrow> C' b = Some cs' \<Longrightarrow> same_others C b st st' \<Longrightarrow>
   contents C' st' = (contents C st)(b \<mapsto> dirents st' (b # cs'))"
  by (auto simp: grows_def same_others_def contents_def fun_eq_iff map_option_case split: option.split if_splits simp del: dirents_simps)

text \<open>What describes the directories after a call: at most one entry of a chain is new.\<close>

definition evolves :: "dirs \<Rightarrow> addr set \<Rightarrow> dirs \<Rightarrow> addr set \<Rightarrow> bool" where
  "evolves C E C' E' \<longleftrightarrow> dom C' = dom C \<and> E \<subseteq> E' \<and> (\<forall>b cs cs'. C b = Some cs \<longrightarrow> C' b = Some cs' \<longrightarrow> length cs' \<le> Suc (length cs))"

lemma grows_evolves: "grows b n C E PL C' E' PL' \<Longrightarrow> C b = Some cs \<Longrightarrow> evolves C E C' E'"
  by (auto simp: grows_def evolves_def split: if_splits)

lemma evolves_refl: "evolves C E C E"
  by (auto simp: evolves_def)

definition add_errors :: "cache_inode_status set" where
  "add_errors = {CACHE_INODE_MALLOC_ERROR, CACHE_INODE_INIT_ENTRY_FAILED, CACHE_INODE_UNAPPROPRIATED_KEY, CACHE_INODE_HASH_SET_ERROR}"

definition added :: "addr \<Rightarrow> fsal_name \<Rightarrow> addr \<Rightarrow> cache_inode_status \<Rightarrow> ptr \<Rightarrow> (addr \<rightharpoonup> (fsal_name \<times> addr) list) \<Rightarrow>
    (addr \<rightharpoonup> (fsal_name \<times> addr) list) \<Rightarrow> bool" where
  "added b nm e status nx A A' \<longleftrightarrow>
     status = CACHE_INODE_SUCCESS \<and> nx \<noteq> None \<and> (\<exists>xs ys. A b = Some (xs @ ys) \<and> A' = A(b \<mapsto> xs @ (nm, e) # ys)) \<or>
     status \<in> add_errors \<and> nx = None \<and> A' = A"

text \<open>The call from the point where the slot is known, in the directory as it is then.\<close>

lemma add_fill:
  assumes inv: "dirs_inv C E PL st" and b: "C b = Some cs" and c: "c \<in> set (b # visible st b cs)" and i: "i < CHILDREN_ARRAY_SIZE"
    and free: "active (slots st c ! i) = INVALID" and e: "e \<in> E"
  shows "\<exists>status nx st' PL'. fill_slot (Some nm) e c i st = Some (status, nx, st') \<and> full_debug st' = full_debug st \<and>
    (\<forall>x. internal_md (ents st' x) = internal_md (ents st x)) \<and> dirs_inv C E PL' st' \<and> added b nm e status nx (contents C st) (contents C st')"
proof -
  from fill_slot_spec [OF assms, of nm] obtain st' where f: "full_debug st' = full_debug st" "\<forall>x. internal_md (ents st' x) = internal_md (ents st x)"
    "fill_slot (Some nm) e c i st = Some (CACHE_INODE_MALLOC_ERROR, None, st') \<and> dirs_inv C E PL st' \<and> same_contents_dirs C st st' \<or>
     (\<exists>q xs ys. fill_slot (Some nm) e c i st = Some (CACHE_INODE_SUCCESS, Some c, st') \<and> dirs_inv C E (PL(e := q # PL e)) st' \<and>
       dirents st (b # cs) = xs @ ys \<and> dirents st' (b # cs) = xs @ (nm, e) # ys \<and> same_others C b st st')" by blast
  from f(3) show ?thesis
  proof (elim disjE exE conjE)
    fix q xs ys assume s: "fill_slot (Some nm) e c i st = Some (CACHE_INODE_SUCCESS, Some c, st')" "dirs_inv C E (PL(e := q # PL e)) st'"
      "dirents st (b # cs) = xs @ ys" "dirents st' (b # cs) = xs @ (nm, e) # ys" "same_others C b st st'"
    have "contents C st' = (contents C st)(b \<mapsto> xs @ (nm, e) # ys)" using contents_others [OF b s(5)] s(4) by simp
    moreover have "contents C st b = Some (xs @ ys)" using b s(3) by (simp add: contents_def)
    ultimately show ?thesis using s(1,2) f(1,2) unfolding added_def by blast
  next
    assume s: "fill_slot (Some nm) e c i st = Some (CACHE_INODE_MALLOC_ERROR, None, st')" "dirs_inv C E PL st'" "same_contents_dirs C st st'"
    with f(1,2) contents_same [OF s(3)] show ?thesis by (auto simp: added_def add_errors_def)
  qed
qed

lemma add_spec:
  assumes inv: "dirs_inv C E PL st" and b: "C b = Some cs" and c: "c \<in> set (b # visible st b cs)" and e: "e \<in> E" and len: "Suc (length cs) < 2 ^ 32 - 1"
  shows "\<exists>status nx st' C' E' PL'. cache_inode_add_cached_dirent codes local now c (Some nm) e st = Some (status, nx, st') \<and>
    full_debug st' = full_debug st \<and> valid_kept b E st st' \<and> dirs_inv C' E' PL' st' \<and> evolves C E C' E' \<and>
    added b nm e status nx (contents C st) (contents C' st')"
proof -
  have si: "struct_inv C E st" using inv by (simp add: dirs_inv_def)
  note ok = struct_invD(1) [OF si b]
  note v = dir_visible [OF dir_okD(4) [OF ok]]
  obtain us ns where us: "b # visible st b cs = us @ c # ns" using c by (meson split_list)
  have w: "walk st c ns" using v(1) us walk_append [of st b "tl us" c ns] by (cases us) auto
  have sub: "set (c # ns) \<subseteq> set (b # visible st b cs)" unfolding us by auto
  have "\<forall>n \<in> set (c # ns). node_ok st n" using dir_okD(6) [OF ok] v(3) sub by auto
  note f = find_free_slot_spec [OF w this]
  have dir: "is_dir (ents st c)" using dir_okD(6) [OF ok] v(3) c by (auto simp: node_ok_def)
  show ?thesis
  proof (cases "find_free_slot (Some c) st")
    case (Some r)
    show ?thesis
    proof (cases r)
      case (Free c' i)
      with f Some sub have s: "c' \<in> set (b # visible st b cs)" "i < CHILDREN_ARRAY_SIZE" "active (slots st c' ! i) = INVALID" by auto
      from add_fill [OF inv b s e, of nm] obtain status nx st' PL' where g: "fill_slot (Some nm) e c' i st = Some (status, nx, st')"
        "full_debug st' = full_debug st" "\<forall>x. internal_md (ents st' x) = internal_md (ents st x)" "dirs_inv C E PL' st'"
        "added b nm e status nx (contents C st) (contents C st')" by blast
      have "cache_inode_add_cached_dirent codes local now c (Some nm) e st = Some (status, nx, st')"
        using dir Some Free g(1) by (simp add: cache_inode_add_cached_dirent_def)
      moreover have "valid_kept b E st st'" using g(3) by (simp add: valid_kept_def)
      ultimately show ?thesis using g(2,4,5) evolves_refl [of C E] by blast
    next
      case (Full c')
      with f Some have "c' = last (c # ns)" by simp
      then have c': "c' = last (b # visible st b cs)" unfolding us by simp
      from chain_extend_spec [OF inv b c' len, of codes local now] obtain r' status s where x: "chain_extend codes local now c' st = Some (r', status, s)"
        "full_debug s = full_debug st" "r' = None \<and> fails_unchanged C E PL status st s \<and> valid_kept b E st s \<or>
         (\<exists>n C' E' PL' cs'. r' = Some n \<and> status = CACHE_INODE_SUCCESS \<and> grows b n C E PL C' E' PL' \<and> C' b = Some cs' \<and> dirs_inv C' E' PL' s \<and>
           linked s b cs' \<and> n \<in> set cs' \<and> live (slots s n) = [] \<and> dirents s (b # cs') = dirents st (b # cs) \<and> same_others C b st s \<and>
           valid_kept b E st s)" by blast
      have run: "cache_inode_add_cached_dirent codes local now c (Some nm) e st =
        (case r' of None \<Rightarrow> Some (status, None, s) | Some n \<Rightarrow> fill_slot (Some nm) e n 0 s)"
        using dir Some Full x(1) by (simp add: cache_inode_add_cached_dirent_def split: option.split)
      from x(3) show ?thesis
      proof (elim disjE exE conjE)
        assume n: "r' = None" "fails_unchanged C E PL status st s" "valid_kept b E st s"
        then have "added b nm e status None (contents C st) (contents C s)"
          using contents_same by (auto simp: fails_unchanged_def added_def add_errors_def)
        with n x(2) run show ?thesis using evolves_refl [of C E] unfolding fails_unchanged_def by auto
      next
        fix n C' E' PL' cs' assume g: "r' = Some n" "grows b n C E PL C' E' PL'" "C' b = Some cs'" "dirs_inv C' E' PL' s" "linked s b cs'" "n \<in> set cs'"
          "live (slots s n) = []" "dirents s (b # cs') = dirents st (b # cs)" "same_others C b st s" "valid_kept b E st s"
        have "end_of_dir (ents s b) \<noteq> END_OF_DIR" using g(5,6) by (cases cs') auto
        then have n: "n \<in> set (b # visible s b cs')" using g(6) by (simp add: visible_def)
        have "struct_inv C' E' s" using g(4) by (simp add: dirs_inv_def)
        from dir_okD(6) [OF struct_invD(1) [OF this g(3)], of n] g(6) have "0 < length (slots s n)"
          by (simp add: node_ok_def slots_ok_def CHILDREN_ARRAY_SIZE_def)
        then have "slots s n ! 0 \<in> set (slots s n)" by (rule nth_mem)
        with g(7) have free: "active (slots s n ! 0) = INVALID" by (cases "active (slots s n ! 0)") (auto simp: filter_empty_conv)
        have eE: "e \<in> E'" using e g(2) by (auto simp: grows_def)
        have "0 < CHILDREN_ARRAY_SIZE" by (simp add: CHILDREN_ARRAY_SIZE_def)
        from add_fill [OF g(4,3) n this free eE, of nm] obtain status' nx st' PL'' where h: "fill_slot (Some nm) e n 0 s = Some (status', nx, st')"
          "full_debug st' = full_debug s" "\<forall>x. internal_md (ents st' x) = internal_md (ents s x)" "dirs_inv C' E' PL'' st'"
          "added b nm e status' nx (contents C' s) (contents C' st')" by blast
        have "contents C' s = contents C st" using contents_grows [OF g(2) b g(3,9)] g(8) b by (simp add: contents_def fun_upd_idem del: dirents_simps)
        moreover have "valid_kept b E st st'" using g(10) h(3) by (simp add: valid_kept_def)
        ultimately show ?thesis using run g(1) h x(2) grows_evolves [OF g(2) b] by auto
      qed
    qed (use f Some in simp)
  qed (use f in simp)
qed

end
