(* ===== verification/Dir_Make.thy ===== *)
theory Dir_Make
  imports Dir_Add
begin

text \<open>
  A new directory: \<^verbatim>\<open>cache_inode_new_entry\<close> for a \<^verbatim>\<open>DIR_BEGINNING\<close>.
\<close>

lemma nodes_new: "C p = None \<Longrightarrow> nodes (C(p \<mapsto> [])) = insert p (nodes C)"
proof (intro set_eqI iffI)
  fix x assume p: "C p = None"
  let ?C = "C(p \<mapsto> [])"
  show "x \<in> insert p (nodes C)" if x: "x \<in> nodes ?C"
  proof -
    obtain b cs where "?C b = Some cs" "x \<in> set (b # cs)" using x unfolding nodes_def by blast
    then show ?thesis using nodesI [of C b cs x] by (cases "b = p") auto
  qed
  show "x \<in> nodes ?C" if "x \<in> insert p (nodes C)"
  proof (cases "x = p")
    case False
    with that obtain b cs where "C b = Some cs" "x \<in> set (b # cs)" unfolding nodes_def by blast
    with p show ?thesis using nodesI [of ?C b cs x] by (cases "b = p") auto
  qed (use nodesI [of ?C p "[]" p] in simp)
qed

lemma new_begin_fields:
  assumes "new_begin h d e"
  shows "is_begin e" "is_dir e" "pdir_data e = Some d" "pdir_cont e = None" "end_of_dir e = END_OF_DIR" "nbactive e = 0" "parent_list e = None"
    "db_handle (dir_begin e) = h"
  using assms by (simp_all add: new_begin_def centry_defs)

lemma new_begin_spec:
  fixes st :: "('h, 'a) inode_store"
  assumes inv: "dirs_inv C E PL st" and key: "table_map (ic_ht st) (h, 0) = None"
  shows "\<exists>r status st'. cache_inode_new_entry codes (h, 0) local (New_begin attr) now st = Some (r, status, st') \<and> full_debug st' = full_debug st \<and>
    (r = None \<and> status \<in> {CACHE_INODE_MALLOC_ERROR, CACHE_INODE_INIT_ENTRY_FAILED, CACHE_INODE_UNAPPROPRIATED_KEY, CACHE_INODE_HASH_SET_ERROR} \<and>
       dirs_inv C E PL st' \<and> same_contents_dirs C st st' \<and> (\<forall>x \<in> E. ents st' x = ents st x) \<or>
     (\<exists>p d. r = Some p \<and> status = CACHE_INODE_SUCCESS \<and> made C E (h, 0) p d p st st' \<and> new_begin h d (ents st' p) \<and> lists_ok (C(p \<mapsto> [])) st'))"
proof (rule new_entry_spec [where Q = "\<lambda>p. new_begin h" and bof = "\<lambda>p. p" and Cof = "\<lambda>p. C(p \<mapsto> [])", OF inv key])
  fix p d and s :: "('h, 'a) inode_store"
  assume p: "p \<notin> E" and e: "\<forall>x \<in> E. ents s x = ents st x"
    and "if kind_begins (New_begin attr) then db_pdir_data (dir_begin (ents s p)) = Some d else dc_pdir_data (dir_cont (ents s p)) = Some d"
  then have d: "db_pdir_data (dir_begin (ents s p)) = Some d" by simp
  obtain s' where i: "new_entry_init h (New_begin attr) now p d s = (True, s')" "slots_made d s s'" "new_begin h d (ents s' p)"
    "lru_entry_of (ents s' p) = None" "entry_lock (ents s' p) = entry_lock (ents s p)" "\<And>c. c \<noteq> p \<Longrightarrow> ents s' c = ents s c"
    "s' = s\<lparr>ents := ents s', dir_datas := dir_datas s'\<rparr>" by (rule new_entry_init_begin [OF d, of h attr now]) blast
  have "begins_at s' p p" using new_begin_fields(1) [OF i(3)] by (simp add: begins_at_def is_begin_def)
  moreover have "lists_ok (C(p \<mapsto> [])) s'" if "lists_ok C s'"
  proof -
    from that obtain xs where "lru_good C xs s'" by (auto simp: lists_ok_def)
    note L = lru_goodD [OF this]
    have "lru_good (C(p \<mapsto> [])) xs s'"
    proof (rule lru_goodI [OF L(1) _ _ L(4-6)])
      show "q \<in> set xs \<and> valid_state (lru_heap s' q) = LRU_ENTRY_VALID" if "b \<in> dom (C(p \<mapsto> []))" "lru_entry_of (ents s' b) = Some q" for b q
        using that i(4) L(2) [of b q] by (cases "b = p") auto
      show "b = b'" if "b \<in> dom (C(p \<mapsto> []))" "b' \<in> dom (C(p \<mapsto> []))" "lru_entry_of (ents s' b) = Some q" "lru_entry_of (ents s' b') = Some q" for b b' q
        using that i(4) L(3) [of b b' q] by (cases "b = p"; cases "b' = p") auto
    qed
    then show ?thesis by (auto simp: lists_ok_def)
  qed
  ultimately show "\<exists>s'. new_entry_init (fst (h, 0)) (New_begin attr) now p d s = (True, s') \<and> slots_made d s s' \<and> new_begin h d (ents s' p) \<and>
      entry_lock (ents s' p) = entry_lock (ents s p) \<and> (\<forall>c. c \<noteq> p \<longrightarrow> ents s' c = ents s c) \<and> s' = s\<lparr>ents := ents s', dir_datas := dir_datas s'\<rparr> \<and>
      begins_at s' p p \<and> p \<in> dom (C(p \<mapsto> [])) \<and> (lists_ok C s' \<longrightarrow> lists_ok (C(p \<mapsto> [])) s')" using i by (intro exI [of _ s']) auto
next
  show "new_begin h d e" if "dview e = dview e'" "parent_list e = parent_list e'" "new_begin h d e'" for d and e e' :: "('h, 'a) centry"
    using that dview_fields [OF that(1)] by (simp add: new_begin_def)
qed

text \<open>The directories with the new one, which is empty.\<close>

lemma struct_new:
  assumes si: "struct_inv C E st" and p: "p \<notin> E" "d \<notin> data_of st ` nodes C" "new_begin h d (ents st p)" "live (dir_datas st d) = []"
    and h: "h \<notin> handle_of st ` dom C"
    and fo: "free_ok (insert p E) (pool_entry st) (ic_mem st)" "free_ok (insert d (data_of st ` nodes C)) (pool_dir_data st) (ic_mem st)"
  shows "struct_inv (C(p \<mapsto> [])) (insert p E) st" and "C p = None" and "dirents st [p] = []"
proof -
  note S = struct_invD [OF si] and N = new_begin_fields [OF p(3)]
  have pn: "p \<notin> nodes C" using S(5) p(1) by blast
  show cp: "C p = None"
  proof (rule ccontr)
    assume "C p \<noteq> None"
    then obtain cs where "C p = Some cs" by auto
    from nodesI [of C p cs p, OF this] pn show False by simp
  qed
  have sp: "slots st p = dir_datas st d" "data_of st p = d" "handle_of st p = h" using N by (simp_all add: slots_def data_of_def handle_of_def)
  have "slots_ok (slots st p)" using S(6) p(4) by (auto simp: slots_ok_def sp filter_empty_conv)
  then have "dir_ok st p []" using N p(4) by (simp add: dir_ok_def conts_ok_def dir_links_def node_ok_def sp)
  moreover show dn: "dirents st [p] = []" using p(4) by (simp add: sp)
  ultimately have each: "dir_ok st b cs \<and> snd ` set (dirents st (b # cs)) \<subseteq> insert p E" if "(C(p \<mapsto> [])) b = Some cs" for b cs
    using that S(1,2) [of b cs] by (cases "b = p") (auto simp del: dirents_simps)
  have "inj_on (data_of st) (insert p (nodes C))" "inj_on (handle_of st) (insert p (dom C))" using S(3,4) p(2) h by (auto simp: sp)
  with each S(5,6) fo show "struct_inv (C(p \<mapsto> [])) (insert p E) st" unfolding struct_inv_def nodes_new [of C p, OF cp] by (auto simp: sp)
qed

lemma made_begin:
  assumes inv: "dirs_inv C E PL st" and key: "table_map (ic_ht st) (h, 0) = None" and mk: "made C E (h, 0) p d p st st'"
    and new: "new_begin h d (ents st' p)" and lo: "lists_ok (C(p \<mapsto> [])) st'"
  shows "dirs_inv (C(p \<mapsto> [])) (insert p E) (PL(p := [])) st'" and "C p = None" "contents (C(p \<mapsto> [])) st' = (contents C st)(p \<mapsto> [])"
    and "h \<notin> handle_of st ` dom C" "handle_of st' p = h"
proof -
  have si: "struct_inv C E st" and rest: "keys_ok C st" "parents_inv C E PL st" using inv by (auto simp: dirs_inv_def)
  note M = mk [unfolded made_def]
  show hn: "h \<notin> handle_of st ` dom C"
  proof
    assume "h \<in> handle_of st ` dom C"
    then obtain b cs where b: "C b = Some cs" "h = handle_of st b" by auto
    with rest(1) have "table_map (ic_ht st) (h, 0) = (if unat (0 :: u32) \<le> length cs then Some ((b # cs) ! unat (0 :: u32)) else None)"
      unfolding keys_ok_def by blast
    with key show False by simp
  qed
  have sc: "struct_inv C E st'" "\<And>b cs. C b = Some cs \<Longrightarrow> dirents st' (b # cs) = dirents st (b # cs)" "\<And>b. b \<in> dom C \<Longrightarrow> handle_of st' b = handle_of st b"
    "\<And>c. c \<in> nodes C \<Longrightarrow> data_of st' c = data_of st c"
    by (rule struct_cong [OF si]; use M in \<open>auto intro: free_ok_subset\<close>)+
  have im: "data_of st' ` nodes C = data_of st ` nodes C" "handle_of st' ` dom C = handle_of st ` dom C"
    using sc(3,4) by (auto intro: image_cong)
  have sn: "struct_inv (C(p \<mapsto> [])) (insert p E) st'" "C p = None" "dirents st' [p] = []"
    by (rule struct_new [OF sc(1) _ _ new]; use M hn in \<open>simp add: im\<close>)+
  show cp: "C p = None" by (rule sn(2))
  show hp: "handle_of st' p = h" using new_begin_fields(8) [OF new] by (simp add: handle_of_def)
  show "contents (C(p \<mapsto> [])) st' = (contents C st)(p \<mapsto> [])"
    using sc(2) sn(3) by (auto simp: contents_def fun_eq_iff map_option_case split: option.split simp del: dirents_simps)
  have "keys_ok (C(p \<mapsto> [])) st'"
  proof -
    have "table_map (ic_ht st') (handle_of st' b, k) = (if unat k \<le> length cs then Some ((b # cs) ! unat k) else None)"
      if b: "(C(p \<mapsto> [])) b = Some cs" for b cs k
    proof (cases "b = p")
      case True
      have "table_map (ic_ht st) (h, k) = None" if "k \<noteq> 0" using rest(1) hn that unfolding keys_ok_def by blast
      with True b hp M key show ?thesis by (cases "k = 0") (auto simp: unat_eq_0)
    next
      case False
      with b have b: "C b = Some cs" by simp
      with hn have "handle_of st b \<noteq> h" by blast
      with rest(1) b sc(3) M show ?thesis by (auto simp: keys_ok_def domI)
    qed
    moreover have "x \<in> handle_of st' ` dom (C(p \<mapsto> []))" if "table_map (ic_ht st') (x, k) \<noteq> None" "k \<noteq> 0" for x k
    proof -
      have "table_map (ic_ht st) (x, k) \<noteq> None" using that M by auto
      with rest(1) that(2) have "x \<in> handle_of st ` dom C" unfolding keys_ok_def by blast
      with im(2) show ?thesis by auto
    qed
    ultimately show ?thesis using M by (simp add: keys_ok_def)
  qed
  moreover have "parents_inv (C(p \<mapsto> [])) (insert p E) (PL(p := [])) st'"
  proof (rule parents_extend [OF rest(2) si])
    show "dirents st' (b # cs) = [] \<or> (\<exists>cs0. C b = Some cs0 \<and> set cs0 \<subseteq> set cs \<and> dirents st' (b # cs) = dirents st (b # cs0))"
      if "(C(p \<mapsto> [])) b = Some cs" for b cs
      using that sc(2) [of b cs] sn(3) by (cases "b = p") (auto simp del: dirents_simps)
  qed (use M new_begin_fields(7) [OF new] nodes_new [of C p, OF cp] in auto)
  ultimately show "dirs_inv (C(p \<mapsto> [])) (insert p E) (PL(p := [])) st'" using sn(1) lo by (simp add: dirs_inv_def)
qed

end
