(* ===== verification/Dir_Safety.thy ===== *)
theory Dir_Safety
  imports Dir_Make
begin

text \<open>
  The cached directories as a whole: for every sequence of calls from an empty cache on, each call returns and acts on the
  contents of the directories as on lists of names and entries.
\<close>

section \<open>Calls\<close>

datatype ('h, 'a) dir_call =
    Call_new 'h 'a
  | Call_lookup addr fsal_name
  | Call_remove addr fsal_name
  | Call_rename addr fsal_name fsal_name
  | Call_invalidate addr
  | Call_add addr fsal_name addr
  | Call_is_empty addr

text \<open>The result is a pointer, if the call has one, and the status in \<open>*pstatus\<close>.\<close>

fun dir_exec :: "pthread_codes \<Rightarrow> addr \<Rightarrow> int \<Rightarrow> ('h, 'a) dir_call \<Rightarrow> ('h, 'a) inode_store \<Rightarrow>
    (ptr \<times> cache_inode_status \<times> ('h, 'a) inode_store) option" where
  "dir_exec codes local now (Call_new h attr) st = cache_inode_new_entry codes (h, 0) local (New_begin attr) now st"
| "dir_exec codes local now (Call_lookup b nm) st = cache_inode_operate_cached_dirent b nm None CACHE_INODE_DIRENT_OP_LOOKUP st"
| "dir_exec codes local now (Call_remove b nm) st =
     map_option (\<lambda>(rc, status, st). (None, status, st)) (cache_inode_remove_cached_dirent b nm st)"
| "dir_exec codes local now (Call_rename b nm n) st = cache_inode_operate_cached_dirent b nm (Some n) CACHE_INODE_DIRENT_OP_RENAME st"
| "dir_exec codes local now (Call_invalidate b) st =
     map_option (\<lambda>(status, st). (None, status, st)) (cache_inode_invalidate_all_cached_dirent b st)"
| "dir_exec codes local now (Call_add b nm e) st =
     map_option (\<lambda>(status, nx, st). (nx, status, st)) (cache_inode_add_cached_dirent codes local now b (Some nm) e st)"
| "dir_exec codes local now (Call_is_empty b) st = map_option (\<lambda>status. (None, status, st)) (cache_inode_is_dir_empty b st)"

text \<open>A call is on directories that were made before, and adds one of them.\<close>

fun call_ok :: "addr set \<Rightarrow> ('h, 'a) dir_call \<Rightarrow> bool" where
  "call_ok D (Call_new h attr) = True"
| "call_ok D (Call_lookup b nm) = (b \<in> D)"
| "call_ok D (Call_remove b nm) = (b \<in> D)"
| "call_ok D (Call_rename b nm n) = (b \<in> D)"
| "call_ok D (Call_invalidate b) = (b \<in> D)"
| "call_ok D (Call_add b nm e) = (b \<in> D \<and> e \<in> D)"
| "call_ok D (Call_is_empty b) = (b \<in> D)"

fun call_dirs :: "('h, 'a) dir_call \<Rightarrow> ptr \<Rightarrow> cache_inode_status \<Rightarrow> addr set \<Rightarrow> addr set" where
  "call_dirs (Call_new h attr) (Some p) CACHE_INODE_SUCCESS D = insert p D"
| "call_dirs _ _ _ D = D"

section \<open>The abstract directories\<close>

type_synonym listings = "addr \<rightharpoonup> (fsal_name \<times> addr) list"

text \<open>The active slots from an entry of a chain on, as the searches meet them.\<close>

partial_function (option) list_dir :: "ptr \<Rightarrow> ('h, 'a) inode_store \<Rightarrow> (fsal_name \<times> addr) list option" where
  "list_dir pentry st =
     (case pentry of
        None \<Rightarrow> None
      | Some c \<Rightarrow>
          Option.bind (pdir_data (ents st c)) (\<lambda>d.
            if end_of_dir (ents st c) = END_OF_DIR then Some (map named (live (dir_datas st d)))
            else Option.bind (list_dir (pdir_cont (ents st c)) st) (\<lambda>rest. Some (map named (live (dir_datas st d)) @ rest))))"

definition listing :: "addr set \<Rightarrow> ('h, 'a) inode_store \<Rightarrow> listings" where
  "listing D st b = (if b \<in> D then list_dir (Some b) st else None)"

definition valid_entry :: "('h, 'a) inode_store \<Rightarrow> addr \<Rightarrow> bool" where
  "valid_entry st e \<longleftrightarrow> md_valid_state (internal_md (ents st e)) = VALID"

definition named_hit :: "(addr \<Rightarrow> bool) \<Rightarrow> fsal_name \<Rightarrow> fsal_name \<times> addr \<Rightarrow> bool" where
  "named_hit V nm x \<longleftrightarrow> V (snd x) \<and> fsal_chars (fst x) = fsal_chars nm"

text \<open>What a call promises: \<open>H\<close> are the handles of the directories, \<open>V\<close> says which entries are valid before the call.\<close>

fun dir_spec :: "('h, 'a) dir_call \<Rightarrow> (addr \<Rightarrow> 'h) \<Rightarrow> (addr \<Rightarrow> bool) \<Rightarrow> listings \<Rightarrow> ptr \<Rightarrow> cache_inode_status \<Rightarrow> listings \<Rightarrow> bool" where
  "dir_spec (Call_new h attr) H V A r status A' \<longleftrightarrow>
     status = CACHE_INODE_SUCCESS \<and> h \<notin> H ` dom A \<and> (\<exists>p. r = Some p \<and> A p = None \<and> A' = A(p \<mapsto> [])) \<or>
     status = CACHE_INODE_ENTRY_EXISTS \<and> r \<noteq> None \<and> (\<forall>b \<in> dom A. H b = h \<longrightarrow> r = Some b) \<and> A' = A \<or>
     status \<in> add_errors \<and> h \<notin> H ` dom A \<and> r = None \<and> A' = A"
| "dir_spec (Call_lookup b nm) H V A r status A' \<longleftrightarrow>
     (case List.extract (named_hit V nm) (the (A b)) of
        None \<Rightarrow> r = None \<and> status = CACHE_INODE_NOT_FOUND
      | Some (xs, x, ys) \<Rightarrow> r = Some (snd x) \<and> status = CACHE_INODE_INVALID_ARGUMENT) \<and> A' = A"
| "dir_spec (Call_remove b nm) H V A r status A' \<longleftrightarrow>
     (case List.extract (named_hit V nm) (the (A b)) of
        None \<Rightarrow> status = CACHE_INODE_NOT_FOUND \<and> A' = A
      | Some (xs, x, ys) \<Rightarrow> status = CACHE_INODE_SUCCESS \<and> A' = A(b \<mapsto> xs @ ys))"
| "dir_spec (Call_rename b nm n) H V A r status A' \<longleftrightarrow>
     (case List.extract (named_hit V nm) (the (A b)) of
        None \<Rightarrow> r = None \<and> status = CACHE_INODE_NOT_FOUND \<and> A' = A
      | Some (xs, x, ys) \<Rightarrow> r = Some (snd x) \<and> status = CACHE_INODE_SUCCESS \<and> A' = A(b \<mapsto> xs @ (n, snd x) # ys))"
| "dir_spec (Call_invalidate b) H V A r status A' \<longleftrightarrow> status = CACHE_INODE_SUCCESS \<and> A' = A(b \<mapsto> [])"
| "dir_spec (Call_add b nm e) H V A r status A' \<longleftrightarrow> added b nm e status r A A'"
| "dir_spec (Call_is_empty b) H V A r status A' \<longleftrightarrow>
     status = (if A b = Some [] then CACHE_INODE_SUCCESS else CACHE_INODE_DIR_NOT_EMPTY) \<and> A' = A"

text \<open>
  What a user of the directories relies on. The bound is that of the positions in a chain, which are 32 bits wide.
\<close>

locale directory_service =
  fixes safe :: "addr set \<Rightarrow> nat \<Rightarrow> 's \<Rightarrow> bool"
    and exec :: "('h, 'a) dir_call \<Rightarrow> 's \<Rightarrow> (ptr \<times> cache_inode_status \<times> 's) option"
    and view :: "addr set \<Rightarrow> 's \<Rightarrow> listings" and handle :: "'s \<Rightarrow> addr \<Rightarrow> 'h" and valid :: "'s \<Rightarrow> addr \<Rightarrow> bool"
  assumes contract: "safe D n s \<Longrightarrow> n < 2 ^ 32 - 2 \<Longrightarrow> call_ok D call \<Longrightarrow>
      \<exists>r status s'. exec call s = Some (r, status, s') \<and> safe (call_dirs call r status D) (Suc n) s' \<and>
        dir_spec call (handle s) (valid s) (view D s) r status (view (call_dirs call r status D) s') \<and>
        (\<forall>e \<in> D. valid s e \<longrightarrow> valid s' e)"
    and view_dom: "safe D n s \<Longrightarrow> dom (view D s) = D"
begin

lemma call_law:
  assumes "safe D n s" and "n < 2 ^ 32 - 2" and "call_ok D call" and "exec call s = Some (r, status, s')"
  shows "safe (call_dirs call r status D) (Suc n) s'"
    and "dir_spec call (handle s) (valid s) (view D s) r status (view (call_dirs call r status D) s')"
    and "\<And>e. e \<in> D \<Longrightarrow> valid s e \<Longrightarrow> valid s' e"
  using contract [OF assms(1-3)] assms(4) by auto

text \<open>A name that was added is found, unless the directory had it before.\<close>

lemma add_then_lookup:
  assumes safe: "safe D n s" and n: "Suc n < 2 ^ 32 - 2" and D: "b \<in> D" "e \<in> D" and "valid s e"
    and add: "exec (Call_add b nm e) s = Some (r, CACHE_INODE_SUCCESS, s')" and new: "\<forall>x \<in> set (the (view D s b)). fsal_chars (fst x) \<noteq> fsal_chars nm"
  shows "\<exists>s''. exec (Call_lookup b nm) s' = Some (Some e, CACHE_INODE_INVALID_ARGUMENT, s'')"
proof -
  have n': "n < 2 ^ 32 - 2" using n by simp
  note a = call_law [OF safe n' _ add]
  have a1: "safe D (Suc n) s'" "added b nm e CACHE_INODE_SUCCESS r (view D s) (view D s')" "valid s' e" using a D \<open>valid s e\<close> by simp_all
  then obtain xs ys where v: "view D s b = Some (xs @ ys)" "view D s' b = Some (xs @ (nm, e) # ys)" by (auto simp: added_def add_errors_def)
  have "List.extract (named_hit (valid s') nm) (xs @ (nm, e) # ys) = Some (xs, (nm, e), ys)"
    unfolding extract_Some_iff using new v(1) a1(3) by (auto simp: named_hit_def)
  with v(2) contract [OF a1(1) n, of "Call_lookup b nm"] D(1) show ?thesis by auto
qed

text \<open>A name that was removed is gone, if the directory had it once.\<close>

lemma remove_then_lookup:
  assumes safe: "safe D n s" and n: "Suc n < 2 ^ 32 - 2" and D: "b \<in> D"
    and rm: "exec (Call_remove b nm) s = Some (r, CACHE_INODE_SUCCESS, s')"
    and once: "length (filter (\<lambda>x. fsal_chars (fst x) = fsal_chars nm) (the (view D s b))) \<le> 1"
  shows "\<exists>s''. exec (Call_lookup b nm) s' = Some (None, CACHE_INODE_NOT_FOUND, s'')"
proof -
  have n': "n < 2 ^ 32 - 2" using n by simp
  note a = call_law [OF safe n' _ rm]
  have a1: "safe D (Suc n) s'" "dir_spec (Call_remove b nm) (handle s) (valid s) (view D s) r CACHE_INODE_SUCCESS (view D s')" using a D by simp_all
  then obtain xs x ys where v: "the (view D s b) = xs @ x # ys" "view D s' b = Some (xs @ ys)" "named_hit (valid s) nm x"
    by (auto simp: extract_Some_iff split: option.splits)
  have "fsal_chars (fst x) = fsal_chars nm" using v(3) by (simp add: named_hit_def)
  then have "filter (\<lambda>x. fsal_chars (fst x) = fsal_chars nm) (xs @ ys) = []" using once unfolding v(1) by simp
  then have "List.extract (named_hit (valid s') nm) (xs @ ys) = None"
    unfolding extract_None_iff by (auto simp: named_hit_def filter_empty_conv)
  with v(2) contract [OF a1(1) n, of "Call_lookup b nm"] D(1) show ?thesis by auto
qed

end

declare list_dir.simps [code]

section \<open>Reading a chain\<close>

lemma list_dir_walk:
  "walk st c ns \<Longrightarrow> \<forall>n \<in> set (c # ns). node_ok st n \<Longrightarrow> list_dir (Some c) st = Some (dirents st (c # ns))"
proof (induction ns arbitrary: c)
  case Nil
  then obtain d where "pdir_data (ents st c) = Some d" "slots st c = dir_datas st d" by (auto simp: node_ok_def slots_def)
  with Nil show ?case by (simp add: list_dir.simps [of "Some c"])
next
  case (Cons n ns)
  then obtain d where "pdir_data (ents st c) = Some d" "slots st c = dir_datas st d" by (auto simp: node_ok_def slots_def)
  with Cons show ?case by (simp add: list_dir.simps [of "Some c"])
qed

lemma node_nbactive: "node_ok st c \<Longrightarrow> unat (nbactive (ents st c)) = length (live (slots st c))"
proof -
  assume n: "node_ok st c"
  then have "length (live (slots st c)) \<le> 16"
    using length_filter_le [of "\<lambda>s. active s = VALID" "slots st c"] by (simp add: node_ok_def slots_ok_def CHILDREN_ARRAY_SIZE_def)
  from of_nat_small [OF this] n show ?thesis by (simp add: node_ok_def)
qed

lemma node_count: "node_ok st c \<Longrightarrow> nbactive (ents st c) = 0 \<longleftrightarrow> live (slots st c) = []"
  using node_nbactive by (metis length_0_conv unat_eq_0)

lemma is_dir_empty_walk:
  "walk st c ns \<Longrightarrow> \<forall>n \<in> set (c # ns). node_ok st n \<Longrightarrow>
   empty_from (Some c) st = Some (if dirents st (c # ns) = [] then CACHE_INODE_SUCCESS else CACHE_INODE_DIR_NOT_EMPTY)"
proof (induction ns arbitrary: c)
  case Nil
  then have "nbactive (ents st c) = 0 \<longleftrightarrow> live (slots st c) = []" using node_count [of st c] by simp
  with Nil show ?case by (simp add: empty_from.simps [of "Some c"])
next
  case (Cons n ns)
  then have "nbactive (ents st c) = 0 \<longleftrightarrow> live (slots st c) = []" using node_count [of st c] by simp
  with Cons show ?case by (simp add: empty_from.simps [of "Some c"])
qed

definition chains_le :: "dirs \<Rightarrow> nat \<Rightarrow> bool" where
  "chains_le C n \<longleftrightarrow> (\<forall>b cs. C b = Some cs \<longrightarrow> length cs \<le> n)"

definition dirs_safe :: "addr set \<Rightarrow> nat \<Rightarrow> ('h, 'a) inode_store \<Rightarrow> bool" where
  "dirs_safe D n st \<longleftrightarrow> (\<exists>C E PL. dirs_inv C E PL st \<and> dom C = D \<and> \<not> full_debug st \<and> chains_le C n)"

lemma dirs_safeI:
  "dirs_inv C E PL st \<Longrightarrow> dom C = D \<Longrightarrow> \<not> full_debug st \<Longrightarrow> chains_le C n \<Longrightarrow> dirs_safe D n st"
  unfolding dirs_safe_def by blast

lemma contents_listing:
  assumes "dirs_inv C E PL st"
  shows "contents C st = listing (dom C) st" and "C b = Some cs \<Longrightarrow> listing (dom C) st b = Some (dirents st (b # cs))"
proof -
  have si: "struct_inv C E st" using assms by (simp add: dirs_inv_def)
  have l: "list_dir (Some b) st = Some (dirents st (b # cs))" if "C b = Some cs" for b cs
  proof -
    note ok = struct_invD(1) [OF si that]
    note v = dir_visible [OF dir_okD(4) [OF ok]]
    have "\<forall>n \<in> set (b # visible st b cs). node_ok st n" using dir_okD(6) [OF ok] v(3) by auto
    from list_dir_walk [OF v(1) this] v(2) show ?thesis by simp
  qed
  then show "contents C st = listing (dom C) st"
    by (auto simp: contents_def listing_def fun_eq_iff map_option_case domIff split: option.split simp del: dirents_simps)
  show "listing (dom C) st b = Some (dirents st (b # cs))" if "C b = Some cs" using l [OF that] that by (auto simp: listing_def)
qed

lemma hit_valid: "hit st nm = named_hit (valid_entry st) nm"
  by (simp add: fun_eq_iff hit_def named_hit_def valid_entry_def)

lemma dom_contents [simp]: "dom (contents C st) = dom C"
  by (auto simp: contents_def dom_def)

lemma dom_entries: "dirs_inv C E PL st \<Longrightarrow> dom C \<subseteq> E"
  using nodesI [of C] by (auto simp: dirs_inv_def struct_inv_def)

lemma beginning_key: "dirs_inv C E PL st \<Longrightarrow> b \<in> dom C \<Longrightarrow> table_map (ic_ht st) (handle_of st b, 0) = Some b"
  by (auto simp: dirs_inv_def keys_ok_def)

lemma new_handle: "dirs_inv C E PL st \<Longrightarrow> table_map (ic_ht st) (h, 0) = None \<Longrightarrow> h \<notin> handle_of st ` dom C"
  using beginning_key by fastforce

lemma new_entry_found:
  assumes "dirs_inv C E PL st" and "table_map (ic_ht st) key = Some q"
  shows "\<exists>ht. cache_inode_new_entry codes key local kind now st = Some (Some q, CACHE_INODE_ENTRY_EXISTS,
      err_retryable (upd_stat (\<lambda>s. s\<lparr>nb_call_total := nb_call_total s + 1, ne_nb_call := ne_nb_call s + 1\<rparr>) st\<lparr>ic_ht := ht\<rparr>)) \<and>
    table_inv (ic_mem st) ht \<and> table_map ht = table_map (ic_ht st)"
proof -
  have ti: "table_inv (ic_mem st) (ic_ht st)" using assms(1) by (simp add: dirs_inv_def keys_ok_def)
  from table.get_law [OF ti, of key] obtain ht where h: "HashTable_Get (ic_ht st) key = Some (get_rc (Some q), Some q, ht)"
    "table_inv (ic_mem st) ht" "table_map ht = table_map (ic_ht st)" using assms(2) by auto
  then show ?thesis by (intro exI [of _ ht]) (simp add: cache_inode_new_entry_def cache_inode_fsaldata_2_key_def upd_stat_def get_rc_def)
qed

text \<open>The step for each call. \<open>safe_step\<close> is the conclusion they share.\<close>

definition safe_step :: "('h, 'a) dir_call \<Rightarrow> addr set \<Rightarrow> nat \<Rightarrow> ('h, 'a) inode_store \<Rightarrow> ptr \<Rightarrow> cache_inode_status \<Rightarrow> ('h, 'a) inode_store \<Rightarrow> bool" where
  "safe_step call D n st r status st' \<longleftrightarrow> dirs_safe (call_dirs call r status D) (Suc n) st' \<and>
     dir_spec call (handle_of st) (valid_entry st) (listing D st) r status (listing (call_dirs call r status D) st') \<and>
     (\<forall>e \<in> D. valid_entry st e \<longrightarrow> valid_entry st' e)"

lemma safe_stepI:
  assumes inv: "dirs_inv C E PL st" and C: "dom C = D" "chains_le C n" and dbg: "\<not> full_debug st"
    and inv': "dirs_inv C' E' PL' st'" "dom C' = call_dirs call r status D" "chains_le C' (Suc n)" "full_debug st' = full_debug st"
    and spec: "dir_spec call (handle_of st) (valid_entry st) (contents C st) r status (contents C' st')"
    and valid: "\<And>e. e \<in> D \<Longrightarrow> valid_entry st e \<Longrightarrow> valid_entry st' e"
  shows "safe_step call D n st r status st'"
proof -
  have "dirs_safe (call_dirs call r status D) (Suc n) st'" by (rule dirs_safeI [OF inv'(1,2)]) (use inv'(3,4) dbg in auto)
  moreover have "contents C st = listing D st" "contents C' st' = listing (call_dirs call r status D) st'"
    using contents_listing(1) [OF inv] contents_listing(1) [OF inv'(1)] C(1) inv'(2) by simp_all
  ultimately show ?thesis using spec valid by (simp add: safe_step_def)
qed

lemma safe_sameI:
  assumes inv: "dirs_inv C E PL st" and C: "dom C = D" "chains_le C n" and dbg: "\<not> full_debug st"
    and inv': "dirs_inv C E' PL' st'" "call_dirs call r status D = D" "full_debug st' = full_debug st"
    and spec: "dir_spec call (handle_of st) (valid_entry st) (contents C st) r status (contents C st')"
    and valid: "\<And>e. e \<in> D \<Longrightarrow> valid_entry st e \<Longrightarrow> valid_entry st' e"
  shows "safe_step call D n st r status st'"
proof (rule safe_stepI [OF inv C dbg inv'(1) _ _ inv'(3) spec valid])
  show "chains_le C (Suc n)" using C(2) by (auto simp: chains_le_def le_SucI)
qed (use C(1) inv'(2) in auto)

lemma extract_cases:
  obtains "List.extract P l = None" "\<forall>x \<in> set l. \<not> P x"
    | xs x ys where "List.extract P l = Some (xs, x, ys)" "l = xs @ x # ys" "P x" "\<forall>y \<in> set xs. \<not> P y"
  by (cases "List.extract P l") (auto simp: extract_None_iff extract_Some_iff)

lemma step_new:
  assumes inv: "dirs_inv C E PL st" and C: "dom C = D" "chains_le C n" and dbg: "\<not> full_debug st"
  shows "\<exists>r status st'. cache_inode_new_entry codes (h, 0) local (New_begin attr) now st = Some (r, status, st') \<and>
    safe_step (Call_new h attr) D n st r status st'"
proof (cases "table_map (ic_ht st) (h, 0)")
  case None
  obtain r status st' where run: "cache_inode_new_entry codes (h, 0) local (New_begin attr) now st = Some (r, status, st')" "full_debug st' = full_debug st"
    "r = None \<and> status \<in> {CACHE_INODE_MALLOC_ERROR, CACHE_INODE_INIT_ENTRY_FAILED, CACHE_INODE_UNAPPROPRIATED_KEY, CACHE_INODE_HASH_SET_ERROR} \<and>
       dirs_inv C E PL st' \<and> same_contents_dirs C st st' \<and> (\<forall>x \<in> E. ents st' x = ents st x) \<or>
     (\<exists>p d. r = Some p \<and> status = CACHE_INODE_SUCCESS \<and> made C E (h, 0) p d p st st' \<and> new_begin h d (ents st' p) \<and> lists_ok (C(p \<mapsto> [])) st')"
    using new_begin_spec [OF inv None, of codes local attr now] by blast
  have DE: "x \<in> E" if "x \<in> D" for x using dom_entries [OF inv] that C(1) by blast
  from run(3) have "safe_step (Call_new h attr) D n st r status st'"
  proof (elim disjE exE conjE)
    assume f: "r = None" "status \<in> {CACHE_INODE_MALLOC_ERROR, CACHE_INODE_INIT_ENTRY_FAILED, CACHE_INODE_UNAPPROPRIATED_KEY, CACHE_INODE_HASH_SET_ERROR}"
      "dirs_inv C E PL st'" "same_contents_dirs C st st'" "\<forall>x \<in> E. ents st' x = ents st x"
    show ?thesis
    proof (rule safe_sameI [OF inv C dbg f(3)])
      show "dir_spec (Call_new h attr) (handle_of st) (valid_entry st) (contents C st) r status (contents C st')"
        using f(1,2) contents_same [OF f(4)] new_handle [OF inv None] by (auto simp: add_errors_def dom_contents)
    qed (use f(1,5) run(2) DE in \<open>auto simp: valid_entry_def\<close>)
  next
    fix p d assume m: "r = Some p" "status = CACHE_INODE_SUCCESS" "made C E (h, 0) p d p st st'" "new_begin h d (ents st' p)" "lists_ok (C(p \<mapsto> [])) st'"
    note M = made_begin [OF inv None m(3-5)]
    show ?thesis
    proof (rule safe_stepI [OF inv C dbg M(1)])
      show "dir_spec (Call_new h attr) (handle_of st) (valid_entry st) (contents C st) r status (contents (C(p \<mapsto> [])) st')"
        using m(1,2) M(2,3,4) by (simp add: dom_contents) (simp add: contents_def)
      show "chains_le (C(p \<mapsto> [])) (Suc n)" using C(2) by (auto simp: chains_le_def le_SucI)
      show "valid_entry st' e" if "e \<in> D" "valid_entry st e" for e using m(3) DE that by (simp add: made_def valid_entry_def)
    qed (use m(1,2) C(1) run(2) in auto)
  qed
  with run(1) show ?thesis by blast
next
  case (Some q)
  obtain ht where h: "cache_inode_new_entry codes (h, 0) local (New_begin attr) now st = Some (Some q, CACHE_INODE_ENTRY_EXISTS,
      err_retryable (upd_stat (\<lambda>s. s\<lparr>nb_call_total := nb_call_total s + 1, ne_nb_call := ne_nb_call s + 1\<rparr>) st\<lparr>ic_ht := ht\<rparr>))" (is "_ = Some (_, _, ?st)")
    "table_inv (ic_mem st) ht" "table_map ht = table_map (ic_ht st)" using new_entry_found [OF inv Some] by blast
  have a: "aside E (data_of st ` nodes C) st ?st" by (simp add: aside_def upd_stat_def err_retryable_def)
  have f: "free_ok E (pool_entry ?st) (ic_mem ?st)" "free_ok (data_of st ` nodes C) (pool_dir_data ?st) (ic_mem ?st)"
    "table_inv (ic_mem ?st) (ic_ht ?st)" "table_map (ic_ht ?st) = table_map (ic_ht st)"
    using inv h(2,3) by (simp_all add: dirs_inv_def struct_inv_def upd_stat_def err_retryable_def)
  note da = dirs_aside [OF inv a f]
  have "safe_step (Call_new h attr) D n st (Some q) CACHE_INODE_ENTRY_EXISTS ?st"
  proof (rule safe_sameI [OF inv C dbg da(1)])
    have "q = b" if "b \<in> dom C" "handle_of st b = h" for b using beginning_key [OF inv that(1)] Some that(2) by simp
    then show "dir_spec (Call_new h attr) (handle_of st) (valid_entry st) (contents C st) (Some q) CACHE_INODE_ENTRY_EXISTS (contents C ?st)"
      using contents_same [OF da(2)] by (simp add: dom_contents)
  qed (auto simp: valid_entry_def upd_stat_def err_retryable_def)
  with h(1) show ?thesis by blast
qed

lemma contents_at: "C b = Some cs \<Longrightarrow> contents C st b = Some (dirents st (b # cs))"
  by (simp add: contents_def)

lemma slot_frame_valid: "slot_frame st st' \<Longrightarrow> valid_entry st' e = valid_entry st e"
  by (simp add: slot_frame_def valid_entry_def)

lemma step_lookup:
  assumes inv: "dirs_inv C E PL st" and C: "dom C = D" "chains_le C n" and dbg: "\<not> full_debug st" and b: "C b = Some cs"
  shows "\<exists>r status st'. cache_inode_operate_cached_dirent b nm None CACHE_INODE_DIRENT_OP_LOOKUP st = Some (r, status, st') \<and>
    safe_step (Call_lookup b nm) D n st r status st'"
proof (cases rule: extract_cases [of "named_hit (valid_entry st) nm" "dirents st (b # cs)"])
  case 1
  from operate_miss [OF inv b dbg] 1(2) have
    "cache_inode_operate_cached_dirent b nm None CACHE_INODE_DIRENT_OP_LOOKUP st = Some (None, CACHE_INODE_NOT_FOUND, st)" by (simp add: hit_valid)
  moreover have "safe_step (Call_lookup b nm) D n st None CACHE_INODE_NOT_FOUND st"
    by (rule safe_sameI [OF inv C dbg inv]) (use 1(1) in \<open>simp_all add: contents_at [of C, OF b]\<close>)
  ultimately show ?thesis by blast
next
  case (2 xs x ys)
  from operate_hit(1) [OF inv b dbg 2(2)] 2(3,4) have
    "cache_inode_operate_cached_dirent b nm None CACHE_INODE_DIRENT_OP_LOOKUP st = Some (Some (snd x), CACHE_INODE_INVALID_ARGUMENT, st)"
    by (simp add: hit_valid)
  moreover have "safe_step (Call_lookup b nm) D n st (Some (snd x)) CACHE_INODE_INVALID_ARGUMENT st"
    by (rule safe_sameI [OF inv C dbg inv]) (use 2(1) in \<open>simp_all add: contents_at [of C, OF b] del: dirents_simps\<close>)
  ultimately show ?thesis by blast
qed

lemma step_rename:
  assumes inv: "dirs_inv C E PL st" and C: "dom C = D" "chains_le C n" and dbg: "\<not> full_debug st" and b: "C b = Some cs"
  shows "\<exists>r status st'. cache_inode_operate_cached_dirent b nm (Some m) CACHE_INODE_DIRENT_OP_RENAME st = Some (r, status, st') \<and>
    safe_step (Call_rename b nm m) D n st r status st'"
proof (cases rule: extract_cases [of "named_hit (valid_entry st) nm" "dirents st (b # cs)"])
  case 1
  from operate_miss [OF inv b dbg] 1(2) have
    "cache_inode_operate_cached_dirent b nm (Some m) CACHE_INODE_DIRENT_OP_RENAME st = Some (None, CACHE_INODE_NOT_FOUND, st)" by (simp add: hit_valid)
  moreover have "safe_step (Call_rename b nm m) D n st None CACHE_INODE_NOT_FOUND st"
    by (rule safe_sameI [OF inv C dbg inv]) (use 1(1) in \<open>simp_all add: contents_at [of C, OF b]\<close>)
  ultimately show ?thesis by blast
next
  case (2 xs x ys)
  from operate_hit(3) [OF inv b dbg 2(2), of nm m] 2(3,4) obtain st' where r:
    "cache_inode_operate_cached_dirent b nm (Some m) CACHE_INODE_DIRENT_OP_RENAME st = Some (Some (snd x), CACHE_INODE_SUCCESS, st')"
    "dirs_inv C E PL st'" "dirents st' (b # cs) = xs @ (m, snd x) # ys" "same_others C b st st'" "slot_frame st st'" unfolding hit_valid by blast
  have "safe_step (Call_rename b nm m) D n st (Some (snd x)) CACHE_INODE_SUCCESS st'"
  proof (rule safe_sameI [OF inv C dbg r(2)])
    show "dir_spec (Call_rename b nm m) (handle_of st) (valid_entry st) (contents C st) (Some (snd x)) CACHE_INODE_SUCCESS (contents C st')"
      using 2(1) r(3) contents_others [OF b r(4)] by (simp add: contents_at [of C, OF b] del: dirents_simps)
  qed (use r(5) slot_frame_valid [OF r(5)] in \<open>auto simp: slot_frame_def\<close>)
  with r(1) show ?thesis by blast
qed

lemma step_remove:
  assumes inv: "dirs_inv C E PL st" and C: "dom C = D" "chains_le C n" and dbg: "\<not> full_debug st" and b: "C b = Some cs"
  shows "\<exists>status st'. cache_inode_remove_cached_dirent b nm st = Some (status, status, st') \<and> safe_step (Call_remove b nm) D n st None status st'"
proof (cases rule: extract_cases [of "named_hit (valid_entry st) nm" "dirents st (b # cs)"])
  case 1
  from remove_miss [OF inv b dbg] 1(2) have
    "cache_inode_remove_cached_dirent b nm st = Some (CACHE_INODE_NOT_FOUND, CACHE_INODE_NOT_FOUND, st)" by (simp add: hit_valid)
  moreover have "safe_step (Call_remove b nm) D n st None CACHE_INODE_NOT_FOUND st"
    by (rule safe_sameI [OF inv C dbg inv]) (use 1(1) in \<open>simp_all add: contents_at [of C, OF b]\<close>)
  ultimately show ?thesis by blast
next
  case (2 xs x ys)
  from remove_hit [OF inv b dbg 2(2), of nm] 2(3,4) obtain PL' st' where r:
    "cache_inode_remove_cached_dirent b nm st = Some (CACHE_INODE_SUCCESS, CACHE_INODE_SUCCESS, st')"
    "dirs_inv C E PL' st'" "dirents st' (b # cs) = xs @ ys" "same_others C b st st'" "full_debug st' = full_debug st"
    "\<forall>e. internal_md (ents st' e) = internal_md (ents st e)" unfolding hit_valid by blast
  have "safe_step (Call_remove b nm) D n st None CACHE_INODE_SUCCESS st'"
  proof (rule safe_sameI [OF inv C dbg r(2)])
    show "dir_spec (Call_remove b nm) (handle_of st) (valid_entry st) (contents C st) None CACHE_INODE_SUCCESS (contents C st')"
      using 2(1) r(3) contents_others [OF b r(4)] by (simp add: contents_at [of C, OF b] del: dirents_simps)
  qed (use r(5,6) in \<open>auto simp: valid_entry_def\<close>)
  with r(1) show ?thesis by blast
qed

lemma step_invalidate:
  assumes inv: "dirs_inv C E PL st" and C: "dom C = D" "chains_le C n" and dbg: "\<not> full_debug st" and b: "C b = Some cs"
  shows "\<exists>status st'. cache_inode_invalidate_all_cached_dirent b st = Some (status, st') \<and> safe_step (Call_invalidate b) D n st None status st'"
proof -
  from invalidate_spec [OF inv b] obtain st' where r: "cache_inode_invalidate_all_cached_dirent b st = Some (CACHE_INODE_SUCCESS, st')"
    "dirs_inv C E PL st'" "dirents st' (b # cs) = []" "same_others C b st st'" "full_debug st' = full_debug st"
    "\<forall>e. internal_md (ents st' e) = internal_md (ents st e)" by blast
  have "safe_step (Call_invalidate b) D n st None CACHE_INODE_SUCCESS st'"
    by (rule safe_sameI [OF inv C dbg r(2)]) (use r(3,5,6) contents_others [OF b r(4)] in \<open>auto simp: valid_entry_def simp del: dirents_simps\<close>)
  with r(1) show ?thesis by blast
qed

lemma step_add:
  assumes inv: "dirs_inv C E PL st" and C: "dom C = D" "chains_le C n" and dbg: "\<not> full_debug st" and b: "C b = Some cs"
    and e: "e \<in> D" and n: "n < 2 ^ 32 - 2"
  shows "\<exists>status nx st'. cache_inode_add_cached_dirent codes local now b (Some nm) e st = Some (status, nx, st') \<and> safe_step (Call_add b nm e) D n st nx status st'"
proof -
  have DE: "x \<in> E" if "x \<in> D" for x using dom_entries [OF inv] that C(1) by blast
  have len: "Suc (length cs) < 2 ^ 32 - 1" using C(2) b n by (fastforce simp: chains_le_def)
  have b': "b \<in> set (b # visible st b cs)" by simp
  from add_spec [OF inv b b' DE [OF e] len, of codes local now nm] obtain status nx st' C' E' PL' where
    r: "cache_inode_add_cached_dirent codes local now b (Some nm) e st = Some (status, nx, st')" "full_debug st' = full_debug st" "valid_kept b E st st'"
      "dirs_inv C' E' PL' st'" "evolves C E C' E'" "added b nm e status nx (contents C st) (contents C' st')" by blast
  have "safe_step (Call_add b nm e) D n st nx status st'"
  proof (rule safe_stepI [OF inv C dbg r(4)])
    show "chains_le C' (Suc n)" unfolding chains_le_def
    proof (intro allI impI)
      fix b' cs' assume c: "C' b' = Some cs'"
      then have "b' \<in> dom C" using r(5) by (auto simp: evolves_def)
      then obtain cs0 where "C b' = Some cs0" by auto
      with C(2) r(5) c show "length cs' \<le> Suc n" by (fastforce simp: evolves_def chains_le_def)
    qed
    show "valid_entry st' x" if "x \<in> D" "valid_entry st x" for x using r(3) DE [OF that(1)] that(2) by (simp add: valid_kept_def valid_entry_def)
  qed (use r(2,5,6) C(1) in \<open>auto simp: evolves_def\<close>)
  with r(1) show ?thesis by blast
qed

lemma is_dir_empty_spec:
  assumes inv: "dirs_inv C E PL st" and b: "C b = Some cs"
  shows "cache_inode_is_dir_empty b st = Some (if dirents st (b # cs) = [] then CACHE_INODE_SUCCESS else CACHE_INODE_DIR_NOT_EMPTY)"
proof -
  have si: "struct_inv C E st" using inv by (simp add: dirs_inv_def)
  note ok = struct_invD(1) [OF si b]
  note v = dir_visible [OF dir_okD(4) [OF ok]]
  have "\<forall>n \<in> set (b # visible st b cs). node_ok st n" using dir_okD(6) [OF ok] v(3) by auto
  from is_dir_empty_walk [OF v(1) this] v(2) dir_okD(1) [OF ok] show ?thesis by (simp add: cache_inode_is_dir_empty_def)
qed

lemma dir_exec_safe:
  assumes "dirs_safe D n st" and n: "n < 2 ^ 32 - 2" and ok: "call_ok D call"
  shows "\<exists>r status st'. dir_exec codes local now call st = Some (r, status, st') \<and> safe_step call D n st r status st'"
proof -
  from assms(1) obtain C E PL where inv: "dirs_inv C E PL st" and C: "dom C = D" "chains_le C n" and dbg: "\<not> full_debug st"
    unfolding dirs_safe_def by blast
  have dom: "\<exists>cs. C b = Some cs" if "b \<in> D" for b using that C(1) by auto
  note S = inv C dbg
  show ?thesis
  proof (cases call)
    case (Call_new h attr)
    with step_new [OF S] show ?thesis by simp
  next
    case (Call_lookup b nm)
    with ok dom obtain cs where "C b = Some cs" by auto
    from step_lookup [OF S this] Call_lookup show ?thesis by simp
  next
    case (Call_remove b nm)
    with ok dom obtain cs where "C b = Some cs" by auto
    from step_remove [OF S this, where nm = nm] Call_remove show ?thesis by (auto simp: map_option_case split: option.splits)
  next
    case (Call_rename b nm m)
    with ok dom obtain cs where "C b = Some cs" by auto
    from step_rename [OF S this] Call_rename show ?thesis by simp
  next
    case (Call_invalidate b)
    with ok dom obtain cs where "C b = Some cs" by auto
    from step_invalidate [OF S this] Call_invalidate show ?thesis by (auto simp: map_option_case split: option.splits)
  next
    case (Call_add b nm e)
    with ok dom obtain cs where "C b = Some cs" "e \<in> D" by auto
    from step_add [OF S this n, where codes = codes and local = local and now = now and nm = nm] Call_add show ?thesis by (auto simp: map_option_case split: option.splits)
  next
    case (Call_is_empty b)
    with ok dom obtain cs where b: "C b = Some cs" by auto
    let ?status = "if dirents st (b # cs) = [] then CACHE_INODE_SUCCESS else CACHE_INODE_DIR_NOT_EMPTY"
    have "safe_step call D n st None ?status st" unfolding Call_is_empty
      by (rule safe_sameI [OF S inv]) (simp_all add: contents_at [of C, OF b] del: dirents_simps)
    with is_dir_empty_spec [OF inv b] Call_is_empty show ?thesis by (simp del: dirents_simps)
  qed
qed

interpretation dirs: directory_service dirs_safe "dir_exec codes local now" listing handle_of valid_entry for codes local now
proof
  fix D n and st :: "('a, 'b) inode_store" and call
  assume safe: "dirs_safe D n st"
  show "\<exists>r status st'. dir_exec codes local now call st = Some (r, status, st') \<and> dirs_safe (call_dirs call r status D) (Suc n) st' \<and>
      dir_spec call (handle_of st) (valid_entry st) (listing D st) r status (listing (call_dirs call r status D) st') \<and>
      (\<forall>e \<in> D. valid_entry st e \<longrightarrow> valid_entry st' e)" if "n < 2 ^ 32 - 2" "call_ok D call"
    using dir_exec_safe [OF safe that, of codes local now] unfolding safe_step_def .
  from safe obtain C E PL where "dirs_inv C E PL st" "dom C = D" unfolding dirs_safe_def by blast
  then show "dom (listing D st) = D" using contents_listing(1) dom_contents by metis
qed

section \<open>The states of the cache\<close>

text \<open>
  The start: the hash table and the LRU list are those of the initialisers, no entry is in use, every pool is a list of distinct
  objects and no allocation fails. Then come calls, and the garbage collector, which marks a directory as invalid before it
  looks whether the directory is empty.
\<close>

definition fresh_store :: "('h, 'a) inode_store \<Rightarrow> bool" where
  "fresh_store st \<longleftrightarrow>
     (\<exists>attr_rc codes par m m1 prm m2. good_param par \<and> HashTable_Init attr_rc codes par m = (Some (ic_ht st), m1) \<and>
        LRU_Init prm m1 = (LRU_LIST_SUCCESS, Some (lru_gc_list st), m2) \<and> clean_entry prm = lru_inode_clean_entry \<and>
        nb_entry_prealloc prm \<noteq> 0 \<and> brk m2 \<le> brk (ic_mem st)) \<and>
     mem_good (ic_mem st) \<and>
     (\<forall>pool \<in> {pool_entry st, pool_dir_data st, pool_parent st}. distinct pool \<and> (\<forall>a \<in> set pool. a < brk (ic_mem st))) \<and>
     (\<forall>d. length (dir_datas st d) = CHILDREN_ARRAY_SIZE) \<and> \<not> full_debug st"

inductive dir_reach :: "addr set \<Rightarrow> nat \<Rightarrow> ('h, 'a) inode_store \<Rightarrow> bool" where
  start: "fresh_store st \<Longrightarrow> dir_reach {} 0 st"
| call: "dir_reach D n st \<Longrightarrow> call_ok D call \<Longrightarrow> dir_exec codes local now call st = Some (r, status, st') \<Longrightarrow>
    dir_reach (call_dirs call r status D) (Suc n) st'"
| stale: "dir_reach D n st \<Longrightarrow> b \<in> D \<Longrightarrow>
    dir_reach D n (upd_ent b (\<lambda>e. e\<lparr>internal_md := (internal_md e)\<lparr>md_valid_state := INVALID\<rparr>\<rparr>) st)"

lemma LRU_Init_brk: "LRU_Init prm m = (rc, l, m') \<Longrightarrow> brk m \<le> brk m'"
  using STUFF_PREALLOC_spec [of "nb_entry_prealloc prm"]
  by (auto simp: LRU_Init_def Mem_Alloc_def Let_def split: option.splits prod.splits if_splits) fastforce+

lemma fresh_safe:
  assumes "fresh_store st"
  shows "dirs_safe {} 0 st"
proof -
  from assms obtain attr_rc codes par m m1 prm m2 where i: "good_param par" "HashTable_Init attr_rc codes par m = (Some (ic_ht st), m1)"
    "LRU_Init prm m1 = (LRU_LIST_SUCCESS, Some (lru_gc_list st), m2)" "clean_entry prm = lru_inode_clean_entry"
    "nb_entry_prealloc prm \<noteq> 0" "brk m2 \<le> brk (ic_mem st)" unfolding fresh_store_def by blast
  have f: "mem_good (ic_mem st)" "free_ok {} (pool_entry st) (ic_mem st)" "free_ok {} (pool_dir_data st) (ic_mem st)"
    "free_ok {} (pool_parent st) (ic_mem st)" "\<forall>d. length (dir_datas st d) = CHILDREN_ARRAY_SIZE" "\<not> full_debug st"
    using assms unfolding fresh_store_def free_ok_def by auto
  have le: "brk m1 \<le> brk (ic_mem st)" using LRU_Init_brk [OF i(3)] i(6) by simp
  have nodes: "nodes Map.empty = {}" by (auto simp: nodes_def)
  have "table_inv (ic_mem st) (ic_ht st)" "table_map (ic_ht st) = Map.empty"
    using table_inv_mono [OF HashTable_Init_inv(1) [OF i(2,1)] le] HashTable_Init_inv(2) [OF i(2,1)] by simp_all
  then have "keys_ok Map.empty st" by (simp add: keys_ok_def)
  moreover have "struct_inv Map.empty {} st" using f by (simp add: struct_inv_def nodes)
  moreover have "parents_inv Map.empty {} (\<lambda>e. []) st" using f(4) by (simp add: parents_inv_def)
  moreover have "lists_ok Map.empty st"
  proof -
    have "lru_inv [] (lru_gc_list st) (lru_heap st) (ic_mem st)" using LRU_Init_spec(1) [OF i(3), of "lru_heap st"] owned_mono [OF _ i(6)]
      by (auto simp: lru_inv_def)
    with LRU_Init_spec(2) [OF i(3)] i(4,5) f(1) show ?thesis by (auto simp: lists_ok_def lru_good_def)
  qed
  ultimately have "dirs_inv Map.empty {} (\<lambda>e. []) st" by (simp add: dirs_inv_def)
  then show ?thesis by (rule dirs_safeI) (use f(6) in \<open>auto simp: chains_le_def\<close>)
qed

lemma stale_safe:
  assumes "dirs_safe D n st"
  shows "dirs_safe D n (upd_ent b (\<lambda>e. e\<lparr>internal_md := (internal_md e)\<lparr>md_valid_state := INVALID\<rparr>\<rparr>) st)" (is "dirs_safe D n ?st")
proof -
  from assms obtain C E PL where inv: "dirs_inv C E PL st" and C: "dom C = D" "chains_le C n" "\<not> full_debug st"
    unfolding dirs_safe_def by blast
  have si: "struct_inv C E st" and rest: "keys_ok C st" "parents_inv C E PL st" "lists_ok C st" using inv by (auto simp: dirs_inv_def)
  note S = struct_invD [OF si]
  have f: "dview (ents ?st x) = dview (ents st x)" "parent_list (ents ?st x) = parent_list (ents st x)" "lru_entry_of (ents ?st x) = lru_entry_of (ents st x)" for x
    by (auto simp: upd_ent_def dview_def lru_entry_of_def)
  have sc: "struct_inv C E ?st" "\<And>b cs. C b = Some cs \<Longrightarrow> dirents ?st (b # cs) = dirents st (b # cs)" "\<And>b. b \<in> dom C \<Longrightarrow> handle_of ?st b = handle_of st b"
    by (rule struct_cong [OF si]; use f S(6-8) in \<open>simp add: upd_ent_def\<close>)+
  have "parents_inv C E PL ?st" by (rule parents_cong [OF rest(2)]) (use f sc(2) in \<open>auto simp: upd_ent_def simp del: dirents_simps\<close>)
  moreover have "keys_ok C ?st" by (rule keys_cong [OF rest(1)]) (use sc(3) in \<open>auto simp: upd_ent_def\<close>)
  moreover have "lists_ok C ?st" by (rule lists_cong [OF rest(3)]) (use f in \<open>auto simp: upd_ent_def\<close>)
  ultimately have "dirs_inv C E PL ?st" using sc(1) by (simp add: dirs_inv_def)
  then show ?thesis by (rule dirs_safeI) (use C in \<open>auto simp: upd_ent_def\<close>)
qed

lemma dir_reach_safe: "dir_reach D n st \<Longrightarrow> n \<le> 2 ^ 32 - 2 \<Longrightarrow> dirs_safe D n st"
proof (induction rule: dir_reach.induct)
  case (call D n st c codes local now r status st')
  have n: "n < 2 ^ 32 - 2" using call.prems by simp
  then have "dirs_safe D n st" using call.IH by simp
  from dirs.call_law(1) [OF this n call.hyps(2,3)] show ?case .
qed (use fresh_safe stale_safe in auto)

end
