(* ===== verification/Dir_Props.thy ===== *)
theory Dir_Props
  imports Dir_Safety
begin

text \<open>
  The properties of the cached directories, and a small cache on which they are used.
\<close>

section \<open>A small cache\<close>

definition dir_param :: "(u64 \<times> u32) hash_parameter" where
  "dir_param = \<lparr>dims = \<lparr>index_size = 3, alphabet_length = 10, nb_node_prealloc = 4\<rparr>,
     hash_func_key = cache_inode_fsal_hash_func (\<lambda>h c a i. (h + ucast c) mod ucast i), hash_func_rbt = cache_inode_fsal_rbt_func (\<lambda>h c. h),
     compare_key = (\<lambda>a b. cache_inode_compare_key_fsal (\<lambda>x y. if x = y then 0 else 1) (Some a) (Some b))\<rparr>"

definition dir_lru :: "unit lru_parameter" where
  "dir_lru = \<lparr>nb_entry_prealloc = 4, nb_call_gc_invalid = 2, clean_entry = lru_inode_clean_entry\<rparr>"

definition no_name :: fsal_name where
  "no_name = \<lparr>fsal_chars = cstr [], fsal_len = 0\<rparr>"

definition zero_slot :: dir_entry where
  "zero_slot = \<lparr>active = INVALID, de_pentry = None, de_name = no_name\<rparr>"

definition zero_entry :: "(u64, unit) centry" where
  "zero_entry = \<lparr>dir_begin = \<lparr>db_handle = 0, db_attributes = (), db_end_of_dir = END_OF_DIR, db_pdir_cont = None, db_pdir_last = None,
       db_nbactive = 0, db_nbdircont = 0, has_been_readdir = CACHE_INODE_NO, referral = None, db_pdir_data = None\<rparr>,
     dir_cont = \<lparr>dc_pdir_begin = None, dc_pdir_cont = None, dc_pdir_prev = None, dc_end_of_dir = END_OF_DIR, dc_nbactive = 0,
       dir_cont_pos = 0, dc_pdir_data = None\<rparr>,
     entry_lock = rw_lock_zero, internal_md = new_md UNASSIGNED 0, gc_lru_entry = None, gc_lru = None, parent_list = None\<rparr>"

definition small_ic :: "(u64, unit) inode_store" where
  "small_ic = (case new_table dir_param mem_ok of (ht, m1) \<Rightarrow> case LRU_Init dir_lru m1 of (rc, l, m2) \<Rightarrow>
     \<lparr>ic_mem = m2, ic_ht = ht, ents = (\<lambda>p. zero_entry), dir_datas = (\<lambda>d. replicate CHILDREN_ARRAY_SIZE zero_slot),
      parents = (\<lambda>q. \<lparr>subdirpos = 0, parent = None, next_parent = None\<rparr>),
      lru_heap = (\<lambda>p. \<lparr>lr_next = None, lr_prev = None, valid_state = LRU_ENTRY_VALID, buffdata = \<lparr>pdata = None, len = 0\<rparr>\<rparr>), lru_gc = 0,
      lru_gc_list = the l, pool_entry = [], pool_dir_data = [], pool_parent = [], pool_key = [], nb_prealloc = 4, nb_pre_dir_data = 4,
      nb_pre_parent = 4, ic_stat = \<lparr>nb_call_total = 0, ne_nb_call = 0, ne_nb_success = 0, ne_nb_err_retryable = 0, ne_nb_err_unrecover = 0\<rparr>,
      call_since_last_gc = 0, sizeof_entry = 8, full_debug = False\<rparr>)"

lemma small_fresh: "fresh_store small_ic"
proof -
  have gp: "good_param dir_param"
    by (simp add: good_param_def dir_param_def cache_inode_fsal_hash_func_def cache_inode_compare_key_fsal_def word_less_nat_alt unat_mod split: prod.splits)
  have mo: "mem_good mem_ok" by (simp add: mem_good_def mem_ok_def)
  have nz: "index_size (dims dir_param) \<noteq> 0" "nb_node_prealloc (dims dir_param) \<noteq> 0" by (simp_all add: dir_param_def)
  obtain ht :: "(u64 \<times> u32, addr) hash_table" and m1 where t: "new_table dir_param mem_ok = (ht, m1)" by (metis prod.exhaust)
  note T = new_table [OF gp mo nz t]
  obtain l m2 where i: "LRU_Init dir_lru m1 = (LRU_LIST_SUCCESS, Some l, m2)" "mem_good m2"
    using T(5) by (auto simp: LRU_Init_def dir_lru_def Mem_Alloc_def STUFF_PREALLOC_def mem_good_def Let_def upt_rec)
  have s: "ic_ht small_ic = ht" "lru_gc_list small_ic = l" "ic_mem small_ic = m2" "pool_entry small_ic = []" "pool_dir_data small_ic = []"
    "pool_parent small_ic = []" "\<not> full_debug small_ic" "length (dir_datas small_ic d) = CHILDREN_ARRAY_SIZE" for d
    by (simp_all add: small_ic_def t i(1))
  show ?thesis unfolding fresh_store_def
  proof (intro conjI)
    show "\<exists>attr_rc codes par m m1 prm m2. good_param par \<and> HashTable_Init attr_rc codes par m = (Some (ic_ht small_ic), m1) \<and>
        LRU_Init prm m1 = (LRU_LIST_SUCCESS, Some (lru_gc_list small_ic), m2) \<and> clean_entry prm = lru_inode_clean_entry \<and>
        nb_entry_prealloc prm \<noteq> 0 \<and> brk m2 \<le> brk (ic_mem small_ic)"
      unfolding s by (intro exI conjI) (rule gp T(1) i(1) order_refl | simp add: dir_lru_def)+
  qed (use i(2) in \<open>simp_all add: s\<close>)
qed

definition name_a :: fsal_name where
  "name_a = snd (FSAL_str2name [97] 1 no_name)"

text \<open>The cache with one directory, and then with an entry in it that names the directory itself.\<close>

definition ic1 :: "(u64, unit) inode_store" where
  "ic1 = snd (snd (the (dir_exec codes_ok 0 0 (Call_new 5 ()) small_ic)))"

definition ic2 :: "(u64, unit) inode_store" where
  "ic2 = snd (snd (the (dir_exec codes_ok 0 0 (Call_add 46 name_a 46) ic1)))"

lemma ic1_run: "dir_exec codes_ok 0 0 (Call_new 5 ()) small_ic = Some (Some 46, CACHE_INODE_SUCCESS, ic1)"
proof -
  have "map_option (\<lambda>(r, status, st). (r, status)) (dir_exec codes_ok 0 0 (Call_new 5 ()) small_ic) = Some (Some 46, CACHE_INODE_SUCCESS)" by code_simp
  then show ?thesis by (auto simp: ic1_def)
qed

lemma ic2_run: "dir_exec codes_ok 0 0 (Call_add 46 name_a 46) ic1 = Some (Some 46, CACHE_INODE_SUCCESS, ic2)"
proof -
  have "map_option (\<lambda>(r, status, st). (r, status)) (dir_exec codes_ok 0 0 (Call_add 46 name_a 46) ic1) = Some (Some 46, CACHE_INODE_SUCCESS)" by code_simp
  then show ?thesis by (auto simp: ic2_def)
qed

lemma ic1_reach: "dir_reach {46} 1 ic1" and ic2_reach: "dir_reach {46} 2 ic2"
proof -
  show r: "dir_reach {46} 1 ic1" using dir_reach.call [OF dir_reach.start [OF small_fresh] _ ic1_run] by simp
  show "dir_reach {46} 2 ic2" using dir_reach.call [OF r _ ic2_run] by (simp add: numeral_2_eq_2)
qed

lemma ic1_empty: "list_dir (Some 46) ic1 = Some []"
proof -
  have "dir_spec (Call_new 5 ()) (handle_of small_ic) (valid_entry small_ic) (listing {} small_ic) (Some 46) CACHE_INODE_SUCCESS (listing {46} ic1)"
    using dirs.call_law(2) [OF fresh_safe [OF small_fresh] _ _ ic1_run] by simp
  then have "listing {46} ic1 46 = Some []" by (auto simp: add_errors_def)
  then show ?thesis by (simp add: listing_def)
qed


lemma ic1_valid: "valid_entry ic1 46"
proof -
  have "valid_entry ic1 46 \<longleftrightarrow> True" by code_simp
  then show ?thesis by simp
qed

section \<open>Reading the structures\<close>

partial_function (option) chain_nodes :: "ptr \<Rightarrow> ('h, 'a) inode_store \<Rightarrow> addr list option" where
  "chain_nodes pentry st =
     (case pentry of
        None \<Rightarrow> Some []
      | Some c \<Rightarrow> Option.bind (chain_nodes (pdir_cont (ents st c)) st) (\<lambda>cs. Some (c # cs)))"

partial_function (option) parent_records :: "ptr \<Rightarrow> ('h, 'a) inode_store \<Rightarrow> addr list option" where
  "parent_records q st =
     (case q of
        None \<Rightarrow> Some []
      | Some p \<Rightarrow> Option.bind (parent_records (next_parent (parents st p)) st) (\<lambda>qs. Some (p # qs)))"

lemma chain_nodes_linked: "linked st c ns \<Longrightarrow> chain_nodes (Some c) st = Some (c # ns)"
  by (induction ns arbitrary: c) (auto simp: chain_nodes.simps [of "Some _"] chain_nodes.simps [of None])

lemma chain_nodes_dir: "dir_ok st b cs \<Longrightarrow> chain_nodes (Some b) st = Some (b # cs)"
  using dir_chain(2,3) [of st b cs] chain_nodes_linked [of st]
  by (cases cs) (auto simp: chain_nodes.simps [of "Some b"] chain_nodes.simps [of None])

lemma parent_records_plist: "plist (parents st) p qs \<Longrightarrow> parent_records p st = Some qs"
  by (induction qs arbitrary: p) (auto simp: parent_records.simps [of "Some _"] parent_records.simps [of None])

lemma reach_inv:
  assumes "dir_reach D n st" and "n \<le> 2 ^ 32 - 2" and "b \<in> D"
  obtains C E PL cs where "dirs_inv C E PL st" "dom C = D" "C b = Some cs" "dir_ok st b cs" "chain_nodes (Some b) st = Some (b # cs)"
    "list_dir (Some b) st = Some (dirents st (b # cs))" "D \<subseteq> E"
proof -
  from dir_reach_safe [OF assms(1,2)] obtain C E PL where inv: "dirs_inv C E PL st" "dom C = D" unfolding dirs_safe_def by blast
  with assms(3) obtain cs where b: "C b = Some cs" by auto
  have ok: "dir_ok st b cs" using inv(1) b by (simp add: dirs_inv_def struct_inv_def)
  have "list_dir (Some b) st = Some (dirents st (b # cs))" using contents_listing(2) [OF inv(1) b] b by (simp add: listing_def domI)
  with that [OF inv b ok chain_nodes_dir [OF ok]] dom_entries [OF inv(1)] inv(2) show thesis by blast
qed

section \<open>Properties\<close>

text \<open>
  C2. From an empty cache on, whatever directories are made, every call on them returns: no search runs forever, no pointer it
  follows is NULL and no lock it takes is held. Its results and what it leaves in all directories are those of lists of names:
  a new directory is empty and no two have the same handle, a lookup, a removal and a renaming act on the first valid entry with the
  name, an invalidation empties the directory, an addition puts the name somewhere in the list or fails and changes nothing, and the test
  for emptiness is right. So is the chain of 16 slot arrays with its counters, flags and parent records, which the calls
  update in place, an implementation of these lists. A lookup that succeeds leaves \<^verbatim>\<open>CACHE_INODE_INVALID_ARGUMENT\<close> in \<open>*pstatus\<close>. The bound on the number of calls
  keeps the positions in a chain within 32 bits.
\<close>

theorem cached_dirs_refine_lists:
  assumes "dir_reach D n st" and "n < 2 ^ 32 - 2" and "call_ok D call"
  shows "dom (listing D st) = D \<and> (\<exists>r status st'. dir_exec codes local now call st = Some (r, status, st') \<and>
    dir_spec call (handle_of st) (valid_entry st) (listing D st) r status (listing (call_dirs call r status D) st'))"
proof -
  have safe: "dirs_safe D n st" by (rule dir_reach_safe [OF assms(1)]) (use assms(2) in simp)
  from dirs.contract [OF safe assms(2,3), of codes local now] dirs.view_dom [OF safe] show ?thesis by blast
qed

theorem cached_dirs_refine_lists_witness:
  "dom (listing {46} ic2) = {46} \<and> (\<exists>r status st'. dir_exec codes_ok 0 7 (Call_rename 46 name_a no_name) ic2 = Some (r, status, st') \<and>
    dir_spec (Call_rename 46 name_a no_name) (handle_of ic2) (valid_entry ic2) (listing {46} ic2) r status (listing {46} st'))"
  using cached_dirs_refine_lists [OF ic2_reach, of "Call_rename 46 name_a no_name" codes_ok 0 7] by simp

text \<open>
  C7. What \<^verbatim>\<open>cache_inode_add_cached_dirent\<close> has added under a name that the directory did not have, the search finds, in whatever slot of
  whatever array it was put.
\<close>

theorem added_name_found:
  assumes "dir_reach D n st" and "n < 2 ^ 32 - 3" and "b \<in> D" and "e \<in> D" and "valid_entry st e"
    and "cache_inode_add_cached_dirent codes local now b (Some nm) e st = Some (CACHE_INODE_SUCCESS, nx, st')"
    and "\<forall>x \<in> set (the (list_dir (Some b) st)). fsal_chars (fst x) \<noteq> fsal_chars nm"
  shows "\<exists>st''. cache_inode_operate_cached_dirent b nm None CACHE_INODE_DIRENT_OP_LOOKUP st' = Some (Some e, CACHE_INODE_INVALID_ARGUMENT, st'')"
proof -
  have safe: "dirs_safe D n st" by (rule dir_reach_safe [OF assms(1)]) (use assms(2) in simp)
  have n: "Suc n < 2 ^ 32 - 2" using assms(2) by simp
  have add: "dir_exec codes local now (Call_add b nm e) st = Some (nx, CACHE_INODE_SUCCESS, st')" using assms(6) by simp
  have new: "\<forall>x \<in> set (the (listing D st b)). fsal_chars (fst x) \<noteq> fsal_chars nm" using assms(3,7) by (simp add: listing_def)
  from dirs.add_then_lookup [OF safe n assms(3-5) add new] show ?thesis by simp
qed

theorem added_name_found_witness:
  "\<exists>st''. cache_inode_operate_cached_dirent 46 name_a None CACHE_INODE_DIRENT_OP_LOOKUP ic2 = Some (Some 46, CACHE_INODE_INVALID_ARGUMENT, st'')"
proof -
  have "cache_inode_add_cached_dirent codes_ok 0 0 46 (Some name_a) 46 ic1 = Some (CACHE_INODE_SUCCESS, Some 46, ic2)" using ic2_run by auto
  from added_name_found [OF ic1_reach _ _ _ ic1_valid this] ic1_empty show ?thesis by simp
qed

text \<open>
  C8. The chain of a directory has no cycle and no two entries share a place: the hash table of the cache finds its entry number \<open>i\<close>
  under the handle of the directory and the cookie \<open>i\<close>, and the counter of each entry is the number of its active slots.
\<close>

theorem chain_entries_in_table:
  assumes "dir_reach D n st" and "n \<le> 2 ^ 32 - 2" and "b \<in> D"
  shows "\<exists>cs. chain_nodes (Some b) st = Some cs \<and> distinct cs \<and>
    (\<forall>i < length cs. (\<exists>ht. HashTable_Get (ic_ht st) (handle_of st b, of_nat i) = Some (HASHTABLE_SUCCESS, Some (cs ! i), ht)) \<and>
      unat (nbactive (ents st (cs ! i))) = length (live (slots st (cs ! i))))"
proof -
  obtain C E PL cs where r: "dirs_inv C E PL st" "dom C = D" "C b = Some cs" "dir_ok st b cs" "chain_nodes (Some b) st = Some (b # cs)"
    by (rule reach_inv [OF assms])
  have ko: "keys_ok C st" using r(1) by (simp add: dirs_inv_def)
  then have ti: "table_inv (ic_mem st) (ic_ht st)" by (simp add: keys_ok_def)
  have "(\<exists>ht. HashTable_Get (ic_ht st) (handle_of st b, of_nat i) = Some (HASHTABLE_SUCCESS, Some ((b # cs) ! i), ht)) \<and>
      unat (nbactive (ents st ((b # cs) ! i))) = length (live (slots st ((b # cs) ! i)))" if i: "i < length (b # cs)" for i
  proof
    have u: "unat (of_nat i :: u32) = i" by (rule unat_of_nat_pos) (use i dir_okD(5) [OF r(4)] in simp)
    have "table_map (ic_ht st) (handle_of st b, of_nat i) = (if unat (of_nat i :: u32) \<le> length cs then Some ((b # cs) ! unat (of_nat i :: u32)) else None)"
      using ko r(3) unfolding keys_ok_def by blast
    with i u have "table_map (ic_ht st) (handle_of st b, of_nat i) = Some ((b # cs) ! i)" by simp
    with table.get_law [OF ti, of "(handle_of st b, of_nat i)"]
    show "\<exists>ht. HashTable_Get (ic_ht st) (handle_of st b, of_nat i) = Some (HASHTABLE_SUCCESS, Some ((b # cs) ! i), ht)" by (auto simp: get_rc_def)
    have "node_ok st ((b # cs) ! i)" by (rule dir_okD(6) [OF r(4) nth_mem [OF i]])
    then show "unat (nbactive (ents st ((b # cs) ! i))) = length (live (slots st ((b # cs) ! i)))" by (rule node_nbactive)
  qed
  with r(5) dir_distinct [OF r(4)] show ?thesis by blast
qed

theorem chain_entries_in_table_witness:
  "\<exists>cs. chain_nodes (Some 46) ic2 = Some cs \<and> distinct cs \<and>
    (\<forall>i < length cs. (\<exists>ht. HashTable_Get (ic_ht ic2) (handle_of ic2 46, of_nat i) = Some (HASHTABLE_SUCCESS, Some (cs ! i), ht)) \<and>
      unat (nbactive (ents ic2 (cs ! i))) = length (live (slots ic2 (cs ! i))))"
  using chain_entries_in_table [OF ic2_reach] by simp

text \<open>
  C9. For every directory and every entry, the parent records of the entry, whose list ends, that point into the chain of the directory
  are at least as many as the active slots of the directory that name the entry. So a removal always finds a record to unlink; there can be more records, since an
  invalidation leaves them.
\<close>

theorem parent_records_cover_slots:
  assumes "dir_reach D n st" and "n \<le> 2 ^ 32 - 2" and "b \<in> D" and "e \<in> D"
  shows "\<exists>cs l qs. chain_nodes (Some b) st = Some cs \<and> list_dir (Some b) st = Some l \<and> parent_records (parent_list (ents st e)) st = Some qs \<and>
    distinct qs \<and> count_list (map snd l) e \<le> length (filter (\<lambda>q. parent (parents st q) \<in> Some ` set cs) qs)"
proof -
  obtain C E PL cs where r: "dirs_inv C E PL st" "C b = Some cs" "chain_nodes (Some b) st = Some (b # cs)"
    "list_dir (Some b) st = Some (dirents st (b # cs))" "D \<subseteq> E" by (rule reach_inv [OF assms(1-3)])
  have pi: "parents_inv C E PL st" and e: "e \<in> E" using r(1,5) assms(4) by (auto simp: dirs_inv_def)
  note P = parents_invD [OF pi e]
  have "in_dir st (b # cs) = (\<lambda>q. parent (parents st q) \<in> Some ` set (b # cs))" by (simp add: in_dir_def fun_eq_iff)
  with P(2) P(4) [OF r(2)] parent_records_plist [OF P(1)] r(3,4) show ?thesis by (intro exI [of _ "b # cs"] exI conjI) auto
qed

theorem parent_records_cover_slots_witness:
  "\<exists>cs l qs. chain_nodes (Some 46) ic2 = Some cs \<and> list_dir (Some 46) ic2 = Some l \<and> parent_records (parent_list (ents ic2 46)) ic2 = Some qs \<and>
    distinct qs \<and> count_list (map snd l) 46 \<le> length (filter (\<lambda>q. parent (parents ic2 q) \<in> Some ` set cs) qs)"
  using parent_records_cover_slots [OF ic2_reach] by simp



text \<open>
  When the name cannot be copied, \<^verbatim>\<open>cache_inode_add_cached_dirent\<close> reports an error, but the slot stays active while the counter of the array is put back:
  the counter is then smaller than the number of active slots. The parent record is taken from the pool and linked nowhere.
\<close>

theorem failed_add_breaks_counter:
  assumes "pdir_data (ents st c) = Some d" and "i < length (dir_datas st d)" and "active (dir_datas st d ! i) = INVALID"
    and "unat (nbactive (ents st c)) = length (live (dir_datas st d))"
    and "GET_PREALLOC (nb_pre_parent st) (pool_parent st) (ic_mem st) = (Some q, pool, m)"
  shows "\<exists>st'. fill_slot None e c i st = Some (CACHE_INODE_FSAL_ERROR, None, st') \<and>
    unat (nbactive (ents st' c)) < length (live (dir_datas st' d)) \<and> pool_parent st' = pool \<and> parent_list (ents st' e) = parent_list (ents st e)"
proof -
  let ?s = "(dir_datas st d ! i)\<lparr>active := VALID, de_pentry := Some e\<rparr>"
  have "length (live ((dir_datas st d)[i := ?s])) = Suc (length (live (dir_datas st d)))"
    unfolding live_update [OF assms(2)] using live_split [OF assms(2)] assms(3) by simp
  then show ?thesis using assms(1,2,4,5)
    by (auto simp: fill_slot_def FSAL_namecpy_def upd_ent_def upd_slot_def upd_parent_def Let_def)
qed

theorem failed_add_breaks_counter_witness:
  "\<exists>st'. fill_slot None 46 46 0 ic1 = Some (CACHE_INODE_FSAL_ERROR, None, st')"
proof -
  obtain C E PL cs where r: "dirs_inv C E PL ic1" "dir_ok ic1 46 cs" "list_dir (Some 46) ic1 = Some (dirents ic1 (46 # cs))"
    by (rule reach_inv [OF ic1_reach, of 46]) auto
  have n: "node_ok ic1 46" by (rule dir_okD(6) [OF r(2)]) simp
  then obtain d where d: "pdir_data (ents ic1 46) = Some d" "slots ic1 46 = dir_datas ic1 d" by (auto simp: node_ok_def slots_def)
  have len: "0 < length (dir_datas ic1 d)" using n d(2) by (simp add: node_ok_def slots_ok_def CHILDREN_ARRAY_SIZE_def)
  have "live (dir_datas ic1 d) = []" using r(3) ic1_empty d(2) by simp
  then have inactive: "active (dir_datas ic1 d ! 0) = INVALID" using nth_mem [OF len] by (cases "active (dir_datas ic1 d ! 0)") (auto simp: filter_empty_conv)
  have cnt: "unat (nbactive (ents ic1 46)) = length (live (dir_datas ic1 d))" using node_nbactive [OF n] d(2) by simp
  obtain u pool m where g: "GET_PREALLOC (nb_pre_parent ic1) (pool_parent ic1) (ic_mem ic1) = (u, pool, m)" by (metis prod_cases3)
  have "nb_pre_parent ic1 \<noteq> 0 \<longleftrightarrow> True" by code_simp
  moreover have "mem_good (ic_mem ic1)" using r(1) by (auto simp: dirs_inv_def lists_ok_def dest: lru_goodD(6))
  ultimately obtain q where "u = Some q" using GET_PREALLOC_good [OF g] by auto
  with failed_add_breaks_counter [OF d(1) len inactive cnt, of q pool m] g show ?thesis by blast
qed

end
