(* ===== verification/Spec2Isabelle.thy ===== *)
theory Spec2Isabelle
  imports RW_Lock SemN Stuff_Alloc RB_Tree Hash_Table NFS_Status NFS_Convert C_String Client_Id IP_Cache
    Open_Owner State_Id Session_Safety Linked_List Cache_Inode_State LRU_List Dupreq Buddy_Safety Dir_Props
begin

text \<open>
  NFS-GANESHA is a user-space NFS server: worker threads decode RPC requests, answer them from caches
  (inodes, client ids, state ids, sessions, duplicate requests, host names) and go to a file system abstraction
  layer (FSAL) when a cache has no answer. All caches are built on one hash table, whose buckets are
  red-black trees and whose memory comes from pools of preallocated entries. This development models
  these foundations and the caches of the NFSv4 state directly above them.

  \<^bold>\<open>Parts, theories and source files\<close> (paths below \<^verbatim>\<open>src/src/\<close>).

  \<^item> \<^verbatim>\<open>Prelude\<close>: machine word types, lemma collections, facts on lists and words.
  \<^item> \<^verbatim>\<open>RW_Lock\<close>: the readers/writer lock of \<^verbatim>\<open>RW_Lock/RW_Lock.c\<close>. \<open>P_r\<close>, \<open>V_r\<close>, \<open>P_w\<close>, \<open>V_w\<close> and
    \<open>rw_lock_downgrade\<close> act on the counters of \<^verbatim>\<open>rw_lock_t\<close>; \<open>rw_step\<close> interleaves any number of threads
    that block on the two condition variables and are woken (also spuriously). Shown: writers exclude
    each other, no wake-up is lost, a reader that is woken may meet a writer, and this is the only way
    exclusion is lost.
  \<^item> \<^verbatim>\<open>SemN\<close>: the counting semaphore of \<^verbatim>\<open>SemN/SemN.c\<close> as a step relation. Shown: a bound on the holders,
    and a lost wake-up.
  \<^item> \<^verbatim>\<open>Stuff_Alloc\<close>: the pools of \<^verbatim>\<open>include/stuff_alloc.h\<close>, on the heap and on lists, the locale
    \<open>pool_provider\<close> and its two interpretations. Shown: no entry is handed out twice, the two
    models agree over every sequence of calls.
    \<open>mem\<close> is the C allocator with an arbitrary schedule of failures.
  \<^item> \<^verbatim>\<open>RB_Tree\<close>: the macros of \<^verbatim>\<open>include/rbt_tree.h\<close> and \<^verbatim>\<open>include/rbt_node.h\<close> on zippers (a node with its
    path to the root). Shown: search, insertion and removal keep order and balance, removal removes
    exactly the node, depth is logarithmic; the locale \<open>bucket\<close> is the interface to the hash table.
  \<^item> \<^verbatim>\<open>Hash_Table\<close>: \<^verbatim>\<open>HashTable/HashTable.c\<close>, with its locks, pools, statistics and error codes. The locale
    \<open>hash_store\<close> is the contract of a store (what a lookup returns after an insertion or a removal, what
    every call keeps of the invariant); its interpretation \<open>table\<close> discharges it for the code, and the
    caches use its laws. The locale \<open>growing_store\<close> extends it: while no allocation fails no call reports a lack of memory.
    Shown: every sequence of calls behaves as a finite map.
  \<^item> \<^verbatim>\<open>NFS_Status\<close>: the error codes of the layers and their conversions (\<^verbatim>\<open>FSAL_GHOST_FS\<close>, \<^verbatim>\<open>Cache_inode\<close>,
    \<^verbatim>\<open>File_Content\<close>, \<^verbatim>\<open>NFS_Protocols/nfs_proto_tools.c\<close>). Shown: which errors reach the clients.
  \<^item> \<^verbatim>\<open>NFS_Convert\<close>: byte order, attribute bitmaps, modes, sequence ids. Shown: round trips.
  \<^item> \<^verbatim>\<open>C_String\<close>: C strings in buffers (\<open>255 cstr\<close>), byte arrays (\<open>12 bytes\<close>), \<^verbatim>\<open>strncmp\<close>, \<^verbatim>\<open>memcmp\<close>, integers in
    memory.
  \<^item> \<^verbatim>\<open>Client_Id\<close>: \<^verbatim>\<open>support/nfs_client_id.c\<close>, two tables over one heap of client records. Shown: lookups after
    additions and removals, on every error branch; the bounds of the id computations.
  \<^item> \<^verbatim>\<open>IP_Cache\<close>: \<^verbatim>\<open>support/nfs_ip_stats.c\<close> and \<^verbatim>\<open>support/nfs_ip_name.c\<close>. Shown: names are cached; the counters of
    different clients share a record; which clients can be removed.
  \<^item> \<^verbatim>\<open>Open_Owner\<close>: \<^verbatim>\<open>support/nfs_open_owner.c\<close>. Shown: the counters of the owners stay different.
  \<^item> \<^verbatim>\<open>State_Id\<close>: \<^verbatim>\<open>support/nfs_state_id.c\<close> and the records of \<^verbatim>\<open>include/cache_inode.h\<close> it works on. Shown: when
    state ids collide, and as lemmas what the check of a state id answers.
  \<^item> \<^verbatim>\<open>Session_Id\<close>, \<^verbatim>\<open>Session_Ops\<close>, \<^verbatim>\<open>Session_Safety\<close>: the NFSv4.1 sessions of \<^verbatim>\<open>support/nfs_session_id.c\<close> and the operations
    SEQUENCE, CREATE_SESSION and DESTROY_SESSION of \<^verbatim>\<open>NFS_Protocols/nfs41_op_sequence.c\<close>, \<^verbatim>\<open>nfs41_op_create_session.c\<close> and
    \<^verbatim>\<open>nfs41_op_destroy_session.c\<close>. The locale \<open>pointer_table\<close> is the contract of the tables of open owners, states and
    sessions, with an interpretation for each; \<open>session_step\<close> serves the operations in any order. Shown: session ids are
    unique until the counter wraps, sessions are well formed, a new session can be used, a request that is repeated at once is not executed again; a replay
    blocks its slot for ever, and the answer of DESTROY_SESSION is the wrong way round.
  \<^item> \<^verbatim>\<open>Cache_Inode_State\<close>: \<^verbatim>\<open>Cache_inode/cache_inode_state.c\<close>, the doubly linked list of the states of a file
    together with the hash table. Shown: the list, table, pool and lock after an addition, on every branch, and after a deletion,
    which candidates conflict, and over the reachable states (\<open>states_reach\<close>) that a state id is never answered as stale.

  \<^item> \<^verbatim>\<open>Linked_List\<close>: doubly linked lists in a heap; the locale \<open>links\<close> states what its lemmas need of the link
    fields, and the theories that have such lists interpret it on their nodes.
  \<^item> \<^verbatim>\<open>LRU_List\<close>: \<^verbatim>\<open>LRU/LRU_List.c\<close>, with arbitrary callbacks on a state of their own. Shown: the chain and its counters
    are consistent in every reachable state, all walks return, what a garbage collection takes out.
  \<^item> \<^verbatim>\<open>Dupreq\<close>: \<^verbatim>\<open>MainNFSD/nfs_dupreq.c\<close> and the garbage collection in \<^verbatim>\<open>MainNFSD/nfs_worker_thread.c\<close>, which
    put the hash table, the pools and the LRU list together. Shown: cached replies are returned, expired ones and
    no others are removed and released; a transfer id that is used again loses its new reply.
  \<^item> \<^verbatim>\<open>Buddy\<close>, \<^verbatim>\<open>Buddy_Inv\<close>, \<^verbatim>\<open>Buddy_Ops\<close>, \<^verbatim>\<open>Buddy_Calls\<close>, \<^verbatim>\<open>Buddy_Safety\<close>: the memory allocator \<^verbatim>\<open>BuddyMalloc/BuddyMalloc.c\<close>: its
    operations; the invariant of pages, blocks and lists; the steps of splitting and merging; the calls, with the locale
    \<open>allocator\<close> for what users rely on and its interpretation \<open>bud\<close>; the properties and the list of contexts. Shown: blocks in
    use never overlap and are large enough whatever the sequence of calls, all loops end, released pages are put together
    again, the statistics are exact after every sequence of calls; what \<open>BuddyRealloc\<close> and \<open>BuddyDestroy\<close> do wrong.
  \<^item> \<^verbatim>\<open>Dir_Cache\<close>, \<^verbatim>\<open>Dir_Inv\<close>, \<^verbatim>\<open>Dir_Ops\<close>, \<^verbatim>\<open>Dir_New\<close>, \<^verbatim>\<open>Dir_Link\<close>, \<^verbatim>\<open>Dir_Add\<close>, \<^verbatim>\<open>Dir_Make\<close>, \<^verbatim>\<open>Dir_Safety\<close>, \<^verbatim>\<open>Dir_Props\<close>: the cached directories
    of \<^verbatim>\<open>Cache_inode/cache_inode_readdir.c\<close>, with what they use of \<^verbatim>\<open>cache_inode_misc.c\<close>, \<^verbatim>\<open>cache_inode_remove.c\<close>, \<^verbatim>\<open>cache_inode_fsal_hash.c\<close> and
    \<^verbatim>\<open>FSAL/fsal_strings.c\<close>. In this order: the data and the operations; the invariant of the chains, of their keys in the hash table,
    of the parent records and of the LRU list; searches, removal, renaming and invalidation; the new entry and its place in the
    table and the LRU list; the chain that grows; additions; new directories; the abstract lists, the locale
    \<open>directory_service\<close> for what users rely on, its interpretation \<open>dirs\<close> and the reachable states; the properties. Shown: every
    sequence of calls returns and refines lists of names; what is added is found; the table, the
    counters and the parent records agree with the chains. The reachable states start from a cache whose allocations do not
    fail, with the full debug trace off, and the entries added to directories are cached directories.

  \<^bold>\<open>How the parts interact.\<close> A hash table call takes the lock of one bucket (\<^verbatim>\<open>RW_Lock\<close>), works on its tree
  (\<^verbatim>\<open>RB_Tree\<close>) and on the bucket's two pools (\<^verbatim>\<open>Stuff_Alloc\<close>). The caches keep records in a heap and pointers to
  them in tables, so that two tables (or a table and a linked list) can share a record. The callbacks that the
  duplicate request cache gives to its LRU list work on the hash table. A new directory entry takes memory of two pools, goes into the
  hash table and, with its lock taken, into the LRU list of the worker.

  \<^bold>\<open>Conventions.\<close> A result \<open>None\<close> is what C leaves undefined or does not return from: a NULL dereference, an
  index out of bounds, a lock that is not free. A theorem that a function returns says that it is \<open>Some\<close>.
  Fixed-width integers are words and wrap around. Loops over data are recursive functions with a
  termination proof; \<open>browse_states\<close> and the loops of the LRU lists, which follow pointers, are partial functions whose
  value on every well-formed list is proved, and so are the loops of the buddy allocator and of the directories; \<open>basic_loop\<close> has fuel for the 255 bytes of its buffer and one more round, so
  fuel never runs out before the buffer does. Locks are taken and released sequentially in the caches; the
  interleavings are in \<^verbatim>\<open>RW_Lock\<close> and \<^verbatim>\<open>SemN\<close>.

  \<^bold>\<open>Parameters.\<close> What the code gets from outside is an argument: the file id of a handle
  (\<^verbatim>\<open>FSAL_DigestHandle\<close>), the resolver \<^verbatim>\<open>gethostbyaddr\<close>, \<^verbatim>\<open>inet_addr\<close>, the time, the result codes of the pthread
  initialisations, the items of the parsed configuration, the byte after a local buffer.

  \<^bold>\<open>Not modelled.\<close> The FSAL back ends and MFSL (they call file systems), the generated XDR and RPC code and
  the vendored libraries, the NFS, MOUNT and NLM request handlers other than the three on sessions (\<^verbatim>\<open>nfs4_Compound\<close>, which
  stores and copies the cached replies, included), the inode cache's other operations
  (lookup, the population of directories from the file system, attributes, files, the removal of entries by the garbage collection), the data cache \<^verbatim>\<open>File_Content\<close>, the debug labels and dumps of the buddy allocator,
  configuration and log code, statistics output, the shell and the SNMP
  administration. Log messages and traces are left out of every function, \<^verbatim>\<open>sprintf\<close> display functions too.
\<close>

end
